(* ===== verification/Prelude.thy ===== *)
theory Prelude
  imports Complex_Main "HOL-Library.Word" "HOL-Library.Multiset"
begin

text \<open>
  What the component theories share: the fault type of the modelled C code, the
  result type with its sequencing operator, the names of the machine types, the
  collections of rules that the component proofs use, and small facts on lists and
  words.

  A function of the code that can abort, read or write outside an array, follow a null
  pointer or read the inactive member of a union returns a value of \<open>'a res\<close>: \<open>Inl\<close>
  of the fault, at the point where the C program stops or its behaviour is undefined,
  or \<open>Inr\<close> of the result.
\<close>

datatype fault =
    Abort           \<comment> \<open>the code calls abort() or exit()\<close>
  | OutOfBounds     \<comment> \<open>an array access outside the array\<close>
  | NullDeref       \<comment> \<open>a null pointer is followed\<close>
  | InactiveUnion   \<comment> \<open>a union is read through a member that was not the one stored\<close>
  | UndefinedShift  \<comment> \<open>a word is shifted by its width or more\<close>
  | Uninitialised  \<comment> \<open>memory is read before anything was stored in it\<close>
  | UseAfterFree   \<comment> \<open>memory is read after it was freed\<close>
  | OutOfFuel       \<comment> \<open>the bound given to a loop was not enough\<close>

type_synonym 'a res = "fault + 'a"

type_synonym u8 = "8 word"
type_synonym u32 = "32 word"
type_synonym u64 = "64 word"

type_synonym node_id = "32 word"  \<comment> \<open>node_id_t of Typedefs.h\<close>
type_synonym simtime = real       \<comment> \<open>simtime_t, a double: rounding is not modelled\<close>

named_theorems res_simps "equations of the result type"
named_theorems inv_intros "preservation of the components' invariants"

definition bindR :: "'a res \<Rightarrow> ('a \<Rightarrow> 'b res) \<Rightarrow> 'b res" where
  "bindR m f = (case m of Inl e \<Rightarrow> Inl e | Inr x \<Rightarrow> f x)"

definition guardR :: "bool \<Rightarrow> fault \<Rightarrow> unit res" where
  "guardR b e = (if b then Inr () else Inl e)"

definition nthR :: "'a list \<Rightarrow> nat \<Rightarrow> 'a res" where
  "nthR xs i = (if i < length xs then Inr (xs ! i) else Inl OutOfBounds)"

definition updR :: "'a list \<Rightarrow> nat \<Rightarrow> 'a \<Rightarrow> 'a list res" where
  "updR xs i x = (if i < length xs then Inr (xs[i := x]) else Inl OutOfBounds)"

lemma bindR_simps [simp, res_simps]:
  "bindR (Inl e) f = Inl e"
  "bindR (Inr x) f = f x"
  by (simp_all add: bindR_def)

lemma bindR_eq_Inr [res_simps]: "bindR m f = Inr y \<longleftrightarrow> (\<exists>x. m = Inr x \<and> f x = Inr y)"
  by (cases m) auto

lemma Inr_eq_bindR [res_simps]: "Inr y = bindR m f \<longleftrightarrow> (\<exists>x. m = Inr x \<and> Inr y = f x)"
  by (cases m) auto

lemma bindR_cong [fundef_cong]:
  "m = m' \<Longrightarrow> (\<And>x. m' = Inr x \<Longrightarrow> f x = f' x) \<Longrightarrow> bindR m f = bindR m' f'"
  by (cases m') auto

lemma bindR_assoc: "bindR (bindR m f) g = bindR m (\<lambda>x. bindR (f x) g)"
  by (cases m) auto

lemma guardR_simps [simp]: "guardR True e = Inr ()" "guardR False e = Inl e"
  by (simp_all add: guardR_def)

lemma guardR_eq_Inr [res_simps]: "guardR b e = Inr u \<longleftrightarrow> b"
  by (simp add: guardR_def)

lemma nthR_eq_Inr [res_simps]: "nthR xs i = Inr x \<longleftrightarrow> i < length xs \<and> xs ! i = x"
  by (auto simp: nthR_def)

lemma nthR_in [simp]: "i < length xs \<Longrightarrow> nthR xs i = Inr (xs ! i)"
  by (simp add: nthR_def)

lemma updR_eq_Inr [res_simps]: "updR xs i x = Inr ys \<longleftrightarrow> i < length xs \<and> ys = xs[i := x]"
  by (auto simp: updR_def)

lemma updR_in [simp]: "i < length xs \<Longrightarrow> updR xs i x = Inr (xs[i := x])"
  by (simp add: updR_def)

text \<open>A loop over a list whose body can fault; the first fault stops it.\<close>

fun foldR :: "('x \<Rightarrow> 's \<Rightarrow> 's res) \<Rightarrow> 'x list \<Rightarrow> 's \<Rightarrow> 's res" where
  "foldR f [] s = Inr s"
| "foldR f (x # xs) s = bindR (f x s) (foldR f xs)"

lemma foldR_append: "foldR f (xs @ ys) s = bindR (foldR f xs s) (foldR f ys)"
proof (induction xs arbitrary: s)
  case (Cons x xs)
  then show ?case by (cases "f x s") auto
qed simp

lemma foldR_total:
  assumes "\<And>x s. x \<in> set xs \<Longrightarrow> I s \<Longrightarrow> \<exists>s'. f x s = Inr s' \<and> I s'" and "I s"
  shows "\<exists>s'. foldR f xs s = Inr s' \<and> I s'"
  using assms
proof (induction xs arbitrary: s)
  case (Cons x xs)
  from Cons.prems(1) [of x s] Cons.prems(2) obtain s1 where "f x s = Inr s1" "I s1" by auto
  with Cons show ?case by auto
qed simp

lemma foldR_id: "(\<And>x. x \<in> set xs \<Longrightarrow> f x s = Inr s) \<Longrightarrow> foldR f xs s = Inr s"
  by (induction xs) auto

text \<open>
  Reasoning about all results of a computation that returns: \<open>okR P m\<close> says that what m
  returns satisfies P, and the rules follow the shape of the code.
\<close>

named_theorems okR_intros "rules that split a computation along its syntax"

definition okR :: "('a \<Rightarrow> bool) \<Rightarrow> 'a res \<Rightarrow> bool" where
  "okR P m \<longleftrightarrow> (\<forall>x. m = Inr x \<longrightarrow> P x)"

lemma okR_simps [simp]: "okR P (Inr x) \<longleftrightarrow> P x" "okR P (Inl e)"
  by (simp_all add: okR_def)

lemma okRD: "okR P m \<Longrightarrow> m = Inr x \<Longrightarrow> P x"
  by (simp add: okR_def)

lemma okRI: "(\<And>x. m = Inr x \<Longrightarrow> P x) \<Longrightarrow> okR P m"
  by (simp add: okR_def)

lemma okR_bind: "okR (\<lambda>x. okR P (f x)) m \<Longrightarrow> okR P (bindR m f)"
  by (auto simp: okR_def bindR_eq_Inr)

lemma okR_if [okR_intros]: "(c \<Longrightarrow> okR P a) \<Longrightarrow> (\<not> c \<Longrightarrow> okR P b) \<Longrightarrow> okR P (if c then a else b)"
  by simp

lemma okR_Let [okR_intros]: "(\<And>y. y = x \<Longrightarrow> okR P (f y)) \<Longrightarrow> okR P (Let x f)"
  by simp

lemma okR_option [okR_intros]:
  "(x = None \<Longrightarrow> okR P a) \<Longrightarrow> (\<And>y. x = Some y \<Longrightarrow> okR P (f y)) \<Longrightarrow> okR P (case x of None \<Rightarrow> a | Some y \<Rightarrow> f y)"
  by (cases x) auto

lemma okR_prod [okR_intros]: "(\<And>a b. x = (a, b) \<Longrightarrow> okR P (f a b)) \<Longrightarrow> okR P (case x of (a, b) \<Rightarrow> f a b)"
  by (cases x) auto

lemma okR_prod_app [okR_intros]:
  "(\<And>a b. x = (a, b) \<Longrightarrow> okR P (f a b y)) \<Longrightarrow> okR P ((case x of (a, b) \<Rightarrow> f a b) y)"
  by (cases x) auto

lemma okR_bindI [okR_intros]: "(\<And>x. m = Inr x \<Longrightarrow> okR P (f x)) \<Longrightarrow> okR P (bindR m f)"
  by (auto simp: okR_def bindR_eq_Inr)

lemma okR_Inr [okR_intros]: "P x \<Longrightarrow> okR P (Inr x)"
  by simp

lemma okR_Inl [okR_intros]: "okR P (Inl e)"
  by simp

text \<open>Lists and words.\<close>

lemma sorted_le_last:
  "sorted xs \<Longrightarrow> x \<in> set xs \<Longrightarrow> x \<le> last (xs :: nat list)"
  by (induction xs rule: rev_induct) (auto simp: sorted_append)

lemma sorted_hd_le:
  "sorted xs \<Longrightarrow> x \<in> set xs \<Longrightarrow> hd xs \<le> (x :: nat)"
  by (cases xs) auto

lemma sorted_filter_upt [simp]: "sorted (filter P [i..<j])"
  by (rule sorted_wrt_filter) (simp add: sorted_wrt_upt)

lemma div_mult_mod_nat: "(i div n) * n + i mod n = (i :: nat)"
  by (rule div_mult_mod_eq)

end
