(* ===== verification/Bitmap.thy ===== *)
theory Bitmap
  imports Prelude
begin

unbundle bit_operations_syntax

text \<open>
  The bitmap macros of external/bitmap.h (the same text as datatypes/bitmap.h of the
  ROOT-Sim core). A bitmap is an array of B_BLOCK_TYPE, uint_fast32_t, which is 64 bits
  wide on the platform the simulator is built for (x86-64, glibc); bit indexes are cast to
  unsigned, a 32 bit word. The macros do not know the length of the array: the model
  keeps the list of blocks, and an access outside it is \<open>OutOfBounds\<close>.

  The theory shows that every macro is what its name says on the set of the indexes whose
  bits are set, \<open>bits_of\<close>, but for bitmap_first_reset, which loses the block number.
\<close>

type_synonym bitmap = "u64 list"

definition B_BITS_PER_BLOCK :: nat where
  "B_BITS_PER_BLOCK = 64"

definition B_BLOCK_SIZE :: nat where
  "B_BLOCK_SIZE = 8"

definition B_MOD_OF_BPB :: "u32 \<Rightarrow> u32" where
  "B_MOD_OF_BPB n = n AND (of_nat B_BITS_PER_BLOCK - 1)"

definition B_SET_BIT_AT :: "u64 \<Rightarrow> u32 \<Rightarrow> u64" where
  "B_SET_BIT_AT B K = B OR push_bit (unat K) 1"

definition B_RESET_BIT_AT :: "u64 \<Rightarrow> u32 \<Rightarrow> u64" where
  "B_RESET_BIT_AT B K = B AND NOT (push_bit (unat K) 1)"

definition B_CHECK_BIT_AT :: "u64 \<Rightarrow> u32 \<Rightarrow> u64" where
  "B_CHECK_BIT_AT B K = B AND push_bit (unat K) 1"

definition bitmap_set :: "bitmap \<Rightarrow> u32 \<Rightarrow> bitmap res" where
  "bitmap_set A I =
     bindR (nthR A (unat (I div of_nat B_BITS_PER_BLOCK)))
       (\<lambda>B. updR A (unat (I div of_nat B_BITS_PER_BLOCK)) (B_SET_BIT_AT B (B_MOD_OF_BPB I)))"

definition bitmap_reset :: "bitmap \<Rightarrow> u32 \<Rightarrow> bitmap res" where
  "bitmap_reset A I =
     bindR (nthR A (unat (I div of_nat B_BITS_PER_BLOCK)))
       (\<lambda>B. updR A (unat (I div of_nat B_BITS_PER_BLOCK)) (B_RESET_BIT_AT B (B_MOD_OF_BPB I)))"

definition bitmap_check :: "bitmap \<Rightarrow> u32 \<Rightarrow> bool res" where
  "bitmap_check A I =
     bindR (nthR A (unat (I div of_nat B_BITS_PER_BLOCK)))
       (\<lambda>B. Inr (B_CHECK_BIT_AT B (B_MOD_OF_BPB I) \<noteq> 0))"

text \<open>The size in bytes of a bitmap, and a freshly allocated one of that size after memset.\<close>

definition bitmap_required_size :: "nat \<Rightarrow> nat" where
  "bitmap_required_size requested_bits =
     (requested_bits div B_BITS_PER_BLOCK
        + (if B_MOD_OF_BPB (of_nat requested_bits) \<noteq> 0 then 1 else 0)) * B_BLOCK_SIZE"

definition bitmap_initialize :: "nat \<Rightarrow> bitmap" where
  "bitmap_initialize requested_bits =
     replicate (bitmap_required_size requested_bits div B_BLOCK_SIZE) 0"

text \<open>
  The compiler builtins behind core/intrinsics.h, by their documented results: the number
  of ones, and the number of trailing zeros of a value that is not zero (the assertion of
  the macro).
\<close>

definition intrinsics_popcount :: "u64 \<Rightarrow> nat" where
  "intrinsics_popcount x = length (filter (bit x) [0..<64])"

definition intrinsics_ctz :: "u64 \<Rightarrow> u32 res" where
  "intrinsics_ctz x = (if x = 0 then Inl Abort else Inr (of_nat (hd (filter (bit x) [0..<64]))))"

text \<open>The loop of bitmap_count_set runs from the last block to the first.\<close>

fun count_set_loop :: "nat \<Rightarrow> bitmap \<Rightarrow> u32 \<Rightarrow> u32 res" where
  "count_set_loop 0 b ret = Inr ret"
| "count_set_loop (Suc i) b ret =
     bindR (nthR b i) (\<lambda>x. count_set_loop i b (ret + of_nat (intrinsics_popcount x)))"

definition bitmap_count_set :: "bitmap \<Rightarrow> nat \<Rightarrow> u32 res" where
  "bitmap_count_set b bitmap_size = count_set_loop (bitmap_size div B_BLOCK_SIZE) b 0"

definition bitmap_count_reset :: "bitmap \<Rightarrow> nat \<Rightarrow> u32 res" where
  "bitmap_count_reset b bitmap_size =
     bindR (bitmap_count_set b bitmap_size) (\<lambda>n. Inr (of_nat (bitmap_size * 8) - n))"

function first_reset_loop :: "nat \<Rightarrow> nat \<Rightarrow> bitmap \<Rightarrow> u32 res" where
  "first_reset_loop i blocks b =
     (if i < blocks then
        bindR (nthR b i) (\<lambda>x.
          if NOT x \<noteq> 0 then intrinsics_ctz (NOT x)
          else first_reset_loop (Suc i) blocks b)
      else Inr (- 1))"
  by pat_completeness auto
termination
  by (relation "measure (\<lambda>(i, blocks, b). blocks - i)") auto

definition bitmap_first_reset :: "bitmap \<Rightarrow> nat \<Rightarrow> u32 res" where
  "bitmap_first_reset b bitmap_size = first_reset_loop 0 (bitmap_size div B_BLOCK_SIZE) b"

lemma popcount_reset_less:
  "bit x k \<Longrightarrow> k < 64 \<Longrightarrow> intrinsics_popcount (x AND NOT (2 ^ k)) < intrinsics_popcount x"
proof -
  assume k: "bit x k" "k < 64"
  let ?y = "x AND NOT (2 ^ k)"
  have *: "filter (bit ?y) [0..<64] = filter (\<lambda>i. i \<noteq> k) (filter (bit x) [0..<64])"
    unfolding filter_filter
    by (rule filter_cong) (auto simp: bit_and_iff bit_not_iff bit_exp_iff)
  from k have "k \<in> set (filter (bit x) [0..<64])" by auto
  then show ?thesis
    unfolding intrinsics_popcount_def * by (rule length_filter_less) simp
qed

lemma ctz_bit:
  assumes "intrinsics_ctz x = Inr n"
  shows "bit x (unat n)" "unat n < 64" "\<And>j. j < unat n \<Longrightarrow> \<not> bit x j"
proof -
  let ?l = "filter (bit x) [0..<64]"
  from assms have x: "x \<noteq> 0" and n: "n = of_nat (hd ?l)"
    by (auto simp: intrinsics_ctz_def split: if_splits)
  have ne: "?l \<noteq> []"
  proof
    assume "?l = []"
    then have "\<And>i. i < 64 \<Longrightarrow> \<not> bit x i" by (auto simp: filter_empty_conv)
    then have "x = 0" by (intro bit_word_eqI) simp
    with x show False by simp
  qed
  then have hd: "hd ?l \<in> set ?l" by (rule hd_in_set)
  then have lt: "hd ?l < 64" by simp
  then have u: "unat n = hd ?l" by (simp add: n unat_of_nat)
  show "bit x (unat n)" "unat n < 64" using hd lt u by auto
  fix j assume j: "j < unat n"
  show "\<not> bit x j"
  proof
    assume "bit x j"
    with j u lt have "j \<in> set ?l" by auto
    then have "hd ?l \<le> j" by (intro sorted_hd_le) simp_all
    with j u show False by simp
  qed
qed

text \<open>
  bitmap_foreach_set calls the given function on the index of each set bit: the model
  returns the indexes in the order of the calls.
\<close>

function foreach_block :: "u64 \<Rightarrow> u32 \<Rightarrow> u32 list res" where
  "foreach_block cur base =
     bindR (intrinsics_ctz cur) (\<lambda>fnd.
       (let cur' = B_RESET_BIT_AT cur fnd in
        if cur' \<noteq> 0 then bindR (foreach_block cur' base) (\<lambda>is. Inr ((fnd + base) # is))
        else Inr [fnd + base]))"
  by pat_completeness auto
termination
  by (relation "measure (\<lambda>(cur, base). intrinsics_popcount cur)")
    (simp_all add: B_RESET_BIT_AT_def popcount_reset_less ctz_bit)

function foreach_loop :: "nat \<Rightarrow> nat \<Rightarrow> bitmap \<Rightarrow> u32 list res" where
  "foreach_loop i blocks b =
     (if i < blocks then
        bindR (nthR b i) (\<lambda>x.
        bindR (if x \<noteq> 0 then foreach_block x (of_nat (i * B_BITS_PER_BLOCK)) else Inr []) (\<lambda>is.
        bindR (foreach_loop (Suc i) blocks b) (\<lambda>js. Inr (is @ js))))
      else Inr [])"
  by pat_completeness auto
termination
  by (relation "measure (\<lambda>(i, blocks, b). blocks - i)") auto

definition bitmap_foreach_set :: "bitmap \<Rightarrow> nat \<Rightarrow> u32 list res" where
  "bitmap_foreach_set b bitmap_size = foreach_loop 0 (bitmap_size div B_BLOCK_SIZE) b"

fun merge_or_loop :: "nat \<Rightarrow> bitmap \<Rightarrow> bitmap \<Rightarrow> bitmap res" where
  "merge_or_loop 0 dest source = Inr dest"
| "merge_or_loop (Suc i) dest source =
     bindR (nthR dest i) (\<lambda>d. bindR (nthR source i) (\<lambda>s.
       bindR (updR dest i (d OR s)) (\<lambda>dest'. merge_or_loop i dest' source)))"

definition bitmap_merge_or :: "bitmap \<Rightarrow> bitmap \<Rightarrow> nat \<Rightarrow> bitmap res" where
  "bitmap_merge_or dest source bitmap_size =
     merge_or_loop (bitmap_size div B_BLOCK_SIZE) dest source"

declare first_reset_loop.simps [simp del] foreach_block.simps [simp del] foreach_loop.simps [simp del]

subsection \<open>The bitmap as a set of indexes\<close>

definition bits_of :: "bitmap \<Rightarrow> nat set" where
  "bits_of A = {i. i < 64 * length A \<and> bit (A ! (i div 64)) (i mod 64)}"

lemma unat_block: "unat (I div of_nat B_BITS_PER_BLOCK :: u32) = unat I div 64"
  by (simp add: B_BITS_PER_BLOCK_def unat_div)

lemma unat_B_MOD_OF_BPB: "unat (B_MOD_OF_BPB I) = unat I mod 64"
proof -
  have "B_MOD_OF_BPB I = take_bit 6 I"
    by (simp add: B_MOD_OF_BPB_def B_BITS_PER_BLOCK_def take_bit_eq_mask mask_eq_exp_minus_1)
  then show ?thesis by (simp add: unsigned_take_bit_eq take_bit_eq_mod unat_mod)
qed

lemma block_in_range: "unat (I :: u32) div 64 < n \<longleftrightarrow> unat I < 64 * n"
  by (simp add: div_less_iff_less_mult mult.commute)

lemma check_bit_at: "B_CHECK_BIT_AT B K \<noteq> 0 \<longleftrightarrow> bit B (unat K) \<and> unat K < 64"
proof -
  have "B_CHECK_BIT_AT B K = (if bit B (unat K) then 2 ^ unat K else 0)"
    by (auto intro!: bit_word_eqI simp: B_CHECK_BIT_AT_def bit_and_iff bit_exp_iff)
  moreover have "(2 :: u64) ^ unat K = 0 \<longleftrightarrow> \<not> unat K < 64"
    by (auto simp: exp_eq_zero_iff)
  ultimately show ?thesis by auto
qed

lemma bitmap_check_eq:
  "bitmap_check A I =
     (if unat I < 64 * length A then Inr (unat I \<in> bits_of A) else Inl OutOfBounds)"
  by (simp add: bitmap_check_def nthR_def unat_block unat_B_MOD_OF_BPB check_bit_at
      block_in_range bits_of_def)

lemma set_bit_at: "bit (B_SET_BIT_AT B K) n \<longleftrightarrow> bit B n \<or> (n = unat K \<and> n < 64)"
  by (auto simp: B_SET_BIT_AT_def bit_or_iff bit_exp_iff)

lemma reset_bit_at: "n < 64 \<Longrightarrow> bit (B_RESET_BIT_AT B K) n \<longleftrightarrow> bit B n \<and> n \<noteq> unat K"
  by (auto simp: B_RESET_BIT_AT_def bit_and_iff bit_not_iff bit_exp_iff)

lemma div_mod_64_eq: "i div 64 = j div 64 \<and> i mod 64 = j mod 64 \<longleftrightarrow> i = (j :: nat)"
  by (metis div_mult_mod_eq)

lemma bits_of_update:
  assumes "unat I div 64 < length A"
    and "\<And>n. n < 64 \<Longrightarrow> bit w n \<longleftrightarrow> (if n = unat I mod 64 then v else bit (A ! (unat I div 64)) n)"
  shows "bits_of (A[unat I div 64 := w]) = (if v then insert (unat I) (bits_of A) else bits_of A - {unat I})"
proof -
  have in_range: "unat I < 64 * length A" using assms(1) by (simp add: block_in_range)
  have "i \<in> bits_of (A[unat I div 64 := w]) \<longleftrightarrow>
      i < 64 * length A \<and> (if i = unat I then v else i \<in> bits_of A)" for i
  proof (cases "i div 64 = unat I div 64")
    case True
    then have "i = unat I \<longleftrightarrow> i mod 64 = unat I mod 64"
      using div_mod_64_eq [of i "unat I"] by auto
    with True assms show ?thesis by (simp add: bits_of_def)
  next
    case False
    then have "i \<noteq> unat I" by auto
    with False show ?thesis by (simp add: bits_of_def)
  qed
  with in_range show ?thesis by (auto simp: bits_of_def)
qed

lemma bitmap_set_eq:
  "bitmap_set A I =
     (if unat I < 64 * length A
      then Inr (A[unat I div 64 := B_SET_BIT_AT (A ! (unat I div 64)) (B_MOD_OF_BPB I)])
      else Inl OutOfBounds)"
  by (simp add: bitmap_set_def nthR_def updR_def unat_block block_in_range)

lemma bitmap_reset_eq:
  "bitmap_reset A I =
     (if unat I < 64 * length A
      then Inr (A[unat I div 64 := B_RESET_BIT_AT (A ! (unat I div 64)) (B_MOD_OF_BPB I)])
      else Inl OutOfBounds)"
  by (simp add: bitmap_reset_def nthR_def updR_def unat_block block_in_range)

lemma bits_of_set:
  "bitmap_set A I = Inr A' \<Longrightarrow> bits_of A' = insert (unat I) (bits_of A) \<and> length A' = length A"
  using bits_of_update [of I A _ True]
  by (auto simp: bitmap_set_eq set_bit_at unat_B_MOD_OF_BPB block_in_range split: if_splits)

lemma bits_of_reset:
  "bitmap_reset A I = Inr A' \<Longrightarrow> bits_of A' = bits_of A - {unat I} \<and> length A' = length A"
  using bits_of_update [of I A _ False]
  by (auto simp: bitmap_reset_eq reset_bit_at unat_B_MOD_OF_BPB block_in_range split: if_splits)

subsection \<open>Enumerating, counting and merging\<close>

definition block_bits :: "u64 \<Rightarrow> nat list" where
  "block_bits x = filter (bit x) [0..<64]"

lemma block_bits_Nil: "block_bits x = [] \<longleftrightarrow> x = 0"
proof
  assume "block_bits x = []"
  then have "\<And>i. i < 64 \<Longrightarrow> \<not> bit x i" by (auto simp: block_bits_def filter_empty_conv)
  then show "x = 0" by (intro bit_word_eqI) simp
qed (simp add: block_bits_def)

lemma ctz_block_bits: "block_bits x = k # l \<Longrightarrow> intrinsics_ctz x = Inr (of_nat k)"
  using block_bits_Nil [of x] by (auto simp: intrinsics_ctz_def block_bits_def)

lemma block_bits_reset:
  assumes "block_bits x = k # l"
  shows "block_bits (B_RESET_BIT_AT x (of_nat k)) = l"
proof -
  have k: "k < 64" using assms [THEN arg_cong [where f = set]] by (auto simp: block_bits_def)
  then have u: "unat (of_nat k :: u32) = k" by (simp add: unat_of_nat)
  have "block_bits (B_RESET_BIT_AT x (of_nat k)) = filter (\<lambda>i. i \<noteq> k) (block_bits x)"
    unfolding block_bits_def filter_filter
    by (rule filter_cong) (auto simp: reset_bit_at u)
  also have "\<dots> = l"
  proof -
    have "distinct (block_bits x)" by (simp add: block_bits_def)
    with assms show ?thesis by (auto simp: filter_id_conv)
  qed
  finally show ?thesis .
qed

lemma foreach_block_eq:
  "x \<noteq> 0 \<Longrightarrow> foreach_block x base = Inr (map (\<lambda>k. of_nat k + base) (block_bits x))"
proof (induction x base rule: foreach_block.induct)
  case (1 x base)
  from "1.prems" obtain k l where kl: "block_bits x = k # l"
    using block_bits_Nil [of x] by (cases "block_bits x") auto
  let ?y = "B_RESET_BIT_AT x (of_nat k)"
  have y: "block_bits ?y = l" by (rule block_bits_reset [OF kl])
  show ?case
  proof (cases "?y = 0")
    case True
    with y have "l = []" using block_bits_Nil [of 0] by simp
    with True kl show ?thesis
      by (simp add: foreach_block.simps [of x] ctz_block_bits Let_def)
  next
    case False
    from "1.IH" [OF ctz_block_bits [OF kl] refl False False] kl y False show ?thesis
      by (simp add: foreach_block.simps [of x] ctz_block_bits Let_def)
  qed
qed

lemma upt_block: "[64 * i..<64 * Suc i] = map (\<lambda>k. k + 64 * i) [0..<64]"
  by (simp add: map_add_upt)

lemma filter_bits_block:
  assumes "i < length b"
  shows "filter (\<lambda>j. j \<in> bits_of b) [64 * i..<64 * Suc i] = map (\<lambda>k. k + 64 * i) (block_bits (b ! i))"
proof -
  have "filter ((\<lambda>j. j \<in> bits_of b) \<circ> (\<lambda>k. k + 64 * i)) [0..<64] = block_bits (b ! i)"
    unfolding block_bits_def
  proof (rule filter_cong)
    fix k assume "k \<in> set [0..<64]"
    then have k: "k < 64" by simp
    with assms have "k + 64 * i < 64 * length b" by linarith
    with k show "((\<lambda>j. j \<in> bits_of b) \<circ> (\<lambda>k. k + 64 * i)) k = bit (b ! i) k"
      by (simp add: bits_of_def)
  qed simp
  then show ?thesis by (simp only: upt_block filter_map)
qed

lemma foreach_loop_eq:
  "blocks \<le> length b \<Longrightarrow> i \<le> blocks \<Longrightarrow>
   foreach_loop i blocks b = Inr (map of_nat (filter (\<lambda>j. j \<in> bits_of b) [64 * i..<64 * blocks]))"
proof (induction i blocks b rule: foreach_loop.induct)
  case (1 i blocks b)
  show ?case
  proof (cases "i < blocks")
    case True
    have split: "[64 * i..<64 * blocks] = [64 * i..<64 * Suc i] @ [64 * Suc i..<64 * blocks]"
      using True upt_add_eq_append [of "64 * i" "64 * Suc i" "64 * blocks - 64 * Suc i"] by simp
    have i: "i < length b" using True "1.prems" by simp
    have E: "(if b ! i \<noteq> 0 then foreach_block (b ! i) (of_nat (i * B_BITS_PER_BLOCK)) else Inr []) =
        Inr (map (\<lambda>k. of_nat (k + 64 * i)) (block_bits (b ! i)))"
      using block_bits_Nil [of "b ! i"]
      by (auto simp: foreach_block_eq B_BITS_PER_BLOCK_def mult.commute)
    have IH: "foreach_loop (Suc i) blocks b =
        Inr (map of_nat (filter (\<lambda>j. j \<in> bits_of b) [64 * Suc i..<64 * blocks]))"
      by (rule "1.IH" [OF True nthR_in [OF i] E]) (use True "1.prems" in simp_all)
    with True i IH E show ?thesis
      by (simp add: foreach_loop.simps [of i] split filter_bits_block [OF i] comp_def
          del: upt_Suc mult_Suc_right)
  next
    case False
    with "1.prems" show ?thesis by (subst foreach_loop.simps) simp
  qed
qed

text \<open>
  Within the 32 bit range of the indexes, bitmap_foreach_set visits exactly the set bits,
  each once and in increasing order.
\<close>

lemma bitmap_foreach_set_eq:
  "bitmap_foreach_set b (8 * length b) =
     Inr (map of_nat (filter (\<lambda>j. j \<in> bits_of b) [0..<64 * length b]))"
  by (simp add: bitmap_foreach_set_def B_BLOCK_SIZE_def foreach_loop_eq)

lemma card_bits_block:
  assumes "i < length b"
  shows "card (bits_of b \<inter> {..<64 * Suc i}) = card (bits_of b \<inter> {..<64 * i}) + intrinsics_popcount (b ! i)"
proof -
  let ?l = "filter (\<lambda>j. j \<in> bits_of b) [64 * i..<64 * Suc i]"
  have split: "bits_of b \<inter> {..<64 * Suc i} = (bits_of b \<inter> {..<64 * i}) \<union> set ?l"
    by auto
  have "card (set ?l) = length ?l" by (rule distinct_card) simp
  also have "\<dots> = intrinsics_popcount (b ! i)"
    by (simp only: filter_bits_block [OF assms] length_map block_bits_def intrinsics_popcount_def)
  finally show ?thesis
    unfolding split by (subst card_Un_disjoint) auto
qed

lemma count_set_loop_eq:
  "i \<le> length b \<Longrightarrow>
   count_set_loop i b ret = Inr (ret + of_nat (card (bits_of b \<inter> {..<64 * i})))"
  by (induction i arbitrary: ret) (simp_all add: card_bits_block add_ac del: mult_Suc_right)

lemma bits_of_bound: "bits_of b \<subseteq> {..<64 * length b}"
  by (auto simp: bits_of_def)

lemma bitmap_count_set_eq:
  "bitmap_count_set b (8 * length b) = Inr (of_nat (card (bits_of b)))"
  using count_set_loop_eq [of "length b" b 0] bits_of_bound [of b]
  by (simp add: bitmap_count_set_def B_BLOCK_SIZE_def Int_absorb2)

lemma merge_or_loop_eq:
  assumes "n \<le> length dest" "n \<le> length source"
  shows "\<exists>d. merge_or_loop n dest source = Inr d \<and> length d = length dest \<and>
     (\<forall>k. d ! k = (if k < n then dest ! k OR source ! k else dest ! k))"
  using assms
proof (induction n arbitrary: dest)
  case (Suc n)
  let ?dest = "dest[n := dest ! n OR source ! n]"
  from Suc.IH [of ?dest] Suc.prems obtain d where
    "merge_or_loop n ?dest source = Inr d" "length d = length ?dest"
    "\<forall>k. d ! k = (if k < n then ?dest ! k OR source ! k else ?dest ! k)"
    by auto
  with Suc.prems show ?case by (auto simp: nth_list_update less_Suc_eq)
qed simp

lemma bits_of_merge_or:
  assumes "length source = length dest"
  shows "\<exists>d. bitmap_merge_or dest source (8 * length dest) = Inr d \<and>
           length d = length dest \<and> bits_of d = bits_of dest \<union> bits_of source"
proof -
  from merge_or_loop_eq [of "length dest" dest source] assms obtain d where
    d: "merge_or_loop (length dest) dest source = Inr d" "length d = length dest"
    "\<forall>k. d ! k = (if k < length dest then dest ! k OR source ! k else dest ! k)"
    by auto
  have "i div 64 < length dest" if "i < 64 * length dest" for i
    using that by (simp add: div_less_iff_less_mult mult.commute)
  with d assms have "bits_of d = bits_of dest \<union> bits_of source"
    by (auto simp: bits_of_def bit_or_iff)
  with d show ?thesis by (simp add: bitmap_merge_or_def B_BLOCK_SIZE_def)
qed

text \<open>A fresh bitmap is empty and holds every index below the requested number of bits.\<close>

lemma bitmap_required_size_eq: "bitmap_required_size n = 8 * ((n + 63) div 64)"
proof -
  have "unat (B_MOD_OF_BPB (of_nat n)) = n mod 64"
    by (simp add: unat_B_MOD_OF_BPB unat_of_nat mod_mod_cancel)
  then have "B_MOD_OF_BPB (of_nat n) = 0 \<longleftrightarrow> n mod 64 = 0"
    by (metis unat_eq_zero)
  moreover have "(n + 63) div 64 = n div 64 + (if n mod 64 = 0 then 0 else 1)"
  proof -
    have "(n mod 64 + 63) div 64 = (if n mod 64 = 0 then 0 else 1 :: nat)"
    proof (cases "n mod 64")
      case (Suc k)
      have "n mod 64 < 64" by simp
      with Suc have "(n mod 64 + 63) div 64 = (k + 64) div 64" "k < 64" by (simp_all add: add.commute)
      with Suc show ?thesis by simp
    qed simp
    then show ?thesis by (simp add: div_add1_eq [of n 63])
  qed
  ultimately show ?thesis
    by (simp add: bitmap_required_size_def B_BITS_PER_BLOCK_def B_BLOCK_SIZE_def)
qed

lemma bitmap_required_size_bound: "requested \<le> 8 * bitmap_required_size requested"
proof -
  have "requested \<le> 64 * ((requested + 63) div 64)"
    using div_mult_mod_eq [of "requested + 63" 64] mod_less_divisor [of 64 "requested + 63"] by linarith
  then show ?thesis by (simp add: bitmap_required_size_eq)
qed

lemma bitmap_required_size_mono: "m \<le> n \<Longrightarrow> bitmap_required_size m \<le> bitmap_required_size n"
  unfolding bitmap_required_size_eq by (simp add: div_le_mono)

lemma length_bitmap_initialize: "length (bitmap_initialize n) = bitmap_required_size n div 8"
  by (simp add: bitmap_initialize_def B_BLOCK_SIZE_def)

lemma bitmap_initialize_empty [simp]: "bits_of (bitmap_initialize n) = {}"
proof -
  have "bit (replicate m 0 ! k) j = False" if "k < m" for m k j
    using that by simp
  then show ?thesis
    by (auto simp: bits_of_def bitmap_initialize_def div_less_iff_less_mult mult.commute)
qed

lemma bitmap_initialize_capacity: "n \<le> 64 * length (bitmap_initialize n)"
  using bitmap_required_size_bound [of n]
  by (auto simp: bitmap_initialize_def bitmap_required_size_def B_BLOCK_SIZE_def)

subsection \<open>Updating a range of bits\<close>

lemma unat_of_int: "0 \<le> i \<Longrightarrow> i < 2 ^ 32 \<Longrightarrow> unat (of_int i :: u32) = nat i"
  by (simp add: unat_eq_nat_uint uint_word_of_int_eq take_bit_int_eq_self)

text \<open>
  The interface of an operation that changes one bit, and the loop that applies it to the
  indexes of a range that a test selects: the code walks ranges of transactions this way
  both when it marks and when it unmarks them.
\<close>

locale bit_update =
  fixes upd :: "bitmap \<Rightarrow> u32 \<Rightarrow> bitmap res"
    and eff :: "nat set \<Rightarrow> nat set \<Rightarrow> nat set"
  assumes upd_ok: "unat i < 64 * length bm \<Longrightarrow> \<exists>bm'. upd bm i = Inr bm' \<and> length bm' = length bm
      \<and> bits_of bm' = eff (bits_of bm) {unat i}"
    and eff_empty: "eff A {} = A"
    and eff_Un: "eff (eff A X) Y = eff A (X \<union> Y)"
begin

lemma upd_range:
  assumes "0 \<le> lo" "lo \<le> hi" "hi \<le> 2 ^ 32" "hi \<le> int (64 * length bm)"
    "\<And>i. lo \<le> i \<Longrightarrow> i < hi \<Longrightarrow> chk i = Inr (nat i \<in> S)"
  shows "\<exists>bm'. foldR (\<lambda>i bm. bindR (chk i) (\<lambda>b. if b then upd bm (of_int i) else Inr bm)) [lo..hi - 1] bm = Inr bm'
     \<and> length bm' = length bm \<and> bits_of bm' = eff (bits_of bm) {k \<in> S. lo \<le> int k \<and> int k < hi}"
  using assms(2-)
proof (induction "nat (hi - lo)" arbitrary: hi)
  case 0
  then have "hi = lo" by simp
  moreover have "{k \<in> S. lo \<le> int k \<and> int k < lo} = {}" by auto
  ultimately show ?case by (simp only: eff_empty foldR.simps) (simp add: eff_empty)
next
  case (Suc n)
  let ?f = "\<lambda>i bm. bindR (chk i) (\<lambda>b. if b then upd bm (of_int i) else Inr bm)"
  have lt: "lo < hi" using Suc.hyps(2) by (cases "lo < hi") auto
  then have "n = nat (hi - 1 - lo)" "lo \<le> hi - 1" using Suc.hyps(2) by auto
  from Suc.hyps(1) [OF this] Suc.prems obtain b1 where b1:
    "foldR ?f [lo..hi - 1 - 1] bm = Inr b1" "length b1 = length bm"
    "bits_of b1 = eff (bits_of bm) {k \<in> S. lo \<le> int k \<and> int k < hi - 1}"
    by auto
  have split: "[lo..hi - 1] = [lo..hi - 1 - 1] @ [hi - 1]"
    using lt by (subst upto_rec2) auto
  have u: "unat (of_int (hi - 1) :: u32) = nat (hi - 1)"
    using assms(1) lt Suc.prems(2) by (intro unat_of_int) auto
  have "unat (of_int (hi - 1) :: u32) < 64 * length b1"
    unfolding u using b1(2) assms(1) lt Suc.prems(3) by auto
  from upd_ok [OF this] obtain b2 where b2: "upd b1 (of_int (hi - 1)) = Inr b2" "length b2 = length b1"
    "bits_of b2 = eff (bits_of b1) {nat (hi - 1)}" unfolding u by auto
  have step: "?f (hi - 1) b1 = Inr (if nat (hi - 1) \<in> S then b2 else b1)"
    using Suc.prems(4) [of "hi - 1"] lt b2 by simp
  have cases: "{k \<in> S. lo \<le> int k \<and> int k < hi} =
      {k \<in> S. lo \<le> int k \<and> int k < hi - 1} \<union> (if nat (hi - 1) \<in> S then {nat (hi - 1)} else {})"
  proof -
    have "int k < hi \<longleftrightarrow> int k < hi - 1 \<or> k = nat (hi - 1)" for k
      using lt assms(1) by linarith
    then show ?thesis using lt assms(1) by (auto split: if_splits)
  qed
  have "bits_of (if nat (hi - 1) \<in> S then b2 else b1) = eff (bits_of bm) {k \<in> S. lo \<le> int k \<and> int k < hi}"
    unfolding cases using b1(3) b2(3) by (simp add: eff_Un)
  then show ?case
    unfolding split foldR_append b1(1) using step b1(2) b2(2) by simp
qed

end

interpretation marking: bit_update bitmap_set "(\<union>)"
proof
  show "\<exists>bm'. bitmap_set bm i = Inr bm' \<and> length bm' = length bm \<and> bits_of bm' = bits_of bm \<union> {unat i}"
    if "unat i < 64 * length bm" for i bm
  proof -
    from that obtain bm' where "bitmap_set bm i = Inr bm'" by (simp add: bitmap_set_eq)
    with bits_of_set [OF this] show ?thesis by simp
  qed
qed auto

interpretation unmarking: bit_update bitmap_reset "(-)"
proof
  show "\<exists>bm'. bitmap_reset bm i = Inr bm' \<and> length bm' = length bm \<and> bits_of bm' = bits_of bm - {unat i}"
    if "unat i < 64 * length bm" for i bm
  proof -
    from that obtain bm' where "bitmap_reset bm i = Inr bm'" by (simp add: bitmap_reset_eq)
    with bits_of_reset [OF this] show ?thesis by simp
  qed
qed auto

end
