(* ===== verification/Config.thy ===== *)
theory Config
  imports Bitmap
begin

text \<open>
  The constants of Config.h, Topology.h and Attacks.h and the configuration globals of
  Config.c, Attacks.c and Statistics.c that the handlers read: they are set before the
  simulation starts and are collected in one record, the argument \<open>env\<close> of the
  operations that read them. Members of the union in struct attack_config are kept side by
  side; the code reads the one that \<open>attack_type\<close> names.
\<close>

definition N_NODES :: nat where "N_NODES = 1000"
definition MAX_PEERS :: nat where "MAX_PEERS = 120"
definition REGIONS_NUM :: nat where "REGIONS_NUM = 6"
definition TERMINATION_TIME :: nat where "TERMINATION_TIME = 60 * 60 * 24"
definition TXN_NUMBER :: nat where "TXN_NUMBER = 500000"
definition DEPTH_TO_KEEP :: nat where "DEPTH_TO_KEEP = 200"
definition GOSSIP_FANOUT :: nat where "GOSSIP_FANOUT = 80"
definition BLOCK_VALIDATION_TIME :: simtime where "BLOCK_VALIDATION_TIME = 3 / 100"
definition NODE_ID_MAX :: node_id where "NODE_ID_MAX = - 1"

definition DEFAULT_SELFISH_HASHPOWER :: real where "DEFAULT_SELFISH_HASHPOWER = 34 / 100"
definition DEFAULT_SELFISH_DEPTH :: nat where "DEFAULT_SELFISH_DEPTH = 2"
definition DEFAULT_FIFTY_ONE_HASHPOWER :: real where "DEFAULT_FIFTY_ONE_HASHPOWER = 51 / 100"
definition DEFAULT_CATCHUP_TOLERANCE :: nat where "DEFAULT_CATCHUP_TOLERANCE = 1"
definition DEFAULT_SELFISH_START_TIME :: simtime where "DEFAULT_SELFISH_START_TIME = 600"

definition REGIONS_DISTRIBUTION :: "real list" where
  "REGIONS_DISTRIBUTION = [476 / 1000, 222 / 1000, 0, 297 / 1000, 5 / 1000, 0]"

definition LATENCIES :: "real list list" where
  "LATENCIES =
    [[ 32 / 1000, 124 / 1000, 184 / 1000, 198 / 1000, 151 / 1000, 189 / 1000],
     [124 / 1000,  11 / 1000, 227 / 1000, 237 / 1000, 252 / 1000, 294 / 1000],
     [184 / 1000, 227 / 1000,  88 / 1000, 325 / 1000, 301 / 1000, 322 / 1000],
     [198 / 1000, 237 / 1000, 325 / 1000,  85 / 1000,  58 / 1000, 198 / 1000],
     [151 / 1000, 252 / 1000, 301 / 1000,  58 / 1000,  12 / 1000, 126 / 1000],
     [189 / 1000, 294 / 1000, 322 / 1000, 198 / 1000, 126 / 1000,  16 / 1000]]"

datatype attack_type = ATTACK_NONE | ATTACK_SELFISH_MINING | ATTACK_FIFTY_ONE

record selfish_config =
  sm_hashPowerPortion :: real
  sm_depth :: nat
  sm_catchupTolerance :: nat
  sm_startTime :: simtime

record fifty_one_config =
  fo_hashPowerPortion :: real
  fo_catchupTolerance :: nat

record attack_config =
  ac_type :: attack_type
  selfish :: selfish_config
  fiftyOne :: fifty_one_config

datatype stats_type = STATS_NONE | STATS_DETAILED | STATS_FIFTY_ONE | STATS_SELFISH

record env =
  attackConfig :: attack_config
  statsType :: stats_type
  is_attacker_bitmap :: bitmap
  attacker_ids :: "node_id list"
  BLOCK_INTERVAL :: real
  lps :: nat
  termination_time :: simtime

text \<open>The configuration before the command line is read (Config.c, and main for the statistics type).\<close>

definition default_env :: env where
  "default_env =
     \<lparr>attackConfig = \<lparr>ac_type = ATTACK_NONE,
         selfish = \<lparr>sm_hashPowerPortion = 0, sm_depth = 0, sm_catchupTolerance = 0, sm_startTime = 0\<rparr>,
         fiftyOne = \<lparr>fo_hashPowerPortion = 0, fo_catchupTolerance = 0\<rparr>\<rparr>,
      statsType = STATS_NONE, is_attacker_bitmap = [], attacker_ids = [], BLOCK_INTERVAL = 13,
      lps = N_NODES, termination_time = real TERMINATION_TIME\<rparr>"

definition setStatsType :: "stats_type \<Rightarrow> env \<Rightarrow> env" where
  "setStatsType ty env = env\<lparr>statsType := ty\<rparr>"

lemma DEPTH_TO_KEEP_pos [simp]: "0 < DEPTH_TO_KEEP"
  by (simp add: DEPTH_TO_KEEP_def)

end
