(* ===== verification/Xxtea.thy ===== *)
theory Xxtea
  imports Prelude
begin

unbundle bit_operations_syntax

text \<open>
  The XXTEA block cipher of ROOT-Sim_rng/src/xxtea.c, which scrambles the seed of a random
  stream. Blocks are 32 bit words and wrap around as in the code; the loops are the loops
  of the code, with the accumulators z and y that carry the neighbouring block.

  The main result is the round trip: xxtea_decode undoes xxtea_encode for every array of
  more than one block and every key, so distinct seeds stay distinct.
\<close>

definition XXTEA_DELTA :: u32 where
  "XXTEA_DELTA = 0x9e3779b9"

definition xxtea_mx :: "u32 \<Rightarrow> u32 \<Rightarrow> u32 \<Rightarrow> u32 \<Rightarrow> u32 \<Rightarrow> u32 list \<Rightarrow> u32" where
  "xxtea_mx y z sm p e key =
     ((drop_bit 5 z XOR push_bit 2 y) + (drop_bit 3 y XOR push_bit 4 z)) XOR
     ((sm XOR y) + (key ! unat ((p AND 3) XOR e) XOR z))"

definition xxtea_rounds :: "nat \<Rightarrow> nat" where
  "xxtea_rounds n = 8 + 50 div n"

text \<open>The inner loop of the encoder: p runs from its argument up to n - 2; returns v and z.\<close>

function encode_inner :: "nat \<Rightarrow> nat \<Rightarrow> u32 \<Rightarrow> u32 \<Rightarrow> u32 list \<Rightarrow> u32 list \<Rightarrow> u32 \<Rightarrow> u32 list \<times> u32" where
  "encode_inner p n sm e key v z =
     (if p < n - 1 then
        let x = v ! p + xxtea_mx (v ! (p + 1)) z sm (of_nat p) e key
        in encode_inner (p + 1) n sm e key (v[p := x]) x
      else (v, z))"
  by pat_completeness auto
termination
  by (relation "measure (\<lambda>(p, n, _). n - p)") auto

fun encode_rounds :: "nat \<Rightarrow> nat \<Rightarrow> u32 \<Rightarrow> u32 list \<Rightarrow> u32 list \<Rightarrow> u32 \<Rightarrow> u32 list" where
  "encode_rounds 0 n sm key v z = v"
| "encode_rounds (Suc rounds) n sm key v z =
     (let e = drop_bit 2 sm AND 3;
          (v1, z1) = encode_inner 0 n sm e key v z;
          x = v1 ! (n - 1) + xxtea_mx (v1 ! 0) z1 sm (of_nat (n - 1)) e key
      in encode_rounds rounds n (sm + XXTEA_DELTA) key (v1[n - 1 := x]) x)"

definition xxtea_encode :: "u32 list \<Rightarrow> nat \<Rightarrow> u32 list \<Rightarrow> u32 list" where
  "xxtea_encode v n key = encode_rounds (xxtea_rounds n) n XXTEA_DELTA key v (v ! (n - 1))"

text \<open>The inner loop of the decoder: p runs down to 1; returns v and y.\<close>

fun decode_inner :: "nat \<Rightarrow> u32 \<Rightarrow> u32 \<Rightarrow> u32 list \<Rightarrow> u32 list \<Rightarrow> u32 \<Rightarrow> u32 list \<times> u32" where
  "decode_inner 0 sm e key v y = (v, y)"
| "decode_inner (Suc p) sm e key v y =
     (let x = v ! Suc p - xxtea_mx y (v ! p) sm (of_nat (Suc p)) e key
      in decode_inner p sm e key (v[Suc p := x]) x)"

fun decode_rounds :: "nat \<Rightarrow> nat \<Rightarrow> u32 \<Rightarrow> u32 list \<Rightarrow> u32 list \<Rightarrow> u32 \<Rightarrow> u32 list" where
  "decode_rounds 0 n sm key v y = v"
| "decode_rounds (Suc rounds) n sm key v y =
     (let e = drop_bit 2 sm AND 3;
          (v1, y1) = decode_inner (n - 1) sm e key v y;
          x = v1 ! 0 - xxtea_mx y1 (v1 ! (n - 1)) sm 0 e key
      in decode_rounds rounds n (sm - XXTEA_DELTA) key (v1[0 := x]) x)"

definition xxtea_decode :: "u32 list \<Rightarrow> nat \<Rightarrow> u32 list \<Rightarrow> u32 list" where
  "xxtea_decode v n key =
     decode_rounds (xxtea_rounds n) n (of_nat (xxtea_rounds n) * XXTEA_DELTA) key v (v ! 0)"

declare encode_inner.simps [simp del]

subsection \<open>The loops as sequences of single block steps\<close>

text \<open>
  Both ciphers mix block p with its two neighbours on the ring of blocks. Step p writes
  block p only, and the neighbours of p are other blocks when there is more than one, so
  subtracting undoes adding.
\<close>

definition nbr :: "nat \<Rightarrow> u32 list \<Rightarrow> u32 \<Rightarrow> u32 list \<Rightarrow> nat \<Rightarrow> u32" where
  "nbr n key sm v p =
     xxtea_mx (v ! (if p = n - 1 then 0 else p + 1)) (v ! (if p = 0 then n - 1 else p - 1))
       sm (of_nat p) (drop_bit 2 sm AND 3) key"

definition enc_step :: "nat \<Rightarrow> u32 list \<Rightarrow> u32 \<Rightarrow> u32 list \<Rightarrow> nat \<Rightarrow> u32 list" where
  "enc_step n key sm v p = v[p := v ! p + nbr n key sm v p]"

definition dec_step :: "nat \<Rightarrow> u32 list \<Rightarrow> u32 \<Rightarrow> u32 list \<Rightarrow> nat \<Rightarrow> u32 list" where
  "dec_step n key sm v p = v[p := v ! p - nbr n key sm v p]"

definition enc_round :: "nat \<Rightarrow> u32 list \<Rightarrow> u32 \<Rightarrow> u32 list \<Rightarrow> u32 list" where
  "enc_round n key sm v = foldl (enc_step n key sm) v [0..<n]"

definition dec_round :: "nat \<Rightarrow> u32 list \<Rightarrow> u32 \<Rightarrow> u32 list \<Rightarrow> u32 list" where
  "dec_round n key sm v = foldl (dec_step n key sm) v (rev [0..<n])"

lemma length_enc_step [simp]: "length (enc_step n key sm v p) = length v"
  by (simp add: enc_step_def)

lemma length_dec_step [simp]: "length (dec_step n key sm v p) = length v"
  by (simp add: dec_step_def)

lemma length_foldl_enc [simp]: "length (foldl (enc_step n key sm) v ps) = length v"
  by (induction ps arbitrary: v) simp_all

lemma length_enc_round [simp]: "length (enc_round n key sm v) = length v"
  by (simp add: enc_round_def)

lemma dec_enc_step:
  assumes "1 < n" "length v = n" "p < n"
  shows "dec_step n key sm (enc_step n key sm v p) p = v"
proof -
  have "nbr n key sm (v[p := x]) p = nbr n key sm v p" for x
    using assms by (auto simp: nbr_def)
  with assms show ?thesis by (simp add: enc_step_def dec_step_def)
qed

lemma dec_enc_fold:
  assumes "1 < n" "length v = n" "\<forall>p\<in>set ps. p < n"
  shows "foldl (dec_step n key sm) (foldl (enc_step n key sm) v ps) (rev ps) = v"
  using assms(3)
proof (induction ps rule: rev_induct)
  case (snoc p ps)
  then show ?case using assms(1,2) by (simp add: dec_enc_step)
qed simp

lemma dec_enc_round:
  "1 < n \<Longrightarrow> length v = n \<Longrightarrow> dec_round n key sm (enc_round n key sm v) = v"
  unfolding dec_round_def enc_round_def by (rule dec_enc_fold) auto

lemma encode_inner_eq:
  assumes "length v = n" "p < n" "z = v ! (if p = 0 then n - 1 else p - 1)"
  shows "encode_inner p n sm (drop_bit 2 sm AND 3) key v z =
     (let w = foldl (enc_step n key sm) v [p..<n - 1] in (w, w ! (if n = 1 then 0 else n - 2)))"
  using assms
proof (induction "n - p" arbitrary: p v z)
  case (Suc k)
  show ?case
  proof (cases "p < n - 1")
    case True
    define x where "x = v ! p + xxtea_mx (v ! Suc p) z sm (of_nat p) (drop_bit 2 sm AND 3) key"
    have step: "v[p := x] = enc_step n key sm v p"
      using True Suc.prems by (simp add: enc_step_def nbr_def x_def)
    have x: "x = enc_step n key sm v p ! p"
      using Suc.prems step by (metis nth_list_update_eq)
    have "encode_inner p n sm (drop_bit 2 sm AND 3) key v z =
        encode_inner (Suc p) n sm (drop_bit 2 sm AND 3) key (enc_step n key sm v p) x"
      using True by (subst encode_inner.simps) (simp add: Let_def x_def [symmetric] step)
    also have "\<dots> = (let w = foldl (enc_step n key sm) (enc_step n key sm v p) [Suc p..<n - 1]
        in (w, w ! (if n = 1 then 0 else n - 2)))"
      by (rule Suc.hyps(1)) (use Suc.hyps(2) Suc.prems True x in auto)
    also have "foldl (enc_step n key sm) (enc_step n key sm v p) [Suc p..<n - 1] =
        foldl (enc_step n key sm) v [p..<n - 1]"
      by (simp only: upt_conv_Cons [OF True] foldl_Cons)
    finally show ?thesis .
  next
    case False
    with Suc.prems have "p = n - 1" by simp
    with Suc.prems show ?thesis
      by (subst encode_inner.simps) (auto simp: Let_def numeral_2_eq_2)
  qed
qed simp

lemma foldl_enc_nth_0:
  "1 < n \<Longrightarrow> length v = n \<Longrightarrow> enc_round n key sm v =
     (let w = foldl (enc_step n key sm) v [0..<n - 1] in enc_step n key sm w (n - 1))"
  by (cases n) (simp_all add: enc_round_def)

lemma encode_rounds_Suc:
  assumes "1 < n" "length v = n"
  shows "encode_rounds (Suc r) n sm key v (v ! (n - 1)) =
     encode_rounds r n (sm + XXTEA_DELTA) key (enc_round n key sm v) (enc_round n key sm v ! (n - 1))"
proof -
  let ?w = "foldl (enc_step n key sm) v [0..<n - 1]"
  have inner: "encode_inner 0 n sm (drop_bit 2 sm AND 3) key v (v ! (n - 1)) = (?w, ?w ! (n - 2))"
    using encode_inner_eq [of v n 0 "v ! (n - 1)" sm key] assms by (simp add: Let_def)
  have w: "length ?w = n" using assms by simp
  have "?w[n - 1 := ?w ! (n - 1) + xxtea_mx (?w ! 0) (?w ! (n - 2)) sm (of_nat (n - 1)) (drop_bit 2 sm AND 3) key]
      = enc_step n key sm ?w (n - 1)"
    using assms by (simp add: enc_step_def nbr_def numeral_2_eq_2)
  then have step: "?w[n - 1 := ?w ! (n - 1) + xxtea_mx (?w ! 0) (?w ! (n - 2)) sm (of_nat (n - 1)) (drop_bit 2 sm AND 3) key]
      = enc_round n key sm v"
    using assms by (simp add: foldl_enc_nth_0 Let_def)
  have "enc_round n key sm v ! (n - 1) =
      ?w ! (n - 1) + xxtea_mx (?w ! 0) (?w ! (n - 2)) sm (of_nat (n - 1)) (drop_bit 2 sm AND 3) key"
    using assms w unfolding step [symmetric] by simp
  with step inner show ?thesis by (simp add: Let_def)
qed

lemma decode_inner_eq:
  assumes "length v = n" "p < n" "y = v ! (if p = n - 1 then 0 else Suc p)" "1 < n"
  shows "decode_inner p sm (drop_bit 2 sm AND 3) key v y =
     (let w = foldl (dec_step n key sm) v (rev [1..<Suc p]) in (w, w ! 1))"
  using assms
proof (induction p arbitrary: v y)
  case 0
  then show ?case by auto
next
  case (Suc p)
  define x where "x = v ! Suc p - xxtea_mx y (v ! p) sm (of_nat (Suc p)) (drop_bit 2 sm AND 3) key"
  have step: "v[Suc p := x] = dec_step n key sm v (Suc p)"
    using Suc.prems by (simp add: dec_step_def nbr_def x_def)
  have "decode_inner (Suc p) sm (drop_bit 2 sm AND 3) key v y =
      decode_inner p sm (drop_bit 2 sm AND 3) key (dec_step n key sm v (Suc p)) x"
    by (simp add: Let_def x_def [symmetric] step del: of_nat_Suc)
  also have "\<dots> = (let w = foldl (dec_step n key sm) (dec_step n key sm v (Suc p)) (rev [1..<Suc p])
      in (w, w ! 1))"
    by (rule Suc.IH) (use Suc.prems step [symmetric] in auto)
  also have "foldl (dec_step n key sm) (dec_step n key sm v (Suc p)) (rev [1..<Suc p]) =
      foldl (dec_step n key sm) v (rev [1..<Suc (Suc p)])"
    by simp
  finally show ?case .
qed

lemma decode_rounds_Suc:
  assumes "1 < n" "length v = n"
  shows "decode_rounds (Suc r) n sm key v (v ! 0) =
     decode_rounds r n (sm - XXTEA_DELTA) key (dec_round n key sm v) (dec_round n key sm v ! 0)"
proof -
  let ?w = "foldl (dec_step n key sm) v (rev [1..<n])"
  have inner: "decode_inner (n - 1) sm (drop_bit 2 sm AND 3) key v (v ! 0) = (?w, ?w ! 1)"
    using decode_inner_eq [of v n "n - 1" "v ! 0" sm key] assms by (simp add: Let_def)
  have len: "length (foldl (dec_step n key sm) u ps) = length u" for u ps
    by (induction ps arbitrary: u) simp_all
  have w: "length ?w = n" using assms len by simp
  have "[0..<n] = 0 # [1..<n]" using assms by (simp add: upt_conv_Cons)
  then have round: "dec_round n key sm v = dec_step n key sm ?w 0"
    by (simp add: dec_round_def)
  have step: "?w[0 := ?w ! 0 - xxtea_mx (?w ! 1) (?w ! (n - 1)) sm 0 (drop_bit 2 sm AND 3) key]
      = dec_round n key sm v"
    unfolding round using assms by (simp add: dec_step_def nbr_def)
  have "dec_round n key sm v ! 0 =
      ?w ! 0 - xxtea_mx (?w ! 1) (?w ! (n - 1)) sm 0 (drop_bit 2 sm AND 3) key"
    using assms w unfolding step [symmetric] by simp
  with step inner show ?thesis by (simp add: Let_def)
qed

lemma encode_rounds_snoc:
  assumes "1 < n" "length v = n"
  shows "encode_rounds (Suc r) n sm key v (v ! (n - 1)) =
     enc_round n key (sm + of_nat r * XXTEA_DELTA) (encode_rounds r n sm key v (v ! (n - 1)))
   \<and> length (encode_rounds r n sm key v (v ! (n - 1))) = n"
  using assms
proof (induction r arbitrary: v sm)
  case 0
  from encode_rounds_Suc [OF 0, of 0 sm key] 0 show ?case by simp
next
  case (Suc r)
  let ?v = "enc_round n key sm v"
  have v: "length ?v = n" using Suc.prems by simp
  have E: "encode_rounds (Suc k) n sm key v (v ! (n - 1)) =
      encode_rounds k n (sm + XXTEA_DELTA) key ?v (?v ! (n - 1))" for k
    by (rule encode_rounds_Suc [OF Suc.prems])
  from Suc.IH [OF Suc.prems(1) v, of "sm + XXTEA_DELTA"] show ?case
    unfolding E by (simp add: algebra_simps)
qed

lemma decode_encode_rounds:
  assumes "1 < n" "length v = n"
  shows "decode_rounds r n (sm + of_nat r * XXTEA_DELTA - XXTEA_DELTA) key
     (encode_rounds r n sm key v (v ! (n - 1))) (encode_rounds r n sm key v (v ! (n - 1)) ! 0) = v"
proof (induction r)
  case (Suc r)
  let ?w = "encode_rounds r n sm key v (v ! (n - 1))"
  have w: "encode_rounds (Suc r) n sm key v (v ! (n - 1)) =
      enc_round n key (sm + of_nat r * XXTEA_DELTA) ?w" "length ?w = n"
    using encode_rounds_snoc [OF assms] by auto
  from decode_rounds_Suc [OF assms(1), of "enc_round n key (sm + of_nat r * XXTEA_DELTA) ?w" r
      "sm + of_nat r * XXTEA_DELTA" key] Suc.IH w assms(1)
  show ?case unfolding w(1) by (simp add: dec_enc_round algebra_simps del: decode_rounds.simps)
qed simp

lemma length_xxtea_encode: "1 < n \<Longrightarrow> length v = n \<Longrightarrow> length (xxtea_encode v n key) = n"
  using encode_rounds_snoc by (simp add: xxtea_encode_def)

lemma decode_encode:
  "1 < n \<Longrightarrow> length v = n \<Longrightarrow> xxtea_decode (xxtea_encode v n key) n key = v"
  using decode_encode_rounds [of n v "xxtea_rounds n" XXTEA_DELTA key]
  by (simp add: xxtea_encode_def xxtea_decode_def)

text \<open>C35: decoding an encoded array of blocks gives the array back, whatever the key.\<close>

theorem xxtea_roundtrip:
  assumes "1 < n" and "length v = n"
  shows "xxtea_decode (xxtea_encode v n key) n key = v"
  by (rule decode_encode [OF assms])

theorem xxtea_roundtrip_witness:
  "xxtea_decode (xxtea_encode [1, 2, 3] 3 [4, 5, 6, 7]) 3 [4, 5, 6, 7] = [1, 2, 3]"
  by (rule xxtea_roundtrip) simp_all

end
