(* ===== verification/Rng.thy ===== *)
theory Rng
  imports Xxtea
begin

unbundle bit_operations_syntax

text \<open>
  The random number generators of ROOT-Sim_rng: the xoshiro256 step of xoroshiro.h on four
  64 bit words, the seeding of a stream through XXTEA, and the distributions of random.c
  that the simulator draws from. A double built from its bits is the real number that
  IEEE 754 gives to these bits; arithmetic on doubles is exact, and log, sqrt and floor of
  math.h are the functions of that name on the reals. Gamma, Zipf and
  RandomRangeNonUniform, which the simulator never calls, are in Distributions.

  The results: the generator step is injective and never enters the all-zero state from
  another one; two streams of one master seed never start in the same state; Random lies in
  the half-open unit interval and is the drawn word divided by 2 to the 64, cut to 53 bits.
\<close>

record rng_t =
  state0 :: u64
  state1 :: u64
  state2 :: u64
  state3 :: u64

definition rotl :: "u64 \<Rightarrow> nat \<Rightarrow> u64" where
  "rotl x k = push_bit k x OR drop_bit (64 - k) x"

definition random_u64 :: "rng_t \<Rightarrow> u64 \<times> rng_t" where
  "random_u64 s =
     (let res = rotl (state1 s * 5) 7 * 9;
          t = push_bit 17 (state1 s);
          s = s\<lparr>state2 := state2 s XOR state0 s\<rparr>;
          s = s\<lparr>state3 := state3 s XOR state1 s\<rparr>;
          s = s\<lparr>state1 := state1 s XOR state2 s\<rparr>;
          s = s\<lparr>state0 := state0 s XOR state3 s\<rparr>;
          s = s\<lparr>state2 := state2 s XOR t\<rparr>;
          s = s\<lparr>state3 := rotl (state3 s) 45\<rparr>
      in (res, s))"

definition RandomU64 :: "rng_t \<Rightarrow> u64 \<times> rng_t" where
  "RandomU64 ctx = random_u64 ctx"

text \<open>The state seen as the array of eight 32 bit blocks that XXTEA works on (little endian).\<close>

definition blocks_of :: "rng_t \<Rightarrow> u32 list" where
  "blocks_of s = concat (map (\<lambda>w. [ucast w, ucast (drop_bit 32 w)]) [state0 s, state1 s, state2 s, state3 s])"

definition join_blocks :: "u32 \<Rightarrow> u32 \<Rightarrow> u64" where
  "join_blocks lo hi = ucast lo OR push_bit 32 (ucast hi)"

definition rng_of_blocks :: "u32 list \<Rightarrow> rng_t" where
  "rng_of_blocks v = \<lparr>state0 = join_blocks (v ! 0) (v ! 1), state1 = join_blocks (v ! 2) (v ! 3),
     state2 = join_blocks (v ! 4) (v ! 5), state3 = join_blocks (v ! 6) (v ! 7)\<rparr>"

definition xxtea_seeding_key :: "u32 list" where
  "xxtea_seeding_key = [0xd0a8f58a, 0x33359424, 0x09baa55b, 0x80e1bdb0]"

definition initialize_stream :: "u64 \<Rightarrow> u32 \<Rightarrow> rng_t" where
  "initialize_stream master_seed stream =
     rng_of_blocks (xxtea_encode
       (blocks_of \<lparr>state0 = ucast stream, state1 = master_seed, state2 = ucast stream, state3 = master_seed\<rparr>)
       8 xxtea_seeding_key)"

subsection \<open>The generator step\<close>

lemma bit_rotl45: "n < 64 \<Longrightarrow> bit (rotl x 45) n \<longleftrightarrow> bit x (if n < 45 then n + 19 else n - 45)"
  by (auto simp: rotl_def bit_or_iff bit_push_bit_iff bit_drop_bit_eq add.commute
      dest: bit_imp_le_length)

lemma rotl45_inj: "rotl x 45 = rotl y 45 \<Longrightarrow> x = y"
proof (rule bit_word_eqI)
  fix n assume eq: "rotl x 45 = rotl y 45" and "n < LENGTH(64)"
  then have n: "n < 64" by simp
  show "bit x n = bit y n"
  proof (cases "n < 19")
    case True
    then have "bit (rotl z 45) (n + 45) = bit z n" for z by (simp add: bit_rotl45)
    with eq show ?thesis by metis
  next
    case False
    with n have "n - 19 < 45" "n - 19 + 19 = n" by simp_all
    then have "bit (rotl z 45) (n - 19) = bit z n" for z by (simp add: bit_rotl45)
    with eq show ?thesis by metis
  qed
qed

lemma xorshift_inj:
  fixes x y :: u64
  assumes "x XOR push_bit 17 x = y XOR push_bit 17 y"
  shows "x = y"
proof -
  have "bit x n = bit y n" if "n < 64" for n
    using that
  proof (induction n rule: less_induct)
    case (less n)
    have "bit (x XOR push_bit 17 x) n = bit (y XOR push_bit 17 y) n" using assms by simp
    moreover have "n \<ge> 17 \<Longrightarrow> bit x (n - 17) = bit y (n - 17)" using less by simp
    ultimately show ?case
      using less.prems by (auto simp: bit_xor_iff bit_push_bit_iff)
  qed
  then show ?thesis by (intro bit_word_eqI) simp
qed

lemma xor_cancel:
  fixes a b c :: u64
  shows "a XOR b = a XOR c \<longleftrightarrow> b = c" "b XOR a = c XOR a \<longleftrightarrow> b = c"
  unfolding bit_eq_iff by (auto simp: bit_xor_iff)

lemma xor_trans:
  fixes a b u v p q :: u64
  assumes "a XOR u = b XOR v" "u XOR p = v XOR q"
  shows "a XOR p = b XOR q"
proof -
  have "bit (a XOR p) n = bit (b XOR q) n" for n
    using arg_cong [OF assms(1), of "\<lambda>w. bit w n"] arg_cong [OF assms(2), of "\<lambda>w. bit w n"]
    by (auto simp: bit_xor_iff)
  then show ?thesis by (simp add: bit_eq_iff)
qed

lemma random_u64_state:
  "snd (random_u64 s) = \<lparr>state0 = state0 s XOR (state3 s XOR state1 s),
      state1 = state1 s XOR (state2 s XOR state0 s),
      state2 = (state2 s XOR state0 s) XOR push_bit 17 (state1 s),
      state3 = rotl (state3 s XOR state1 s) 45, \<dots> = rng_t.more s\<rparr>"
  by (simp add: random_u64_def Let_def)

text \<open>
  the step of the generator loses no state and leaves the all-zero state alone.\<close>

lemma random_u64_inj: "snd (random_u64 s) = snd (random_u64 t) \<longleftrightarrow> s = t"
proof
  assume "snd (random_u64 s) = snd (random_u64 t)"
  then have eqs: "state0 s XOR (state3 s XOR state1 s) = state0 t XOR (state3 t XOR state1 t)"
    "state1 s XOR (state2 s XOR state0 s) = state1 t XOR (state2 t XOR state0 t)"
    "(state2 s XOR state0 s) XOR push_bit 17 (state1 s) = (state2 t XOR state0 t) XOR push_bit 17 (state1 t)"
    "rotl (state3 s XOR state1 s) 45 = rotl (state3 t XOR state1 t) 45"
    by (simp_all add: random_u64_state)
  from eqs(4) have a: "state3 s XOR state1 s = state3 t XOR state1 t" by (rule rotl45_inj)
  with eqs(1) have s0: "state0 s = state0 t" by (simp add: xor_cancel)
  have "state1 s XOR push_bit 17 (state1 s) = state1 t XOR push_bit 17 (state1 t)"
    by (rule xor_trans [OF eqs(2) eqs(3)])
  then have s1: "state1 s = state1 t" by (rule xorshift_inj)
  with a have s3: "state3 s = state3 t" by (simp add: xor_cancel)
  from eqs(2) s0 s1 have s2: "state2 s = state2 t" by (simp add: xor_cancel)
  from s0 s1 s2 s3 show "s = t" by simp
qed simp

subsection \<open>Seeding\<close>

lemma join_split: "join_blocks (ucast w) (ucast (drop_bit 32 w)) = w"
proof (rule bit_word_eqI)
  fix n assume "n < LENGTH(64)"
  then show "bit (join_blocks (ucast w) (ucast (drop_bit 32 w))) n = bit w n"
    by (auto simp: join_blocks_def bit_or_iff bit_push_bit_iff bit_ucast_iff bit_drop_bit_eq)
qed

lemma split_join:
  "(ucast (join_blocks lo hi) :: u32) = lo" "(ucast (drop_bit 32 (join_blocks lo hi)) :: u32) = hi"
  by (rule bit_word_eqI; auto simp: join_blocks_def bit_or_iff bit_push_bit_iff bit_ucast_iff
      bit_drop_bit_eq dest: bit_imp_le_length)+

lemma length_blocks_of [simp]: "length (blocks_of s) = 8"
  by (simp add: blocks_of_def)

lemma blocks_of_inj: "blocks_of s = blocks_of t \<Longrightarrow> rng_t.truncate s = rng_t.truncate t"
  unfolding rng_t.truncate_def
  by (simp add: blocks_of_def) (metis join_split)

lemma list8: "length v = 8 \<Longrightarrow> v = [v ! 0, v ! 1, v ! 2, v ! 3, v ! 4, v ! 5, v ! 6, v ! 7]"
  by (rule nth_equalityI) (auto simp: less_Suc_eq numeral_eq_Suc)

lemma blocks_of_rng_of_blocks:
  assumes "length v = 8"
  shows "blocks_of (rng_of_blocks v) = v"
  by (subst (2) list8 [OF assms]) (simp add: blocks_of_def rng_of_blocks_def split_join)

text \<open>two streams of one master seed never start in the same state.\<close>

lemma initialize_stream_inj:
  "initialize_stream m i = initialize_stream m j \<longleftrightarrow> i = j"
proof
  let ?p = "\<lambda>i. blocks_of \<lparr>state0 = ucast (i :: u32), state1 = m, state2 = ucast i, state3 = m\<rparr>"
  assume "initialize_stream m i = initialize_stream m j"
  then have "blocks_of (rng_of_blocks (xxtea_encode (?p i) 8 xxtea_seeding_key)) =
      blocks_of (rng_of_blocks (xxtea_encode (?p j) 8 xxtea_seeding_key))"
    by (simp add: initialize_stream_def)
  then have "xxtea_encode (?p i) 8 xxtea_seeding_key = xxtea_encode (?p j) 8 xxtea_seeding_key"
    by (simp add: blocks_of_rng_of_blocks length_xxtea_encode)
  then have "?p i = ?p j" by (metis decode_encode length_blocks_of one_less_numeral_iff semiring_norm(76))
  then have "(ucast i :: u64) = ucast j" by (auto simp: rng_t.truncate_def dest: blocks_of_inj)
  then have "(ucast (ucast i :: u64) :: u32) = ucast (ucast j :: u64)" by simp
  then show "i = j" by (simp add: ucast_up_ucast_id is_up)
qed simp

subsection \<open>Doubles from their bits\<close>

text \<open>
  The value of a finite double of binary64: sign, 11 bits of biased exponent, 52 bits of
  fraction. Infinities and NaNs (exponent 2047) never come up here.
\<close>

definition double_of_bits :: "u64 \<Rightarrow> real" where
  "double_of_bits w =
     (let e = unat (drop_bit 52 w AND 0x7ff); m = real (unat (w AND 0xfffffffffffff));
          v = (if e = 0 then m / 2 ^ 1074 else (1 + m / 2 ^ 52) * 2 powi (int e - 1023))
      in if bit w 63 then - v else v)"

definition intrinsics_clz :: "u64 \<Rightarrow> nat res" where
  "intrinsics_clz x = (if x = 0 then Inl Abort else Inr (63 - last (filter (bit x) [0..<64])))"

text \<open>
  Random scales the drawn word: the leading one is shifted out, the 52 bits after it become
  the fraction. A shift by 64, which happens for the draw 1, is undefined in C.
\<close>

definition random_of_u64 :: "u64 \<Rightarrow> real res" where
  "random_of_u64 u_val =
     (if u_val = 0 then Inr 0
      else bindR (intrinsics_clz u_val) (\<lambda>clz.
        let lzs = clz + 1 in
        bindR (guardR (lzs < 64) UndefinedShift) (\<lambda>_.
          let u_val = push_bit lzs u_val;
              u_val = drop_bit 12 u_val;
              ex = 1023 - of_nat lzs;
              u_val = u_val OR push_bit 52 ex
          in Inr (double_of_bits u_val))))"

definition Random :: "rng_t \<Rightarrow> (real \<times> rng_t) res" where
  "Random ctx =
     (let (u_val, ctx') = RandomU64 ctx in bindR (random_of_u64 u_val) (\<lambda>x. Inr (x, ctx')))"

lemma highest_bit:
  assumes "x \<noteq> (0 :: u64)"
  defines "k \<equiv> last (filter (bit x) [0..<64])"
  shows "k < 64" "2 ^ k \<le> unat x" "unat x < 2 ^ Suc k"
proof -
  let ?l = "filter (bit x) [0..<64]"
  have ne: "?l \<noteq> []"
  proof
    assume "?l = []"
    then have "\<And>i. i < 64 \<Longrightarrow> \<not> bit x i" by (auto simp: filter_empty_conv)
    then have "x = 0" by (intro bit_word_eqI) simp
    with assms show False by simp
  qed
  then have "k \<in> set ?l" unfolding k_def by (rule last_in_set)
  then have k: "k < 64" "bit x k" by auto
  then show "k < 64" by simp
  have above: "\<not> bit x j" if "k < j" for j
  proof
    assume j: "bit x j"
    then have "j < 64" using bit_imp_le_length by fastforce
    with j have "j \<in> set ?l" by simp
    then have "j \<le> k" unfolding k_def by (intro sorted_le_last) simp_all
    with that show False by simp
  qed
  have "take_bit (Suc k) x = x"
    by (rule bit_word_eqI) (use above in \<open>auto simp: bit_take_bit_iff less_Suc_eq_le not_less [symmetric]\<close>)
  then have "unat x = unat x mod 2 ^ Suc k"
    by (metis unsigned_take_bit_eq take_bit_eq_mod)
  then show "unat x < 2 ^ Suc k" by (metis mod_less_divisor zero_less_numeral zero_less_power)
  have "bit (unat x) k" using k by (simp add: bit_unsigned_iff)
  then have "odd (unat x div 2 ^ k)" by (simp add: bit_iff_odd)
  then have "unat x div 2 ^ k \<noteq> 0" by (metis even_zero)
  then show "2 ^ k \<le> unat x" by (simp add: div_eq_0_iff)
qed

text \<open>
  The fraction of the result, as a number: with k the highest bit of the draw u, the 52
  bits after it are (u * 2 ^ (64 - k) - 2 ^ 64) div 2 ^ 12.
\<close>

definition draw_fraction :: "nat \<Rightarrow> nat \<Rightarrow> nat" where
  "draw_fraction u k = (u * 2 ^ (64 - k) - 2 ^ 64) div 2 ^ 12"

lemma bits_below_take_bit: "take_bit n w = w \<Longrightarrow> bit w j \<Longrightarrow> j < n" for w :: u64
  by (metis bit_take_bit_iff)

lemma take_bit_of_bound: "unat w < 2 ^ n \<Longrightarrow> take_bit n w = w" for w :: u64
  by (metis mod_less take_bit_eq_mod unsigned_take_bit_eq unsigned_word_eqI)

lemma double_of_bits_fields:
  fixes f ex :: u64
  assumes f: "unat f < 2 ^ 52" and ex: "unat ex < 2 ^ 11" "0 < unat ex"
  shows "double_of_bits (f OR push_bit 52 ex) = (1 + real (unat f) / 2 ^ 52) * 2 powi (int (unat ex) - 1023)"
proof -
  let ?w = "f OR push_bit 52 ex"
  note bf = bits_below_take_bit [OF take_bit_of_bound [OF f]]
    and be = bits_below_take_bit [OF take_bit_of_bound [OF ex(1)]]
  have "take_bit 11 (drop_bit 52 ?w) = ex"
    by (rule bit_word_eqI)
      (auto simp: bit_take_bit_iff bit_drop_bit_eq bit_or_iff bit_push_bit_iff dest: bf be)
  moreover have "take_bit 52 ?w = f"
    by (rule bit_word_eqI) (auto simp: bit_take_bit_iff bit_or_iff bit_push_bit_iff dest: bf)
  moreover have "\<not> bit ?w 63"
    by (auto simp: bit_or_iff bit_push_bit_iff dest: bf be)
  moreover have "x AND 0x7ff = take_bit 11 x" "x AND 0xfffffffffffff = take_bit 52 x" for x :: u64
    by (simp_all add: take_bit_eq_mask mask_eq_exp_minus_1)
  ultimately show ?thesis using ex(2) by (simp add: double_of_bits_def Let_def)
qed

lemma random_of_u64_value:
  assumes "u \<noteq> 0" and k: "k = last (filter (bit u) [0..<64])" and "0 < k"
  shows "random_of_u64 u = Inr ((1 + real (draw_fraction (unat u) k) / 2 ^ 52) / 2 ^ (64 - k))"
    and "draw_fraction (unat u) k < 2 ^ 52"
proof -
  note hb = highest_bit [OF assms(1), folded k]
  let ?l = "64 - k"
  let ?s = "push_bit ?l u" let ?f = "drop_bit 12 ?s"
  have kl: "2 ^ k * 2 ^ ?l = (2 ^ 64 :: nat)" using hb(1) by (simp flip: power_add)
  have lo: "2 ^ 64 \<le> unat u * 2 ^ ?l" using mult_le_mono1 [OF hb(2), of "2 ^ ?l"] by (simp add: kl)
  have hi: "unat u * 2 ^ ?l < 2 ^ 64 + 2 ^ 64"
    using mult_less_mono1 [OF hb(3), of "2 ^ ?l"] kl by (simp only: power_Suc mult.assoc) simp
  have "unat ?s = unat u * 2 ^ ?l mod 2 ^ 64"
    by (simp only: unsigned_push_bit_eq) (simp add: take_bit_eq_mod push_bit_eq_mult)
  also have "\<dots> = unat u * 2 ^ ?l - 2 ^ 64" using lo hi by (simp add: mod_if)
  finally have s: "unat ?s = unat u * 2 ^ ?l - 2 ^ 64" .
  have f: "unat ?f = draw_fraction (unat u) k"
    unfolding draw_fraction_def s [symmetric] unat_drop_bit_eq by (rule drop_bit_eq_div)
  show fl: "draw_fraction (unat u) k < 2 ^ 52" using hi by (simp add: draw_fraction_def)
  let ?ex = "1023 - of_nat (63 - k + 1) :: u64"
  have ex: "unat ?ex = 959 + k"
  proof -
    have "?ex = of_nat (959 + k)" using hb(1) by (simp add: of_nat_diff)
    then show ?thesis using hb(1) by (simp only: unat_of_nat) simp
  qed
  have "double_of_bits (?f OR push_bit 52 ?ex) =
      (1 + real (unat ?f) / 2 ^ 52) * 2 powi (int (unat ?ex) - 1023)"
    by (rule double_of_bits_fields) (use f fl ex hb(1) in simp_all)
  also have "int (unat ?ex) - 1023 = - int (64 - k)" using ex hb(1) by simp
  also have "(2 :: real) powi (- int (64 - k)) = 1 / 2 ^ (64 - k)"
    by (simp add: power_int_minus divide_inverse)
  finally have "double_of_bits (?f OR push_bit 52 ?ex) =
      (1 + real (draw_fraction (unat u) k) / 2 ^ 52) / 2 ^ (64 - k)" using f by simp
  moreover have "63 - k + 1 = ?l" "(63 - k + 1 < 64) = True" using hb(1) assms(3) by simp_all
  moreover have "random_of_u64 u = bindR (guardR (63 - k + 1 < 64) UndefinedShift) (\<lambda>_.
      Inr (double_of_bits (drop_bit 12 (push_bit (63 - k + 1) u) OR push_bit 52 (1023 - of_nat (63 - k + 1)))))"
    using assms(1) by (simp only: random_of_u64_def intrinsics_clz_def k [symmetric] Let_def if_False bindR_simps)
  ultimately show "random_of_u64 u = Inr ((1 + real (draw_fraction (unat u) k) / 2 ^ 52) / 2 ^ (64 - k))"
    by (simp only: guardR_simps bindR_simps)
qed


lemma random_of_u64_1: "random_of_u64 1 = Inl UndefinedShift"
proof -
  have "filter (bit (1 :: u64)) [0..<64] = [0]"
    by (simp add: upt_conv_Cons bit_1_iff numeral_eq_Suc)
  then show ?thesis by (simp add: random_of_u64_def intrinsics_clz_def Let_def)
qed

lemma random_of_u64_cases:
  assumes "random_of_u64 u = Inr x"
  obtains "u = 0" "x = 0"
  | k where "u \<noteq> 0" "k = last (filter (bit u) [0..<64])" "0 < k" "k < 64"
      "x = (1 + real (draw_fraction (unat u) k) / 2 ^ 52) / 2 ^ (64 - k)"
proof (cases "u = 0")
  case True
  with assms that(1) show ?thesis by (simp add: random_of_u64_def)
next
  case False
  let ?k = "last (filter (bit u) [0..<64])"
  from assms False have "0 < ?k"
    by (auto simp: random_of_u64_def intrinsics_clz_def Let_def bindR_eq_Inr guardR_eq_Inr)
  with random_of_u64_value(1) [OF False refl] assms False highest_bit(1) [OF False] that(2)
  show ?thesis by auto
qed

lemma scaled_bounds:
  fixes a b h p :: real
  assumes "0 \<le> a" "a + h \<le> 1" "0 < h" "a \<le> b" "b \<le> a + h" "2 \<le> p"
  shows "0 \<le> (1 + a) / p \<and> (1 + a) / p < 1 \<and> (1 + a) / p \<le> (1 + b) / p \<and> (1 + b) / p \<le> (1 + a) / p * (1 + h)"
proof -
  have "0 \<le> a * h" using assms by simp
  then have "1 + b \<le> (1 + a) * (1 + h)" using assms(5) by (simp add: algebra_simps)
  then have "(1 + b) / p \<le> (1 + a) * (1 + h) / p" using assms by (intro divide_right_mono) auto
  with assms show ?thesis by (simp add: divide_simps)
qed

lemma random_of_u64_approx:
  assumes "random_of_u64 u = Inr x"
  shows "0 \<le> x" "x < 1" "x \<le> real (unat u) / 2 ^ 64" "real (unat u) / 2 ^ 64 \<le> x * (1 + 1 / 2 ^ 52)"
proof -
  have "0 \<le> x \<and> x < 1 \<and> x \<le> real (unat u) / 2 ^ 64 \<and> real (unat u) / 2 ^ 64 \<le> x * (1 + 1 / 2 ^ 52)"
    using assms
  proof (cases rule: random_of_u64_cases)
    case 1
    then show ?thesis by simp
  next
    case (2 k)
    let ?d = "draw_fraction (unat u) k" and ?l = "64 - k"
    define q where "q = unat u * 2 ^ ?l - 2 ^ 64"
    note hb = highest_bit [OF 2(1), folded 2(2)]
    have kl: "2 ^ k * 2 ^ ?l = (2 ^ 64 :: nat)" using hb(1) by (simp flip: power_add)
    have "2 ^ 64 \<le> unat u * 2 ^ ?l" using mult_le_mono1 [OF hb(2), of "2 ^ ?l"] by (simp add: kl)
    then have uq: "unat u * 2 ^ ?l = 2 ^ 64 + q" by (simp add: q_def)
    have d: "?d = q div 2 ^ 12" by (simp add: draw_fraction_def q_def)
    have dl: "?d < 2 ^ 52" by (rule random_of_u64_value(2) [OF 2(1,2,3)])
    have "?d * 2 ^ 12 \<le> q" "q < ?d * 2 ^ 12 + 2 ^ 12" unfolding d by simp_all
    then have "real (?d * 2 ^ 12) \<le> real q" "real q \<le> real (?d * 2 ^ 12 + 2 ^ 12)"
      by (simp_all only: of_nat_le_iff less_imp_le)
    then have qb: "real ?d * 4096 \<le> real q" "real q \<le> real ?d * 4096 + 4096" by simp_all
    have "real (unat u * 2 ^ ?l) = real (2 ^ 64 + q)" by (simp only: uq)
    then have "real (unat u) * 2 ^ ?l = 2 ^ 64 + real q" by simp
    then have u: "real (unat u) / 2 ^ 64 = (1 + real q / 2 ^ 64) / 2 ^ ?l"
      by (simp add: divide_simps)
    from dl have "?d \<le> 2 ^ 52 - 1" by simp
    then have "real ?d \<le> real (2 ^ 52 - 1 :: nat)" by (simp only: of_nat_le_iff)
    then have d1: "real ?d / 2 ^ 52 + 1 / 2 ^ 52 \<le> 1" by simp
    have b: "real ?d / 2 ^ 52 \<le> real q / 2 ^ 64" "real q / 2 ^ 64 \<le> real ?d / 2 ^ 52 + 1 / 2 ^ 52"
      using qb by simp_all
    have p: "(2 :: real) \<le> 2 ^ ?l" using hb(1) power_increasing [of 1 ?l "2 :: real"] by simp
    show ?thesis unfolding u 2(5)
      by (rule scaled_bounds) (use d1 b p in simp_all)
  qed
  then show "0 \<le> x" "x < 1" "x \<le> real (unat u) / 2 ^ 64" "real (unat u) / 2 ^ 64 \<le> x * (1 + 1 / 2 ^ 52)"
    by auto
qed

lemma Random_range: "Random ctx = Inr (x, ctx') \<Longrightarrow> 0 \<le> x \<and> x < 1"
  by (auto simp: Random_def bindR_eq_Inr split: prod.splits dest: random_of_u64_approx)

text \<open>C36: every draw of Random is in [0, 1), and approximates the drawn word from below.\<close>

theorem Random_scaled:
  assumes "Random ctx = Inr (x, ctx')"
  shows "0 \<le> x \<and> x < 1 \<and> ctx' = snd (random_u64 ctx)
     \<and> x \<le> real (unat (fst (random_u64 ctx))) / 2 ^ 64
     \<and> real (unat (fst (random_u64 ctx))) / 2 ^ 64 \<le> x * (1 + 1 / 2 ^ 52)"
proof -
  from assms have "random_of_u64 (fst (random_u64 ctx)) = Inr x" "ctx' = snd (random_u64 ctx)"
    by (auto simp: Random_def RandomU64_def bindR_eq_Inr split: prod.splits)
  with random_of_u64_approx [OF this(1)] show ?thesis by simp
qed

theorem Random_scaled_witness:
  "\<exists>x. Random \<lparr>state0 = 0, state1 = 0, state2 = 1, state3 = 2\<rparr> = Inr (x, snd (random_u64 \<lparr>state0 = 0, state1 = 0, state2 = 1, state3 = 2\<rparr>))
     \<and> 0 \<le> x \<and> x < 1"
proof -
  let ?s = "\<lparr>state0 = 0, state1 = 0, state2 = 1, state3 = 2\<rparr>"
  have "Random ?s = Inr (0, snd (random_u64 ?s))"
    by (simp add: Random_def RandomU64_def random_u64_def rotl_def random_of_u64_def Let_def)
  with Random_scaled [OF this] show ?thesis by blast
qed

subsection \<open>Distributions\<close>

text \<open>RandomRange returns an int; min and max are ints.\<close>

definition RandomRange :: "rng_t \<Rightarrow> int \<Rightarrow> int \<Rightarrow> (int \<times> rng_t) res" where
  "RandomRange ctx mn mx =
     bindR (Random ctx) (\<lambda>(x, ctx). Inr (\<lfloor>x * real_of_int (mx - mn + 1)\<rfloor> + mn, ctx))"

definition Poisson :: "rng_t \<Rightarrow> (real \<times> rng_t) res" where
  "Poisson ctx = bindR (Random ctx) (\<lambda>(x, ctx). Inr (- ln (1 - x), ctx))"

definition Expent :: "rng_t \<Rightarrow> real \<Rightarrow> (real \<times> rng_t) res" where
  "Expent ctx mean = bindR (Random ctx) (\<lambda>(x, ctx). Inr (mean * (- ln (1 - x)), ctx))"

text \<open>
  The rejection loop of Normal has no bound in the code: the model takes fuel, and running
  out of it is a fault.
\<close>

fun normal_loop :: "nat \<Rightarrow> rng_t \<Rightarrow> (real \<times> real \<times> rng_t) res" where
  "normal_loop 0 ctx = Inl OutOfFuel"
| "normal_loop (Suc fuel) ctx =
     bindR (Random ctx) (\<lambda>(r1, ctx).
     bindR (Random ctx) (\<lambda>(r2, ctx).
       let v1 = 2 * r1 - 1; v2 = 2 * r2 - 1; rsq = v1 * v1 + v2 * v2 in
       if rsq \<ge> 1 \<or> rsq = 0 then normal_loop fuel ctx else Inr (v1, rsq, ctx)))"

definition Normal :: "nat \<Rightarrow> rng_t \<Rightarrow> (real \<times> rng_t) res" where
  "Normal fuel ctx =
     bindR (normal_loop fuel ctx) (\<lambda>(v1, rsq, ctx).
       let fac = sqrt (- 2 * ln rsq / rsq) in Inr (v1 * fac, ctx))"

definition NormalExpanded :: "nat \<Rightarrow> rng_t \<Rightarrow> real \<Rightarrow> real \<Rightarrow> (real \<times> rng_t) res" where
  "NormalExpanded fuel ctx mean std_dev =
     bindR (Normal fuel ctx) (\<lambda>(x, ctx). Inr (x * std_dev + mean, ctx))"

lemma Expent_nonneg:
  assumes "Expent ctx mean = Inr (d, ctx')" "0 \<le> mean"
  shows "0 \<le> d"
proof -
  from assms(1) obtain x where x: "Random ctx = Inr (x, ctx')" and d: "d = mean * - ln (1 - x)"
    by (auto simp: Expent_def bindR_eq_Inr)
  from Random_range [OF x] have "ln (1 - x) \<le> 0" by simp
  with assms(2) show ?thesis unfolding d by (intro mult_nonneg_nonneg) simp_all
qed

lemma RandomRange_bounds:
  assumes "RandomRange ctx mn mx = Inr (i, ctx')" "mn \<le> mx"
  shows "mn \<le> i" "i \<le> mx"
proof -
  from assms(1) obtain x where x: "Random ctx = Inr (x, ctx')"
    and i: "i = \<lfloor>x * real_of_int (mx - mn + 1)\<rfloor> + mn"
    by (auto simp: RandomRange_def bindR_eq_Inr)
  from Random_range [OF x] have x01: "0 \<le> x" "x < 1" by auto
  have n: "0 < real_of_int (mx - mn + 1)" using assms(2) by simp
  have "x * real_of_int (mx - mn + 1) < real_of_int (mx - mn + 1)" using x01 n by simp
  then have "\<lfloor>x * real_of_int (mx - mn + 1)\<rfloor> < mx - mn + 1" by (simp only: floor_less_iff)
  moreover have "0 \<le> \<lfloor>x * real_of_int (mx - mn + 1)\<rfloor>" using x01 n by simp
  ultimately show "mn \<le> i" "i \<le> mx" using i by auto
qed

lemma normal_loop_range:
  "normal_loop fuel ctx = Inr (v1, rsq, ctx') \<Longrightarrow> 0 < rsq \<and> rsq < 1 \<and> v1 * v1 \<le> rsq"
proof (induction fuel arbitrary: ctx)
  case (Suc fuel)
  from Suc.prems obtain r1 c1 r2 c2 where
    step: "(let v1 = 2 * r1 - 1; v2 = 2 * r2 - 1; rsq = v1 * v1 + v2 * v2 in
       if rsq \<ge> 1 \<or> rsq = 0 then normal_loop fuel c2 else Inr (v1, rsq, c2)) = Inr (v1, rsq, ctx')"
    by (auto simp: bindR_eq_Inr)
  define w1 w2 q where "w1 = 2 * r1 - 1" and "w2 = 2 * r2 - 1" and "q = w1 * w1 + w2 * w2"
  have q: "w1 * w1 \<le> q" "0 \<le> q" by (simp_all add: q_def)
  from step have step: "(if q \<ge> 1 \<or> q = 0 then normal_loop fuel c2 else Inr (w1, q, c2)) = Inr (v1, rsq, ctx')"
    by (simp only: Let_def w1_def w2_def q_def)
  show ?case
  proof (cases "q \<ge> 1 \<or> q = 0")
    case True
    with step have "normal_loop fuel c2 = Inr (v1, rsq, ctx')"
      by simp
    then show ?thesis by (rule Suc.IH)
  next
    case False
    with step have "v1 = w1" "rsq = q" by simp_all
    with False q show ?thesis by auto
  qed
qed simp

text \<open>A draw of Normal is finite: log and sqrt are applied inside their domains.\<close>

lemma Normal_domain:
  assumes "normal_loop fuel ctx = Inr (v1, rsq, ctx')"
  shows "0 < rsq" "0 \<le> - 2 * ln rsq / rsq"
proof -
  from normal_loop_range [OF assms] show pos: "0 < rsq" by simp
  from normal_loop_range [OF assms] have "ln rsq \<le> 0" by simp
  with pos show "0 \<le> - 2 * ln rsq / rsq" by (intro divide_nonneg_pos) simp_all
qed

text \<open>
  RandomRange stays within its bounds, both included.\<close>

lemma RandomRange_in_range:
  assumes "RandomRange ctx mn mx = Inr (i, ctx')" and "mn \<le> mx"
  shows "mn \<le> i \<and> i \<le> mx \<and> ctx' = snd (random_u64 ctx)"
  using RandomRange_bounds [OF assms] assms(1)
  by (auto simp: RandomRange_def Random_def RandomU64_def bindR_eq_Inr split: prod.splits)

end
