(* ===== verification/Delay.thy ===== *)
theory Delay
  imports Config Rng
begin

text \<open>
  The delay part of Network.c: the number of nodes per region, the region of a node and
  the transmission delay between two nodes, drawn from an exponential distribution around
  the latency of their regions or, without a generator, the latency itself. The array
  nodes_in_region is the argument \<open>regions\<close>; the product of the node count with a share
  of the distribution is cut to an integer.
\<close>

definition initNetwork :: "nat list" where
  "initNetwork =
     (let counts = map (\<lambda>share. nat \<lfloor>real N_NODES * share\<rfloor>) (take (REGIONS_NUM - 1) REGIONS_DISTRIBUTION);
          tot = sum_list counts
      in counts @ [N_NODES - tot])"

fun region_loop :: "nat \<Rightarrow> nat list \<Rightarrow> nat \<Rightarrow> nat res" where
  "region_loop i [] node = Inl Abort"
| "region_loop i (r # rs) node = (if node < r then Inr i else region_loop (Suc i) rs (node - r))"

definition getRegion :: "nat list \<Rightarrow> node_id \<Rightarrow> nat res" where
  "getRegion regions node = region_loop 0 regions (unat node)"

definition latency :: "nat list \<Rightarrow> node_id \<Rightarrow> node_id \<Rightarrow> real res" where
  "latency regions src dst =
     bindR (getRegion regions src) (\<lambda>i. bindR (getRegion regions dst) (\<lambda>j.
       bindR (nthR LATENCIES i) (\<lambda>row. nthR row j)))"

definition getTransmissionDelay ::
  "nat list \<Rightarrow> node_id \<Rightarrow> node_id \<Rightarrow> nat \<Rightarrow> rng_t option \<Rightarrow> (simtime \<times> rng_t option) res" where
  "getTransmissionDelay regions src dst data_size rng =
     bindR (latency regions src dst) (\<lambda>l.
       case rng of None \<Rightarrow> Inr (l, None)
       | Some ctx \<Rightarrow> bindR (Expent ctx l) (\<lambda>(d, ctx). Inr (d, Some ctx)))"

lemma initNetwork_eq: "initNetwork = [476, 222, 0, 297, 5, 0]"
  by (simp add: initNetwork_def N_NODES_def REGIONS_NUM_def REGIONS_DISTRIBUTION_def Let_def)

lemma initNetwork_length: "length initNetwork = REGIONS_NUM"
  by (simp add: initNetwork_eq REGIONS_NUM_def)

lemma region_loop_ok:
  "node < sum_list rs \<Longrightarrow> \<exists>j. region_loop i rs node = Inr (i + j) \<and> j < length rs
     \<and> sum_list (take j rs) \<le> node \<and> node < sum_list (take (Suc j) rs)"
proof (induction rs arbitrary: i node)
  case (Cons r rs)
  show ?case
  proof (cases "node < r")
    case True
    then show ?thesis by (intro exI [of _ 0]) simp
  next
    case False
    with Cons.prems have "node - r < sum_list rs" by simp
    from Cons.IH [OF this, of "Suc i"] obtain j where
      "region_loop (Suc i) rs (node - r) = Inr (Suc i + j)" "j < length rs"
      "sum_list (take j rs) \<le> node - r" "node - r < sum_list (take (Suc j) rs)" by auto
    with False show ?thesis by (intro exI [of _ "Suc j"]) auto
  qed
qed simp

lemma getRegion_ok:
  assumes "unat node < N_NODES"
  shows "\<exists>j. getRegion initNetwork node = Inr j \<and> j < REGIONS_NUM"
  using region_loop_ok [of "unat node" initNetwork 0] assms
  by (auto simp: getRegion_def initNetwork_eq N_NODES_def REGIONS_NUM_def)

lemma latency_pos:
  assumes "unat src < N_NODES" "unat dst < N_NODES"
  shows "\<exists>l. latency initNetwork src dst = Inr l \<and> 0 < l"
proof -
  from getRegion_ok [OF assms(1)] getRegion_ok [OF assms(2)] obtain i j where
    r: "getRegion initNetwork src = Inr i" "getRegion initNetwork dst = Inr j"
    and ij: "i < 6" "j < 6" by (auto simp: REGIONS_NUM_def)
  have rows: "length LATENCIES = 6" "\<forall>row\<in>set LATENCIES. length row = 6 \<and> (\<forall>l\<in>set row. 0 < l)"
    by (simp_all add: LATENCIES_def)
  with ij have row: "LATENCIES ! i \<in> set LATENCIES" by simp
  with rows ij have j: "j < length (LATENCIES ! i)" by simp
  with rows row have "0 < LATENCIES ! i ! j" by (metis nth_mem)
  with r rows ij j show ?thesis by (simp add: latency_def)
qed

lemma getTransmissionDelay_nonneg:
  assumes "unat src < N_NODES" "unat dst < N_NODES"
    "getTransmissionDelay initNetwork src dst sz rng = Inr (d, rng')"
  shows "0 \<le> d"
proof -
  from latency_pos [OF assms(1,2)] obtain l where l: "latency initNetwork src dst = Inr l" "0 < l" by auto
  with assms(3) show ?thesis
    by (auto simp: getTransmissionDelay_def bindR_eq_Inr split: option.splits dest: Expent_nonneg)
qed

text \<open>
  the regions split the nodes: every node has one region, the one whose range of ids holds it.\<close>

lemma getRegion_partition:
  assumes "unat node < N_NODES"
  shows "\<exists>j<REGIONS_NUM. getRegion initNetwork node = Inr j
     \<and> sum_list (take j initNetwork) \<le> unat node \<and> unat node < sum_list (take (Suc j) initNetwork)"
proof -
  from assms have "unat node < sum_list initNetwork" by (simp add: initNetwork_eq N_NODES_def)
  from region_loop_ok [OF this, of 0] show ?thesis
    using initNetwork_length by (auto simp: getRegion_def)
qed

end
