(* ===== verification/Attacks.thy ===== *)
theory Attacks
  imports Config Rng
begin

text \<open>
  Attacks.c: the choice of the attacker nodes and the membership test on the bitmap of
  attackers. generateAttackers is selection sampling: it walks the node ids once and keeps
  each with the odds that leave exactly the requested number chosen at the end.
\<close>

definition is_attacker :: "env \<Rightarrow> node_id \<Rightarrow> bool res" where
  "is_attacker env node = bitmap_check (is_attacker_bitmap env) node"

text \<open>One run of the selection loop; the draw is 64 bits wide, as size_t is.\<close>

function generate_loop ::
  "nat \<Rightarrow> nat \<Rightarrow> nat \<Rightarrow> node_id list \<Rightarrow> bitmap \<Rightarrow> rng_t \<Rightarrow> (node_id list \<times> bitmap \<times> rng_t) res" where
  "generate_loop idx_nodes node_count attackers_count ids bm rng =
     (if idx_nodes < node_count \<and> length ids < attackers_count then
        let remaining_nodes = node_count - idx_nodes;
            remaining_attackers = attackers_count - length ids;
            (draw, rng) = RandomU64 rng
        in if unat draw mod remaining_nodes < remaining_attackers then
             bindR (bitmap_set bm (of_nat idx_nodes)) (\<lambda>bm.
               generate_loop (Suc idx_nodes) node_count attackers_count (ids @ [of_nat idx_nodes]) bm rng)
           else generate_loop (Suc idx_nodes) node_count attackers_count ids bm rng
      else Inr (ids, bm, rng))"
  by pat_completeness auto
termination
  by (relation "measure (\<lambda>(i, n, _). n - i)") auto

declare generate_loop.simps [simp del]

definition generateAttackers ::
  "nat \<Rightarrow> nat \<Rightarrow> bitmap \<Rightarrow> rng_t \<Rightarrow> (node_id list \<times> bitmap \<times> rng_t) res" where
  "generateAttackers node_count attackers_count bm rng =
     generate_loop 0 node_count attackers_count [] bm rng"

text \<open>
  initAttackers on a configuration whose attacker_ids pointer is null exactly when the list
  is empty. The last call, generateAttackers, is reached for no attack type of today.
\<close>

definition initAttackers :: "nat \<Rightarrow> env \<Rightarrow> rng_t \<Rightarrow> (env \<times> rng_t) res" where
  "initAttackers attackers_count env rng =
     (let env = env\<lparr>is_attacker_bitmap := bitmap_initialize (lps env)\<rparr>; ty = ac_type (attackConfig env) in
      if ty = ATTACK_NONE \<or> attackers_count = 0 then Inr (env, rng)
      else if attacker_ids env \<noteq> [] then Inl Abort
      else if (ty = ATTACK_SELFISH_MINING \<or> ty = ATTACK_FIFTY_ONE) \<and> attackers_count \<noteq> 1 then Inl Abort
      else if attackers_count \<ge> lps env then Inl Abort
      else if ty = ATTACK_SELFISH_MINING \<or> ty = ATTACK_FIFTY_ONE then
        let (draw, rng) = RandomU64 rng; a = of_nat (unat draw mod lps env)
        in bindR (bitmap_set (is_attacker_bitmap env) a) (\<lambda>bm.
             Inr (env\<lparr>attacker_ids := [a], is_attacker_bitmap := bm\<rparr>, rng))
      else
        bindR (generateAttackers (lps env) attackers_count (is_attacker_bitmap env) rng) (\<lambda>(ids, bm, rng).
          Inr (env\<lparr>attacker_ids := ids, is_attacker_bitmap := bm\<rparr>, rng)))"

subsection \<open>Membership\<close>

text \<open>The attackers as a predicate, for node ids that the bitmap covers.\<close>

definition covered :: "env \<Rightarrow> node_id \<Rightarrow> bool" where
  "covered env node \<longleftrightarrow> unat node < 64 * length (is_attacker_bitmap env)"

definition attacker :: "env \<Rightarrow> node_id \<Rightarrow> bool" where
  "attacker env node \<longleftrightarrow> unat node \<in> bits_of (is_attacker_bitmap env)"

lemma is_attacker_eq: "covered env node \<Longrightarrow> is_attacker env node = Inr (attacker env node)"
  by (simp add: is_attacker_def bitmap_check_eq covered_def attacker_def)

subsection \<open>The selection\<close>

text \<open>
  With enough nodes left for the attackers still to choose, the loop chooses exactly the
  missing ones: when as many are missing as nodes are left, the draw cannot refuse.
\<close>

lemma generate_loop_selects:
  assumes "node_count \<le> 64 * length bm" "node_count < 2 ^ 32" "idx \<le> node_count"
    "length ids \<le> attackers" "attackers - length ids \<le> node_count - idx"
    "\<forall>x\<in>set ids. unat x < idx" "sorted (map unat ids)" "distinct ids"
    "bits_of bm = unat ` set ids"
  shows "\<exists>ids' bm' rng'. generate_loop idx node_count attackers ids bm rng = Inr (ids', bm', rng')
     \<and> length ids' = attackers \<and> (\<forall>x\<in>set ids'. unat x < node_count)
     \<and> sorted (map unat ids') \<and> distinct ids' \<and> bits_of bm' = unat ` set ids' \<and> length bm' = length bm"
  using assms
proof (induction "node_count - idx" arbitrary: idx ids bm rng)
  case 0
  then show ?case by (subst generate_loop.simps) auto
next
  case (Suc k)
  obtain draw rng1 where draw: "RandomU64 rng = (draw, rng1)" by (cases "RandomU64 rng")
  have idx: "idx < node_count" using Suc.hyps(2) by simp
  show ?case
  proof (cases "length ids < attackers")
    case False
    with Suc.prems have "length ids = attackers" by simp
    with Suc.prems idx show ?thesis by (subst generate_loop.simps) auto
  next
    case True
    have u: "unat (of_nat idx :: node_id) = idx" using idx Suc.prems(2) by (simp add: unat_of_nat)
    show ?thesis
    proof (cases "unat draw mod (node_count - idx) < attackers - length ids")
      case True
      from idx Suc.prems(1) u have "unat (of_nat idx :: node_id) < 64 * length bm" by simp
      then obtain bm1 where bm1: "bitmap_set bm (of_nat idx) = Inr bm1" by (simp add: bitmap_set_eq)
      note set1 = bits_of_set [OF bm1]
      have "\<exists>ids' bm' rng'. generate_loop (Suc idx) node_count attackers (ids @ [of_nat idx]) bm1 rng1
            = Inr (ids', bm', rng')
         \<and> length ids' = attackers \<and> (\<forall>x\<in>set ids'. unat x < node_count)
         \<and> sorted (map unat ids') \<and> distinct ids' \<and> bits_of bm' = unat ` set ids' \<and> length bm' = length bm1"
        by (rule Suc.hyps(1))
          (use Suc.hyps(2) Suc.prems idx \<open>length ids < attackers\<close> u set1 in
            \<open>auto simp: sorted_append less_Suc_eq\<close>)
      then show ?thesis
        using True idx \<open>length ids < attackers\<close> draw bm1 set1
        by (subst generate_loop.simps) (simp add: Let_def)
    next
      case False
      have "attackers - length ids \<noteq> node_count - idx" using False idx by auto
      then have "\<exists>ids' bm' rng'. generate_loop (Suc idx) node_count attackers ids bm rng1
            = Inr (ids', bm', rng')
         \<and> length ids' = attackers \<and> (\<forall>x\<in>set ids'. unat x < node_count)
         \<and> sorted (map unat ids') \<and> distinct ids' \<and> bits_of bm' = unat ` set ids' \<and> length bm' = length bm"
        by (intro Suc.hyps(1)) (use Suc.hyps(2) Suc.prems idx in auto)
      then show ?thesis
        using False idx \<open>length ids < attackers\<close> draw
        by (subst generate_loop.simps) (simp add: Let_def)
    qed
  qed
qed

text \<open>
  generateAttackers chooses exactly the requested number of distinct nodes, in increasing
  order, and marks exactly these in the bitmap.\<close>

lemma generateAttackers_exact:
  assumes "node_count < 2 ^ 32" and "attackers \<le> node_count"
  shows "\<exists>ids bm rng'. generateAttackers node_count attackers (bitmap_initialize node_count) rng = Inr (ids, bm, rng')
     \<and> length ids = attackers \<and> distinct ids \<and> sorted (map unat ids)
     \<and> (\<forall>x. x \<in> set ids \<longrightarrow> unat x < node_count) \<and> bits_of bm = unat ` set ids"
  using generate_loop_selects [of node_count "bitmap_initialize node_count" 0 "[]" attackers rng]
    assms bitmap_initialize_capacity [of node_count]
  by (auto simp: generateAttackers_def)

text \<open>After a successful set up for an attack, one node is the attacker and is_attacker finds it.\<close>

lemma initAttackers_single:
  assumes "ac_type (attackConfig env) \<noteq> ATTACK_NONE" "attacker_ids env = []" "1 < lps env" "lps env < 2 ^ 32"
  shows "\<exists>env' rng' a. initAttackers 1 env rng = Inr (env', rng') \<and> attacker_ids env' = [a] \<and> unat a < lps env
     \<and> (\<forall>i. unat i < lps env \<longrightarrow> is_attacker env' i = Inr (i = a))"
proof -
  obtain draw rng1 where draw: "RandomU64 rng = (draw, rng1)" by (cases "RandomU64 rng")
  let ?a = "of_nat (unat draw mod lps env) :: node_id"
  have "unat draw mod lps env < lps env" using assms(3) by simp
  with assms(4) have "unat draw mod lps env < 2 ^ 32" by (rule order_less_trans [rotated])
  then have a: "unat ?a = unat draw mod lps env" by (simp add: unat_of_nat)
  then have lt: "unat ?a < lps env" using assms(3) by simp
  with bitmap_initialize_capacity [of "lps env"]
  have cov: "unat i < 64 * length (bitmap_initialize (lps env))" if "unat i < lps env" for i :: node_id
    using that by simp
  from cov [OF lt] obtain bm where bm: "bitmap_set (bitmap_initialize (lps env)) ?a = Inr bm"
    by (simp add: bitmap_set_eq)
  note set1 = bits_of_set [OF bm]
  have ty: "ac_type (attackConfig env) = ATTACK_SELFISH_MINING \<or> ac_type (attackConfig env) = ATTACK_FIFTY_ONE"
    using assms(1) by (cases "ac_type (attackConfig env)") auto
  let ?env = "env\<lparr>attacker_ids := [?a], is_attacker_bitmap := bm\<rparr>"
  have "is_attacker ?env i = Inr (i = ?a)" if "unat i < lps env" for i
    using cov [OF that] set1 by (simp add: is_attacker_def bitmap_check_eq word_unat_eq_iff)
  moreover have "initAttackers 1 env rng = Inr (?env, rng1)"
    using ty assms draw bm by (auto simp: initAttackers_def Let_def)
  ultimately show ?thesis using lt by auto
qed

end
