(* ===== verification/Undo.thy ===== *)
theory Undo
  imports Prelude
begin

text \<open>
  The contract of an effect that can be taken back: a log of items, applied one after the
  other, reverted in the opposite order. Block.c relies on it for the effects of a block on
  the transactions and on the statistics when it switches from one chain to another.
\<close>

locale undo_log =
  fixes ap rv :: "'n \<Rightarrow> 'e \<Rightarrow> 'e res"
    and holds :: "'e \<Rightarrow> 'n list \<Rightarrow> bool"
    and allowed :: "'n list \<Rightarrow> bool"
  assumes apply_ok: "holds e ns \<Longrightarrow> allowed (ns @ [n]) \<Longrightarrow> \<exists>e'. ap n e = Inr e' \<and> holds e' (ns @ [n])"
    and revert_ok: "holds e (ns @ [n]) \<Longrightarrow> \<exists>e'. rv n e = Inr e' \<and> holds e' ns"
    and allowed_prefix: "allowed (ns @ ms) \<Longrightarrow> allowed ns"
begin

lemma apply_all:
  assumes "holds e ns" "allowed (ns @ ms)"
  shows "\<exists>e'. foldR ap ms e = Inr e' \<and> holds e' (ns @ ms)"
  using assms
proof (induction ms arbitrary: e ns)
  case (Cons m ms)
  from Cons.prems(2) have "allowed (ns @ [m])" using allowed_prefix [of "ns @ [m]" ms] by simp
  from apply_ok [OF Cons.prems(1) this] obtain e1 where e1: "ap m e = Inr e1" "holds e1 (ns @ [m])" by blast
  from Cons.IH [OF e1(2)] Cons.prems(2) e1(1) show ?case by simp
qed simp

lemma revert_all:
  assumes "holds e (ns @ ms)"
  shows "\<exists>e'. foldR rv (rev ms) e = Inr e' \<and> holds e' ns"
  using assms
proof (induction ms arbitrary: e rule: rev_induct)
  case (snoc m ms)
  from snoc.prems have "holds e ((ns @ ms) @ [m])" by simp
  from revert_ok [OF this] obtain e1 where e1: "rv m e = Inr e1" "holds e1 (ns @ ms)" by blast
  from snoc.IH [OF e1(2)] e1(1) show ?case by simp
qed simp

text \<open>Replacing the end of the log: revert the old items, apply the new ones.\<close>

lemma replace_suffix:
  assumes "holds e (ns @ old)" "allowed (ns @ new)"
  shows "\<exists>e1 e2. foldR rv (rev old) e = Inr e1 \<and> foldR ap new e1 = Inr e2 \<and> holds e2 (ns @ new)"
proof -
  from revert_all [OF assms(1)] obtain e1 where "foldR rv (rev old) e = Inr e1" "holds e1 ns" by blast
  with apply_all [OF this(2) assms(2)] show ?thesis by blast
qed

end

end
