(* ===== verification/Stats.thy ===== *)
theory Stats
  imports Attacks Undo
begin

text \<open>
  Statistics.c: the per node statistics. The three structs of the union in struct
  StatsState are kept side by side, each used only under its statistics type; the counters
  are size_t and wrap. Every update checks the type and leaves the program when it is
  another one. StatsFiles has copying, printing and files.
\<close>

record block_stat =
  bs_miner :: node_id
  bs_height :: nat
  bs_time :: simtime

record detailed_stats =
  blockStats :: "block_stat list"
  blockStatsCapacity :: nat
  minedBlockStats :: "block_stat list"
  minedBlockStatsCapacity :: nat

record fifty_one_stats =
  fo_attackerBlocksInMainChain :: u64
  fo_totalBlocksInMainChain :: u64

record selfish_stats =
  attackerBlocksInMainChain :: u64
  totalBlocksInMainChain :: u64
  totalBlocksMined :: u64
  ownBlocksInMainChain :: u64
  switchesToSelfishChain :: u64

record stats_state =
  detailedStats :: detailed_stats
  fiftyOneStats :: fifty_one_stats
  selfishStats :: selfish_stats

definition initDetailedStatisticsState :: "env \<Rightarrow> stats_state \<Rightarrow> env \<times> stats_state" where
  "initDetailedStatisticsState env st =
     (setStatsType STATS_DETAILED env, st\<lparr>detailedStats := \<lparr>blockStats = [], blockStatsCapacity = 1,
        minedBlockStats = [], minedBlockStatsCapacity = 1\<rparr>\<rparr>)"

definition initFiftyOneStatisticsState :: "env \<Rightarrow> stats_state \<Rightarrow> env \<times> stats_state" where
  "initFiftyOneStatisticsState env st =
     (setStatsType STATS_FIFTY_ONE env, st\<lparr>fiftyOneStats := \<lparr>fo_attackerBlocksInMainChain = 0, fo_totalBlocksInMainChain = 0\<rparr>\<rparr>)"

definition initSelfishStatisticsState :: "env \<Rightarrow> stats_state \<Rightarrow> env \<times> stats_state" where
  "initSelfishStatisticsState env st =
     (setStatsType STATS_SELFISH env, st\<lparr>selfishStats := \<lparr>attackerBlocksInMainChain = 0, totalBlocksInMainChain = 0,
        totalBlocksMined = 0, ownBlocksInMainChain = 0, switchesToSelfishChain = 0\<rparr>\<rparr>)"

text \<open>
  The growth loop of the detailed records: the capacity doubles until there is room. rs_realloc
  gives at most 2 to the B_TOTAL_EXP bytes (mm/buddy) and NULL beyond, on which the program ends;
  both loops ask for multiples of the size of struct BlockStat.
\<close>

definition BLOCK_STAT_SIZE :: nat where "BLOCK_STAT_SIZE = 24"
definition RS_MALLOC_MAX :: nat where "RS_MALLOC_MAX = 2 ^ 16"

fun grow_capacity :: "nat \<Rightarrow> nat \<Rightarrow> nat \<Rightarrow> nat res" where
  "grow_capacity 0 n capacity = Inl OutOfFuel"
| "grow_capacity (Suc fuel) n capacity =
     (if n \<ge> capacity then
        let capacity = capacity * 2 in
        if capacity * BLOCK_STAT_SIZE > RS_MALLOC_MAX then Inl Abort else grow_capacity fuel n capacity
      else Inr capacity)"

definition statsReceiveBlockDetailed :: "env \<Rightarrow> stats_state \<Rightarrow> node_id \<Rightarrow> nat \<Rightarrow> simtime \<Rightarrow> stats_state res" where
  "statsReceiveBlockDetailed env st miner height receivedTime =
     bindR (guardR (statsType env = STATS_DETAILED) Abort) (\<lambda>_.
       let d = detailedStats st in
       bindR (grow_capacity (length (blockStats d) + 2) (length (blockStats d)) (blockStatsCapacity d)) (\<lambda>cap.
         Inr (st\<lparr>detailedStats := d\<lparr>blockStatsCapacity := cap,
           blockStats := blockStats d @ [\<lparr>bs_miner = miner, bs_height = height, bs_time = receivedTime\<rparr>]\<rparr>\<rparr>)))"

definition statsMineBlockDetailed :: "env \<Rightarrow> stats_state \<Rightarrow> node_id \<Rightarrow> nat \<Rightarrow> simtime \<Rightarrow> stats_state res" where
  "statsMineBlockDetailed env st miner height minedTime =
     bindR (guardR (statsType env = STATS_DETAILED) Abort) (\<lambda>_.
       let d = detailedStats st in
       bindR (grow_capacity (length (minedBlockStats d) + 2) (length (minedBlockStats d)) (minedBlockStatsCapacity d)) (\<lambda>cap.
         Inr (st\<lparr>detailedStats := d\<lparr>minedBlockStatsCapacity := cap,
           minedBlockStats := minedBlockStats d @ [\<lparr>bs_miner = miner, bs_height = height, bs_time = minedTime\<rparr>]\<rparr>\<rparr>)))"

definition statsAddBlockFiftyOne :: "env \<Rightarrow> stats_state \<Rightarrow> node_id \<Rightarrow> node_id \<Rightarrow> stats_state res" where
  "statsAddBlockFiftyOne env st miner me =
     bindR (guardR (statsType env = STATS_FIFTY_ONE) Abort) (\<lambda>_.
       let f = fiftyOneStats st;
           f = f\<lparr>fo_totalBlocksInMainChain := fo_totalBlocksInMainChain f + 1\<rparr> in
       bindR (is_attacker env miner) (\<lambda>a.
         let f = (if a then f\<lparr>fo_attackerBlocksInMainChain := fo_attackerBlocksInMainChain f + 1\<rparr> else f)
         in Inr (st\<lparr>fiftyOneStats := f\<rparr>)))"

definition statsRemoveBlockFiftyOne :: "env \<Rightarrow> stats_state \<Rightarrow> node_id \<Rightarrow> node_id \<Rightarrow> stats_state res" where
  "statsRemoveBlockFiftyOne env st miner me =
     bindR (guardR (statsType env = STATS_FIFTY_ONE) Abort) (\<lambda>_.
       let f = fiftyOneStats st;
           f = f\<lparr>fo_totalBlocksInMainChain := fo_totalBlocksInMainChain f - 1\<rparr> in
       bindR (is_attacker env miner) (\<lambda>a.
         let f = (if a then f\<lparr>fo_attackerBlocksInMainChain := fo_attackerBlocksInMainChain f - 1\<rparr> else f)
         in Inr (st\<lparr>fiftyOneStats := f\<rparr>)))"

definition statsAddBlockSelfish :: "env \<Rightarrow> stats_state \<Rightarrow> node_id \<Rightarrow> node_id \<Rightarrow> stats_state res" where
  "statsAddBlockSelfish env st miner me =
     bindR (guardR (statsType env = STATS_SELFISH) Abort) (\<lambda>_.
       let s = selfishStats st;
           s = s\<lparr>totalBlocksInMainChain := totalBlocksInMainChain s + 1\<rparr>;
           s = (if miner = me then s\<lparr>ownBlocksInMainChain := ownBlocksInMainChain s + 1\<rparr> else s) in
       bindR (is_attacker env miner) (\<lambda>a.
         let s = (if a then s\<lparr>attackerBlocksInMainChain := attackerBlocksInMainChain s + 1\<rparr> else s)
         in Inr (st\<lparr>selfishStats := s\<rparr>)))"

definition statsRemoveBlockSelfish :: "env \<Rightarrow> stats_state \<Rightarrow> node_id \<Rightarrow> node_id \<Rightarrow> stats_state res" where
  "statsRemoveBlockSelfish env st miner me =
     bindR (guardR (statsType env = STATS_SELFISH) Abort) (\<lambda>_.
       let s = selfishStats st;
           s = s\<lparr>totalBlocksInMainChain := totalBlocksInMainChain s - 1\<rparr>;
           s = (if miner = me then s\<lparr>ownBlocksInMainChain := ownBlocksInMainChain s - 1\<rparr> else s) in
       bindR (is_attacker env miner) (\<lambda>a.
         let s = (if a then s\<lparr>attackerBlocksInMainChain := attackerBlocksInMainChain s - 1\<rparr> else s)
         in Inr (st\<lparr>selfishStats := s\<rparr>)))"

definition statsMineBlockSelfish :: "env \<Rightarrow> stats_state \<Rightarrow> stats_state res" where
  "statsMineBlockSelfish env st =
     bindR (guardR (statsType env = STATS_SELFISH) Abort) (\<lambda>_.
       Inr (st\<lparr>selfishStats := (selfishStats st)\<lparr>totalBlocksMined := totalBlocksMined (selfishStats st) + 1\<rparr>\<rparr>))"

definition statsSwitchToSelfishChain :: "env \<Rightarrow> stats_state \<Rightarrow> stats_state res" where
  "statsSwitchToSelfishChain env st =
     bindR (guardR (statsType env = STATS_SELFISH) Abort) (\<lambda>_.
       Inr (st\<lparr>selfishStats := (selfishStats st)\<lparr>switchesToSelfishChain := switchesToSelfishChain (selfishStats st) + 1\<rparr>\<rparr>))"

text \<open>
  What applyChainNode and revertAppliedChainNode of Block.c do to the statistics: one of the
  two counters is kept, or none, as the type says.
\<close>

definition stats_apply :: "env \<Rightarrow> node_id \<Rightarrow> node_id \<Rightarrow> stats_state \<Rightarrow> stats_state res" where
  "stats_apply env me miner st =
     (if statsType env = STATS_SELFISH then statsAddBlockSelfish env st miner me
      else if statsType env = STATS_FIFTY_ONE then statsAddBlockFiftyOne env st miner me
      else Inr st)"

definition stats_revert :: "env \<Rightarrow> node_id \<Rightarrow> node_id \<Rightarrow> stats_state \<Rightarrow> stats_state res" where
  "stats_revert env me miner st =
     (if statsType env = STATS_SELFISH then statsRemoveBlockSelfish env st miner me
      else if statsType env = STATS_FIFTY_ONE then statsRemoveBlockFiftyOne env st miner me
      else Inr st)"

subsection \<open>Reverting undoes applying\<close>

lemma stats_apply_ok: "covered env miner \<Longrightarrow> \<exists>st'. stats_apply env me miner st = Inr st'"
  by (simp add: stats_apply_def statsAddBlockSelfish_def statsAddBlockFiftyOne_def is_attacker_eq Let_def)

lemma stats_revert_ok: "covered env miner \<Longrightarrow> \<exists>st'. stats_revert env me miner st = Inr st'"
  by (simp add: stats_revert_def statsRemoveBlockSelfish_def statsRemoveBlockFiftyOne_def is_attacker_eq Let_def)

lemma stats_revert_apply:
  "covered env miner \<Longrightarrow> stats_apply env me miner st = Inr st' \<Longrightarrow> stats_revert env me miner st' = Inr st"
  by (auto simp: stats_apply_def stats_revert_def statsAddBlockSelfish_def statsAddBlockFiftyOne_def
      statsRemoveBlockSelfish_def statsRemoveBlockFiftyOne_def is_attacker_eq Let_def split: if_splits)

subsection \<open>The counters count\<close>

definition count_of :: "('a \<Rightarrow> bool) \<Rightarrow> 'a list \<Rightarrow> u64" where
  "count_of P xs = of_nat (length (filter P xs))"

lemma stats_apply_selfish:
  assumes "statsType env = STATS_SELFISH" "covered env miner" "stats_apply env me miner st = Inr st'"
  shows "totalBlocksInMainChain (selfishStats st') = totalBlocksInMainChain (selfishStats st) + 1"
    and "ownBlocksInMainChain (selfishStats st') = ownBlocksInMainChain (selfishStats st) + (if miner = me then 1 else 0)"
    and "attackerBlocksInMainChain (selfishStats st') =
           attackerBlocksInMainChain (selfishStats st) + (if attacker env miner then 1 else 0)"
  using assms by (auto simp: stats_apply_def statsAddBlockSelfish_def is_attacker_eq Let_def)

lemma stats_apply_all_selfish:
  assumes "statsType env = STATS_SELFISH" "\<forall>m\<in>set miners. covered env m"
    "foldR (stats_apply env me) miners st = Inr st'"
  shows "totalBlocksInMainChain (selfishStats st') = totalBlocksInMainChain (selfishStats st) + of_nat (length miners)"
    and "ownBlocksInMainChain (selfishStats st') = ownBlocksInMainChain (selfishStats st) + count_of (\<lambda>m. m = me) miners"
    and "attackerBlocksInMainChain (selfishStats st') =
           attackerBlocksInMainChain (selfishStats st) + count_of (attacker env) miners"
proof -
  have "totalBlocksInMainChain (selfishStats st') = totalBlocksInMainChain (selfishStats st) + of_nat (length miners)
    \<and> ownBlocksInMainChain (selfishStats st') = ownBlocksInMainChain (selfishStats st) + count_of (\<lambda>m. m = me) miners
    \<and> attackerBlocksInMainChain (selfishStats st') = attackerBlocksInMainChain (selfishStats st) + count_of (attacker env) miners"
    using assms(2,3)
  proof (induction miners arbitrary: st)
    case Nil
    then show ?case by (simp add: count_of_def)
  next
    case (Cons m miners)
    from Cons.prems obtain st1 where st1: "stats_apply env me m st = Inr st1"
      and rest: "foldR (stats_apply env me) miners st1 = Inr st'" by (auto simp: bindR_eq_Inr)
    from stats_apply_selfish [OF assms(1) _ st1] Cons.IH [OF _ rest] Cons.prems(1)
    show ?case by (simp add: count_of_def)
  qed
  then show "totalBlocksInMainChain (selfishStats st') = totalBlocksInMainChain (selfishStats st) + of_nat (length miners)"
    and "ownBlocksInMainChain (selfishStats st') = ownBlocksInMainChain (selfishStats st) + count_of (\<lambda>m. m = me) miners"
    and "attackerBlocksInMainChain (selfishStats st') =
           attackerBlocksInMainChain (selfishStats st) + count_of (attacker env) miners"
    by auto
qed

subsection \<open>The detailed records and their limit\<close>

text \<open>Capacities are powers of two that rs_malloc can give: at most 2048 records.\<close>

definition MAX_RECORDS :: nat where "MAX_RECORDS = 2048"

definition records_ok :: "block_stat list \<Rightarrow> nat \<Rightarrow> bool" where
  "records_ok xs capacity \<longleftrightarrow> length xs \<le> capacity \<and> (\<exists>k\<le>11. capacity = 2 ^ k)"

lemma grow_capacity_limit:
  assumes "records_ok xs capacity"
  shows "grow_capacity (length xs + 2) (length xs) capacity
    = (if length xs = MAX_RECORDS then Inl Abort else Inr (if length xs = capacity then 2 * capacity else capacity))"
    "length xs \<noteq> MAX_RECORDS \<Longrightarrow> records_ok (xs @ [x]) (if length xs = capacity then 2 * capacity else capacity)"
proof -
  obtain k where k: "k \<le> 11" "capacity = 2 ^ k" and le: "length xs \<le> capacity" using assms by (auto simp: records_ok_def)
  have top: "capacity = MAX_RECORDS \<longleftrightarrow> k = 11"
    using k power_inject_exp [of "2::nat" k 11] by (simp add: MAX_RECORDS_def)
  have cap: "capacity \<le> MAX_RECORDS" using k power_increasing [of k 11 "2::nat"] by (simp add: MAX_RECORDS_def)
  have big: "2 * capacity * BLOCK_STAT_SIZE > RS_MALLOC_MAX \<longleftrightarrow> k = 11"
  proof (cases "k = 11")
    case False
    then have "capacity \<le> 2 ^ 10" using k power_increasing [of k 10 "2::nat"] by simp
    with False show ?thesis by (simp add: BLOCK_STAT_SIZE_def RS_MALLOC_MAX_def)
  qed (simp add: k(2) BLOCK_STAT_SIZE_def RS_MALLOC_MAX_def)
  have pos: "0 < capacity" by (simp add: k(2))
  show "grow_capacity (length xs + 2) (length xs) capacity
    = (if length xs = MAX_RECORDS then Inl Abort else Inr (if length xs = capacity then 2 * capacity else capacity))"
    using le top cap big pos by (cases "length xs = capacity") (auto simp: numeral_2_eq_2 Let_def mult.commute)
  show "records_ok (xs @ [x]) (if length xs = capacity then 2 * capacity else capacity)" if "length xs \<noteq> MAX_RECORDS"
  proof (cases "length xs = capacity")
    case True
    then have "Suc k \<le> 11" using k top that by simp
    then show ?thesis using True k(2) pos unfolding records_ok_def by (auto intro!: exI [of _ "Suc k"])
  qed (use le k in \<open>auto simp: records_ok_def\<close>)
qed

text \<open>C39: The detailed statistics hold 2048 records and no more. A node that keeps them records every block it
  receives at the end of its list, and keeps list and capacity in order, as long as there are
  fewer than 2048; the next block stops the program, because the list would not fit into the
  largest piece of memory rs_malloc gives.
\<close>

theorem statsReceiveBlockDetailed_limit:
  assumes "statsType env = STATS_DETAILED" "records_ok (blockStats (detailedStats st)) (blockStatsCapacity (detailedStats st))"
  shows "if length (blockStats (detailedStats st)) = MAX_RECORDS
     then statsReceiveBlockDetailed env st miner height t = Inl Abort
     else \<exists>st'. statsReceiveBlockDetailed env st miner height t = Inr st'
       \<and> blockStats (detailedStats st') = blockStats (detailedStats st) @ [\<lparr>bs_miner = miner, bs_height = height, bs_time = t\<rparr>]
       \<and> records_ok (blockStats (detailedStats st')) (blockStatsCapacity (detailedStats st'))
       \<and> minedBlockStats (detailedStats st') = minedBlockStats (detailedStats st)"
  using grow_capacity_limit(2) [OF assms(2)]
  unfolding statsReceiveBlockDetailed_def Let_def grow_capacity_limit(1) [OF assms(2)] by (simp add: assms(1))

definition example_stats :: stats_state where
  "example_stats = \<lparr>detailedStats = \<lparr>blockStats = replicate 2048 \<lparr>bs_miner = 1, bs_height = 2, bs_time = 3\<rparr>, blockStatsCapacity = 2048,
       minedBlockStats = [], minedBlockStatsCapacity = 1\<rparr>,
     fiftyOneStats = \<lparr>fo_attackerBlocksInMainChain = 0, fo_totalBlocksInMainChain = 0\<rparr>,
     selfishStats = \<lparr>attackerBlocksInMainChain = 0, totalBlocksInMainChain = 0, totalBlocksMined = 0,
       ownBlocksInMainChain = 0, switchesToSelfishChain = 0\<rparr>\<rparr>"

theorem statsReceiveBlockDetailed_limit_witness:
  "statsReceiveBlockDetailed (setStatsType STATS_DETAILED default_env) example_stats 7 9 1 = Inl Abort"
proof -
  have "records_ok (blockStats (detailedStats example_stats)) (blockStatsCapacity (detailedStats example_stats))"
    unfolding records_ok_def by (rule conjI, simp add: example_stats_def) (rule exI [of _ 11], simp add: example_stats_def)
  from statsReceiveBlockDetailed_limit [OF _ this, of "setStatsType STATS_DETAILED default_env" 7 9 1]
  show ?thesis by (simp add: setStatsType_def example_stats_def MAX_RECORDS_def)
qed

subsection \<open>The statistics as a log that can be taken back\<close>

definition stats_count :: "env \<Rightarrow> node_id \<Rightarrow> stats_state \<Rightarrow> stats_state \<Rightarrow> node_id list \<Rightarrow> bool" where
  "stats_count env me st0 st miners \<longleftrightarrow> (\<forall>m\<in>set miners. covered env m) \<and> foldR (stats_apply env me) miners st0 = Inr st"

interpretation stats_log: undo_log "stats_apply env me" "stats_revert env me" "stats_count env me st0"
  "\<lambda>miners. \<forall>m\<in>set miners. covered env m" for env me st0
proof
  show "\<exists>st'. stats_apply env me m st = Inr st' \<and> stats_count env me st0 st' (ms @ [m])"
    if "stats_count env me st0 st ms" "\<forall>m\<in>set (ms @ [m]). covered env m" for st ms m
    using that stats_apply_ok [of env m me st] by (auto simp: stats_count_def foldR_append)
  show "\<exists>st'. stats_revert env me m st = Inr st' \<and> stats_count env me st0 st' ms"
    if "stats_count env me st0 st (ms @ [m])" for st ms m
    using that by (auto simp: stats_count_def foldR_append bindR_eq_Inr dest: stats_revert_apply)
qed auto

end
