(* ===== verification/Transaction.thy ===== *)
theory Transaction
  imports Delay Undo
begin

text \<open>
  Transaction.c: the transactions of the whole run, each node's view of which ones are
  executed, and the selection of transactions for a block. The C ints low and high and the
  loop counters are integers; bit indexes are converted to unsigned where the code passes
  them to the bitmap macros. The global array of transactions is a function, read inside
  its TXN_NUMBER entries only.
\<close>

record transaction =
  tx_timestamp :: simtime
  tx_size :: nat
  tx_fee :: real
  tx_id :: u32
  tx_sender :: node_id

record transaction_data =
  td_low :: int
  td_high :: int
  included_transactions :: bitmap

record transaction_state =
  transactions_bitmap :: bitmap
  ts_low :: int
  ts_high :: int

type_synonym txn_array = "nat \<Rightarrow> transaction"

definition txn_at :: "txn_array \<Rightarrow> int \<Rightarrow> transaction res" where
  "txn_at txns i = (if 0 \<le> i \<and> i < int TXN_NUMBER then Inr (txns (nat i)) else Inl OutOfBounds)"

definition TXN_DATA_MIN_BITMAP_SIZE :: nat where
  "TXN_DATA_MIN_BITMAP_SIZE = bitmap_required_size 16"

definition sizeofAdditionalTransactionDataBuffer :: "nat \<Rightarrow> nat" where
  "sizeofAdditionalTransactionDataBuffer transactions_count =
     (let res = int (bitmap_required_size transactions_count) - int TXN_DATA_MIN_BITMAP_SIZE
      in if res > 0 then nat res else 0)"

definition allocTransactionData :: "nat \<Rightarrow> bitmap" where
  "allocTransactionData transactions_count =
     (let b = bitmap_initialize transactions_count in
      b @ replicate (TXN_DATA_MIN_BITMAP_SIZE div B_BLOCK_SIZE - length b) 0)"

text \<open>
  The copy of a struct TransactionData with memcpy: its size follows from the two indexes,
  the bitmap of the source may be longer. Reading past a shorter one is a fault.
\<close>

definition txn_data_words :: "transaction_data \<Rightarrow> nat" where
  "txn_data_words d = (TXN_DATA_MIN_BITMAP_SIZE
     + sizeofAdditionalTransactionDataBuffer (nat (td_high d - td_low d))) div B_BLOCK_SIZE"

definition copyTransactionData :: "transaction_data \<Rightarrow> transaction_data res" where
  "copyTransactionData d =
     (if txn_data_words d \<le> length (included_transactions d)
      then Inr (d\<lparr>included_transactions := take (txn_data_words d) (included_transactions d)\<rparr>)
      else Inl OutOfBounds)"

definition initTransactionState :: transaction_state where
  "initTransactionState =
     \<lparr>transactions_bitmap = bitmap_initialize TXN_NUMBER, ts_low = 0, ts_high = 0\<rparr>"

text \<open>One entry of the loop of generateTransactions: the cast binds to Random alone.\<close>

definition generate_txn :: "nat \<Rightarrow> nat \<Rightarrow> real \<Rightarrow> transaction" where
  "generate_txn num_lps i rnd =
     (let increment = real TXN_NUMBER / real TERMINATION_TIME in
      \<lparr>tx_timestamp = real i * increment, tx_size = i, tx_fee = real i, tx_id = of_nat i,
       tx_sender = of_int \<lfloor>rnd\<rfloor> * of_nat num_lps\<rparr>)"

fun generate_txns_loop :: "nat \<Rightarrow> nat \<Rightarrow> nat \<Rightarrow> rng_t \<Rightarrow> (transaction list \<times> rng_t) res" where
  "generate_txns_loop 0 i num_lps rng = Inr ([], rng)"
| "generate_txns_loop (Suc n) i num_lps rng =
     bindR (Random rng) (\<lambda>(x, rng).
     bindR (generate_txns_loop n (Suc i) num_lps rng) (\<lambda>(ts, rng). Inr (generate_txn num_lps i x # ts, rng)))"

definition generateTransactions :: "nat \<Rightarrow> rng_t \<Rightarrow> (transaction list \<times> rng_t) res" where
  "generateTransactions num_lps rng = generate_txns_loop TXN_NUMBER 0 num_lps rng"

definition markTransactionExecuted :: "bitmap \<Rightarrow> int \<Rightarrow> bitmap res" where
  "markTransactionExecuted bm i = bitmap_set bm (of_int i)"

definition markTransactionAvailable :: "bitmap \<Rightarrow> int \<Rightarrow> bitmap res" where
  "markTransactionAvailable bm i = bitmap_reset bm (of_int i)"

definition getTransactionDeliveryTime :: "nat list \<Rightarrow> txn_array \<Rightarrow> int \<Rightarrow> node_id \<Rightarrow> simtime res" where
  "getTransactionDeliveryTime regions txns i receiver =
     bindR (txn_at txns i) (\<lambda>txn.
     bindR (getTransmissionDelay regions (tx_sender txn) receiver (tx_size txn) None) (\<lambda>(d, _).
       Inr (tx_timestamp txn + d)))"

text \<open>
  The two loops of deliverNewTransactions; the first reads the bitmap before it compares
  the index with TXN_NUMBER, as the code does.
\<close>

function deliver_low :: "bitmap \<Rightarrow> int \<Rightarrow> int res" where
  "deliver_low bm low =
     bindR (bitmap_check bm (of_int low)) (\<lambda>b.
       if b \<and> low < int TXN_NUMBER then deliver_low bm (low + 1) else Inr low)"
  by pat_completeness auto
termination
  by (relation "measure (\<lambda>(bm, low). nat (int TXN_NUMBER - low))") auto

function deliver_high :: "txn_array \<Rightarrow> simtime \<Rightarrow> int \<Rightarrow> int res" where
  "deliver_high txns now i =
     (if i < int TXN_NUMBER then
        bindR (txn_at txns i) (\<lambda>txn.
          if tx_timestamp txn > now then Inr i else deliver_high txns now (i + 1))
      else Inr i)"
  by pat_completeness auto
termination
  by (relation "measure (\<lambda>(txns, now, i). nat (int TXN_NUMBER - i))") auto

declare deliver_low.simps [simp del] deliver_high.simps [simp del]

definition deliverNewTransactions :: "txn_array \<Rightarrow> simtime \<Rightarrow> transaction_state \<Rightarrow> transaction_state res" where
  "deliverNewTransactions txns now state =
     bindR (deliver_low (transactions_bitmap state) (ts_low state)) (\<lambda>low.
     bindR (deliver_high txns now (max (ts_high state) 0)) (\<lambda>high.
       Inr (state\<lparr>ts_low := low, ts_high := high\<rparr>)))"

text \<open>The selection loop of generateTransactionData: i is low + j.\<close>

definition select_txn ::
  "nat list \<Rightarrow> txn_array \<Rightarrow> transaction_state \<Rightarrow> simtime \<Rightarrow> node_id \<Rightarrow> int \<Rightarrow> transaction_data \<Rightarrow> transaction_data res" where
  "select_txn regions txns state now me i data =
     bindR (bitmap_check (transactions_bitmap state) (of_int i)) (\<lambda>executed.
       if executed then Inr data
       else bindR (txn_at txns i) (\<lambda>txn.
            bindR (if tx_sender txn = me then Inr True
                   else bindR (getTransactionDeliveryTime regions txns i me) (\<lambda>t. Inr (t < now))) (\<lambda>seen.
              if seen then
                bindR (bitmap_set (included_transactions data) (of_int (i - ts_low state))) (\<lambda>inc.
                  Inr (data\<lparr>td_high := i, included_transactions := inc\<rparr>))
              else Inr data)))"

definition generateTransactionData ::
  "nat list \<Rightarrow> txn_array \<Rightarrow> transaction_state \<Rightarrow> simtime \<Rightarrow> node_id \<Rightarrow> (transaction_data option \<times> transaction_state) res" where
  "generateTransactionData regions txns state now me =
     bindR (deliverNewTransactions txns now state) (\<lambda>state.
       if ts_high state \<le> ts_low state then Inr (None, state)
       else
         let data = \<lparr>td_low = ts_low state, td_high = ts_low state,
                     included_transactions = allocTransactionData (nat (ts_high state - ts_low state))\<rparr>
         in bindR (foldR (select_txn regions txns state now me) [ts_low state..ts_high state - 1] data) (\<lambda>data.
              Inr (Some (if td_high data \<noteq> td_low data then data\<lparr>td_high := td_high data + 1\<rparr> else data), state)))"

definition apply_txn :: "transaction_data \<Rightarrow> int \<Rightarrow> bitmap \<Rightarrow> bitmap res" where
  "apply_txn data i bm =
     bindR (bitmap_check (included_transactions data) (of_int (i - td_low data))) (\<lambda>b.
       if b then markTransactionExecuted bm i else Inr bm)"

definition applyBlockTransactions :: "transaction_state \<Rightarrow> transaction_data \<Rightarrow> transaction_state res" where
  "applyBlockTransactions state data =
     bindR (foldR (apply_txn data) [td_low data..td_high data - 1] (transactions_bitmap state)) (\<lambda>bm.
       Inr (state\<lparr>transactions_bitmap := bm,
         ts_high := (if ts_high state > td_high data then ts_high state else td_high data)\<rparr>))"

definition revert_txn :: "transaction_data \<Rightarrow> int \<Rightarrow> bitmap \<Rightarrow> bitmap res" where
  "revert_txn data i bm =
     bindR (bitmap_check (included_transactions data) (of_int (i - td_low data))) (\<lambda>b.
       if b then markTransactionAvailable bm i else Inr bm)"

definition revertAppliedBlockTransactions :: "transaction_state \<Rightarrow> transaction_data \<Rightarrow> transaction_state res" where
  "revertAppliedBlockTransactions state data =
     bindR (foldR (revert_txn data) [td_low data..td_high data - 1] (transactions_bitmap state)) (\<lambda>bm.
       Inr (state\<lparr>transactions_bitmap := bm,
         ts_low := (if ts_low state < td_low data then ts_low state else td_low data)\<rparr>))"

subsection \<open>The effect of a block on the set of executed transactions\<close>

text \<open>The transactions that a block includes, as indexes of the global array.\<close>

definition txns_of :: "transaction_data \<Rightarrow> nat set" where
  "txns_of data = {nat i | i. td_low data \<le> i \<and> i < td_high data
     \<and> nat (i - td_low data) \<in> bits_of (included_transactions data)}"

text \<open>Data as the code builds it: the indexes are in range and the block's bitmap covers them.\<close>

definition wf_txn_data :: "transaction_data \<Rightarrow> bool" where
  "wf_txn_data data \<longleftrightarrow> 0 \<le> td_low data \<and> td_low data \<le> td_high data \<and> td_high data \<le> int TXN_NUMBER
     \<and> td_high data - td_low data \<le> int (64 * length (included_transactions data))"

definition wf_bitmap :: "bitmap \<Rightarrow> bool" where
  "wf_bitmap bm \<longleftrightarrow> TXN_NUMBER < 64 * length bm"

lemma check_index:
  assumes "wf_txn_data data" "td_low data \<le> i" "i < td_high data"
  shows "bitmap_check (included_transactions data) (of_int (i - td_low data)) =
     Inr (nat i \<in> txns_of data)"
proof -
  from assms have b: "0 \<le> i - td_low data" "i - td_low data < 2 ^ 32"
    "nat (i - td_low data) < 64 * length (included_transactions data)"
    by (auto simp: wf_txn_data_def TXN_NUMBER_def)
  have "nat i \<in> txns_of data \<longleftrightarrow> nat (i - td_low data) \<in> bits_of (included_transactions data)"
  proof
    assume "nat i \<in> txns_of data"
    then obtain j where "nat i = nat j" "td_low data \<le> j" "nat (j - td_low data) \<in> bits_of (included_transactions data)"
      by (auto simp: txns_of_def)
    moreover from this assms have "j = i" by (auto simp: wf_txn_data_def)
    ultimately show "nat (i - td_low data) \<in> bits_of (included_transactions data)" by simp
  qed (use assms in \<open>auto simp: txns_of_def\<close>)
  moreover have "unat (of_int (i - td_low data) :: u32) = nat (i - td_low data)"
    using b by (intro unat_of_int) auto
  ultimately show ?thesis using b(3) by (simp only: bitmap_check_eq) simp
qed

lemma txns_of_range:
  assumes "wf_txn_data data"
  shows "{k \<in> txns_of data. td_low data \<le> int k \<and> int k < td_high data} = txns_of data"
  using assms by (auto simp: txns_of_def wf_txn_data_def)

lemma apply_txns:
  assumes "wf_txn_data data" "wf_bitmap bm"
  shows "\<exists>bm'. foldR (apply_txn data) [td_low data..td_high data - 1] bm = Inr bm'
     \<and> length bm' = length bm \<and> bits_of bm' = bits_of bm \<union> txns_of data"
proof -
  have f: "apply_txn data = (\<lambda>i bm. bindR (bitmap_check (included_transactions data) (of_int (i - td_low data)))
      (\<lambda>b. if b then bitmap_set bm (of_int i) else Inr bm))"
    unfolding apply_txn_def markTransactionExecuted_def ..
  show ?thesis
    unfolding f using assms marking.upd_range [of "td_low data" "td_high data" bm _ "txns_of data",
        OF _ _ _ _ check_index [OF assms(1)]]
    by (auto simp: wf_txn_data_def wf_bitmap_def TXN_NUMBER_def txns_of_range [OF assms(1)])
qed

lemma revert_txns:
  assumes "wf_txn_data data" "wf_bitmap bm"
  shows "\<exists>bm'. foldR (revert_txn data) [td_low data..td_high data - 1] bm = Inr bm'
     \<and> length bm' = length bm \<and> bits_of bm' = bits_of bm - txns_of data"
proof -
  have f: "revert_txn data = (\<lambda>i bm. bindR (bitmap_check (included_transactions data) (of_int (i - td_low data)))
      (\<lambda>b. if b then bitmap_reset bm (of_int i) else Inr bm))"
    unfolding revert_txn_def markTransactionAvailable_def ..
  show ?thesis
    unfolding f using assms unmarking.upd_range [of "td_low data" "td_high data" bm _ "txns_of data",
        OF _ _ _ _ check_index [OF assms(1)]]
    by (auto simp: wf_txn_data_def wf_bitmap_def TXN_NUMBER_def txns_of_range [OF assms(1)])
qed

definition executed :: "transaction_state \<Rightarrow> nat set" where
  "executed ts = bits_of (transactions_bitmap ts)"

definition wf_ts :: "transaction_state \<Rightarrow> bool" where
  "wf_ts ts \<longleftrightarrow> wf_bitmap (transactions_bitmap ts) \<and> 0 \<le> ts_low ts \<and> ts_low ts \<le> int TXN_NUMBER
     \<and> 0 \<le> ts_high ts \<and> ts_high ts \<le> int TXN_NUMBER"

lemma applyBlockTransactions_ok:
  assumes "wf_txn_data data" "wf_ts ts"
  shows "\<exists>ts'. applyBlockTransactions ts data = Inr ts' \<and> wf_ts ts' \<and> executed ts' = executed ts \<union> txns_of data
     \<and> ts_low ts' = ts_low ts \<and> ts_high ts' = max (ts_high ts) (td_high data)"
  using apply_txns [of data "transactions_bitmap ts"] assms
  by (auto simp: applyBlockTransactions_def wf_ts_def wf_bitmap_def executed_def wf_txn_data_def max_def)

lemma revertAppliedBlockTransactions_ok:
  assumes "wf_txn_data data" "wf_ts ts"
  shows "\<exists>ts'. revertAppliedBlockTransactions ts data = Inr ts' \<and> wf_ts ts' \<and> executed ts' = executed ts - txns_of data
     \<and> ts_low ts' = min (ts_low ts) (td_low data) \<and> ts_high ts' = ts_high ts"
  using revert_txns [of data "transactions_bitmap ts"] assms
  by (auto simp: revertAppliedBlockTransactions_def wf_ts_def wf_bitmap_def executed_def wf_txn_data_def min_def)


lemma initTransactionState_wf: "wf_ts initTransactionState" "executed initTransactionState = {}"
proof -
  have "TXN_NUMBER < 64 * length (bitmap_initialize TXN_NUMBER)"
    by (simp add: bitmap_initialize_def bitmap_required_size_def B_BLOCK_SIZE_def TXN_NUMBER_def
        B_MOD_OF_BPB_def B_BITS_PER_BLOCK_def)
  then show "wf_ts initTransactionState" "executed initTransactionState = {}"
    by (simp_all add: wf_ts_def wf_bitmap_def initTransactionState_def executed_def)
qed

subsection \<open>Selecting transactions\<close>

lemma deliver_low_ok:
  assumes "wf_bitmap bm" "0 \<le> low" "low \<le> int TXN_NUMBER"
  shows "\<exists>low'. deliver_low bm low = Inr low' \<and> low \<le> low' \<and> low' \<le> int TXN_NUMBER
     \<and> (\<forall>i. low \<le> i \<and> i < low' \<longrightarrow> nat i \<in> bits_of bm) \<and> (low' = int TXN_NUMBER \<or> nat low' \<notin> bits_of bm)"
  using assms
proof (induction bm low rule: deliver_low.induct)
  case (1 bm low)
  have u: "unat (of_int low :: u32) = nat low"
    using "1.prems" by (intro unat_of_int) (auto simp: TXN_NUMBER_def)
  have chk: "bitmap_check bm (of_int low) = Inr (nat low \<in> bits_of bm)"
    using "1.prems" by (simp add: bitmap_check_eq u wf_bitmap_def)
  show ?case
  proof (cases "nat low \<in> bits_of bm \<and> low < int TXN_NUMBER")
    case True
    from "1.IH" [OF chk True] "1.prems" True obtain low' where l: "deliver_low bm (low + 1) = Inr low'"
      "low + 1 \<le> low'" "low' \<le> int TXN_NUMBER" "\<forall>i. low + 1 \<le> i \<and> i < low' \<longrightarrow> nat i \<in> bits_of bm" "low' = int TXN_NUMBER \<or> nat low' \<notin> bits_of bm" by auto
    have "nat i \<in> bits_of bm" if "low \<le> i" "i < low'" for i
      using l(4) True that by (cases "i = low") auto
    with l True chk show ?thesis by (subst deliver_low.simps) auto
  next
    case False
    with chk "1.prems" show ?thesis by (subst deliver_low.simps) auto
  qed
qed

lemma deliver_high_ok:
  assumes "0 \<le> i" "i \<le> int TXN_NUMBER"
  shows "\<exists>h. deliver_high txns now i = Inr h \<and> i \<le> h \<and> h \<le> int TXN_NUMBER
     \<and> (\<forall>j. i \<le> j \<and> j < h \<longrightarrow> tx_timestamp (txns (nat j)) \<le> now)
     \<and> (h = int TXN_NUMBER \<or> now < tx_timestamp (txns (nat h)))"
  using assms
proof (induction txns now i rule: deliver_high.induct)
  case (1 txns now i)
  show ?case
  proof (cases "i < int TXN_NUMBER \<and> tx_timestamp (txns (nat i)) \<le> now")
    case True
    then have at: "txn_at txns i = Inr (txns (nat i))" using "1.prems" by (simp add: txn_at_def)
    from "1.IH" [OF _ at] True "1.prems" obtain h where h: "deliver_high txns now (i + 1) = Inr h" "i + 1 \<le> h"
      "h \<le> int TXN_NUMBER" "\<forall>j. i + 1 \<le> j \<and> j < h \<longrightarrow> tx_timestamp (txns (nat j)) \<le> now"
      "h = int TXN_NUMBER \<or> now < tx_timestamp (txns (nat h))" by auto
    have "tx_timestamp (txns (nat j)) \<le> now" if "i \<le> j" "j < h" for j
      using h(4) True that by (cases "j = i") auto
    with h True at show ?thesis by (subst deliver_high.simps) auto
  next
    case False
    with "1.prems" show ?thesis by (subst deliver_high.simps) (auto simp: txn_at_def)
  qed
qed

text \<open>
  What the delivery of new transactions does: the lower index goes to the first transaction that is
  not executed, the upper one to the first from the old upper index on that lies in the future.
\<close>

definition delivered :: "txn_array \<Rightarrow> simtime \<Rightarrow> transaction_state \<Rightarrow> transaction_state \<Rightarrow> bool" where
  "delivered txns now ts ts' \<longleftrightarrow> transactions_bitmap ts' = transactions_bitmap ts
     \<and> ts_low ts \<le> ts_low ts' \<and> (\<forall>i. ts_low ts \<le> i \<and> i < ts_low ts' \<longrightarrow> nat i \<in> executed ts)
     \<and> (ts_low ts' = int TXN_NUMBER \<or> nat (ts_low ts') \<notin> executed ts)
     \<and> ts_high ts \<le> ts_high ts' \<and> (\<forall>i. ts_high ts \<le> i \<and> i < ts_high ts' \<longrightarrow> tx_timestamp (txns (nat i)) \<le> now)
     \<and> (ts_high ts' = int TXN_NUMBER \<or> now < tx_timestamp (txns (nat (ts_high ts'))))"

lemma deliverNewTransactions_ok:
  assumes "wf_ts ts"
  shows "\<exists>ts'. deliverNewTransactions txns now ts = Inr ts' \<and> wf_ts ts' \<and> delivered txns now ts ts'"
proof -
  from assms deliver_low_ok [of "transactions_bitmap ts" "ts_low ts"] obtain l where
    l: "deliver_low (transactions_bitmap ts) (ts_low ts) = Inr l" "ts_low ts \<le> l" "l \<le> int TXN_NUMBER"
      "\<forall>i. ts_low ts \<le> i \<and> i < l \<longrightarrow> nat i \<in> executed ts" "l = int TXN_NUMBER \<or> nat l \<notin> executed ts"
    by (auto simp: wf_ts_def executed_def)
  from assms deliver_high_ok [of "max (ts_high ts) 0" txns now] obtain h where
    h: "deliver_high txns now (max (ts_high ts) 0) = Inr h" "ts_high ts \<le> h" "h \<le> int TXN_NUMBER"
      "\<forall>j. ts_high ts \<le> j \<and> j < h \<longrightarrow> tx_timestamp (txns (nat j)) \<le> now"
      "h = int TXN_NUMBER \<or> now < tx_timestamp (txns (nat h))"
    by (auto simp: wf_ts_def max_def)
  let ?ts = "ts\<lparr>ts_low := l, ts_high := h\<rparr>"
  have "deliverNewTransactions txns now ts = Inr ?ts" using l(1) h(1) by (simp add: deliverNewTransactions_def)
  moreover have "wf_ts ?ts" using assms l(2,3) h(2,3) by (simp add: wf_ts_def)
  moreover have "delivered txns now ts ?ts" using l h by (simp add: delivered_def)
  ultimately show ?thesis by blast
qed

text \<open>A transaction that the node may include at a time: its own, or delivered by then.\<close>

definition seen :: "txn_array \<Rightarrow> simtime \<Rightarrow> node_id \<Rightarrow> nat \<Rightarrow> bool" where
  "seen txns now me i \<longleftrightarrow> tx_sender (txns i) = me
     \<or> (case getTransactionDeliveryTime initNetwork txns (int i) me of Inr t \<Rightarrow> t < now | Inl _ \<Rightarrow> False)"

definition available :: "txn_array \<Rightarrow> transaction_state \<Rightarrow> simtime \<Rightarrow> node_id \<Rightarrow> nat set" where
  "available txns ts now me =
     {i. ts_low ts \<le> int i \<and> int i < ts_high ts \<and> i \<notin> executed ts \<and> seen txns now me i}"

text \<open>
  The transactions that the node can put in a block, in terms of the state before the delivery:
  from the lower index on, not executed, seen, and either below the upper index or reached from it
  over transactions that all exist at the time.
\<close>

definition deliverable :: "txn_array \<Rightarrow> transaction_state \<Rightarrow> simtime \<Rightarrow> node_id \<Rightarrow> nat set" where
  "deliverable txns ts now me =
     {i. ts_low ts \<le> int i \<and> i < TXN_NUMBER \<and> i \<notin> executed ts \<and> seen txns now me i
       \<and> (\<forall>j. ts_high ts \<le> int j \<and> j \<le> i \<longrightarrow> tx_timestamp (txns j) \<le> now)}"

lemma executed_delivered: "delivered txns now ts ts' \<Longrightarrow> executed ts' = executed ts"
  by (simp add: delivered_def executed_def)

lemma available_delivered:
  assumes "wf_ts ts" "wf_ts ts'" "delivered txns now ts ts'"
  shows "available txns ts' now me = deliverable txns ts now me"
proof (rule set_eqI)
  fix i
  note d = assms(3) [unfolded delivered_def]
  have low: "ts_low ts' \<le> int i \<longleftrightarrow> ts_low ts \<le> int i" if "i \<notin> executed ts" using d that by (metis nat_int not_le order.trans)
  have "int i < ts_high ts' \<longleftrightarrow> i < TXN_NUMBER \<and> (\<forall>j. ts_high ts \<le> int j \<and> j \<le> i \<longrightarrow> tx_timestamp (txns j) \<le> now)"
  proof
    assume "int i < ts_high ts'"
    moreover from this assms(2) have "i < TXN_NUMBER" by (simp add: wf_ts_def)
    ultimately show "i < TXN_NUMBER \<and> (\<forall>j. ts_high ts \<le> int j \<and> j \<le> i \<longrightarrow> tx_timestamp (txns j) \<le> now)"
      using d by (metis nat_int of_nat_le_iff order.strict_trans1)
  next
    assume r: "i < TXN_NUMBER \<and> (\<forall>j. ts_high ts \<le> int j \<and> j \<le> i \<longrightarrow> tx_timestamp (txns j) \<le> now)"
    have h: "0 \<le> ts_high ts'" using assms(2) by (simp add: wf_ts_def)
    show "int i < ts_high ts'"
    proof (rule ccontr)
      assume "\<not> int i < ts_high ts'"
      then have "nat (ts_high ts') \<le> i" "ts_high ts' \<noteq> int TXN_NUMBER" using h r by auto
      moreover have "ts_high ts \<le> int (nat (ts_high ts'))" using d h by simp
      ultimately have "tx_timestamp (txns (nat (ts_high ts'))) \<le> now" using r by blast
      with d \<open>ts_high ts' \<noteq> int TXN_NUMBER\<close> show False by auto
    qed
  qed
  with low show "i \<in> available txns ts' now me \<longleftrightarrow> i \<in> deliverable txns ts now me"
    unfolding available_def deliverable_def executed_delivered [OF assms(3)] by auto
qed

text \<open>The transaction at the lower index is the first one from the old lower index on that is not executed.\<close>

lemma low_delivered:
  assumes "wf_ts ts" "wf_ts ts'" "delivered txns now ts ts'" "k \<in> deliverable txns ts now me"
  shows "k = nat (ts_low ts') \<longleftrightarrow> (\<forall>i. ts_low ts \<le> int i \<and> i < k \<longrightarrow> i \<in> executed ts)"
proof -
  note d = assms(3) [unfolded delivered_def]
  have k: "ts_low ts \<le> int k" "k < TXN_NUMBER" "k \<notin> executed ts" using assms(4) by (auto simp: deliverable_def)
  have h: "0 \<le> ts_low ts'" using assms(2) by (simp add: wf_ts_def)
  have le: "nat (ts_low ts') \<le> k" using d k by (metis nat_int nat_le_iff not_le)
  show ?thesis
  proof
    assume "k = nat (ts_low ts')"
    with d h show "\<forall>i. ts_low ts \<le> int i \<and> i < k \<longrightarrow> i \<in> executed ts" by (metis nat_int zless_nat_eq_int_zless)
  next
    assume r: "\<forall>i. ts_low ts \<le> int i \<and> i < k \<longrightarrow> i \<in> executed ts"
    have "\<not> nat (ts_low ts') < k"
    proof
      assume lt: "nat (ts_low ts') < k"
      moreover have "ts_low ts \<le> int (nat (ts_low ts'))" using d h by simp
      ultimately have "nat (ts_low ts') \<in> executed ts" using r by blast
      with d lt k(2) show False by auto
    qed
    with le show "k = nat (ts_low ts')" by simp
  qed
qed

definition known_senders :: "txn_array \<Rightarrow> bool" where
  "known_senders txns \<longleftrightarrow> (\<forall>i<TXN_NUMBER. unat (tx_sender (txns i)) < N_NODES)"

lemma delivery_time_ok:
  assumes "known_senders txns" "unat me < N_NODES" "0 \<le> i" "i < int TXN_NUMBER"
  shows "\<exists>t. getTransactionDeliveryTime initNetwork txns i me = Inr t"
proof -
  from assms have "unat (tx_sender (txns (nat i))) < N_NODES" by (auto simp: known_senders_def)
  from latency_pos [OF this assms(2)] assms show ?thesis
    by (auto simp: getTransactionDeliveryTime_def txn_at_def getTransmissionDelay_def)
qed

lemma select_txn_ok:
  assumes "wf_ts ts" "known_senders txns" "unat me < N_NODES" "ts_low ts \<le> i" "i < ts_high ts"
    "nat (i - ts_low ts) < 64 * length (included_transactions data)"
  shows "\<exists>data'. select_txn initNetwork txns ts now me i data = Inr data' \<and> td_low data' = td_low data
     \<and> length (included_transactions data') = length (included_transactions data)
     \<and> (if nat i \<in> available txns ts now me
        then td_high data' = i \<and> bits_of (included_transactions data') =
          insert (nat (i - ts_low ts)) (bits_of (included_transactions data))
        else data' = data)"
proof -
  have i: "0 \<le> i" "i < int TXN_NUMBER" using assms by (auto simp: wf_ts_def)
  have u: "unat (of_int i :: u32) = nat i" using i by (intro unat_of_int) (auto simp: TXN_NUMBER_def)
  have chk: "bitmap_check (transactions_bitmap ts) (of_int i) = Inr (nat i \<in> executed ts)"
  proof -
    have "nat i < 64 * length (transactions_bitmap ts)"
      using i assms(1) unfolding wf_ts_def wf_bitmap_def by linarith
    then show ?thesis by (simp add: bitmap_check_eq u executed_def)
  qed
  from delivery_time_ok [OF assms(2,3) i] obtain t where
    t: "getTransactionDeliveryTime initNetwork txns i me = Inr t" by auto
  have u2: "unat (of_int (i - ts_low ts) :: u32) = nat (i - ts_low ts)"
    using i assms by (intro unat_of_int) (auto simp: TXN_NUMBER_def wf_ts_def)
  with assms(6) obtain inc where inc: "bitmap_set (included_transactions data) (of_int (i - ts_low ts)) = Inr inc"
    by (simp only: bitmap_set_eq) simp
  have av: "nat i \<in> available txns ts now me \<longleftrightarrow> nat i \<notin> executed ts \<and> (tx_sender (txns (nat i)) = me \<or> t < now)"
    using assms(4,5) i t by (simp add: available_def seen_def)
  show ?thesis
    unfolding select_txn_def av
    using chk i t inc bits_of_set [OF inc] u2 by (simp add: txn_at_def del: of_int_diff)
qed

lemma allocTransactionData_ok:
  "bits_of (allocTransactionData n) = {}" "n \<le> 64 * length (allocTransactionData n)"
proof -
  let ?b = "bitmap_initialize n" and ?m = "TXN_DATA_MIN_BITMAP_SIZE div B_BLOCK_SIZE - length (bitmap_initialize n)"
  have "set ?b \<subseteq> {0}" by (auto simp: bitmap_initialize_def)
  then have "?b @ replicate ?m 0 = replicate (length ?b + ?m) 0"
    by (metis (no_types, lifting) replicate_add replicate_length_same subsetD singletonD)
  moreover have "bits_of (replicate k 0) = {}" for k
    by (auto simp: bits_of_def div_less_iff_less_mult mult.commute)
  ultimately show "bits_of (allocTransactionData n) = {}" by (simp add: allocTransactionData_def Let_def)
  show "n \<le> 64 * length (allocTransactionData n)"
    using bitmap_initialize_capacity [of n] by (simp add: allocTransactionData_def Let_def)
qed


lemma bits_of_take: "bits_of (take n bm) = {k \<in> bits_of bm. k < 64 * n}"
  by (auto simp: bits_of_def div_less_iff_less_mult mult.commute)

lemma txn_data_words_eq:
  "txn_data_words d = max 1 (bitmap_required_size (nat (td_high d - td_low d)) div 8)"
proof -
  define k where "k = (nat (td_high d - td_low d) + 63) div 64"
  have min: "TXN_DATA_MIN_BITMAP_SIZE = 8" by (simp add: TXN_DATA_MIN_BITMAP_SIZE_def bitmap_required_size_eq)
  have k: "bitmap_required_size (nat (td_high d - td_low d)) = 8 * k" by (simp add: bitmap_required_size_eq k_def)
  have "8 + nat (int (8 * k) - 8) = 8 * max 1 k" by (cases k) auto
  then show ?thesis
    unfolding txn_data_words_def sizeofAdditionalTransactionDataBuffer_def min k B_BLOCK_SIZE_def Let_def
    by (cases k) simp_all
qed

lemma txn_data_words_bound: "td_high d - td_low d \<le> int (64 * txn_data_words d)"
proof -
  have "nat (td_high d - td_low d) \<le> 8 * bitmap_required_size (nat (td_high d - td_low d))"
    by (rule bitmap_required_size_bound)
  also have "\<dots> \<le> 64 * txn_data_words d" by (simp add: txn_data_words_eq bitmap_required_size_eq)
  finally show ?thesis by linarith
qed

lemma txn_data_words_alloc:
  "td_high d - td_low d \<le> int n \<Longrightarrow> txn_data_words d \<le> length (allocTransactionData n)"
proof -
  assume "td_high d - td_low d \<le> int n"
  then have "bitmap_required_size (nat (td_high d - td_low d)) \<le> bitmap_required_size n"
    by (intro bitmap_required_size_mono) simp
  moreover have "bitmap_required_size 16 = 8" by (simp add: bitmap_required_size_eq)
  ultimately show ?thesis
    by (auto simp: txn_data_words_eq allocTransactionData_def Let_def length_bitmap_initialize
        TXN_DATA_MIN_BITMAP_SIZE_def B_BLOCK_SIZE_def div_le_mono)
qed

text \<open>A copy has the same transactions.\<close>

lemma copyTransactionData_ok:
  assumes "wf_txn_data d" "copyTransactionData d = Inr td"
  shows "wf_txn_data td" "txns_of td = txns_of d" "td_low td = td_low d" "td_high td = td_high d"
    "copyTransactionData td = Inr td"
proof -
  from assms(2) have td: "td = d\<lparr>included_transactions := take (txn_data_words d) (included_transactions d)\<rparr>"
    and len: "txn_data_words d \<le> length (included_transactions d)"
    by (auto simp: copyTransactionData_def split: if_splits)
  have w: "txn_data_words td = txn_data_words d" by (simp add: txn_data_words_def td)
  with len show "copyTransactionData td = Inr td" by (simp add: copyTransactionData_def td)
  show "wf_txn_data td" using assms(1) txn_data_words_bound [of d] len by (simp add: wf_txn_data_def td)
  show "txns_of td = txns_of d"
    using txn_data_words_bound [of d] by (force simp: txns_of_def td bits_of_take)
  show "td_low td = td_low d" "td_high td = td_high d" by (simp_all add: td)
qed

lemma select_loop_ok:
  assumes "wf_ts ts" "known_senders txns" "unat me < N_NODES" "ts_low ts \<le> h" "h \<le> ts_high ts"
    "nat (h - ts_low ts) \<le> 64 * length (included_transactions data)"
    "td_high data = ts_low ts" "bits_of (included_transactions data) = {}"
  shows "\<exists>data'. foldR (select_txn initNetwork txns ts now me) [ts_low ts..h - 1] data = Inr data'
     \<and> td_low data' = td_low data
     \<and> length (included_transactions data') = length (included_transactions data)
     \<and> bits_of (included_transactions data') = {k. ts_low ts + int k < h \<and> nat (ts_low ts + int k) \<in> available txns ts now me}
     \<and> (\<forall>i \<in> available txns ts now me. int i < h \<longrightarrow> int i \<le> td_high data')
     \<and> (td_high data' = ts_low ts \<or> (td_high data' < h \<and> 0 \<le> td_high data' \<and> nat (td_high data') \<in> available txns ts now me))"
  using assms(4-)
proof (induction "nat (h - ts_low ts)" arbitrary: h)
  case 0
  then have "h = ts_low ts" by simp
  moreover have "ts_low ts \<le> int i" if "i \<in> available txns ts now me" for i
    using that by (simp add: available_def)
  ultimately show ?case using "0.prems" by force
next
  case (Suc n)
  let ?f = "select_txn initNetwork txns ts now me" and ?A = "available txns ts now me"
  have lt: "ts_low ts < h" using Suc.hyps(2) by simp
  have low: "0 \<le> ts_low ts" using assms(1) by (simp add: wf_ts_def)
  have pre: "n = nat (h - 1 - ts_low ts)" "ts_low ts \<le> h - 1" "h - 1 \<le> ts_high ts"
    "nat (h - 1 - ts_low ts) \<le> 64 * length (included_transactions data)"
    using Suc.hyps(2) Suc.prems lt by linarith+
  from Suc.hyps(1) [OF pre Suc.prems(4,5)] obtain d where
    d: "foldR ?f [ts_low ts..h - 1 - 1] data = Inr d" "td_low d = td_low data"
      "length (included_transactions d) = length (included_transactions data)"
      "bits_of (included_transactions d) = {k. ts_low ts + int k < h - 1 \<and> nat (ts_low ts + int k) \<in> ?A}"
      "\<forall>i \<in> ?A. int i < h - 1 \<longrightarrow> int i \<le> td_high d"
      "td_high d = ts_low ts \<or> (td_high d < h - 1 \<and> 0 \<le> td_high d \<and> nat (td_high d) \<in> ?A)"
    by blast
  have split: "[ts_low ts..h - 1] = [ts_low ts..h - 1 - 1] @ [h - 1]"
    using lt by (subst upto_rec2) auto
  have pre2: "ts_low ts \<le> h - 1" "h - 1 < ts_high ts"
    "nat (h - 1 - ts_low ts) < 64 * length (included_transactions d)"
    using lt Suc.prems d(3) by linarith+
  from select_txn_ok [OF assms(1-3) pre2, of now] obtain d' where
    d': "?f (h - 1) d = Inr d'" "td_low d' = td_low d"
      "length (included_transactions d') = length (included_transactions d)"
      "if nat (h - 1) \<in> ?A then td_high d' = h - 1 \<and> bits_of (included_transactions d') =
          insert (nat (h - 1 - ts_low ts)) (bits_of (included_transactions d)) else d' = d"
    by blast
  have step: "ts_low ts + int k < h \<longleftrightarrow> ts_low ts + int k < h - 1 \<or> k = nat (h - 1 - ts_low ts)" for k
    using lt by linarith
  have last: "ts_low ts + int (nat (h - 1 - ts_low ts)) = h - 1" using lt by simp
  have bits: "bits_of (included_transactions d') = {k. ts_low ts + int k < h \<and> nat (ts_low ts + int k) \<in> ?A}"
    using d'(4) d(4) last by (auto simp: step split: if_splits)
  have top: "\<forall>i \<in> ?A. int i < h \<longrightarrow> int i \<le> td_high d'"
  proof (intro ballI impI)
    fix i assume i: "i \<in> ?A" "int i < h"
    show "int i \<le> td_high d'"
    proof (cases "int i = h - 1")
      case True
      then have "nat (h - 1) = i" by simp
      with d'(4) i True show ?thesis by auto
    next
      case False
      with i d(5) d'(4) lt show ?thesis by (auto split: if_splits)
    qed
  qed
  have high: "td_high d' = ts_low ts \<or> (td_high d' < h \<and> 0 \<le> td_high d' \<and> nat (td_high d') \<in> ?A)"
    using d'(4) d(6) low lt by (auto split: if_splits)
  show ?case
    unfolding split foldR_append d(1) using d'(1) d'(2,3) d(2,3) bits top high by simp
qed

lemma generateTransactionData_ok:
  assumes "wf_ts ts" and "known_senders txns" and "unat me < N_NODES"
  shows "\<exists>r ts'. generateTransactionData initNetwork txns ts now me = Inr (r, ts') \<and> wf_ts ts'
     \<and> executed ts' = executed ts \<and> delivered txns now ts ts'
     \<and> (case r of None \<Rightarrow> ts_high ts' \<le> ts_low ts'
        | Some data \<Rightarrow> wf_txn_data data \<and> txn_data_words data \<le> length (included_transactions data)
            \<and> txns_of data \<inter> executed ts' = {}
            \<and> (if available txns ts' now me = {nat (ts_low ts')} then txns_of data = {}
               else txns_of data = available txns ts' now me))"
proof -
  from deliverNewTransactions_ok [OF assms(1)] obtain ts1 where
    ts1: "deliverNewTransactions txns now ts = Inr ts1" "wf_ts ts1" "delivered txns now ts ts1" "executed ts1 = executed ts"
    using executed_delivered by blast
  show ?thesis
  proof (cases "ts_high ts1 \<le> ts_low ts1")
    case True
    with ts1 show ?thesis by (simp add: generateTransactionData_def)
  next
    case False
    let ?A = "available txns ts1 now me" and ?n = "nat (ts_high ts1 - ts_low ts1)"
    let ?d0 = "\<lparr>td_low = ts_low ts1, td_high = ts_low ts1, included_transactions = allocTransactionData ?n\<rparr>"
    note al = allocTransactionData_ok [of ?n]
    from select_loop_ok [OF ts1(2) assms(2,3), of "ts_high ts1" ?d0 now] False al obtain d where
      d: "foldR (select_txn initNetwork txns ts1 now me) [ts_low ts1..ts_high ts1 - 1] ?d0 = Inr d"
        "td_low d = ts_low ts1" "length (included_transactions d) = length (allocTransactionData ?n)"
        "bits_of (included_transactions d) = {k. ts_low ts1 + int k < ts_high ts1 \<and> nat (ts_low ts1 + int k) \<in> ?A}"
        "\<forall>i \<in> ?A. int i < ts_high ts1 \<longrightarrow> int i \<le> td_high d"
        "td_high d = ts_low ts1 \<or> (td_high d < ts_high ts1 \<and> 0 \<le> td_high d \<and> nat (td_high d) \<in> ?A)"
      by auto
    let ?r = "if td_high d \<noteq> td_low d then d\<lparr>td_high := td_high d + 1\<rparr> else d"
    have low: "0 \<le> ts_low ts1" "ts_high ts1 \<le> int TXN_NUMBER" using ts1(2) by (auto simp: wf_ts_def)
    have A: "ts_low ts1 \<le> int i" "int i < ts_high ts1" "i \<notin> executed ts1" if "i \<in> ?A" for i
      using that by (auto simp: available_def)
    have le: "ts_low ts1 \<le> td_high d" "td_high d < ts_high ts1"
      using d(6) A [of "nat (td_high d)"] False by auto
    have wf: "wf_txn_data ?r"
      using le low d(2,3) al(2) False by (auto simp: wf_txn_data_def)
    have words: "txn_data_words ?r \<le> length (included_transactions ?r)"
      using txn_data_words_alloc [of ?r ?n] le d(2,3) False by auto
    have eq: "txns_of ?r = (if td_high d = ts_low ts1 then {} else ?A)"
    proof (cases "td_high d = ts_low ts1")
      case True
      with d(2) show ?thesis by (auto simp: txns_of_def)
    next
      case False
      have "txns_of (d\<lparr>td_high := td_high d + 1\<rparr>) = ?A"
      proof (intro set_eqI iffI)
        fix i assume "i \<in> txns_of (d\<lparr>td_high := td_high d + 1\<rparr>)"
        then show "i \<in> ?A" using d(2,4) by (auto simp: txns_of_def)
      next
        fix i assume i: "i \<in> ?A"
        with A [OF i] d(5) have b: "int i \<le> td_high d" by auto
        note r = A(1) [OF i] A(2) [OF i]
        then have k: "ts_low ts1 + int (nat (int i - ts_low ts1)) = int i" by simp
        have inc: "nat (int i - ts_low ts1) \<in> bits_of (included_transactions d)"
          unfolding d(4) mem_Collect_eq k using r i by simp
        show "i \<in> txns_of (d\<lparr>td_high := td_high d + 1\<rparr>)"
          unfolding txns_of_def using b r d(2) inc
          by (intro CollectI exI [of _ "int i"]) simp
      qed
      with False d(2) show ?thesis by simp
    qed
    have only: "?A = {nat (ts_low ts1)} \<Longrightarrow> td_high d = ts_low ts1"
      using d(6) low by auto
    have none: "td_high d = ts_low ts1 \<Longrightarrow> ?A \<subseteq> {nat (ts_low ts1)}"
    proof
      fix i assume "td_high d = ts_low ts1" "i \<in> ?A"
      with d(5) A [of i] show "i \<in> {nat (ts_low ts1)}" by auto
    qed
    have sets: "if ?A = {nat (ts_low ts1)} then txns_of ?r = {} else txns_of ?r = ?A"
      unfolding eq using only none by (auto simp: subset_singleton_iff)
    have disj: "txns_of ?r \<inter> executed ts1 = {}" unfolding eq using A(3) by auto
    have run: "generateTransactionData initNetwork txns ts now me = Inr (Some ?r, ts1)"
      using ts1(1) False d(1) by (simp add: generateTransactionData_def Let_def)
    show ?thesis
      by (rule exI [of _ "Some ?r"], rule exI [of _ ts1]) (use run ts1 wf words disj sets in simp)
  qed
qed

text \<open>
  C34: the transactions that a new block gets, in terms of the state before. The new transactions
  are delivered: the indexes of the state end at the first transaction that is not executed and at
  the first one of the future; nothing else of it changes. There is no data only when no transaction
  can go in a block. Otherwise the block gets all those that can, from the old lower index on, not
  executed, and seen by the node, and no other, but for one case: when there is a single one and all
  between the lower index and it are executed, the code leaves the upper index at the lower one and
  the block comes out without it.
\<close>

theorem generateTransactionData_spec:
  assumes "wf_ts ts" and "known_senders txns" and "unat me < N_NODES"
  shows "\<exists>r ts'. generateTransactionData initNetwork txns ts now me = Inr (r, ts') \<and> wf_ts ts'
     \<and> delivered txns now ts ts'
     \<and> (case r of None \<Rightarrow> deliverable txns ts now me = {}
        | Some data \<Rightarrow> wf_txn_data data \<and> txns_of data \<inter> executed ts = {}
            \<and> (if \<exists>k. deliverable txns ts now me = {k} \<and> (\<forall>i. ts_low ts \<le> int i \<and> i < k \<longrightarrow> i \<in> executed ts)
               then txns_of data = {} else txns_of data = deliverable txns ts now me))"
proof -
  from generateTransactionData_ok [OF assms, of now] obtain r ts' where
    g: "generateTransactionData initNetwork txns ts now me = Inr (r, ts')" "wf_ts ts'" "delivered txns now ts ts'"
    and r: "case r of None \<Rightarrow> ts_high ts' \<le> ts_low ts'
      | Some data \<Rightarrow> wf_txn_data data \<and> txn_data_words data \<le> length (included_transactions data)
            \<and> txns_of data \<inter> executed ts' = {}
            \<and> (if available txns ts' now me = {nat (ts_low ts')} then txns_of data = {}
               else txns_of data = available txns ts' now me)" by blast
  note av = available_delivered [OF assms(1) g(2,3), of me]
  have none: "deliverable txns ts now me = {}" if "ts_high ts' \<le> ts_low ts'"
    using that unfolding av [symmetric] by (auto simp: available_def)
  have one: "deliverable txns ts now me = {nat (ts_low ts')} \<longleftrightarrow>
    (\<exists>k. deliverable txns ts now me = {k} \<and> (\<forall>i. ts_low ts \<le> int i \<and> i < k \<longrightarrow> i \<in> executed ts))"
    using low_delivered [OF assms(1) g(2,3)] by (metis insertI1)
  note r' = r [unfolded av one executed_delivered [OF g(3)]]
  show ?thesis
    by (rule exI [of _ r], rule exI [of _ ts'], cases r) (use g r' none in simp_all)
qed

text \<open>At time 12 the first three transactions exist; their sender puts them in its block.\<close>

theorem generateTransactionData_spec_witness:
  "\<exists>data ts'. generateTransactionData initNetwork (\<lambda>i. generate_txn N_NODES i 0) initTransactionState 12 0 = Inr (Some data, ts')
     \<and> txns_of data = {0, 1, 2} \<and> ts_low ts' = 0 \<and> ts_high ts' = 3"
proof -
  let ?txns = "\<lambda>i. generate_txn N_NODES i 0"
  have "known_senders ?txns" "unat (0 :: node_id) < N_NODES"
    by (simp_all add: known_senders_def generate_txn_def N_NODES_def)
  from generateTransactionData_spec [OF initTransactionState_wf(1) this, of 12] obtain r ts' where
    g: "generateTransactionData initNetwork ?txns initTransactionState 12 0 = Inr (r, ts')" "wf_ts ts'"
      "delivered ?txns 12 initTransactionState ts'"
    and r: "case r of None \<Rightarrow> deliverable ?txns initTransactionState 12 0 = {}
        | Some data \<Rightarrow> wf_txn_data data \<and> txns_of data \<inter> executed initTransactionState = {}
            \<and> (if \<exists>k. deliverable ?txns initTransactionState 12 0 = {k} \<and>
                 (\<forall>i. ts_low initTransactionState \<le> int i \<and> i < k \<longrightarrow> i \<in> executed initTransactionState)
               then txns_of data = {} else txns_of data = deliverable ?txns initTransactionState 12 0)" by blast
  have ts: "tx_timestamp (?txns i) \<le> 12 \<longleftrightarrow> i \<le> 2" for i
    by (auto simp: generate_txn_def TXN_NUMBER_def TERMINATION_TIME_def field_simps)
  have init: "ts_low initTransactionState = 0" "ts_high initTransactionState = 0" by (simp_all add: initTransactionState_def)
  have "deliverable ?txns initTransactionState 12 0 = {i. i < TXN_NUMBER \<and> i \<le> 2}"
    unfolding deliverable_def ts init initTransactionState_wf(2) by (auto simp: seen_def generate_txn_def)
  also have "\<dots> = {0, 1, 2}" by (auto simp: TXN_NUMBER_def)
  finally have del: "deliverable ?txns initTransactionState 12 0 = {0, 1, 2}" .
  have "deliverable ?txns initTransactionState 12 0 \<noteq> {k}" for k unfolding del by (metis insert_iff singletonD zero_neq_one)
  with r del obtain data where data: "r = Some data" "txns_of data = {0, 1, 2}" by (auto split: option.splits)
  have "ts_low ts' = 0"
    using g(3) initTransactionState_wf(2) init by (auto simp: delivered_def)
  moreover have "ts_high ts' = 3"
  proof -
    have early: "\<forall>i. 0 \<le> i \<and> i < ts_high ts' \<longrightarrow> tx_timestamp (?txns (nat i)) \<le> 12"
      using g(3) unfolding delivered_def init by blast
    have "\<not> 3 < ts_high ts'"
    proof
      assume "3 < ts_high ts'"
      with early [rule_format, of 3] have "tx_timestamp (?txns (nat 3)) \<le> 12" by linarith
      then show False unfolding ts by simp
    qed
    then have "ts_high ts' \<le> 3" by simp
    from g(3) have "ts_high ts' = int TXN_NUMBER \<or> 12 < tx_timestamp (?txns (nat (ts_high ts')))"
      unfolding delivered_def by blast
    then have "ts_high ts' = int TXN_NUMBER \<or> \<not> nat (ts_high ts') \<le> 2" unfolding ts [symmetric] not_le .
    then have "3 \<le> ts_high ts'" unfolding TXN_NUMBER_def by linarith
    with \<open>ts_high ts' \<le> 3\<close> show ?thesis by simp
  qed
  ultimately show ?thesis using g(1) data by blast
qed

subsection \<open>The transactions of a chain as a log that can be taken back\<close>

text \<open>
  The blocks of a chain bring transactions that no earlier block has and that were not
  executed at the start.
\<close>

fun fresh_txns :: "nat set \<Rightarrow> transaction_data list \<Rightarrow> bool" where
  "fresh_txns base [] \<longleftrightarrow> True"
| "fresh_txns base (d # ds) \<longleftrightarrow> wf_txn_data d \<and> txns_of d \<inter> base = {} \<and> fresh_txns (base \<union> txns_of d) ds"

lemma fresh_txns_append:
  "fresh_txns base (ds @ es) \<longleftrightarrow> fresh_txns base ds \<and> fresh_txns (base \<union> \<Union> (txns_of ` set ds)) es"
  by (induction ds arbitrary: base) (auto simp: Un_assoc)

definition txns_executed :: "nat set \<Rightarrow> transaction_state \<Rightarrow> transaction_data list \<Rightarrow> bool" where
  "txns_executed base ts ds \<longleftrightarrow> wf_ts ts \<and> fresh_txns base ds \<and> executed ts = base \<union> \<Union> (txns_of ` set ds)"

interpretation txn_log: undo_log "\<lambda>d ts. applyBlockTransactions ts d" "\<lambda>d ts. revertAppliedBlockTransactions ts d"
  "txns_executed base" "fresh_txns base" for base
proof
  show "\<exists>ts'. applyBlockTransactions ts d = Inr ts' \<and> txns_executed base ts' (ds @ [d])"
    if "txns_executed base ts ds" "fresh_txns base (ds @ [d])" for ts ds d
    using that applyBlockTransactions_ok [of d ts] by (auto simp: txns_executed_def fresh_txns_append)
  show "\<exists>ts'. revertAppliedBlockTransactions ts d = Inr ts' \<and> txns_executed base ts' ds"
    if "txns_executed base ts (ds @ [d])" for ts ds d
  proof -
    from that have d: "wf_txn_data d" "txns_of d \<inter> (base \<union> \<Union> (txns_of ` set ds)) = {}"
      and ts: "wf_ts ts" "fresh_txns base ds" "executed ts = base \<union> \<Union> (txns_of ` set ds) \<union> txns_of d"
      by (auto simp: txns_executed_def fresh_txns_append)
    have "executed ts - txns_of d = base \<union> \<Union> (txns_of ` set ds)"
      unfolding ts(3) using d(2) by blast
    with revertAppliedBlockTransactions_ok [OF d(1) ts(1)] ts(2) show ?thesis
      by (auto simp: txns_executed_def)
  qed
  show "fresh_txns base ds" if "fresh_txns base (ds @ es)" for ds es
    using that by (simp add: fresh_txns_append)
qed

end
