(* ===== verification/Chain.thy ===== *)
theory Chain
  imports Stats Transaction
begin

text \<open>
  Block.c, first part: blocks, chain nodes, levels and the blockchain with its two level
  arrays; access to levels and nodes; the comparison of chains; conversion between blocks
  and chain nodes; initialisation; look-up.

  A pointer to a chain node is the pair of its height and its index in the level, a
  \<open>node_ref\<close>: the nodes of a level stay where they are until the level is emptied. The
  union of parent_index and parentMinerId is a tagged value; reading the member that is
  not stored is a fault. Heights are natural numbers; where the code subtracts 1 from a
  height of 0, the wrapped value is above every level and getChainLevel aborts, so
  \<open>pred_height\<close> faults. The checks under \<open>#ifndef NDEBUG\<close> are modelled. The list of a level
  holds the nodes in use, \<open>lv_capacity\<close> is the allocated size.
\<close>

record block =
  bk_timestamp :: simtime
  bk_size :: nat
  bk_miner :: node_id
  bk_prevBlockMiner :: node_id
  bk_sender :: node_id
  bk_height :: nat
  bk_is_attack_block :: bool
  bk_transactionData :: transaction_data

datatype parent_link = ParentIndex nat | ParentMiner node_id

record chain_node =
  cn_parent :: parent_link
  cn_transactionData :: "transaction_data option"
  cn_timestamp :: simtime
  cn_miner :: node_id
  cn_height :: nat
  cn_score :: u32
  cn_flags :: u32
  cn_ancestorsMined :: u32

record chain_level =
  lv_nodes :: "chain_node list"
  lv_capacity :: nat

record blockchain =
  current_levels :: "chain_level list"
  old_levels :: "chain_level list"
  main_chain_index :: nat
  bc_height :: nat
  bc_max_height :: nat
  bc_min_height :: nat

datatype mining_state = HashPower u64 | HashPowerPortion real

record blockchain_state =
  chain_of :: blockchain
  miningState :: mining_state
  mined_by_me :: u32

type_synonym node_ref = "nat \<times> nat"

definition CHAIN_NODE_FLAG_ORPHAN :: u32 where "CHAIN_NODE_FLAG_ORPHAN = 1"

definition genesis_block :: chain_node where
  "genesis_block = \<lparr>cn_parent = ParentMiner NODE_ID_MAX, cn_transactionData = None, cn_timestamp = - 1,
     cn_miner = NODE_ID_MAX, cn_height = 0, cn_score = 0, cn_flags = 0, cn_ancestorsMined = 0\<rparr>"

definition isOrphan :: "chain_node \<Rightarrow> bool" where
  "isOrphan n \<longleftrightarrow> cn_flags n AND CHAIN_NODE_FLAG_ORPHAN \<noteq> 0"

definition setOrphan :: "chain_node \<Rightarrow> chain_node" where
  "setOrphan n = n\<lparr>cn_flags := cn_flags n OR CHAIN_NODE_FLAG_ORPHAN\<rparr>"

text \<open>The operator \<open>!\<close> of C: 1 for 0, 0 for every other value.\<close>

definition logical_not :: "u32 \<Rightarrow> u32" where
  "logical_not x = (if x = 0 then 1 else 0)"

definition unOrphan :: "chain_node \<Rightarrow> chain_node" where
  "unOrphan n = n\<lparr>cn_flags := cn_flags n AND logical_not CHAIN_NODE_FLAG_ORPHAN\<rparr>"

definition pred_height :: "nat \<Rightarrow> nat res" where
  "pred_height h = (if h = 0 then Inl Abort else Inr (h - 1))"

definition getChainLevel :: "blockchain \<Rightarrow> nat \<Rightarrow> chain_level res" where
  "getChainLevel c height =
     (if height < bc_min_height c then Inl Abort
      else if height > bc_min_height c + 2 * DEPTH_TO_KEEP then Inl Abort
      else let h = height - bc_min_height c in
        if h < DEPTH_TO_KEEP then nthR (old_levels c) h
        else nthR (current_levels c) (h - DEPTH_TO_KEEP))"

text \<open>A write through the pointer that getChainLevel returns.\<close>

definition setChainLevel :: "blockchain \<Rightarrow> nat \<Rightarrow> chain_level \<Rightarrow> blockchain res" where
  "setChainLevel c height l =
     bindR (getChainLevel c height) (\<lambda>_.
       let h = height - bc_min_height c in
       if h < DEPTH_TO_KEEP then Inr (c\<lparr>old_levels := (old_levels c)[h := l]\<rparr>)
       else Inr (c\<lparr>current_levels := (current_levels c)[h - DEPTH_TO_KEEP := l]\<rparr>))"

definition getChainNode :: "blockchain \<Rightarrow> node_ref \<Rightarrow> chain_node res" where
  "getChainNode c r = bindR (getChainLevel c (fst r)) (\<lambda>l. nthR (lv_nodes l) (snd r))"

definition setChainNode :: "blockchain \<Rightarrow> node_ref \<Rightarrow> chain_node \<Rightarrow> blockchain res" where
  "setChainNode c r n =
     bindR (getChainLevel c (fst r)) (\<lambda>l.
     bindR (updR (lv_nodes l) (snd r) n) (\<lambda>ns. setChainLevel c (fst r) (l\<lparr>lv_nodes := ns\<rparr>)))"

text \<open>The pointer getMainChain returns; its callers dereference it at once.\<close>

definition getMainChain :: "blockchain \<Rightarrow> node_ref" where
  "getMainChain c = (bc_height c, main_chain_index c)"

definition parent_index :: "chain_node \<Rightarrow> nat res" where
  "parent_index n = (case cn_parent n of ParentIndex i \<Rightarrow> Inr i | ParentMiner _ \<Rightarrow> Inl InactiveUnion)"

definition parentMinerId :: "chain_node \<Rightarrow> node_id res" where
  "parentMinerId n = (case cn_parent n of ParentMiner m \<Rightarrow> Inr m | ParentIndex _ \<Rightarrow> Inl InactiveUnion)"

text \<open>The pointer to the parent of a linked node, as the walks of switchChains compute it.\<close>

definition parent_ref :: "chain_node \<Rightarrow> node_ref res" where
  "parent_ref n = bindR (pred_height (cn_height n)) (\<lambda>h. bindR (parent_index n) (\<lambda>i. Inr (h, i)))"

subsection \<open>Comparison of chains\<close>

text \<open>The two arguments are pointers with the nodes they point to; the result is one of them.\<close>

definition chainNodeMaxHonest :: "'p \<times> chain_node \<Rightarrow> 'p \<times> chain_node \<Rightarrow> 'p \<times> chain_node" where
  "chainNodeMaxHonest a b =
     (let A = snd a; B = snd b in
      if cn_score A > cn_score B then a
      else if cn_score A < cn_score B then b
      else if cn_ancestorsMined A > cn_ancestorsMined B then a
      else if cn_ancestorsMined A < cn_ancestorsMined B then b
      else if cn_timestamp A < cn_timestamp B then a
      else if cn_timestamp A > cn_timestamp B then b
      else if cn_miner A \<le> cn_miner B then a else b)"

definition catchup_tolerance :: "env \<Rightarrow> nat res" where
  "catchup_tolerance env =
     (case ac_type (attackConfig env) of
        ATTACK_FIFTY_ONE \<Rightarrow> Inr (fo_catchupTolerance (fiftyOne (attackConfig env)))
      | ATTACK_SELFISH_MINING \<Rightarrow> Inr (sm_catchupTolerance (selfish (attackConfig env)))
      | ATTACK_NONE \<Rightarrow> Inl Abort)"

definition chainNodeMaxAttacker :: "env \<Rightarrow> 'p \<times> chain_node \<Rightarrow> 'p \<times> chain_node \<Rightarrow> ('p \<times> chain_node) res" where
  "chainNodeMaxAttacker env a b =
     (if cn_ancestorsMined (snd a) = cn_ancestorsMined (snd b) then Inr (chainNodeMaxHonest a b)
      else
        let (a, b) = (if cn_ancestorsMined (snd a) < cn_ancestorsMined (snd b) then (b, a) else (a, b)) in
        if cn_score (snd a) \<ge> cn_score (snd b) then Inr a
        else bindR (catchup_tolerance env) (\<lambda>tolerance.
          let virtual_score = of_nat (unat (cn_score (snd a)) + tolerance) :: u64 in
          if virtual_score > ucast (cn_score (snd b)) then Inr a
          else if virtual_score < ucast (cn_score (snd b)) then Inr b
          else if cn_timestamp (snd a) < cn_timestamp (snd b) then Inr a
          else if cn_timestamp (snd a) > cn_timestamp (snd b) then Inr b
          else if cn_miner (snd a) \<le> cn_miner (snd b) then Inr a else Inr b))"

text \<open>The argument me is the variable currentNode, which ProcessEvent sets to the node's id.\<close>

definition chainNodeMax :: "env \<Rightarrow> node_id \<Rightarrow> 'p \<times> chain_node \<Rightarrow> 'p \<times> chain_node \<Rightarrow> ('p \<times> chain_node) res" where
  "chainNodeMax env me a b =
     bindR (is_attacker env me) (\<lambda>att.
       if att then chainNodeMaxAttacker env a b else Inr (chainNodeMaxHonest a b))"

definition chainNodeMax_ref :: "env \<Rightarrow> node_id \<Rightarrow> blockchain \<Rightarrow> node_ref \<Rightarrow> node_ref \<Rightarrow> node_ref res" where
  "chainNodeMax_ref env me c r s =
     bindR (getChainNode c r) (\<lambda>a. bindR (getChainNode c s) (\<lambda>b.
     bindR (chainNodeMax env me (r, a) (s, b)) (\<lambda>m. Inr (fst m))))"

subsection \<open>Initialisation\<close>

definition initChainLevel :: chain_level where
  "initChainLevel = \<lparr>lv_nodes = [], lv_capacity = 0\<rparr>"

definition generateChainLevels :: "chain_level list" where
  "generateChainLevels = replicate DEPTH_TO_KEEP initChainLevel"

definition initBlockchain :: blockchain where
  "initBlockchain =
     (let c = \<lparr>current_levels = generateChainLevels, old_levels = generateChainLevels,
               main_chain_index = 0, bc_height = 0, bc_max_height = 0, bc_min_height = 0\<rparr>
      in case setChainLevel c 0 \<lparr>lv_nodes = [genesis_block], lv_capacity = 1\<rparr> of Inr c \<Rightarrow> c | Inl _ \<Rightarrow> c)"

text \<open>
  initBlockchainState draws the hash power and adds it to the shared total, which is passed
  in and out.
\<close>

definition initBlockchainState :: "nat \<Rightarrow> u64 \<Rightarrow> rng_t \<Rightarrow> (blockchain_state \<times> u64 \<times> rng_t) res" where
  "initBlockchainState fuel totalHashPower rng =
     bindR (NormalExpanded fuel rng 5000 1000) (\<lambda>(x, rng).
       let hp = of_int \<lfloor>x\<rfloor> in
       Inr (\<lparr>chain_of = initBlockchain, miningState = HashPower hp, mined_by_me = 0\<rparr>, totalHashPower + hp, rng))"

definition attackerInitBlockchainState :: "blockchain_state \<Rightarrow> blockchain_state" where
  "attackerInitBlockchainState st = st\<lparr>chain_of := initBlockchain, mined_by_me := 0\<rparr>"

definition afterInitBlockchainState :: "env \<Rightarrow> u64 \<Rightarrow> blockchain_state \<Rightarrow> blockchain_state res" where
  "afterInitBlockchainState env totalHashPower st =
     (case miningState st of
        HashPowerPortion _ \<Rightarrow> Inl InactiveUnion
      | HashPower hp \<Rightarrow>
          let p = real (unat hp) / real (unat totalHashPower);
              p = (case ac_type (attackConfig env) of
                     ATTACK_SELFISH_MINING \<Rightarrow> p * (1 - sm_hashPowerPortion (selfish (attackConfig env)))
                   | ATTACK_FIFTY_ONE \<Rightarrow> p * (1 - fo_hashPowerPortion (fiftyOne (attackConfig env)))
                   | ATTACK_NONE \<Rightarrow> p)
          in Inr (st\<lparr>miningState := HashPowerPortion p\<rparr>))"

definition attackerAfterInitBlockchainState :: "env \<Rightarrow> blockchain_state \<Rightarrow> blockchain_state res" where
  "attackerAfterInitBlockchainState env st =
     (case ac_type (attackConfig env) of
        ATTACK_NONE \<Rightarrow> Inl Abort
      | ATTACK_SELFISH_MINING \<Rightarrow>
          Inr (st\<lparr>miningState := HashPowerPortion (sm_hashPowerPortion (selfish (attackConfig env)))\<rparr>)
      | ATTACK_FIFTY_ONE \<Rightarrow>
          Inr (st\<lparr>miningState := HashPowerPortion (fo_hashPowerPortion (fiftyOne (attackConfig env)))\<rparr>))"

definition getNextGenDelay :: "env \<Rightarrow> rng_t \<Rightarrow> real \<Rightarrow> (simtime \<times> rng_t) res" where
  "getNextGenDelay env rng hashPowerPortion = Expent rng (BLOCK_INTERVAL env / hashPowerPortion)"

text \<open>The result is the time passed to ScheduleRetractableEvent, none when the node does not mine.\<close>

definition scheduleNextBlockGeneration ::
  "env \<Rightarrow> simtime \<Rightarrow> rng_t \<Rightarrow> blockchain_state \<Rightarrow> (simtime option \<times> rng_t) res" where
  "scheduleNextBlockGeneration env now rng st =
     (case miningState st of
        HashPower _ \<Rightarrow> Inl InactiveUnion
      | HashPowerPortion p \<Rightarrow>
          if p \<le> 0 then Inr (None, rng)
          else bindR (getNextGenDelay env rng p) (\<lambda>(d, rng). Inr (Some (now + d), rng)))"

subsection \<open>Blocks and chain nodes\<close>

definition validateBlock :: "block \<Rightarrow> bool \<times> simtime" where
  "validateBlock b = (True, BLOCK_VALIDATION_TIME)"

text \<open>The zeroed data of a block without transactions.\<close>

definition no_transactions :: transaction_data where
  "no_transactions = \<lparr>td_low = 0, td_high = 0,
     included_transactions = replicate (TXN_DATA_MIN_BITMAP_SIZE div B_BLOCK_SIZE) 0\<rparr>"

definition populateChainNode :: "block \<Rightarrow> chain_node res" where
  "populateChainNode b =
     bindR (copyTransactionData (bk_transactionData b)) (\<lambda>td.
       Inr \<lparr>cn_parent = ParentMiner (bk_prevBlockMiner b), cn_transactionData = Some td,
            cn_timestamp = bk_timestamp b, cn_miner = bk_miner b, cn_height = bk_height b,
            cn_score = 0, cn_flags = 0, cn_ancestorsMined = 0\<rparr>)"

text \<open>The sender is left as malloc gave it; every caller sets it before the block is used.\<close>

definition blockFromNode :: "blockchain \<Rightarrow> chain_node \<Rightarrow> block res" where
  "blockFromNode c node =
     (case cn_transactionData node of
        None \<Rightarrow> Inl NullDeref
      | Some td \<Rightarrow>
          bindR (if isOrphan node then parentMinerId node
                 else bindR (parent_ref node) (\<lambda>r. bindR (getChainNode c r) (\<lambda>p. Inr (cn_miner p)))) (\<lambda>prev.
          bindR (copyTransactionData td) (\<lambda>td.
            Inr \<lparr>bk_timestamp = cn_timestamp node, bk_size = 10, bk_miner = cn_miner node,
                 bk_prevBlockMiner = prev, bk_sender = 0, bk_height = cn_height node,
                 bk_is_attack_block = False, bk_transactionData = td\<rparr>)))"

fun find_miner :: "node_id \<Rightarrow> nat \<Rightarrow> chain_node list \<Rightarrow> nat option" where
  "find_miner m i [] = None"
| "find_miner m i (n # ns) = (if cn_miner n = m then Some i else find_miner m (Suc i) ns)"

definition findChainNode :: "blockchain \<Rightarrow> node_id \<Rightarrow> nat \<Rightarrow> node_ref option res" where
  "findChainNode c miner height =
     (if height > bc_max_height c then Inr None
      else bindR (getChainLevel c height) (\<lambda>l.
        Inr (map_option (Pair height) (find_miner miner 0 (lv_nodes l)))))"

definition retrieveBlock :: "blockchain \<Rightarrow> node_id \<Rightarrow> nat \<Rightarrow> block option res" where
  "retrieveBlock c miner height =
     bindR (findChainNode c miner height) (\<lambda>r.
       case r of None \<Rightarrow> Inr None
       | Some r \<Rightarrow> bindR (getChainNode c r) (\<lambda>n. bindR (blockFromNode c n) (\<lambda>b. Inr (Some b))))"

definition resetLevels :: "chain_level list \<Rightarrow> chain_level list" where
  "resetLevels levels = map (\<lambda>l. l\<lparr>lv_nodes := []\<rparr>) levels"

definition moveChainForward :: "blockchain \<Rightarrow> blockchain" where
  "moveChainForward c =
     (let aux = resetLevels (old_levels c) in
      c\<lparr>old_levels := current_levels c, current_levels := aux, bc_min_height := bc_min_height c + DEPTH_TO_KEEP\<rparr>)"

end
