(* ===== verification/RootSim.thy ===== *)
theory RootSim
  imports Prelude
begin

text \<open>
  What ROOT-Sim.h gives to models: the numbers of the events of the core and the largest time.
  Times are reals; the largest one is the largest double.
\<close>

definition LP_RETRACTABLE :: u32 where "LP_RETRACTABLE = 65533"
definition LP_INIT :: u32 where "LP_INIT = 65534"
definition LP_FINI :: u32 where "LP_FINI = 65535"

definition SIMTIME_MAX :: simtime where
  "SIMTIME_MAX = (2 - 1 / 2 ^ 52) * 2 ^ 1023"

end
