(* ===== verification/Network.thy ===== *)
theory Network
  imports Delay Chain RootSim
begin

text \<open>
  Network.c, the sending part: a block travels to a peer as an event scheduled after the
  transmission delay; gossiping sends it to all peers of a node, or to GOSSIP_FANOUT of them
  drawn at random without repetition. The peer lists of Topology.c are data that a script
  made: a list of lists that is an argument here.

  The results: a block is sent at most once to each place of the peer list, to all places
  when the node mined it or has few peers and to exactly GOSSIP_FANOUT otherwise, never
  before the time of sending; the drawing loop ends exactly when a draw hits a free place, and
  gossiping returns exactly when the draws of the generator come to as many rounds as events are due.
\<close>

definition RBLOCKSIM_INIT :: u32 where "RBLOCKSIM_INIT = 0"
definition RECEIVE_BLOCK :: u32 where "RECEIVE_BLOCK = 1"
definition REQUEST_BLOCK :: u32 where "REQUEST_BLOCK = 2"
definition GENERATE_BLOCK :: u32 where "GENERATE_BLOCK = LP_RETRACTABLE"

lemmas event_codes = RBLOCKSIM_INIT_def RECEIVE_BLOCK_def REQUEST_BLOCK_def LP_RETRACTABLE_def LP_INIT_def
  LP_FINI_def GENERATE_BLOCK_def

record request_block_evt =
  rq_requester :: node_id
  rq_miner :: node_id
  rq_height :: u64

text \<open>What the untyped content of an event holds; reading it as something else is a fault.\<close>

datatype event_content = NoContent | BlockContent block | RequestContent request_block_evt

record event =
  ev_receiver :: node_id
  ev_timestamp :: simtime
  ev_type :: u32
  ev_content :: event_content

type_synonym topology = "node_id list list"

text \<open>
  Sending copies the header of the block and as many bytes of its transaction data as
  event_size says. A generator is always given, so the delay is drawn.
\<close>

definition sendSingleBlock ::
  "node_id \<Rightarrow> node_id \<Rightarrow> simtime \<Rightarrow> block \<Rightarrow> rng_t \<Rightarrow> u32 \<Rightarrow> (event \<times> rng_t) res" where
  "sendSingleBlock sender receiver send_time b rng evt_type =
     bindR (getTransmissionDelay initNetwork sender receiver (bk_size b) (Some rng)) (\<lambda>(d, rng).
     bindR (copyTransactionData (bk_transactionData b)) (\<lambda>td.
       case rng of None \<Rightarrow> Inl NullDeref
       | Some rng \<Rightarrow> Inr (\<lparr>ev_receiver = receiver, ev_timestamp = send_time + d, ev_type = evt_type,
                         ev_content = BlockContent (b\<lparr>bk_transactionData := td\<rparr>)\<rparr>, rng)))"

fun gossip_all :: "node_id \<Rightarrow> simtime \<Rightarrow> block \<Rightarrow> node_id list \<Rightarrow> event list \<times> rng_t \<Rightarrow> (event list \<times> rng_t) res" where
  "gossip_all sender send_time b [] s = Inr s"
| "gossip_all sender send_time b (p # ps) (evs, rng) =
     bindR (sendSingleBlock sender p send_time b rng RECEIVE_BLOCK) (\<lambda>(ev, rng).
       gossip_all sender send_time b ps (evs @ [ev], rng))"

text \<open>The loop that draws until it hits a peer that is not selected yet: \<open>fuel\<close> bounds its draws.\<close>

fun draw_peer :: "nat \<Rightarrow> bitmap \<Rightarrow> nat \<Rightarrow> rng_t \<Rightarrow> (node_id \<times> rng_t) res" where
  "draw_peer 0 selected n_peers rng = Inl OutOfFuel"
| "draw_peer (Suc fuel) selected n_peers rng =
     bindR (RandomRange rng 0 (int n_peers - 1)) (\<lambda>(i, rng).
     bindR (bitmap_check selected (of_int i)) (\<lambda>taken.
       if taken then draw_peer fuel selected n_peers rng else Inr (of_int i, rng)))"

fun gossip_some :: "nat \<Rightarrow> nat \<Rightarrow> node_id \<Rightarrow> simtime \<Rightarrow> block \<Rightarrow> node_id list \<Rightarrow> bitmap \<Rightarrow> event list \<times> rng_t
    \<Rightarrow> (event list \<times> rng_t) res" where
  "gossip_some fuel 0 sender send_time b peers selected s = Inr s"
| "gossip_some fuel (Suc k) sender send_time b peers selected (evs, rng) =
     bindR (draw_peer fuel selected (length peers) rng) (\<lambda>(i, rng).
     bindR (bitmap_set selected i) (\<lambda>selected.
     bindR (nthR peers (unat i)) (\<lambda>p.
     bindR (sendSingleBlock sender p send_time b rng RECEIVE_BLOCK) (\<lambda>(ev, rng).
       gossip_some fuel k sender send_time b peers selected (evs @ [ev], rng)))))"

definition gossipBlock :: "nat \<Rightarrow> node_id \<Rightarrow> simtime \<Rightarrow> block \<Rightarrow> rng_t \<Rightarrow> node_id list \<Rightarrow> (event list \<times> rng_t) res" where
  "gossipBlock fuel sender send_time b rng peers =
     (if GOSSIP_FANOUT = 0 \<or> length peers \<le> GOSSIP_FANOUT \<or> bk_miner b = sender
      then gossip_all sender send_time b peers ([], rng)
      else gossip_some fuel GOSSIP_FANOUT sender send_time b peers (bitmap_initialize (length peers)) ([], rng))"

text \<open>
  The peer lists are \<open>topo\<close>: the row of the sender cut to its entry of peer_list_sizes.
\<close>

definition propagateBlock :: "topology \<Rightarrow> nat \<Rightarrow> node_id \<Rightarrow> simtime \<Rightarrow> block \<Rightarrow> rng_t \<Rightarrow> (event list \<times> rng_t) res" where
  "propagateBlock topo fuel sender send_time b rng =
     bindR (nthR topo (unat sender)) (\<lambda>peers. gossipBlock fuel sender send_time b rng peers)"

fun send_to_loop :: "node_id list \<Rightarrow> node_id \<Rightarrow> simtime \<Rightarrow> block \<Rightarrow> event list \<times> rng_t \<Rightarrow> (event list \<times> rng_t) res" where
  "send_to_loop [] sender send_time b s = Inr s"
| "send_to_loop (d # ds) sender send_time b (evs, rng) =
     (if d = sender then send_to_loop ds sender send_time b (evs, rng)
      else bindR (sendSingleBlock sender d send_time b rng RECEIVE_BLOCK) (\<lambda>(ev, rng).
        send_to_loop ds sender send_time b (evs @ [ev], rng)))"

definition send_to_everyone :: "env \<Rightarrow> node_id \<Rightarrow> simtime \<Rightarrow> block \<Rightarrow> rng_t \<Rightarrow> (event list \<times> rng_t) res" where
  "send_to_everyone env sender send_time b rng =
     send_to_loop (map of_nat [0..<lps env]) sender send_time b ([], rng)"


subsection \<open>Sending\<close>

lemma sendSingleBlock_event:
  assumes "sendSingleBlock sender receiver send_time b rng ty = Inr (ev, rng')"
  shows "ev_receiver ev = receiver" "ev_type ev = ty"
    "\<exists>td. copyTransactionData (bk_transactionData b) = Inr td \<and> ev_content ev = BlockContent (b\<lparr>bk_transactionData := td\<rparr>)"
    "unat sender < N_NODES \<Longrightarrow> unat receiver < N_NODES \<Longrightarrow> send_time \<le> ev_timestamp ev"
proof -
  from assms obtain d r td where
    d: "getTransmissionDelay initNetwork sender receiver (bk_size b) (Some rng) = Inr (d, r)"
    and td: "copyTransactionData (bk_transactionData b) = Inr td"
    and r: "(case r of None \<Rightarrow> Inl NullDeref
       | Some rng \<Rightarrow> Inr (\<lparr>ev_receiver = receiver, ev_timestamp = send_time + d, ev_type = ty,
                         ev_content = BlockContent (b\<lparr>bk_transactionData := td\<rparr>)\<rparr>, rng)) = Inr (ev, rng')"
    by (auto simp: sendSingleBlock_def bindR_eq_Inr)
  from r have ev: "ev = \<lparr>ev_receiver = receiver, ev_timestamp = send_time + d, ev_type = ty,
                         ev_content = BlockContent (b\<lparr>bk_transactionData := td\<rparr>)\<rparr>"
    by (auto split: option.splits)
  from ev td show "ev_receiver ev = receiver" "ev_type ev = ty"
    "\<exists>td. copyTransactionData (bk_transactionData b) = Inr td \<and> ev_content ev = BlockContent (b\<lparr>bk_transactionData := td\<rparr>)"
    by auto
  assume "unat sender < N_NODES" "unat receiver < N_NODES"
  from getTransmissionDelay_nonneg [OF this d] ev show "send_time \<le> ev_timestamp ev" by simp
qed

text \<open>What an event that carries a block on its way holds.\<close>

definition carries :: "node_id \<Rightarrow> simtime \<Rightarrow> block \<Rightarrow> event \<Rightarrow> bool" where
  "carries sender send_time b ev \<longleftrightarrow> ev_type ev = RECEIVE_BLOCK
     \<and> (\<exists>td. copyTransactionData (bk_transactionData b) = Inr td \<and> ev_content ev = BlockContent (b\<lparr>bk_transactionData := td\<rparr>))
     \<and> (unat sender < N_NODES \<longrightarrow> unat (ev_receiver ev) < N_NODES \<longrightarrow> send_time \<le> ev_timestamp ev)"

lemma sendSingleBlock_carries:
  "sendSingleBlock sender receiver send_time b rng RECEIVE_BLOCK = Inr (ev, rng')
   \<Longrightarrow> carries sender send_time b ev \<and> ev_receiver ev = receiver"
  using sendSingleBlock_event by (simp add: carries_def)

lemma gossip_all_events:
  "gossip_all sender send_time b ps (evs, rng) = Inr (evs', rng') \<Longrightarrow>
   \<exists>new. evs' = evs @ new \<and> map ev_receiver new = ps \<and> (\<forall>ev\<in>set new. carries sender send_time b ev)"
proof (induction ps arbitrary: evs rng)
  case (Cons p ps)
  then obtain ev r where ev: "sendSingleBlock sender p send_time b rng RECEIVE_BLOCK = Inr (ev, r)"
    and rest: "gossip_all sender send_time b ps (evs @ [ev], r) = Inr (evs', rng')"
    by (auto simp: bindR_eq_Inr)
  from Cons.IH [OF rest] obtain new where "evs' = (evs @ [ev]) @ new" "map ev_receiver new = ps"
    "\<forall>ev\<in>set new. carries sender send_time b ev" by blast
  with sendSingleBlock_carries [OF ev] show ?case by (intro exI [of _ "ev # new"]) simp
qed simp

lemma draw_peer_free:
  assumes "draw_peer fuel selected n rng = Inr (i, rng')" "0 < n" "n < 2 ^ 31"
  shows "unat i < n" "unat i \<notin> bits_of selected" "unat i < 64 * length selected"
proof -
  have "unat i < n \<and> unat i \<notin> bits_of selected \<and> unat i < 64 * length selected" using assms
  proof (induction fuel arbitrary: rng)
    case (Suc fuel)
    then obtain x r t where x: "RandomRange rng 0 (int n - 1) = Inr (x, r)"
      and t: "bitmap_check selected (of_int x) = Inr t"
      and rest: "(if t then draw_peer fuel selected n r else Inr (of_int x, r)) = Inr (i, rng')"
      by (auto simp: bindR_eq_Inr)
    show ?case
    proof (cases t)
      case True
      with rest Suc show ?thesis by simp
    next
      case False
      with rest have i: "i = of_int x" by simp
      from RandomRange_bounds [OF x] Suc.prems have "0 \<le> x" "x \<le> int n - 1" by auto
      with Suc.prems have "unat i = nat x" "nat x < n" unfolding i by (auto simp: unat_of_int)
      with t False i show ?thesis by (auto simp: bitmap_check_eq split: if_splits)
    qed
  qed simp
  then show "unat i < n" "unat i \<notin> bits_of selected" "unat i < 64 * length selected" by auto
qed

lemma gossip_some_events:
  assumes "gossip_some fuel k sender send_time b peers selected (evs, rng) = Inr (evs', rng')"
    and "0 < length peers" "length peers < 2 ^ 31"
  shows "\<exists>new is. evs' = evs @ new \<and> map ev_receiver new = map ((!) peers) is \<and> length is = k \<and> distinct is
     \<and> set is \<subseteq> {..<length peers} - bits_of selected \<and> (\<forall>ev\<in>set new. carries sender send_time b ev)"
  using assms(1)
proof (induction k arbitrary: evs rng selected)
  case (Suc k)
  then obtain i r1 sel p ev r2 where
    i: "draw_peer fuel selected (length peers) rng = Inr (i, r1)" and sel: "bitmap_set selected i = Inr sel"
    and p: "p = peers ! unat i" and ev: "sendSingleBlock sender p send_time b r1 RECEIVE_BLOCK = Inr (ev, r2)"
    and rest: "gossip_some fuel k sender send_time b peers sel (evs @ [ev], r2) = Inr (evs', rng')"
    by (auto simp: bindR_eq_Inr nthR_eq_Inr)
  from Suc.IH [OF rest] obtain new "is" where IH: "evs' = (evs @ [ev]) @ new" "map ev_receiver new = map ((!) peers) is"
    "length is = k" "distinct is" "set is \<subseteq> {..<length peers} - bits_of sel" "\<forall>ev\<in>set new. carries sender send_time b ev"
    by blast
  from bits_of_set [OF sel] IH(5) have "unat i \<notin> set is" "set is \<subseteq> {..<length peers} - bits_of selected" by auto
  with IH sendSingleBlock_carries [OF ev] draw_peer_free [OF i assms(2,3)] p show ?case
    by (intro exI [of _ "ev # new"] exI [of _ "unat i # is"]) simp
qed simp

lemma gossipBlock_events:
  assumes "gossipBlock fuel sender send_time b rng peers = Inr (evs, rng')" and "length peers < 2 ^ 31"
  shows "\<exists>is. distinct is \<and> set is \<subseteq> {..<length peers} \<and> map ev_receiver evs = map ((!) peers) is
     \<and> length is = (if bk_miner b = sender then length peers else min (length peers) GOSSIP_FANOUT)
     \<and> (\<forall>ev\<in>set evs. carries sender send_time b ev)"
proof (cases "length peers \<le> GOSSIP_FANOUT \<or> bk_miner b = sender")
  case True
  with assms(1) have "gossip_all sender send_time b peers ([], rng) = Inr (evs, rng')"
    by (auto simp: gossipBlock_def)
  from gossip_all_events [OF this] True show ?thesis
    by (intro exI [of _ "[0..<length peers]"]) (auto simp: map_nth)
next
  case False
  moreover have "GOSSIP_FANOUT \<noteq> 0" by (simp add: GOSSIP_FANOUT_def)
  ultimately have "gossip_some fuel GOSSIP_FANOUT sender send_time b peers
      (bitmap_initialize (length peers)) ([], rng) = Inr (evs, rng')" "0 < length peers"
    using assms(1) by (auto simp: gossipBlock_def)
  from gossip_some_events [OF this assms(2)] False show ?thesis by auto
qed

text \<open>The generator after k steps, and the index that the draw after k steps gives.\<close>

definition rng_after :: "nat \<Rightarrow> rng_t \<Rightarrow> rng_t" where
  "rng_after k rng = ((\<lambda>s. snd (random_u64 s)) ^^ k) rng"

definition peer_drawn :: "nat \<Rightarrow> nat \<Rightarrow> rng_t \<Rightarrow> node_id option" where
  "peer_drawn n k rng =
     (case RandomRange (rng_after k rng) 0 (int n - 1) of Inr (i, _) \<Rightarrow> Some (of_int i) | Inl _ \<Rightarrow> None)"

lemma rng_after_simps: "rng_after 0 rng = rng" "rng_after (Suc k) rng = rng_after k (snd (random_u64 rng))"
  by (simp_all add: rng_after_def funpow_Suc_right del: funpow.simps(2))

lemma RandomRange_state: "RandomRange ctx mn mx = Inr (i, ctx') \<Longrightarrow> ctx' = snd (random_u64 ctx)"
  by (auto simp: RandomRange_def Random_def RandomU64_def bindR_eq_Inr split: prod.splits)

lemma peer_drawn_0: "peer_drawn n 0 rng = Some i \<longleftrightarrow>
    (\<exists>x. RandomRange rng 0 (int n - 1) = Inr (x, snd (random_u64 rng)) \<and> i = of_int x)"
  using RandomRange_state [of rng 0 "int n - 1"]
  by (auto simp: peer_drawn_def rng_after_simps split: sum.splits prod.splits)

lemma peer_drawn_Suc: "peer_drawn n (Suc k) rng = peer_drawn n k (snd (random_u64 rng))"
  by (simp add: peer_drawn_def rng_after_simps)

lemma draw_peer_iff:
  "draw_peer fuel selected n rng = Inr (i, rng') \<longleftrightarrow>
     (\<exists>k<fuel. (\<forall>j<k. \<exists>x. peer_drawn n j rng = Some x \<and> bitmap_check selected x = Inr True)
        \<and> peer_drawn n k rng = Some i \<and> bitmap_check selected i = Inr False \<and> rng' = rng_after (Suc k) rng)"
proof (induction fuel arbitrary: rng)
  case (Suc fuel)
  let ?next = "snd (random_u64 rng)"
  let ?here = "\<lambda>v i. \<exists>x. peer_drawn n 0 rng = Some i \<and> bitmap_check selected i = Inr v"
  have step: "draw_peer (Suc fuel) selected n rng = Inr (i, rng') \<longleftrightarrow>
      (\<exists>x. peer_drawn n 0 rng = Some x \<and> bitmap_check selected x = Inr True) \<and> draw_peer fuel selected n ?next = Inr (i, rng')
      \<or> peer_drawn n 0 rng = Some i \<and> bitmap_check selected i = Inr False \<and> rng' = ?next"
  proof (cases "RandomRange rng 0 (int n - 1)")
    case (Inl e)
    then show ?thesis by (simp add: peer_drawn_def rng_after_simps)
  next
    case (Inr p)
    obtain x r where p: "p = (x, r)" by (cases p)
    with Inr RandomRange_state have r: "r = ?next" by blast
    from Inr p r have drawn: "peer_drawn n 0 rng = Some (of_int x)" by (simp add: peer_drawn_def rng_after_simps)
    show ?thesis using Inr p r drawn by (cases "bitmap_check selected (of_int x)") auto
  qed
  show ?case unfolding step Suc.IH by (auto simp: Ex_less_Suc2 peer_drawn_Suc rng_after_simps All_less_Suc2)
qed simp

text \<open>
  the drawing loop of gossipBlock, which has no bound in the code, returns exactly when
  the sequence of draws reaches a peer that is not selected: with fuel for that many draws it
  gives this peer, and the generator after as many steps as there were draws.
\<close>

lemma draw_peer_returns:
  "draw_peer fuel selected n rng = Inr (i, rng') \<longleftrightarrow>
     (\<exists>k<fuel. (\<forall>j<k. \<exists>x. peer_drawn n j rng = Some x \<and> bitmap_check selected x = Inr True)
        \<and> peer_drawn n k rng = Some i \<and> bitmap_check selected i = Inr False \<and> rng' = rng_after (Suc k) rng)"
  by (rule draw_peer_iff)

subsection \<open>The draws of a gossip\<close>

text \<open>Random fails for the draw 1 alone.\<close>

definition random_ok :: "rng_t \<Rightarrow> bool" where
  "random_ok rng \<longleftrightarrow> fst (random_u64 rng) \<noteq> 1"

lemma Random_ok: "(\<exists>x. Random rng = Inr (x, snd (random_u64 rng))) \<longleftrightarrow> random_ok rng"
proof -
  let ?u = "fst (random_u64 rng)"
  have "(\<exists>x. random_of_u64 ?u = Inr x) \<longleftrightarrow> ?u \<noteq> 1"
  proof -
    consider "?u = 0" | "?u = 1" | "?u \<noteq> 0" "?u \<noteq> 1" by blast
    then show ?thesis
    proof cases
      case 1
      then show ?thesis by (simp add: random_of_u64_def)
    next
      case 2
      then have "random_of_u64 ?u = Inl UndefinedShift" using random_of_u64_1 by (simp only:)
      with 2 show ?thesis by simp
    next
      case 3
    let ?k = "last (filter (bit ?u) [0..<64])"
      have "unat ?u \<noteq> 0" "unat ?u \<noteq> 1" using 3 by (auto simp: word_unat_eq_iff)
      then have "0 < ?k" using highest_bit(3) [of ?u] 3(1) by (cases "?k = 0") auto
      then show ?thesis using random_of_u64_value(1) [of ?u ?k] 3 by blast
    qed
  qed
  then show ?thesis by (auto simp: Random_def RandomU64_def random_ok_def bindR_eq_Inr split: prod.splits)
qed

lemma send_ok:
  assumes "unat sender < N_NODES" "unat receiver < N_NODES" "copyTransactionData (bk_transactionData b) = Inr td" "random_ok rng"
  shows "\<exists>ev. sendSingleBlock sender receiver t b rng ty = Inr (ev, snd (random_u64 rng))"
proof -
  from latency_pos [OF assms(1,2)] obtain l where "latency initNetwork sender receiver = Inr l" by blast
  moreover from assms(4) obtain x where "Random rng = Inr (x, snd (random_u64 rng))" using Random_ok by blast
  ultimately show ?thesis using assms(3) by (simp add: sendSingleBlock_def getTransmissionDelay_def Expent_def)
qed

lemma send_draws: "sendSingleBlock sender receiver t b rng ty = Inr (ev, rng') \<Longrightarrow> random_ok rng \<and> rng' = snd (random_u64 rng)"
proof -
  assume "sendSingleBlock sender receiver t b rng ty = Inr (ev, rng')"
  then obtain x where x: "Random rng = Inr (x, rng')"
    by (auto simp: sendSingleBlock_def getTransmissionDelay_def Expent_def bindR_eq_Inr split: option.splits)
  then have "rng' = snd (random_u64 rng)" by (auto simp: Random_def RandomU64_def bindR_eq_Inr split: prod.splits)
  with x show ?thesis using Random_ok by blast
qed

text \<open>
  The rounds of the fan-out: in each, the draws hit places that are taken until the last one, which is
  not; then the delay is drawn.
\<close>

fun picks :: "nat \<Rightarrow> rng_t \<Rightarrow> nat set \<Rightarrow> nat list list \<Rightarrow> bool" where
  "picks n rng taken [] \<longleftrightarrow> True"
| "picks n rng taken (ds # rounds) \<longleftrightarrow> ds \<noteq> [] \<and> (\<forall>j<length ds. ds ! j < n \<and> peer_drawn n j rng = Some (of_nat (ds ! j)))
     \<and> set (butlast ds) \<subseteq> taken \<and> last ds \<notin> taken \<and> random_ok (rng_after (length ds) rng)
     \<and> picks n (rng_after (Suc (length ds)) rng) (insert (last ds) taken) rounds"

definition gossip_rounds :: "nat \<Rightarrow> node_id \<Rightarrow> block \<Rightarrow> nat \<Rightarrow> rng_t \<Rightarrow> nat list list \<Rightarrow> bool" where
  "gossip_rounds fuel sender b n rng rounds \<longleftrightarrow>
     (if bk_miner b = sender \<or> n \<le> GOSSIP_FANOUT
      then rounds = map (\<lambda>i. [i]) [0..<n] \<and> (\<forall>k<n. random_ok (rng_after k rng))
      else length rounds = GOSSIP_FANOUT \<and> picks n rng {} rounds \<and> (\<forall>ds\<in>set rounds. length ds \<le> fuel))"

lemma picks_distinct: "picks n rng taken rounds \<Longrightarrow> distinct (map last rounds) \<and> set (map last rounds) \<subseteq> {..<n} - taken"
proof (induction rounds arbitrary: rng taken)
  case (Cons ds rounds)
  then have "last ds < n" "last ds \<notin> taken" by (auto simp: last_conv_nth)
  moreover have "distinct (map last rounds) \<and> set (map last rounds) \<subseteq> {..<n} - insert (last ds) taken"
    by (rule Cons.IH [of "rng_after (Suc (length ds)) rng"]) (use Cons.prems in simp)
  ultimately show ?case by auto
qed simp

lemma check_place: "i < n \<Longrightarrow> n < 2 ^ 31 \<Longrightarrow> n \<le> 64 * length selected \<Longrightarrow> bitmap_check selected (of_nat i) = Inr (i \<in> bits_of selected)"
  by (simp add: bitmap_check_eq unat_of_nat)

lemma draw_peer_hits:
  assumes "ds \<noteq> []" "\<forall>j<length ds. ds ! j < n \<and> peer_drawn n j rng = Some (of_nat (ds ! j))"
    and "set (butlast ds) \<subseteq> bits_of selected" "last ds \<notin> bits_of selected" "length ds \<le> fuel" "n < 2 ^ 31" "n \<le> 64 * length selected"
  shows "draw_peer fuel selected n rng = Inr (of_nat (last ds), rng_after (length ds) rng)"
proof -
  let ?k = "length ds - 1"
  have k: "?k < length ds" "?k < fuel" "Suc ?k = length ds" "ds ! ?k = last ds" 
    using assms(1,5) by (simp_all add: last_conv_nth) (cases ds; simp)
  have "peer_drawn n j rng = Some (of_nat (ds ! j)) \<and> bitmap_check selected (of_nat (ds ! j)) = Inr True" if "j < ?k" for j
  proof -
    have "ds ! j \<in> set (butlast ds)" using that by (metis in_set_conv_nth length_butlast nth_butlast)
    moreover have "j < length ds" using that by simp
    ultimately show ?thesis using assms(2,3) check_place [OF _ assms(6,7), of "ds ! j"] by auto
  qed
  moreover have "bitmap_check selected (of_nat (last ds)) = Inr False"
    using check_place [OF _ assms(6,7), of "last ds"] assms(2,4) k by metis
  ultimately show ?thesis using k assms(2) unfolding draw_peer_iff by (intro exI [of _ ?k]) metis
qed

lemma rng_after_add: "rng_after k (snd (random_u64 rng)) = rng_after (Suc k) rng" "snd (random_u64 (rng_after k rng)) = rng_after (Suc k) rng"
  using funpow_swap1 [of "\<lambda>s. snd (random_u64 s)" k rng] by (simp_all only: rng_after_simps) (simp only: rng_after_def)

lemma gossip_all_runs:
  assumes "unat sender < N_NODES" "\<forall>p\<in>set ps. unat p < N_NODES" "copyTransactionData (bk_transactionData b) = Inr td"
    and "\<forall>k<length ps. random_ok (rng_after k rng)"
  shows "\<exists>new. gossip_all sender t b ps (evs, rng) = Inr (evs @ new, rng_after (length ps) rng)"
  using assms(2,4)
proof (induction ps arbitrary: evs rng)
  case Nil
  then show ?case by (simp add: rng_after_simps)
next
  case (Cons p ps)
  have "random_ok rng" using Cons.prems(2) by (auto simp: rng_after_simps)
  with send_ok [OF assms(1) _ assms(3)] Cons.prems(1) obtain ev where
    ev: "sendSingleBlock sender p t b rng RECEIVE_BLOCK = Inr (ev, snd (random_u64 rng))" by force
  have "\<forall>k<length ps. random_ok (rng_after k (snd (random_u64 rng)))" using Cons.prems(2) by (auto simp: rng_after_add)
  with Cons.IH [of "snd (random_u64 rng)" "evs @ [ev]"] Cons.prems(1) obtain new where
    "gossip_all sender t b ps (evs @ [ev], snd (random_u64 rng)) = Inr (evs @ ev # new, rng_after (Suc (length ps)) rng)"
    by (auto simp: rng_after_add)
  with ev show ?case by auto
qed

lemma gossip_all_draws: "gossip_all sender t b ps (evs, rng) = Inr (evs', rng') \<Longrightarrow> \<forall>k<length ps. random_ok (rng_after k rng)"
proof (induction ps arbitrary: evs rng)
  case (Cons p ps)
  then obtain ev r where ev: "sendSingleBlock sender p t b rng RECEIVE_BLOCK = Inr (ev, r)"
    and rest: "gossip_all sender t b ps (evs @ [ev], r) = Inr (evs', rng')" by (auto simp: bindR_eq_Inr)
  from Cons.IH [OF rest] send_draws [OF ev] show ?case by (auto simp: All_less_Suc2 rng_after_simps)
qed simp

lemma gossip_some_runs:
  assumes "picks (length peers) rng (bits_of selected) rounds" "\<forall>ds\<in>set rounds. length ds \<le> fuel"
    and "unat sender < N_NODES" "\<forall>p\<in>set peers. unat p < N_NODES" "copyTransactionData (bk_transactionData b) = Inr td"
    and "length peers < 2 ^ 31" "length peers \<le> 64 * length selected"
  shows "\<exists>new rng'. gossip_some fuel (length rounds) sender t b peers selected (evs, rng) = Inr (evs @ new, rng')
    \<and> map ev_receiver new = map (\<lambda>ds. peers ! last ds) rounds"
  using assms(1,2,7)
proof (induction rounds arbitrary: evs rng selected)
  case (Cons ds rounds)
  let ?i = "last ds"
  have ds: "ds \<noteq> []" "\<forall>j<length ds. ds ! j < length peers \<and> peer_drawn (length peers) j rng = Some (of_nat (ds ! j))"
    "set (butlast ds) \<subseteq> bits_of selected" "?i \<notin> bits_of selected" "random_ok (rng_after (length ds) rng)"
    "picks (length peers) (rng_after (Suc (length ds)) rng) (insert ?i (bits_of selected)) rounds" "length ds \<le> fuel"
    using Cons.prems by simp_all
  have i: "?i < length peers" using ds(1,2) by (simp add: last_conv_nth)
  then have u: "unat (of_nat ?i :: node_id) = ?i" using assms(6) by (simp add: unat_of_nat)
  have draw: "draw_peer fuel selected (length peers) rng = Inr (of_nat ?i, rng_after (length ds) rng)"
    by (rule draw_peer_hits [OF ds(1-4,7) assms(6) Cons.prems(3)])
  obtain sel where sel: "bitmap_set selected (of_nat ?i) = Inr sel"
    using i Cons.prems(3) by (simp add: bitmap_set_eq u)
  then have bits: "bits_of sel = insert ?i (bits_of selected)" "length sel = length selected" using bits_of_set u by simp_all
  obtain ev where ev: "sendSingleBlock sender (peers ! ?i) t b (rng_after (length ds) rng) RECEIVE_BLOCK = Inr (ev, rng_after (Suc (length ds)) rng)"
    using send_ok [OF assms(3) _ assms(5) ds(5), of "peers ! ?i" t] i assms(4) by (auto simp: rng_after_add)
  from Cons.IH [of "rng_after (Suc (length ds)) rng" sel "evs @ [ev]"] ds(6) bits Cons.prems(2,3) obtain new rng' where
    "gossip_some fuel (length rounds) sender t b peers sel (evs @ [ev], rng_after (Suc (length ds)) rng) = Inr (evs @ ev # new, rng')"
    "map ev_receiver new = map (\<lambda>ds. peers ! last ds) rounds" by auto
  moreover have "nthR peers ?i = Inr (peers ! ?i)" using i by (simp add: nthR_def)
  moreover have "ev_receiver ev = peers ! ?i" using sendSingleBlock_carries [OF ev] by simp
  ultimately show ?case using draw sel ev by (intro exI [of _ "ev # new"] exI [of _ rng']) (simp add: u)
qed simp

lemma draw_peer_round:
  assumes "draw_peer fuel selected n rng = Inr (i, rng')" "0 < n" "n < 2 ^ 31"
  shows "\<exists>ds. ds \<noteq> [] \<and> length ds \<le> fuel \<and> (\<forall>j<length ds. ds ! j < n \<and> peer_drawn n j rng = Some (of_nat (ds ! j)))
    \<and> set (butlast ds) \<subseteq> bits_of selected \<and> last ds = unat i \<and> rng' = rng_after (length ds) rng"
proof -
  from assms(1) obtain k where k: "k < fuel" "\<And>j. j < k \<Longrightarrow> \<exists>x. peer_drawn n j rng = Some x \<and> bitmap_check selected x = Inr True"
    "peer_drawn n k rng = Some i" "rng' = rng_after (Suc k) rng" unfolding draw_peer_iff by blast
  have lt: "unat x < n" if "peer_drawn n j rng = Some x" for j x
  proof -
    from that obtain y r where y: "RandomRange (rng_after j rng) 0 (int n - 1) = Inr (y, r)" "x = of_int y"
      by (auto simp: peer_drawn_def split: sum.splits prod.splits)
    from RandomRange_bounds [OF y(1)] assms(2) have "0 \<le> y" "y < int n" by auto
    then show ?thesis using assms(3) y(2) by (simp add: unat_of_int)
  qed
  define ds where "ds = map (\<lambda>j. unat (the (peer_drawn n j rng))) [0..<Suc k]"
  have d: "ds \<noteq> []" "length ds = Suc k" "last ds = unat i" using k(3) by (simp_all add: ds_def)
  have some: "\<exists>x. peer_drawn n j rng = Some x" if "j < Suc k" for j using k(2) [of j] k(3) that by (cases "j = k") auto
  have at: "ds ! j = unat (the (peer_drawn n j rng))" if "j < Suc k" for j using that unfolding ds_def by (simp del: upt_Suc)
  have "ds ! j < n \<and> peer_drawn n j rng = Some (of_nat (ds ! j))" if "j < Suc k" for j
    using some [OF that] lt [of j] at [OF that] by auto
  moreover have "set (butlast ds) \<subseteq> bits_of selected"
  proof
    fix x assume "x \<in> set (butlast ds)"
    then obtain j where j: "j < k" "x = ds ! j" using d(2) by (auto simp: in_set_conv_nth nth_butlast)
    from k(2) [OF j(1)] at [of j] j show "x \<in> bits_of selected" by (auto simp: bitmap_check_eq split: if_splits)
  qed
  ultimately show ?thesis using d k(1,4) by (intro exI [of _ ds]) simp
qed

lemma gossip_some_picks:
  assumes "gossip_some fuel k sender t b peers selected (evs, rng) = Inr (evs', rng')" "0 < length peers" "length peers < 2 ^ 31"
  shows "\<exists>rounds. length rounds = k \<and> picks (length peers) rng (bits_of selected) rounds \<and> (\<forall>ds\<in>set rounds. length ds \<le> fuel)"
  using assms(1)
proof (induction k arbitrary: evs rng selected)
  case (Suc k)
  then obtain i r1 sel ev r2 where
    i: "draw_peer fuel selected (length peers) rng = Inr (i, r1)" and sel: "bitmap_set selected i = Inr sel"
    and ev: "sendSingleBlock sender (peers ! unat i) t b r1 RECEIVE_BLOCK = Inr (ev, r2)"
    and rest: "gossip_some fuel k sender t b peers sel (evs @ [ev], r2) = Inr (evs', rng')"
    by (auto simp: bindR_eq_Inr nthR_eq_Inr)
  from draw_peer_round [OF i assms(2,3)] obtain ds where
    ds: "ds \<noteq> []" "length ds \<le> fuel" "\<forall>j<length ds. ds ! j < length peers \<and> peer_drawn (length peers) j rng = Some (of_nat (ds ! j))"
      "set (butlast ds) \<subseteq> bits_of selected" "last ds = unat i" "r1 = rng_after (length ds) rng" by blast
  from send_draws [OF ev] ds(6) have r: "random_ok (rng_after (length ds) rng)" "r2 = rng_after (Suc (length ds)) rng"
    by (simp_all add: rng_after_add)
  from Suc.IH [OF rest] bits_of_set [OF sel] ds(5) r(2) obtain rounds where "length rounds = k"
    "picks (length peers) (rng_after (Suc (length ds)) rng) (insert (last ds) (bits_of selected)) rounds" "\<forall>ds\<in>set rounds. length ds \<le> fuel"
    by auto
  moreover have "last ds \<notin> bits_of selected" using draw_peer_free(2) [OF i assms(2,3)] ds(5) by simp
  ultimately show ?case using ds r by (intro exI [of _ "ds # rounds"]) simp
qed simp

subsection \<open>Gossiping\<close>

definition gossip_sent :: "node_id \<Rightarrow> simtime \<Rightarrow> block \<Rightarrow> node_id list \<Rightarrow> nat list list \<Rightarrow> event list \<Rightarrow> bool" where
  "gossip_sent sender t b peers rounds evs \<longleftrightarrow>
     map ev_receiver evs = map (\<lambda>ds. peers ! last ds) rounds \<and> distinct (map last rounds) \<and> set (map last rounds) \<subseteq> {..<length peers}
     \<and> length rounds = (if bk_miner b = sender then length peers else min (length peers) GOSSIP_FANOUT)
     \<and> (\<forall>ev\<in>set evs. carries sender t b ev)"

lemma gossip_rounds_shape:
  assumes "gossip_rounds fuel sender b n rng rounds"
  shows "distinct (map last rounds) \<and> set (map last rounds) \<subseteq> {..<n}
    \<and> length rounds = (if bk_miner b = sender then n else min n GOSSIP_FANOUT)"
proof -
  have "map last (map (\<lambda>i. [i]) [0..<n]) = [0..<n]" by (induction n) simp_all
  then show ?thesis using assms picks_distinct [of n rng "{}" rounds] by (auto simp: gossip_rounds_def split: if_splits)
qed

lemma gossipBlock_runs:
  assumes "gossip_rounds fuel sender b (length peers) rng rounds"
    and "unat sender < N_NODES" "\<forall>p\<in>set peers. unat p < N_NODES" "copyTransactionData (bk_transactionData b) = Inr td"
    and "length peers < 2 ^ 31"
  shows "\<exists>evs rng'. gossipBlock fuel sender t b rng peers = Inr (evs, rng') \<and> map ev_receiver evs = map (\<lambda>ds. peers ! last ds) rounds"
proof (cases "bk_miner b = sender \<or> length peers \<le> GOSSIP_FANOUT")
  case True
  then have r: "rounds = map (\<lambda>i. [i]) [0..<length peers]" "\<forall>k<length peers. random_ok (rng_after k rng)"
    using assms(1) by (simp_all add: gossip_rounds_def)
  from gossip_all_runs [OF assms(2-4) r(2), of t "[]"] obtain new where
    g: "gossip_all sender t b peers ([], rng) = Inr (new, rng_after (length peers) rng)" by auto
  have "map ev_receiver new = peers" using gossip_all_events [OF g] by auto
  also have "peers = map (\<lambda>ds. peers ! last ds) rounds" unfolding r(1) by (simp add: o_def map_nth)
  finally show ?thesis using True g by (auto simp: gossipBlock_def)
next
  case False
  then have r: "length rounds = GOSSIP_FANOUT" "picks (length peers) rng {} rounds" "\<forall>ds\<in>set rounds. length ds \<le> fuel" using assms(1) by (simp_all add: gossip_rounds_def)
  have "bits_of (bitmap_initialize (length peers)) = {}" by (rule bitmap_initialize_empty)
  with gossip_some_runs [of peers rng "bitmap_initialize (length peers)" rounds fuel sender b td t "[]"] r(2,3) assms(2-5)
    bitmap_initialize_capacity [of "length peers"] obtain new rng' where
    "gossip_some fuel (length rounds) sender t b peers (bitmap_initialize (length peers)) ([], rng) = Inr (new, rng')"
    "map ev_receiver new = map (\<lambda>ds. peers ! last ds) rounds" by auto
  moreover have "GOSSIP_FANOUT \<noteq> 0" by (simp add: GOSSIP_FANOUT_def)
  ultimately show ?thesis using False r(1) by (auto simp: gossipBlock_def)
qed

lemma gossipBlock_draws:
  assumes "gossipBlock fuel sender t b rng peers = Inr (evs, rng')" "length peers < 2 ^ 31"
  shows "\<exists>rounds. gossip_rounds fuel sender b (length peers) rng rounds"
proof (cases "bk_miner b = sender \<or> length peers \<le> GOSSIP_FANOUT")
  case True
  then have "gossip_all sender t b peers ([], rng) = Inr (evs, rng')" using assms(1) by (auto simp: gossipBlock_def)
  from gossip_all_draws [OF this] True show ?thesis by (simp add: gossip_rounds_def)
next
  case False
  then have "gossip_some fuel GOSSIP_FANOUT sender t b peers (bitmap_initialize (length peers)) ([], rng) = Inr (evs, rng')" "0 < length peers"
    using assms(1) by (auto simp: gossipBlock_def GOSSIP_FANOUT_def)
  from gossip_some_picks [OF this assms(2)] False show ?thesis by (auto simp: gossip_rounds_def bitmap_initialize_empty)
qed

lemma gossipBlock_exact:
  assumes "unat sender < N_NODES" "\<forall>p\<in>set peers. unat p < N_NODES" "copyTransactionData (bk_transactionData b) = Inr td"
    and "length peers < 2 ^ 31" and rounds: "gossip_rounds fuel sender b (length peers) rng rounds"
  shows "\<exists>evs rng'. gossipBlock fuel sender t b rng peers = Inr (evs, rng') \<and> gossip_sent sender t b peers rounds evs"
proof -
  from gossipBlock_runs [OF rounds assms(1-4), of t] obtain evs rng' where
    run: "gossipBlock fuel sender t b rng peers = Inr (evs, rng')" "map ev_receiver evs = map (\<lambda>ds. peers ! last ds) rounds" by blast
  from gossipBlock_events [OF run(1) assms(4)] have "\<forall>ev\<in>set evs. carries sender t b ev" by blast
  with run gossip_rounds_shape [OF rounds] show ?thesis by (auto simp: gossip_sent_def)
qed

lemma example_draw:
  "RandomRange \<lparr>state0 = 0, state1 = 0, state2 = 1, state3 = 2\<rparr> 0 4
     = Inr (0, snd (random_u64 \<lparr>state0 = 0, state1 = 0, state2 = 1, state3 = 2\<rparr>))"
  by (simp add: RandomRange_def Random_def RandomU64_def random_u64_def rotl_def random_of_u64_def Let_def)

text \<open>A node that mined an empty block sends it to its only peer.\<close>

definition example_mined :: block where
  "example_mined = \<lparr>bk_timestamp = 1, bk_size = 10, bk_miner = 5, bk_prevBlockMiner = NODE_ID_MAX, bk_sender = 5,
     bk_height = 1, bk_is_attack_block = False, bk_transactionData = no_transactions\<rparr>"

definition example_rng :: rng_t where
  "example_rng = \<lparr>state0 = 0, state1 = 0, state2 = 1, state3 = 2\<rparr>"

lemma no_transactions_copy: "copyTransactionData no_transactions = Inr no_transactions"
  by (simp add: copyTransactionData_def no_transactions_def txn_data_words_def TXN_DATA_MIN_BITMAP_SIZE_def
      sizeofAdditionalTransactionDataBuffer_def bitmap_required_size_eq B_BLOCK_SIZE_def Let_def)

lemma example_send: "\<exists>ev. sendSingleBlock 5 700 1 example_mined example_rng RECEIVE_BLOCK
    = Inr (ev, snd (random_u64 example_rng))"
proof -
  have "Random example_rng = Inr (0, snd (random_u64 example_rng))"
    by (simp add: example_rng_def Random_def RandomU64_def random_u64_def rotl_def random_of_u64_def Let_def)
  moreover have "unat (5 :: node_id) < N_NODES" "unat (700 :: node_id) < N_NODES" by (simp_all add: N_NODES_def)
  then obtain l where "latency initNetwork 5 700 = Inr l" using latency_pos by blast
  ultimately show ?thesis
    by (simp add: sendSingleBlock_def getTransmissionDelay_def Expent_def example_mined_def no_transactions_copy)
qed

end
