(* ===== verification/ChainTree.thy ===== *)
theory ChainTree
  imports Chain
begin

text \<open>
  The chain of Block.c as a tree: total accessors for levels and nodes that agree with the
  faulting ones of the model inside the window of levels, the well-formedness of the
  structure (links lead to linked nodes one level below, the score of a linked node is its
  height) and the branch of a node, the references from the bottom of the window up to it.
\<close>

subsection \<open>Access\<close>

definition level :: "blockchain \<Rightarrow> nat \<Rightarrow> chain_level" where
  "level c h = (if h - bc_min_height c < DEPTH_TO_KEEP then old_levels c ! (h - bc_min_height c)
     else current_levels c ! (h - bc_min_height c - DEPTH_TO_KEEP))"

definition shape :: "blockchain \<Rightarrow> bool" where
  "shape c \<longleftrightarrow> length (old_levels c) = DEPTH_TO_KEEP \<and> length (current_levels c) = DEPTH_TO_KEEP"

definition in_window :: "blockchain \<Rightarrow> nat \<Rightarrow> bool" where
  "in_window c h \<longleftrightarrow> bc_min_height c \<le> h \<and> h < bc_min_height c + 2 * DEPTH_TO_KEEP"

definition nodes :: "blockchain \<Rightarrow> nat \<Rightarrow> chain_node list" where
  "nodes c h = lv_nodes (level c h)"

definition valid :: "blockchain \<Rightarrow> node_ref \<Rightarrow> bool" where
  "valid c r \<longleftrightarrow> in_window c (fst r) \<and> snd r < length (nodes c (fst r))"

definition node_at :: "blockchain \<Rightarrow> node_ref \<Rightarrow> chain_node" where
  "node_at c r = nodes c (fst r) ! snd r"

lemma getChainLevel_ok [simp]:
  "shape c \<Longrightarrow> in_window c h \<Longrightarrow> getChainLevel c h = Inr (level c h)"
  by (auto simp: getChainLevel_def level_def shape_def in_window_def Let_def nthR_def)

lemma getChainLevel_below [simp]: "h < bc_min_height c \<Longrightarrow> getChainLevel c h = Inl Abort"
  by (simp add: getChainLevel_def)

lemma getChainNode_ok [simp]: "shape c \<Longrightarrow> valid c r \<Longrightarrow> getChainNode c r = Inr (node_at c r)"
  by (simp add: getChainNode_def valid_def node_at_def nodes_def)

lemma access_upd [simp]:
  "level (c\<lparr>bc_height := a\<rparr>) = level c" "level (c\<lparr>main_chain_index := b\<rparr>) = level c"
  "level (c\<lparr>bc_max_height := m\<rparr>) = level c"
  "nodes (c\<lparr>bc_height := a\<rparr>) = nodes c" "nodes (c\<lparr>main_chain_index := b\<rparr>) = nodes c"
  "nodes (c\<lparr>bc_max_height := m\<rparr>) = nodes c"
  "node_at (c\<lparr>bc_height := a\<rparr>) = node_at c" "node_at (c\<lparr>main_chain_index := b\<rparr>) = node_at c"
  "node_at (c\<lparr>bc_max_height := m\<rparr>) = node_at c"
  "valid (c\<lparr>bc_height := a\<rparr>) = valid c" "valid (c\<lparr>main_chain_index := b\<rparr>) = valid c"
  "valid (c\<lparr>bc_max_height := m\<rparr>) = valid c"
  "in_window (c\<lparr>bc_height := a\<rparr>) = in_window c" "in_window (c\<lparr>main_chain_index := b\<rparr>) = in_window c"
  "in_window (c\<lparr>bc_max_height := m\<rparr>) = in_window c"
  "shape (c\<lparr>bc_height := a\<rparr>) = shape c" "shape (c\<lparr>main_chain_index := b\<rparr>) = shape c"
  "shape (c\<lparr>bc_max_height := m\<rparr>) = shape c"
  by (auto simp: fun_eq_iff level_def nodes_def node_at_def valid_def in_window_def shape_def)

text \<open>What a write to a level changes.\<close>

definition same_frame :: "blockchain \<Rightarrow> blockchain \<Rightarrow> bool" where
  "same_frame c c' \<longleftrightarrow> bc_height c' = bc_height c \<and> main_chain_index c' = main_chain_index c
     \<and> bc_max_height c' = bc_max_height c \<and> bc_min_height c' = bc_min_height c \<and> (shape c \<longrightarrow> shape c')"

lemma same_frame_refl [simp]: "same_frame c c"
  by (simp add: same_frame_def)

lemma same_frame_trans: "same_frame a b \<Longrightarrow> same_frame b c \<Longrightarrow> same_frame a c"
  by (auto simp: same_frame_def)

lemma same_frame_window: "same_frame c c' \<Longrightarrow> in_window c' = in_window c"
  by (auto simp: same_frame_def in_window_def)

lemma setChainLevel_ok:
  assumes "shape c" "in_window c h"
  shows "\<exists>c'. setChainLevel c h l = Inr c' \<and> same_frame c c'
     \<and> (\<forall>k. in_window c k \<longrightarrow> level c' k = (if k = h then l else level c k))"
proof -
  let ?c = "if h - bc_min_height c < DEPTH_TO_KEEP then c\<lparr>old_levels := (old_levels c)[h - bc_min_height c := l]\<rparr>
     else c\<lparr>current_levels := (current_levels c)[h - bc_min_height c - DEPTH_TO_KEEP := l]\<rparr>"
  have "setChainLevel c h l = Inr ?c" using assms by (simp add: setChainLevel_def Let_def)
  moreover have "same_frame c ?c" by (auto simp: same_frame_def shape_def)
  moreover have "level ?c k = (if k = h then l else level c k)" if "in_window c k" for k
    using assms that by (auto simp: level_def shape_def in_window_def nth_list_update)
  ultimately show ?thesis by blast
qed

definition set_node :: "blockchain \<Rightarrow> node_ref \<Rightarrow> chain_node \<Rightarrow> blockchain \<Rightarrow> bool" where
  "set_node c r n c' \<longleftrightarrow> same_frame c c'
     \<and> (\<forall>k. in_window c k \<longrightarrow> length (nodes c' k) = length (nodes c k) \<and> lv_capacity (level c' k) = lv_capacity (level c k))
     \<and> (\<forall>s. valid c s \<longrightarrow> node_at c' s = (if s = r then n else node_at c s))"

lemma setChainNode_ok:
  assumes "shape c" "valid c r"
  shows "\<exists>c'. setChainNode c r n = Inr c' \<and> set_node c r n c'"
proof -
  obtain h i where r: "r = (h, i)" by (cases r)
  from assms r have h: "in_window c h" "i < length (nodes c h)" by (auto simp: valid_def)
  let ?l = "(level c h)\<lparr>lv_nodes := (lv_nodes (level c h))[i := n]\<rparr>"
  from setChainLevel_ok [OF assms(1) h(1), of ?l] obtain c' where
    c': "setChainLevel c h ?l = Inr c'" "same_frame c c'"
      "\<forall>k. in_window c k \<longrightarrow> level c' k = (if k = h then ?l else level c k)" by blast
  have "setChainNode c r n = Inr c'"
    using assms(1) h c'(1) by (simp add: setChainNode_def r nodes_def)
  moreover have "set_node c r n c'"
    using c'(2,3) by (auto simp: set_node_def nodes_def node_at_def valid_def r nth_list_update)
  ultimately show ?thesis by blast
qed

lemma set_node_valid: "set_node c r n c' \<Longrightarrow> valid c' s = valid c s"
  by (auto simp: set_node_def valid_def same_frame_window)

subsection \<open>The tree\<close>

definition linked :: "blockchain \<Rightarrow> node_ref \<Rightarrow> bool" where
  "linked c r \<longleftrightarrow> valid c r \<and> \<not> isOrphan (node_at c r)"

definition par :: "blockchain \<Rightarrow> node_ref \<Rightarrow> node_ref" where
  "par c r = (fst r - 1, case cn_parent (node_at c r) of ParentIndex i \<Rightarrow> i | ParentMiner _ \<Rightarrow> 0)"

definition wf_node :: "blockchain \<Rightarrow> node_ref \<Rightarrow> bool" where
  "wf_node c r \<longleftrightarrow> cn_height (node_at c r) = fst r
     \<and> (isOrphan (node_at c r) \<longrightarrow> (\<exists>m. cn_parent (node_at c r) = ParentMiner m))
     \<and> (\<not> isOrphan (node_at c r) \<longrightarrow> cn_score (node_at c r) = of_nat (fst r))
     \<and> (\<not> isOrphan (node_at c r) \<and> 0 < fst r \<longrightarrow> (\<exists>i. cn_parent (node_at c r) = ParentIndex i))
     \<and> (\<not> isOrphan (node_at c r) \<and> bc_min_height c < fst r \<longrightarrow> linked c (par c r))"

definition wf_tree :: "blockchain \<Rightarrow> bool" where
  "wf_tree c \<longleftrightarrow> shape c \<and> (\<forall>r. valid c r \<longrightarrow> wf_node c r)
     \<and> (\<forall>h. in_window c h \<and> bc_max_height c < h \<longrightarrow> nodes c h = [])
     \<and> (\<forall>h. in_window c h \<longrightarrow> length (nodes c h) \<le> lv_capacity (level c h))
     \<and> bc_max_height c < bc_min_height c + 2 * DEPTH_TO_KEEP"

definition wf_chain :: "blockchain \<Rightarrow> bool" where
  "wf_chain c \<longleftrightarrow> wf_tree c \<and> linked c (getMainChain c)"

lemma wf_tree_shape: "wf_tree c \<Longrightarrow> shape c"
  by (simp add: wf_tree_def)

lemma wf_tree_node: "wf_tree c \<Longrightarrow> valid c r \<Longrightarrow> wf_node c r"
  unfolding wf_tree_def by blast

lemma linked_valid: "linked c r \<Longrightarrow> valid c r"
  by (simp add: linked_def)

lemma linked_window: "linked c r \<Longrightarrow> in_window c (fst r)"
  by (simp add: linked_def valid_def)

lemma linked_node:
  assumes "wf_tree c" "linked c r"
  shows "cn_height (node_at c r) = fst r" "cn_score (node_at c r) = of_nat (fst r)"
    "getChainNode c r = Inr (node_at c r)"
    "0 < fst r \<Longrightarrow> parent_ref (node_at c r) = Inr (par c r)"
    "0 < fst r \<Longrightarrow> parent_index (node_at c r) = Inr (snd (par c r))"
    "bc_min_height c < fst r \<Longrightarrow> linked c (par c r)"
proof -
  from assms have n: "wf_node c r" "shape c" "valid c r" "\<not> isOrphan (node_at c r)"
    unfolding wf_tree_def linked_def by blast+
  then show "cn_height (node_at c r) = fst r" "cn_score (node_at c r) = of_nat (fst r)"
    "getChainNode c r = Inr (node_at c r)"
    "bc_min_height c < fst r \<Longrightarrow> linked c (par c r)"
    unfolding wf_node_def by simp_all
  from n show "0 < fst r \<Longrightarrow> parent_ref (node_at c r) = Inr (par c r)"
    "0 < fst r \<Longrightarrow> parent_index (node_at c r) = Inr (snd (par c r))"
    unfolding wf_node_def by (auto simp: parent_ref_def pred_height_def parent_index_def par_def)
qed

lemma fst_par [simp]: "fst (par c r) = fst r - 1"
  by (simp add: par_def)

lemma fst_par_pow [simp]: "fst ((par c ^^ k) r) = fst r - k"
  by (induction k) auto

lemma linked_pow:
  assumes "wf_tree c" "linked c r" "k \<le> fst r - bc_min_height c"
  shows "linked c ((par c ^^ k) r)"
  using assms(3)
proof (induction k)
  case (Suc k)
  from Suc.prems have "bc_min_height c < fst ((par c ^^ k) r)" by simp
  with Suc linked_node(6) [OF assms(1)] show ?case by simp
qed (use assms in simp)

text \<open>The k references from a node upwards, itself first, and the branch of a node.\<close>

definition ancs :: "blockchain \<Rightarrow> nat \<Rightarrow> node_ref \<Rightarrow> node_ref list" where
  "ancs c k r = map (\<lambda>j. (par c ^^ j) r) [0..<k]"

definition root :: "blockchain \<Rightarrow> node_ref \<Rightarrow> node_ref" where
  "root c r = (par c ^^ (fst r - bc_min_height c)) r"

definition branch :: "blockchain \<Rightarrow> node_ref \<Rightarrow> node_ref list" where
  "branch c r = rev (ancs c (fst r - bc_min_height c) r)"

lemma ancs_0 [simp]: "ancs c 0 r = []"
  by (simp add: ancs_def)

lemma ancs_Suc: "ancs c (Suc k) r = r # ancs c k (par c r)"
  by (simp add: ancs_def upt_conv_Cons map_Suc_upt [symmetric] funpow_swap1 del: upt_Suc)

lemma ancs_snoc: "ancs c (Suc k) r = ancs c k r @ [(par c ^^ k) r]"
  by (simp add: ancs_def)

lemma ancs_add: "ancs c (j + k) r = ancs c j r @ ancs c k ((par c ^^ j) r)"
proof (induction j arbitrary: r)
  case (Suc j)
  then show ?case by (simp add: ancs_Suc funpow_swap1)
qed simp

lemma branch_split:
  assumes "k \<le> fst r - bc_min_height c"
  shows "branch c r = branch c ((par c ^^ k) r) @ rev (ancs c k r)"
proof -
  have "fst r - bc_min_height c = k + (fst r - k - bc_min_height c)" using assms by simp
  then show ?thesis unfolding branch_def by (simp add: ancs_add)
qed

lemma ancs_cong:
  assumes "\<And>j. j < k \<Longrightarrow> par c' ((par c ^^ j) r) = par c ((par c ^^ j) r)"
  shows "ancs c' k r = ancs c k r" "j \<le> k \<Longrightarrow> (par c' ^^ j) r = (par c ^^ j) r"
proof -
  have *: "(par c' ^^ j) r = (par c ^^ j) r" if "j \<le> k" for j
    using that by (induction j) (simp_all add: assms)
  then show "ancs c' k r = ancs c k r" by (auto simp: ancs_def)
  show "j \<le> k \<Longrightarrow> (par c' ^^ j) r = (par c ^^ j) r" by (rule *)
qed

end
