(* ===== verification/Switch.thy ===== *)
theory Switch
  imports ChainTree
begin

text \<open>
  Block.c, second part: the effects of a chain node on the node's state, switchChains and
  maybeSwitchChains. The state the handlers pass along is the chain, the transaction state
  (a pointer that may be null) and the statistics.
\<close>

type_synonym effects = "transaction_state option \<times> stats_state"
type_synonym view = "blockchain \<times> effects"

text \<open>The call under if (transactionState): without a transaction state nothing happens.\<close>

definition on_txns ::
  "(transaction_state \<Rightarrow> transaction_data \<Rightarrow> transaction_state res) \<Rightarrow> transaction_state option
     \<Rightarrow> transaction_data option \<Rightarrow> transaction_state option res" where
  "on_txns f ts d =
     (case ts of None \<Rightarrow> Inr None
      | Some t \<Rightarrow> (case d of None \<Rightarrow> Inl NullDeref | Some d \<Rightarrow> bindR (f t d) (\<lambda>t. Inr (Some t))))"

definition applyChainNode :: "env \<Rightarrow> node_id \<Rightarrow> chain_node \<Rightarrow> view \<Rightarrow> view res" where
  "applyChainNode env me node v =
     (case v of (c, ts, st) \<Rightarrow>
      bindR (on_txns applyBlockTransactions ts (cn_transactionData node)) (\<lambda>ts.
        let c = c\<lparr>bc_height := cn_height node\<rparr> in
        bindR (stats_apply env me (cn_miner node) st) (\<lambda>st. Inr (c, ts, st))))"

definition revertAppliedChainNode :: "env \<Rightarrow> node_id \<Rightarrow> chain_node \<Rightarrow> view \<Rightarrow> view res" where
  "revertAppliedChainNode env me node v =
     (case v of (c, ts, st) \<Rightarrow>
      bindR (on_txns revertAppliedBlockTransactions ts (cn_transactionData node)) (\<lambda>ts.
      bindR (pred_height (cn_height node)) (\<lambda>h.
      bindR (parent_index node) (\<lambda>p.
        let c = c\<lparr>bc_height := h, main_chain_index := p\<rparr> in
        bindR (stats_revert env me (cn_miner node) st) (\<lambda>st. Inr (c, ts, st))))))"

text \<open>
  The array to_apply of switchChains with its allocated size: an append first doubles the
  size when the array is full.
\<close>

definition push_apply :: "node_ref \<Rightarrow> node_ref list \<times> nat \<Rightarrow> (node_ref list \<times> nat) res" where
  "push_apply r buf =
     (case buf of (refs, buf_sz) \<Rightarrow>
      let buf_sz = (if buf_sz \<le> length refs then buf_sz * 2 else buf_sz) in
      if length refs < buf_sz then Inr (refs @ [r], buf_sz) else Inl OutOfBounds)"

definition getParent :: "blockchain \<Rightarrow> chain_node \<Rightarrow> node_ref res" where
  "getParent c n = bindR (parent_ref n) (\<lambda>r. bindR (getChainLevel c (fst r)) (\<lambda>_. Inr r))"

fun collect_above :: "nat \<Rightarrow> blockchain \<Rightarrow> nat \<Rightarrow> node_ref \<Rightarrow> node_ref list \<times> nat
    \<Rightarrow> (node_ref \<times> node_ref list \<times> nat) res" where
  "collect_above 0 c h walker buf = Inl OutOfFuel"
| "collect_above (Suc fuel) c h walker buf =
     bindR (getChainNode c walker) (\<lambda>n.
       if cn_height n > h then
         bindR (push_apply walker buf) (\<lambda>buf.
         bindR (getParent c n) (\<lambda>p. collect_above fuel c h p buf))
       else Inr (walker, buf))"

fun revert_above :: "nat \<Rightarrow> env \<Rightarrow> node_id \<Rightarrow> nat \<Rightarrow> node_ref \<Rightarrow> view \<Rightarrow> (node_ref \<times> view) res" where
  "revert_above 0 env me h main v = Inl OutOfFuel"
| "revert_above (Suc fuel) env me h main v =
     bindR (getChainNode (fst v) main) (\<lambda>n.
       if cn_height n > h then
         bindR (revertAppliedChainNode env me n v) (\<lambda>v.
         bindR (getParent (fst v) n) (\<lambda>p. revert_above fuel env me h p v))
       else Inr (main, v))"

fun meet :: "nat \<Rightarrow> env \<Rightarrow> node_id \<Rightarrow> node_ref \<Rightarrow> node_ref \<Rightarrow> node_ref list \<times> nat \<Rightarrow> view
    \<Rightarrow> ((node_ref list \<times> nat) \<times> view) res" where
  "meet 0 env me main walker buf v = Inl OutOfFuel"
| "meet (Suc fuel) env me main walker buf v =
     (if main \<noteq> walker then
        bindR (getChainNode (fst v) main) (\<lambda>n.
        bindR (revertAppliedChainNode env me n v) (\<lambda>v.
        bindR (getParent (fst v) n) (\<lambda>p.
        bindR (push_apply walker buf) (\<lambda>buf.
        bindR (getChainNode (fst v) walker) (\<lambda>w.
        bindR (getParent (fst v) w) (\<lambda>q. meet fuel env me p q buf v))))))
      else Inr (buf, v))"

definition apply_ref :: "env \<Rightarrow> node_id \<Rightarrow> node_ref \<Rightarrow> view \<Rightarrow> view res" where
  "apply_ref env me r v = bindR (getChainNode (fst v) r) (\<lambda>n. applyChainNode env me n v)"

definition switch_fuel :: nat where
  "switch_fuel = 2 * DEPTH_TO_KEEP + 1"

definition switchChains :: "env \<Rightarrow> node_id \<Rightarrow> node_ref \<Rightarrow> nat \<Rightarrow> view \<Rightarrow> view res" where
  "switchChains env me new_ref new_chain_index v =
     bindR (getChainNode (fst v) new_ref) (\<lambda>new.
       let c = fst v;
           buf_sz = (if cn_height new = bc_height c then 1
                     else if cn_height new > bc_height c then cn_height new - bc_height c
                     else bc_height c - cn_height new) in
       bindR (collect_above switch_fuel c (bc_height c) new_ref ([], buf_sz)) (\<lambda>(walker, buf).
       bindR (revert_above switch_fuel env me (cn_height new) (getMainChain c) v) (\<lambda>(main, v).
       bindR (meet switch_fuel env me main walker buf v) (\<lambda>(buf, v).
       bindR (foldR (apply_ref env me) (rev (fst buf)) v) (\<lambda>(c, ts, st).
         Inr (c\<lparr>main_chain_index := new_chain_index\<rparr>, ts, st))))))"

definition maybeSwitchChains :: "env \<Rightarrow> node_id \<Rightarrow> node_ref \<Rightarrow> nat \<Rightarrow> view \<Rightarrow> view res" where
  "maybeSwitchChains env me new_ref new_chain_index v =
     bindR (chainNodeMax_ref env me (fst v) (getMainChain (fst v)) new_ref) (\<lambda>best.
       if new_ref = best then switchChains env me new_ref new_chain_index v else Inr v)"

subsection \<open>The effects of a chain node as a log that can be taken back\<close>

definition apply_effects :: "env \<Rightarrow> node_id \<Rightarrow> chain_node \<Rightarrow> effects \<Rightarrow> effects res" where
  "apply_effects env me node e =
     bindR (on_txns applyBlockTransactions (fst e) (cn_transactionData node)) (\<lambda>ts.
     bindR (stats_apply env me (cn_miner node) (snd e)) (\<lambda>st. Inr (ts, st)))"

definition revert_effects :: "env \<Rightarrow> node_id \<Rightarrow> chain_node \<Rightarrow> effects \<Rightarrow> effects res" where
  "revert_effects env me node e =
     bindR (on_txns revertAppliedBlockTransactions (fst e) (cn_transactionData node)) (\<lambda>ts.
     bindR (stats_revert env me (cn_miner node) (snd e)) (\<lambda>st. Inr (ts, st)))"

lemma applyChainNode_eq:
  "applyChainNode env me n (c, e) = bindR (apply_effects env me n e) (\<lambda>e. Inr (c\<lparr>bc_height := cn_height n\<rparr>, e))"
  by (cases e) (simp add: applyChainNode_def apply_effects_def bindR_assoc Let_def)


subsection \<open>The walks of switchChains\<close>

text \<open>The chain with another end of the main chain; its levels are the same.\<close>

definition main_at :: "blockchain \<Rightarrow> node_ref \<Rightarrow> blockchain" where
  "main_at c r = c\<lparr>bc_height := fst r, main_chain_index := snd r\<rparr>"

lemma main_at_access [simp]:
  "nodes (main_at c r) = nodes c" "node_at (main_at c r) = node_at c" "valid (main_at c r) = valid c"
  "shape (main_at c r) = shape c" "in_window (main_at c r) = in_window c" "level (main_at c r) = level c"
  "bc_min_height (main_at c r) = bc_min_height c" "bc_max_height (main_at c r) = bc_max_height c"
  "bc_height (main_at c r) = fst r" "main_chain_index (main_at c r) = snd r"
  "getMainChain (main_at c r) = r" "main_at (main_at c r) s = main_at c s"
  "main_at c (getMainChain c) = c"
  by (simp_all add: main_at_def getMainChain_def)

lemma main_at_tree [simp]:
  "linked (main_at c r) = linked c" "par (main_at c r) = par c" "wf_tree (main_at c r) = wf_tree c"
  "branch (main_at c r) = branch c" "root (main_at c r) = root c"
proof -
  show p: "par (main_at c r) = par c" by (simp add: fun_eq_iff par_def)
  show l: "linked (main_at c r) = linked c" by (simp add: fun_eq_iff linked_def)
  show "wf_tree (main_at c r) = wf_tree c" by (simp add: wf_tree_def wf_node_def p l)
  show "branch (main_at c r) = branch c" by (simp add: fun_eq_iff branch_def ancs_def p)
  show "root (main_at c r) = root c" by (simp add: fun_eq_iff root_def p)
qed

lemma getChainNode_main_at [simp]: "getChainNode (main_at c r) s = getChainNode c s"
  by (simp add: getChainNode_def getChainLevel_def main_at_def Let_def)

lemma push_apply_ok:
  assumes "length refs \<le> sz" "0 < sz"
  shows "\<exists>sz'. push_apply r (refs, sz) = Inr (refs @ [r], sz') \<and> length (refs @ [r]) \<le> sz' \<and> 0 < sz'"
  using assms by (auto simp: push_apply_def Let_def)

lemma getParent_ok:
  assumes "wf_tree c" "linked c r" "bc_min_height c < fst r"
  shows "getParent (main_at c s) (node_at c r) = Inr (par c r)"
proof -
  from linked_window [OF linked_node(6) [OF assms]] have "in_window c (fst (par c r))" .
  with linked_node(4) [OF assms(1,2)] assms(3) wf_tree_shape [OF assms(1)] show ?thesis by (simp add: getParent_def)
qed

lemma revertAppliedChainNode_ok:
  assumes "wf_tree c" "linked c r" "0 < fst r"
  shows "revertAppliedChainNode env me (node_at c r) (main_at c r, e) =
     bindR (revert_effects env me (node_at c r) e) (\<lambda>e. Inr (main_at c (par c r), e))"
proof -
  obtain ts st where e: "e = (ts, st)" by (cases e)
  have "pred_height (fst r) = Inr (fst (par c r))" using assms(3) by (simp add: pred_height_def)
  with linked_node [OF assms(1,2)] assms(3) show ?thesis
    by (simp add: revertAppliedChainNode_def revert_effects_def e bindR_assoc Let_def main_at_def)
qed

lemma collect_above_ok:
  assumes "wf_tree c" "linked c r" "bc_min_height c \<le> h" "fst r - h < fuel" "length refs \<le> sz" "0 < sz"
  shows "\<exists>sz'. collect_above fuel c h r (refs, sz) =
      Inr ((par c ^^ (fst r - h)) r, refs @ ancs c (fst r - h) r, sz')
     \<and> length (refs @ ancs c (fst r - h) r) \<le> sz' \<and> 0 < sz'"
  using assms(2,4-)
proof (induction fuel arbitrary: r refs sz)
  case (Suc fuel)
  note n = linked_node [OF assms(1) Suc.prems(1)]
  show ?case
  proof (cases "h < fst r")
    case True
    then have low: "bc_min_height c < fst r" using assms(3) by simp
    from push_apply_ok [OF Suc.prems(3,4), of r] obtain sz1 where
      sz1: "push_apply r (refs, sz) = Inr (refs @ [r], sz1)" "length (refs @ [r]) \<le> sz1" "0 < sz1" by blast
    have "fst (par c r) - h < fuel" using Suc.prems(2) True by simp
    from Suc.IH [OF n(6) [OF low] this sz1(2,3)] obtain sz2 where
      sz2: "collect_above fuel c h (par c r) (refs @ [r], sz1) = Inr ((par c ^^ (fst (par c r) - h)) (par c r),
         (refs @ [r]) @ ancs c (fst (par c r) - h) (par c r), sz2)"
        "length ((refs @ [r]) @ ancs c (fst (par c r) - h) (par c r)) \<le> sz2" "0 < sz2" by blast
    have d: "fst r - h = Suc (fst (par c r) - h)" using True by simp
    from getParent_ok [OF assms(1) Suc.prems(1) low, of "getMainChain c"] have p: "getParent c (node_at c r) = Inr (par c r)"
      by simp
    have "collect_above (Suc fuel) c h r (refs, sz) = Inr ((par c ^^ (fst (par c r) - h)) (par c r),
         (refs @ [r]) @ ancs c (fst (par c r) - h) (par c r), sz2)"
      using n True sz1 sz2 p by simp
    then show ?thesis unfolding d using sz2(2,3) by (simp add: ancs_Suc funpow_swap1)
  next
    case False
    with n Suc.prems show ?thesis by simp
  qed
qed simp

lemma branch_par:
  assumes "bc_min_height c < fst r"
  shows "branch c r = branch c (par c r) @ [r]"
  using branch_split [of 1 r c] assms by (simp add: ancs_Suc)

subsection \<open>The switch, for every log\<close>

text \<open>
  What switchChains needs of the effects is the contract of \<open>undo_log\<close> for what a state
  holds of the chain: the blocks below the window, \<open>hs\<close>, followed by the branch of the end
  of the main chain.
\<close>

locale chain_log = undo_log "apply_effects env me" "revert_effects env me" holds allowed
  for env :: env and me :: node_id and holds :: "effects \<Rightarrow> chain_node list \<Rightarrow> bool"
    and allowed :: "chain_node list \<Rightarrow> bool"
begin

lemma revert_above_ok:
  assumes "wf_tree c" "linked c r" "bc_min_height c \<le> h" "fst r - h < fuel"
    "holds e (hs @ map (node_at c) (branch c r))"
  shows "\<exists>e'. revert_above fuel env me h r (main_at c r, e) =
      Inr ((par c ^^ (fst r - h)) r, main_at c ((par c ^^ (fst r - h)) r), e')
     \<and> holds e' (hs @ map (node_at c) (branch c ((par c ^^ (fst r - h)) r)))"
  using assms(2,4-)
proof (induction fuel arbitrary: r e)
  case (Suc fuel)
  note n = linked_node [OF assms(1) Suc.prems(1)]
  show ?case
  proof (cases "h < fst r")
    case True
    then have low: "bc_min_height c < fst r" using assms(3) by simp
    from Suc.prems(3) have "holds e ((hs @ map (node_at c) (branch c (par c r))) @ [node_at c r])"
      by (simp add: branch_par [OF low])
    from revert_ok [OF this] obtain e1 where e1: "revert_effects env me (node_at c r) e = Inr e1"
      "holds e1 (hs @ map (node_at c) (branch c (par c r)))" by blast
    have "fst (par c r) - h < fuel" using Suc.prems(2) True by simp
    from Suc.IH [OF n(6) [OF low] this e1(2)] obtain e2 where
      e2: "revert_above fuel env me h (par c r) (main_at c (par c r), e1) =
        Inr ((par c ^^ (fst (par c r) - h)) (par c r), main_at c ((par c ^^ (fst (par c r) - h)) (par c r)), e2)"
        "holds e2 (hs @ map (node_at c) (branch c ((par c ^^ (fst (par c r) - h)) (par c r))))" by blast
    have d: "fst r - h = Suc (fst (par c r) - h)" using True by simp
    have "revert_above (Suc fuel) env me h r (main_at c r, e) =
        Inr ((par c ^^ (fst (par c r) - h)) (par c r), main_at c ((par c ^^ (fst (par c r) - h)) (par c r)), e2)"
      using n(1,3) True e1(1) e2(1) getParent_ok [OF assms(1) Suc.prems(1) low]
        revertAppliedChainNode_ok [OF assms(1) Suc.prems(1)] low by simp
    then show ?thesis unfolding d using e2(2) by (simp add: funpow_swap1)
  next
    case False
    with n Suc.prems show ?thesis by simp
  qed
qed simp

lemma meet_ok:
  assumes "wf_tree c" "linked c m" "linked c w" "fst m = fst w" "k \<le> fst m - bc_min_height c"
    "(par c ^^ k) m = (par c ^^ k) w" "k < fuel" "length refs \<le> sz" "0 < sz"
    "holds e (hs @ map (node_at c) (branch c m))"
  shows "\<exists>j e' sz'. meet fuel env me m w (refs, sz) (main_at c m, e) =
      Inr ((refs @ ancs c j w, sz'), main_at c ((par c ^^ j) w), e')
     \<and> j \<le> k \<and> holds e' (hs @ map (node_at c) (branch c ((par c ^^ j) w)))"
  using assms(2-)
proof (induction k arbitrary: fuel m w refs sz e)
  case 0
  then obtain f where "fuel = Suc f" by (cases fuel) auto
  with 0 show ?case by (intro exI [of _ "0 :: nat"]) simp
next
  case (Suc k)
  then obtain f where f: "fuel = Suc f" "k < f" by (cases fuel) auto
  show ?case
  proof (cases "m = w")
    case True
    with Suc.prems f show ?thesis by (intro exI [of _ "0 :: nat"]) simp
  next
    case False
    have low: "bc_min_height c < fst m" "bc_min_height c < fst w" using Suc.prems(3,4) by auto
    note nm = linked_node [OF assms(1) Suc.prems(1)] and nw = linked_node [OF assms(1) Suc.prems(2)]
    from Suc.prems(9) have "holds e ((hs @ map (node_at c) (branch c (par c m))) @ [node_at c m])"
      by (simp add: branch_par [OF low(1)])
    from revert_ok [OF this] obtain e1 where e1: "revert_effects env me (node_at c m) e = Inr e1"
      "holds e1 (hs @ map (node_at c) (branch c (par c m)))" by blast
    from push_apply_ok [OF Suc.prems(7,8), of w] obtain sz1 where
      sz1: "push_apply w (refs, sz) = Inr (refs @ [w], sz1)" "length (refs @ [w]) \<le> sz1" "0 < sz1" by blast
    have "\<exists>j e' sz'. meet f env me (par c m) (par c w) (refs @ [w], sz1) (main_at c (par c m), e1) =
        Inr (((refs @ [w]) @ ancs c j (par c w), sz'), main_at c ((par c ^^ j) (par c w)), e')
       \<and> j \<le> k \<and> holds e' (hs @ map (node_at c) (branch c ((par c ^^ j) (par c w))))"
    proof (rule Suc.IH [OF nm(6) [OF low(1)] nw(6) [OF low(2)] _ _ _ f(2) sz1(2,3) e1(2)])
      show "fst (par c m) = fst (par c w)" "k \<le> fst (par c m) - bc_min_height c" using Suc.prems(3,4) by auto
      show "(par c ^^ k) (par c m) = (par c ^^ k) (par c w)" using Suc.prems(5) by (simp add: funpow_swap1)
    qed
    then obtain j e' sz' where j: "meet f env me (par c m) (par c w) (refs @ [w], sz1) (main_at c (par c m), e1) =
        Inr (((refs @ [w]) @ ancs c j (par c w), sz'), main_at c ((par c ^^ j) (par c w)), e')"
       "j \<le> k" "holds e' (hs @ map (node_at c) (branch c ((par c ^^ j) (par c w))))" by blast
    have "meet fuel env me m w (refs, sz) (main_at c m, e) =
        Inr (((refs @ [w]) @ ancs c j (par c w), sz'), main_at c ((par c ^^ j) (par c w)), e')"
      using False f(1) nm(3) nw(3) e1(1) sz1(1) j(1) getParent_ok [OF assms(1) Suc.prems(1) low(1)]
        getParent_ok [OF assms(1) Suc.prems(2) low(2)] revertAppliedChainNode_ok [OF assms(1) Suc.prems(1)] low
      by simp
    then show ?thesis
      using j(2,3) by (intro exI [of _ "Suc j"]) (simp add: ancs_Suc funpow_swap1)
  qed
qed

lemma apply_refs_ok:
  assumes "wf_tree c" "\<forall>r\<in>set rs. linked c r" "holds e ns"
    "allowed (ns @ map (node_at c) rs)"
  shows "\<exists>e'. foldR (apply_ref env me) rs (main_at c s, e) =
      Inr (main_at c (if rs = [] then fst s else fst (last rs), snd s), e')
     \<and> holds e' (ns @ map (node_at c) rs)"
  using assms(2-)
proof (induction rs arbitrary: s e ns)
  case (Cons r rs)
  from Cons.prems(3) have "allowed (ns @ [node_at c r])"
    using allowed_prefix [of "ns @ [node_at c r]" "map (node_at c) rs"] by simp
  from apply_ok [OF Cons.prems(2) this] obtain e1 where
    e1: "apply_effects env me (node_at c r) e = Inr e1" "holds e1 (ns @ [node_at c r])" by blast
  from Cons.prems(1) have r: "linked c r" by simp
  have "apply_ref env me r (main_at c s, e) = Inr (main_at c (fst r, snd s), e1)"
    using linked_node [OF assms(1) r] e1(1) by (simp add: apply_ref_def applyChainNode_eq) (simp add: main_at_def)
  with Cons.IH [OF _ e1(2), of "(fst r, snd s)"] Cons.prems show ?case by (auto split: if_splits)
qed simp

text \<open>Both walks down to the same height, and what is left to do.\<close>

lemma switch_start:
  assumes wf: "wf_chain c" and new: "linked c r"
    and refl: "holds e (hs @ map (node_at c) (branch c (getMainChain c)))"
  defines "m \<equiv> getMainChain c"
  defines "w \<equiv> (par c ^^ (fst r - fst m)) r" and "mm \<equiv> (par c ^^ (fst m - fst r)) m"
  shows "\<exists>sz e1. switchChains env me r i (c, e) =
       bindR (meet switch_fuel env me mm w (ancs c (fst r - fst m) r, sz) (main_at c mm, e1)) (\<lambda>(buf, v).
       bindR (foldR (apply_ref env me) (rev (fst buf)) v) (\<lambda>(c, ts, st). Inr (c\<lparr>main_chain_index := i\<rparr>, ts, st)))
     \<and> length (ancs c (fst r - fst m) r) \<le> sz \<and> 0 < sz
     \<and> holds e1 (hs @ map (node_at c) (branch c mm)) \<and> linked c w \<and> linked c mm \<and> fst mm = fst w
     \<and> root c w = root c r \<and> root c mm = root c m"
proof -
  let ?min = "bc_min_height c"
  from wf have tree: "wf_tree c" and main: "linked c m" by (auto simp: wf_chain_def m_def)
  have win: "?min \<le> fst r" "fst r < ?min + 2 * DEPTH_TO_KEEP" "?min \<le> fst m" "fst m < ?min + 2 * DEPTH_TO_KEEP"
    using linked_window [OF new] linked_window [OF main] by (auto simp: in_window_def)
  have H: "fst m = bc_height c" by (simp add: getMainChain_def m_def)
  note n = linked_node [OF tree new]
  define sz where "sz = (if fst r = bc_height c then 1
     else if fst r > bc_height c then fst r - bc_height c else bc_height c - fst r)"
  have "0 < sz" "length ([] :: node_ref list) \<le> sz" "fst r - fst m < switch_fuel"
    using win by (auto simp: switch_fuel_def sz_def)
  from collect_above_ok [OF tree new win(3) this(3,2,1)] obtain sz1 where
    c1: "collect_above switch_fuel c (bc_height c) r ([], sz) = Inr (w, ancs c (fst r - fst m) r, sz1)"
      "length (ancs c (fst r - fst m) r) \<le> sz1" "0 < sz1"
    unfolding H w_def by auto
  have "fst m - fst r < switch_fuel" using win by (auto simp: switch_fuel_def)
  from revert_above_ok [OF tree main win(1) this refl [folded m_def]] obtain e1 where
    c2: "revert_above switch_fuel env me (fst r) m (c, e) = Inr (mm, main_at c mm, e1)"
      "holds e1 (hs @ map (node_at c) (branch c mm))"
    unfolding mm_def by (auto simp: m_def)
  have lw: "linked c w" "linked c mm" using linked_pow [OF tree new] linked_pow [OF tree main] win
    by (auto simp: w_def mm_def)
  have same: "fst mm = fst w" by (auto simp: w_def mm_def)
  have "root c w = root c r" "root c mm = root c m"
  proof -
    have "fst w - ?min + (fst r - fst m) = fst r - ?min" "fst mm - ?min + (fst m - fst r) = fst m - ?min"
      using win by (auto simp: w_def mm_def)
    then show "root c w = root c r" "root c mm = root c m"
      unfolding root_def w_def mm_def by (metis funpow_add comp_apply)+
  qed
  moreover have "switchChains env me r i (c, e) =
       bindR (meet switch_fuel env me mm w (ancs c (fst r - fst m) r, sz1) (main_at c mm, e1)) (\<lambda>(buf, v).
       bindR (foldR (apply_ref env me) (rev (fst buf)) v) (\<lambda>(c, ts, st). Inr (c\<lparr>main_chain_index := i\<rparr>, ts, st)))"
    unfolding switchChains_def fst_conv n(3) bindR_simps Let_def n(1) sz_def [symmetric] c1(1) prod.case
      m_def [symmetric] c2(1) ..
  ultimately show ?thesis using c1(2,3) c2(2) lw same by blast
qed

lemma switchChains_ok:
  assumes wf: "wf_chain c" and new: "linked c r" and rt: "root c r = root c (getMainChain c)"
    and refl: "holds e (hs @ map (node_at c) (branch c (getMainChain c)))"
    and good: "allowed (hs @ map (node_at c) (branch c r))"
  shows "\<exists>e'. switchChains env me r (snd r) (c, e) = Inr (main_at c r, e')
     \<and> holds e' (hs @ map (node_at c) (branch c r))"
proof -
  let ?m = "getMainChain c" and ?min = "bc_min_height c"
  let ?w = "(par c ^^ (fst r - fst ?m)) r" and ?mm = "(par c ^^ (fst ?m - fst r)) ?m"
  from switch_start [OF wf new refl, of "snd r"] obtain sz1 e1 where
    c1: "switchChains env me r (snd r) (c, e) =
       bindR (meet switch_fuel env me ?mm ?w (ancs c (fst r - fst ?m) r, sz1) (main_at c ?mm, e1)) (\<lambda>(buf, v).
       bindR (foldR (apply_ref env me) (rev (fst buf)) v) (\<lambda>(c, ts, st). Inr (c\<lparr>main_chain_index := snd r\<rparr>, ts, st)))"
    and sz: "length (ancs c (fst r - fst ?m) r) \<le> sz1" "0 < sz1"
    and e1: "holds e1 (hs @ map (node_at c) (branch c ?mm))"
    and lw: "linked c ?w" "linked c ?mm" "fst ?mm = fst ?w" "root c ?w = root c r" "root c ?mm = root c ?m"
    by blast
  from wf have tree: "wf_tree c" by (simp add: wf_chain_def)
  have win: "?min \<le> fst ?w" "fst ?w < ?min + 2 * DEPTH_TO_KEEP"
    using linked_window [OF lw(1)] by (auto simp: in_window_def)
  let ?k = "fst ?w - ?min"
  have join: "(par c ^^ ?k) ?mm = (par c ^^ ?k) ?w" using rt lw(3-5) unfolding root_def by simp
  have "?k \<le> fst ?mm - ?min" "?k < switch_fuel" using win lw(3) unfolding switch_fuel_def by linarith+
  from meet_ok [OF tree lw(2,1,3) this(1) join this(2) sz e1] obtain j e2 sz2 where
    c3: "meet switch_fuel env me ?mm ?w (ancs c (fst r - fst ?m) r, sz1) (main_at c ?mm, e1) =
       Inr ((ancs c (fst r - fst ?m) r @ ancs c j ?w, sz2), main_at c ((par c ^^ j) ?w), e2)"
      "j \<le> ?k" "holds e2 (hs @ map (node_at c) (branch c ((par c ^^ j) ?w)))" by blast
  let ?b = "fst r - fst ?m + j"
  have b: "?b \<le> fst r - ?min" using c3(2) win by auto
  have refs: "ancs c (fst r - fst ?m) r @ ancs c j ?w = ancs c ?b r" by (simp add: ancs_add)
  have top: "(par c ^^ j) ?w = (par c ^^ ?b) r" by (simp add: funpow_add add.commute)
  have lk: "\<forall>s\<in>set (rev (ancs c ?b r)). linked c s" using linked_pow [OF tree new] b by (auto simp: ancs_def)
  have br: "branch c r = branch c ((par c ^^ ?b) r) @ rev (ancs c ?b r)" by (rule branch_split [OF b])
  have g: "allowed ((hs @ map (node_at c) (branch c ((par c ^^ ?b) r))) @ map (node_at c) (rev (ancs c ?b r)))"
    using good unfolding br by simp
  from apply_refs_ok [OF tree lk c3(3) [unfolded top] g, of "(par c ^^ ?b) r"] obtain e3 where
    c4: "foldR (apply_ref env me) (rev (ancs c ?b r)) (main_at c ((par c ^^ ?b) r), e2) =
      Inr (main_at c (if rev (ancs c ?b r) = [] then fst ((par c ^^ ?b) r) else fst (last (rev (ancs c ?b r))),
        snd ((par c ^^ ?b) r)), e3)"
      "holds e3 (hs @ map (node_at c) (branch c r))"
    by (auto simp: br)
  have last: "(if rev (ancs c ?b r) = [] then fst ((par c ^^ ?b) r) else fst (last (rev (ancs c ?b r)))) = fst r"
    by (cases ?b) (auto simp: ancs_Suc)
  obtain ts st where e3: "e3 = (ts, st)" by (cases e3)
  have "switchChains env me r (snd r) (c, e) = Inr ((main_at c (fst r, snd ((par c ^^ ?b) r)))\<lparr>main_chain_index := snd r\<rparr>, e3)"
    unfolding c1 c3(1) bindR_simps prod.case fst_conv refs top c4(1) last e3 ..
  then have "switchChains env me r (snd r) (c, e) = Inr (main_at c r, e3)"
    by (simp add: main_at_def)
  with c4(2) show ?thesis by blast
qed

text \<open>Two branches that do not meet inside the window: the walk leaves it and stops the program.\<close>

lemma meet_abort:
  assumes "wf_tree c" "linked c m" "linked c w" "fst m = fst w" "0 < bc_min_height c"
    "root c m \<noteq> root c w" "fst m - bc_min_height c < fuel" "length refs \<le> sz" "0 < sz"
    "holds e (hs @ node_at c (root c m) # map (node_at c) (branch c m))"
  shows "meet fuel env me m w (refs, sz) (main_at c m, e) = Inl Abort"
  using assms(2-4,6-)
proof (induction fuel arbitrary: m w refs sz e)
  case (Suc f)
  have ne: "m \<noteq> w" using Suc.prems(4) by auto
  have pos: "0 < fst m" "0 < fst w" using assms(5) linked_window [OF Suc.prems(1)] linked_window [OF Suc.prems(2)]
    by (auto simp: in_window_def)
  note nm = linked_node [OF assms(1) Suc.prems(1)] and nw = linked_node [OF assms(1) Suc.prems(2)]
  show ?case
  proof (cases "bc_min_height c < fst m")
    case True
    then have low: "bc_min_height c < fst m" "bc_min_height c < fst w" using Suc.prems(3) by auto
    have rm: "root c (par c r) = root c r" if "bc_min_height c < fst r" for r
    proof -
      have "fst r - bc_min_height c = Suc (fst (par c r) - bc_min_height c)" using that by simp
      then show ?thesis unfolding root_def by (simp add: funpow_swap1)
    qed
    from Suc.prems(8) have "holds e ((hs @ node_at c (root c (par c m)) # map (node_at c) (branch c (par c m))) @ [node_at c m])"
      by (simp add: branch_par [OF low(1)] rm [OF low(1)])
    from revert_ok [OF this] obtain e1 where e1: "revert_effects env me (node_at c m) e = Inr e1"
      "holds e1 (hs @ node_at c (root c (par c m)) # map (node_at c) (branch c (par c m)))" by blast
    from push_apply_ok [OF Suc.prems(6,7), of w] obtain sz1 where
      sz1: "push_apply w (refs, sz) = Inr (refs @ [w], sz1)" "length (refs @ [w]) \<le> sz1" "0 < sz1" by blast
    have "meet f env me (par c m) (par c w) (refs @ [w], sz1) (main_at c (par c m), e1) = Inl Abort"
      by (rule Suc.IH [OF nm(6) [OF low(1)] nw(6) [OF low(2)] _ _ _ sz1(2,3) e1(2)])
        (use Suc.prems(3-5) low rm in auto)
    then show ?thesis
      using ne nm(3) nw(3) e1(1) sz1(1) getParent_ok [OF assms(1) Suc.prems(1) low(1)]
        getParent_ok [OF assms(1) Suc.prems(2) low(2)] revertAppliedChainNode_ok [OF assms(1) Suc.prems(1) pos(1)]
      by simp
  next
    case False
    then have min: "fst m = bc_min_height c" using linked_window [OF Suc.prems(1)] by (simp add: in_window_def)
    then have "root c m = m" "branch c m = []" by (simp_all add: root_def branch_def)
    with Suc.prems(8) have "holds e (hs @ [node_at c m])" by simp
    from revert_ok [OF this] obtain e1 where e1: "revert_effects env me (node_at c m) e = Inr e1" by blast
    have "fst (par c m) < bc_min_height c" using min assms(5) by simp
    then have "getParent (main_at c (par c m)) (node_at c m) = Inl Abort"
      using nm(4) [OF pos(1)] by (simp add: getParent_def)
    with ne nm(3) e1 revertAppliedChainNode_ok [OF assms(1) Suc.prems(1) pos(1)] show ?thesis by simp
  qed
qed simp

lemma switchChains_abort:
  assumes wf: "wf_chain c" and new: "linked c r" and rt: "root c r \<noteq> root c (getMainChain c)"
    and pos: "0 < bc_min_height c"
    and refl: "holds e (hs @ node_at c (root c (getMainChain c)) # map (node_at c) (branch c (getMainChain c)))"
  shows "switchChains env me r i (c, e) = Inl Abort"
proof -
  let ?m = "getMainChain c" and ?min = "bc_min_height c"
  let ?w = "(par c ^^ (fst r - fst ?m)) r" and ?mm = "(par c ^^ (fst ?m - fst r)) ?m"
  from refl have refl': "holds e ((hs @ [node_at c (root c ?m)]) @ map (node_at c) (branch c ?m))" by simp
  from switch_start [OF wf new refl', of i] obtain sz1 e1 where
    c1: "switchChains env me r i (c, e) =
       bindR (meet switch_fuel env me ?mm ?w (ancs c (fst r - fst ?m) r, sz1) (main_at c ?mm, e1)) (\<lambda>(buf, v).
       bindR (foldR (apply_ref env me) (rev (fst buf)) v) (\<lambda>(c, ts, st). Inr (c\<lparr>main_chain_index := i\<rparr>, ts, st)))"
    and sz: "length (ancs c (fst r - fst ?m) r) \<le> sz1" "0 < sz1"
    and e1: "holds e1 ((hs @ [node_at c (root c ?m)]) @ map (node_at c) (branch c ?mm))"
    and lw: "linked c ?w" "linked c ?mm" "fst ?mm = fst ?w" "root c ?w = root c r" "root c ?mm = root c ?m"
    by blast
  from wf have tree: "wf_tree c" by (simp add: wf_chain_def)
  have "fst ?mm - ?min < switch_fuel"
    using linked_window [OF lw(2)] by (auto simp: in_window_def switch_fuel_def)
  moreover have "holds e1 (hs @ node_at c (root c ?mm) # map (node_at c) (branch c ?mm))" using e1 lw(5) by simp
  ultimately have "meet switch_fuel env me ?mm ?w (ancs c (fst r - fst ?m) r, sz1) (main_at c ?mm, e1) = Inl Abort"
    using rt lw by (intro meet_abort [OF tree lw(2,1,3) pos _ _ sz]) auto
  with c1 show ?thesis by simp
qed

end

subsection \<open>Two logs: no fault, and the exact effects\<close>

definition txn_data_of :: "chain_node list \<Rightarrow> transaction_data list" where
  "txn_data_of ns = map (the \<circ> cn_transactionData) ns"

definition good_nodes :: "env \<Rightarrow> nat set \<Rightarrow> chain_node list \<Rightarrow> bool" where
  "good_nodes env base ns \<longleftrightarrow> (\<forall>n\<in>set ns. covered env (cn_miner n) \<and> cn_transactionData n \<noteq> None)
     \<and> fresh_txns base (txn_data_of ns)"

text \<open>
  The state reflects a list of chain nodes: from the starting point \<open>base\<close>, \<open>st0\<close>, the
  executed transactions are those of the nodes and the statistics have counted the nodes.
\<close>

definition reflects :: "env \<Rightarrow> node_id \<Rightarrow> nat set \<Rightarrow> stats_state \<Rightarrow> effects \<Rightarrow> chain_node list \<Rightarrow> bool" where
  "reflects env me base st0 e ns \<longleftrightarrow> good_nodes env base ns
     \<and> (\<forall>ts. fst e = Some ts \<longrightarrow> txns_executed base ts (txn_data_of ns))
     \<and> stats_count env me st0 (snd e) (map cn_miner ns)"

interpretation node_log: chain_log env me "reflects env me base st0"
  "good_nodes env base" for env me base st0
proof unfold_locales
  show "\<exists>e'. apply_effects env me n e = Inr e' \<and> reflects env me base st0 e' (ns @ [n])"
    if e: "reflects env me base st0 e ns" and n: "good_nodes env base (ns @ [n])" for e ns n
  proof -
    obtain ts st where es: "e = (ts, st)" by (cases e)
    from n obtain d where d: "cn_transactionData n = Some d"
      "fresh_txns base (txn_data_of ns @ [d])" by (auto simp: good_nodes_def txn_data_of_def)
    have "\<forall>m\<in>set (map cn_miner ns @ [cn_miner n]). covered env m" using n by (auto simp: good_nodes_def)
    with stats_log.apply_ok [of env me st0 st "map cn_miner ns" "cn_miner n"] e es obtain st1 where
      st1: "stats_apply env me (cn_miner n) st = Inr st1" "stats_count env me st0 st1 (map cn_miner ns @ [cn_miner n])"
      by (auto simp: reflects_def)
    show ?thesis
    proof (cases ts)
      case None
      with st1 n d es show ?thesis by (simp add: apply_effects_def on_txns_def reflects_def)
    next
      case (Some t)
      with e es have "txns_executed base t (txn_data_of ns)" by (simp add: reflects_def)
      from txn_log.apply_ok [OF this d(2)] obtain t1 where
        "applyBlockTransactions t d = Inr t1" "txns_executed base t1 (txn_data_of ns @ [d])" by blast
      with Some st1 n d es show ?thesis
        by (simp add: apply_effects_def on_txns_def reflects_def txn_data_of_def)
    qed
  qed
  show "\<exists>e'. revert_effects env me n e = Inr e' \<and> reflects env me base st0 e' ns"
    if e: "reflects env me base st0 e (ns @ [n])" for e ns n
  proof -
    obtain ts st where es: "e = (ts, st)" by (cases e)
    from e obtain d where d: "cn_transactionData n = Some d" "good_nodes env base ns"
      by (auto simp: reflects_def good_nodes_def txn_data_of_def fresh_txns_append)
    from stats_log.revert_ok [of env me st0 st "map cn_miner ns" "cn_miner n"] e es obtain st1 where
      st1: "stats_revert env me (cn_miner n) st = Inr st1" "stats_count env me st0 st1 (map cn_miner ns)"
      by (auto simp: reflects_def)
    show ?thesis
    proof (cases ts)
      case None
      with st1 d es show ?thesis by (simp add: revert_effects_def on_txns_def reflects_def)
    next
      case (Some t)
      with e es d have "txns_executed base t (txn_data_of ns @ [d])" by (simp add: reflects_def txn_data_of_def)
      from txn_log.revert_ok [OF this] obtain t1 where
        "revertAppliedBlockTransactions t d = Inr t1" "txns_executed base t1 (txn_data_of ns)" by blast
      with Some st1 d es show ?thesis by (simp add: revert_effects_def on_txns_def reflects_def)
    qed
  qed
  show "good_nodes env base ns" if "good_nodes env base (ns @ ms)" for ns ms
    using that by (auto simp: good_nodes_def txn_data_of_def fresh_txns_append)
qed


text \<open>The weaker log: nothing but that no operation faults.\<close>

definition safe_nodes :: "env \<Rightarrow> chain_node list \<Rightarrow> bool" where
  "safe_nodes env ns \<longleftrightarrow> (\<forall>n\<in>set ns. covered env (cn_miner n)
     \<and> (\<exists>d. cn_transactionData n = Some d \<and> wf_txn_data d))"

definition safe_effects :: "env \<Rightarrow> effects \<Rightarrow> chain_node list \<Rightarrow> bool" where
  "safe_effects env e ns \<longleftrightarrow> safe_nodes env ns \<and> (\<forall>ts. fst e = Some ts \<longrightarrow> wf_ts ts)"

interpretation safe_log: chain_log env me "safe_effects env" "safe_nodes env" for env me
proof unfold_locales
  show "\<exists>e'. apply_effects env me n e = Inr e' \<and> safe_effects env e' (ns @ [n])"
    if e: "safe_effects env e ns" "safe_nodes env (ns @ [n])" for e ns n
  proof -
    from e obtain d where d: "cn_transactionData n = Some d" "wf_txn_data d" "covered env (cn_miner n)"
      by (auto simp: safe_nodes_def)
    from stats_apply_ok [OF d(3), of me "snd e"] obtain st where st: "stats_apply env me (cn_miner n) (snd e) = Inr st" ..
    show ?thesis
    proof (cases "fst e")
      case (Some t)
      with e have "wf_ts t" by (simp add: safe_effects_def)
      from applyBlockTransactions_ok [OF d(2) this] obtain t1 where "applyBlockTransactions t d = Inr t1" "wf_ts t1" by blast
      with Some e d st show ?thesis by (simp add: apply_effects_def on_txns_def safe_effects_def)
    qed (use e d st in \<open>simp add: apply_effects_def on_txns_def safe_effects_def\<close>)
  qed
  show "\<exists>e'. revert_effects env me n e = Inr e' \<and> safe_effects env e' ns"
    if e: "safe_effects env e (ns @ [n])" for e ns n
  proof -
    from e obtain d where d: "cn_transactionData n = Some d" "wf_txn_data d" "covered env (cn_miner n)"
      by (auto simp: safe_effects_def safe_nodes_def)
    from stats_revert_ok [OF d(3), of me "snd e"] obtain st where st: "stats_revert env me (cn_miner n) (snd e) = Inr st" ..
    show ?thesis
    proof (cases "fst e")
      case (Some t)
      with e have "wf_ts t" by (simp add: safe_effects_def)
      from revertAppliedBlockTransactions_ok [OF d(2) this] obtain t1 where
        "revertAppliedBlockTransactions t d = Inr t1" "wf_ts t1" by blast
      with Some e d st show ?thesis by (simp add: revert_effects_def on_txns_def safe_effects_def safe_nodes_def)
    qed (use e d st in \<open>simp add: revert_effects_def on_txns_def safe_effects_def safe_nodes_def\<close>)
  qed
qed (auto simp: safe_nodes_def)

end
