(* ===== verification/Blocks.thy ===== *)
theory Blocks
  imports Switch
begin

text \<open>
  Block.c, third part: linking orphans to a parent that arrived late, adding a block to the
  local chain, generating and receiving blocks.
\<close>

text \<open>The four writes of unorphanBlocks to a child of the parent at reference r.\<close>

definition link_child :: "node_ref \<Rightarrow> chain_node \<Rightarrow> chain_node \<Rightarrow> chain_node" where
  "link_child r p n = (unOrphan n)\<lparr>cn_parent := ParentIndex (snd r), cn_ancestorsMined := cn_ancestorsMined p,
     cn_score := cn_score p + 1\<rparr>"

text \<open>
  unorphanBlocks: the parent is given by its reference, whose second part is the argument
  parent_index of the code; the third result is the variable that orphan_index points to.
  The first argument bounds the depth of the recursion.
\<close>

primrec unorphanBlocks ::
  "nat \<Rightarrow> env \<Rightarrow> node_id \<Rightarrow> node_ref \<Rightarrow> nat \<Rightarrow> nat \<Rightarrow> blockchain \<Rightarrow> (blockchain \<times> node_ref option \<times> nat) res" where
  "unorphanBlocks 0 env me parent child_height orphan_index c = Inl OutOfFuel"
| "unorphanBlocks (Suc fuel) env me parent child_height orphan_index c =
     (if child_height > bc_max_height c then Inr (c, None, orphan_index)
      else bindR (getChainLevel c child_height) (\<lambda>level.
        foldR (\<lambda>i (c, bestChild, orphan_index).
          let r = (child_height, i) in
          bindR (getChainNode c r) (\<lambda>orphanNode.
          if \<not> isOrphan orphanNode then Inr (c, bestChild, orphan_index)
          else bindR (parentMinerId orphanNode) (\<lambda>pm. bindR (getChainNode c parent) (\<lambda>p.
            if pm \<noteq> cn_miner p then Inr (c, bestChild, orphan_index)
            else bindR (setChainNode c r (link_child parent p orphanNode)) (\<lambda>c.
              bindR (case bestChild of None \<Rightarrow> Inr (r, i)
                     | Some b \<Rightarrow> bindR (chainNodeMax_ref env me c b r) (\<lambda>m.
                         Inr (m, if m = r then i else orphan_index))) (\<lambda>(best, orphan_index).
              bindR (unorphanBlocks fuel env me r (child_height + 1) 0 c) (\<lambda>(c, aux, child_index).
                case aux of None \<Rightarrow> Inr (c, Some best, orphan_index)
                | Some a \<Rightarrow> bindR (chainNodeMax_ref env me c best a) (\<lambda>m.
                    Inr (c, Some m, if m = a then child_index else orphan_index)))))))))
          [0..<length (lv_nodes level)] (c, None, orphan_index)))"

definition prepareChain :: "blockchain \<Rightarrow> nat \<Rightarrow> blockchain" where
  "prepareChain c h =
     (if h > bc_max_height c then
        let c = c\<lparr>bc_max_height := h\<rparr> in
        if h \<ge> bc_min_height c + 2 * DEPTH_TO_KEEP then moveChainForward c else c
      else c)"

definition growLevel :: "chain_level \<Rightarrow> chain_level" where
  "growLevel l = (if length (lv_nodes l) \<ge> lv_capacity l then l\<lparr>lv_capacity := lv_capacity l + 1\<rparr> else l)"

text \<open>The node is written behind the nodes in use; its place has to be allocated.\<close>

definition appendNode :: "chain_level \<Rightarrow> chain_node \<Rightarrow> chain_level res" where
  "appendNode l n = (if length (lv_nodes l) < lv_capacity l then Inr (l\<lparr>lv_nodes := lv_nodes l @ [n]\<rparr>)
     else Inl OutOfBounds)"

text \<open>
  The search for the parent in the level below: the first node of the miner that the block
  names as its parent's ends the search; it is the parent unless it is an orphan.
\<close>

definition linkToParent :: "node_ref \<Rightarrow> chain_node \<Rightarrow> blockchain \<Rightarrow> (blockchain \<times> bool) res" where
  "linkToParent r n c =
     bindR (pred_height (fst r)) (\<lambda>h. bindR (getChainLevel c h) (\<lambda>parentLevel.
     bindR (parentMinerId n) (\<lambda>pm.
     case find_miner pm 0 (lv_nodes parentLevel) of
       None \<Rightarrow> Inr (c, False)
     | Some i \<Rightarrow> bindR (nthR (lv_nodes parentLevel) i) (\<lambda>p.
         if isOrphan p then Inr (c, False)
         else bindR (setChainNode c r (n\<lparr>cn_parent := ParentIndex i,
                cn_ancestorsMined := cn_ancestorsMined p, cn_score := cn_score p + 1\<rparr>)) (\<lambda>c.
              Inr (c, True))))))"

definition unorphan_fuel :: nat where
  "unorphan_fuel = 2 * DEPTH_TO_KEEP + 1"

definition addBlock :: "env \<Rightarrow> node_id \<Rightarrow> simtime \<Rightarrow> block \<Rightarrow> view \<Rightarrow> (view \<times> node_ref) res" where
  "addBlock env me now b v =
     (case v of (c, e) \<Rightarrow>
      let c = prepareChain c (bk_height b) in
      bindR (getChainLevel c (bk_height b)) (\<lambda>chainLevel.
      let r = (bk_height b, length (lv_nodes chainLevel)) in
      bindR (populateChainNode b) (\<lambda>n.
      let n = n\<lparr>cn_timestamp := now\<rparr> in
      bindR (appendNode (growLevel chainLevel) n) (\<lambda>l.
      bindR (setChainLevel c (bk_height b) l) (\<lambda>c.
      bindR (linkToParent r n c) (\<lambda>(c, found).
      if \<not> found then bindR (setChainNode c r (setOrphan n)) (\<lambda>c. Inr ((c, e), r))
      else
        bindR (unorphanBlocks unorphan_fuel env me r (bk_height b + 1) 0 c) (\<lambda>(c, unorphaned, best_orphan_index).
        bindR (case unorphaned of None \<Rightarrow> Inr (r, snd r)
               | Some u \<Rightarrow> bindR (chainNodeMax_ref env me c r u) (\<lambda>m.
                   Inr (m, if m = u then best_orphan_index else snd r))) (\<lambda>(best, index).
        bindR (maybeSwitchChains env me best index (c, e)) (\<lambda>v. Inr (v, r))))))))))"

definition generateBlock ::
  "env \<Rightarrow> txn_array \<Rightarrow> node_id \<Rightarrow> simtime \<Rightarrow> blockchain_state \<times> effects \<Rightarrow> (block \<times> blockchain_state \<times> effects) res" where
  "generateBlock env txns me now s =
     (case s of (state, ts, st) \<Rightarrow>
      bindR (case ts of None \<Rightarrow> Inr (None, None)
             | Some t \<Rightarrow> bindR (generateTransactionData initNetwork txns t now me) (\<lambda>(d, t). Inr (d, Some t)))
        (\<lambda>(txn_data, ts).
      bindR (getChainNode (chain_of state) (getMainChain (chain_of state))) (\<lambda>mainChain.
      bindR (case txn_data of None \<Rightarrow> Inr no_transactions | Some d \<Rightarrow> copyTransactionData d) (\<lambda>td.
        let b = \<lparr>bk_timestamp = now, bk_size = 10, bk_miner = me, bk_prevBlockMiner = cn_miner mainChain,
                 bk_sender = me, bk_height = cn_height mainChain + 1, bk_is_attack_block = False,
                 bk_transactionData = td\<rparr>;
            state = state\<lparr>mined_by_me := mined_by_me state + 1\<rparr> in
        bindR (addBlock env me now b (chain_of state, ts, st)) (\<lambda>((c, e), r).
        bindR (getChainNode c r) (\<lambda>n.
        bindR (setChainNode c r (n\<lparr>cn_ancestorsMined := cn_ancestorsMined n + 1\<rparr>)) (\<lambda>c.
          Inr (b, state\<lparr>chain_of := c\<rparr>, e))))))))"

record received =
  rc_elapsed :: simtime
  updatedMainChain :: bool
  foundParent :: bool

text \<open>The two out parameters keep the caller's values where the code does not write them.\<close>

definition receiveBlock ::
  "env \<Rightarrow> node_id \<Rightarrow> simtime \<Rightarrow> block \<Rightarrow> bool \<Rightarrow> bool \<Rightarrow> blockchain_state \<times> effects
     \<Rightarrow> (received \<times> blockchain_state \<times> effects) res" where
  "receiveBlock env me now b updated found s =
     (case s of (state, e) \<Rightarrow>
      let (valid, elapsed) = validateBlock b in
      if \<not> valid then Inr (\<lparr>rc_elapsed = elapsed, updatedMainChain = updated, foundParent = found\<rparr>, state, e)
      else
        let old_index = main_chain_index (chain_of state); old_height = bc_height (chain_of state) in
        bindR (addBlock env me now b (chain_of state, e)) (\<lambda>((c, e), r).
        bindR (getChainNode c r) (\<lambda>n.
          let updated = (if bc_height c \<noteq> old_height \<or> main_chain_index c \<noteq> old_index then True else updated)
          in Inr (\<lparr>rc_elapsed = elapsed, updatedMainChain = updated, foundParent = \<not> isOrphan n\<rparr>,
               state\<lparr>chain_of := c\<rparr>, e))))"

subsection \<open>Linking keeps what is linked\<close>

text \<open>
  What linking orphans may change: nodes stay where they are, linked nodes are untouched,
  and the block a node stands for stays the same.
\<close>

definition relinked :: "blockchain \<Rightarrow> blockchain \<Rightarrow> bool" where
  "relinked c c' \<longleftrightarrow> same_frame c c'
     \<and> (\<forall>h. in_window c h \<longrightarrow> length (nodes c' h) = length (nodes c h) \<and> lv_capacity (level c' h) = lv_capacity (level c h))
     \<and> (\<forall>s. linked c s \<longrightarrow> node_at c' s = node_at c s)
     \<and> (\<forall>s. valid c s \<longrightarrow> cn_miner (node_at c' s) = cn_miner (node_at c s)
          \<and> cn_transactionData (node_at c' s) = cn_transactionData (node_at c s)
          \<and> cn_timestamp (node_at c' s) = cn_timestamp (node_at c s))"

lemma relinked_refl [simp]: "relinked c c"
  by (simp add: relinked_def)

lemma relinked_valid: "relinked c c' \<Longrightarrow> valid c' s = valid c s"
  by (auto simp: relinked_def valid_def same_frame_window)

lemma relinked_node: "relinked c c' \<Longrightarrow> linked c s \<Longrightarrow> node_at c' s = node_at c s"
  unfolding relinked_def by blast

lemma relinked_linked: "relinked c c' \<Longrightarrow> linked c s \<Longrightarrow> linked c' s"
  using relinked_node [of c c' s] by (simp add: linked_def relinked_valid)

lemma relinked_trans: "relinked a b \<Longrightarrow> relinked b c \<Longrightarrow> relinked a c"
proof -
  assume ab: "relinked a b" and bc: "relinked b c"
  have "in_window b = in_window a" using ab by (auto simp: relinked_def same_frame_window)
  moreover have "valid b s = valid a s" "linked a s \<Longrightarrow> linked b s" for s
    using relinked_valid [OF ab] relinked_linked [OF ab] by auto
  ultimately show "relinked a c"
    using ab bc same_frame_trans [of a b c] unfolding relinked_def by simp
qed

text \<open>What all changes of the levels but the move of the window have in common.\<close>

definition grows :: "blockchain \<Rightarrow> blockchain \<Rightarrow> bool" where
  "grows c c' \<longleftrightarrow> same_frame c c' \<and> (\<forall>s. linked c s \<longrightarrow> linked c' s \<and> node_at c' s = node_at c s)"

lemma relinked_grows: "relinked c c' \<Longrightarrow> grows c c'"
  using relinked_node relinked_linked unfolding grows_def relinked_def by blast

lemma grows_trans: "grows a b \<Longrightarrow> grows b c \<Longrightarrow> grows a c"
  using same_frame_trans unfolding grows_def by metis

lemma grows_node:
  assumes "grows c c'" "linked c s"
  shows "linked c' s" "node_at c' s = node_at c s"
  using assms unfolding grows_def by blast+

lemma grows_frame:
  assumes "grows c c'"
  shows "bc_min_height c' = bc_min_height c" "bc_max_height c' = bc_max_height c" "in_window c' = in_window c"
    "getMainChain c' = getMainChain c"
  using assms by (auto simp: grows_def same_frame_def same_frame_window getMainChain_def)

lemma grows_par:
  assumes "grows c c'" "linked c r"
  shows "par c' r = par c r"
  using grows_node [OF assms] by (simp add: par_def)

lemma grows_pow:
  assumes "wf_tree c" "grows c c'" "linked c r" "k \<le> fst r - bc_min_height c"
  shows "(par c' ^^ k) r = (par c ^^ k) r"
  using assms(4)
proof (induction k)
  case (Suc k)
  have "linked c ((par c ^^ k) r)" using linked_pow [OF assms(1,3)] Suc.prems by simp
  with Suc grows_par [OF assms(2)] show ?case by simp
qed simp

lemma grows_branch:
  assumes "wf_tree c" "grows c c'" "linked c r"
  shows "branch c' r = branch c r" "root c' r = root c r"
    "map (node_at c') (branch c r) = map (node_at c) (branch c r)"
proof -
  note min = grows_frame(1) [OF assms(2)]
  show "branch c' r = branch c r" "root c' r = root c r"
    using grows_pow [OF assms] by (auto simp: branch_def ancs_def root_def min)
  have "linked c s" if "s \<in> set (branch c r)" for s
    using that linked_pow [OF assms(1,3)] by (auto simp: branch_def ancs_def)
  with grows_node(2) [OF assms(2)] show "map (node_at c') (branch c r) = map (node_at c) (branch c r)"
    by auto
qed

text \<open>Writing a node in place of an orphan, as a child of a linked node.\<close>

lemma link_ok:
  assumes wf: "wf_tree c" and p: "linked c p" and r: "valid c r" "fst r = Suc (fst p)"
    and orphan: "isOrphan (node_at c r)"
    and n: "\<not> isOrphan n" "cn_parent n = ParentIndex (snd p)" "cn_height n = fst r"
      "cn_score n = cn_score (node_at c p) + 1" "cn_miner n = cn_miner (node_at c r)"
      "cn_transactionData n = cn_transactionData (node_at c r)" "cn_timestamp n = cn_timestamp (node_at c r)"
    and set: "set_node c r n c'"
  shows "wf_tree c'" "relinked c c'" "linked c' r" "par c' r = p"
proof -
  have frame: "same_frame c c'" and at: "\<And>s. valid c s \<Longrightarrow> node_at c' s = (if s = r then n else node_at c s)"
    and len: "\<And>h. in_window c h \<Longrightarrow> length (nodes c' h) = length (nodes c h) \<and> lv_capacity (level c' h) = lv_capacity (level c h)"
    using set by (auto simp: set_node_def)
  show rel: "relinked c c'"
    using frame at len orphan n by (auto simp: relinked_def linked_def)
  have v: "valid c' s = valid c s" for s using relinked_valid [OF rel] .
  have rn: "node_at c' r = n" using at r(1) by simp
  show lr: "linked c' r" using r(1) n(1) rn by (simp add: linked_def v)
  show pr: "par c' r = p" using n(2) rn r(2) by (simp add: par_def prod_eq_iff)
  have min: "bc_min_height c' = bc_min_height c" "bc_max_height c' = bc_max_height c" "in_window c' = in_window c"
    using frame by (auto simp: same_frame_def same_frame_window)
  have "wf_node c' s" if "valid c' s" for s
  proof (cases "s = r")
    case True
    have "cn_score (node_at c p) = of_nat (fst p)" using linked_node [OF wf p] by simp
    then show ?thesis
      using True rn n r(2) pr relinked_linked [OF rel p] by (simp add: wf_node_def)
  next
    case False
    from that have vs: "valid c s" by (simp add: v)
    with wf have "wf_node c s" unfolding wf_tree_def by blast
    moreover have eq: "node_at c' s = node_at c s" using at [OF vs] False by simp
    moreover have "par c' s = par c s" by (simp add: par_def eq)
    ultimately show ?thesis using relinked_linked [OF rel] by (auto simp: wf_node_def min)
  qed
  moreover have "shape c'" using frame wf by (simp add: same_frame_def wf_tree_def)
  moreover have "\<forall>h. in_window c' h \<longrightarrow> length (nodes c' h) \<le> lv_capacity (level c' h)"
    using len wf by (auto simp: min wf_tree_def)
  moreover have "\<forall>h. in_window c' h \<and> bc_max_height c' < h \<longrightarrow> nodes c' h = []"
    using len wf by (metis length_0_conv min(2,3) wf_tree_def)
  ultimately show "wf_tree c'" using wf by (simp add: wf_tree_def min)
qed

text \<open>A node lies below another on its branch.\<close>

definition descends :: "blockchain \<Rightarrow> node_ref \<Rightarrow> node_ref \<Rightarrow> bool" where
  "descends c p r \<longleftrightarrow> linked c r \<and> fst p \<le> fst r \<and> (par c ^^ (fst r - fst p)) r = p"

lemma descends_relinked:
  assumes "wf_tree c" "relinked c c'" "descends c p r" "bc_min_height c \<le> fst p"
  shows "descends c' p r"
  using assms relinked_linked [OF assms(2)] grows_pow [OF assms(1) relinked_grows [OF assms(2)], of r "fst r - fst p"]
  by (auto simp: descends_def)

lemma descends_step:
  assumes "descends c r s" "fst r = Suc (fst p)" "par c r = p"
  shows "descends c p s"
proof -
  have "fst s - fst p = Suc (fst s - fst r)" using assms by (auto simp: descends_def)
  with assms show ?thesis by (auto simp: descends_def)
qed

lemma descends_root:
  assumes "descends c p r" "bc_min_height c \<le> fst p"
  shows "root c r = root c p"
proof -
  have "fst r - bc_min_height c = (fst p - bc_min_height c) + (fst r - fst p)"
    using assms by (auto simp: descends_def)
  moreover have "fst p \<le> fst r" "(par c ^^ (fst r - fst p)) r = p" using assms(1) by (auto simp: descends_def)
  ultimately show ?thesis unfolding root_def by (metis funpow_add comp_apply)
qed


subsection \<open>Comparing nodes and linking orphans\<close>

text \<open>What chainNodeMax needs: a bitmap that covers the node, an attack when it is an attacker.\<close>

definition attack_ok :: "env \<Rightarrow> node_id \<Rightarrow> bool" where
  "attack_ok env me \<longleftrightarrow> covered env me \<and> (attacker env me \<longrightarrow> ac_type (attackConfig env) \<noteq> ATTACK_NONE)"

lemma chainNodeMaxHonest_choice: "chainNodeMaxHonest a b = a \<or> chainNodeMaxHonest a b = b"
  by (simp add: chainNodeMaxHonest_def Let_def)

lemma catchup_tolerance_ok: "ac_type (attackConfig env) \<noteq> ATTACK_NONE \<Longrightarrow> \<exists>t. catchup_tolerance env = Inr t"
  by (simp add: catchup_tolerance_def split: attack_type.split)

lemma chainNodeMaxAttacker_choice:
  assumes "ac_type (attackConfig env) \<noteq> ATTACK_NONE"
  shows "\<exists>m. chainNodeMaxAttacker env a b = Inr m \<and> (m = a \<or> m = b)"
proof -
  from catchup_tolerance_ok [OF assms] obtain t where t: "catchup_tolerance env = Inr t" ..
  show ?thesis
  proof (cases "cn_ancestorsMined (snd a) = cn_ancestorsMined (snd b)")
    case True
    with chainNodeMaxHonest_choice [of a b] show ?thesis by (auto simp: chainNodeMaxAttacker_def simp del: split_paired_Ex)
  next
    case False
    obtain A B where AB: "(if cn_ancestorsMined (snd a) < cn_ancestorsMined (snd b) then (b, a) else (a, b)) = (A, B)"
      "A = a \<or> A = b" "B = a \<or> B = b" by (cases "cn_ancestorsMined (snd a) < cn_ancestorsMined (snd b)") auto
    have "chainNodeMaxAttacker env a b = Inr A \<or> chainNodeMaxAttacker env a b = Inr B"
      using False by (simp add: chainNodeMaxAttacker_def AB(1) t Let_def)
    with AB(2,3) show ?thesis by blast
  qed
qed

lemma chainNodeMax_choice:
  assumes "attack_ok env me"
  shows "\<exists>m. chainNodeMax env me a b = Inr m \<and> (m = a \<or> m = b)"
proof (cases "attacker env me")
  case True
  with assms chainNodeMaxAttacker_choice [of env a b] show ?thesis
    by (simp add: chainNodeMax_def attack_ok_def is_attacker_eq del: split_paired_Ex)
next
  case False
  with assms chainNodeMaxHonest_choice [of a b] show ?thesis
    by (auto simp: chainNodeMax_def attack_ok_def is_attacker_eq simp del: split_paired_Ex)
qed

lemma chainNodeMax_ref_ok:
  assumes "attack_ok env me" "shape c" "valid c r" "valid c s"
  shows "\<exists>m. chainNodeMax_ref env me c r s = Inr m \<and> (m = r \<or> m = s)"
  using chainNodeMax_choice [OF assms(1), of "(r, node_at c r)" "(s, node_at c s)"] assms
  by (auto simp: chainNodeMax_ref_def)

lemma link_child_simps [simp]:
  "\<not> isOrphan (link_child r p n)" "cn_parent (link_child r p n) = ParentIndex (snd r)"
  "cn_height (link_child r p n) = cn_height n" "cn_score (link_child r p n) = cn_score p + 1"
  "cn_miner (link_child r p n) = cn_miner n" "cn_transactionData (link_child r p n) = cn_transactionData n"
  "cn_timestamp (link_child r p n) = cn_timestamp n"
  by (simp_all add: link_child_def unOrphan_def isOrphan_def logical_not_def CHAIN_NODE_FLAG_ORPHAN_def)

definition best_below :: "blockchain \<Rightarrow> node_ref \<Rightarrow> node_ref option \<Rightarrow> nat \<Rightarrow> bool" where
  "best_below c p best oi \<longleftrightarrow> (\<forall>b. best = Some b \<longrightarrow> descends c p b \<and> fst p < fst b \<and> oi = snd b)"

lemma unorphanBlocks_ok:
  assumes att: "attack_ok env me"
  shows "wf_tree c \<Longrightarrow> linked c p \<Longrightarrow> bc_max_height c - fst p < fuel \<Longrightarrow>
    \<exists>c' best oi'. unorphanBlocks fuel env me p (Suc (fst p)) oi c = Inr (c', best, oi')
      \<and> wf_tree c' \<and> relinked c c' \<and> best_below c' p best oi'"
proof (induction fuel arbitrary: c p oi)
  case (Suc fuel)
  let ?ch = "Suc (fst p)"
  show ?case
  proof (cases "?ch > bc_max_height c")
    case True
    then show ?thesis using Suc.prems by (auto simp: best_below_def)
  next
    case False
    let ?n = "length (nodes c ?ch)"
    have win: "in_window c ?ch" and low: "bc_min_height c \<le> fst p"
      using False linked_window [OF Suc.prems(2)] Suc.prems(1) by (auto simp: in_window_def wf_tree_def)
    let ?J = "\<lambda>(c', best, oi). wf_tree c' \<and> relinked c c' \<and> best_below c' p best oi"
    define body where "body = (\<lambda>i (c, bestChild, orphan_index).
          let r = (?ch, i) in
          bindR (getChainNode c r) (\<lambda>orphanNode.
          if \<not> isOrphan orphanNode then Inr (c, bestChild, orphan_index)
          else bindR (parentMinerId orphanNode) (\<lambda>pm. bindR (getChainNode c p) (\<lambda>p'.
            if pm \<noteq> cn_miner p' then Inr (c, bestChild, orphan_index)
            else bindR (setChainNode c r (link_child p p' orphanNode)) (\<lambda>c.
              bindR (case bestChild of None \<Rightarrow> Inr (r, i)
                     | Some b \<Rightarrow> bindR (chainNodeMax_ref env me c b r) (\<lambda>m.
                         Inr (m, if m = r then i else orphan_index))) (\<lambda>(best, orphan_index).
              bindR (unorphanBlocks fuel env me r (?ch + 1) 0 c) (\<lambda>(c, aux, child_index).
                case aux of None \<Rightarrow> Inr (c, Some best, orphan_index)
                | Some a \<Rightarrow> bindR (chainNodeMax_ref env me c best a) (\<lambda>m.
                    Inr (c, Some m, if m = a then child_index else orphan_index)))))))))"
    have step: "\<exists>s'. body i s = Inr s' \<and> ?J s'" if i: "i \<in> set [0..<?n]" and J: "?J s" for i s
    proof -
      obtain c1 best oi1 where s: "s = (c1, best, oi1)" by (cases s) auto
      let ?r = "(?ch, i)"
      from J s have wf1: "wf_tree c1" and rel1: "relinked c c1" and bb1: "best_below c1 p best oi1" by auto
      have v: "valid c1 ?r"
        unfolding relinked_valid [OF rel1] using i win by (simp add: valid_def)
      have p1: "linked c1 p" using relinked_linked [OF rel1 Suc.prems(2)] .
      have min1: "bc_min_height c1 = bc_min_height c" "bc_max_height c1 = bc_max_height c"
        using rel1 by (auto simp: relinked_def same_frame_def)
      note sh = wf_tree_shape [OF wf1]
      have g: "getChainNode c1 ?r = Inr (node_at c1 ?r)" "getChainNode c1 p = Inr (node_at c1 p)"
        using sh v linked_valid [OF p1] by simp_all
      show ?thesis
      proof (cases "isOrphan (node_at c1 ?r)")
        case False
        then show ?thesis using g J by (simp add: body_def s)
      next
        case orphan: True
        with wf_tree_node [OF wf1 v] obtain pm where pm: "cn_parent (node_at c1 ?r) = ParentMiner pm"
          by (auto simp: wf_node_def)
        show ?thesis
        proof (cases "pm = cn_miner (node_at c1 p)")
          case False
          then show ?thesis using g J orphan pm by (simp add: body_def s parentMinerId_def)
        next
          case True
          let ?new = "link_child p (node_at c1 p) (node_at c1 ?r)"
          from setChainNode_ok [OF sh v, of ?new] obtain c2 where
            c2: "setChainNode c1 ?r ?new = Inr c2" "set_node c1 ?r ?new c2" by blast
          have "cn_height (node_at c1 ?r) = fst ?r" using wf_tree_node [OF wf1 v] by (simp add: wf_node_def)
          note l = link_ok [OF wf1 p1 v _ orphan _ _ _ _ _ _ _ c2(2)]
          have wf2: "wf_tree c2" and rel2: "relinked c1 c2" and lr: "linked c2 ?r" and pr: "par c2 ?r = p"
            using l \<open>cn_height (node_at c1 ?r) = fst ?r\<close> by simp_all
          note sh2 = wf_tree_shape [OF wf2]
          have d1: "descends c2 p ?r" using lr pr by (simp add: descends_def)
          have bb2: "descends c2 p b \<and> fst p < fst b \<and> oi1 = snd b" if "best = Some b" for b
            using bb1 that descends_relinked [OF wf1 rel2, of p b] low min1 by (auto simp: best_below_def)
          have "\<exists>b oi2. (case best of None \<Rightarrow> Inr (?r, i)
                     | Some b \<Rightarrow> bindR (chainNodeMax_ref env me c2 b ?r) (\<lambda>m.
                         Inr (m, if m = ?r then i else oi1))) = Inr (b, oi2)
              \<and> descends c2 p b \<and> fst p < fst b \<and> oi2 = snd b"
          proof (cases best)
            case None
            with d1 show ?thesis by simp
          next
            case (Some b)
            from bb2 [OF Some] have "valid c2 b" by (auto simp: descends_def linked_def)
            from chainNodeMax_ref_ok [OF att sh2 this linked_valid [OF lr]] obtain m where
              "chainNodeMax_ref env me c2 b ?r = Inr m" "m = b \<or> m = ?r" by blast
            with Some bb2 [OF Some] d1 show ?thesis by auto
          qed
          then obtain b oi2 where b: "(case best of None \<Rightarrow> Inr (?r, i)
                     | Some b \<Rightarrow> bindR (chainNodeMax_ref env me c2 b ?r) (\<lambda>m.
                         Inr (m, if m = ?r then i else oi1))) = Inr (b, oi2)"
              "descends c2 p b" "fst p < fst b" "oi2 = snd b" by blast
          have max2: "bc_max_height c2 = bc_max_height c" "bc_min_height c2 = bc_min_height c"
            using rel2 min1 by (auto simp: relinked_def same_frame_def)
          have "bc_max_height c2 - fst ?r < fuel" using Suc.prems(3) \<open>\<not> ?ch > bc_max_height c\<close> by (simp add: max2)
          from Suc.IH [OF wf2 lr this, of 0] obtain c3 aux ci where
            c3: "unorphanBlocks fuel env me ?r (?ch + 1) 0 c2 = Inr (c3, aux, ci)" "wf_tree c3" "relinked c2 c3"
              "best_below c3 ?r aux ci" by auto
          have rel3: "relinked c c3" using rel1 rel2 c3(3) relinked_trans by blast
          have b3: "descends c3 p b" using descends_relinked [OF wf2 c3(3) b(2)] low max2 by simp
          show ?thesis
          proof (cases aux)
            case None
            then have "body i s = Inr (c3, Some b, oi2)"
              using g orphan pm True c2(1) b(1) c3(1) by (simp add: body_def s parentMinerId_def)
            with c3(2) rel3 b3 b(3,4) show ?thesis by (auto simp: best_below_def)
          next
            case (Some a)
            with c3(4) have a: "descends c3 ?r a" "fst ?r < fst a" "ci = snd a" by (auto simp: best_below_def)
            have "par c3 ?r = p" using grows_par [OF relinked_grows [OF c3(3)] lr] pr by simp
            then have pa: "descends c3 p a" using descends_step [OF a(1), of p] by simp
            from chainNodeMax_ref_ok [OF att wf_tree_shape [OF c3(2)], of b a] b3 a(1) obtain m where
              m: "chainNodeMax_ref env me c3 b a = Inr m" "m = b \<or> m = a" by (auto simp: descends_def linked_def)
            then have "body i s = Inr (c3, Some m, if m = a then ci else oi2)"
              using g orphan pm True c2(1) b(1) c3(1) Some by (simp add: body_def s parentMinerId_def)
            moreover have "best_below c3 p (Some m) (if m = a then ci else oi2)"
              using m(2) pa b3 a b(3,4) by (auto simp: best_below_def)
            ultimately show ?thesis using c3(2) rel3 by auto
          qed
        qed
      qed
    qed
    have "?J (c, None, oi)" using Suc.prems by (simp add: best_below_def)
    from foldR_total [of "[0..<?n]" ?J body, OF step this] obtain c' best oi' where
      fold: "foldR body [0..<?n] (c, None, oi) = Inr (c', best, oi')" "?J (c', best, oi')" by auto
    have "unorphanBlocks (Suc fuel) env me p ?ch oi c = foldR body [0..<?n] (c, None, oi)"
      using False win wf_tree_shape [OF Suc.prems(1)] by (simp add: body_def nodes_def Let_def)
    with fold show ?thesis by auto
  qed
qed simp


lemma unorphanBlocks_none:
  assumes wf: "wf_tree c" and p: "linked c p" and
    no: "\<forall>s. valid c s \<and> fst s = Suc (fst p) \<and> isOrphan (node_at c s)
      \<longrightarrow> cn_parent (node_at c s) \<noteq> ParentMiner (cn_miner (node_at c p))"
  shows "unorphanBlocks (Suc fuel) env me p (Suc (fst p)) oi c = Inr (c, None, oi)"
proof (cases "Suc (fst p) > bc_max_height c")
  case False
  have win: "in_window c (Suc (fst p))"
    using False linked_window [OF p] wf by (auto simp: in_window_def wf_tree_def)
  note sh = wf_tree_shape [OF wf]
  have node: "getChainNode c (Suc (fst p), i) = Inr (node_at c (Suc (fst p), i))
      \<and> (\<not> isOrphan (node_at c (Suc (fst p), i))
         \<or> (\<exists>m. parentMinerId (node_at c (Suc (fst p), i)) = Inr m \<and> m \<noteq> cn_miner (node_at c p)))"
    if "i < length (nodes c (Suc (fst p)))" for i
  proof -
    from that win have v: "valid c (Suc (fst p), i)" by (simp add: valid_def)
    have "\<exists>m. parentMinerId (node_at c (Suc (fst p), i)) = Inr m \<and> m \<noteq> cn_miner (node_at c p)"
      if "isOrphan (node_at c (Suc (fst p), i))"
    proof -
      from that wf_tree_node [OF wf v] obtain m where "cn_parent (node_at c (Suc (fst p), i)) = ParentMiner m"
        by (auto simp: wf_node_def)
      with no v that show ?thesis by (auto simp: parentMinerId_def)
    qed
    with v sh show ?thesis by auto
  qed
  have pn: "getChainNode c p = Inr (node_at c p)" using sh linked_valid [OF p] by simp
  show ?thesis
    unfolding unorphanBlocks.simps using False win sh
    by (simp add: nodes_def [symmetric]) (rule foldR_id, use node pn in \<open>fastforce simp: Let_def\<close>)
qed simp

subsection \<open>Making room\<close>

text \<open>The block fits in the window, if need be after one move that keeps the main chain in it.\<close>

definition movable :: "blockchain \<Rightarrow> nat \<Rightarrow> bool" where
  "movable c h \<longleftrightarrow> h < bc_min_height c + 2 * DEPTH_TO_KEEP
     \<or> (bc_min_height c + DEPTH_TO_KEEP \<le> bc_height c \<and> h < bc_min_height c + 3 * DEPTH_TO_KEEP)"

lemma moveChainForward_access:
  assumes "shape c"
  defines "c' \<equiv> moveChainForward c"
  shows "shape c'" "bc_min_height c' = bc_min_height c + DEPTH_TO_KEEP" "bc_max_height c' = bc_max_height c"
    "getMainChain c' = getMainChain c"
    "in_window c' h \<Longrightarrow> h < bc_min_height c + 2 * DEPTH_TO_KEEP \<Longrightarrow> level c' h = level c h"
    "in_window c' h \<Longrightarrow> bc_min_height c + 2 * DEPTH_TO_KEEP \<le> h \<Longrightarrow> nodes c' h = []"
  using assms(1)
  by (auto simp: c'_def moveChainForward_def Let_def shape_def getMainChain_def level_def nodes_def in_window_def
      resetLevels_def nth_append)

text \<open>What making room keeps: every node of the new window.\<close>

definition window_moved :: "blockchain \<Rightarrow> blockchain \<Rightarrow> bool" where
  "window_moved c c' \<longleftrightarrow> bc_min_height c \<le> bc_min_height c' \<and> bc_min_height c' \<le> bc_height c
     \<and> getMainChain c' = getMainChain c
     \<and> (\<forall>s. valid c' s \<longleftrightarrow> valid c s \<and> bc_min_height c' \<le> fst s) \<and> (\<forall>s. valid c' s \<longrightarrow> node_at c' s = node_at c s)"

lemma prepareChain_ok:
  assumes wf: "wf_chain c" and h: "movable c h"
  defines "c' \<equiv> prepareChain c h"
  shows "wf_chain c'" "window_moved c c'" "h \<le> bc_max_height c'"
proof -
  from wf have tree: "wf_tree c" and main: "linked c (getMainChain c)" by (auto simp: wf_chain_def)
  note sh = wf_tree_shape [OF tree]
  have le: "bc_min_height c \<le> bc_height c" "bc_height c < bc_min_height c + 2 * DEPTH_TO_KEEP"
    using linked_window [OF main] by (auto simp: in_window_def getMainChain_def)
  consider (old) "h \<le> bc_max_height c" | (room) "bc_max_height c < h" "h < bc_min_height c + 2 * DEPTH_TO_KEEP"
    | (move) "bc_max_height c < h" "bc_min_height c + 2 * DEPTH_TO_KEEP \<le> h" by linarith
  then have "wf_chain c' \<and> window_moved c c' \<and> h \<le> bc_max_height c'"
  proof cases
    case old
    then have "c' = c" by (simp add: c'_def prepareChain_def)
    with wf old le show ?thesis by (auto simp: window_moved_def valid_def in_window_def)
  next
    case room
    then have c': "c' = c\<lparr>bc_max_height := h\<rparr>" by (simp add: c'_def prepareChain_def Let_def)
    have [simp]: "par c' = par c" "linked c' = linked c" "getMainChain c' = getMainChain c"
      by (auto simp: c' fun_eq_iff par_def linked_def getMainChain_def)
    have "wf_node c' s = wf_node c s" for s by (simp add: wf_node_def) (simp add: c')
    with tree room have "wf_tree c'" unfolding wf_tree_def by (auto simp: c')
    moreover from main have "linked c' (getMainChain c')" by simp
    moreover have "window_moved c c'"
      using le by (auto simp: window_moved_def c' getMainChain_def) (auto simp: valid_def in_window_def)
    ultimately show ?thesis by (simp add: wf_chain_def) (simp add: c')
  next
    case move
    let ?c = "c\<lparr>bc_max_height := h\<rparr>"
    have c': "c' = moveChainForward ?c" using move by (simp add: c'_def prepareChain_def Let_def)
    have "shape ?c" using sh by simp
    note m = moveChainForward_access [OF this, folded c']
    have room: "bc_min_height c + DEPTH_TO_KEEP \<le> bc_height c" "h < bc_min_height c + 3 * DEPTH_TO_KEEP"
      using h move by (auto simp: movable_def)
    have min: "bc_min_height c' = bc_min_height c + DEPTH_TO_KEEP" "bc_max_height c' = h" using m(2,3) by simp_all
    have nodes: "nodes c' k = (if k < bc_min_height c + 2 * DEPTH_TO_KEEP then nodes c k else [])" if "in_window c' k" for k
      using that m(5,6) [of k] by (auto simp: nodes_def)
    have v: "valid c' s \<longleftrightarrow> valid c s \<and> bc_min_height c' \<le> fst s" for s
    proof (cases "in_window c' (fst s)")
      case True
      then show ?thesis using nodes [OF True] by (auto simp: valid_def in_window_def min)
    next
      case False
      then show ?thesis by (auto simp: valid_def in_window_def min)
    qed
    have at: "node_at c' s = node_at c s" if "valid c' s" for s
      using nodes [of "fst s"] that v [of s] by (auto simp: node_at_def valid_def in_window_def)
    have gm: "getMainChain c' = getMainChain c" using m(4) by (simp add: getMainChain_def)
    have wm: "window_moved c c'" using v at room by (simp add: window_moved_def min gm)
    have lk: "linked c' s" if "linked c s" "bc_min_height c' \<le> fst s" for s
      using that v at by (simp add: linked_def)
    have "wf_node c' s" if "valid c' s" for s
    proof -
      from that v have s: "valid c s" "bc_min_height c' \<le> fst s" by auto
      have "par c' s = par c s" by (simp add: par_def at [OF that])
      moreover have "linked c' (par c s)" if "linked c (par c s)" "bc_min_height c' < fst s"
        using that by (intro lk) auto
      ultimately show ?thesis using wf_tree_node [OF tree s(1)] at [OF that] min by (auto simp: wf_node_def)
    qed
    moreover have "nodes c' k = []" if "in_window c' k" "h < k" for k
    proof (cases "k < bc_min_height c + 2 * DEPTH_TO_KEEP")
      case True
      with that move show ?thesis by simp
    qed (use nodes that in simp)
    moreover have "length (nodes c' k) \<le> lv_capacity (level c' k)" if "in_window c' k" for k
    proof (cases "k < bc_min_height c + 2 * DEPTH_TO_KEEP")
      case True
      with that have "in_window c k" by (auto simp: in_window_def min)
      then have "length (nodes c k) \<le> lv_capacity (level c k)" using tree by (simp add: wf_tree_def)
      moreover have "level c' k = level c k" using m(5) [OF that] True by simp
      ultimately show ?thesis by (simp add: nodes_def)
    qed (use m(6) [OF that] in simp)
    ultimately have "wf_tree c'" using m(1) room min by (auto simp: wf_tree_def)
    moreover have "linked c' (getMainChain c')" using lk [OF main] room by (simp add: gm min) (simp add: getMainChain_def)
    ultimately show ?thesis using wm min by (simp add: wf_chain_def)
  qed
  then show "wf_chain c'" "window_moved c c'" "h \<le> bc_max_height c'" by auto
qed

text \<open>The blocks of the main chain that leave the window.\<close>

definition dropped :: "blockchain \<Rightarrow> blockchain \<Rightarrow> chain_node list" where
  "dropped c c' = map (node_at c) (branch c ((par c ^^ (bc_height c - bc_min_height c')) (getMainChain c)))"

lemma branch_moved:
  assumes wf: "wf_chain c" and wm: "window_moved c c'"
  shows "map (node_at c) (branch c (getMainChain c)) = dropped c c' @ map (node_at c') (branch c' (getMainChain c'))"
proof -
  let ?m = "getMainChain c" and ?k = "bc_height c - bc_min_height c'"
  from wf have tree: "wf_tree c" and main: "linked c ?m" by (auto simp: wf_chain_def)
  have H: "fst ?m = bc_height c" by (simp add: getMainChain_def)
  have le: "bc_min_height c \<le> bc_min_height c'" "bc_min_height c' \<le> bc_height c" "getMainChain c' = ?m"
    using wm by (auto simp: window_moved_def)
  have in': "valid c' ((par c ^^ j) ?m)" if "j \<le> ?k" for j
  proof -
    have "linked c ((par c ^^ j) ?m)" using linked_pow [OF tree main] that le H by simp
    moreover have "bc_min_height c' \<le> fst ((par c ^^ j) ?m)" using that le H by simp
    moreover have "valid c' s \<longleftrightarrow> valid c s \<and> bc_min_height c' \<le> fst s" for s using wm unfolding window_moved_def by blast
    ultimately show ?thesis by (simp add: linked_def)
  qed
  have at: "node_at c' ((par c ^^ j) ?m) = node_at c ((par c ^^ j) ?m)" if "j \<le> ?k" for j
    using wm in' [OF that] unfolding window_moved_def by blast
  then have "ancs c' ?k ?m = ancs c ?k ?m" by (intro ancs_cong) (simp add: par_def)
  moreover have "?k \<le> fst ?m - bc_min_height c" using le H by simp
  moreover have "map (node_at c') (ancs c ?k ?m) = map (node_at c) (ancs c ?k ?m)" using at by (simp add: ancs_def)
  ultimately show ?thesis
    using branch_split [of ?k ?m c] le H by (simp add: dropped_def branch_def rev_map [symmetric])
qed


subsection \<open>Adding a node\<close>

text \<open>One node more, at the end of its level.\<close>

definition inserted :: "blockchain \<Rightarrow> node_ref \<Rightarrow> chain_node \<Rightarrow> blockchain \<Rightarrow> bool" where
  "inserted c r n c' \<longleftrightarrow> same_frame c c' \<and> in_window c (fst r) \<and> snd r = length (nodes c (fst r))
     \<and> (\<forall>k. in_window c k \<longrightarrow> length (nodes c' k) = length (nodes c k) + (if k = fst r then 1 else 0)
          \<and> length (nodes c' k) \<le> lv_capacity (level c' k))
     \<and> (\<forall>s. valid c s \<longrightarrow> node_at c' s = node_at c s) \<and> node_at c' r = n"

lemma inserted_valid: "inserted c r n c' \<Longrightarrow> valid c' s \<longleftrightarrow> valid c s \<or> s = r"
proof -
  assume i: "inserted c r n c'"
  then have "in_window c' = in_window c" "snd r = length (nodes c (fst r))" "in_window c (fst r)"
    "\<And>k. in_window c k \<Longrightarrow> length (nodes c' k) = length (nodes c k) + (if k = fst r then 1 else 0)"
    unfolding inserted_def using same_frame_window by blast+
  then show ?thesis unfolding valid_def prod_eq_iff by (cases "fst s = fst r") auto
qed

lemma inserted_node:
  assumes "inserted c r n c'"
  shows "valid c s \<Longrightarrow> node_at c' s = node_at c s" "node_at c' r = n"
  using assms unfolding inserted_def by blast+

lemma inserted_grows:
  assumes "inserted c r n c'"
  shows "grows c c'"
  using assms inserted_valid [OF assms] inserted_node [OF assms] unfolding grows_def linked_def
  by (simp add: inserted_def)

lemma insert_wf:
  assumes wf: "wf_tree c" and ins: "inserted c r n c'" and r: "fst r \<le> bc_max_height c" "bc_min_height c < fst r"
    and n: "cn_height n = fst r"
      "(isOrphan n \<and> (\<exists>m. cn_parent n = ParentMiner m)) \<or>
       (\<not> isOrphan n \<and> (\<exists>i. cn_parent n = ParentIndex i \<and> linked c (fst r - 1, i)) \<and> cn_score n = of_nat (fst r))"
  shows "wf_tree c'"
proof -
  note v = inserted_valid [OF ins] and g = inserted_grows [OF ins]
  note fr = grows_frame [OF g]
  have at: "node_at c' s = node_at c s" if "valid c s" for s using ins that unfolding inserted_def by blast
  have rn: "node_at c' r = n" using ins by (simp add: inserted_def)
  have "wf_node c' s" if "valid c' s" for s
  proof (cases "valid c s")
    case True
    have "par c' s = par c s" by (simp add: par_def at [OF True])
    with wf_tree_node [OF wf True] at [OF True] grows_node(1) [OF g] show ?thesis
      by (auto simp: wf_node_def fr)
  next
    case False
    with that v have s: "s = r" by blast
    have "linked c' (par c' r)" if "cn_parent n = ParentIndex i" "linked c (fst r - 1, i)" for i
      using grows_node(1) [OF g that(2)] that(1) by (simp add: par_def rn)
    with n show ?thesis by (auto simp: wf_node_def s rn)
  qed
  moreover have "nodes c' k = []" if "in_window c' k" "bc_max_height c' < k" for k
  proof -
    from that fr r have "in_window c k" "bc_max_height c < k" "k \<noteq> fst r" by auto
    moreover from this wf have "nodes c k = []" unfolding wf_tree_def by blast
    ultimately have "length (nodes c' k) = 0" using ins by (simp add: inserted_def)
    then show ?thesis by simp
  qed
  moreover have "shape c'" "\<forall>k. in_window c' k \<longrightarrow> length (nodes c' k) \<le> lv_capacity (level c' k)"
    using wf ins fr by (auto simp: inserted_def same_frame_def wf_tree_def)
  ultimately show ?thesis using wf by (simp add: wf_tree_def fr)
qed

lemma append_ok:
  assumes wf: "wf_tree c" and h: "in_window c h" and n: "cn_height n = h"
  shows "\<exists>l c'. appendNode (growLevel (level c h)) n = Inr l \<and> setChainLevel c h l = Inr c'
     \<and> inserted c (h, length (nodes c h)) n c' \<and> (\<forall>k. in_window c k \<and> k \<noteq> h \<longrightarrow> level c' k = level c k)"
proof -
  have cap: "length (nodes c k) \<le> lv_capacity (level c k)" if "in_window c k" for k
    using wf that by (simp add: wf_tree_def)
  let ?l = "(growLevel (level c h))\<lparr>lv_nodes := nodes c h @ [n]\<rparr>"
  have l: "appendNode (growLevel (level c h)) n = Inr ?l" "length (nodes c h @ [n]) \<le> lv_capacity ?l"
    using cap [OF h] by (auto simp: appendNode_def growLevel_def nodes_def)
  from setChainLevel_ok [OF wf_tree_shape [OF wf] h, of ?l] obtain c' where
    c': "setChainLevel c h ?l = Inr c'" "same_frame c c'"
      "\<forall>k. in_window c k \<longrightarrow> level c' k = (if k = h then ?l else level c k)" by blast
  have nodes: "nodes c' k = (if k = h then nodes c h @ [n] else nodes c k)" if "in_window c k" for k
    using c'(3) that by (simp add: nodes_def)
  have "inserted c (h, length (nodes c h)) n c'"
    unfolding inserted_def
  proof (intro conjI allI impI)
    show "length (nodes c' k) = length (nodes c k) + (if k = fst (h, length (nodes c h)) then 1 else 0)"
      "length (nodes c' k) \<le> lv_capacity (level c' k)" if "in_window c k" for k
      using nodes [OF that] c'(3) l(2) cap [OF that] that by auto
    show "node_at c' s = node_at c s" if "valid c s" for s
      using that nodes [of "fst s"] by (auto simp: valid_def node_at_def nth_append)
    show "node_at c' (h, length (nodes c h)) = n" using nodes [OF h] by (simp add: node_at_def)
  qed (use c'(2) h in auto)
  with l(1) c'(1,3) show ?thesis by auto
qed

text \<open>Writing the new node again keeps it the only change.\<close>

lemma inserted_set:
  assumes "inserted c r n c1" "set_node c1 r n' c2"
  shows "inserted c r n' c2"
proof -
  have v: "valid c1 s \<longleftrightarrow> valid c s \<or> s = r" for s using inserted_valid [OF assms(1)] .
  have f1: "same_frame c c1" using assms(1) by (simp add: inserted_def)
  have f2: "same_frame c1 c2" using assms(2) by (simp add: set_node_def)
  have nr: "\<not> valid c r" using assms(1) by (simp add: inserted_def valid_def)
  have at: "node_at c2 s = (if s = r then n' else node_at c1 s)" if "valid c1 s" for s
    using assms(2) that unfolding set_node_def by blast
  show ?thesis
    unfolding inserted_def
  proof (intro conjI allI impI)
    show "node_at c2 s = node_at c s" if "valid c s" for s
    proof -
      have "node_at c2 s = node_at c1 s" using at [of s] that nr v by auto
      with inserted_node(1) [OF assms(1) that] show ?thesis by simp
    qed
    show "node_at c2 r = n'" using at [of r] v by simp
    show "length (nodes c2 k) = length (nodes c k) + (if k = fst r then 1 else 0)"
      "length (nodes c2 k) \<le> lv_capacity (level c2 k)" if "in_window c k" for k
    proof -
      from assms(1) that have 1: "length (nodes c1 k) = length (nodes c k) + (if k = fst r then 1 else 0)"
        "length (nodes c1 k) \<le> lv_capacity (level c1 k)" unfolding inserted_def by blast+
      from assms(2) that same_frame_window [OF f1] have "length (nodes c2 k) = length (nodes c1 k)"
        "lv_capacity (level c2 k) = lv_capacity (level c1 k)" unfolding set_node_def by auto
      with 1 show "length (nodes c2 k) = length (nodes c k) + (if k = fst r then 1 else 0)"
        "length (nodes c2 k) \<le> lv_capacity (level c2 k)" by simp_all
    qed
  qed (use f1 f2 assms(1) same_frame_trans in \<open>auto simp: inserted_def\<close>)
qed

lemma find_miner_Some:
  "find_miner m i ns = Some j \<Longrightarrow> i \<le> j \<and> j - i < length ns \<and> cn_miner (ns ! (j - i)) = m
     \<and> (\<forall>k<j - i. cn_miner (ns ! k) \<noteq> m)"
proof (induction m i ns rule: find_miner.induct)
  case (2 m i n ns)
  show ?case
  proof (cases "cn_miner n = m")
    case False
    with 2 have IH: "Suc i \<le> j \<and> j - Suc i < length ns \<and> cn_miner (ns ! (j - Suc i)) = m
       \<and> (\<forall>k<j - Suc i. cn_miner (ns ! k) \<noteq> m)" by simp
    then have j: "j - i = Suc (j - Suc i)" by linarith
    have "cn_miner ((n # ns) ! k) \<noteq> m" if "k < Suc (j - Suc i)" for k
      using that IH False by (cases k) auto
    with IH j show ?thesis by simp
  qed (use 2 in auto)
qed simp

lemma find_miner_None: "find_miner m i ns = None \<longleftrightarrow> (\<forall>n\<in>set ns. cn_miner n \<noteq> m)"
  by (induction m i ns rule: find_miner.induct) auto

lemma linkToParent_ok:
  assumes wf: "wf_tree c" and ins: "inserted c r n c1" and r: "bc_min_height c < fst r" "fst r \<le> bc_max_height c"
    and lev: "\<forall>k. in_window c k \<and> k \<noteq> fst r \<longrightarrow> level c1 k = level c k"
    and n: "cn_parent n = ParentMiner pm" "cn_height n = fst r" "\<not> isOrphan n"
  shows "(linkToParent r n c1 = Inr (c1, False)
           \<and> (\<forall>p. linked c p \<and> fst p = fst r - 1 \<and> cn_miner (node_at c p) = pm
                \<longrightarrow> (\<exists>i. i < snd p \<and> cn_miner (node_at c (fst p, i)) = pm \<and> isOrphan (node_at c (fst p, i)))))
     \<or> (\<exists>c2 p n2. linkToParent r n c1 = Inr (c2, True) \<and> linked c p \<and> fst p = fst r - 1
           \<and> cn_miner (node_at c p) = pm \<and> inserted c r n2 c2 \<and> wf_tree c2 \<and> linked c2 r \<and> par c2 r = p
           \<and> cn_miner n2 = cn_miner n \<and> cn_transactionData n2 = cn_transactionData n \<and> cn_timestamp n2 = cn_timestamp n
           \<and> cn_ancestorsMined n2 = cn_ancestorsMined (node_at c p))"
proof -
  let ?h = "fst r - 1"
  note sh = wf_tree_shape [OF wf]
  have fr: "same_frame c c1" using ins by (simp add: inserted_def)
  have win: "in_window c ?h" "?h \<noteq> fst r" using ins r by (auto simp: inserted_def in_window_def)
  have sh1: "shape c1" using fr sh by (simp add: same_frame_def)
  have l: "getChainLevel c1 ?h = Inr (level c ?h)"
    using lev win sh1 fr by (simp add: same_frame_window)
  have pred: "pred_height (fst r) = Inr ?h" using r by (simp add: pred_height_def)
  show ?thesis
  proof (cases "find_miner pm 0 (nodes c ?h)")
    case None
    then have none: "\<forall>n\<in>set (nodes c ?h). cn_miner n \<noteq> pm" by (simp add: find_miner_None)
    have "linkToParent r n c1 = Inr (c1, False)"
      using None pred l n by (simp add: linkToParent_def parentMinerId_def nodes_def)
    moreover have "False" if "linked c p" "fst p = ?h" "cn_miner (node_at c p) = pm" for p
      using none that by (auto simp: linked_def valid_def node_at_def)
    ultimately show ?thesis by blast
  next
    case (Some i)
    from find_miner_Some [OF Some] have i: "i < length (nodes c ?h)" "cn_miner (nodes c ?h ! i) = pm"
      "\<forall>k<i. cn_miner (nodes c ?h ! k) \<noteq> pm" by simp_all
    have vp: "valid c (?h, i)" using i win by (simp add: valid_def)
    let ?p = "nodes c ?h ! i"
    have run: "linkToParent r n c1 = (if isOrphan ?p then Inr (c1, False)
         else bindR (setChainNode c1 r (n\<lparr>cn_parent := ParentIndex i,
                cn_ancestorsMined := cn_ancestorsMined ?p, cn_score := cn_score ?p + 1\<rparr>)) (\<lambda>c. Inr (c, True)))"
      using Some pred l n i by (simp add: linkToParent_def parentMinerId_def nodes_def)
    show ?thesis
    proof (cases "isOrphan ?p")
      case True
      have "\<exists>j. j < snd p \<and> cn_miner (node_at c (fst p, j)) = pm \<and> isOrphan (node_at c (fst p, j))"
        if "linked c p" "fst p = ?h" "cn_miner (node_at c p) = pm" for p
      proof (intro exI conjI)
        have "\<not> snd p < i" using i(3) that by (auto simp: node_at_def)
        moreover have "snd p \<noteq> i" using that True by (auto simp: linked_def node_at_def)
        ultimately show "i < snd p" by simp
      qed (use i that True in \<open>auto simp: node_at_def\<close>)
      with run True show ?thesis by auto
    next
      case False
      let ?n = "n\<lparr>cn_parent := ParentIndex i, cn_ancestorsMined := cn_ancestorsMined ?p, cn_score := cn_score ?p + 1\<rparr>"
      have lp: "linked c (?h, i)" using vp False by (simp add: linked_def node_at_def)
      have "valid c1 r" using inserted_valid [OF ins] by blast
      from setChainNode_ok [OF sh1 this, of ?n] obtain c2 where
        c2: "setChainNode c1 r ?n = Inr c2" "set_node c1 r ?n c2" by blast
      have ins2: "inserted c r ?n c2" by (rule inserted_set [OF ins c2(2)])
      have sc: "cn_score ?p = of_nat ?h" using linked_node(2) [OF wf lp] by (simp add: node_at_def)
      have no: "\<not> isOrphan ?n" using n(3) by (simp add: isOrphan_def)
      have "of_nat ?h + (1 :: u32) = of_nat (fst r)" using r by (metis Suc_pred' add.commute gr_implies_not0 neq0_conv of_nat_Suc)
      then have wf2: "wf_tree c2"
        using no lp sc n by (intro insert_wf [OF wf ins2 r(2,1)]) auto
      have rn: "node_at c2 r = ?n" using ins2 by (simp add: inserted_def)
      have "linked c2 r" using inserted_valid [OF ins2] no by (auto simp: linked_def rn)
      moreover have "par c2 r = (?h, i)" by (simp add: par_def rn)
      moreover have "linkToParent r n c1 = Inr (c2, True)" using run False c2(1) by simp
      moreover have "cn_miner (node_at c (?h, i)) = pm" "cn_ancestorsMined ?n = cn_ancestorsMined (node_at c (?h, i))"
        using i by (simp_all add: node_at_def)
      ultimately show ?thesis using lp ins2 wf2
        by (intro disjI2 exI [of _ c2] exI [of _ "(?h, i)"] exI [of _ ?n]) simp
    qed
  qed
qed


subsection \<open>The effect of addBlock\<close>

text \<open>
  What addBlock leads to: either the new node waits as an orphan and nothing else changes,
  or it is linked and, with the orphans below it linked too, the best node m among it and
  its descendants is offered to maybeSwitchChains.
\<close>

definition block_added :: "blockchain \<Rightarrow> block \<Rightarrow> simtime \<Rightarrow> blockchain \<Rightarrow> node_ref \<Rightarrow> bool" where
  "block_added c b now c' r \<longleftrightarrow> wf_tree c' \<and> grows c c' \<and> fst r = bk_height b \<and> \<not> valid c r
     \<and> (\<forall>s. valid c' s \<longleftrightarrow> valid c s \<or> s = r)
     \<and> (\<forall>s. valid c s \<longrightarrow> cn_miner (node_at c' s) = cn_miner (node_at c s)
          \<and> cn_transactionData (node_at c' s) = cn_transactionData (node_at c s))
     \<and> cn_miner (node_at c' r) = bk_miner b \<and> cn_timestamp (node_at c' r) = now
     \<and> (\<exists>td. copyTransactionData (bk_transactionData b) = Inr td \<and> cn_transactionData (node_at c' r) = Some td)"

text \<open>No orphan waits for the block.\<close>

definition no_child :: "blockchain \<Rightarrow> block \<Rightarrow> bool" where
  "no_child c b \<longleftrightarrow> (\<forall>s. valid c s \<and> fst s = Suc (bk_height b) \<and> isOrphan (node_at c s)
     \<longrightarrow> cn_parent (node_at c s) \<noteq> ParentMiner (bk_miner b))"

lemma no_childD: "no_child c b \<Longrightarrow> valid c s \<Longrightarrow> fst s = Suc (bk_height b) \<Longrightarrow> isOrphan (node_at c s)
    \<Longrightarrow> cn_parent (node_at c s) \<noteq> ParentMiner (bk_miner b)"
  unfolding no_child_def by blast

lemma addBlock_run:
  assumes wf: "wf_chain c" and att: "attack_ok env me" and mv: "movable c (bk_height b)"
    and low: "bc_min_height (prepareChain c (bk_height b)) < bk_height b"
    and td: "copyTransactionData (bk_transactionData b) = Inr td"
  defines "c0 \<equiv> prepareChain c (bk_height b)"
  shows "\<exists>c' r. block_added c0 b now c' r
     \<and> (addBlock env me now b (c, e) = Inr ((c', e), r) \<and> isOrphan (node_at c' r)
          \<and> (\<forall>p. linked c0 p \<and> fst p = bk_height b - 1 \<and> cn_miner (node_at c0 p) = bk_prevBlockMiner b
               \<longrightarrow> (\<exists>i. i < snd p \<and> cn_miner (node_at c0 (fst p, i)) = bk_prevBlockMiner b \<and> isOrphan (node_at c0 (fst p, i))))
      \<or> (\<exists>p m. linked c0 p \<and> fst p = bk_height b - 1 \<and> cn_miner (node_at c0 p) = bk_prevBlockMiner b
          \<and> descends c' p r \<and> descends c' r m
          \<and> cn_ancestorsMined (node_at c' r) = cn_ancestorsMined (node_at c0 p)
          \<and> (no_child c0 b \<longrightarrow> m = r)
          \<and> addBlock env me now b (c, e) = bindR (maybeSwitchChains env me m (snd m) (c', e)) (\<lambda>v. Inr (v, r))))"
proof -
  let ?h = "bk_height b"
  note p0 = prepareChain_ok [OF wf mv, folded c0_def]
  from p0(1) have tree: "wf_tree c0" by (simp add: wf_chain_def)
  have win: "in_window c0 ?h" using low p0(3) tree by (auto simp: in_window_def wf_tree_def c0_def)
  define n where "n = \<lparr>cn_parent = ParentMiner (bk_prevBlockMiner b), cn_transactionData = Some td,
     cn_timestamp = now, cn_miner = bk_miner b, cn_height = ?h, cn_score = 0, cn_flags = 0, cn_ancestorsMined = 0\<rparr>"
  let ?r = "(?h, length (nodes c0 ?h))"
  have pop: "populateChainNode b = Inr (n\<lparr>cn_timestamp := bk_timestamp b\<rparr>)"
    by (simp add: populateChainNode_def td n_def)
  have nf: "cn_parent n = ParentMiner (bk_prevBlockMiner b)" "cn_height n = ?h" "\<not> isOrphan n"
    "cn_miner n = bk_miner b" "cn_transactionData n = Some td" "cn_timestamp n = now"
    by (simp_all add: n_def isOrphan_def)
  from append_ok [OF tree win nf(2)] obtain l c1 where
    c1: "appendNode (growLevel (level c0 ?h)) n = Inr l" "setChainLevel c0 ?h l = Inr c1" "inserted c0 ?r n c1"
      "\<forall>k. in_window c0 k \<and> k \<noteq> ?h \<longrightarrow> level c1 k = level c0 k" by blast
  have new: "\<not> valid c0 ?r" by (simp add: valid_def)
  have r: "bc_min_height c0 < fst ?r" "fst ?r \<le> bc_max_height c0" using low p0(3) by (simp_all add: c0_def)
  have run: "addBlock env me now b (c, e) =
      bindR (linkToParent ?r n c1) (\<lambda>(c, found).
      if \<not> found then bindR (setChainNode c ?r (setOrphan n)) (\<lambda>c. Inr ((c, e), ?r))
      else
        bindR (unorphanBlocks unorphan_fuel env me ?r (?h + 1) 0 c) (\<lambda>(c, unorphaned, best_orphan_index).
        bindR (case unorphaned of None \<Rightarrow> Inr (?r, snd ?r)
               | Some u \<Rightarrow> bindR (chainNodeMax_ref env me c ?r u) (\<lambda>m.
                   Inr (m, if m = u then best_orphan_index else snd ?r))) (\<lambda>(best, index).
        bindR (maybeSwitchChains env me best index (c, e)) (\<lambda>v. Inr (v, ?r)))))"
  proof -
    have l: "getChainLevel c0 ?h = Inr (level c0 ?h)" using wf_tree_shape [OF tree] win by simp
    have n': "(n\<lparr>cn_timestamp := bk_timestamp b\<rparr>)\<lparr>cn_timestamp := now\<rparr> = n" by (simp add: n_def)
    show ?thesis
      unfolding addBlock_def prod.case Let_def c0_def [symmetric] l bindR_simps pop n' c1(1) c1(2) nodes_def [symmetric] ..
  qed
  have lk: "(linkToParent ?r n c1 = Inr (c1, False)
           \<and> (\<forall>p. linked c0 p \<and> fst p = fst ?r - 1 \<and> cn_miner (node_at c0 p) = bk_prevBlockMiner b
                \<longrightarrow> (\<exists>i. i < snd p \<and> cn_miner (node_at c0 (fst p, i)) = bk_prevBlockMiner b \<and> isOrphan (node_at c0 (fst p, i)))))
     \<or> (\<exists>c2 p n2. linkToParent ?r n c1 = Inr (c2, True) \<and> linked c0 p \<and> fst p = fst ?r - 1
           \<and> cn_miner (node_at c0 p) = bk_prevBlockMiner b \<and> inserted c0 ?r n2 c2 \<and> wf_tree c2 \<and> linked c2 ?r \<and> par c2 ?r = p
           \<and> cn_miner n2 = cn_miner n \<and> cn_transactionData n2 = cn_transactionData n \<and> cn_timestamp n2 = cn_timestamp n
           \<and> cn_ancestorsMined n2 = cn_ancestorsMined (node_at c0 p))"
    by (rule linkToParent_ok [OF tree c1(3) r _ nf(1) _ nf(3)]) (use c1(4) nf(2) in simp_all)
  then show ?thesis
  proof (elim disjE exE conjE)
    assume no: "linkToParent ?r n c1 = Inr (c1, False)"
      "\<forall>p. linked c0 p \<and> fst p = fst ?r - 1 \<and> cn_miner (node_at c0 p) = bk_prevBlockMiner b
                \<longrightarrow> (\<exists>i. i < snd p \<and> cn_miner (node_at c0 (fst p, i)) = bk_prevBlockMiner b \<and> isOrphan (node_at c0 (fst p, i)))"
    have "shape c1" using c1(3) wf_tree_shape [OF tree] by (simp add: inserted_def same_frame_def)
    from setChainNode_ok [OF this, of ?r "setOrphan n"] inserted_valid [OF c1(3)] obtain c2 where
      c2: "setChainNode c1 ?r (setOrphan n) = Inr c2" "set_node c1 ?r (setOrphan n) c2" by blast
    have ins: "inserted c0 ?r (setOrphan n) c2" by (rule inserted_set [OF c1(3) c2(2)])
    have o: "isOrphan (setOrphan n)" "cn_parent (setOrphan n) = cn_parent n" "cn_height (setOrphan n) = ?h"
      "cn_miner (setOrphan n) = bk_miner b" "cn_transactionData (setOrphan n) = Some td" "cn_timestamp (setOrphan n) = now"
      by (simp_all add: setOrphan_def isOrphan_def CHAIN_NODE_FLAG_ORPHAN_def n_def)
    have "wf_tree c2" using o nf(1) by (intro insert_wf [OF tree ins r(2,1)]) auto
    then have "block_added c0 b now c2 ?r"
      using inserted_grows [OF ins] inserted_valid [OF ins] inserted_node [OF ins] o td new
      unfolding block_added_def by simp
    moreover have "addBlock env me now b (c, e) = Inr ((c2, e), ?r)" using run no(1) c2(1) by simp
    moreover have "isOrphan (node_at c2 ?r)" using inserted_node(2) [OF ins] o(1) by simp
    ultimately show ?thesis using no(2) by (intro exI [of _ c2] exI [of _ ?r]) auto
  next
    fix c2 p n2
    assume yes: "linkToParent ?r n c1 = Inr (c2, True)" "linked c0 p" "fst p = fst ?r - 1"
      "cn_miner (node_at c0 p) = bk_prevBlockMiner b" "inserted c0 ?r n2 c2" "wf_tree c2" "linked c2 ?r" "par c2 ?r = p"
      "cn_miner n2 = cn_miner n" "cn_transactionData n2 = cn_transactionData n" "cn_timestamp n2 = cn_timestamp n"
      "cn_ancestorsMined n2 = cn_ancestorsMined (node_at c0 p)"
    note g2 = inserted_grows [OF yes(5)]
    have "bc_max_height c2 - fst ?r < unorphan_fuel"
    proof -
      have "bc_max_height c0 < bc_min_height c0 + 2 * DEPTH_TO_KEEP" using tree by (simp add: wf_tree_def)
      with r grows_frame(2) [OF g2] show ?thesis unfolding unorphan_fuel_def by linarith
    qed
    from unorphanBlocks_ok [OF att yes(6,7) this, of 0] obtain c3 best oi where
      c3: "unorphanBlocks unorphan_fuel env me ?r (?h + 1) 0 c2 = Inr (c3, best, oi)" "wf_tree c3" "relinked c2 c3"
        "best_below c3 ?r best oi" by auto
    have g3: "grows c0 c3" by (rule grows_trans [OF g2 relinked_grows [OF c3(3)]])
    have lr: "linked c3 ?r" using relinked_linked [OF c3(3) yes(7)] .
    have pr: "par c3 ?r = p" using grows_par [OF relinked_grows [OF c3(3)] yes(7)] yes(8) by simp
    have rn: "node_at c3 ?r = n2" using relinked_node [OF c3(3) yes(7)] inserted_node(2) [OF yes(5)] by simp
    have added: "block_added c0 b now c3 ?r"
    proof -
      have v: "valid c3 s \<longleftrightarrow> valid c0 s \<or> s = ?r" for s
        using relinked_valid [OF c3(3)] inserted_valid [OF yes(5)] by blast
      have "cn_miner (node_at c3 s) = cn_miner (node_at c0 s) \<and> cn_transactionData (node_at c3 s) = cn_transactionData (node_at c0 s)"
        if "valid c0 s" for s
      proof -
        from that inserted_valid [OF yes(5)] have "valid c2 s" by blast
        with c3(3) have "cn_miner (node_at c3 s) = cn_miner (node_at c2 s) \<and> cn_transactionData (node_at c3 s) = cn_transactionData (node_at c2 s)"
          unfolding relinked_def by blast
        with inserted_node(1) [OF yes(5) that] show ?thesis by simp
      qed
      with c3(2) g3 v rn yes(9-11) nf td new show ?thesis unfolding block_added_def by simp
    qed
    have none: "best = None" if no: "no_child c0 b"
    proof -
      have "cn_parent (node_at c2 s) \<noteq> ParentMiner (cn_miner (node_at c2 ?r))"
        if s: "valid c2 s" "fst s = Suc (fst ?r)" "isOrphan (node_at c2 s)" for s
      proof -
        have "valid c0 s" using s(1,2) inserted_valid [OF yes(5)] by auto
        with no_childD [OF no, of s] s inserted_node [OF yes(5)] yes(9) nf(4) show ?thesis by simp
      qed
      then have "unorphanBlocks (Suc (2 * DEPTH_TO_KEEP)) env me ?r (Suc (fst ?r)) 0 c2 = Inr (c2, None, 0)"
        by (intro unorphanBlocks_none [OF yes(6,7)]) blast
      with c3(1) show ?thesis by (simp add: unorphan_fuel_def del: unorphanBlocks.simps)
    qed
    have d0: "descends c3 ?r ?r" using lr by (simp add: descends_def)
    have dp: "descends c3 p ?r" using descends_step [OF d0, of p] pr yes(3) r(1) by simp
    have "\<exists>m. (case best of None \<Rightarrow> Inr (?r, snd ?r)
               | Some u \<Rightarrow> bindR (chainNodeMax_ref env me c3 ?r u) (\<lambda>m.
                   Inr (m, if m = u then oi else snd ?r))) = Inr (m, snd m) \<and> descends c3 ?r m"
    proof (cases best)
      case None
      with d0 show ?thesis by simp
    next
      case (Some u)
      with c3(4) have u: "descends c3 ?r u" "oi = snd u" by (auto simp: best_below_def)
      from chainNodeMax_ref_ok [OF att wf_tree_shape [OF c3(2)] linked_valid [OF lr], of u] u(1) obtain m where
        "chainNodeMax_ref env me c3 ?r u = Inr m" "m = ?r \<or> m = u" by (auto simp: descends_def linked_def)
      with Some u d0 show ?thesis by (intro exI [of _ m]) auto
    qed
    then obtain m where m: "(case best of None \<Rightarrow> Inr (?r, snd ?r)
               | Some u \<Rightarrow> bindR (chainNodeMax_ref env me c3 ?r u) (\<lambda>m.
                   Inr (m, if m = u then oi else snd ?r))) = Inr (m, snd m)" "descends c3 ?r m" by blast
    have "addBlock env me now b (c, e) = bindR (maybeSwitchChains env me m (snd m) (c3, e)) (\<lambda>v. Inr (v, ?r))"
      unfolding run yes(1) using c3(1) m(1) by simp
    moreover have "no_child c0 b \<longrightarrow> m = ?r" using none m(1) by (auto simp: prod_eq_iff)
    moreover have "cn_ancestorsMined (node_at c3 ?r) = cn_ancestorsMined (node_at c0 p)" using rn yes(12) by simp
    ultimately show ?thesis using added yes(2-4) dp m(2)
      by (intro exI [of _ c3] exI [of _ ?r] conjI disjI2 exI [of _ p] exI [of _ m]) auto
  qed
qed

end
