(* ===== verification/Ledger.thy ===== *)
theory Ledger
  imports Blocks
begin

text \<open>
  What a node's chain, transactions and statistics have to do with each other: the
  invariant of the node's ledger, kept by addBlock, generateBlock and receiveBlock, and
  what it says of the counters and of the executed transactions.
\<close>

definition main_nodes :: "blockchain \<Rightarrow> chain_node list" where
  "main_nodes c = map (node_at c) (branch c (getMainChain c))"

text \<open>Every stored block has a miner that the attackers' bitmap covers and proper transaction data.\<close>

definition sound_node :: "env \<Rightarrow> chain_node \<Rightarrow> bool" where
  "sound_node env n \<longleftrightarrow> covered env (cn_miner n)
     \<and> (\<exists>d. cn_transactionData n = Some d \<and> wf_txn_data d \<and> txn_data_words d \<le> length (included_transactions d))"

definition sound :: "env \<Rightarrow> blockchain \<Rightarrow> bool" where
  "sound env c \<longleftrightarrow> (\<forall>s. valid c s \<and> 0 < fst s \<longrightarrow> sound_node env (node_at c s))"

text \<open>
  The invariant. \<open>hs\<close> are the blocks of the main chain that have left the window, so that
  \<open>hs @ main_nodes c\<close> is the main chain from the block after the genesis block to its end.
\<close>

definition ledger_inv :: "env \<Rightarrow> node_id \<Rightarrow> chain_node list \<Rightarrow> stats_state \<Rightarrow> view \<Rightarrow> bool" where
  "ledger_inv env me hs st0 v \<longleftrightarrow> wf_chain (fst v) \<and> sound env (fst v) \<and> length hs = bc_min_height (fst v)
     \<and> (\<forall>ts. fst (snd v) = Some ts \<longrightarrow> wf_ts ts)
     \<and> reflects env me {} st0 (snd v) (hs @ main_nodes (fst v))"

text \<open>All linked nodes of the window hang below the same node at its bottom.\<close>

definition one_root :: "blockchain \<Rightarrow> bool" where
  "one_root c \<longleftrightarrow> (\<forall>s. linked c s \<longrightarrow> root c s = root c (getMainChain c))"

definition block_ok :: "env \<Rightarrow> blockchain \<Rightarrow> block \<Rightarrow> bool" where
  "block_ok env c b \<longleftrightarrow> movable c (bk_height b) \<and> bc_min_height (prepareChain c (bk_height b)) < bk_height b
     \<and> covered env (bk_miner b) \<and> wf_txn_data (bk_transactionData b)
     \<and> txn_data_words (bk_transactionData b) \<le> length (included_transactions (bk_transactionData b))"

lemma soundD: "sound env c \<Longrightarrow> valid c s \<Longrightarrow> 0 < fst s \<Longrightarrow> sound_node env (node_at c s)"
  unfolding sound_def by blast

lemma branch_linked:
  assumes "wf_tree c" "linked c r" "s \<in> set (branch c r)"
  shows "linked c s" "bc_min_height c < fst s" "fst s \<le> fst r"
  using assms linked_pow [OF assms(1,2)] by (auto simp: branch_def ancs_def)

lemma sound_safe:
  assumes "wf_tree c" "sound env c" "linked c r"
  shows "safe_nodes env (map (node_at c) (branch c r))"
proof -
  have "sound_node env (node_at c s)" if "s \<in> set (branch c r)" for s
    using branch_linked [OF assms(1,3) that] soundD [OF assms(2)] by (auto simp: linked_def)
  then show ?thesis by (auto simp: safe_nodes_def sound_node_def)
qed

lemma length_branch [simp]: "length (branch c r) = fst r - bc_min_height c"
  by (simp add: branch_def ancs_def)

lemma main_nodes_main_at: "main_nodes (main_at c r) = map (node_at c) (branch c r)"
  by (simp add: main_nodes_def)

subsection \<open>Offering a node to maybeSwitchChains\<close>

lemma maybeSwitchChains_ok:
  assumes wf: "wf_chain c" and att: "attack_ok env me" and m: "linked c m" "root c m = root c (getMainChain c)"
    and snd: "sound env c" and ts: "\<forall>ts. fst e = Some ts \<longrightarrow> wf_ts ts"
  shows "\<exists>k e'. maybeSwitchChains env me m (snd m) (c, e) = Inr (main_at c k, e')
     \<and> chainNodeMax_ref env me c (getMainChain c) m = Inr k \<and> linked c k
     \<and> (\<forall>ts. fst e' = Some ts \<longrightarrow> wf_ts ts)
     \<and> (\<forall>base st0 hs. reflects env me base st0 e (hs @ main_nodes c)
          \<and> good_nodes env base (hs @ map (node_at c) (branch c k))
          \<longrightarrow> reflects env me base st0 e' (hs @ map (node_at c) (branch c k)))"
proof -
  from wf have tree: "wf_tree c" and main: "linked c (getMainChain c)" by (auto simp: wf_chain_def)
  note sh = wf_tree_shape [OF tree]
  from chainNodeMax_ref_ok [OF att sh linked_valid [OF main] linked_valid [OF m(1)]] obtain k where
    k: "chainNodeMax_ref env me c (getMainChain c) m = Inr k" "k = getMainChain c \<or> k = m" by blast
  show ?thesis
  proof (cases "m = k")
    case False
    with k have "maybeSwitchChains env me m (snd m) (c, e) = Inr (main_at c k, e)"
      by (simp add: maybeSwitchChains_def)
    with k main False ts show ?thesis by (intro exI [of _ k] exI [of _ e]) (auto simp: main_nodes_def)
  next
    case True
    have "safe_effects env e ([] @ map (node_at c) (branch c (getMainChain c)))"
      using sound_safe [OF tree snd main] ts by (simp add: safe_effects_def)
    from safe_log.switchChains_ok [OF wf m this, of me] sound_safe [OF tree snd m(1)] obtain e' where
      e': "switchChains env me m (snd m) (c, e) = Inr (main_at c m, e')" "safe_effects env e' (map (node_at c) (branch c m))"
      by auto
    have "reflects env me base st0 e' (hs @ map (node_at c) (branch c m))"
      if r: "reflects env me base st0 e (hs @ main_nodes c)" "good_nodes env base (hs @ map (node_at c) (branch c m))"
      for base st0 hs
    proof -
      from node_log.switchChains_ok [OF wf m r(1) [unfolded main_nodes_def] r(2)] obtain e2 where
        "switchChains env me m (snd m) (c, e) = Inr (main_at c m, e2)"
        "reflects env me base st0 e2 (hs @ map (node_at c) (branch c m))" by blast
      with e'(1) show ?thesis by simp
    qed
    moreover have "maybeSwitchChains env me m (snd m) (c, e) = Inr (main_at c k, e')"
      using k e'(1) True by (simp add: maybeSwitchChains_def)
    ultimately show ?thesis using k m(1) True e'(2)
      by (intro exI [of _ k] exI [of _ e']) (auto simp: safe_effects_def)
  qed
qed

lemma moved_sound:
  assumes "window_moved c c'" "sound env c"
  shows "sound env c'"
  using assms unfolding window_moved_def sound_def by metis

lemma added_sound:
  assumes "block_added c b now c' r" "sound env c" "covered env (bk_miner b)" "wf_txn_data (bk_transactionData b)"
  shows "sound env c'"
  unfolding sound_def
proof (intro allI impI)
  fix s assume s: "valid c' s \<and> 0 < fst s"
  show "sound_node env (node_at c' s)"
  proof (cases "valid c s")
    case True
    with assms(1) have "cn_miner (node_at c' s) = cn_miner (node_at c s)"
      "cn_transactionData (node_at c' s) = cn_transactionData (node_at c s)" unfolding block_added_def by blast+
    with soundD [OF assms(2) True] s show ?thesis by (simp add: sound_node_def)
  next
    case False
    with s assms(1) have "s = r" unfolding block_added_def by blast
    with assms obtain td where "copyTransactionData (bk_transactionData b) = Inr td"
      "cn_transactionData (node_at c' s) = Some td" "cn_miner (node_at c' s) = bk_miner b"
      unfolding block_added_def by blast
    moreover from copyTransactionData_ok [OF assms(4) this(1)] have "wf_txn_data td"
      "txn_data_words td \<le> length (included_transactions td)"
      by (auto simp: copyTransactionData_def split: if_splits)
    ultimately show ?thesis using assms(3) by (simp add: sound_node_def)
  qed
qed

lemma grows_main_nodes:
  assumes "wf_chain c" "grows c c'"
  shows "main_nodes c' = main_nodes c" "root c' (getMainChain c') = root c (getMainChain c)" "linked c' (getMainChain c')"
  using assms grows_branch [OF _ assms(2), of "getMainChain c"] grows_node [OF assms(2)] grows_frame [OF assms(2)]
  by (auto simp: main_nodes_def wf_chain_def)

text \<open>
  The step of addBlock behind the properties below: c0 is the chain after making room, c'
  the chain with the new node. Either the node waits as an orphan, or the end of the main
  chain is k, the better one of the old end and a node m that descends from the new one.
\<close>

lemma addBlock_step:
  assumes inv: "ledger_inv env me hs st0 (c, e)" and att: "attack_ok env me" and b: "block_ok env c b"
  defines "c0 \<equiv> prepareChain c (bk_height b)"
  assumes one: "one_root c0"
  shows "\<exists>c' r. block_added c0 b now c' r \<and> wf_chain c' \<and> sound env c' \<and> window_moved c c0 \<and> wf_chain c0
     \<and> reflects env me {} st0 e ((hs @ dropped c c0) @ main_nodes c')
     \<and> (addBlock env me now b (c, e) = Inr ((c', e), r) \<and> isOrphan (node_at c' r)
          \<and> (\<forall>p. linked c0 p \<and> fst p = bk_height b - 1 \<and> cn_miner (node_at c0 p) = bk_prevBlockMiner b
               \<longrightarrow> (\<exists>i. i < snd p \<and> cn_miner (node_at c0 (fst p, i)) = bk_prevBlockMiner b \<and> isOrphan (node_at c0 (fst p, i))))
       \<or> (\<exists>p m k e'. linked c0 p \<and> fst p = bk_height b - 1 \<and> cn_miner (node_at c0 p) = bk_prevBlockMiner b
            \<and> descends c' p r \<and> descends c' r m \<and> cn_ancestorsMined (node_at c' r) = cn_ancestorsMined (node_at c0 p)
            \<and> (no_child c0 b \<longrightarrow> m = r)
            \<and> chainNodeMax_ref env me c' (getMainChain c') m = Inr k \<and> linked c' k
            \<and> addBlock env me now b (c, e) = Inr ((main_at c' k, e'), r)
            \<and> (\<forall>ts. fst e' = Some ts \<longrightarrow> wf_ts ts)
            \<and> (good_nodes env {} ((hs @ dropped c c0) @ map (node_at c') (branch c' k))
                \<longrightarrow> reflects env me {} st0 e' ((hs @ dropped c c0) @ map (node_at c') (branch c' k)))))"
proof -
  from inv have wf: "wf_chain c" and snd: "sound env c" and ts: "\<forall>ts. fst e = Some ts \<longrightarrow> wf_ts ts"
    and refl: "reflects env me {} st0 e (hs @ main_nodes c)" by (auto simp: ledger_inv_def)
  from b obtain td where mv: "movable c (bk_height b)" and low: "bc_min_height (prepareChain c (bk_height b)) < bk_height b"
    and cov: "covered env (bk_miner b)" and wtd: "wf_txn_data (bk_transactionData b)"
    and td: "copyTransactionData (bk_transactionData b) = Inr td"
    by (auto simp: block_ok_def copyTransactionData_def)
  note p0 = prepareChain_ok [OF wf mv, folded c0_def]
  have snd0: "sound env c0" by (rule moved_sound [OF p0(2) snd])
  have refl0: "reflects env me {} st0 e ((hs @ dropped c c0) @ main_nodes c0)"
    using refl branch_moved [OF wf p0(2)] by (simp add: main_nodes_def)
  from addBlock_run [OF wf att mv low td, folded c0_def, of now e] obtain c' r where
    added: "block_added c0 b now c' r" and cases: "addBlock env me now b (c, e) = Inr ((c', e), r) \<and> isOrphan (node_at c' r)
          \<and> (\<forall>p. linked c0 p \<and> fst p = bk_height b - 1 \<and> cn_miner (node_at c0 p) = bk_prevBlockMiner b
               \<longrightarrow> (\<exists>i. i < snd p \<and> cn_miner (node_at c0 (fst p, i)) = bk_prevBlockMiner b \<and> isOrphan (node_at c0 (fst p, i))))
      \<or> (\<exists>p m. linked c0 p \<and> fst p = bk_height b - 1 \<and> cn_miner (node_at c0 p) = bk_prevBlockMiner b
          \<and> descends c' p r \<and> descends c' r m
          \<and> cn_ancestorsMined (node_at c' r) = cn_ancestorsMined (node_at c0 p)
          \<and> (no_child c0 b \<longrightarrow> m = r)
          \<and> addBlock env me now b (c, e) = bindR (maybeSwitchChains env me m (snd m) (c', e)) (\<lambda>v. Inr (v, r)))"
    by blast
  have g: "grows c0 c'" and tree': "wf_tree c'" using added by (auto simp: block_added_def)
  note gm = grows_main_nodes [OF p0(1) g]
  have wf': "wf_chain c'" using tree' gm(3) by (simp add: wf_chain_def)
  have snd': "sound env c'" by (rule added_sound [OF added snd0 cov wtd])
  have refl': "reflects env me {} st0 e ((hs @ dropped c c0) @ main_nodes c')" using refl0 gm(1) by simp
  from cases show ?thesis
  proof (elim disjE exE)
    assume "addBlock env me now b (c, e) = Inr ((c', e), r) \<and> isOrphan (node_at c' r)
          \<and> (\<forall>p. linked c0 p \<and> fst p = bk_height b - 1 \<and> cn_miner (node_at c0 p) = bk_prevBlockMiner b
               \<longrightarrow> (\<exists>i. i < snd p \<and> cn_miner (node_at c0 (fst p, i)) = bk_prevBlockMiner b \<and> isOrphan (node_at c0 (fst p, i))))"
    with added wf' snd' p0 refl' show ?thesis by blast
  next
    fix p m
    assume pm: "linked c0 p \<and> fst p = bk_height b - 1 \<and> cn_miner (node_at c0 p) = bk_prevBlockMiner b
          \<and> descends c' p r \<and> descends c' r m
          \<and> cn_ancestorsMined (node_at c' r) = cn_ancestorsMined (node_at c0 p)
          \<and> (no_child c0 b \<longrightarrow> m = r)
          \<and> addBlock env me now b (c, e) = bindR (maybeSwitchChains env me m (snd m) (c', e)) (\<lambda>v. Inr (v, r))"
    from p0(1) have tree0: "wf_tree c0" by (simp add: wf_chain_def)
    have min: "bc_min_height c' = bc_min_height c0" using grows_frame [OF g] by simp
    have lowp: "bc_min_height c0 \<le> fst p" using pm linked_window [of c0 p] by (simp add: in_window_def)
    have "root c' m = root c' r" "root c' r = root c' p"
      using pm descends_root [of c' r m] descends_root [of c' p r] lowp min by (auto simp: descends_def)
    moreover have "root c' p = root c0 p" using grows_branch(2) [OF tree0 g] pm by simp
    moreover have "root c0 p = root c0 (getMainChain c0)" using one pm unfolding one_root_def by blast
    ultimately have "root c' m = root c' (getMainChain c')" using gm(2) by simp
    moreover have "linked c' m" using pm by (simp add: descends_def)
    ultimately obtain k e' where k: "maybeSwitchChains env me m (snd m) (c', e) = Inr (main_at c' k, e')"
      "chainNodeMax_ref env me c' (getMainChain c') m = Inr k" "linked c' k" "\<forall>ts. fst e' = Some ts \<longrightarrow> wf_ts ts"
      "\<forall>base st0 hs. reflects env me base st0 e (hs @ main_nodes c')
          \<and> good_nodes env base (hs @ map (node_at c') (branch c' k))
          \<longrightarrow> reflects env me base st0 e' (hs @ map (node_at c') (branch c' k))"
      using maybeSwitchChains_ok [OF wf' att _ _ snd' ts] by blast
    have "good_nodes env {} ((hs @ dropped c c0) @ map (node_at c') (branch c' k))
                \<longrightarrow> reflects env me {} st0 e' ((hs @ dropped c c0) @ map (node_at c') (branch c' k))"
      using k(5) refl' by blast
    moreover have "addBlock env me now b (c, e) = Inr ((main_at c' k, e'), r)" using pm k(1) by simp
    ultimately show ?thesis using pm added wf' snd' p0 refl' k(2-4) by blast
  qed
qed


subsection \<open>The initial ledger\<close>

lemma initBlockchain_eq:
  "initBlockchain = \<lparr>current_levels = generateChainLevels,
     old_levels = generateChainLevels[0 := \<lparr>lv_nodes = [genesis_block], lv_capacity = 1\<rparr>],
     main_chain_index = 0, bc_height = 0, bc_max_height = 0, bc_min_height = 0\<rparr>"
  by (simp add: initBlockchain_def setChainLevel_def getChainLevel_def generateChainLevels_def Let_def nthR_def)

lemma nodes_init:
  "in_window initBlockchain h \<Longrightarrow> nodes initBlockchain h = (if h = 0 then [genesis_block] else [])"
  by (auto simp: initBlockchain_eq nodes_def level_def in_window_def generateChainLevels_def initChainLevel_def
      nth_list_update)

lemma valid_init: "valid initBlockchain s \<longleftrightarrow> s = (0, 0)"
proof -
  have "in_window initBlockchain 0" by (simp add: initBlockchain_eq in_window_def)
  then show ?thesis using nodes_init [of 0] nodes_init [of "fst s"] by (cases s) (auto simp: valid_def split: if_splits)
qed

lemma wf_chain_init: "wf_chain initBlockchain"
proof -
  have w0: "in_window initBlockchain 0" by (simp add: initBlockchain_eq in_window_def)
  then have at: "node_at initBlockchain (0, 0) = genesis_block" by (simp add: node_at_def nodes_init)
  have main: "linked initBlockchain (getMainChain initBlockchain)"
    using valid_init at by (simp add: getMainChain_def initBlockchain_eq [THEN arg_cong [where f = bc_height]]
        initBlockchain_eq [THEN arg_cong [where f = main_chain_index]] linked_def isOrphan_def genesis_block_def)
  have "wf_node initBlockchain s" if "valid initBlockchain s" for s
  proof -
    from that have "s = (0, 0)" by (simp add: valid_init)
    then show ?thesis using at by (simp add: wf_node_def genesis_block_def isOrphan_def)
  qed
  moreover have "shape initBlockchain" by (simp add: initBlockchain_eq shape_def generateChainLevels_def)
  moreover have "nodes initBlockchain h = []" if "in_window initBlockchain h" "bc_max_height initBlockchain < h" for h
    using that nodes_init by simp
  moreover have "length (nodes initBlockchain h) \<le> lv_capacity (level initBlockchain h)" if "in_window initBlockchain h" for h
    using nodes_init [OF that] by (auto simp: level_def initBlockchain_eq generateChainLevels_def)
  moreover have "bc_max_height initBlockchain < bc_min_height initBlockchain + 2 * DEPTH_TO_KEEP"
    by (simp add: initBlockchain_eq)
  ultimately have "wf_tree initBlockchain" by (auto simp: wf_tree_def)
  with main show ?thesis by (simp add: wf_chain_def)
qed

lemma init_heights [simp]: "bc_height initBlockchain = 0" "bc_min_height initBlockchain = 0"
  "bc_max_height initBlockchain = 0" "main_chain_index initBlockchain = 0" "getMainChain initBlockchain = (0, 0)"
  by (simp_all add: initBlockchain_eq getMainChain_def)

lemma one_root_genesis:
  assumes "wf_chain c" "bc_min_height c = 0" "length (nodes c 0) = 1"
  shows "one_root c"
proof -
  have "root c s = (0, 0)" if "linked c s" for s
  proof -
    have "linked c (root c s)" "fst (root c s) = 0"
      using linked_pow [of c s "fst s"] assms that by (auto simp: root_def wf_chain_def)
    with assms(3) show ?thesis by (cases "root c s") (auto simp: linked_def valid_def)
  qed
  with assms(1) show ?thesis by (simp add: one_root_def wf_chain_def)
qed

lemma ledger_init:
  "ledger_inv env me [] st0 (initBlockchain, Some initTransactionState, st0)"
proof -
  have "main_nodes initBlockchain = []" by (simp add: main_nodes_def branch_def)
  moreover have "sound env initBlockchain" by (simp add: sound_def valid_init)
  ultimately show ?thesis
    using wf_chain_init initTransactionState_wf
    by (simp add: ledger_inv_def reflects_def good_nodes_def txn_data_of_def txns_executed_def stats_count_def)
qed

text \<open>
  the ledger invariant holds after the initialisation of a node.\<close>

lemma initBlockchain_ledger:
  "ledger_inv env me [] st0 (initBlockchain, Some initTransactionState, st0)"
  by (rule ledger_init)

subsection \<open>The properties of the ledger\<close>

lemma dropped_length:
  "wf_chain c \<Longrightarrow> window_moved c c' \<Longrightarrow> length (dropped c c') = bc_min_height c' - bc_min_height c"
  by (auto simp: dropped_def getMainChain_def window_moved_def)

lemma addBlock_kept:
  assumes "ledger_inv env me hs st0 (c, e)" and "attack_ok env me" and "block_ok env c b"
    and "one_root (prepareChain c (bk_height b))"
  shows "\<exists>c' e' r. addBlock env me now b (c, e) = Inr ((c', e'), r)
     \<and> wf_chain c' \<and> sound env c' \<and> valid c' r \<and> fst r = bk_height b \<and> cn_miner (node_at c' r) = bk_miner b
     \<and> (getMainChain c' = getMainChain c \<or> bk_height b \<le> bc_height c')
     \<and> (let hs' = hs @ dropped c (prepareChain c (bk_height b)) in
        good_nodes env {} (hs' @ main_nodes c') \<longrightarrow> ledger_inv env me hs' st0 (c', e'))"
proof -
  let ?c0 = "prepareChain c (bk_height b)"
  let ?hs = "hs @ dropped c ?c0"
  from addBlock_step [OF assms, of now] obtain c' r where
    added: "block_added ?c0 b now c' r" and c': "wf_chain c'" "sound env c'" "window_moved c ?c0" "wf_chain ?c0"
    and refl: "reflects env me {} st0 e (?hs @ main_nodes c')"
    and cases: "addBlock env me now b (c, e) = Inr ((c', e), r) \<or>
       (\<exists>m k e'. linked c' k \<and> descends c' r m \<and> chainNodeMax_ref env me c' (getMainChain c') m = Inr k \<and> addBlock env me now b (c, e) = Inr ((main_at c' k, e'), r)
            \<and> (\<forall>ts. fst e' = Some ts \<longrightarrow> wf_ts ts)
            \<and> (good_nodes env {} (?hs @ map (node_at c') (branch c' k))
                \<longrightarrow> reflects env me {} st0 e' (?hs @ map (node_at c') (branch c' k))))"
    by blast
  have wf: "wf_chain c" and ts: "\<forall>ts. fst e = Some ts \<longrightarrow> wf_ts ts" and len: "length hs = bc_min_height c"
    using assms(1) by (auto simp: ledger_inv_def)
  have frame: "bc_min_height c' = bc_min_height ?c0" using added by (simp add: block_added_def grows_frame)
  have len': "length ?hs = bc_min_height c'"
    using dropped_length [OF wf c'(3)] len c'(3) frame by (simp add: window_moved_def)
  have r: "valid c' r" "fst r = bk_height b" "cn_miner (node_at c' r) = bk_miner b"
    using added unfolding block_added_def by blast+
  have mc: "getMainChain c' = getMainChain c"
    using added c'(3) by (auto simp: block_added_def grows_def same_frame_def window_moved_def getMainChain_def)
  have main: "linked c' (getMainChain c')" "shape c'" using c'(1) by (auto simp: wf_chain_def wf_tree_def)
  from cases show ?thesis
  proof (elim disjE exE conjE)
    assume "addBlock env me now b (c, e) = Inr ((c', e), r)"
    with c' r len' refl ts mc show ?thesis by (intro exI [of _ c'] exI [of _ e] exI [of _ r]) (simp add: ledger_inv_def Let_def)
  next
    fix m k e'
    assume m: "descends c' r m" "chainNodeMax_ref env me c' (getMainChain c') m = Inr k"
      and k: "linked c' k" "addBlock env me now b (c, e) = Inr ((main_at c' k, e'), r)" "\<forall>ts. fst e' = Some ts \<longrightarrow> wf_ts ts"
      "good_nodes env {} (?hs @ map (node_at c') (branch c' k))
                \<longrightarrow> reflects env me {} st0 e' (?hs @ map (node_at c') (branch c' k))"
    have "wf_chain (main_at c' k)" "sound env (main_at c' k)"
      using c' k(1) by (simp_all add: wf_chain_def sound_def)
    moreover have "linked c' m" "fst r \<le> fst m" using m(1) by (auto simp: descends_def)
    then have "k = getMainChain c \<or> bk_height b \<le> fst k"
      using chainNodeMax_ref_ok [OF assms(2) main(2) linked_valid [OF main(1)] linked_valid, of m] m(2) r(2) mc by auto
    ultimately show ?thesis using r len' k
      by (intro exI [of _ "main_at c' k"] exI [of _ e'] exI [of _ r]) (simp add: ledger_inv_def Let_def main_nodes_main_at)
  qed
qed

text \<open>
  C1: adding a block keeps the ledger invariant: the chain stays well formed, the block is in
  it with its miner, and when no transaction is twice on the new main chain, the executed
  transactions and the statistics are again those of the main chain, whatever switch of
  chains the block led to.
\<close>

theorem addBlock_ledger:
  assumes "ledger_inv env me hs st0 (c, e)" and "attack_ok env me" and "block_ok env c b"
    and "one_root (prepareChain c (bk_height b))"
  shows "\<exists>c' e' r. addBlock env me now b (c, e) = Inr ((c', e'), r)
     \<and> wf_chain c' \<and> sound env c' \<and> valid c' r \<and> fst r = bk_height b \<and> cn_miner (node_at c' r) = bk_miner b
     \<and> (let hs' = hs @ dropped c (prepareChain c (bk_height b)) in
        good_nodes env {} (hs' @ main_nodes c') \<longrightarrow> ledger_inv env me hs' st0 (c', e'))"
  using addBlock_kept [OF assms, of now] by (simp add: Let_def) blast

text \<open>
  C19: what the invariant means when the run keeps selfish mining statistics: the counters
  are the length of the main chain and the numbers of its blocks that the node itself and
  the attackers have mined, and the executed transactions are those of the main chain.
\<close>

theorem ledger_counters:
  assumes "ledger_inv env me hs st0 (c, Some ts, st)" and "statsType env = STATS_SELFISH"
    and "st0 = snd (initSelfishStatisticsState env st1)"
  shows "totalBlocksInMainChain (selfishStats st) = of_nat (bc_height c)
     \<and> ownBlocksInMainChain (selfishStats st) = count_of (\<lambda>m. m = me) (map cn_miner (hs @ main_nodes c))
     \<and> attackerBlocksInMainChain (selfishStats st) = count_of (attacker env) (map cn_miner (hs @ main_nodes c))
     \<and> executed ts = \<Union> (txns_of ` set (txn_data_of (hs @ main_nodes c)))"
proof -
  from assms(1) have r: "reflects env me {} st0 (Some ts, st) (hs @ main_nodes c)" and len: "length hs = bc_min_height c"
    and wf: "wf_chain c" by (auto simp: ledger_inv_def)
  have win: "bc_min_height c \<le> bc_height c"
    using wf linked_window [of c "getMainChain c"] by (auto simp: wf_chain_def in_window_def getMainChain_def)
  from r have cov: "\<forall>m\<in>set (map cn_miner (hs @ main_nodes c)). covered env m"
    and run: "foldR (stats_apply env me) (map cn_miner (hs @ main_nodes c)) st0 = Inr st"
    and ts: "txns_executed {} ts (txn_data_of (hs @ main_nodes c))"
    by (auto simp: reflects_def stats_count_def)
  have "length (map cn_miner (hs @ main_nodes c)) = bc_height c"
    using len win by (simp add: main_nodes_def getMainChain_def)
  note counts = stats_apply_all_selfish [OF assms(2) cov run, unfolded this]
  with ts show ?thesis
    by (simp add: assms(3) initSelfishStatisticsState_def txns_executed_def)
qed


subsection \<open>Concrete runs\<close>

text \<open>
  A configuration, a block and the ledger after the initialisation, on which the properties
  are applied: node 3 is the attacker of a selfish mining attack.
\<close>

definition example_env :: env where
  "example_env = default_env\<lparr>attackConfig := \<lparr>ac_type = ATTACK_SELFISH_MINING,
      selfish = \<lparr>sm_hashPowerPortion = 34 / 100, sm_depth = 2, sm_catchupTolerance = 2, sm_startTime = 600\<rparr>,
      fiftyOne = \<lparr>fo_hashPowerPortion = 0, fo_catchupTolerance = 0\<rparr>\<rparr>,
     statsType := STATS_SELFISH, is_attacker_bitmap := 8 # replicate 15 0, attacker_ids := [3]\<rparr>"

definition example_stats :: stats_state where
  "example_stats = snd (initSelfishStatisticsState example_env
     \<lparr>detailedStats = \<lparr>blockStats = [], blockStatsCapacity = 0, minedBlockStats = [], minedBlockStatsCapacity = 0\<rparr>,
      fiftyOneStats = \<lparr>fo_attackerBlocksInMainChain = 0, fo_totalBlocksInMainChain = 0\<rparr>,
      selfishStats = \<lparr>attackerBlocksInMainChain = 0, totalBlocksInMainChain = 0, totalBlocksMined = 0,
        ownBlocksInMainChain = 0, switchesToSelfishChain = 0\<rparr>\<rparr>)"

definition example_block :: "nat \<Rightarrow> node_id \<Rightarrow> node_id \<Rightarrow> block" where
  "example_block h miner prev = \<lparr>bk_timestamp = real h, bk_size = 10, bk_miner = miner, bk_prevBlockMiner = prev,
     bk_sender = miner, bk_height = h, bk_is_attack_block = False, bk_transactionData = no_transactions\<rparr>"

lemma no_transactions_ok:
  "wf_txn_data no_transactions" "txns_of no_transactions = {}"
  "txn_data_words no_transactions \<le> length (included_transactions no_transactions)"
  by (simp_all add: wf_txn_data_def no_transactions_def txns_of_def txn_data_words_eq bitmap_required_size_eq
      TXN_DATA_MIN_BITMAP_SIZE_def B_BLOCK_SIZE_def)

lemma example_bits: "bits_of (8 # replicate 15 0) = {3}"
proof -
  have "bit ((8 # replicate 15 0) ! i :: u64) j \<longleftrightarrow> i = 0 \<and> j = 3" if "i < 16" for i j
  proof (cases i)
    case 0
    have "(8 :: u64) = 2 ^ 3" by simp
    then have "bit (8 :: u64) j \<longleftrightarrow> j = 3" by (simp only: bit_exp_iff) auto
    with 0 show ?thesis by simp
  qed (use that in auto)
  then have "k \<in> bits_of (8 # replicate 15 0) \<longleftrightarrow> k = 3" for k
    by (cases "k < 1024") (auto simp: bits_of_def)
  then show ?thesis by auto
qed

lemma example_attackers: "attacker example_env x \<longleftrightarrow> x = 3" "covered example_env x \<longleftrightarrow> unat x < 1024"
  by (auto simp: attacker_def covered_def example_env_def example_bits word_unat_eq_iff)

lemma example_attack_ok: "unat me < 1024 \<Longrightarrow> attack_ok example_env me"
  by (simp add: attack_ok_def example_attackers) (simp add: example_env_def)

lemma example_block_ok: "unat miner < 1024 \<Longrightarrow> block_ok example_env initBlockchain (example_block 1 miner NODE_ID_MAX)"
  using no_transactions_ok
  by (simp add: block_ok_def movable_def example_block_def prepareChain_def Let_def DEPTH_TO_KEEP_def example_attackers)

lemma example_one_root: "one_root (prepareChain initBlockchain 1)"
proof -
  have c: "prepareChain initBlockchain 1 = initBlockchain\<lparr>bc_max_height := 1\<rparr>"
    by (simp add: prepareChain_def Let_def DEPTH_TO_KEEP_def)
  have "movable initBlockchain 1" by (simp add: movable_def DEPTH_TO_KEEP_def)
  from prepareChain_ok(1) [OF wf_chain_init this] have "wf_chain (prepareChain initBlockchain 1)" .
  moreover have "length (nodes (prepareChain initBlockchain 1) 0) = 1"
    using nodes_init [of 0] unfolding c by (simp add: in_window_def)
  ultimately show ?thesis using one_root_genesis c by simp
qed

theorem addBlock_ledger_witness:
  "\<exists>c' e' r. addBlock example_env 5 1 (example_block 1 7 NODE_ID_MAX)
       (initBlockchain, Some initTransactionState, example_stats) = Inr ((c', e'), r)
     \<and> wf_chain c' \<and> valid c' r \<and> cn_miner (node_at c' r) = 7"
proof -
  have "bk_height (example_block 1 7 NODE_ID_MAX) = 1" "bk_miner (example_block 1 7 NODE_ID_MAX) = 7"
    by (simp_all add: example_block_def)
  with addBlock_ledger [OF ledger_init [of example_env 5 example_stats] example_attack_ok [of 5] example_block_ok [of 7], of 1]
    example_one_root show ?thesis by simp blast
qed

theorem ledger_counters_witness:
  "totalBlocksInMainChain (selfishStats example_stats) = of_nat (bc_height initBlockchain)
     \<and> executed initTransactionState = {}"
proof -
  have "statsType example_env = STATS_SELFISH" by (simp add: example_env_def)
  from ledger_counters [OF ledger_init [of example_env 5 example_stats] this example_stats_def]
  show ?thesis by (simp add: txn_data_of_def main_nodes_def branch_def)
qed

end
