(* ===== verification/Mining.thy ===== *)
theory Mining
  imports Ledger
begin

text \<open>
  The properties of generateBlock, receiveBlock and the choice between chains: mining
  extends the main chain by one block, an honest node's main chain never gets shorter, late
  blocks and forks deeper than the window stop the program, and how the two comparisons of
  chains behave as orders.
\<close>

subsection \<open>Counting the mined block\<close>

lemma reflects_cong:
  assumes "map cn_miner ns = map cn_miner ns'" "map cn_transactionData ns = map cn_transactionData ns'"
  shows "reflects env me base st0 e ns = reflects env me base st0 e ns'"
proof -
  have "txn_data_of ns = txn_data_of ns'"
    using arg_cong [OF assms(2), of "map the"] by (simp add: txn_data_of_def comp_def)
  moreover have K: "(\<forall>n\<in>set ms. covered env (cn_miner n) \<and> cn_transactionData n \<noteq> None)
      \<longleftrightarrow> (\<forall>m\<in>set (map cn_miner ms). covered env m) \<and> None \<notin> set (map cn_transactionData ms)" for ms :: "chain_node list"
    by (auto simp: image_iff) (metis not_None_eq)
  ultimately have "good_nodes env base ns = good_nodes env base ns'"
    unfolding good_nodes_def K assms by simp
  with \<open>txn_data_of ns = txn_data_of ns'\<close> assms(1) show ?thesis by (simp add: reflects_def)
qed

text \<open>Raising ancestorsMined of one node changes nothing that the invariant depends on.\<close>

lemma mined_node:
  assumes wf: "wf_chain c" and snd: "sound env c" and r: "valid c r"
    and set: "set_node c r ((node_at c r)\<lparr>cn_ancestorsMined := x\<rparr>) c'"
  shows "wf_chain c'" "sound env c'" "getMainChain c' = getMainChain c" "bc_min_height c' = bc_min_height c"
    "map cn_miner (main_nodes c') = map cn_miner (main_nodes c)"
    "map cn_transactionData (main_nodes c') = map cn_transactionData (main_nodes c)"
    "\<And>s. valid c' s = valid c s"
    "branch c' (getMainChain c') = branch c (getMainChain c)"
    "\<And>s. valid c s \<Longrightarrow> s \<noteq> r \<Longrightarrow> node_at c' s = node_at c s"
    "node_at c' r = (node_at c r)\<lparr>cn_ancestorsMined := x\<rparr>"
proof -
  from wf have tree: "wf_tree c" and main: "linked c (getMainChain c)" by (auto simp: wf_chain_def)
  have frame: "same_frame c c'" using set by (simp add: set_node_def)
  have v: "valid c' s = valid c s" for s by (rule set_node_valid [OF set])
  have at: "node_at c' s = (if s = r then (node_at c r)\<lparr>cn_ancestorsMined := x\<rparr> else node_at c s)" if "valid c s" for s
    using set that unfolding set_node_def by blast
  have same: "cn_parent (node_at c' s) = cn_parent (node_at c s)" "isOrphan (node_at c' s) = isOrphan (node_at c s)"
    "cn_height (node_at c' s) = cn_height (node_at c s)" "cn_score (node_at c' s) = cn_score (node_at c s)"
    "cn_miner (node_at c' s) = cn_miner (node_at c s)"
    "cn_transactionData (node_at c' s) = cn_transactionData (node_at c s)" if "valid c s" for s
    using at [OF that] by (simp_all add: isOrphan_def)
  have lk: "linked c' s = linked c s" for s using v [of s] same(2) [of s] by (auto simp: linked_def)
  have par: "par c' s = par c s" if "valid c s" for s using same(1) [OF that] by (simp add: par_def)
  show fr: "getMainChain c' = getMainChain c" "bc_min_height c' = bc_min_height c"
    using frame by (simp_all add: same_frame_def getMainChain_def)
  have fr2: "bc_max_height c' = bc_max_height c" "in_window c' = in_window c" "shape c'"
    using frame same_frame_window [OF frame] wf_tree_shape [OF tree] by (simp_all add: same_frame_def)
  have len: "length (nodes c' h) = length (nodes c h) \<and> lv_capacity (level c' h) = lv_capacity (level c h)"
    if "in_window c h" for h using set that by (simp add: set_node_def)
  have "wf_node c' s" if "valid c' s" for s
  proof -
    from that have vs: "valid c s" by (simp add: v)
    from wf_tree_node [OF tree vs] show ?thesis
      unfolding wf_node_def lk fr same [OF vs] par [OF vs] .
  qed
  moreover have "nodes c' h = []" if "in_window c' h" "bc_max_height c' < h" for h
  proof -
    from that fr2 tree have "nodes c h = []" unfolding wf_tree_def by simp
    with len [of h] that fr2 show ?thesis by simp
  qed
  moreover have "length (nodes c' h) \<le> lv_capacity (level c' h)" if "in_window c' h" for h
    using len [of h] that fr2 tree by (simp add: wf_tree_def)
  ultimately have "wf_tree c'" using fr2 fr tree by (auto simp: wf_tree_def)
  then show "wf_chain c'" using main by (simp add: wf_chain_def lk fr)
  show "sound env c'"
    unfolding sound_def
  proof (intro allI impI)
    fix s assume "valid c' s \<and> 0 < fst s"
    with soundD [OF snd, of s] same [of s] show "sound_node env (node_at c' s)" by (simp add: v sound_node_def)
  qed
  have pow: "(par c' ^^ k) (getMainChain c) = (par c ^^ k) (getMainChain c)" if "k \<le> bc_height c - bc_min_height c" for k
    using that
  proof (induction k)
    case (Suc k)
    then have "linked c ((par c ^^ k) (getMainChain c))"
      using linked_pow [OF tree main, of k] by (simp add: getMainChain_def)
    then show ?case using Suc par by (simp add: linked_def)
  qed simp
  show br: "branch c' (getMainChain c') = branch c (getMainChain c)"
  proof -
    have "fst (getMainChain c) = bc_height c" by (simp add: getMainChain_def)
    then show ?thesis unfolding branch_def ancs_def fr using pow by simp
  qed
  have "valid c s" if "s \<in> set (branch c (getMainChain c))" for s
    using branch_linked(1) [OF tree main that] by (simp add: linked_def)
  with same show "map cn_miner (main_nodes c') = map cn_miner (main_nodes c)"
    "map cn_transactionData (main_nodes c') = map cn_transactionData (main_nodes c)"
    by (simp_all add: main_nodes_def br)
  show "\<And>s. valid c' s = valid c s" by (rule v)
  show "node_at c' s = node_at c s" if "valid c s" "s \<noteq> r" for s using at [OF that(1)] that(2) by simp
  show "node_at c' r = (node_at c r)\<lparr>cn_ancestorsMined := x\<rparr>" using at [OF r] by simp
qed

subsection \<open>The comparison of a new block with the main chain\<close>

lemma score_less:
  assumes "i < j" "j < 2 ^ 32"
  shows "(of_nat i :: u32) < of_nat j"
  using assms by (simp add: word_less_nat_alt unat_of_nat)

lemma chainNodeMax_higher:
  assumes "attack_ok env me" "cn_ancestorsMined (snd a) = cn_ancestorsMined (snd b)" "cn_score (snd a) < cn_score (snd b)"
  shows "chainNodeMax env me a b = Inr b"
  using assms
  by (auto simp: chainNodeMax_def attack_ok_def is_attacker_eq chainNodeMaxAttacker_def chainNodeMaxHonest_def Let_def)

text \<open>With the block on top of the main chain and no orphan waiting for it, the switch takes it.\<close>

lemma addBlock_on_main:
  assumes inv: "ledger_inv env me hs st0 (c, e)" and att: "attack_ok env me" and b: "block_ok env c b"
    and one: "one_root (prepareChain c (bk_height b))"
    and height: "bk_height b = Suc (bc_height c)" "bk_height b < 2 ^ 32"
    and prev: "bk_prevBlockMiner b = cn_miner (node_at c (getMainChain c))"
    and first: "\<forall>i. valid c (bc_height c, i) \<and> cn_miner (node_at c (bc_height c, i)) = cn_miner (node_at c (getMainChain c))
      \<longrightarrow> i = main_chain_index c"
    and alone: "no_child (prepareChain c (bk_height b)) b"
    and fresh: "\<forall>ts. fst e = Some ts \<longrightarrow> txns_of (bk_transactionData b) \<inter> executed ts = {}"
      "fst e \<noteq> None"
  defines "c0 \<equiv> prepareChain c (bk_height b)"
  defines "hs' \<equiv> hs @ dropped c c0"
  shows "\<exists>c' e' r. addBlock env me now b (c, e) = Inr ((main_at c' r, e'), r) \<and> fst r = bk_height b \<and> linked c' r
     \<and> ledger_inv env me hs' st0 (main_at c' r, e')
     \<and> hs' @ map (node_at c') (branch c' r) = hs @ main_nodes c @ [node_at c' r]
     \<and> cn_miner (node_at c' r) = bk_miner b
     \<and> cn_ancestorsMined (node_at c' r) = cn_ancestorsMined (node_at c (getMainChain c))
     \<and> (\<exists>td. cn_transactionData (node_at c' r) = Some td \<and> txns_of td = txns_of (bk_transactionData b))"
proof -
  let ?m = "getMainChain c"
  from addBlock_step [OF inv att b one, folded c0_def, of now] obtain c' r where
    added: "block_added c0 b now c' r" and c': "wf_chain c'" "sound env c'" "window_moved c c0" "wf_chain c0"
    and refl: "reflects env me {} st0 e (hs' @ main_nodes c')"
    and cases: "addBlock env me now b (c, e) = Inr ((c', e), r) \<and> isOrphan (node_at c' r)
          \<and> (\<forall>p. linked c0 p \<and> fst p = bk_height b - 1 \<and> cn_miner (node_at c0 p) = bk_prevBlockMiner b
               \<longrightarrow> (\<exists>i. i < snd p \<and> cn_miner (node_at c0 (fst p, i)) = bk_prevBlockMiner b \<and> isOrphan (node_at c0 (fst p, i))))
       \<or> (\<exists>p m k e'. linked c0 p \<and> fst p = bk_height b - 1 \<and> cn_miner (node_at c0 p) = bk_prevBlockMiner b
            \<and> descends c' p r \<and> descends c' r m \<and> cn_ancestorsMined (node_at c' r) = cn_ancestorsMined (node_at c0 p)
            \<and> (no_child c0 b \<longrightarrow> m = r)
            \<and> chainNodeMax_ref env me c' (getMainChain c') m = Inr k \<and> linked c' k
            \<and> addBlock env me now b (c, e) = Inr ((main_at c' k, e'), r)
            \<and> (\<forall>ts. fst e' = Some ts \<longrightarrow> wf_ts ts)
            \<and> (good_nodes env {} (hs' @ map (node_at c') (branch c' k))
                \<longrightarrow> reflects env me {} st0 e' (hs' @ map (node_at c') (branch c' k))))"
    unfolding hs'_def by blast
  from inv have wf: "wf_chain c" and len: "length hs = bc_min_height c" by (auto simp: ledger_inv_def)
  have g: "grows c0 c'" using added by (simp add: block_added_def)
  note fr = grows_frame [OF g]
  note gm = grows_main_nodes [OF c'(4) g]
  have tree0: "wf_tree c0" and main0: "linked c0 ?m" "getMainChain c0 = ?m"
    using c'(3,4) by (auto simp: wf_chain_def window_moved_def)
  have v0: "valid c0 s \<Longrightarrow> valid c s" "valid c0 s \<Longrightarrow> node_at c0 s = node_at c s" for s
    using c'(3) unfolding window_moved_def by blast+
  have m: "fst ?m = bc_height c" "snd ?m = main_chain_index c" by (simp_all add: getMainChain_def)
  have only: "s = ?m" if "valid c0 s" "fst s = bc_height c" "cn_miner (node_at c0 s) = bk_prevBlockMiner b" for s
  proof -
    from that v0 [of s] have "valid c (bc_height c, snd s)" "cn_miner (node_at c (bc_height c, snd s)) = cn_miner (node_at c ?m)"
      using prev by (cases s; simp)+
    with first have "snd s = main_chain_index c" by blast
    with that m show ?thesis by (simp add: prod_eq_iff)
  qed
  have mm: "cn_miner (node_at c0 ?m) = bk_prevBlockMiner b" using v0 main0 prev by (simp add: linked_def)
  have norph: "\<not> (\<exists>i. i < snd ?m \<and> cn_miner (node_at c0 (fst ?m, i)) = bk_prevBlockMiner b \<and> isOrphan (node_at c0 (fst ?m, i)))"
  proof
    assume "\<exists>i. i < snd ?m \<and> cn_miner (node_at c0 (fst ?m, i)) = bk_prevBlockMiner b \<and> isOrphan (node_at c0 (fst ?m, i))"
    then obtain i where i: "i < snd ?m" "cn_miner (node_at c0 (fst ?m, i)) = bk_prevBlockMiner b" by blast
    have "valid c0 (fst ?m, i)" using main0 i(1) by (simp add: linked_def valid_def)
    with only [of "(fst ?m, i)"] i m have "(fst ?m, i) = ?m" by simp
    then have "snd ?m = i" by (metis snd_conv)
    with i(1) show False by simp
  qed
  have "\<not> (\<forall>p. linked c0 p \<and> fst p = bk_height b - 1 \<and> cn_miner (node_at c0 p) = bk_prevBlockMiner b
               \<longrightarrow> (\<exists>i. i < snd p \<and> cn_miner (node_at c0 (fst p, i)) = bk_prevBlockMiner b \<and> isOrphan (node_at c0 (fst p, i))))"
  proof
    assume all: "\<forall>p. linked c0 p \<and> fst p = bk_height b - 1 \<and> cn_miner (node_at c0 p) = bk_prevBlockMiner b
               \<longrightarrow> (\<exists>i. i < snd p \<and> cn_miner (node_at c0 (fst p, i)) = bk_prevBlockMiner b \<and> isOrphan (node_at c0 (fst p, i)))"
    have "fst ?m = bk_height b - 1" using height(1) m(1) by simp
    with all [rule_format, of ?m] main0(1) mm norph show False by blast
  qed
  with cases obtain p mm' k e' where k: "linked c0 p" "fst p = bk_height b - 1" "cn_miner (node_at c0 p) = bk_prevBlockMiner b"
    "descends c' p r" "cn_ancestorsMined (node_at c' r) = cn_ancestorsMined (node_at c0 p)"
    "no_child c0 b \<longrightarrow> mm' = r"
    "chainNodeMax_ref env me c' (getMainChain c') mm' = Inr k" "linked c' k"
    "addBlock env me now b (c, e) = Inr ((main_at c' k, e'), r)" "\<forall>ts. fst e' = Some ts \<longrightarrow> wf_ts ts"
    "good_nodes env {} (hs' @ map (node_at c') (branch c' k))
       \<longrightarrow> reflects env me {} st0 e' (hs' @ map (node_at c') (branch c' k))" by blast
  have p: "p = ?m" using only [of p] k(1-3) height(1) by (simp add: linked_def)
  have r: "fst r = bk_height b" "linked c' r" using added k(4) by (auto simp: block_added_def descends_def)
  have main': "getMainChain c' = ?m" "linked c' ?m" "node_at c' ?m = node_at c0 ?m"
    using fr main0 grows_node [OF g main0(1)] by simp_all
  have tree': "wf_tree c'" using c'(1) by (simp add: wf_chain_def)
  have "chainNodeMax env me (?m, node_at c' ?m) (r, node_at c' r) = Inr (r, node_at c' r)"
  proof (rule chainNodeMax_higher [OF att])
    show "cn_ancestorsMined (snd (?m, node_at c' ?m)) = cn_ancestorsMined (snd (r, node_at c' r))"
      using k(5) p main'(3) by simp
    show "cn_score (snd (?m, node_at c' ?m)) < cn_score (snd (r, node_at c' r))"
      using linked_node(2) [OF tree' main'(2)] linked_node(2) [OF tree' r(2)] score_less [OF _ height(2), of "bc_height c"] height(1) m(1) r(1)
      by (simp del: of_nat_Suc)
  qed
  moreover have "mm' = r" using k(6) alone by (simp add: c0_def)
  ultimately have kr: "k = r"
    using k(7) main' r(2) linked_node(3) [OF tree' main'(2)] linked_node(3) [OF tree' r(2)]
    by (simp add: chainNodeMax_ref_def)
  have "par c' r = ?m" using k(4) p r(1) height m(1) by (simp add: descends_def)
  moreover have "bc_min_height c' < fst r"
    using linked_window [OF main0(1)] fr(1) m(1) r(1) height by (simp add: in_window_def)
  ultimately have br: "branch c' r = branch c' ?m @ [r]" using branch_par [of c' r] by simp
  have eq: "hs' @ map (node_at c') (branch c' r) = hs @ main_nodes c @ [node_at c' r]"
  proof -
    have "map (node_at c') (branch c' ?m) = main_nodes c'" using main'(1) by (simp add: main_nodes_def)
    moreover have "main_nodes c' = main_nodes c0" using gm(1) .
    moreover have "main_nodes c = dropped c c0 @ main_nodes c0"
      using branch_moved [OF wf c'(3)] by (simp add: main_nodes_def)
    ultimately show ?thesis by (simp add: br hs'_def)
  qed
  obtain ts where ts: "fst e = Some ts" using fresh(2) by auto
  from added obtain td where td: "copyTransactionData (bk_transactionData b) = Inr td"
    "cn_transactionData (node_at c' r) = Some td" "cn_miner (node_at c' r) = bk_miner b"
    unfolding block_added_def by blast
  have btd: "wf_txn_data (bk_transactionData b)" using b by (simp add: block_ok_def)
  note tdc = copyTransactionData_ok [OF btd td(1)]
  have good: "good_nodes env {} (hs' @ map (node_at c') (branch c' r))"
  proof -
    from refl have gn: "good_nodes env {} (hs' @ main_nodes c')" and ex: "txns_executed {} ts (txn_data_of (hs' @ main_nodes c'))"
      by (auto simp: reflects_def ts)
    have "txns_of td \<inter> executed ts = {}" using fresh(1) ts tdc by simp
    then have "fresh_txns {} (txn_data_of (hs' @ main_nodes c') @ [td])"
      using gn ex tdc by (simp add: fresh_txns_append txns_executed_def good_nodes_def)
    moreover have "map (node_at c') (branch c' r) = main_nodes c' @ [node_at c' r]"
      using br main'(1) by (simp add: main_nodes_def)
    moreover have "covered env (bk_miner b)" using b by (simp add: block_ok_def)
    ultimately show ?thesis using gn td by (simp add: good_nodes_def txn_data_of_def)
  qed
  have len': "length hs' = bc_min_height c'"
    using dropped_length [OF wf c'(3)] len c'(3) fr(1) by (simp add: hs'_def window_moved_def)
  have "ledger_inv env me hs' st0 (main_at c' r, e')"
    using k(10,11) good kr c'(2) r(2) tree' len'
    by (simp add: ledger_inv_def wf_chain_def sound_def main_nodes_main_at)
  then show ?thesis
    using k(5,9) kr r eq td(2,3) tdc p v0 main0(1)
    by (intro exI [of _ c'] exI [of _ e'] exI [of _ r]) (simp add: linked_def)
qed


subsection \<open>Mining\<close>

text \<open>Selecting transactions keeps the invariant: the executed set stays the same.\<close>

lemma ledger_txns:
  assumes "ledger_inv env me hs st0 (c, Some ts, st)" "wf_ts ts'" "executed ts' = executed ts"
  shows "ledger_inv env me hs st0 (c, Some ts', st)"
  using assms by (simp add: ledger_inv_def reflects_def txns_executed_def)

text \<open>The mining node's view: the end of the main chain is the only block of its miner there.\<close>

definition main_unique :: "blockchain \<Rightarrow> bool" where
  "main_unique c \<longleftrightarrow> (\<forall>i. valid c (bc_height c, i)
     \<and> cn_miner (node_at c (bc_height c, i)) = cn_miner (node_at c (getMainChain c)) \<longrightarrow> i = main_chain_index c)"

definition no_orphan_for :: "blockchain \<Rightarrow> node_id \<Rightarrow> nat \<Rightarrow> bool" where
  "no_orphan_for c m h \<longleftrightarrow> (\<forall>s. valid c s \<and> fst s = Suc h \<and> isOrphan (node_at c s)
     \<longrightarrow> cn_parent (node_at c s) \<noteq> ParentMiner m)"

lemma generateBlock_step:
  assumes "ledger_inv env me hs st0 (chain_of state, Some ts, st)"
    and "attack_ok env me" and "unat me < N_NODES" and "known_senders txns"
    and "movable (chain_of state) (Suc (bc_height (chain_of state)))"
    and "one_root (prepareChain (chain_of state) (Suc (bc_height (chain_of state))))"
    and "Suc (bc_height (chain_of state)) < 2 ^ 32"
    and "main_unique (chain_of state)"
    and "no_orphan_for (prepareChain (chain_of state) (Suc (bc_height (chain_of state)))) me (Suc (bc_height (chain_of state)))"
  shows "\<exists>b state' e' hs' n. generateBlock env txns me now (state, Some ts, st) = Inr (b, state', e')
     \<and> bk_height b = Suc (bc_height (chain_of state)) \<and> bk_miner b = me
     \<and> bk_prevBlockMiner b = cn_miner (node_at (chain_of state) (getMainChain (chain_of state)))
     \<and> bc_height (chain_of state') = Suc (bc_height (chain_of state))
     \<and> mined_by_me state' = mined_by_me state + 1
     \<and> ledger_inv env me hs' st0 (chain_of state', e')
     \<and> map cn_miner (hs' @ main_nodes (chain_of state')) = map cn_miner (hs @ main_nodes (chain_of state)) @ [me]
     \<and> n = node_at (chain_of state') (getMainChain (chain_of state'))
     \<and> cn_ancestorsMined n = cn_ancestorsMined (node_at (chain_of state) (getMainChain (chain_of state))) + 1"
proof -
  let ?c = "chain_of state" and ?H = "Suc (bc_height (chain_of state))"
  from assms(1) have wf: "wf_chain ?c" and wts: "wf_ts ts" by (auto simp: ledger_inv_def)
  then have tree: "wf_tree ?c" and main: "linked ?c (getMainChain ?c)" by (auto simp: wf_chain_def)
  note nm = linked_node [OF tree main]
  from generateTransactionData_ok [OF wts assms(4,3), of now] obtain d ts1 where
    g: "generateTransactionData initNetwork txns ts now me = Inr (d, ts1)" "wf_ts ts1" "executed ts1 = executed ts"
    and d: "case d of None \<Rightarrow> True | Some d \<Rightarrow> wf_txn_data d \<and> txn_data_words d \<le> length (included_transactions d)
        \<and> txns_of d \<inter> executed ts1 = {}"
    by (auto split: option.splits)
  obtain td where td: "(case d of None \<Rightarrow> Inr no_transactions | Some d \<Rightarrow> copyTransactionData d) = Inr td"
    "wf_txn_data td" "txn_data_words td \<le> length (included_transactions td)" "txns_of td \<inter> executed ts1 = {}"
  proof (cases d)
    case None
    with no_transactions_ok that [of no_transactions] show thesis by simp
  next
    case (Some x)
    with d have x: "wf_txn_data x" "txn_data_words x \<le> length (included_transactions x)" "txns_of x \<inter> executed ts1 = {}"
      by auto
    then obtain y where y: "copyTransactionData x = Inr y" by (auto simp: copyTransactionData_def)
    note yc = copyTransactionData_ok [OF x(1) y]
    from yc(5) have "txn_data_words y \<le> length (included_transactions y)"
      by (simp add: copyTransactionData_def split: if_splits)
    with Some y yc x(3) that [of y] show thesis by simp
  qed
  define b where "b = \<lparr>bk_timestamp = now, bk_size = 10, bk_miner = me, bk_prevBlockMiner = cn_miner (node_at ?c (getMainChain ?c)),
     bk_sender = me, bk_height = ?H, bk_is_attack_block = False, bk_transactionData = td\<rparr>"
  have bs: "bk_height b = ?H" "bk_miner b = me" "bk_transactionData b = td"
    "bk_prevBlockMiner b = cn_miner (node_at ?c (getMainChain ?c))" by (simp_all add: b_def)
  let ?prep = "prepareChain ?c ?H"
  note p0 = prepareChain_ok [OF wf assms(5)]
  have cov: "covered env me" using assms(2) by (simp add: attack_ok_def)
  have "bc_min_height ?prep < ?H" using p0(2) by (simp add: window_moved_def)
  with assms(5) cov td have bok: "block_ok env ?c b" by (simp add: block_ok_def bs)
  have alone: "no_child ?prep b" using assms(9) by (simp add: no_child_def no_orphan_for_def bs)
  note inv1 = ledger_txns [OF assms(1) g(2,3)]
  have step: "\<exists>c' e' r. addBlock env me now b (?c, Some ts1, st) = Inr ((main_at c' r, e'), r) \<and> fst r = bk_height b \<and> linked c' r
     \<and> ledger_inv env me (hs @ dropped ?c (prepareChain ?c (bk_height b))) st0 (main_at c' r, e')
     \<and> (hs @ dropped ?c (prepareChain ?c (bk_height b))) @ map (node_at c') (branch c' r) = hs @ main_nodes ?c @ [node_at c' r]
     \<and> cn_miner (node_at c' r) = bk_miner b
     \<and> cn_ancestorsMined (node_at c' r) = cn_ancestorsMined (node_at ?c (getMainChain ?c))
     \<and> (\<exists>td. cn_transactionData (node_at c' r) = Some td \<and> txns_of td = txns_of (bk_transactionData b))"
    by (rule addBlock_on_main [OF inv1 assms(2) bok])
      (use assms(6-8) alone td(4) in \<open>simp_all add: bs main_unique_def\<close>)
  then obtain c' e' r where a: "addBlock env me now b (?c, Some ts1, st) = Inr ((main_at c' r, e'), r)"
    "fst r = ?H" "linked c' r" "ledger_inv env me (hs @ dropped ?c ?prep) st0 (main_at c' r, e')"
    "(hs @ dropped ?c ?prep) @ map (node_at c') (branch c' r) = hs @ main_nodes ?c @ [node_at c' r]"
    "cn_miner (node_at c' r) = me"
    "cn_ancestorsMined (node_at c' r) = cn_ancestorsMined (node_at ?c (getMainChain ?c))"
    by (auto simp: bs)
  let ?swd = "main_at c' r" and ?hs = "hs @ dropped ?c ?prep"
  from a(4) have wf1: "wf_chain ?swd" and snd1: "sound env ?swd" by (auto simp: ledger_inv_def)
  have v1: "valid ?swd r" using a(3) by (simp add: linked_def)
  have sh1: "shape ?swd" using wf1 by (simp add: wf_chain_def wf_tree_def)
  let ?n = "(node_at ?swd r)\<lparr>cn_ancestorsMined := cn_ancestorsMined (node_at ?swd r) + 1\<rparr>"
  from setChainNode_ok [OF sh1 v1, of ?n] obtain c2 where
    c2: "setChainNode ?swd r ?n = Inr c2" "set_node ?swd r ?n c2" by blast
  note mn = mined_node [OF wf1 snd1 v1 c2(2)]
  have run: "generateBlock env txns me now (state, Some ts, st) =
      Inr (b, state\<lparr>mined_by_me := mined_by_me state + 1, chain_of := c2\<rparr>, e')"
    using g(1) nm(1,3) td(1) a(1) c2(1) getChainNode_ok [OF sh1 v1]
    by (simp add: generateBlock_def Let_def getMainChain_def b_def [unfolded getMainChain_def fst_conv, symmetric])
  have "reflects env me {} st0 e' (?hs @ main_nodes c2) = reflects env me {} st0 e' (?hs @ main_nodes ?swd)"
    by (rule reflects_cong) (simp_all add: mn(5,6))
  then have inv2: "ledger_inv env me ?hs st0 (c2, e')"
    using a(4) mn(1,2,4) by (simp add: ledger_inv_def)
  have miners: "map cn_miner (?hs @ main_nodes c2) = map cn_miner (hs @ main_nodes ?c) @ [me]"
  proof -
    have "map cn_miner (?hs @ main_nodes c2) = map cn_miner (?hs @ map (node_at c') (branch c' r))"
      using mn(5) by (simp add: main_nodes_main_at)
    also have "\<dots> = map cn_miner (hs @ main_nodes ?c) @ [me]" using a(5,6) by simp
    finally show ?thesis .
  qed
  have top: "getMainChain c2 = r" "bc_height c2 = ?H"
  proof -
    show "getMainChain c2 = r" using mn(3) by simp
    then show "bc_height c2 = ?H" using a(2) by (simp add: getMainChain_def prod_eq_iff)
  qed
  have "cn_ancestorsMined (node_at c2 r) = cn_ancestorsMined (node_at ?c (getMainChain ?c)) + 1"
    using mn(10) a(7) by simp
  with run inv2 miners top bs show ?thesis
    by (intro exI [of _ b] exI [of _ "state\<lparr>mined_by_me := mined_by_me state + 1, chain_of := c2\<rparr>"] exI [of _ e']
        exI [of _ ?hs] exI [of _ "node_at c2 r"]) simp
qed

text \<open>
  C16: mining extends the main chain by exactly one block: the new block names the end of the
  main chain as its parent, becomes the new end, counts as mined by the node, and the
  ledger invariant holds for the chain with it, for honest nodes and attackers alike.
\<close>

theorem generateBlock_extends:
  assumes "ledger_inv env me hs st0 (chain_of state, Some ts, st)"
    and "attack_ok env me" and "unat me < N_NODES" and "known_senders txns"
    and "movable (chain_of state) (Suc (bc_height (chain_of state)))"
    and "one_root (prepareChain (chain_of state) (Suc (bc_height (chain_of state))))"
    and "Suc (bc_height (chain_of state)) < 2 ^ 32"
    and "main_unique (chain_of state)"
    and "no_orphan_for (prepareChain (chain_of state) (Suc (bc_height (chain_of state)))) me (Suc (bc_height (chain_of state)))"
  shows "\<exists>b state' e' hs' n. generateBlock env txns me now (state, Some ts, st) = Inr (b, state', e')
     \<and> bk_height b = Suc (bc_height (chain_of state)) \<and> bk_miner b = me
     \<and> bk_prevBlockMiner b = cn_miner (node_at (chain_of state) (getMainChain (chain_of state)))
     \<and> bc_height (chain_of state') = Suc (bc_height (chain_of state))
     \<and> mined_by_me state' = mined_by_me state + 1
     \<and> ledger_inv env me hs' st0 (chain_of state', e')
     \<and> map cn_miner (hs' @ main_nodes (chain_of state')) = map cn_miner (hs @ main_nodes (chain_of state)) @ [me]
     \<and> n = node_at (chain_of state') (getMainChain (chain_of state'))
     \<and> cn_ancestorsMined n = cn_ancestorsMined (node_at (chain_of state) (getMainChain (chain_of state))) + 1"
  using assms by (rule generateBlock_step)

theorem generateBlock_extends_witness:
  "\<exists>b state' e'. generateBlock example_env (\<lambda>i. generate_txn N_NODES i 0) 3 5
      (\<lparr>chain_of = initBlockchain, miningState = HashPowerPortion 0, mined_by_me = 0\<rparr>, Some initTransactionState, example_stats)
      = Inr (b, state', e') \<and> bc_height (chain_of state') = 1 \<and> mined_by_me state' = 1"
proof -
  let ?state = "\<lparr>chain_of = initBlockchain, miningState = HashPowerPortion 0, mined_by_me = 0\<rparr>"
  have "ledger_inv example_env 3 [] example_stats (chain_of ?state, Some initTransactionState, example_stats)"
    using ledger_init by simp
  moreover have "attack_ok example_env 3" "unat (3 :: node_id) < N_NODES" "known_senders (\<lambda>i. generate_txn N_NODES i 0)"
    by (simp_all add: example_attack_ok N_NODES_def known_senders_def generate_txn_def)
  moreover have "movable (chain_of ?state) (Suc (bc_height (chain_of ?state)))" by (simp add: movable_def DEPTH_TO_KEEP_def)
  moreover have "one_root (prepareChain (chain_of ?state) (Suc (bc_height (chain_of ?state))))"
    using example_one_root by simp
  moreover have "Suc (bc_height (chain_of ?state)) < 2 ^ 32" by simp
  moreover have "main_unique (chain_of ?state)" by (simp add: main_unique_def valid_init)
  moreover have "no_orphan_for (prepareChain (chain_of ?state) (Suc (bc_height (chain_of ?state)))) 3 (Suc (bc_height (chain_of ?state)))"
  proof -
    have c: "prepareChain initBlockchain 1 = initBlockchain\<lparr>bc_max_height := 1\<rparr>"
      by (simp add: prepareChain_def Let_def DEPTH_TO_KEEP_def)
    then have "valid (prepareChain initBlockchain 1) s \<longleftrightarrow> s = (0, 0)" for s unfolding c using valid_init by simp
    then show ?thesis by (simp add: no_orphan_for_def)
  qed
  ultimately show ?thesis
    using generateBlock_extends [of example_env 3 "[]" example_stats ?state initTransactionState example_stats
        "\<lambda>i. generate_txn N_NODES i 0" 5] by auto
qed


subsection \<open>The height of an honest node's main chain\<close>

lemma chainNodeMaxHonest_score:
  "cn_score (snd (chainNodeMaxHonest a b)) = max (cn_score (snd a)) (cn_score (snd b))"
  by (auto simp: chainNodeMaxHonest_def Let_def max_def)

lemma chainNodeMax_ref_honest:
  assumes "wf_tree c" "covered env me" "\<not> attacker env me" "linked c r" "linked c s" "chainNodeMax_ref env me c r s = Inr k"
    "fst r < 2 ^ 32" "fst s < 2 ^ 32"
  shows "(k = r \<or> k = s) \<and> fst r \<le> fst k"
proof -
  note nr = linked_node [OF assms(1,4)] and ns = linked_node [OF assms(1,5)]
  let ?m = "chainNodeMaxHonest (r, node_at c r) (s, node_at c s)"
  have k: "k = fst ?m"
    using assms(2,3,6) nr(3) ns(3) by (simp add: chainNodeMax_ref_def chainNodeMax_def is_attacker_eq)
  have or: "?m = (r, node_at c r) \<or> ?m = (s, node_at c s)" by (rule chainNodeMaxHonest_choice)
  have "cn_score (node_at c r) \<le> cn_score (snd ?m)" by (simp add: chainNodeMaxHonest_score)
  with or nr(2) ns(2) have "of_nat (fst r) \<le> (of_nat (fst k) :: u32)" by (auto simp: k)
  moreover have "fst k < 2 ^ 32" using or assms(7,8) by (auto simp: k)
  ultimately have "fst r \<le> fst k" using assms(7) by (simp add: word_le_nat_alt unat_of_nat)
  with or show ?thesis by (auto simp: k)
qed

text \<open>C29: whatever block an honest node adds, its main chain does not get shorter.\<close>

theorem addBlock_honest_height:
  assumes "ledger_inv env me hs st0 (c, e)" and "attack_ok env me" and "\<not> attacker env me" and "block_ok env c b"
    and "one_root (prepareChain c (bk_height b))" and "bc_max_height (prepareChain c (bk_height b)) < 2 ^ 32"
  shows "\<exists>c' e' r. addBlock env me now b (c, e) = Inr ((c', e'), r) \<and> bc_height c \<le> bc_height c'"
proof -
  let ?prep = "prepareChain c (bk_height b)"
  from addBlock_step [OF assms(1,2,4,5), of now] obtain c' r where
    added: "block_added ?prep b now c' r" and c': "wf_chain c'" "window_moved c ?prep" "wf_chain ?prep"
    and cases: "addBlock env me now b (c, e) = Inr ((c', e), r) \<or>
       (\<exists>m k e'. descends c' r m \<and> chainNodeMax_ref env me c' (getMainChain c') m = Inr k
            \<and> addBlock env me now b (c, e) = Inr ((main_at c' k, e'), r))"
    by blast
  have g: "grows ?prep c'" using added by (simp add: block_added_def)
  have H: "bc_height c' = bc_height c" "fst (getMainChain c') = bc_height c"
    using g c'(2) by (auto simp: grows_def same_frame_def window_moved_def getMainChain_def)
  have tree: "wf_tree c'" and main: "linked c' (getMainChain c')" using c'(1) by (auto simp: wf_chain_def)
  have small: "fst s < 2 ^ 32" if "linked c' s" for s
  proof -
    have "fst s \<le> bc_max_height c'"
    proof (rule ccontr)
      assume "\<not> fst s \<le> bc_max_height c'"
      with tree that have "nodes c' (fst s) = []" by (auto simp: wf_tree_def linked_def valid_def)
      with that show False by (simp add: linked_def valid_def)
    qed
    with assms(6) grows_frame(2) [OF g] show ?thesis by simp
  qed
  from cases show ?thesis
  proof (elim disjE exE conjE)
    fix m k e'
    assume m: "descends c' r m" "chainNodeMax_ref env me c' (getMainChain c') m = Inr k"
      "addBlock env me now b (c, e) = Inr ((main_at c' k, e'), r)"
    have lm: "linked c' m" using m(1) by (simp add: descends_def)
    have "covered env me" using assms(2) by (simp add: attack_ok_def)
    from chainNodeMax_ref_honest [OF tree this assms(3) main lm m(2) small [OF main] small [OF lm]] H m(3)
    show ?thesis by auto
  qed (use H in auto)
qed

theorem addBlock_honest_height_witness:
  "\<exists>c' e' r. addBlock example_env 5 1 (example_block 1 7 NODE_ID_MAX)
       (initBlockchain, Some initTransactionState, example_stats) = Inr ((c', e'), r) \<and> bc_height initBlockchain \<le> bc_height c'"
proof -
  have "\<not> attacker example_env 5" by (simp add: example_attackers)
  moreover have "bk_height (example_block 1 7 NODE_ID_MAX) = 1" by (simp add: example_block_def)
  moreover have "bc_max_height (prepareChain initBlockchain 1) < 2 ^ 32"
    by (simp add: prepareChain_def Let_def DEPTH_TO_KEEP_def)
  ultimately show ?thesis
    using addBlock_honest_height [OF ledger_init [of example_env 5 example_stats] example_attack_ok [of 5] _ example_block_ok [of 7]]
      example_one_root by simp
qed

subsection \<open>Switching\<close>

text \<open>
  C8: switching to any linked node of the same tree makes it the end of the main chain and
  leaves the executed transactions and the statistics as those of the new main chain: the
  blocks above the common ancestor are taken back and the new ones applied, no other.
\<close>

theorem switchChains_ledger:
  assumes "ledger_inv env me hs st0 (c, e)" and "linked c r" and "root c r = root c (getMainChain c)"
    and "good_nodes env {} (hs @ map (node_at c) (branch c r))"
  shows "\<exists>e'. switchChains env me r (snd r) (c, e) = Inr (main_at c r, e')
     \<and> ledger_inv env me hs st0 (main_at c r, e')"
proof -
  from assms(1) have wf: "wf_chain c" and snd: "sound env c" and len: "length hs = bc_min_height c"
    and ts: "\<forall>ts. fst e = Some ts \<longrightarrow> wf_ts ts" and refl: "reflects env me {} st0 e (hs @ main_nodes c)"
    by (auto simp: ledger_inv_def)
  from wf have tree: "wf_tree c" and main: "linked c (getMainChain c)" by (auto simp: wf_chain_def)
  from node_log.switchChains_ok [OF wf assms(2,3) refl [unfolded main_nodes_def] assms(4)] obtain e' where
    e': "switchChains env me r (snd r) (c, e) = Inr (main_at c r, e')"
      "reflects env me {} st0 e' (hs @ map (node_at c) (branch c r))" by blast
  have "safe_effects env e ([] @ map (node_at c) (branch c (getMainChain c)))"
    using sound_safe [OF tree snd main] ts by (simp add: safe_effects_def)
  from safe_log.switchChains_ok [OF wf assms(2,3) this, of me] sound_safe [OF tree snd assms(2)] e'(1)
  have "\<forall>ts. fst e' = Some ts \<longrightarrow> wf_ts ts" by (auto simp: safe_effects_def)
  with e' assms(2) tree snd len show ?thesis
    by (simp add: ledger_inv_def wf_chain_def sound_def main_nodes_main_at)
qed

theorem switchChains_ledger_witness:
  "\<exists>e'. switchChains example_env 5 (0, 0) 0 (initBlockchain, Some initTransactionState, example_stats)
     = Inr (main_at initBlockchain (0, 0), e')"
proof -
  have "linked initBlockchain (0, 0)" "root initBlockchain (0, 0) = root initBlockchain (getMainChain initBlockchain)"
    "good_nodes example_env {} ([] @ map (node_at initBlockchain) (branch initBlockchain (0, 0)))"
    using wf_chain_init by (simp_all add: wf_chain_def branch_def good_nodes_def txn_data_of_def)
  from switchChains_ledger [OF ledger_init [of example_env 5 example_stats] this] show ?thesis by auto
qed

subsection \<open>Where the window ends\<close>

text \<open>
  C37: a block at or below the bottom of the window, one that arrives after the node has moved
  its window past it, is not dropped or kept as an orphan: it stops the program.
\<close>

theorem addBlock_late_aborts:
  assumes "wf_chain c" and "bk_height b \<le> bc_min_height c"
    and "copyTransactionData (bk_transactionData b) = Inr td"
  shows "addBlock env me now b (c, e) = Inl Abort"
proof -
  let ?h = "bk_height b"
  from assms(1) have tree: "wf_tree c" and main: "linked c (getMainChain c)" by (auto simp: wf_chain_def)
  have win: "in_window c (bc_min_height c)" by (simp add: in_window_def)
  have le: "?h \<le> bc_max_height c"
  proof -
    have "nodes c (bc_height c) \<noteq> []" using main by (auto simp: linked_def valid_def getMainChain_def)
    moreover have "in_window c (bc_height c)" using linked_window [OF main] by (simp add: getMainChain_def)
    ultimately have "\<not> bc_max_height c < bc_height c" using tree by (auto simp: wf_tree_def)
    with \<open>in_window c (bc_height c)\<close> assms(2) show ?thesis by (simp add: in_window_def)
  qed
  then have prep: "prepareChain c ?h = c" by (simp add: prepareChain_def)
  show ?thesis
  proof (cases "?h < bc_min_height c")
    case True
    then show ?thesis by (simp add: addBlock_def prep Let_def)
  next
    case False
    with assms(2) have h: "?h = bc_min_height c" by simp
    define n where "n = \<lparr>cn_parent = ParentMiner (bk_prevBlockMiner b), cn_transactionData = Some td,
      cn_timestamp = now, cn_miner = bk_miner b, cn_height = ?h, cn_score = 0, cn_flags = 0, cn_ancestorsMined = 0\<rparr>"
    have "cn_height n = ?h" "in_window c ?h" using win h by (simp_all add: n_def)
    from append_ok [OF tree this(2,1)] obtain l c1 where
      c1: "appendNode (growLevel (level c ?h)) n = Inr l" "setChainLevel c ?h l = Inr c1" "inserted c (?h, length (nodes c ?h)) n c1"
      by blast
    have min: "bc_min_height c1 = bc_min_height c" using c1(3) by (simp add: inserted_def same_frame_def)
    have "linkToParent (?h, length (nodes c ?h)) n c1 = Inl Abort"
      using h min by (cases "?h = 0") (simp_all add: linkToParent_def pred_height_def)
    moreover have "populateChainNode b = Inr (n\<lparr>cn_timestamp := bk_timestamp b\<rparr>)"
      by (simp add: populateChainNode_def assms(3) n_def)
    moreover have "n\<lparr>cn_timestamp := bk_timestamp b\<rparr>\<lparr>cn_timestamp := now\<rparr> = n" by (simp add: n_def)
    moreover have "getChainLevel c ?h = Inr (level c ?h)" using wf_tree_shape [OF tree] win h by simp
    ultimately show ?thesis
      using c1(1,2) by (simp add: addBlock_def prep Let_def nodes_def [symmetric] del: getChainLevel_ok)
  qed
qed

theorem addBlock_late_aborts_witness:
  "addBlock example_env 5 1 (example_block 0 7 4) (initBlockchain, Some initTransactionState, example_stats) = Inl Abort"
proof -
  have "bk_height (example_block 0 7 4) \<le> bc_min_height initBlockchain" by (simp add: example_block_def)
  moreover have "\<exists>td. copyTransactionData (bk_transactionData (example_block 0 7 4)) = Inr td"
    using no_transactions_ok by (simp add: copyTransactionData_def example_block_def)
  ultimately show ?thesis using addBlock_late_aborts [OF wf_chain_init] by blast
qed

text \<open>
  a switch to a branch that meets the main chain only below the window stops the program.
\<close>

lemma switchChains_fork_too_deep:
  assumes "wf_chain c" and "sound env c" and "linked c r" and "root c r \<noteq> root c (getMainChain c)"
    and "0 < bc_min_height c" and "wf_ts ts"
  shows "switchChains env me r i (c, Some ts, st) = Inl Abort"
proof -
  let ?m = "getMainChain c"
  from assms(1) have tree: "wf_tree c" and main: "linked c ?m" by (auto simp: wf_chain_def)
  have rt: "linked c (root c ?m)" unfolding root_def by (rule linked_pow [OF tree main order_refl])
  then have "0 < fst (root c ?m)" using linked_window [OF rt] assms(5) by (simp add: in_window_def)
  with rt soundD [OF assms(2)] have "sound_node env (node_at c (root c ?m))" by (simp add: linked_def)
  with sound_safe [OF tree assms(2) main] have "safe_effects env (Some ts, st)
      ([] @ node_at c (root c ?m) # map (node_at c) (branch c ?m))"
    using assms(6) by (simp add: safe_effects_def safe_nodes_def) (auto simp: sound_node_def)
  from safe_log.switchChains_abort [OF assms(1,3,4,5) this] show ?thesis .
qed

text \<open>Two blocks at the bottom of a window that starts at height 200, the first one on the main chain.\<close>

definition example_fork_node :: "node_id \<Rightarrow> chain_node" where
  "example_fork_node m = \<lparr>cn_parent = ParentIndex 0, cn_transactionData = Some no_transactions, cn_timestamp = 0,
     cn_miner = m, cn_height = 200, cn_score = 200, cn_flags = 0, cn_ancestorsMined = 0\<rparr>"

definition example_fork :: blockchain where
  "example_fork = \<lparr>current_levels = generateChainLevels,
     old_levels = generateChainLevels[0 := \<lparr>lv_nodes = [example_fork_node 1, example_fork_node 2], lv_capacity = 2\<rparr>],
     main_chain_index = 0, bc_height = 200, bc_max_height = 200, bc_min_height = 200\<rparr>"

lemma nodes_example_fork:
  "in_window example_fork h \<Longrightarrow> nodes example_fork h = (if h = 200 then [example_fork_node 1, example_fork_node 2] else [])"
  by (auto simp: example_fork_def nodes_def level_def in_window_def generateChainLevels_def initChainLevel_def
      nth_list_update)

lemma valid_example_fork: "valid example_fork s \<longleftrightarrow> fst s = 200 \<and> snd s < 2"
proof -
  have "in_window example_fork 200" by (simp add: example_fork_def in_window_def)
  then show ?thesis using nodes_example_fork [of "fst s"] by (auto simp: valid_def nodes_example_fork split: if_splits)
qed

lemma node_example_fork:
  assumes "valid example_fork s"
  shows "\<exists>m. node_at example_fork s = example_fork_node m \<and> (m = 1 \<or> m = 2)"
proof -
  from assms have "fst s = 200" "snd s = 0 \<or> snd s = 1" by (auto simp: valid_example_fork)
  moreover have "nodes example_fork 200 = [example_fork_node 1, example_fork_node 2]"
    by (rule trans [OF nodes_example_fork]) (simp_all add: example_fork_def in_window_def)
  ultimately show ?thesis by (auto simp: node_at_def)
qed

lemma linked_example_fork: "linked example_fork s \<longleftrightarrow> valid example_fork s"
  using node_example_fork [of s] by (auto simp: linked_def isOrphan_def example_fork_node_def)

lemma example_fork_heights: "bc_min_height example_fork = 200" "bc_height example_fork = 200" "bc_max_height example_fork = 200"
  by (simp_all add: example_fork_def)

lemma wf_example_fork: "wf_chain example_fork"
proof -
  have "wf_node example_fork s" if "valid example_fork s" for s
    using node_example_fork [OF that] that
    by (auto simp: wf_node_def valid_example_fork isOrphan_def example_fork_node_def example_fork_heights)
  moreover have "shape example_fork" by (simp add: example_fork_def shape_def generateChainLevels_def)
  moreover have "nodes example_fork h = []" if "in_window example_fork h" "bc_max_height example_fork < h" for h
    using that nodes_example_fork by (simp add: example_fork_def)
  moreover have "length (nodes example_fork h) \<le> lv_capacity (level example_fork h)" if "in_window example_fork h" for h
    using nodes_example_fork [OF that] by (auto simp: level_def example_fork_def generateChainLevels_def)
  moreover have "linked example_fork (getMainChain example_fork)"
    by (simp add: linked_example_fork valid_example_fork) (simp add: getMainChain_def example_fork_def)
  ultimately show ?thesis unfolding wf_chain_def wf_tree_def by (simp add: example_fork_heights)
qed

subsection \<open>Receiving\<close>

text \<open>
  receiving a block reports what it did to the chain: updatedMainChain is set exactly when
  the end of the main chain is another one, foundParent exactly when the block is linked.
\<close>

lemma receiveBlock_reports:
  assumes "ledger_inv env me hs st0 (chain_of state, e)" and "attack_ok env me" and "block_ok env (chain_of state) b"
    and "one_root (prepareChain (chain_of state) (bk_height b))"
  shows "\<exists>rc state' e' r. receiveBlock env me now b False False (state, e) = Inr (rc, state', e')
     \<and> wf_chain (chain_of state') \<and> valid (chain_of state') r \<and> fst r = bk_height b
     \<and> cn_miner (node_at (chain_of state') r) = bk_miner b \<and> cn_timestamp (node_at (chain_of state') r) = now
     \<and> rc_elapsed rc = BLOCK_VALIDATION_TIME
     \<and> (updatedMainChain rc \<longleftrightarrow> getMainChain (chain_of state') \<noteq> getMainChain (chain_of state))
     \<and> (foundParent rc \<longleftrightarrow> linked (chain_of state') r)"
proof -
  let ?c = "chain_of state" and ?prep = "prepareChain (chain_of state) (bk_height b)"
  from addBlock_step [OF assms, of now] obtain c' r where
    added: "block_added ?prep b now c' r" and c': "wf_chain c'"
    and cases: "addBlock env me now b (?c, e) = Inr ((c', e), r) \<or>
       (\<exists>k e'. linked c' k \<and> addBlock env me now b (?c, e) = Inr ((main_at c' k, e'), r))"
    by blast
  from cases obtain c2 e' where c2: "addBlock env me now b (?c, e) = Inr ((c2, e'), r)" "wf_chain c2"
    "valid c2 = valid c'" "node_at c2 = node_at c'"
  proof (elim disjE exE conjE)
    assume "addBlock env me now b (?c, e) = Inr ((c', e), r)"
    with c' that show thesis by blast
  next
    fix k e' assume "linked c' k" "addBlock env me now b (?c, e) = Inr ((main_at c' k, e'), r)"
    with c' that [of "main_at c' k" e'] show thesis by (simp add: wf_chain_def)
  qed
  have r: "valid c' r" "fst r = bk_height b" "cn_miner (node_at c' r) = bk_miner b" "cn_timestamp (node_at c' r) = now"
    using added unfolding block_added_def by blast+
  have sh: "shape c2" using c2(2) by (simp add: wf_chain_def wf_tree_def)
  let ?rc = "\<lparr>rc_elapsed = BLOCK_VALIDATION_TIME,
      updatedMainChain = (bc_height c2 \<noteq> bc_height ?c \<or> main_chain_index c2 \<noteq> main_chain_index ?c),
      foundParent = \<not> isOrphan (node_at c2 r)\<rparr>"
  have "receiveBlock env me now b False False (state, e) = Inr (?rc, state\<lparr>chain_of := c2\<rparr>, e')"
    using c2(1,3) sh r(1) by (simp add: receiveBlock_def validateBlock_def Let_def)
  then show ?thesis
    using c2 r by (intro exI [of _ ?rc] exI [of _ "state\<lparr>chain_of := c2\<rparr>"] exI [of _ e'] exI [of _ r])
      (auto simp: linked_def getMainChain_def)
qed

subsection \<open>The two comparisons as orders\<close>

text \<open>
  an honest node's choice does not depend on the order in which it compares: of three
  candidates it takes the same one however they are grouped, and of two it takes the same
  one from either side, unless all that it compares is equal.
\<close>

lemma chainNodeMaxHonest_order:
  "chainNodeMaxHonest (chainNodeMaxHonest a b) c = chainNodeMaxHonest a (chainNodeMaxHonest b c)
   \<and> (chainNodeMaxHonest a b = chainNodeMaxHonest b a
      \<or> cn_score (snd a) = cn_score (snd b) \<and> cn_ancestorsMined (snd a) = cn_ancestorsMined (snd b)
        \<and> cn_timestamp (snd a) = cn_timestamp (snd b) \<and> cn_miner (snd a) = cn_miner (snd b))"
proof -
  define le where "le A B \<longleftrightarrow> cn_score A > cn_score B \<or> cn_score A = cn_score B \<and>
     (cn_ancestorsMined A > cn_ancestorsMined B \<or> cn_ancestorsMined A = cn_ancestorsMined B \<and>
     (cn_timestamp A < cn_timestamp B \<or> cn_timestamp A = cn_timestamp B \<and> cn_miner A \<le> cn_miner B))" for A B :: chain_node
  have choice: "chainNodeMaxHonest x y = (if le (snd x) (snd y) then x else y)" for x y :: "'a \<times> chain_node"
    by (auto simp: chainNodeMaxHonest_def Let_def le_def)
  have total: "le A B \<or> le B A" for A B by (auto simp: le_def)
  have trans: "le A C" if "le A B" "le B C" for A B C using that by (auto simp: le_def)
  have anti: "cn_score A = cn_score B \<and> cn_ancestorsMined A = cn_ancestorsMined B
        \<and> cn_timestamp A = cn_timestamp B \<and> cn_miner A = cn_miner B" if "le A B" "le B A" for A B
    using that by (auto simp: le_def)
  show ?thesis
    unfolding choice using total [of "snd a" "snd b"] total [of "snd b" "snd c"] total [of "snd a" "snd c"]
      trans [of "snd a" "snd b" "snd c"] trans [of "snd b" "snd c" "snd a"] trans [of "snd c" "snd a" "snd b"]
      trans [of "snd b" "snd a" "snd c"] trans [of "snd a" "snd c" "snd b"] trans [of "snd c" "snd b" "snd a"]
      anti [of "snd a" "snd b"]
    by (auto split: if_splits)
qed

definition example_tip :: "u32 \<Rightarrow> u32 \<Rightarrow> simtime \<Rightarrow> chain_node" where
  "example_tip score mined t = \<lparr>cn_parent = ParentIndex 0, cn_transactionData = Some no_transactions, cn_timestamp = t,
     cn_miner = 7, cn_height = unat score, cn_score = score, cn_flags = 0, cn_ancestorsMined = mined\<rparr>"

text \<open>
  an attacker's choice is not an order: with a catch-up tolerance of 2 there are three
  chain ends of which each is preferred to the next one in a circle, so the chain it ends
  on depends on the order of arrival; and it leaves its main chain for a shorter one, on
  which it then mines heights at which it has already mined.
\<close>

lemma chainNodeMaxAttacker_circle:
  "let a = (0 :: nat, example_tip 10 3 1); b = (1, example_tip 11 2 2); c = (2, example_tip 13 1 3) in
     chainNodeMax example_env 3 a b = Inr a \<and> chainNodeMax example_env 3 b c = Inr b
     \<and> chainNodeMax example_env 3 c a = Inr c \<and> cn_score (snd a) < cn_score (snd b)"
  by (simp add: chainNodeMax_def is_attacker_eq example_attackers chainNodeMaxAttacker_def example_tip_def
      catchup_tolerance_def Let_def) (simp add: example_env_def)

end
