(* ===== verification/Node.thy ===== *)
theory Node
  imports Network Mining
begin

text \<open>
  The event handler of the simulator, ProcessEvent of RBlockSim.c, with the functions it
  calls there: the start and end of a node, block generation with the hidden chain of a
  selfish miner, block reception with gossiping and requests for missing parents, and
  answers to such requests.

  An event changes the state of one node and the variables that the nodes share, sends
  events, and may set the time of the node's next block. The state behind the pointer
  v_state is \<open>None\<close> before LP_INIT and after LP_FINI. Text printed to the terminal is left
  out; the file with the attacker's data is the entry \<open>gl_attack_info\<close>. The argument
  \<open>fresh\<close> stands for the contents of newly allocated memory.
\<close>

record attacker_part =
  last_propagated_height :: nat
  failed_attacks :: u32
  successful_conceals :: u32
  isSelfishMining :: bool
  finishedSelfishMining :: bool

record node_state =
  ns_rng :: rng_t
  ns_blockchain :: blockchain_state
  ns_txns :: transaction_state
  ns_stats :: stats_state
  ns_attacker :: "attacker_part option"

text \<open>What is written to the file attack_info.json.\<close>

record attack_info =
  ai_attack_type :: attack_type
  ai_attacker :: node_id
  ai_hashpower :: real
  ai_depth :: nat
  ai_catchup_tolerance :: nat
  ai_failed_attacks :: u32
  ai_successful_conceals :: u32

record globals =
  gl_env :: env
  gl_totalHashPower :: u64
  gl_tot_mined :: u64
  gl_master_seed :: u64
  gl_selfishStats :: "selfish_stats list"
  gl_attack_info :: "attack_info option"

text \<open>The seed of Config.h; the seed of the command line is in another variable, rng_seed.\<close>

definition RNG_SEED :: u32 where "RNG_SEED = 1234"

definition requestParent :: "node_id \<Rightarrow> simtime \<Rightarrow> node_state \<Rightarrow> block \<Rightarrow> (node_state \<times> event list) res" where
  "requestParent requester request_time s b =
     bindR (getTransmissionDelay initNetwork requester (bk_sender b) 0 (Some (ns_rng s))) (\<lambda>(d, rng).
       case rng of None \<Rightarrow> Inl NullDeref
       | Some rng \<Rightarrow>
           Inr (s\<lparr>ns_rng := rng\<rparr>,
             [\<lparr>ev_receiver = bk_sender b, ev_timestamp = request_time + d, ev_type = REQUEST_BLOCK,
               ev_content = RequestContent \<lparr>rq_requester = requester, rq_miner = bk_prevBlockMiner b,
                 rq_height = of_nat (bk_height b) - 1\<rparr>\<rparr>]))"

text \<open>The loop over the ancestors; the height is computed in 64 bits and may wrap.\<close>

function ancestors_loop :: "topology \<Rightarrow> nat \<Rightarrow> blockchain \<Rightarrow> node_id \<Rightarrow> block \<Rightarrow> u64 \<Rightarrow> nat
    \<Rightarrow> simtime \<times> event list \<times> rng_t \<Rightarrow> (simtime \<times> event list \<times> rng_t) res" where
  "ancestors_loop topo fuel c sender b n_ancestors i (send_time, evs, rng) =
     (if i < unat n_ancestors then
        let height = of_nat (bk_height b) - n_ancestors + of_nat i :: u64 in
        bindR (retrieveBlock c (bk_miner b) (unat height)) (\<lambda>retrieved.
          case retrieved of None \<Rightarrow> Inl Abort
          | Some a \<Rightarrow>
              bindR (propagateBlock topo fuel sender send_time (a\<lparr>bk_sender := sender\<rparr>) rng) (\<lambda>(new, rng).
                ancestors_loop topo fuel c sender b n_ancestors (Suc i) (send_time + 2 / 1000, evs @ new, rng)))
      else Inr (send_time, evs, rng))"
  by pat_completeness auto
termination
  by (relation "measure (\<lambda>(_, _, _, _, _, n, i, _). unat n - i)") auto

declare ancestors_loop.simps [simp del]

definition propagateBlockAndNAncestors :: "topology \<Rightarrow> nat \<Rightarrow> blockchain \<Rightarrow> node_id \<Rightarrow> simtime \<Rightarrow> block \<Rightarrow> u64 \<Rightarrow> rng_t
    \<Rightarrow> (event list \<times> rng_t) res" where
  "propagateBlockAndNAncestors topo fuel c sender send_time b n_ancestors rng =
     bindR (ancestors_loop topo fuel c sender b n_ancestors 1 (send_time, [], rng)) (\<lambda>(send_time, evs, rng).
     bindR (propagateBlock topo fuel sender send_time b rng) (\<lambda>(new, rng). Inr (evs @ new, rng)))"

subsection \<open>The cases of ProcessEvent\<close>

text \<open>LP_INIT: the new state, the shared variables and the internal init event.\<close>

definition handle_init :: "nat \<Rightarrow> node_state \<Rightarrow> globals \<Rightarrow> node_id \<Rightarrow> simtime \<Rightarrow> (node_state \<times> globals \<times> event list) res" where
  "handle_init fuel fresh g me now =
     bindR (is_attacker (gl_env g) me) (\<lambda>att.
     let s = fresh\<lparr>ns_attacker := (if att then Some \<lparr>last_propagated_height = 0, failed_attacks = 0, successful_conceals = 0,
                 isSelfishMining = False, finishedSelfishMining = False\<rparr> else None),
               ns_rng := initialize_stream (gl_master_seed g) (RNG_SEED + me)\<rparr> in
     bindR (if att then Inr (attackerInitBlockchainState (ns_blockchain s), gl_totalHashPower g, ns_rng s)
            else initBlockchainState fuel (gl_totalHashPower g) (ns_rng s)) (\<lambda>(bs, total, rng).
     let (env, st) = (case statsType (gl_env g) of
             STATS_NONE \<Rightarrow> (gl_env g, ns_stats s)
           | STATS_DETAILED \<Rightarrow> initDetailedStatisticsState (gl_env g) (ns_stats s)
           | STATS_SELFISH \<Rightarrow> initSelfishStatisticsState (gl_env g) (ns_stats s)
           | STATS_FIFTY_ONE \<Rightarrow> initFiftyOneStatisticsState (gl_env g) (ns_stats s)) in
     Inr (s\<lparr>ns_blockchain := bs, ns_rng := rng, ns_txns := initTransactionState, ns_stats := st\<rparr>,
       g\<lparr>gl_env := env, gl_totalHashPower := total\<rparr>,
       [\<lparr>ev_receiver = me, ev_timestamp = now, ev_type = RBLOCKSIM_INIT, ev_content = NoContent\<rparr>])))"

text \<open>LP_FINI: what the node leaves in the shared variables before its state is freed.\<close>

definition handle_fini :: "globals \<Rightarrow> node_id \<Rightarrow> node_state \<Rightarrow> globals res" where
  "handle_fini g me s =
     (let env = gl_env g; bs = ns_blockchain s; ac = attackConfig env;
          g = g\<lparr>gl_tot_mined := gl_tot_mined g + ucast (mined_by_me bs)\<rparr> in
      bindR (is_attacker env me) (\<lambda>att.
      bindR (if att \<and> ac_type ac \<noteq> ATTACK_NONE then
               (case ns_attacker s of None \<Rightarrow> Inl NullDeref
                | Some a \<Rightarrow> (case miningState bs of HashPower _ \<Rightarrow> Inl InactiveUnion
                  | HashPowerPortion p \<Rightarrow>
                      Inr (g\<lparr>gl_attack_info := Some \<lparr>ai_attack_type = ac_type ac, ai_attacker = me, ai_hashpower = p,
                        ai_depth = (if ac_type ac = ATTACK_FIFTY_ONE then 0 else sm_depth (selfish ac)),
                        ai_catchup_tolerance = (if ac_type ac = ATTACK_FIFTY_ONE then fo_catchupTolerance (fiftyOne ac)
                                                else sm_catchupTolerance (selfish ac)),
                        ai_failed_attacks = failed_attacks a, ai_successful_conceals = successful_conceals a\<rparr>\<rparr>)))
             else Inr g) (\<lambda>g.
      if statsType env = STATS_SELFISH then
        bindR (updR (gl_selfishStats g) (unat me) (selfishStats (ns_stats s))) (\<lambda>xs. Inr (g\<lparr>gl_selfishStats := xs\<rparr>))
      else Inr g)))"

definition handle_rblocksim_init :: "globals \<Rightarrow> node_id \<Rightarrow> node_state \<Rightarrow> node_state res" where
  "handle_rblocksim_init g me s =
     bindR (is_attacker (gl_env g) me) (\<lambda>att.
     bindR (if att then attackerAfterInitBlockchainState (gl_env g) (ns_blockchain s)
            else afterInitBlockchainState (gl_env g) (gl_totalHashPower g) (ns_blockchain s)) (\<lambda>bs.
       Inr (s\<lparr>ns_blockchain := bs\<rparr>)))"

text \<open>GENERATE_BLOCK of a selfish miner: the new block stays hidden until the hidden chain is long enough.\<close>

definition concealBlock :: "topology \<Rightarrow> nat \<Rightarrow> env \<Rightarrow> node_id \<Rightarrow> simtime \<Rightarrow> block \<Rightarrow> node_state \<Rightarrow> (node_state \<times> event list) res" where
  "concealBlock topo fuel env me now b s =
     (case ns_attacker s of None \<Rightarrow> Inl NullDeref
      | Some a \<Rightarrow>
          let c = chain_of (ns_blockchain s); sm = selfish (attackConfig env) in
          bindR (findChainNode c (bk_prevBlockMiner b) (bk_height b - 1)) (\<lambda>parent.
          bindR (case (isSelfishMining a, parent) of
                   (True, Some r) \<Rightarrow> bindR (getChainNode c r) (\<lambda>p. Inr (cn_miner p \<noteq> me))
                 | _ \<Rightarrow> Inr False) (\<lambda>overtaken.
          let a = (if overtaken then a\<lparr>isSelfishMining := False, failed_attacks := failed_attacks a + 1\<rparr> else a);
              a = (if now \<ge> sm_startTime sm \<and> \<not> isSelfishMining a
                   then a\<lparr>isSelfishMining := True, last_propagated_height := bk_height b - 1\<rparr> else a);
              concealed_blocks = of_nat (bc_height c) - of_nat (last_propagated_height a) :: u64 in
          if isSelfishMining a \<and> unat concealed_blocks \<ge> sm_depth sm then
            bindR (if statsType env = STATS_SELFISH then statsSwitchToSelfishChain env (ns_stats s) else Inr (ns_stats s)) (\<lambda>st.
            bindR (propagateBlockAndNAncestors topo fuel c me now (b\<lparr>bk_is_attack_block := True\<rparr>) concealed_blocks (ns_rng s))
              (\<lambda>(evs, rng).
              Inr (s\<lparr>ns_stats := st, ns_rng := rng,
                 ns_attacker := Some (a\<lparr>successful_conceals := successful_conceals a + 1,
                   last_propagated_height := bk_height b, isSelfishMining := False\<rparr>)\<rparr>, evs)))
          else Inr (s\<lparr>ns_attacker := Some a\<rparr>, []))))"

definition handle_generate :: "topology \<Rightarrow> nat \<Rightarrow> txn_array \<Rightarrow> env \<Rightarrow> node_id \<Rightarrow> simtime \<Rightarrow> node_state \<Rightarrow> (node_state \<times> event list) res" where
  "handle_generate topo fuel txns env me now s =
     bindR (generateBlock env txns me now (ns_blockchain s, Some (ns_txns s), ns_stats s)) (\<lambda>(b, bs, ts, st).
     bindR (case ts of None \<Rightarrow> Inl NullDeref | Some t \<Rightarrow> Inr t) (\<lambda>t.
     let s = s\<lparr>ns_blockchain := bs, ns_txns := t, ns_stats := st\<rparr> in
     bindR (is_attacker env me) (\<lambda>att.
     bindR (if ac_type (attackConfig env) = ATTACK_SELFISH_MINING \<and> att
            then (case ns_attacker s of None \<Rightarrow> Inl NullDeref | Some a \<Rightarrow> Inr (\<not> finishedSelfishMining a))
            else Inr False) (\<lambda>conceal.
     bindR (if conceal then concealBlock topo fuel env me now b s
            else bindR (propagateBlock topo fuel me now b (ns_rng s)) (\<lambda>(evs, rng). Inr (s\<lparr>ns_rng := rng\<rparr>, evs))) (\<lambda>(s, evs).
     bindR (if statsType env = STATS_DETAILED then statsMineBlockDetailed env (ns_stats s) me (bk_height b) now
            else if statsType env = STATS_SELFISH then statsMineBlockSelfish env (ns_stats s)
            else Inr (ns_stats s)) (\<lambda>st.
       Inr (s\<lparr>ns_stats := st\<rparr>, evs)))))))"

text \<open>RECEIVE_BLOCK; the last result says whether the next block generation is scheduled anew.\<close>

definition handle_receive :: "topology \<Rightarrow> nat \<Rightarrow> env \<Rightarrow> node_id \<Rightarrow> simtime \<Rightarrow> block \<Rightarrow> node_state \<Rightarrow> (node_state \<times> event list \<times> bool) res" where
  "handle_receive topo fuel env me now b s =
     bindR (findChainNode (chain_of (ns_blockchain s)) (bk_miner b) (bk_height b)) (\<lambda>seeked.
     case seeked of
       Some r \<Rightarrow>
         bindR (getChainNode (chain_of (ns_blockchain s)) r) (\<lambda>n.
           if isOrphan n then bindR (requestParent me now s b) (\<lambda>(s, evs). Inr (s, evs, False))
           else Inr (s, [], False))
     | None \<Rightarrow>
         bindR (if statsType env = STATS_DETAILED then statsReceiveBlockDetailed env (ns_stats s) (bk_miner b) (bk_height b) now
                else Inr (ns_stats s)) (\<lambda>st.
         bindR (receiveBlock env me now b False False (ns_blockchain s, Some (ns_txns s), st)) (\<lambda>(rc, bs, ts, st).
         bindR (case ts of None \<Rightarrow> Inl NullDeref | Some t \<Rightarrow> Inr t) (\<lambda>t.
         let s = s\<lparr>ns_blockchain := bs, ns_txns := t, ns_stats := st\<rparr> in
         bindR (if foundParent rc then Inr (s, []) else requestParent me now s b) (\<lambda>(s, evs).
         bindR (propagateBlock topo fuel me now (b\<lparr>bk_sender := me\<rparr>) (ns_rng s)) (\<lambda>(new, rng).
         let s = s\<lparr>ns_rng := rng\<rparr>; evs = evs @ new in
         if \<not> updatedMainChain rc then Inr (s, evs, False)
         else
           bindR (if bk_is_attack_block b \<and> statsType env = STATS_SELFISH then statsSwitchToSelfishChain env (ns_stats s)
                  else Inr (ns_stats s)) (\<lambda>st.
           bindR (is_attacker env me) (\<lambda>att.
           bindR (if att then (case ns_attacker s of None \<Rightarrow> Inl NullDeref
                     | Some a \<Rightarrow> Inr (Some (a\<lparr>last_propagated_height := bk_height b\<rparr>)))
                  else Inr (ns_attacker s)) (\<lambda>a.
             Inr (s\<lparr>ns_stats := st, ns_attacker := a\<rparr>, evs, True))))))))))"

definition handle_request :: "node_id \<Rightarrow> simtime \<Rightarrow> request_block_evt \<Rightarrow> node_state \<Rightarrow> (node_state \<times> event list) res" where
  "handle_request me now evt s =
     bindR (retrieveBlock (chain_of (ns_blockchain s)) (rq_miner evt) (unat (rq_height evt))) (\<lambda>b.
     case b of None \<Rightarrow> Inr (s, [])
     | Some b \<Rightarrow> bindR (sendSingleBlock me (rq_requester evt) now (b\<lparr>bk_sender := me\<rparr>) (ns_rng s) RECEIVE_BLOCK) (\<lambda>(ev, rng).
         Inr (s\<lparr>ns_rng := rng\<rparr>, [ev])))"

definition block_content :: "event_content \<Rightarrow> block res" where
  "block_content x = (case x of BlockContent b \<Rightarrow> Inr b | _ \<Rightarrow> Inl InactiveUnion)"

definition request_content :: "event_content \<Rightarrow> request_block_evt res" where
  "request_content x = (case x of RequestContent r \<Rightarrow> Inr r | _ \<Rightarrow> Inl InactiveUnion)"

text \<open>What an event leaves: state, shared variables, the events sent and, if it is set, the time of the next block.\<close>

record outcome =
  oc_state :: "node_state option"
  oc_globals :: globals
  oc_events :: "event list"
  oc_next :: "simtime option"

text \<open>The last line of ProcessEvent, after the cases that break.\<close>

definition schedule_next :: "env \<Rightarrow> simtime \<Rightarrow> globals \<Rightarrow> node_state \<Rightarrow> event list \<Rightarrow> outcome res" where
  "schedule_next env now g s evs =
     bindR (scheduleNextBlockGeneration env now (ns_rng s) (ns_blockchain s)) (\<lambda>(next, rng).
       Inr \<lparr>oc_state = Some (s\<lparr>ns_rng := rng\<rparr>), oc_globals = g, oc_events = evs, oc_next = next\<rparr>)"

definition state_of :: "node_state option \<Rightarrow> node_state res" where
  "state_of v = (case v of None \<Rightarrow> Inl NullDeref | Some s \<Rightarrow> Inr s)"

definition ProcessEvent :: "topology \<Rightarrow> txn_array \<Rightarrow> nat \<Rightarrow> node_state \<Rightarrow> node_id \<Rightarrow> simtime \<Rightarrow> u32 \<Rightarrow> event_content
    \<Rightarrow> node_state option \<Rightarrow> globals \<Rightarrow> outcome res" where
  "ProcessEvent topo txns fuel fresh me now event_type content v_state g =
     (let env = gl_env g; quiet = (\<lambda>v g evs. Inr \<lparr>oc_state = v, oc_globals = g, oc_events = evs, oc_next = None\<rparr>) in
      bindR (is_attacker env me) (\<lambda>_.
      if now > termination_time env \<and> event_type \<noteq> LP_FINI then quiet v_state g []
      else if event_type = LP_INIT then
        bindR (handle_init fuel fresh g me now) (\<lambda>(s, g, evs). quiet (Some s) g evs)
      else if event_type = LP_FINI then
        bindR (state_of v_state) (\<lambda>s. bindR (handle_fini g me s) (\<lambda>g. quiet None g []))
      else if event_type = RBLOCKSIM_INIT then
        bindR (state_of v_state) (\<lambda>s. bindR (handle_rblocksim_init g me s) (\<lambda>s. schedule_next env now g s []))
      else if event_type = GENERATE_BLOCK then
        bindR (state_of v_state) (\<lambda>s. bindR (handle_generate topo fuel txns env me now s) (\<lambda>(s, evs).
          schedule_next env now g s evs))
      else if event_type = RECEIVE_BLOCK then
        bindR (block_content content) (\<lambda>b. bindR (state_of v_state) (\<lambda>s.
        bindR (handle_receive topo fuel env me now b s) (\<lambda>(s, evs, again).
          if again then schedule_next env now g s evs else quiet (Some s) g evs)))
      else if event_type = REQUEST_BLOCK then
        bindR (request_content content) (\<lambda>r. bindR (state_of v_state) (\<lambda>s.
        bindR (handle_request me now r s) (\<lambda>(s, evs). quiet (Some s) g evs)))
      else Inl Abort))"

definition CanEnd :: "node_id \<Rightarrow> node_state option \<Rightarrow> bool" where
  "CanEnd me snapshot = False"

subsection \<open>The events that a node sends\<close>

text \<open>
  An event in order: its receiver is a node, it does not lie in the past, and what it carries
  is what the handler of its type reads, with node ids in range.
\<close>

definition content_ok :: "u32 \<Rightarrow> event_content \<Rightarrow> bool" where
  "content_ok ty x \<longleftrightarrow>
     (case x of BlockContent b \<Rightarrow> ty = RECEIVE_BLOCK \<and> unat (bk_sender b) < N_NODES
      | RequestContent r \<Rightarrow> ty = REQUEST_BLOCK \<and> unat (rq_requester r) < N_NODES
      | NoContent \<Rightarrow> ty = RBLOCKSIM_INIT \<or> ty = LP_INIT \<or> ty = LP_FINI \<or> ty = GENERATE_BLOCK)"

definition event_ok :: "simtime \<Rightarrow> event \<Rightarrow> bool" where
  "event_ok now ev \<longleftrightarrow> unat (ev_receiver ev) < N_NODES \<and> now \<le> ev_timestamp ev \<and> content_ok (ev_type ev) (ev_content ev)"

definition wf_topology :: "topology \<Rightarrow> bool" where
  "wf_topology topo \<longleftrightarrow> (\<forall>row\<in>set topo. length row < 2 ^ 31 \<and> (\<forall>p\<in>set row. unat p < N_NODES))"

lemma carries_ok:
  assumes "carries sender t b ev" "unat sender < N_NODES" "unat (ev_receiver ev) < N_NODES" "unat (bk_sender b) < N_NODES"
    and "now \<le> t"
  shows "event_ok now ev"
  using assms by (auto simp: carries_def event_ok_def content_ok_def)

lemma propagateBlock_ok:
  assumes "propagateBlock topo fuel sender t b rng = Inr (evs, rng')" "wf_topology topo" "unat sender < N_NODES"
    and "unat (bk_sender b) < N_NODES" "now \<le> t"
  shows "\<forall>ev\<in>set evs. event_ok now ev"
proof
  fix ev assume ev: "ev \<in> set evs"
  from assms(1) obtain peers where "peers \<in> set topo" and g: "gossipBlock fuel sender t b rng peers = Inr (evs, rng')"
    by (auto simp: propagateBlock_def bindR_eq_Inr nthR_eq_Inr dest: nth_mem)
  with assms(2) have peers: "length peers < 2 ^ 31" "\<forall>p\<in>set peers. unat p < N_NODES" by (auto simp: wf_topology_def)
  from gossipBlock_events [OF g peers(1)] obtain "is" where "set is \<subseteq> {..<length peers}"
    "map ev_receiver evs = map ((!) peers) is" "\<forall>ev\<in>set evs. carries sender t b ev" by blast
  moreover from this(2) ev obtain i where "i \<in> set is" "ev_receiver ev = peers ! i"
    by (metis (no_types, lifting) image_iff image_set)
  ultimately have "unat (ev_receiver ev) < N_NODES" "carries sender t b ev" using peers(2) ev by auto
  with carries_ok assms(3-5) show "event_ok now ev" by blast
qed

lemma requestParent_ok:
  assumes "requestParent me now s b = Inr (s', evs)" "unat me < N_NODES" "unat (bk_sender b) < N_NODES"
  shows "\<forall>ev\<in>set evs. event_ok now ev"
proof -
  from assms(1) obtain d r where d: "getTransmissionDelay initNetwork me (bk_sender b) 0 (Some (ns_rng s)) = Inr (d, r)"
    and evs: "evs = [\<lparr>ev_receiver = bk_sender b, ev_timestamp = now + d, ev_type = REQUEST_BLOCK,
               ev_content = RequestContent \<lparr>rq_requester = me, rq_miner = bk_prevBlockMiner b,
                 rq_height = of_nat (bk_height b) - 1\<rparr>\<rparr>]"
    by (auto simp: requestParent_def bindR_eq_Inr split: option.splits)
  from getTransmissionDelay_nonneg [OF assms(2,3) d] evs assms(2,3) show ?thesis
    by (simp add: event_ok_def content_ok_def)
qed

lemma ancestors_loop_ok:
  assumes "ancestors_loop topo fuel c sender b n i (t, evs, rng) = Inr (t', evs', rng')" "wf_topology topo"
    and "unat sender < N_NODES" "now \<le> t" "\<forall>ev\<in>set evs. event_ok now ev"
  shows "now \<le> t' \<and> (\<forall>ev\<in>set evs'. event_ok now ev)"
  using assms
proof (induction topo fuel c sender b n i "(t, evs, rng)" arbitrary: t evs rng rule: ancestors_loop.induct)
  case (1 topo fuel c sender b n i t evs rng)
  show ?case
  proof (cases "i < unat n")
    case False
    with "1.prems" show ?thesis by (simp add: ancestors_loop.simps [of _ _ _ _ _ _ i])
  next
    case True
    let ?h = "unat (of_nat (bk_height b) - n + of_nat i :: u64)"
    from "1.prems"(1) True obtain a new r where a: "retrieveBlock c (bk_miner b) ?h = Inr (Some a)"
      and p: "propagateBlock topo fuel sender t (a\<lparr>bk_sender := sender\<rparr>) rng = Inr (new, r)"
      and rest: "ancestors_loop topo fuel c sender b n (Suc i) (t + 2 / 1000, evs @ new, r) = Inr (t', evs', rng')"
      by (auto simp: ancestors_loop.simps [of _ _ _ _ _ _ i] Let_def bindR_eq_Inr split: option.splits)
    from propagateBlock_ok [OF p "1.prems"(2,3), of now] "1.prems" have "\<forall>ev\<in>set (evs @ new). event_ok now ev" by auto
    moreover have "t + 2 / 1000 = t + 1 / 500" by simp
    ultimately show ?thesis
      using "1.hyps" [OF True refl a refl p, simplified, OF conjI [OF refl refl]] rest "1.prems" by auto
  qed
qed

lemma propagateAncestors_ok:
  assumes "propagateBlockAndNAncestors topo fuel c sender t b n rng = Inr (evs, rng')" "wf_topology topo"
    and "unat sender < N_NODES" "unat (bk_sender b) < N_NODES"
  shows "\<forall>ev\<in>set evs. event_ok t ev"
proof -
  from assms(1) obtain t1 evs1 r1 new r2 where
    loop: "ancestors_loop topo fuel c sender b n 1 (t, [], rng) = Inr (t1, evs1, r1)"
    and last: "propagateBlock topo fuel sender t1 b r1 = Inr (new, r2)" and evs: "evs = evs1 @ new"
    by (auto simp: propagateBlockAndNAncestors_def bindR_eq_Inr)
  from ancestors_loop_ok [OF loop assms(2,3), of t] have "t \<le> t1" "\<forall>ev\<in>set evs1. event_ok t ev" by simp_all
  with propagateBlock_ok [OF last assms(2-4)] evs show ?thesis by auto
qed

lemma generateBlock_sender: "generateBlock env txns me now s = Inr (b, bs, e) \<Longrightarrow> bk_sender b = me"
  by (auto simp: generateBlock_def bindR_eq_Inr Let_def split: prod.splits)

lemma concealBlock_ok:
  assumes "wf_topology topo" "unat me < N_NODES" "unat (bk_sender b) < N_NODES"
  shows "okR (\<lambda>(s', evs). \<forall>ev\<in>set evs. event_ok now ev) (concealBlock topo fuel env me now b s)"
  unfolding concealBlock_def using assms
  by (intro okR_intros) (auto dest: propagateAncestors_ok)

lemma concealBlock_ok':
  "concealBlock topo fuel env me now b s = Inr (s', evs) \<Longrightarrow> wf_topology topo \<Longrightarrow> unat me < N_NODES
     \<Longrightarrow> unat (bk_sender b) < N_NODES \<Longrightarrow> \<forall>ev\<in>set evs. event_ok now ev"
  using okRD [OF concealBlock_ok] by fastforce

lemma handle_generate_ok:
  assumes "wf_topology topo" "unat me < N_NODES"
  shows "okR (\<lambda>(s', evs). \<forall>ev\<in>set evs. event_ok now ev) (handle_generate topo fuel txns env me now s)"
  unfolding handle_generate_def using assms
  by (intro okR_intros)
    (auto dest!: generateBlock_sender simp: bindR_eq_Inr split: if_splits
      dest: concealBlock_ok' propagateBlock_ok [where now = now])

lemma handle_receive_ok:
  assumes "wf_topology topo" "unat me < N_NODES" "unat (bk_sender b) < N_NODES"
  shows "okR (\<lambda>(s', evs, again). \<forall>ev\<in>set evs. event_ok now ev) (handle_receive topo fuel env me now b s)"
  unfolding handle_receive_def using assms
  by (intro okR_intros)
    (auto split: if_splits dest: requestParent_ok propagateBlock_ok [where now = now])

lemma handle_request_ok:
  assumes "unat me < N_NODES" "unat (rq_requester r) < N_NODES"
  shows "okR (\<lambda>(s', evs). \<forall>ev\<in>set evs. event_ok now ev) (handle_request me now r s)"
  unfolding handle_request_def using assms
  by (intro okR_intros)
    (auto dest!: sendSingleBlock_carries intro!: carries_ok [where now = now])

lemma handle_init_ok:
  assumes "unat me < N_NODES"
  shows "okR (\<lambda>(s', g', evs). \<forall>ev\<in>set evs. event_ok now ev) (handle_init fuel fresh g me now)"
  unfolding handle_init_def using assms
  by (intro okR_intros) (auto simp: event_ok_def content_ok_def event_codes)

text \<open>A result of ProcessEvent that is in order: all events it sends are, and the next block lies ahead.\<close>

definition outcome_ok :: "simtime \<Rightarrow> outcome \<Rightarrow> bool" where
  "outcome_ok now oc \<longleftrightarrow> (\<forall>ev\<in>set (oc_events oc). event_ok now ev) \<and> (\<forall>t. oc_next oc = Some t \<longrightarrow> now \<le> t)"

lemma scheduleNext_ahead:
  assumes "scheduleNextBlockGeneration env now rng bs = Inr (t, rng')" "0 \<le> BLOCK_INTERVAL env" "t = Some u"
  shows "now \<le> u"
  using assms by (auto simp: scheduleNextBlockGeneration_def getNextGenDelay_def bindR_eq_Inr
      split: mining_state.splits if_splits dest!: Expent_nonneg)

lemma schedule_next_ok:
  assumes "\<forall>ev\<in>set evs. event_ok now ev" "0 \<le> BLOCK_INTERVAL env"
  shows "okR (outcome_ok now) (schedule_next env now g s evs)"
  unfolding schedule_next_def using assms
  by (intro okR_intros) (auto simp: outcome_ok_def dest: scheduleNext_ahead)

lemma quiet_ok: "\<forall>ev\<in>set evs. event_ok now ev \<Longrightarrow>
    outcome_ok now \<lparr>oc_state = v, oc_globals = g, oc_events = evs, oc_next = None\<rparr>"
  by (simp add: outcome_ok_def)

lemma ProcessEvent_ok:
  assumes "wf_topology topo" "unat me < N_NODES" "0 \<le> BLOCK_INTERVAL (gl_env g)" "content_ok ty x"
  shows "okR (outcome_ok now) (ProcessEvent topo txns fuel fresh me now ty x v g)"
proof -
  have empty: "\<forall>ev\<in>set []. event_ok now ev" by simp
  have block: "unat (bk_sender b) < N_NODES" if "block_content x = Inr b" for b
    using that assms(4) by (auto simp: block_content_def content_ok_def split: event_content.splits)
  have request: "unat (rq_requester r) < N_NODES" if "request_content x = Inr r" for r
    using that assms(4) by (auto simp: request_content_def content_ok_def split: event_content.splits)
  show ?thesis unfolding ProcessEvent_def Let_def
    by (intro okR_intros quiet_ok empty schedule_next_ok assms(3))
      (auto dest: okRD [OF handle_init_ok [OF assms(2)]] okRD [OF handle_generate_ok [OF assms(1,2)]]
        okRD [OF handle_receive_ok [OF assms(1,2) block]] okRD [OF handle_request_ok [OF assms(2) request]])
qed

text \<open>
  C26: no event of a node lies in its past and every event goes to a node of the network and
  carries what the handler of its type reads: when the topology names only nodes and the event
  at hand is in order, so is every event that ProcessEvent sends, and the next block of the
  node is generated no earlier than now.
\<close>

theorem ProcessEvent_events_ok:
  assumes "ProcessEvent topo txns fuel fresh me now ty x v g = Inr oc"
    and "wf_topology topo" and "unat me < N_NODES" and "0 \<le> BLOCK_INTERVAL (gl_env g)" and "content_ok ty x"
  shows "(\<forall>ev\<in>set (oc_events oc). unat (ev_receiver ev) < N_NODES \<and> now \<le> ev_timestamp ev
            \<and> content_ok (ev_type ev) (ev_content ev))
     \<and> (\<forall>t. oc_next oc = Some t \<longrightarrow> now \<le> t)"
  using okRD [OF ProcessEvent_ok [OF assms(2-5)] assms(1)] by (simp add: outcome_ok_def event_ok_def)

text \<open>The attacker of the example configuration starts.\<close>

definition example_fresh :: node_state where
  "example_fresh = \<lparr>ns_rng = example_rng,
     ns_blockchain = \<lparr>chain_of = initBlockchain, miningState = HashPower 0, mined_by_me = 0\<rparr>,
     ns_txns = initTransactionState, ns_stats = example_stats, ns_attacker = None\<rparr>"

definition example_globals :: globals where
  "example_globals = \<lparr>gl_env = example_env, gl_totalHashPower = 0, gl_tot_mined = 0, gl_master_seed = 0,
     gl_selfishStats = [], gl_attack_info = None\<rparr>"

lemma example_init: "\<exists>oc. ProcessEvent [] (\<lambda>i. generate_txn N_NODES i 0) 0 example_fresh 3 0 LP_INIT NoContent None example_globals = Inr oc
    \<and> length (oc_events oc) = 1"
proof -
  have "covered example_env 3" "attacker example_env 3" by (simp_all add: example_attackers)
  then have "is_attacker example_env 3 = Inr True" by (simp add: is_attacker_eq)
  moreover have "\<not> (0 :: simtime) > termination_time example_env"
    by (simp add: example_env_def default_env_def TERMINATION_TIME_def)
  ultimately show ?thesis
    by (simp add: ProcessEvent_def handle_init_def example_globals_def Let_def initSelfishStatisticsState_def
        split: stats_type.splits prod.splits)
qed

theorem ProcessEvent_events_ok_witness:
  "\<exists>oc. ProcessEvent [] (\<lambda>i. generate_txn N_NODES i 0) 0 example_fresh 3 0 LP_INIT NoContent None example_globals = Inr oc
     \<and> length (oc_events oc) = 1 \<and> (\<forall>ev\<in>set (oc_events oc). 0 \<le> ev_timestamp ev)"
proof -
  from example_init obtain oc where
    oc: "ProcessEvent [] (\<lambda>i. generate_txn N_NODES i 0) 0 example_fresh 3 0 LP_INIT NoContent None example_globals = Inr oc"
      "length (oc_events oc) = 1" by blast
  have "wf_topology []" "unat (3 :: node_id) < N_NODES" "0 \<le> BLOCK_INTERVAL (gl_env example_globals)" "content_ok LP_INIT NoContent"
    by (simp_all add: wf_topology_def N_NODES_def example_globals_def example_env_def default_env_def content_ok_def)
  from ProcessEvent_events_ok [OF oc(1) this] oc show ?thesis by auto
qed

end
