(* ===== verification/NodeInv.thy ===== *)
theory NodeInv
  imports Node
begin

text \<open>
  The invariant of a node between two events: the ledger invariant of its chain,
  transactions and statistics, and for the attacker a hidden chain that is no longer than
  its main chain. It is kept by the handlers that change the chain.
\<close>

text \<open>Statistics that differ only in counters that do not belong to the main chain.\<close>

definition bump :: "u64 \<Rightarrow> u64 \<Rightarrow> detailed_stats \<Rightarrow> stats_state \<Rightarrow> stats_state" where
  "bump mined switches d st = st\<lparr>detailedStats := d,
     selfishStats := (selfishStats st)\<lparr>totalBlocksMined := mined, switchesToSelfishChain := switches\<rparr>\<rparr>"

lemma stats_apply_bump:
  "stats_apply env me x st = Inr u \<Longrightarrow> stats_apply env me x (bump m s d st) = Inr (bump m s d u)"
  by (cases "statsType env"; cases "is_attacker env x")
    (auto simp: stats_apply_def statsAddBlockSelfish_def statsAddBlockFiftyOne_def bump_def Let_def)

lemma foldR_stats_bump:
  "foldR (stats_apply env me) ms st = Inr u \<Longrightarrow> foldR (stats_apply env me) ms (bump m s d st) = Inr (bump m s d u)"
proof (induction ms arbitrary: st)
  case (Cons x ms)
  then obtain st1 where "stats_apply env me x st = Inr st1" "foldR (stats_apply env me) ms st1 = Inr u"
    by (auto simp: bindR_eq_Inr)
  with Cons.IH stats_apply_bump show ?case by fastforce
qed simp

lemma ledger_bump:
  assumes "ledger_inv env me hs st0 (c, ts, st)"
  shows "ledger_inv env me hs (bump m s d st0) (c, ts, bump m s d st)"
  using assms foldR_stats_bump by (auto simp: ledger_inv_def reflects_def stats_count_def)

lemma bumpI:
  assumes "fiftyOneStats st' = fiftyOneStats st"
    and "attackerBlocksInMainChain (selfishStats st') = attackerBlocksInMainChain (selfishStats st)"
    and "totalBlocksInMainChain (selfishStats st') = totalBlocksInMainChain (selfishStats st)"
    and "ownBlocksInMainChain (selfishStats st') = ownBlocksInMainChain (selfishStats st)"
  shows "\<exists>m s d. st' = bump m s d st"
  using assms unfolding bump_def
  by (intro exI [of _ "totalBlocksMined (selfishStats st')"] exI [of _ "switchesToSelfishChain (selfishStats st')"]
      exI [of _ "detailedStats st'"]) (simp add: stats_state.equality selfish_stats.equality)

lemma stats_bumps:
  "statsMineBlockSelfish env st = Inr st' \<Longrightarrow> \<exists>m s d. st' = bump m s d st"
  "statsSwitchToSelfishChain env st = Inr st' \<Longrightarrow> \<exists>m s d. st' = bump m s d st"
  "statsMineBlockDetailed env st miner h t = Inr st' \<Longrightarrow> \<exists>m s d. st' = bump m s d st"
  "statsReceiveBlockDetailed env st miner h t = Inr st' \<Longrightarrow> \<exists>m s d. st' = bump m s d st"
  by (intro bumpI; auto simp: statsMineBlockSelfish_def statsSwitchToSelfishChain_def statsMineBlockDetailed_def
      statsReceiveBlockDetailed_def bindR_eq_Inr Let_def)+

subsection \<open>The invariant\<close>

definition zero_counters :: "stats_state \<Rightarrow> bool" where
  "zero_counters st \<longleftrightarrow> attackerBlocksInMainChain (selfishStats st) = 0 \<and> totalBlocksInMainChain (selfishStats st) = 0
     \<and> ownBlocksInMainChain (selfishStats st) = 0"

definition hidden_ok :: "env \<Rightarrow> node_id \<Rightarrow> nat \<Rightarrow> attacker_part option \<Rightarrow> bool" where
  "hidden_ok env me h a \<longleftrightarrow> (attacker env me \<longrightarrow> (\<exists>x. a = Some x \<and> last_propagated_height x \<le> h))"

definition node_inv :: "env \<Rightarrow> node_id \<Rightarrow> chain_node list \<Rightarrow> node_state \<Rightarrow> bool" where
  "node_inv env me hs s \<longleftrightarrow>
     (\<exists>st0. zero_counters st0 \<and> ledger_inv env me hs st0 (chain_of (ns_blockchain s), Some (ns_txns s), ns_stats s))
     \<and> hidden_ok env me (bc_height (chain_of (ns_blockchain s))) (ns_attacker s)"

lemma zero_counters_bump [simp]: "zero_counters (bump m s d st) = zero_counters st"
  by (simp add: zero_counters_def bump_def)

lemma node_inv_ledger:
  assumes "zero_counters st0" "ledger_inv env me hs st0 (c, Some ts, st)" "\<exists>m s d. st' = bump m s d st"
    and "hidden_ok env me (bc_height c) a"
    and "chain_of (ns_blockchain s) = c" "ns_txns s = ts" "ns_stats s = st'" "ns_attacker s = a"
  shows "node_inv env me hs s"
proof -
  from assms(3) obtain m k d where "st' = bump m k d st" by blast
  then have "ledger_inv env me hs (bump m k d st0) (c, Some ts, st')"
    using ledger_bump [OF assms(2), of m k d] by simp
  then show ?thesis
    using assms(1,4) unfolding node_inv_def assms(5-8) by (intro conjI exI [of _ "bump m k d st0"]) simp_all
qed

lemma node_inv_cong:
  assumes "node_inv env me hs s" "ns_blockchain s' = ns_blockchain s" "ns_txns s' = ns_txns s" "ns_stats s' = ns_stats s"
    and "ns_attacker s' = ns_attacker s"
  shows "node_inv env me hs s'"
  using assms by (simp add: node_inv_def)

lemma bump_refl: "\<exists>m s d. st = bump m s d st"
  by (rule bumpI) simp_all

lemma bump_bump: "bump m' s' d' (bump m s d st) = bump m' s' d' st"
  by (simp add: bump_def)

lemma bump_trans: "\<exists>m s d. st' = bump m s d st \<Longrightarrow> \<exists>m s d. st'' = bump m s d st' \<Longrightarrow> \<exists>m s d. st'' = bump m s d st"
  using bump_bump by blast

subsection \<open>Receiving a block\<close>

text \<open>No block of the main chain that a chain ends in has a transaction of another one.\<close>

definition no_double :: "env \<Rightarrow> chain_node list \<Rightarrow> node_state \<Rightarrow> bool" where
  "no_double env hs s \<longleftrightarrow> good_nodes env {} (hs @ main_nodes (chain_of (ns_blockchain s)))"

lemma receiveBlock_step:
  assumes "ledger_inv env me hs st0 (chain_of bs, ts, st)" and "attack_ok env me" and "block_ok env (chain_of bs) b"
    and "one_root (prepareChain (chain_of bs) (bk_height b))"
    and "receiveBlock env me now b False False (bs, ts, st) = Inr (rc, bs', ts', st')"
  shows "good_nodes env {} ((hs @ dropped (chain_of bs) (prepareChain (chain_of bs) (bk_height b))) @ main_nodes (chain_of bs'))
      \<longrightarrow> ledger_inv env me (hs @ dropped (chain_of bs) (prepareChain (chain_of bs) (bk_height b))) st0 (chain_of bs', ts', st')"
    and "updatedMainChain rc \<longleftrightarrow> getMainChain (chain_of bs') \<noteq> getMainChain (chain_of bs)"
    and "updatedMainChain rc \<longrightarrow> bk_height b \<le> bc_height (chain_of bs')"
proof -
  let ?c = "chain_of bs"
  from addBlock_kept [OF assms(1-4), of now] obtain c' e' r where
    a: "addBlock env me now b (?c, ts, st) = Inr ((c', e'), r)" "shape c'" "valid c' r"
      "getMainChain c' = getMainChain ?c \<or> bk_height b \<le> bc_height c'"
      "good_nodes env {} ((hs @ dropped ?c (prepareChain ?c (bk_height b))) @ main_nodes c')
         \<longrightarrow> ledger_inv env me (hs @ dropped ?c (prepareChain ?c (bk_height b))) st0 (c', e')"
    by (auto simp: Let_def wf_chain_def wf_tree_def)
  have "bs' = bs\<lparr>chain_of := c'\<rparr> \<and> e' = (ts', st')
      \<and> updatedMainChain rc = (bc_height c' \<noteq> bc_height ?c \<or> main_chain_index c' \<noteq> main_chain_index ?c)"
    using assms(5) a(1-3) by (auto simp: receiveBlock_def validateBlock_def Let_def)
  with a show "good_nodes env {} ((hs @ dropped (chain_of bs) (prepareChain (chain_of bs) (bk_height b))) @ main_nodes (chain_of bs'))
      \<longrightarrow> ledger_inv env me (hs @ dropped (chain_of bs) (prepareChain (chain_of bs) (bk_height b))) st0 (chain_of bs', ts', st')"
    "updatedMainChain rc \<longleftrightarrow> getMainChain (chain_of bs') \<noteq> getMainChain (chain_of bs)"
    "updatedMainChain rc \<longrightarrow> bk_height b \<le> bc_height (chain_of bs')"
    by (auto simp: getMainChain_def)
qed

lemma requestParent_frame:
  "requestParent me now s b = Inr (s', evs) \<Longrightarrow> \<exists>r. s' = s\<lparr>ns_rng := r\<rparr>"
  by (auto simp: requestParent_def bindR_eq_Inr split: option.splits)

text \<open>
  The whole handler. A block that the node holds already leaves the chain alone; a new one goes
  through receiveBlock, and an attacker whose main chain changed takes all of it as known up to
  this block.
\<close>

lemma find_held: "findChainNode c m h = Inr (Some r) \<Longrightarrow> prepareChain c h = c"
  by (auto simp: findChainNode_def prepareChain_def split: if_splits)

lemma dropped_self:
  assumes "wf_chain c"
  shows "dropped c c = []"
proof -
  from assms have tree: "wf_tree c" and main: "linked c (getMainChain c)" by (auto simp: wf_chain_def)
  let ?d = "bc_height c - bc_min_height c"
  have "fst ((par c ^^ ?d) (getMainChain c)) = bc_min_height c"
    using linked_window [OF main] by (simp add: getMainChain_def in_window_def)
  then have "length (dropped c c) = 0" by (simp add: dropped_def)
  then show ?thesis by simp
qed

lemma received_keeps:
  assumes inv: "node_inv env me hs s" and att: "attack_ok env me" and b: "block_ok env (chain_of (ns_blockchain s)) b"
    and one: "one_root (prepareChain (chain_of (ns_blockchain s)) (bk_height b))"
    and rcv: "receiveBlock env me now b False False (ns_blockchain s, Some (ns_txns s), st) = Inr (rc, ns_blockchain s', Some (ns_txns s'), st2)"
    and st: "\<exists>m k d. st = bump m k d (ns_stats s)" "\<exists>m k d. ns_stats s' = bump m k d st2"
    and a: "if updatedMainChain rc \<and> attacker env me then \<exists>x. ns_attacker s' = Some x \<and> last_propagated_height x = bk_height b
            else ns_attacker s' = ns_attacker s"
  defines "hs' \<equiv> hs @ dropped (chain_of (ns_blockchain s)) (prepareChain (chain_of (ns_blockchain s)) (bk_height b))"
  shows "no_double env hs' s' \<longrightarrow> node_inv env me hs' s'"
proof
  assume nd: "no_double env hs' s'"
  from inv obtain st0 where z: "zero_counters st0"
    and led: "ledger_inv env me hs st0 (chain_of (ns_blockchain s), Some (ns_txns s), ns_stats s)"
    and hid: "hidden_ok env me (bc_height (chain_of (ns_blockchain s))) (ns_attacker s)"
    by (auto simp: node_inv_def)
  from st(1) obtain m k d where "st = bump m k d (ns_stats s)" by blast
  with ledger_bump [OF led, of m k d]
  have "ledger_inv env me hs (bump m k d st0) (chain_of (ns_blockchain s), Some (ns_txns s), st)" by simp
  note step = receiveBlock_step [OF this att b one rcv, folded hs'_def]
  have h: "hidden_ok env me (bc_height (chain_of (ns_blockchain s'))) (ns_attacker s')"
  proof (cases "updatedMainChain rc")
    case True
    with step(3) a show ?thesis by (auto simp: hidden_ok_def)
  next
    case False
    with step(2) have "bc_height (chain_of (ns_blockchain s')) = bc_height (chain_of (ns_blockchain s))"
      by (simp add: getMainChain_def)
    with False a hid show ?thesis by simp
  qed
  from step(1) nd have "ledger_inv env me hs' (bump m k d st0) (chain_of (ns_blockchain s'), Some (ns_txns s'), st2)"
    by (simp add: no_double_def)
  from node_inv_ledger [OF _ this st(2) h refl refl refl refl] z show "node_inv env me hs' s'" by simp
qed

lemma handle_receive_keeps:
  assumes inv: "node_inv env me hs s" and att: "attack_ok env me" and b: "block_ok env (chain_of (ns_blockchain s)) b"
    and one: "one_root (prepareChain (chain_of (ns_blockchain s)) (bk_height b))"
  defines "hs' \<equiv> hs @ dropped (chain_of (ns_blockchain s)) (prepareChain (chain_of (ns_blockchain s)) (bk_height b))"
  shows "okR (\<lambda>(s', evs, again). no_double env hs' s' \<longrightarrow> node_inv env me hs' s')
    (handle_receive topo fuel env me now b s)"
proof -
  have held: "hs' = hs" if "findChainNode (chain_of (ns_blockchain s)) (bk_miner b) (bk_height b) = Inr (Some r)" for r
    using find_held [OF that] inv dropped_self by (auto simp: hs'_def node_inv_def ledger_inv_def)
  have cov: "is_attacker env me = Inr (attacker env me)" using att by (simp add: attack_ok_def is_attacker_eq)
  have bump1: "\<exists>m k d. st = bump m k d (ns_stats s)"
    if "(if statsType env = STATS_DETAILED then statsReceiveBlockDetailed env (ns_stats s) (bk_miner b) (bk_height b) now
                else Inr (ns_stats s)) = Inr st" for st
    using that stats_bumps(4) bump_refl by (auto split: if_splits)
  have bump2: "\<exists>m k d. st' = bump m k d st"
    if "(if q then statsSwitchToSelfishChain env st else Inr st) = Inr st'" for q st st'
    using that stats_bumps(2) bump_refl by (auto split: if_splits)
  have asked: "\<exists>q. sa = y\<lparr>ns_rng := q\<rparr>"
    if "(if f then Inr (y, []) else requestParent me now y b) = Inr (sa, evs)" for f y sa evs
    using that requestParent_frame [of me now y b sa evs] by (cases f) (auto intro: exI [of _ "ns_rng y"])
  note keeps = received_keeps [OF inv att b one, folded hs'_def]
  show ?thesis unfolding handle_receive_def
  proof (intro okR_intros, goal_cases)
    case (1 x st xb rc ba bs baa ts st2 t y xd sa evs xe new rng ya yb)
    from 1(8) have ts: "ts = Some t" by (auto split: option.splits)
    from asked [OF 1(10) [unfolded 1(11)]] obtain q where "sa = y\<lparr>ns_rng := q\<rparr>" ..
    then have ya: "ya = s\<lparr>ns_blockchain := bs, ns_txns := t, ns_stats := st2, ns_rng := rng\<rparr>" using 1(9,14) by simp
    have "no_double env hs' ya \<longrightarrow> node_inv env me hs' ya"
      by (rule keeps [OF _ bump1 [OF 1(3)], where s' = ya and rc = rc]) (use bump_refl 1(4-7,16) ts in \<open>simp_all add: ya\<close>)
    then show ?case by simp
  next
    case (2 x st xb rc ba bs baa ts st2 t y xd sa evs xe new rng ya yb st3 att_me a)
    from 2(8) have ts: "ts = Some t" by (auto split: option.splits)
    from asked [OF 2(10) [unfolded 2(11)]] obtain q where "sa = y\<lparr>ns_rng := q\<rparr>" ..
    then have ya: "ya = s\<lparr>ns_blockchain := bs, ns_txns := t, ns_stats := st2, ns_rng := rng\<rparr>" using 2(9,14) by simp
    let ?s = "ya\<lparr>ns_stats := st3, ns_attacker := a\<rparr>"
    have a: "if attacker env me then \<exists>x. a = Some x \<and> last_propagated_height x = bk_height b else a = ns_attacker s"
      using 2(18,19) cov by (auto simp: ya split: option.splits if_splits)
    have "no_double env hs' ?s \<longrightarrow> node_inv env me hs' ?s"
      by (rule keeps [OF _ bump1 [OF 2(3)], where s' = ?s and rc = rc])
        (use 2(4-7,16) ts a bump2 [OF 2(17)] in \<open>simp_all add: ya\<close>)
    then show ?case by simp
  next
    case (3 x r n y s' evs)
    from requestParent_frame [of me now s b s' evs] 3 obtain q where "s' = s\<lparr>ns_rng := q\<rparr>" by auto
    with inv held 3 show ?case by (auto intro: node_inv_cong)
  next
    case (4 x r n)
    with inv held show ?case by auto
  qed
qed

subsection \<open>Generating a block\<close>

lemma concealBlock_frame:
  assumes "\<exists>x. ns_attacker s = Some x \<and> last_propagated_height x \<le> h" "bk_height b \<le> h"
  shows "okR (\<lambda>(s', evs). ns_blockchain s' = ns_blockchain s \<and> ns_txns s' = ns_txns s
      \<and> (\<exists>m k d. ns_stats s' = bump m k d (ns_stats s)) \<and> (\<exists>x. ns_attacker s' = Some x \<and> last_propagated_height x \<le> h))
    (concealBlock topo fuel env me now b s)"
proof -
  have bump: "\<exists>m k d. st' = bump m k d st"
    if "(if q then statsSwitchToSelfishChain env st else Inr st) = Inr st'" for q st st'
    using that stats_bumps(2) bump_refl by (auto split: if_splits)
  show ?thesis unfolding concealBlock_def using assms
    by (intro okR_intros) (auto dest!: bump intro: bump_refl)
qed

lemma handle_generate_keeps:
  assumes inv: "node_inv env me hs s"
    and pre: "attack_ok env me" "unat me < N_NODES" "known_senders txns"
      "movable (chain_of (ns_blockchain s)) (Suc (bc_height (chain_of (ns_blockchain s))))"
      "one_root (prepareChain (chain_of (ns_blockchain s)) (Suc (bc_height (chain_of (ns_blockchain s)))))"
      "Suc (bc_height (chain_of (ns_blockchain s))) < 2 ^ 32" "main_unique (chain_of (ns_blockchain s))"
      "no_orphan_for (prepareChain (chain_of (ns_blockchain s)) (Suc (bc_height (chain_of (ns_blockchain s))))) me
         (Suc (bc_height (chain_of (ns_blockchain s))))"
  shows "okR (\<lambda>(s', evs). bc_height (chain_of (ns_blockchain s')) = Suc (bc_height (chain_of (ns_blockchain s)))
      \<and> (\<exists>hs'. node_inv env me hs' s')) (handle_generate topo fuel txns env me now s)"
proof -
  let ?h = "bc_height (chain_of (ns_blockchain s))"
  from inv obtain st0 where z: "zero_counters st0"
    and led: "ledger_inv env me hs st0 (chain_of (ns_blockchain s), Some (ns_txns s), ns_stats s)"
    and hid: "hidden_ok env me ?h (ns_attacker s)"
    by (auto simp: node_inv_def)
  from generateBlock_step [OF led pre, of now] obtain b0 bs0 ts0 st1 hs' where
    gen: "generateBlock env txns me now (ns_blockchain s, Some (ns_txns s), ns_stats s) = Inr (b0, bs0, ts0, st1)"
    and b0: "bk_height b0 = Suc ?h" "bc_height (chain_of bs0) = Suc ?h"
    and led': "ledger_inv env me hs' st0 (chain_of bs0, ts0, st1)"
    by auto
  have cov: "is_attacker env me = Inr (attacker env me)" using pre(1) by (simp add: attack_ok_def is_attacker_eq)
  have mined: "\<exists>m k d. st' = bump m k d st"
    if "(if statsType env = STATS_DETAILED then statsMineBlockDetailed env st me h now
            else if statsType env = STATS_SELFISH then statsMineBlockSelfish env st else Inr st) = Inr st'" for st st' h
    using that stats_bumps(1,3) bump_refl by (auto split: if_splits)
  have hid': "hidden_ok env me (Suc ?h) (ns_attacker s)" using hid by (auto simp: hidden_ok_def)
  show ?thesis unfolding handle_generate_def
  proof (intro okR_intros, goal_cases)
    case (1 x b y bs z2 ts st t s1 att conceal w s2 evs st3)
    from 1 gen have eqs: "b = b0" "bs = bs0" "ts = ts0" "st = st1" by auto
    from 1(5) have ts: "ts0 = Some t" unfolding eqs by (auto split: option.splits)
    have s1: "s1 = s\<lparr>ns_blockchain := bs0, ns_txns := t, ns_stats := st1\<rparr>" using 1(6) eqs by simp
    have att: "att = attacker env me" using 1(7) cov by simp
    have frame: "ns_blockchain s2 = bs0 \<and> ns_txns s2 = t \<and> (\<exists>m k d. ns_stats s2 = bump m k d st1)
        \<and> hidden_ok env me (Suc ?h) (ns_attacker s2)"
    proof (cases conceal)
      case True
      with 1(8) have "attacker env me" using att by (auto split: if_splits)
      with hid' obtain a where "ns_attacker s1 = Some a" "last_propagated_height a \<le> Suc ?h"
        unfolding s1 by (auto simp: hidden_ok_def)
      then have a: "\<exists>a. ns_attacker s1 = Some a \<and> last_propagated_height a \<le> Suc ?h" by blast
      from 1(9,10) True have "concealBlock topo fuel env me now b0 s1 = Inr (s2, evs)" by (simp add: eqs)
      with okRD [OF concealBlock_frame [OF a, of b0] this] b0 show ?thesis
        unfolding s1 by (auto simp: hidden_ok_def)
    next
      case False
      with 1(9,10) have "\<exists>q. s2 = s1\<lparr>ns_rng := q\<rparr>" by (auto simp: bindR_eq_Inr)
      with hid' bump_refl show ?thesis unfolding s1 by auto
    qed
    let ?s = "s2\<lparr>ns_stats := st3\<rparr>"
    from frame mined [OF 1(11)] bump_trans have bump: "\<exists>m k d. st3 = bump m k d st1" by blast
    have "node_inv env me hs' ?s"
      by (rule node_inv_ledger [OF z _ bump, of env me hs' "chain_of bs0" t])
        (use led' ts frame b0 in simp_all)
    with frame b0 show ?case by auto
  qed
qed

subsection \<open>A transaction state stays there\<close>

text \<open>What adding a block does to the chain never loses or invents the transaction state.\<close>

definition has_txns :: "view \<Rightarrow> bool" where
  "has_txns v \<longleftrightarrow> fst (snd v) \<noteq> None"

lemma has_txns_simp [simp]: "has_txns (c, ts, st) \<longleftrightarrow> ts \<noteq> None"
  by (simp add: has_txns_def)

lemma on_txns_has: "on_txns f ts d = Inr ts' \<Longrightarrow> (ts' \<noteq> None) = (ts \<noteq> None)"
  by (auto simp: on_txns_def bindR_eq_Inr split: option.splits)

lemma applyChainNode_has: "applyChainNode env me n v = Inr v' \<Longrightarrow> has_txns v' = has_txns v"
  by (auto simp: applyChainNode_def has_txns_def bindR_eq_Inr Let_def split: prod.splits dest: on_txns_has)

lemma revertAppliedChainNode_has: "revertAppliedChainNode env me n v = Inr v' \<Longrightarrow> has_txns v' = has_txns v"
  by (auto simp: revertAppliedChainNode_def has_txns_def bindR_eq_Inr Let_def split: prod.splits dest: on_txns_has)

lemma revert_above_has: "revert_above fuel env me h main v = Inr (p, v') \<Longrightarrow> has_txns v' = has_txns v"
proof (induction fuel arbitrary: main v)
  case (Suc fuel)
  then show ?case
    by (auto simp: bindR_eq_Inr split: if_splits dest!: revertAppliedChainNode_has)
qed simp

lemma meet_has: "meet fuel env me main walker buf v = Inr (b, v') \<Longrightarrow> has_txns v' = has_txns v"
proof (induction fuel arbitrary: main walker buf v)
  case (Suc fuel)
  then show ?case
    by (auto simp: bindR_eq_Inr split: if_splits dest!: revertAppliedChainNode_has)
qed simp

lemma apply_refs_has: "foldR (apply_ref env me) rs v = Inr v' \<Longrightarrow> has_txns v' = has_txns v"
proof (induction rs arbitrary: v)
  case (Cons r rs)
  then show ?case by (auto simp: apply_ref_def bindR_eq_Inr dest!: applyChainNode_has)
qed simp

lemma maybeSwitchChains_has: "maybeSwitchChains env me r i v = Inr v' \<Longrightarrow> has_txns v' = has_txns v"
proof -
  have "okR (\<lambda>v'. has_txns v' = has_txns v) (maybeSwitchChains env me r i v)"
    unfolding maybeSwitchChains_def switchChains_def
    by (intro okR_intros) (auto dest!: revert_above_has meet_has apply_refs_has)
  then show "maybeSwitchChains env me r i v = Inr v' \<Longrightarrow> has_txns v' = has_txns v" by (rule okRD)
qed

lemma addBlock_has:
  assumes "addBlock env me now b (c, Some t, st) = Inr ((c', ts', st'), r)"
  shows "\<exists>t'. ts' = Some t'"
proof -
  have "okR (\<lambda>(v, r). has_txns v) (addBlock env me now b (c, Some t, st))"
    unfolding addBlock_def
    by (intro okR_intros) (auto dest!: maybeSwitchChains_has)
  from okRD [OF this assms] show ?thesis by simp
qed

lemma generateBlock_has:
  assumes "generateBlock env txns me now (bs, Some t, st) = Inr (b, bs', ts', st')"
  shows "(\<exists>t'. ts' = Some t') \<and> miningState bs' = miningState bs"
proof -
  have "okR (\<lambda>(b, bs', ts', st'). (\<exists>t'. ts' = Some t') \<and> miningState bs' = miningState bs)
    (generateBlock env txns me now (bs, Some t, st))"
    unfolding generateBlock_def
    by (intro okR_intros) (auto simp: bindR_eq_Inr dest!: addBlock_has)
  from okRD [OF this assms] show ?thesis by simp
qed

subsection \<open>The invariant between events\<close>

lemma schedule_next_frame:
  "okR (\<lambda>oc. \<exists>s'. oc_state oc = Some s' \<and> ns_blockchain s' = ns_blockchain s \<and> ns_txns s' = ns_txns s
      \<and> ns_stats s' = ns_stats s \<and> ns_attacker s' = ns_attacker s) (schedule_next env now g s evs)"
  unfolding schedule_next_def by (intro okR_intros) auto

lemma no_double_cong: "ns_blockchain s' = ns_blockchain s \<Longrightarrow> no_double env hs s' = no_double env hs s"
  by (simp add: no_double_def)

lemma ProcessEvent_receive:
  assumes "now \<le> termination_time (gl_env g)"
  shows "ProcessEvent topo txns fuel fresh me now RECEIVE_BLOCK (BlockContent b) (Some s) g =
    bindR (is_attacker (gl_env g) me) (\<lambda>_. bindR (handle_receive topo fuel (gl_env g) me now b s) (\<lambda>(s, evs, again).
      if again then schedule_next (gl_env g) now g s evs
      else Inr \<lparr>oc_state = Some s, oc_globals = g, oc_events = evs, oc_next = None\<rparr>))"
  using assms by (simp add: ProcessEvent_def event_codes block_content_def state_of_def Let_def)

lemma ProcessEvent_generate:
  assumes "now \<le> termination_time (gl_env g)"
  shows "ProcessEvent topo txns fuel fresh me now GENERATE_BLOCK x (Some s) g =
    bindR (is_attacker (gl_env g) me) (\<lambda>_. bindR (handle_generate topo fuel txns (gl_env g) me now s) (\<lambda>(s, evs).
      schedule_next (gl_env g) now g s evs))"
  using assms by (simp add: ProcessEvent_def event_codes state_of_def Let_def)

text \<open>
  C3: receiving a block keeps the node in order: whatever the block does to the chain, a switch
  of chains and the linking of orphans included, the chain stays well formed, its transactions
  and counters stay those of its main chain (unless a transaction is twice on the new main
  chain), and the hidden chain of an attacker stays within its main chain.
\<close>

theorem ProcessEvent_receive_keeps:
  assumes "ProcessEvent topo txns fuel fresh me now RECEIVE_BLOCK (BlockContent b) (Some s) g = Inr oc"
    and "now \<le> termination_time (gl_env g)"
    and "node_inv (gl_env g) me hs s" and "attack_ok (gl_env g) me"
    and "block_ok (gl_env g) (chain_of (ns_blockchain s)) b"
    and "one_root (prepareChain (chain_of (ns_blockchain s)) (bk_height b))"
  shows "\<exists>s'. oc_state oc = Some s'
     \<and> (let hs' = hs @ dropped (chain_of (ns_blockchain s)) (prepareChain (chain_of (ns_blockchain s)) (bk_height b)) in
        no_double (gl_env g) hs' s' \<longrightarrow> node_inv (gl_env g) me hs' s')"
proof -
  note keeps = okRD [OF handle_receive_keeps [OF assms(3-6)]]
  from assms(1) obtain s1 evs again where h: "handle_receive topo fuel (gl_env g) me now b s = Inr (s1, evs, again)"
    and rest: "(if again then schedule_next (gl_env g) now g s1 evs
      else Inr \<lparr>oc_state = Some s1, oc_globals = g, oc_events = evs, oc_next = None\<rparr>) = Inr oc"
    by (auto simp: ProcessEvent_receive [OF assms(2)] bindR_eq_Inr)
  from rest okRD [OF schedule_next_frame, of "gl_env g" now g s1 evs oc] obtain s' where
    "oc_state oc = Some s'" "ns_blockchain s' = ns_blockchain s1" "ns_txns s' = ns_txns s1"
    "ns_stats s' = ns_stats s1" "ns_attacker s' = ns_attacker s1" by (auto split: if_splits)
  with keeps [OF h] no_double_cong [of s' s1] node_inv_cong [of "gl_env g" me _ s1 s'] show ?thesis by (auto simp: Let_def)
qed

text \<open>
  C9: mining keeps the node in order and makes its main chain one block longer, for honest nodes
  and for attackers, whether an attacker hides the block or releases its hidden chain. It needs what
  Block.h documents, that no miner mines at the same height twice (main_unique for the main chain,
  no_orphan_for for the new block), transactions from known nodes, and a chain whose window can move
  up and keeps one root.
\<close>

theorem ProcessEvent_generate_keeps:
  assumes "ProcessEvent topo txns fuel fresh me now GENERATE_BLOCK x (Some s) g = Inr oc"
    and "now \<le> termination_time (gl_env g)"
    and "node_inv (gl_env g) me hs s" and "attack_ok (gl_env g) me" and "unat me < N_NODES" and "known_senders txns"
    and "movable (chain_of (ns_blockchain s)) (Suc (bc_height (chain_of (ns_blockchain s))))"
    and "one_root (prepareChain (chain_of (ns_blockchain s)) (Suc (bc_height (chain_of (ns_blockchain s)))))"
    and "Suc (bc_height (chain_of (ns_blockchain s))) < 2 ^ 32" and "main_unique (chain_of (ns_blockchain s))"
    and "no_orphan_for (prepareChain (chain_of (ns_blockchain s)) (Suc (bc_height (chain_of (ns_blockchain s))))) me
         (Suc (bc_height (chain_of (ns_blockchain s))))"
  shows "\<exists>s' hs'. oc_state oc = Some s' \<and> node_inv (gl_env g) me hs' s'
     \<and> bc_height (chain_of (ns_blockchain s')) = Suc (bc_height (chain_of (ns_blockchain s)))"
proof -
  from assms(1) obtain s1 evs where h: "handle_generate topo fuel txns (gl_env g) me now s = Inr (s1, evs)"
    and rest: "schedule_next (gl_env g) now g s1 evs = Inr oc"
    by (auto simp: ProcessEvent_generate [OF assms(2)] bindR_eq_Inr)
  from okRD [OF handle_generate_keeps [OF assms(3-11)] h] obtain hs' where
    keep: "bc_height (chain_of (ns_blockchain s1)) = Suc (bc_height (chain_of (ns_blockchain s)))" "node_inv (gl_env g) me hs' s1"
    by auto
  from okRD [OF schedule_next_frame rest] obtain s' where
    s': "oc_state oc = Some s'" "ns_blockchain s' = ns_blockchain s1" "ns_txns s' = ns_txns s1"
    "ns_stats s' = ns_stats s1" "ns_attacker s' = ns_attacker s1" by auto
  from node_inv_cong [OF keep(2) s'(2-5)] s'(1,2) keep(1) show ?thesis by auto
qed

text \<open>A node without peers and without hash power, after its initialisation.\<close>

definition example_node :: node_state where
  "example_node = \<lparr>ns_rng = example_rng,
     ns_blockchain = \<lparr>chain_of = initBlockchain, miningState = HashPowerPortion 0, mined_by_me = 0\<rparr>,
     ns_txns = initTransactionState, ns_stats = example_stats, ns_attacker = None\<rparr>"

definition example_topology :: topology where
  "example_topology = replicate 6 []"

lemma example_node_inv: "unat me < 1024 \<Longrightarrow> me \<noteq> 3 \<Longrightarrow> node_inv example_env me [] example_node"
proof -
  assume me: "me \<noteq> 3" "unat me < 1024"
  have "zero_counters example_stats"
    by (simp add: zero_counters_def example_stats_def initSelfishStatisticsState_def)
  moreover have "ledger_inv example_env me [] example_stats (initBlockchain, Some initTransactionState, example_stats)"
    by (rule ledger_init)
  ultimately have "\<exists>st0. zero_counters st0 \<and> ledger_inv example_env me [] st0 (initBlockchain, Some initTransactionState, example_stats)"
    by blast
  with me show ?thesis by (simp add: node_inv_def example_node_def hidden_ok_def example_attackers)
qed

lemma example_honest: "is_attacker example_env 5 = Inr False"
  using example_attackers [of 5] by (simp add: is_attacker_eq)

lemma example_no_peers: "propagateBlock example_topology fuel 5 t b rng = Inr ([], rng)"
  by (simp add: propagateBlock_def example_topology_def gossipBlock_def)

lemma example_schedule: "ns_blockchain s = bs \<Longrightarrow> miningState bs = HashPowerPortion 0 \<Longrightarrow> \<exists>oc. schedule_next env now g s evs = Inr oc"
  by (simp add: schedule_next_def scheduleNextBlockGeneration_def)

lemma example_ask:
  "bk_sender b = 7 \<Longrightarrow> ns_rng s = example_rng \<Longrightarrow> \<exists>s' evs. requestParent 5 t s b = Inr (s', evs) \<and> (\<exists>q. s' = s\<lparr>ns_rng := q\<rparr>)"
proof -
  assume b: "bk_sender b = 7" "ns_rng s = example_rng"
  have "Random example_rng = Inr (0, snd (random_u64 example_rng))"
    by (simp add: example_rng_def Random_def RandomU64_def random_u64_def rotl_def random_of_u64_def Let_def)
  moreover have "unat (5 :: node_id) < N_NODES" "unat (7 :: node_id) < N_NODES" by (simp_all add: N_NODES_def)
  then obtain l where "latency initNetwork 5 7 = Inr l" using latency_pos by blast
  ultimately show ?thesis using b
    by (auto simp: requestParent_def getTransmissionDelay_def Expent_def intro: exI [of _ "snd (random_u64 example_rng)"])
qed

definition example_run_globals :: globals where
  "example_run_globals = example_globals\<lparr>gl_totalHashPower := 1\<rparr>"

lemma example_run_env [simp]: "gl_env example_run_globals = example_env"
  by (simp add: example_run_globals_def example_globals_def)

lemma example_now: "(1 :: simtime) \<le> termination_time example_env" "statsType example_env = STATS_SELFISH"
  by (simp_all add: example_env_def default_env_def TERMINATION_TIME_def)

lemma example_received:
  "\<exists>oc. ProcessEvent example_topology (\<lambda>i. generate_txn N_NODES i 0) 0 example_fresh 5 1 RECEIVE_BLOCK
     (BlockContent (example_block 1 7 NODE_ID_MAX)) (Some example_node) example_run_globals = Inr oc"
proof -
  let ?b = "example_block 1 7 NODE_ID_MAX"
  have h: "bk_height ?b = 1" "bk_sender ?b = 7" "\<not> bk_is_attack_block ?b" by (simp_all add: example_block_def)
  from addBlock_kept [OF ledger_init [of example_env 5 example_stats] example_attack_ok [of 5] example_block_ok [of 7], of 1]
    example_one_root h obtain c' e' r where
    a: "addBlock example_env 5 1 ?b (initBlockchain, Some initTransactionState, example_stats) = Inr ((c', e'), r)"
       "shape c'" "valid c' r" by (auto simp: wf_chain_def wf_tree_def)
  obtain ts st where e': "e' = (ts, st)" by (cases e')
  with addBlock_has a(1) obtain t where ts: "ts = Some t" by blast
  let ?bs = "(ns_blockchain example_node)\<lparr>chain_of := c'\<rparr>"
  from a e' ts obtain rc where
    rc: "receiveBlock example_env 5 1 ?b False False (ns_blockchain example_node, Some (ns_txns example_node), ns_stats example_node)
       = Inr (rc, ?bs, Some t, st)"
    by (auto simp: receiveBlock_def validateBlock_def example_node_def Let_def)
  have new: "findChainNode (chain_of (ns_blockchain example_node)) (bk_miner ?b) (bk_height ?b) = Inr None"
    unfolding h by (simp add: findChainNode_def example_node_def)
  define s where "s = example_node\<lparr>ns_blockchain := ?bs, ns_txns := t, ns_stats := st\<rparr>"
  have "ns_rng s = example_rng" by (simp add: s_def example_node_def)
  with example_ask [of ?b s 1] h obtain s1 evs q where ask: "requestParent 5 1 s ?b = Inr (s1, evs)" "s1 = s\<lparr>ns_rng := q\<rparr>" by blast
  have "\<exists>s3 evs3 again. handle_receive example_topology 0 example_env 5 1 ?b example_node = Inr (s3, evs3, again) \<and> ns_blockchain s3 = ?bs"
  proof (cases "foundParent rc")
    case True
    then show ?thesis
      using new rc example_now(2) example_honest h(3)
      by (cases "updatedMainChain rc") (auto simp: handle_receive_def example_no_peers Let_def simp del: One_nat_def)
  next
    case False
    then show ?thesis
      using new rc example_now(2) example_honest h(3) ask [unfolded s_def]
      by (cases "updatedMainChain rc") (auto simp: handle_receive_def example_no_peers Let_def simp del: One_nat_def)
  qed
  then obtain s3 evs3 again where
    "handle_receive example_topology 0 example_env 5 1 ?b example_node = Inr (s3, evs3, again)" "ns_blockchain s3 = ?bs" by blast
  moreover have "miningState ?bs = HashPowerPortion 0" by (simp add: example_node_def)
  ultimately show ?thesis
    using example_schedule [of s3 ?bs example_env 1 example_run_globals evs3] example_honest
    by (auto simp: ProcessEvent_receive example_now(1))
qed

theorem ProcessEvent_receive_keeps_witness:
  "\<exists>oc s'. ProcessEvent example_topology (\<lambda>i. generate_txn N_NODES i 0) 0 example_fresh 5 1 RECEIVE_BLOCK
     (BlockContent (example_block 1 7 NODE_ID_MAX)) (Some example_node) example_run_globals = Inr oc \<and> oc_state oc = Some s'"
proof -
  from example_received obtain oc where oc: "ProcessEvent example_topology (\<lambda>i. generate_txn N_NODES i 0) 0 example_fresh 5 1 RECEIVE_BLOCK
     (BlockContent (example_block 1 7 NODE_ID_MAX)) (Some example_node) example_run_globals = Inr oc" ..
  have "node_inv (gl_env example_run_globals) 5 [] example_node" "attack_ok (gl_env example_run_globals) 5"
    "block_ok (gl_env example_run_globals) (chain_of (ns_blockchain example_node)) (example_block 1 7 NODE_ID_MAX)"
    "one_root (prepareChain (chain_of (ns_blockchain example_node)) (bk_height (example_block 1 7 NODE_ID_MAX)))"
    using example_node_inv [of 5] example_attack_ok [of 5] example_block_ok [of 7] example_one_root
    by (simp_all add: example_node_def example_block_def)
  from ProcessEvent_receive_keeps [OF oc _ this] oc example_now(1) show ?thesis by auto
qed

lemma example_generate_pre:
  "movable (chain_of (ns_blockchain example_node)) (Suc (bc_height (chain_of (ns_blockchain example_node))))"
  "one_root (prepareChain (chain_of (ns_blockchain example_node)) (Suc (bc_height (chain_of (ns_blockchain example_node)))))"
  "Suc (bc_height (chain_of (ns_blockchain example_node))) < 2 ^ 32" "main_unique (chain_of (ns_blockchain example_node))"
  "no_orphan_for (prepareChain (chain_of (ns_blockchain example_node)) (Suc (bc_height (chain_of (ns_blockchain example_node))))) 5
     (Suc (bc_height (chain_of (ns_blockchain example_node))))"
proof -
  have c: "chain_of (ns_blockchain example_node) = initBlockchain" by (simp add: example_node_def)
  show "movable (chain_of (ns_blockchain example_node)) (Suc (bc_height (chain_of (ns_blockchain example_node))))"
    by (simp add: c movable_def DEPTH_TO_KEEP_def)
  show "one_root (prepareChain (chain_of (ns_blockchain example_node)) (Suc (bc_height (chain_of (ns_blockchain example_node)))))"
    using example_one_root by (simp add: c)
  show "Suc (bc_height (chain_of (ns_blockchain example_node))) < 2 ^ 32" by (simp add: c)
  show "main_unique (chain_of (ns_blockchain example_node))" by (simp add: c main_unique_def valid_init)
  have "prepareChain initBlockchain 1 = initBlockchain\<lparr>bc_max_height := 1\<rparr>"
    by (simp add: prepareChain_def Let_def DEPTH_TO_KEEP_def)
  then show "no_orphan_for (prepareChain (chain_of (ns_blockchain example_node)) (Suc (bc_height (chain_of (ns_blockchain example_node))))) 5
     (Suc (bc_height (chain_of (ns_blockchain example_node))))"
    by (simp add: c no_orphan_for_def valid_init)
qed

lemma example_generated:
  "\<exists>oc. ProcessEvent example_topology (\<lambda>i. generate_txn N_NODES i 0) 0 example_fresh 5 1 GENERATE_BLOCK
     NoContent (Some example_node) example_run_globals = Inr oc"
proof -
  let ?s = example_node
  have txns: "known_senders (\<lambda>i. generate_txn N_NODES i 0)" "unat (5 :: node_id) < N_NODES"
    by (simp_all add: N_NODES_def known_senders_def generate_txn_def)
  have led: "ledger_inv example_env 5 [] example_stats (chain_of (ns_blockchain ?s), Some (ns_txns ?s), ns_stats ?s)"
    using ledger_init by (simp add: example_node_def)
  from generateBlock_step [OF led example_attack_ok txns(2,1) example_generate_pre, of 1] obtain b bs ts st where
    gen: "generateBlock example_env (\<lambda>i. generate_txn N_NODES i 0) 5 1 (ns_blockchain ?s, Some (ns_txns ?s), ns_stats ?s)
       = Inr (b, bs, ts, st)" by auto
  from generateBlock_has [OF gen] obtain t where ts: "ts = Some t" and portion: "miningState bs = HashPowerPortion 0"
    by (auto simp: example_node_def)
  define s where "s = ?s\<lparr>ns_blockchain := bs, ns_txns := t, ns_stats := st\<rparr>"
  have "\<exists>st'. statsMineBlockSelfish example_env st = Inr st'" by (simp add: statsMineBlockSelfish_def example_now(2))
  then obtain st' where st': "statsMineBlockSelfish example_env st = Inr st'" ..
  have "ns_stats s = st" by (simp add: s_def)
  then have "handle_generate example_topology 0 (\<lambda>i. generate_txn N_NODES i 0) example_env 5 1 ?s = Inr (s\<lparr>ns_stats := st'\<rparr>, [])"
    using gen ts example_honest example_now(2) st'
    by (simp add: handle_generate_def s_def example_no_peers Let_def)
  then show ?thesis
    using example_schedule [of "s\<lparr>ns_stats := st'\<rparr>" bs example_env 1 example_run_globals "[]"] portion example_honest
    by (simp add: ProcessEvent_generate example_now(1) s_def)
qed

theorem ProcessEvent_generate_keeps_witness:
  "\<exists>oc s'. ProcessEvent example_topology (\<lambda>i. generate_txn N_NODES i 0) 0 example_fresh 5 1 GENERATE_BLOCK
     NoContent (Some example_node) example_run_globals = Inr oc \<and> oc_state oc = Some s'
     \<and> bc_height (chain_of (ns_blockchain s')) = 1"
proof -
  from example_generated obtain oc where oc: "ProcessEvent example_topology (\<lambda>i. generate_txn N_NODES i 0) 0 example_fresh 5 1
     GENERATE_BLOCK NoContent (Some example_node) example_run_globals = Inr oc" ..
  have "node_inv (gl_env example_run_globals) 5 [] example_node" "attack_ok (gl_env example_run_globals) 5"
    "unat (5 :: node_id) < N_NODES" "known_senders (\<lambda>i. generate_txn N_NODES i 0)" "(1 :: simtime) \<le> termination_time (gl_env example_run_globals)"
    using example_node_inv [of 5] example_attack_ok [of 5] example_now(1)
    by (simp_all add: N_NODES_def known_senders_def generate_txn_def)
  from ProcessEvent_generate_keeps [OF oc this(5,1-4) example_generate_pre] oc show ?thesis by (auto simp: example_node_def)
qed

subsection \<open>The release of a hidden chain\<close>

definition sent_height :: "event \<Rightarrow> nat" where
  "sent_height ev = (case ev_content ev of BlockContent b \<Rightarrow> bk_height b | _ \<Rightarrow> 0)"

lemma propagate_own:
  assumes "propagateBlock topo fuel me t b rng = Inr (evs, rng')" "bk_miner b = me"
  shows "map (\<lambda>ev. (ev_receiver ev, sent_height ev)) evs = map (\<lambda>p. (p, bk_height b)) (topo ! unat me)"
proof -
  from assms have "gossip_all me t b (topo ! unat me) ([], rng) = Inr (evs, rng')"
    by (auto simp: propagateBlock_def gossipBlock_def bindR_eq_Inr nthR_eq_Inr)
  from gossip_all_events [OF this] have ps: "map ev_receiver evs = topo ! unat me" "\<forall>ev\<in>set evs. carries me t b ev" by auto
  from ps(2) have "\<forall>ev\<in>set evs. sent_height ev = bk_height b" by (auto simp: carries_def sent_height_def)
  then have "map (\<lambda>ev. (ev_receiver ev, sent_height ev)) evs = map (\<lambda>p. (p, bk_height b)) (map ev_receiver evs)" by simp
  then show ?thesis unfolding ps(1) .
qed

lemma retrieveBlock_block:
  assumes "wf_chain c" "retrieveBlock c m h = Inr (Some a)"
  shows "bk_miner a = m \<and> bk_height a = h"
proof -
  from assms(2) obtain r n where r: "findChainNode c m h = Inr (Some r)" and n: "getChainNode c r = Inr n" and a: "blockFromNode c n = Inr a"
    by (auto simp: retrieveBlock_def bindR_eq_Inr split: option.splits)
  from assms(1) have tree: "wf_tree c" and sh: "shape c" by (auto simp: wf_chain_def wf_tree_def)
  from r obtain l where l: "getChainLevel c h = Inr l" "find_miner m 0 (lv_nodes l) = Some (snd r)" "fst r = h" "h \<le> bc_max_height c"
    by (auto simp: findChainNode_def bindR_eq_Inr split: if_splits)
  have "\<not> h < bc_min_height c" using l(1) by auto
  with l(4) tree have "in_window c h" by (auto simp: in_window_def wf_tree_def)
  with l(1) sh have "l = level c h" by simp
  with l(2) find_miner_Some [of m 0 "nodes c h" "snd r"] have i: "snd r < length (nodes c h)" "cn_miner (nodes c h ! snd r) = m"
    by (auto simp: nodes_def)
  with \<open>in_window c h\<close> l(3) have v: "valid c r" by (simp add: valid_def)
  with n sh have "n = node_at c r" by simp
  moreover have "cn_height (node_at c r) = h" using wf_tree_node [OF tree v] l(3) by (simp add: wf_node_def)
  ultimately show ?thesis
    using a i(2) l(3) by (auto simp: blockFromNode_def node_at_def bindR_eq_Inr split: option.splits)
qed

lemma ancestors_loop_sent:
  assumes "ancestors_loop topo fuel c me b n i (t, evs, rng) = Inr (t', evs', rng')" and "wf_chain c" and "bk_miner b = me"
    and "unat n \<le> bk_height b" and "bk_height b < 2 ^ 64" and "1 \<le> i" and "i \<le> unat n"
  shows "map (\<lambda>ev. (ev_receiver ev, sent_height ev)) evs' = map (\<lambda>ev. (ev_receiver ev, sent_height ev)) evs
    @ concat (map (\<lambda>h. map (\<lambda>p. (p, h)) (topo ! unat me)) [bk_height b - unat n + i..<bk_height b])"
  using assms
proof (induction topo fuel c me b n i "(t, evs, rng)" arbitrary: t evs rng rule: ancestors_loop.induct)
  case (1 topo fuel c me b n i t evs rng)
  show ?case
  proof (cases "i < unat n")
    case False
    with "1.prems" show ?thesis by (simp add: ancestors_loop.simps [of _ _ _ _ _ _ i])
  next
    case True
    let ?w = "of_nat (bk_height b) - n + of_nat i :: u64" and ?h = "bk_height b - unat n + i"
    have w: "unat ?w = ?h"
    proof -
      have "?w = of_nat ?h" using "1.prems"(4) by (simp add: of_nat_diff)
      moreover have "?h < 2 ^ 64" using True "1.prems"(4,5) by linarith
      ultimately show ?thesis by (simp only: unat_of_nat) simp
    qed
    from "1.prems"(1) True obtain a new r where a: "retrieveBlock c (bk_miner b) (unat ?w) = Inr (Some a)"
      and p: "propagateBlock topo fuel me t (a\<lparr>bk_sender := me\<rparr>) rng = Inr (new, r)"
      and rest: "ancestors_loop topo fuel c me b n (Suc i) (t + 2 / 1000, evs @ new, r) = Inr (t', evs', rng')"
      by (auto simp: ancestors_loop.simps [of _ _ _ _ _ _ i] Let_def bindR_eq_Inr split: option.splits)
    from retrieveBlock_block [OF "1.prems"(2) a] "1.prems"(3) w have ab: "bk_miner a = me" "bk_height a = ?h" by auto
    have new: "map (\<lambda>ev. (ev_receiver ev, sent_height ev)) new = map (\<lambda>p. (p, ?h)) (topo ! unat me)"
      using propagate_own [OF p] ab by simp
    have "map (\<lambda>ev. (ev_receiver ev, sent_height ev)) evs' = map (\<lambda>ev. (ev_receiver ev, sent_height ev)) (evs @ new)
        @ concat (map (\<lambda>h. map (\<lambda>p. (p, h)) (topo ! unat me)) [bk_height b - unat n + Suc i..<bk_height b])"
      by (rule "1.hyps" [OF True refl a refl p refl]) (use rest "1.prems" True in simp_all)
    moreover have "[?h..<bk_height b] = ?h # [bk_height b - unat n + Suc i..<bk_height b]"
      using True "1.prems"(4) by (subst upt_conv_Cons) simp_all
    ultimately show ?thesis by (simp add: new)
  qed
qed

lemma propagate_own_runs:
  assumes "bk_miner b = me" "unat me < N_NODES" "unat me < length topo" "\<forall>p\<in>set (topo ! unat me). unat p < N_NODES"
    and "copyTransactionData (bk_transactionData b) = Inr td" "\<forall>k<length (topo ! unat me). random_ok (rng_after k rng)"
  shows "\<exists>evs. propagateBlock topo fuel me t b rng = Inr (evs, rng_after (length (topo ! unat me)) rng)"
  using gossip_all_runs [OF assms(2,4-6), of t "[]"] assms(1,3) by (auto simp: propagateBlock_def gossipBlock_def nthR_def)

lemma rng_after_plus: "rng_after j (rng_after k rng) = rng_after (k + j) rng"
  by (simp add: rng_after_def funpow_add [symmetric, THEN fun_cong, unfolded comp_apply] add.commute)

text \<open>The blocks of a miner that are in the chain and can be sent.\<close>

definition held :: "blockchain \<Rightarrow> node_id \<Rightarrow> nat \<Rightarrow> bool" where
  "held c me h \<longleftrightarrow> (\<exists>a td. retrieveBlock c me h = Inr (Some a) \<and> copyTransactionData (bk_transactionData a) = Inr td)"

lemma ancestors_loop_runs:
  assumes "wf_chain c" "bk_miner b = me" "unat me < N_NODES" "unat me < length topo" "\<forall>p\<in>set (topo ! unat me). unat p < N_NODES"
    and "unat n \<le> bk_height b" "bk_height b < 2 ^ 64" "1 \<le> i" "i \<le> unat n"
    and "\<forall>h\<in>{bk_height b - unat n + i..<bk_height b}. held c me h"
    and "\<forall>k<(unat n - i) * length (topo ! unat me). random_ok (rng_after k rng)"
  shows "\<exists>t' evs'. ancestors_loop topo fuel c me b n i (t, evs, rng) = Inr (t', evs', rng_after ((unat n - i) * length (topo ! unat me)) rng)"
  using assms
proof (induction "unat n - i" arbitrary: i t evs rng)
  case 0
  then show ?case by (simp add: ancestors_loop.simps [of _ _ _ _ _ _ i] rng_after_simps)
next
  case (Suc m)
  let ?h = "bk_height b - unat n + i" and ?L = "length (topo ! unat me)"
  have i: "i < unat n" "unat n - i = Suc m" "m = unat n - Suc i" using Suc.hyps(2) by simp_all
  have w: "unat (of_nat (bk_height b) - n + of_nat i :: u64) = ?h"
  proof -
    have "of_nat (bk_height b) - n + of_nat i = (of_nat ?h :: u64)" using Suc.prems(6) by (simp add: of_nat_diff)
    moreover have "?h < 2 ^ 64" using i(1) Suc.prems(6,7) by linarith
    ultimately show ?thesis by (simp only: unat_of_nat) simp
  qed
  have "?h \<in> {?h..<bk_height b}" using i(1) Suc.prems(6) by simp
  with Suc.prems(10) obtain a td where a: "retrieveBlock c me ?h = Inr (Some a)" "copyTransactionData (bk_transactionData a) = Inr td"
    unfolding held_def by blast
  have am: "bk_miner (a\<lparr>bk_sender := me\<rparr>) = me" using retrieveBlock_block [OF Suc.prems(1) a(1)] by simp
  have "\<forall>k<?L. random_ok (rng_after k rng)" using Suc.prems(11) unfolding i(2) by simp
  with propagate_own_runs [OF am Suc.prems(3-5), of td rng fuel t] a(2) obtain new where
    p: "propagateBlock topo fuel me t (a\<lparr>bk_sender := me\<rparr>) rng = Inr (new, rng_after ?L rng)" by auto
  have "random_ok (rng_after k (rng_after ?L rng))" if "k < (unat n - Suc i) * ?L" for k
    unfolding rng_after_plus using Suc.prems(11) that unfolding i(2) i(3) [symmetric] by simp
  then obtain t' evs' where "ancestors_loop topo fuel c me b n (Suc i) (t + 2 / 1000, evs @ new, rng_after ?L rng)
      = Inr (t', evs', rng_after ((unat n - Suc i) * ?L) (rng_after ?L rng))"
    using Suc.hyps(1) [OF i(3), of "rng_after ?L rng" "t + 2 / 1000" "evs @ new"] Suc.prems(1-10) i(1) by auto
  moreover have "rng_after ((unat n - Suc i) * ?L) (rng_after ?L rng) = rng_after ((unat n - i) * ?L) rng"
    unfolding rng_after_plus i(2) i(3) [symmetric] by simp
  ultimately show ?case using i(1) w a(1) p Suc.prems(2) by (simp add: ancestors_loop.simps [of _ _ _ _ _ _ i] Let_def)
qed

lemma release_heights:
  assumes "propagateBlockAndNAncestors topo fuel c me now b n rng = Inr (evs, rng')" and "wf_chain c" and "bk_miner b = me"
    and "1 \<le> unat n" and "unat n \<le> bk_height b" and "bk_height b < 2 ^ 64"
  shows "map (\<lambda>ev. (ev_receiver ev, sent_height ev)) evs =
    concat (map (\<lambda>h. map (\<lambda>p. (p, h)) (topo ! unat me)) [Suc (bk_height b) - unat n..<Suc (bk_height b)])"
proof -
  from assms(1) obtain t1 evs1 r1 new r2 where
    loop: "ancestors_loop topo fuel c me b n 1 (now, [], rng) = Inr (t1, evs1, r1)"
    and last: "propagateBlock topo fuel me t1 b r1 = Inr (new, r2)" and evs: "evs = evs1 @ new"
    by (auto simp: propagateBlockAndNAncestors_def bindR_eq_Inr)
  have "map (\<lambda>ev. (ev_receiver ev, sent_height ev)) evs1 =
      concat (map (\<lambda>h. map (\<lambda>p. (p, h)) (topo ! unat me)) [bk_height b - unat n + 1..<bk_height b])"
    using ancestors_loop_sent [OF loop assms(2,3,5,6)] assms(4) by simp
  moreover have "bk_height b - unat n + 1 = Suc (bk_height b) - unat n" using assms(5) by simp
  moreover have "[Suc (bk_height b) - unat n..<Suc (bk_height b)] = [Suc (bk_height b) - unat n..<bk_height b] @ [bk_height b]"
    using assms(4) by (intro upt_Suc_append) linarith
  ultimately show ?thesis by (simp add: evs propagate_own [OF last assms(3)] del: upt_Suc)
qed

text \<open>
  C27: when an attacker releases a block with the count n, its peers get n blocks: the block and its
  n - 1 nearest ancestors (the comment on propagateBlockAndNAncestors promises n ancestors). The
  function returns when these ancestors are blocks of the attacker that the chain holds and no draw of
  a delay is the one for which Random is undefined; whenever it returns, the events are the blocks
  of the n heights up to the newest, lowest first, each to every peer of the attacker once.
\<close>

theorem release_sends_hidden_chain:
  assumes "wf_chain c" "bk_miner b = me" "unat me < N_NODES" "unat me < length topo" "\<forall>p\<in>set (topo ! unat me). unat p < N_NODES"
    and "1 \<le> unat n" "unat n \<le> bk_height b" "bk_height b < 2 ^ 64" "copyTransactionData (bk_transactionData b) = Inr td"
  shows "((\<forall>h. bk_height b - unat n < h \<and> h < bk_height b \<longrightarrow> held c me h)
      \<and> (\<forall>k<unat n * length (topo ! unat me). random_ok (rng_after k rng))
      \<longrightarrow> (\<exists>evs rng'. propagateBlockAndNAncestors topo fuel c me now b n rng = Inr (evs, rng')))
    \<and> (\<forall>evs rng'. propagateBlockAndNAncestors topo fuel c me now b n rng = Inr (evs, rng') \<longrightarrow>
      map (\<lambda>ev. (ev_receiver ev, sent_height ev)) evs =
        concat (map (\<lambda>h. map (\<lambda>p. (p, h)) (topo ! unat me)) [Suc (bk_height b) - unat n..<Suc (bk_height b)]))"
proof (intro conjI allI impI)
  let ?L = "length (topo ! unat me)"
  assume h: "(\<forall>h. bk_height b - unat n < h \<and> h < bk_height b \<longrightarrow> held c me h) \<and> (\<forall>k<unat n * ?L. random_ok (rng_after k rng))"
  then have held: "\<forall>h\<in>{bk_height b - unat n + 1..<bk_height b}. held c me h" by auto
  have n: "unat n * ?L = (unat n - 1) * ?L + ?L" using assms(6) by (simp add: mult_eq_if)
  then have draws: "\<forall>k<(unat n - 1) * ?L. random_ok (rng_after k rng)" "\<forall>k<?L. random_ok (rng_after ((unat n - 1) * ?L + k) rng)"
    using h by simp_all
  from ancestors_loop_runs [OF assms(1-5,7,8) _ assms(6) held draws(1), of fuel now "[]"] obtain t' evs' where
    loop: "ancestors_loop topo fuel c me b n 1 (now, [], rng) = Inr (t', evs', rng_after ((unat n - 1) * ?L) rng)" by auto
  from propagate_own_runs [OF assms(2-5,9), of "rng_after ((unat n - 1) * ?L) rng" fuel t'] draws(2) loop
  show "\<exists>evs rng'. propagateBlockAndNAncestors topo fuel c me now b n rng = Inr (evs, rng')"
    by (auto simp: propagateBlockAndNAncestors_def rng_after_plus)
qed (rule release_heights [OF _ assms(1,2,6-8)])

text \<open>A hidden block at height 1 and the newest one at height 2: both go to the only peer.\<close>

definition hidden_node :: chain_node where
  "hidden_node = \<lparr>cn_parent = ParentIndex 0, cn_transactionData = Some no_transactions, cn_timestamp = 0,
     cn_miner = 5, cn_height = 1, cn_score = 1, cn_flags = 0, cn_ancestorsMined = 1\<rparr>"

definition hidden_chain :: blockchain where
  "hidden_chain = \<lparr>current_levels = generateChainLevels,
     old_levels = generateChainLevels[0 := \<lparr>lv_nodes = [genesis_block], lv_capacity = 1\<rparr>, 1 := \<lparr>lv_nodes = [hidden_node], lv_capacity = 1\<rparr>],
     main_chain_index = 0, bc_height = 1, bc_max_height = 1, bc_min_height = 0\<rparr>"

lemma nodes_hidden_chain:
  "in_window hidden_chain h \<Longrightarrow> nodes hidden_chain h = (if h = 0 then [genesis_block] else if h = 1 then [hidden_node] else [])"
  by (auto simp: hidden_chain_def nodes_def level_def in_window_def generateChainLevels_def initChainLevel_def nth_list_update
      DEPTH_TO_KEEP_def)

lemma valid_hidden_chain: "valid hidden_chain r \<longleftrightarrow> r = (0, 0) \<or> r = (1, 0)"
proof -
  have "in_window hidden_chain 0" "in_window hidden_chain 1" by (simp_all add: hidden_chain_def in_window_def DEPTH_TO_KEEP_def)
  then show ?thesis using nodes_hidden_chain [of "fst r"] by (cases r) (auto simp: valid_def nodes_hidden_chain split: if_splits)
qed

lemma node_hidden_chain: "node_at hidden_chain (0, 0) = genesis_block" "node_at hidden_chain (1, 0) = hidden_node"
proof -
  have "in_window hidden_chain 0" "in_window hidden_chain 1" by (simp_all add: hidden_chain_def in_window_def DEPTH_TO_KEEP_def)
  then show "node_at hidden_chain (0, 0) = genesis_block" "node_at hidden_chain (1, 0) = hidden_node"
    by (simp_all add: node_at_def nodes_hidden_chain)
qed

lemma wf_hidden_chain: "wf_chain hidden_chain"
proof -
  have m: "bc_min_height hidden_chain = 0" "bc_max_height hidden_chain = 1" "getMainChain hidden_chain = (1, 0)"
    by (simp_all add: hidden_chain_def getMainChain_def)
  have l: "linked hidden_chain (0, 0)" "linked hidden_chain (1, 0)"
    by (simp_all add: linked_def valid_hidden_chain node_hidden_chain [unfolded One_nat_def] isOrphan_def genesis_block_def hidden_node_def)
  have "wf_node hidden_chain r" if "valid hidden_chain r" for r
    using that l node_hidden_chain unfolding valid_hidden_chain
    by (auto simp: wf_node_def isOrphan_def genesis_block_def hidden_node_def m par_def)
  moreover have "shape hidden_chain" by (simp add: hidden_chain_def shape_def generateChainLevels_def)
  moreover have "nodes hidden_chain h = []" if "in_window hidden_chain h" "bc_max_height hidden_chain < h" for h
    using that nodes_hidden_chain m(2) by simp
  moreover have "length (nodes hidden_chain h) \<le> lv_capacity (level hidden_chain h)" if "in_window hidden_chain h" for h
    using nodes_hidden_chain [OF that] that
    by (auto simp: level_def hidden_chain_def generateChainLevels_def initChainLevel_def nth_list_update in_window_def DEPTH_TO_KEEP_def)
  ultimately show ?thesis using l(2) unfolding wf_chain_def wf_tree_def m by (simp add: DEPTH_TO_KEEP_def)
qed

theorem release_sends_hidden_chain_witness:
  "\<exists>evs rng'. propagateBlockAndNAncestors (replicate 5 [] @ [[700]]) 0 hidden_chain 5 1 (example_mined\<lparr>bk_height := 2\<rparr>) 2 example_rng = Inr (evs, rng')
     \<and> map (\<lambda>ev. (ev_receiver ev, sent_height ev)) evs = [(700, 1), (700, 2)]"
proof -
  let ?topo = "replicate 5 [] @ [[700]] :: topology" and ?b = "example_mined\<lparr>bk_height := 2\<rparr>"
  have topo: "?topo ! unat (5 :: node_id) = [700]" by (simp add: nth_append)
  have b: "bk_miner ?b = 5" "bk_height ?b = 2" "copyTransactionData (bk_transactionData ?b) = Inr no_transactions"
    by (simp_all add: example_mined_def no_transactions_copy)
  have "held hidden_chain 5 1"
    by (simp add: held_def retrieveBlock_def findChainNode_def getChainLevel_def hidden_chain_def generateChainLevels_def nthR_def
      DEPTH_TO_KEEP_def hidden_node_def getChainNode_def blockFromNode_def isOrphan_def parent_ref_def pred_height_def parent_index_def
      no_transactions_copy genesis_block_def)
  then have held: "\<forall>h. bk_height ?b - unat (2 :: u64) < h \<and> h < bk_height ?b \<longrightarrow> held hidden_chain 5 h"
    by (auto simp: b(2) less_Suc_eq numeral_2_eq_2)
  have "random_ok (rng_after 0 example_rng)" "random_ok (rng_after 1 example_rng)"
    by (simp_all add: random_ok_def rng_after_def example_rng_def random_u64_def rotl_def Let_def)
  moreover have "k = 0 \<or> k = 1" if "k < 2" for k :: nat using that by linarith
  moreover have "unat (2 :: u64) * length (?topo ! unat (5 :: node_id)) = 2" unfolding topo by simp
  ultimately have draws: "\<forall>k<unat (2 :: u64) * length (?topo ! unat (5 :: node_id)). random_ok (rng_after k example_rng)" by metis
  note r = release_sends_hidden_chain [OF wf_hidden_chain b(1), of ?topo 2 no_transactions example_rng 0 1, unfolded topo b(2)]
  have "unat (5 :: node_id) < N_NODES" "unat (700 :: node_id) < N_NODES" by (simp_all add: N_NODES_def)
  with r b(3) held [unfolded b(2)] draws [unfolded topo] obtain evs rng' where
    run: "propagateBlockAndNAncestors ?topo 0 hidden_chain 5 1 ?b 2 example_rng = Inr (evs, rng')"
      "map (\<lambda>ev. (ev_receiver ev, sent_height ev)) evs = concat (map (\<lambda>h. map (\<lambda>p. (p, h)) [700]) [Suc 2 - unat (2 :: u64)..<Suc 2])"
    by auto
  then show ?thesis by (auto simp: upt_conv_Cons)
qed

end
