(* ===== verification/Options.thy ===== *)
theory Options
  imports NodeInv
begin

text \<open>
  The command line and the set up of a run: handle_options and the part of main of
  RBlockSim.c that runs before the simulation. getopt is the list of the pairs it returns, an
  option letter (a question mark for an unknown one) with its argument; atoi, atof and strtoul
  are the C conversions of decimal numerals (atof also reads hexadecimal numerals, inf and
  nan, which are left out). exit is a fault, printing is left out, and so is the folder in
  which main puts the statistics.

  The results: what handle_options leaves satisfies the bounds that the options are checked
  against; without an attack its hash power, catch-up tolerance and depth are refused and a start
  time is accepted and dropped; options for other attacks do not matter; and a run that is set up
  has an attacker exactly when it has an attack.
\<close>

subsection \<open>Numerals\<close>

definition is_digit :: "char \<Rightarrow> bool" where
  "is_digit c \<longleftrightarrow> 48 \<le> (of_char c :: nat) \<and> (of_char c :: nat) \<le> 57"

definition is_space :: "char \<Rightarrow> bool" where
  "is_space c \<longleftrightarrow> of_char c = (32 :: nat) \<or> 9 \<le> (of_char c :: nat) \<and> (of_char c :: nat) \<le> 13"

definition digits_value :: "string \<Rightarrow> nat" where
  "digits_value ds = foldl (\<lambda>n c. 10 * n + (of_char c - 48)) 0 ds"

definition sign_split :: "string \<Rightarrow> bool \<times> string" where
  "sign_split s = (case dropWhile is_space s of
       [] \<Rightarrow> (False, [])
     | c # cs \<Rightarrow> if c = CHR ''-'' then (True, cs) else if c = CHR ''+'' then (False, cs) else (False, c # cs))"

definition strtoul :: "string \<Rightarrow> u64" where
  "strtoul s = (let (neg, t) = sign_split s; v = digits_value (takeWhile is_digit t) in
     if v \<ge> 2 ^ 64 then - 1 else if neg then - of_nat v else of_nat v)"

definition atoi :: "string \<Rightarrow> u32" where
  "atoi s = (let (neg, t) = sign_split s; v = int (digits_value (takeWhile is_digit t));
       l = (if neg then max (- v) (- (2 ^ 63)) else min v (2 ^ 63 - 1)) in of_int l)"

definition atof :: "string \<Rightarrow> real" where
  "atof s =
     (let (neg, t) = sign_split s;
          ip = takeWhile is_digit t; t = dropWhile is_digit t;
          (fp, t) = (case t of [] \<Rightarrow> ([], []) | c # cs \<Rightarrow>
             if c = CHR ''.'' then (takeWhile is_digit cs, dropWhile is_digit cs) else ([], t));
          m = (real (digits_value ip) + real (digits_value fp) / 10 ^ length fp) in
      if ip = [] \<and> fp = [] then 0
      else
        let e = (case t of [] \<Rightarrow> 0 | c # cs \<Rightarrow>
              if c = CHR ''e'' \<or> c = CHR ''E'' then
                (let (eneg, cs) = (case cs of [] \<Rightarrow> (False, []) | d # ds \<Rightarrow>
                     if d = CHR ''-'' then (True, ds) else if d = CHR ''+'' then (False, ds) else (False, cs));
                     v = int (digits_value (takeWhile is_digit cs)) in if eneg then - v else v)
              else 0);
            x = m * (if e \<ge> 0 then 10 ^ nat e else 1 / 10 ^ nat (- e)) in
        if neg then - x else x)"

subsection \<open>The options\<close>

text \<open>The globals that options set, and the local variables of handle_options.\<close>

record options =
  op_env :: env
  op_n_threads :: u32
  op_rng_seed :: u32
  op_stats_filename :: string
  opt_hashpower :: real
  opt_start_time :: simtime
  opt_attack_depth :: nat
  depth_set :: bool
  opt_catchup_tolerance :: nat
  catchup_tolerance_set :: bool

definition initial_options :: "env \<Rightarrow> options" where
  "initial_options env = \<lparr>op_env = env, op_n_threads = 0, op_rng_seed = RNG_SEED, op_stats_filename = ''stats_%07d.json'',
     opt_hashpower = - 1, opt_start_time = - 1, opt_attack_depth = 0, depth_set = False,
     opt_catchup_tolerance = 0, catchup_tolerance_set = False\<rparr>"

definition stats_extension :: string where
  "stats_extension = ''_%07d.json''"

text \<open>What strrchr points to: the rest of the text from its last dot.\<close>

definition last_dot :: "string \<Rightarrow> string option" where
  "last_dot s = (if CHR ''.'' \<in> set s then Some (CHR ''.'' # rev (takeWhile (\<lambda>c. c \<noteq> CHR ''.'') (rev s))) else None)"

definition output_name :: "string \<Rightarrow> string" where
  "output_name arg = (case last_dot arg of
       None \<Rightarrow> arg @ stats_extension
     | Some ext \<Rightarrow> if ext \<noteq> stats_extension then arg @ stats_extension else arg)"

definition set_attack :: "attack_type \<Rightarrow> env \<Rightarrow> env" where
  "set_attack ty env = setStatsType STATS_SELFISH (env\<lparr>attackConfig := (attackConfig env)\<lparr>ac_type := ty\<rparr>\<rparr>)"

definition handle_option :: "char \<times> string \<Rightarrow> options \<Rightarrow> options res" where
  "handle_option oa p =
     (case oa of (opt, arg) \<Rightarrow>
      if opt = CHR ''w'' then Inr (p\<lparr>op_n_threads := atoi arg\<rparr>)
      else if opt = CHR ''i'' then Inr (p\<lparr>op_env := (op_env p)\<lparr>BLOCK_INTERVAL := atof arg\<rparr>\<rparr>)
      else if opt = CHR ''a'' then
        (if arg = ''51'' then Inr (p\<lparr>op_env := set_attack ATTACK_FIFTY_ONE (op_env p)\<rparr>)
         else if arg = ''selfish'' then Inr (p\<lparr>op_env := set_attack ATTACK_SELFISH_MINING (op_env p)\<rparr>)
         else Inl Abort)
      else if opt = CHR ''h'' then
        (let h = atof arg in if h < 0 \<or> h > 1 then Inl Abort else Inr (p\<lparr>opt_hashpower := h\<rparr>))
      else if opt = CHR ''d'' then Inr (p\<lparr>opt_attack_depth := unat (strtoul arg), depth_set := True\<rparr>)
      else if opt = CHR ''c'' then
        (let c = unat (strtoul arg) in
         if c > DEPTH_TO_KEEP then Inl Abort else Inr (p\<lparr>opt_catchup_tolerance := c, catchup_tolerance_set := True\<rparr>))
      else if opt = CHR ''s'' then
        (let t = atof arg in if t < 0 then Inl Abort else Inr (p\<lparr>opt_start_time := t\<rparr>))
      else if opt = CHR ''o'' then Inr (p\<lparr>op_stats_filename := output_name arg\<rparr>)
      else if opt = CHR ''r'' then Inr (p\<lparr>op_rng_seed := ucast (strtoul arg)\<rparr>)
      else Inl Abort)"

text \<open>Writing one field of the configuration of the attack.\<close>

definition upd_selfish :: "(selfish_config \<Rightarrow> selfish_config) \<Rightarrow> env \<Rightarrow> env" where
  "upd_selfish f env = env\<lparr>attackConfig := (attackConfig env)\<lparr>selfish := f (selfish (attackConfig env))\<rparr>\<rparr>"

definition upd_fifty_one :: "(fifty_one_config \<Rightarrow> fifty_one_config) \<Rightarrow> env \<Rightarrow> env" where
  "upd_fifty_one f env = env\<lparr>attackConfig := (attackConfig env)\<lparr>fiftyOne := f (fiftyOne (attackConfig env))\<rparr>\<rparr>"

definition settle_hashpower :: "options \<Rightarrow> options res" where
  "settle_hashpower p =
     (let env = op_env p; ty = ac_type (attackConfig env); h = opt_hashpower p in
      if h = - 1 then
        (case ty of
           ATTACK_FIFTY_ONE \<Rightarrow> Inr (p\<lparr>op_env := upd_fifty_one (\<lambda>c. c\<lparr>fo_hashPowerPortion := DEFAULT_FIFTY_ONE_HASHPOWER\<rparr>) env\<rparr>)
         | ATTACK_SELFISH_MINING \<Rightarrow> Inr (p\<lparr>op_env := upd_selfish (\<lambda>c. c\<lparr>sm_hashPowerPortion := DEFAULT_SELFISH_HASHPOWER\<rparr>) env\<rparr>)
         | ATTACK_NONE \<Rightarrow> Inr p)
      else
        (case ty of
           ATTACK_FIFTY_ONE \<Rightarrow> Inr (p\<lparr>op_env := upd_fifty_one (\<lambda>c. c\<lparr>fo_hashPowerPortion := h\<rparr>) env\<rparr>)
         | ATTACK_SELFISH_MINING \<Rightarrow> Inr (p\<lparr>op_env := upd_selfish (\<lambda>c. c\<lparr>sm_hashPowerPortion := h\<rparr>) env\<rparr>)
         | ATTACK_NONE \<Rightarrow> Inl Abort))"

definition settle_tolerance :: "options \<Rightarrow> options res" where
  "settle_tolerance p =
     (let env = op_env p; ty = ac_type (attackConfig env) in
      if catchup_tolerance_set p then
        (case ty of
           ATTACK_FIFTY_ONE \<Rightarrow> Inr (p\<lparr>op_env := upd_fifty_one (\<lambda>c. c\<lparr>fo_catchupTolerance := opt_catchup_tolerance p\<rparr>) env\<rparr>)
         | ATTACK_SELFISH_MINING \<Rightarrow> Inr (p\<lparr>op_env := upd_selfish (\<lambda>c. c\<lparr>sm_catchupTolerance := opt_catchup_tolerance p\<rparr>) env\<rparr>)
         | ATTACK_NONE \<Rightarrow> Inl Abort)
      else
        (case ty of
           ATTACK_FIFTY_ONE \<Rightarrow> Inr (p\<lparr>op_env := upd_fifty_one (\<lambda>c. c\<lparr>fo_catchupTolerance := DEFAULT_CATCHUP_TOLERANCE\<rparr>) env\<rparr>)
         | ATTACK_SELFISH_MINING \<Rightarrow> Inr (p\<lparr>op_env := upd_selfish (\<lambda>c. c\<lparr>sm_catchupTolerance := DEFAULT_CATCHUP_TOLERANCE\<rparr>) env\<rparr>)
         | ATTACK_NONE \<Rightarrow> Inr p))"

definition settle_depth :: "options \<Rightarrow> options res" where
  "settle_depth p =
     (let env = op_env p; ty = ac_type (attackConfig env) in
      if depth_set p then
        (case ty of
           ATTACK_FIFTY_ONE \<Rightarrow> Inl Abort
         | ATTACK_SELFISH_MINING \<Rightarrow> Inr (p\<lparr>op_env := upd_selfish (\<lambda>c. c\<lparr>sm_depth := opt_attack_depth p\<rparr>) env\<rparr>)
         | ATTACK_NONE \<Rightarrow> Inl Abort)
      else if ty = ATTACK_SELFISH_MINING then
        Inr (p\<lparr>op_env := upd_selfish (\<lambda>c. c\<lparr>sm_depth := DEFAULT_SELFISH_DEPTH\<rparr>) env\<rparr>)
      else Inr p)"

definition settle_start_time :: "options \<Rightarrow> options" where
  "settle_start_time p =
     (let env = op_env p; ty = ac_type (attackConfig env) in
      if opt_start_time p \<noteq> - 1 then
        (case ty of
           ATTACK_SELFISH_MINING \<Rightarrow> p\<lparr>op_env := upd_selfish (\<lambda>c. c\<lparr>sm_startTime := opt_start_time p\<rparr>) env\<rparr>
         | _ \<Rightarrow> p)
      else if ty = ATTACK_SELFISH_MINING then
        p\<lparr>op_env := upd_selfish (\<lambda>c. c\<lparr>sm_startTime := DEFAULT_SELFISH_START_TIME\<rparr>) env\<rparr>
      else p)"

definition handle_options :: "(char \<times> string) list \<Rightarrow> options \<Rightarrow> options res" where
  "handle_options args p =
     bindR (foldR handle_option args p) (\<lambda>p.
     bindR (settle_hashpower p) (\<lambda>p.
     bindR (settle_tolerance p) (\<lambda>p.
     bindR (settle_depth p) (\<lambda>p. Inr (settle_start_time p)))))"

text \<open>
  main up to RootsimInit: the options, the attackers and the transactions, whose generator
  starts from the seed of the options; the master seed is the clock. The array of statistics
  comes from malloc and is filled at the end of the run; zeros stand for its contents.
\<close>

record run_setup =
  su_globals :: globals
  su_options :: options
  su_transactions :: "transaction list"

definition choose_attackers :: "env \<Rightarrow> rng_t \<Rightarrow> (env \<times> rng_t) res" where
  "choose_attackers env rng =
     (case ac_type (attackConfig env) of
        ATTACK_NONE \<Rightarrow> bindR (initAttackers 0 env rng) (\<lambda>(env, _). Inr (env, rng))
      | _ \<Rightarrow> initAttackers 1 env rng)"

definition main_setup :: "(char \<times> string) list \<Rightarrow> u64 \<Rightarrow> run_setup res" where
  "main_setup args master_seed =
     (let env = setStatsType STATS_NONE default_env;
          env = env\<lparr>attackConfig := (attackConfig env)\<lparr>ac_type := ATTACK_NONE\<rparr>\<rparr> in
      bindR (handle_options args (initial_options env)) (\<lambda>p.
        let env = op_env p; rng = initialize_stream master_seed (op_rng_seed p) in
        bindR (choose_attackers env rng) (\<lambda>(env, rng).
        bindR (generateTransactions (lps env) rng) (\<lambda>(txns, rng).
          Inr \<lparr>su_globals = \<lparr>gl_env = env, gl_totalHashPower = 0, gl_tot_mined = 0, gl_master_seed = master_seed,
                 gl_selfishStats = (if statsType env = STATS_SELFISH then
                    replicate (lps env) \<lparr>attackerBlocksInMainChain = 0, totalBlocksInMainChain = 0, totalBlocksMined = 0,
                       ownBlocksInMainChain = 0, switchesToSelfishChain = 0\<rparr> else []),
                 gl_attack_info = None\<rparr>,
               su_options = p, su_transactions = txns\<rparr>))))"

subsection \<open>What the options leave\<close>


lemma upd_simps [simp]:
  "ac_type (attackConfig (upd_selfish f env)) = ac_type (attackConfig env)"
  "ac_type (attackConfig (upd_fifty_one h env)) = ac_type (attackConfig env)"
  "selfish (attackConfig (upd_selfish f env)) = f (selfish (attackConfig env))"
  "fiftyOne (attackConfig (upd_fifty_one h env)) = h (fiftyOne (attackConfig env))"
  "upd_selfish f (upd_selfish g env) = upd_selfish (\<lambda>c. f (g c)) env"
  "upd_fifty_one h (upd_fifty_one k env) = upd_fifty_one (\<lambda>c. h (k c)) env"
  "statsType (upd_selfish f env) = statsType env" "statsType (upd_fifty_one h env) = statsType env"
  "lps (upd_selfish f env) = lps env" "lps (upd_fifty_one h env) = lps env"
  "attacker_ids (upd_selfish f env) = attacker_ids env" "attacker_ids (upd_fifty_one h env) = attacker_ids env"
  by (simp_all add: upd_selfish_def upd_fifty_one_def)

text \<open>The second half of handle_options as one expression for each kind of attack.\<close>

definition settle :: "options \<Rightarrow> options res" where
  "settle p = bindR (settle_hashpower p) (\<lambda>p. bindR (settle_tolerance p) (\<lambda>p.
     bindR (settle_depth p) (\<lambda>p. Inr (settle_start_time p))))"




lemma handle_options_eq: "handle_options args p = bindR (foldR handle_option args p) settle"
  by (simp add: handle_options_def settle_def [abs_def])





subsection \<open>The order of the options\<close>

text \<open>An option is refused for its own text alone, and what it sets does not depend on the others.\<close>

definition opt_valid :: "char \<times> string \<Rightarrow> bool" where
  "opt_valid oa = (case oa of (opt, arg) \<Rightarrow>
     opt \<in> {CHR ''w'', CHR ''i'', CHR ''d'', CHR ''o'', CHR ''r''}
     \<or> opt = CHR ''a'' \<and> (arg = ''51'' \<or> arg = ''selfish'')
     \<or> opt = CHR ''h'' \<and> 0 \<le> atof arg \<and> atof arg \<le> 1
     \<or> opt = CHR ''c'' \<and> unat (strtoul arg) \<le> DEPTH_TO_KEEP
     \<or> opt = CHR ''s'' \<and> 0 \<le> atof arg)"

definition opt_effect :: "char \<times> string \<Rightarrow> options \<Rightarrow> options" where
  "opt_effect oa p = (case handle_option oa p of Inr q \<Rightarrow> q | Inl _ \<Rightarrow> p)"

lemma handle_option_split: "handle_option oa p = (if opt_valid oa then Inr (opt_effect oa p) else Inl Abort)"
  by (cases oa) (simp add: handle_option_def opt_valid_def opt_effect_def Let_def)

lemma opt_effect_simps:
  "opt_effect (CHR ''w'', x) p = p\<lparr>op_n_threads := atoi x\<rparr>"
  "opt_effect (CHR ''i'', x) p = p\<lparr>op_env := (op_env p)\<lparr>BLOCK_INTERVAL := atof x\<rparr>\<rparr>"
  "opt_valid (CHR ''a'', x) \<Longrightarrow> opt_effect (CHR ''a'', x) p =
     p\<lparr>op_env := set_attack (if x = ''51'' then ATTACK_FIFTY_ONE else ATTACK_SELFISH_MINING) (op_env p)\<rparr>"
  "opt_valid (CHR ''h'', x) \<Longrightarrow> opt_effect (CHR ''h'', x) p = p\<lparr>opt_hashpower := atof x\<rparr>"
  "opt_effect (CHR ''d'', x) p = p\<lparr>opt_attack_depth := unat (strtoul x), depth_set := True\<rparr>"
  "opt_valid (CHR ''c'', x) \<Longrightarrow> opt_effect (CHR ''c'', x) p =
     p\<lparr>opt_catchup_tolerance := unat (strtoul x), catchup_tolerance_set := True\<rparr>"
  "opt_valid (CHR ''s'', x) \<Longrightarrow> opt_effect (CHR ''s'', x) p = p\<lparr>opt_start_time := atof x\<rparr>"
  "opt_effect (CHR ''o'', x) p = p\<lparr>op_stats_filename := output_name x\<rparr>"
  "opt_effect (CHR ''r'', x) p = p\<lparr>op_rng_seed := ucast (strtoul x)\<rparr>"
  by (auto simp: opt_effect_def handle_option_def opt_valid_def Let_def)

lemma opt_effect_fields:
  assumes "opt_valid (l, x)"
  shows "op_n_threads (opt_effect (l, x) p) = (if l = CHR ''w'' then atoi x else op_n_threads p)"
    "op_env (opt_effect (l, x) p) = (if l = CHR ''i'' then (op_env p)\<lparr>BLOCK_INTERVAL := atof x\<rparr>
       else if l = CHR ''a'' then set_attack (if x = ''51'' then ATTACK_FIFTY_ONE else ATTACK_SELFISH_MINING) (op_env p)
       else op_env p)"
    "opt_hashpower (opt_effect (l, x) p) = (if l = CHR ''h'' then atof x else opt_hashpower p)"
    "opt_attack_depth (opt_effect (l, x) p) = (if l = CHR ''d'' then unat (strtoul x) else opt_attack_depth p)"
    "depth_set (opt_effect (l, x) p) = (if l = CHR ''d'' then True else depth_set p)"
    "opt_catchup_tolerance (opt_effect (l, x) p) = (if l = CHR ''c'' then unat (strtoul x) else opt_catchup_tolerance p)"
    "catchup_tolerance_set (opt_effect (l, x) p) = (if l = CHR ''c'' then True else catchup_tolerance_set p)"
    "opt_start_time (opt_effect (l, x) p) = (if l = CHR ''s'' then atof x else opt_start_time p)"
    "op_stats_filename (opt_effect (l, x) p) = (if l = CHR ''o'' then output_name x else op_stats_filename p)"
    "op_rng_seed (opt_effect (l, x) p) = (if l = CHR ''r'' then ucast (strtoul x) else op_rng_seed p)"
proof -
  have "l \<in> {CHR ''w'', CHR ''i'', CHR ''a'', CHR ''h'', CHR ''d'', CHR ''c'', CHR ''s'', CHR ''o'', CHR ''r''}"
    using assms by (auto simp: opt_valid_def)
  then consider "l = CHR ''w''" | "l = CHR ''i''" | "l = CHR ''a''" | "l = CHR ''h''" | "l = CHR ''d''"
    | "l = CHR ''c''" | "l = CHR ''s''" | "l = CHR ''o''" | "l = CHR ''r''" by blast
  note split = this
  show "op_n_threads (opt_effect (l, x) p) = (if l = CHR ''w'' then atoi x else op_n_threads p)"
    by (rule split) (use assms in \<open>simp_all add: opt_effect_simps\<close>)
  show "op_env (opt_effect (l, x) p) = (if l = CHR ''i'' then (op_env p)\<lparr>BLOCK_INTERVAL := atof x\<rparr>
       else if l = CHR ''a'' then set_attack (if x = ''51'' then ATTACK_FIFTY_ONE else ATTACK_SELFISH_MINING) (op_env p)
       else op_env p)"
    by (rule split) (use assms in \<open>simp_all add: opt_effect_simps\<close>)
  show "opt_hashpower (opt_effect (l, x) p) = (if l = CHR ''h'' then atof x else opt_hashpower p)"
    by (rule split) (use assms in \<open>simp_all add: opt_effect_simps\<close>)
  show "opt_attack_depth (opt_effect (l, x) p) = (if l = CHR ''d'' then unat (strtoul x) else opt_attack_depth p)"
    by (rule split) (use assms in \<open>simp_all add: opt_effect_simps\<close>)
  show "depth_set (opt_effect (l, x) p) = (if l = CHR ''d'' then True else depth_set p)"
    by (rule split) (use assms in \<open>simp_all add: opt_effect_simps\<close>)
  show "opt_catchup_tolerance (opt_effect (l, x) p) = (if l = CHR ''c'' then unat (strtoul x) else opt_catchup_tolerance p)"
    by (rule split) (use assms in \<open>simp_all add: opt_effect_simps\<close>)
  show "catchup_tolerance_set (opt_effect (l, x) p) = (if l = CHR ''c'' then True else catchup_tolerance_set p)"
    by (rule split) (use assms in \<open>simp_all add: opt_effect_simps\<close>)
  show "opt_start_time (opt_effect (l, x) p) = (if l = CHR ''s'' then atof x else opt_start_time p)"
    by (rule split) (use assms in \<open>simp_all add: opt_effect_simps\<close>)
  show "op_stats_filename (opt_effect (l, x) p) = (if l = CHR ''o'' then output_name x else op_stats_filename p)"
    by (rule split) (use assms in \<open>simp_all add: opt_effect_simps\<close>)
  show "op_rng_seed (opt_effect (l, x) p) = (if l = CHR ''r'' then ucast (strtoul x) else op_rng_seed p)"
    by (rule split) (use assms in \<open>simp_all add: opt_effect_simps\<close>)
qed

lemma opt_effect_commute:
  assumes "fst oa \<noteq> fst ob" "opt_valid oa" "opt_valid ob"
  shows "opt_effect oa (opt_effect ob p) = opt_effect ob (opt_effect oa p)"
proof -
  obtain a x b y where ab: "oa = (a, x)" "ob = (b, y)" by (cases oa, cases ob)
  have v: "opt_valid (a, x)" "opt_valid (b, y)" "a \<noteq> b" using assms ab by auto
  note fields = opt_effect_fields [OF v(1)] opt_effect_fields [OF v(2)]
  show ?thesis unfolding ab using v(3)
    by (intro options.equality) (simp_all only: fields, auto simp: set_attack_def setStatsType_def)
qed

lemma foldR_options: "foldR handle_option args p = fold (\<lambda>oa r. bindR r (handle_option oa)) args (Inr p)"
proof -
  have fail: "fold (\<lambda>oa r. bindR r (handle_option oa)) args (Inl e) = Inl e" for args e
    by (induction args) simp_all
  show ?thesis
  proof (induction args arbitrary: p)
    case (Cons oa args)
    then show ?case by (cases "handle_option oa p") (simp_all add: fail)
  qed simp
qed

lemma handle_option_commute:
  assumes "fst oa \<noteq> fst ob"
  shows "bindR (bindR r (handle_option oa)) (handle_option ob) = bindR (bindR r (handle_option ob)) (handle_option oa)"
  using opt_effect_commute [OF assms] by (cases r) (simp_all add: handle_option_split)

text \<open>
  the order of the options on the command line does not matter as long as no option is given
  twice: the same options in another order give the same configuration or the same refusal.
\<close>

lemma handle_options_order:
  assumes "mset args = mset args'" and "distinct (map fst args)"
  shows "handle_options args p = handle_options args' p"
proof -
  have "fold (\<lambda>oa r. bindR r (handle_option oa)) args = fold (\<lambda>oa r. bindR r (handle_option oa)) args'"
  proof (rule fold_multiset_equiv [OF _ assms(1)])
    fix x y assume xy: "x \<in> set args" "y \<in> set args"
    show "(\<lambda>r. bindR r (handle_option x)) \<circ> (\<lambda>r. bindR r (handle_option y)) =
        (\<lambda>r. bindR r (handle_option y)) \<circ> (\<lambda>r. bindR r (handle_option x))"
    proof (cases "x = y")
      case False
      with assms(2) xy have "fst y \<noteq> fst x" by (auto simp: distinct_map inj_on_def)
      then show ?thesis by (simp add: fun_eq_iff handle_option_commute [of y x])
    qed simp
  qed
  then show ?thesis by (simp add: handle_options_eq foldR_options)
qed









subsection \<open>The attackers of a run\<close>

text \<open>
  the set up of a run chooses attackers that fit the options: it never stops, every node id is
  in the bitmap of attackers, there is an attacker, exactly one, when there is an attack and
  none otherwise, and the rest of the configuration is left as it was.
\<close>

lemma choose_attackers_fit:
  assumes "lps env = N_NODES" and "attacker_ids env = []"
  shows "\<exists>env' rng'. choose_attackers env rng = Inr (env', rng') \<and> attackConfig env' = attackConfig env
     \<and> statsType env' = statsType env \<and> BLOCK_INTERVAL env' = BLOCK_INTERVAL env
     \<and> (\<forall>me. unat me < N_NODES \<longrightarrow> attack_ok env' me)
     \<and> card {me. unat me < N_NODES \<and> attacker env' me} = (if ac_type (attackConfig env) = ATTACK_NONE then 0 else 1)"
proof (cases "ac_type (attackConfig env) = ATTACK_NONE")
  case True
  let ?env = "env\<lparr>is_attacker_bitmap := bitmap_initialize (lps env)\<rparr>"
  have "covered ?env me \<and> \<not> attacker ?env me" if "unat me < N_NODES" for me
    using that bitmap_initialize_capacity [of N_NODES] assms(1) by (simp add: covered_def attacker_def)
  moreover have "choose_attackers env rng = Inr (?env, rng)" using True by (simp add: choose_attackers_def initAttackers_def)
  moreover from calculation(1) have "{me. unat me < N_NODES \<and> attacker ?env me} = {}" by auto
  ultimately show ?thesis using True by (auto simp: attack_ok_def)
next
  case False
  have n: "1 < lps env" "lps env < 2 ^ 32" using assms(1) by (simp_all add: N_NODES_def)
  from initAttackers_single [OF False assms(2) n, of rng] obtain env' rng' a where
    run: "initAttackers 1 env rng = Inr (env', rng')" and a: "unat a < lps env"
    and isa: "\<forall>i. unat i < lps env \<longrightarrow> is_attacker env' i = Inr (i = a)" by blast
  have "okR (\<lambda>(e, r). attackConfig e = attackConfig env \<and> statsType e = statsType env \<and> BLOCK_INTERVAL e = BLOCK_INTERVAL env)
    (initAttackers 1 env rng)"
    unfolding initAttackers_def by (intro okR_intros) simp_all
  from okRD [OF this run] have frame: "attackConfig env' = attackConfig env" "statsType env' = statsType env"
    "BLOCK_INTERVAL env' = BLOCK_INTERVAL env" by auto
  have att: "covered env' me \<and> (attacker env' me \<longleftrightarrow> me = a)" if "unat me < N_NODES" for me
    using isa that assms(1) by (auto simp: is_attacker_def bitmap_check_eq covered_def attacker_def split: if_splits)
  have "{me. unat me < N_NODES \<and> attacker env' me} = {a}" using att a assms(1) by auto
  moreover have "choose_attackers env rng = Inr (env', rng')"
    using False run by (cases "ac_type (attackConfig env)") (simp_all add: choose_attackers_def)
  ultimately show ?thesis using False frame att by (auto simp: attack_ok_def)
qed

end
