(* ===== verification/Gossip.thy ===== *)
theory Gossip
  imports Network
begin

text \<open>
  Gossiping as a function of the draws of the generator, and the evaluation of a whole gossip with
  its 161 draws on integers, for the instance of the property.
\<close>

unbundle bit_operations_syntax

subsection \<open>Gossiping\<close>

text \<open>
  C28: gossiping sends a block to the places of the peer list that the draws of the generator say: to all
  places, in order, when the node mined the block or has at most GOSSIP_FANOUT peers, and otherwise to
  GOSSIP_FANOUT different ones, each the first draw of its round that hits no place chosen
  before. gossipBlock returns exactly when the draws come to such rounds (and none of them is the one for
  which Random is undefined), the fuel being the length of the longest round; then there is one
  event for each round, to the peer drawn, with a copy of the block, no earlier than the time of sending.
\<close>

theorem gossipBlock_places:
  assumes "unat sender < N_NODES" "\<forall>p\<in>set peers. unat p < N_NODES" "copyTransactionData (bk_transactionData b) = Inr td"
    and "length peers < 2 ^ 31"
  shows "(\<forall>rounds. gossip_rounds fuel sender b (length peers) rng rounds \<longrightarrow>
      (\<exists>evs rng'. gossipBlock fuel sender t b rng peers = Inr (evs, rng') \<and> gossip_sent sender t b peers rounds evs)) \<and>
    (\<forall>evs rng'. gossipBlock fuel sender t b rng peers = Inr (evs, rng') \<longrightarrow>
      (\<exists>rounds. gossip_rounds fuel sender b (length peers) rng rounds \<and> gossip_sent sender t b peers rounds evs))"
proof (intro conjI allI impI)
  show "\<exists>evs rng'. gossipBlock fuel sender t b rng peers = Inr (evs, rng') \<and> gossip_sent sender t b peers rounds evs"
    if "gossip_rounds fuel sender b (length peers) rng rounds" for rounds
    using gossipBlock_exact [OF assms that] .
  fix evs rng' assume run: "gossipBlock fuel sender t b rng peers = Inr (evs, rng')"
  from gossipBlock_draws [OF run assms(4)] obtain rounds where r: "gossip_rounds fuel sender b (length peers) rng rounds" by blast
  from gossipBlock_exact [OF assms r, of t] run show "\<exists>rounds. gossip_rounds fuel sender b (length peers) rng rounds \<and> gossip_sent sender t b peers rounds evs"
    using r by auto
qed

subsection \<open>Evaluating the draws\<close>

text \<open>
  The draws in integers: u is a drawn word; Some i stands for a draw of a place, which is i, and None
  for the draw of a delay.
\<close>

definition draw_fits :: "int \<Rightarrow> int option \<Rightarrow> int \<Rightarrow> bool" where
  "draw_fits n x u \<longleftrightarrow> u \<noteq> 1 \<and> (case x of None \<Rightarrow> True
     | Some i \<Rightarrow> i * 83076749736557260503232014977073152 \<le> u * n * 4503599627370496 \<and> u * n < (i + 1) * 18446744073709551616)"

fun int_draws :: "int \<Rightarrow> int option list \<Rightarrow> int \<Rightarrow> int \<Rightarrow> int \<Rightarrow> int \<Rightarrow> bool" where
  "int_draws n [] a b c d = True"
| "int_draws n (x # xs) a b c d =
     (draw_fits n x (take_bit 64 ((take_bit 64 (b * 640) OR drop_bit 57 (take_bit 64 (b * 5))) * 9)) \<and>
      int_draws n xs (a XOR (d XOR b)) (b XOR (c XOR a)) ((c XOR a) XOR take_bit 64 (b * 131072))
        (take_bit 64 ((d XOR b) * 35184372088832) OR drop_bit 19 (d XOR b)))"

fun draws_match :: "nat \<Rightarrow> int option list \<Rightarrow> rng_t \<Rightarrow> bool" where
  "draws_match n [] rng \<longleftrightarrow> True"
| "draws_match n (x # xs) rng \<longleftrightarrow>
     (case x of None \<Rightarrow> random_ok rng | Some i \<Rightarrow> peer_drawn n 0 rng = Some (of_int i)) \<and> draws_match n xs (snd (random_u64 rng))"

lemma fits_draw:
  assumes "draw_fits (int n) x (uint (fst (random_u64 rng)))"
  shows "case x of None \<Rightarrow> random_ok rng | Some i \<Rightarrow> peer_drawn n 0 rng = Some (of_int i)"
proof -
  let ?u = "fst (random_u64 rng)"
  have "uint ?u \<noteq> 1" using assms by (simp add: draw_fits_def)
  then have ok: "random_ok rng" by (auto simp: random_ok_def)
  then obtain y where y: "Random rng = Inr (y, snd (random_u64 rng))" using Random_ok by blast
  then have r: "random_of_u64 ?u = Inr y" by (auto simp: Random_def RandomU64_def bindR_eq_Inr split: prod.splits)
  note b = random_of_u64_approx [OF r]
  show ?thesis
  proof (cases x)
    case (Some i)
    have f: "i * 83076749736557260503232014977073152 \<le> uint ?u * int n * 4503599627370496" "uint ?u * int n < (i + 1) * 18446744073709551616"
      using assms Some by (simp_all add: draw_fits_def)
    let ?U = "real (unat ?u)" and ?N = "real n"
    have U: "real_of_int (uint ?u) = ?U" by simp
    have "real_of_int (i * 83076749736557260503232014977073152) \<le> real_of_int (uint ?u * int n * 4503599627370496)" using f(1) by (simp only: of_int_le_iff)
    then have lo: "real_of_int i * (2 ^ 64 * (2 ^ 52 + 1)) \<le> ?U * ?N * 2 ^ 52" using U by simp
    have "real_of_int (uint ?u * int n) < real_of_int ((i + 1) * 18446744073709551616)" using f(2) by (simp only: of_int_less_iff)
    then have hi: "?U * ?N < (real_of_int i + 1) * 2 ^ 64" using U by simp
    have "?U * 2 ^ 52 \<le> y * (2 ^ 64 * (2 ^ 52 + 1))" using b(4) by (simp add: field_simps)
    then have "(?U * 2 ^ 52) * ?N \<le> (y * (2 ^ 64 * (2 ^ 52 + 1))) * ?N" by (rule mult_right_mono) simp
    then have "real_of_int i * (2 ^ 64 * (2 ^ 52 + 1)) \<le> (y * ?N) * (2 ^ 64 * (2 ^ 52 + 1))" using lo by (simp add: algebra_simps)
    then have le: "real_of_int i \<le> y * ?N" by (rule mult_right_le_imp_le) simp
    have "y * 2 ^ 64 \<le> ?U" using b(3) by (simp add: field_simps)
    then have "(y * 2 ^ 64) * ?N \<le> ?U * ?N" by (rule mult_right_mono) simp
    then have "(y * ?N) * 2 ^ 64 < (real_of_int i + 1) * 2 ^ 64" using hi by (simp add: algebra_simps)
    then have lt: "y * ?N < real_of_int i + 1" by (rule mult_right_less_imp_less) simp
    have "\<lfloor>y * ?N\<rfloor> = i" using le lt by (simp add: floor_eq_iff)
    then have "RandomRange rng 0 (int n - 1) = Inr (i, snd (random_u64 rng))" using y by (simp add: RandomRange_def)
    then show ?thesis using Some by (simp add: peer_drawn_0)
  qed (use ok in simp)
qed

lemma uint_push: "uint (push_bit k (w :: u64)) = take_bit 64 (uint w * 2 ^ k)"
  using unsigned_push_bit_eq [of k w, where 'a = int] by (simp add: push_bit_eq_mult)

lemma uint_rotl45: "uint (rotl w 45) = take_bit 64 (uint w * 35184372088832) OR drop_bit 19 (uint w)"
proof -
  have "uint (drop_bit 19 w) = drop_bit 19 (uint w)" by (simp add: unsigned_drop_bit_eq bintr_uint)
  then show ?thesis by (simp add: rotl_def unsigned_or_eq uint_push del: push_bit_numeral)
qed

lemma int_draws_match:
  "int_draws (int n) xs (uint (state0 rng)) (uint (state1 rng)) (uint (state2 rng)) (uint (state3 rng)) \<Longrightarrow> draws_match n xs rng"
proof (induction xs arbitrary: rng)
  case (Cons x xs)
  let ?r = "snd (random_u64 rng)"
  have u: "uint (fst (random_u64 rng)) =
      take_bit 64 ((take_bit 64 (uint (state1 rng) * 640) OR drop_bit 57 (take_bit 64 (uint (state1 rng) * 5))) * 9)"
    by (simp add: random_u64_def rotl_def Let_def uint_word_ariths(3) unsigned_or_eq unsigned_push_bit_eq unsigned_drop_bit_eq
        take_bit_eq_mod push_bit_eq_mult mult.commute)
  have s: "uint (state0 ?r) = uint (state0 rng) XOR (uint (state3 rng) XOR uint (state1 rng))"
    "uint (state1 ?r) = uint (state1 rng) XOR (uint (state2 rng) XOR uint (state0 rng))"
    "uint (state2 ?r) = (uint (state2 rng) XOR uint (state0 rng)) XOR take_bit 64 (uint (state1 rng) * 131072)"
    "uint (state3 ?r) = take_bit 64 ((uint (state3 rng) XOR uint (state1 rng)) * 35184372088832) OR drop_bit 19 (uint (state3 rng) XOR uint (state1 rng))"
    by (simp_all only: random_u64_state rng_t.simps unsigned_xor_eq uint_rotl45 uint_push) simp
  have "draw_fits (int n) x (uint (fst (random_u64 rng)))" "draws_match n xs ?r"
    using Cons.prems Cons.IH [of ?r] unfolding int_draws.simps u [symmetric] s [symmetric] by simp_all
  with fits_draw show ?case by simp
qed simp

definition flat_rounds :: "int list list \<Rightarrow> int option list" where
  "flat_rounds rounds = concat (map (\<lambda>ds. map Some ds @ [None]) rounds)"

fun rounds_fresh :: "int \<Rightarrow> int list \<Rightarrow> int list list \<Rightarrow> bool" where
  "rounds_fresh n taken [] = True"
| "rounds_fresh n taken (ds # rounds) =
     (ds \<noteq> [] \<and> list_all (\<lambda>d. 0 \<le> d \<and> d < n) ds \<and> list_all (\<lambda>d. List.member taken d) (butlast ds) \<and> \<not> List.member taken (last ds)
      \<and> rounds_fresh n (last ds # taken) rounds)"

lemma draws_match_round:
  "draws_match n (map Some ds @ None # xs) rng \<longleftrightarrow> (\<forall>j<length ds. peer_drawn n j rng = Some (of_int (ds ! j)))
     \<and> random_ok (rng_after (length ds) rng) \<and> draws_match n xs (rng_after (Suc (length ds)) rng)"
  by (induction ds arbitrary: rng) (auto simp: rng_after_simps All_less_Suc2 peer_drawn_Suc)

lemma match_picks:
  assumes "rounds_fresh (int n) taken rounds" "draws_match n (flat_rounds rounds) rng" "\<forall>d\<in>set taken. 0 \<le> d"
  shows "picks n rng (nat ` set taken) (map (map nat) rounds)"
  using assms
proof (induction rounds arbitrary: taken rng)
  case (Cons ds rounds)
  have f: "ds \<noteq> []" "\<forall>d\<in>set ds. 0 \<le> d \<and> d < int n" "set (butlast ds) \<subseteq> set taken" "last ds \<notin> set taken" "rounds_fresh (int n) (last ds # taken) rounds"
    using Cons.prems(1) by (auto simp: list_all_iff)
  have m: "\<forall>j<length ds. peer_drawn n j rng = Some (of_int (ds ! j))" "random_ok (rng_after (length ds) rng)"
    "draws_match n (flat_rounds rounds) (rng_after (Suc (length ds)) rng)"
    using Cons.prems(2) by (simp_all add: flat_rounds_def draws_match_round)
  have l: "0 \<le> last ds" "last ds \<in> set ds" using f(1,2) by simp_all
  have "nat (last ds) \<notin> nat ` set taken" using f(4) l(1) Cons.prems(3) by (auto simp: nat_eq_iff)
  moreover have "picks n (rng_after (Suc (length ds)) rng) (nat ` set (last ds # taken)) (map (map nat) rounds)"
    by (rule Cons.IH [OF f(5) m(3)]) (use l Cons.prems(3) in auto)
  moreover have "ds ! j \<in> set ds" if "j < length ds" for j using that by simp
  then have "nat (ds ! j) < n \<and> peer_drawn n j rng = Some (of_nat (nat (ds ! j)))" if "j < length ds" for j using that f(2) m(1) by fastforce
  moreover have "set (butlast (map nat ds)) \<subseteq> nat ` set taken" using f(3) by (auto simp: map_butlast [symmetric])
  ultimately show ?case using f(1) m(2) by (simp add: last_map)
qed simp

text \<open>Node 0 passes a block on to 80 of its 999 peers; in the 41st round the first draw hits a place that is taken.\<close>

definition fan_rng :: rng_t where
  "fan_rng = \<lparr>state0 = 11400714819323198485, state1 = 13787848793156543929, state2 = 10723151780598845931, state3 = 1\<rparr>"

definition fan_rounds :: "int list list" where
  "fan_rounds = [[258], [851], [764], [866], [690], [224], [56],
     [616], [267], [159], [115], [440], [923], [342], [998], [403], [153], [350], [525], [324], [119], [620], [364], [512], [283], [749],
     [915], [613], [340], [680], [852], [574], [547], [944], [197], [234], [568], [711],
     [303], [434], [680, 639], [961], [982], [838], [997], [103], [104], [133], [950], [806], [158], [124], [822],
     [433], [260], [383], [726], [546], [665], [967], [730], [698], [692], [986], [636], [858], [249], [859], [828], [500],
     [585], [114], [873], [446], [135], [952], [523], [474], [801], [210]]"

definition fan_peers :: "node_id list" where
  "fan_peers = map of_nat [1..<1000]"

lemma fan_draws: "int_draws 999 (flat_rounds fan_rounds) 11400714819323198485 13787848793156543929 10723151780598845931 1"
  by code_simp

lemma fan_fresh: "rounds_fresh 999 [] fan_rounds"
  by code_simp

lemma fan_picks: "picks 999 fan_rng {} (map (map nat) fan_rounds)"
proof -
  have "int_draws (int 999) (flat_rounds fan_rounds) (uint (state0 fan_rng)) (uint (state1 fan_rng)) (uint (state2 fan_rng)) (uint (state3 fan_rng))"
    using fan_draws by (simp add: fan_rng_def)
  then have "draws_match 999 (flat_rounds fan_rounds) fan_rng" by (rule int_draws_match)
  with match_picks [of 999 "[]" fan_rounds fan_rng] fan_fresh show ?thesis by simp
qed

theorem gossipBlock_places_witness:
  "\<exists>evs rng'. gossipBlock 2 0 1 example_mined fan_rng fan_peers = Inr (evs, rng') \<and> length evs = 80
     \<and> ev_receiver (evs ! 0) = 259 \<and> ev_receiver (evs ! 40) = 640"
proof -
  let ?rounds = "map (map nat) fan_rounds"
  have len: "length fan_peers = 999" by (simp add: fan_peers_def)
  have "unat (0 :: node_id) < N_NODES" "\<forall>p\<in>set fan_peers. unat p < N_NODES" "length fan_peers < 2 ^ 31"
    by (auto simp: fan_peers_def N_NODES_def unat_of_nat)
  moreover have "copyTransactionData (bk_transactionData example_mined) = Inr no_transactions"
    by (simp add: example_mined_def no_transactions_copy)
  moreover have "length fan_rounds = 80" "\<forall>ds\<in>set fan_rounds. length ds \<le> 2" by (simp_all add: fan_rounds_def)
  then have r: "gossip_rounds 2 0 example_mined (length fan_peers) fan_rng ?rounds"
    using fan_picks by (simp add: gossip_rounds_def len GOSSIP_FANOUT_def example_mined_def)
  ultimately obtain evs rng' where run: "gossipBlock 2 0 1 example_mined fan_rng fan_peers = Inr (evs, rng')"
    and s: "gossip_sent 0 1 example_mined fan_peers ?rounds evs"
    using gossipBlock_places [of 0 fan_peers example_mined no_transactions 2 fan_rng 1] by blast
  have m: "map ev_receiver evs = map (\<lambda>ds. fan_peers ! last ds) ?rounds" using s by (simp add: gossip_sent_def)
  then have l: "length evs = length fan_rounds" by (metis length_map)
  then have l80: "length evs = 80" by (simp add: fan_rounds_def)
  have at: "ev_receiver (evs ! k) = fan_peers ! last (map nat (fan_rounds ! k))" if "k < 80" for k
    using arg_cong [OF m, of "\<lambda>xs. xs ! k"] that l l80 by simp
  have "fan_rounds ! 0 = [258]" "fan_rounds ! 40 = [680, 639]" by (simp_all add: fan_rounds_def)
  with at [of 0] at [of 40] have "ev_receiver (evs ! 0) = 259" "ev_receiver (evs ! 40) = 640" by (simp_all add: fan_peers_def)
  with run l80 show ?thesis by blast
qed

end
