(* ===== verification/Buddy.thy ===== *)
theory Buddy
  imports Bitmap Rng
begin

text \<open>
  The buddy systems that hold the memory of the processes (mm/buddy/buddy.c, mm/buddy/buddy.h).
  The array longest is a complete binary tree; an element is the exponent of the largest free
  block below it, 0 when there is none. Its indexes, of type uint_fast32_t, stay below
  \<open>LONGEST_SIZE\<close>, and its elements, bytes, below 17; an access outside the array is a fault, and a
  pointer into base_mem is its offset. The parent of the root is the word 0 - 1 in 64 bits.
  The code for incremental checkpoints, which no build enables, is left out.

  The results: the blocks the tree stands for are disjoint; allocation gives a new block among
  them and fails only when no aligned room is left; to free a block removes exactly it, and the
  array is again what it was before its allocation.
\<close>

unbundle bit_operations_syntax

definition B_TOTAL_EXP :: nat where "B_TOTAL_EXP = 16"
definition B_BLOCK_EXP :: nat where "B_BLOCK_EXP = 6"
definition LONGEST_SIZE :: nat where "LONGEST_SIZE = 2 ^ (B_TOTAL_EXP - B_BLOCK_EXP + 1)"

definition buddy_left_child :: "nat \<Rightarrow> nat" where "buddy_left_child i = 2 * i + 1"
definition buddy_right_child :: "nat \<Rightarrow> nat" where "buddy_right_child i = 2 * i + 2"

definition buddy_parent :: "nat \<Rightarrow> nat" where
  "buddy_parent i = (if (i + 1) mod 2 ^ 64 < 2 then 2 ^ 64 - 1 else (i + 1) mod 2 ^ 64 div 2 - 1)"

definition next_exp_of_2 :: "u64 \<Rightarrow> nat res" where
  "next_exp_of_2 x = bindR (intrinsics_clz x) (\<lambda>clz. Inr (64 - clz))"

definition buddy_allocation_block_compute :: "u64 \<Rightarrow> nat res" where
  "buddy_allocation_block_compute req_size = next_exp_of_2 (max req_size (push_bit B_BLOCK_EXP 1) - 1)"

record buddy_state =
  longest :: "nat \<Rightarrow> nat"
  base_mem :: "nat \<Rightarrow> u8"
  dirty :: bitmap

definition longest_get :: "(nat \<Rightarrow> nat) \<Rightarrow> nat \<Rightarrow> nat res" where
  "longest_get g i = (if i < LONGEST_SIZE then Inr (g i) else Inl OutOfBounds)"

definition longest_set :: "(nat \<Rightarrow> nat) \<Rightarrow> nat \<Rightarrow> nat \<Rightarrow> (nat \<Rightarrow> nat) res" where
  "longest_set g i x = (if i < LONGEST_SIZE then Inr (g(i := x)) else Inl OutOfBounds)"

definition is_power_of_2 :: "nat \<Rightarrow> bool" where
  "is_power_of_2 i \<longleftrightarrow> i AND (i - 1) = 0"

definition init_step :: "nat \<Rightarrow> nat \<times> (nat \<Rightarrow> nat) \<Rightarrow> nat \<times> (nat \<Rightarrow> nat)" where
  "init_step i = (\<lambda>(node_size, g). (node_size - (if is_power_of_2 (i + 2) then 1 else 0), g(i := node_size)))"

definition buddy_init :: "buddy_state \<Rightarrow> buddy_state" where
  "buddy_init s = s\<lparr>longest := snd (fold init_step [0..<LONGEST_SIZE] (B_TOTAL_EXP, longest s))\<rparr>"

lemma longest_get_in [simp]: "i < LONGEST_SIZE \<Longrightarrow> longest_get g i = Inr (g i)"
  by (simp add: longest_get_def)

lemma longest_set_in [simp]: "i < LONGEST_SIZE \<Longrightarrow> longest_set g i x = Inr (g(i := x))"
  by (simp add: longest_set_def)

lemma longest_get_Inr: "longest_get g i = Inr v \<Longrightarrow> i < LONGEST_SIZE"
  by (simp add: longest_get_def split: if_splits)

lemma parent_below: "i < LONGEST_SIZE \<Longrightarrow> 0 < i \<Longrightarrow> buddy_parent i = (i - 1) div 2"
  by (simp add: buddy_parent_def LONGEST_SIZE_def B_TOTAL_EXP_def B_BLOCK_EXP_def)

lemma parent_cases: "buddy_parent i < i \<or> i = 0 \<and> buddy_parent i = 2 ^ 64 - 1 \<or> i = 2 ^ 64 - 1 \<and> buddy_parent i = 2 ^ 64 - 1 \<or> 2 ^ 64 \<le> i"
  by (cases "i < 2 ^ 64") (auto simp: buddy_parent_def mod_if split: if_splits)

text \<open>The exponent of a request: 6 for up to 64 bytes, otherwise the least one with room.\<close>

lemma block_compute:
  obtains e where "buddy_allocation_block_compute req = Inr e" "6 \<le> e" "e \<le> 64" "unat req \<le> 2 ^ e" "e = 6 \<or> 2 ^ (e - 1) < unat req"
proof -
  let ?m = "max req (push_bit B_BLOCK_EXP 1)"
  define x where "x = ?m - 1"
  have m: "unat ?m = max (unat req) 64" by (auto simp: max_def word_le_nat_alt B_BLOCK_EXP_def push_bit_eq_mult)
  have "1 \<le> ?m" using m by (simp add: word_le_nat_alt)
  then have x: "unat x = max (unat req) 64 - 1" unfolding x_def using m by (simp add: unat_sub)
  then have "x \<noteq> 0" by (auto simp: unat_eq_zero [symmetric])
  note h = highest_bit [OF this]
  let ?k = "last (filter (bit x) [0..<64])"
  have e: "buddy_allocation_block_compute req = Inr (Suc ?k)"
    unfolding buddy_allocation_block_compute_def x_def [symmetric]
    using \<open>x \<noteq> 0\<close> h(1) by (simp add: next_exp_of_2_def intrinsics_clz_def)
  have b: "2 ^ ?k \<le> max (unat req) 64 - 1" "max (unat req) 64 - 1 < 2 ^ Suc ?k" using h(2,3) x by simp_all
  have "6 \<le> Suc ?k"
  proof (rule ccontr)
    assume "\<not> 6 \<le> Suc ?k"
    then have "(2::nat) ^ Suc ?k \<le> 2 ^ 5" by (intro power_increasing) simp_all
    then show False using b(2) by (auto simp: max_def split: if_splits)
  qed
  moreover have "unat req \<le> 2 ^ Suc ?k" using b(2) by (simp add: max_def split: if_splits)
  moreover have "Suc ?k = 6 \<or> 2 ^ ?k < unat req"
  proof (cases "64 < unat req")
    case False
    then have "(2::nat) ^ ?k < 2 ^ 6" using b(1) by simp
    then have "?k < 6" by (rule power_less_imp_less_exp [rotated]) simp
    then show ?thesis using \<open>6 \<le> Suc ?k\<close> by simp
  qed (use b(1) in linarith)
  ultimately show thesis using that [OF e] h(1) by simp
qed

subsection \<open>Allocation\<close>

text \<open>The search for a child with room, until the size fits.\<close>

function buddy_search :: "(nat \<Rightarrow> nat) \<Rightarrow> nat \<Rightarrow> nat \<Rightarrow> nat \<Rightarrow> (nat \<times> nat) res" where
  "buddy_search g req_blks_exp node_size i =
     (if node_size > req_blks_exp then
        bindR (longest_get g (buddy_left_child i)) (\<lambda>v.
          buddy_search g req_blks_exp (node_size - 1) (buddy_left_child i + (if v < req_blks_exp then 1 else 0)))
      else Inr (i, node_size))"
  by pat_completeness auto
termination
  by (relation "measure (\<lambda>(_, _, node_size, _). node_size)") auto

declare buddy_search.simps [simp del]

text \<open>The loop that updates the ancestors of a node.\<close>

function buddy_update :: "nat \<Rightarrow> (nat \<Rightarrow> nat) \<Rightarrow> (nat \<Rightarrow> nat) res" where
  "buddy_update i g =
     (if i = 0 then Inr g
      else let p = buddy_parent i in
        bindR (longest_get g (buddy_left_child p)) (\<lambda>l.
        bindR (longest_get g (buddy_right_child p)) (\<lambda>r.
          buddy_update p (g(p := max l r)))))"
  by pat_completeness auto
termination
proof (relation "measure fst")
  fix i p l and g :: "nat \<Rightarrow> nat"
  assume a: "i \<noteq> 0" "p = buddy_parent i" "longest_get g (buddy_left_child p) = Inr l"
  then have "p < 2 ^ 64 - 1" by (auto dest: longest_get_Inr simp: LONGEST_SIZE_def B_TOTAL_EXP_def B_BLOCK_EXP_def buddy_left_child_def)
  with a parent_cases [of i] show "((p, g(p := max l r)), i, g) \<in> measure fst" for r by auto
qed simp

declare buddy_update.simps [simp del]

definition buddy_malloc :: "nat \<Rightarrow> buddy_state \<Rightarrow> (nat option \<times> buddy_state) res" where
  "buddy_malloc req_blks_exp s =
     (if longest s 0 < req_blks_exp then Inr (None, s)
      else
        bindR (buddy_search (longest s) req_blks_exp B_TOTAL_EXP 0) (\<lambda>(i, node_size).
        bindR (longest_set (longest s) i 0) (\<lambda>g.
        let offset = (i + 1) * 2 ^ node_size - 2 ^ B_TOTAL_EXP in
        bindR (buddy_update i g) (\<lambda>g.
          Inr (Some offset, s\<lparr>longest := g\<rparr>)))))"

subsection \<open>Release\<close>

function free_search :: "(nat \<Rightarrow> nat) \<Rightarrow> nat \<Rightarrow> nat \<Rightarrow> (nat \<times> nat) res" where
  "free_search g i node_size =
     bindR (longest_get g i) (\<lambda>v. if v \<noteq> 0 then free_search g (buddy_parent i) (node_size + 1) else Inr (i, node_size))"
  by pat_completeness auto
termination
proof (relation "measure (\<lambda>(_, i, _). if i < LONGEST_SIZE then Suc i else 0)")
  fix g i n v
  assume "longest_get g i = Inr v" "v \<noteq> 0"
  then show "((g, buddy_parent i, n + 1), g, i, n) \<in> measure (\<lambda>(_, i, _). if i < LONGEST_SIZE then Suc i else 0)"
    using parent_cases [of i] by (auto dest!: longest_get_Inr simp: LONGEST_SIZE_def B_TOTAL_EXP_def B_BLOCK_EXP_def)
qed simp

declare free_search.simps [simp del]

function free_update :: "nat \<Rightarrow> nat \<Rightarrow> (nat \<Rightarrow> nat) \<Rightarrow> (nat \<Rightarrow> nat) res" where
  "free_update i node_size g =
     (if i = 0 then Inr g
      else let p = buddy_parent i in
        bindR (longest_get g (buddy_left_child p)) (\<lambda>left_long.
        bindR (longest_get g (buddy_right_child p)) (\<lambda>right_long.
          free_update p (node_size + 1)
            (g(p := (if left_long = node_size \<and> right_long = node_size then node_size + 1 else max left_long right_long))))))"
  by pat_completeness auto
termination
proof (relation "measure fst")
  fix i n p l r and g :: "nat \<Rightarrow> nat"
  assume a: "i \<noteq> 0" "p = buddy_parent i" "longest_get g (buddy_left_child p) = Inr l"
  then have "p < 2 ^ 64 - 1" by (auto dest: longest_get_Inr simp: LONGEST_SIZE_def B_TOTAL_EXP_def B_BLOCK_EXP_def buddy_left_child_def)
  with a parent_cases [of i]
  show "((p, n + 1, g(p := (if l = n \<and> r = n then n + 1 else max l r))), i, n, g) \<in> measure fst" by auto
qed simp

declare free_update.simps [simp del]

text \<open>The node of the block of a pointer: the start of buddy_free and buddy_best_effort_realloc.\<close>

definition block_node :: "(nat \<Rightarrow> nat) \<Rightarrow> nat \<Rightarrow> (nat \<times> nat) res" where
  "block_node g ptr = free_search g (ptr div 2 ^ B_BLOCK_EXP + 2 ^ (B_TOTAL_EXP - B_BLOCK_EXP) - 1) B_BLOCK_EXP"

definition buddy_free :: "nat \<Rightarrow> buddy_state \<Rightarrow> (nat \<times> buddy_state) res" where
  "buddy_free ptr s =
     bindR (block_node (longest s) ptr) (\<lambda>(i, node_size).
     bindR (free_update i node_size ((longest s)(i := node_size))) (\<lambda>g.
       Inr (2 ^ node_size, s\<lparr>longest := g\<rparr>)))"

datatype buddy_realloc_res = Handled int | Original nat

definition buddy_best_effort_realloc :: "nat \<Rightarrow> u64 \<Rightarrow> buddy_state \<Rightarrow> buddy_realloc_res res" where
  "buddy_best_effort_realloc ptr req_size s =
     bindR (block_node (longest s) ptr) (\<lambda>(i, node_size).
     bindR (buddy_allocation_block_compute req_size) (\<lambda>req_blks_exp.
       Inr (if node_size = req_blks_exp then Handled 0 else Original (2 ^ node_size))))"

text \<open>The loop of buddy_dirty_mark, from index i + s down to i.\<close>

primrec dirty_loop :: "nat \<Rightarrow> nat \<Rightarrow> bitmap \<Rightarrow> bitmap res" where
  "dirty_loop i 0 d = bitmap_set d (of_nat i)"
| "dirty_loop i (Suc s) d = bindR (bitmap_set d (of_nat (i + Suc s))) (dirty_loop i s)"

definition buddy_dirty_mark :: "nat \<Rightarrow> nat \<Rightarrow> buddy_state \<Rightarrow> buddy_state res" where
  "buddy_dirty_mark diff s b =
     (let i = diff div 2 ^ B_BLOCK_EXP + 2 ^ (B_TOTAL_EXP - 2 * B_BLOCK_EXP + 1);
          s = (s + diff mod 2 ^ B_BLOCK_EXP - 1) div 2 ^ B_BLOCK_EXP
      in bindR (dirty_loop i s (dirty b)) (\<lambda>d. Inr (b\<lparr>dirty := d\<rparr>)))"

subsection \<open>The tree\<close>

text \<open>
  A node i at height h, whose blocks have 2 to the 6 + h bytes: wholly free (\<open>fresh\<close>); in order;
  the blocks allocated below it; the nodes below it.
\<close>

fun fresh :: "(nat \<Rightarrow> nat) \<Rightarrow> nat \<Rightarrow> nat \<Rightarrow> bool" where
  "fresh g 0 i \<longleftrightarrow> g i = 6"
| "fresh g (Suc h) i \<longleftrightarrow> g i = 7 + h \<and> fresh g h (2 * i + 1) \<and> fresh g h (2 * i + 2)"

fun tree_ok :: "(nat \<Rightarrow> nat) \<Rightarrow> nat \<Rightarrow> nat \<Rightarrow> bool" where
  "tree_ok g 0 i \<longleftrightarrow> g i = 6 \<or> g i = 0"
| "tree_ok g (Suc h) i \<longleftrightarrow> fresh g (Suc h) i
     \<or> g i = 0 \<and> fresh g h (2 * i + 1) \<and> fresh g h (2 * i + 2)
     \<or> tree_ok g h (2 * i + 1) \<and> tree_ok g h (2 * i + 2) \<and> \<not> (g (2 * i + 1) = 6 + h \<and> g (2 * i + 2) = 6 + h)
       \<and> g i = max (g (2 * i + 1)) (g (2 * i + 2))"

fun blocks :: "(nat \<Rightarrow> nat) \<Rightarrow> nat \<Rightarrow> nat \<Rightarrow> (nat \<times> nat) set" where
  "blocks g 0 i = (if g i = 0 then {(i, 0)} else {})"
| "blocks g (Suc h) i = (if g i = 0 \<and> g (2 * i + 1) \<noteq> 0 then {(i, Suc h)} else if g i = 7 + h then {}
     else blocks g h (2 * i + 1) \<union> blocks g h (2 * i + 2))"

fun sub :: "nat \<Rightarrow> nat \<Rightarrow> nat set" where
  "sub 0 i = {i}"
| "sub (Suc h) i = insert i (sub h (2 * i + 1) \<union> sub h (2 * i + 2))"

lemma sub_root: "i \<in> sub h i"
  by (cases h) auto

lemma sub_anc: "j \<in> sub h i \<Longrightarrow> \<exists>d. (j + 1) div 2 ^ d = i + 1"
proof (induction h arbitrary: i)
  case 0
  then show ?case by (intro exI [of _ 0]) simp
next
  case (Suc h)
  have up: "(j + 1) div 2 ^ Suc d = i + 1" if "(j + 1) div 2 ^ d = 2 * i + 2 \<or> (j + 1) div 2 ^ d = 2 * i + 3" for d
    using that by (auto simp: div_mult2_eq power_Suc2 simp del: power_Suc)
  from Suc.prems consider "j = i" | "j \<in> sub h (2 * i + 1)" | "j \<in> sub h (2 * i + 2)" by auto
  then show ?case
  proof cases
    case 1
    then show ?thesis by (intro exI [of _ 0]) simp
  next
    case 2
    from Suc.IH [OF this] obtain d where "(j + 1) div 2 ^ d = 2 * i + 1 + 1" ..
    then show ?thesis using up [of d] by (intro exI [of _ "Suc d"]) (simp del: power_Suc)
  next
    case 3
    from Suc.IH [OF this] obtain d where "(j + 1) div 2 ^ d = 2 * i + 2 + 1" ..
    then show ?thesis using up [of d] by (intro exI [of _ "Suc d"]) (simp del: power_Suc)
  qed
qed

lemma anc_level:
  assumes "(j + 1) div 2 ^ a = x" "(j + 1) div 2 ^ b = y" "a \<le> b" "0 < (y::nat)"
  shows "y \<le> x" "a < b \<Longrightarrow> 2 * y \<le> x"
proof -
  obtain d where d: "b = a + d" using assms(3) le_iff_add by blast
  have y: "y = x div 2 ^ d" using assms(1,2) by (simp add: d power_add div_mult2_eq)
  then show "y \<le> x" by simp
  assume "a < b"
  then obtain d' where "d = Suc d'" using d by (cases d) auto
  then have "y = x div 2 ^ d' div 2" using y by (simp add: div_mult2_eq power_Suc2 del: power_Suc)
  then have "2 * y \<le> x div 2 ^ d'" by simp
  also have "\<dots> \<le> x" by simp
  finally show "2 * y \<le> x" .
qed

lemma sub_disjoint: "sub h (2 * i + 1) \<inter> sub k (2 * i + 2) = {}" "i \<notin> sub h (2 * i + 1)" "i \<notin> sub h (2 * i + 2)"
proof -
  have "False" if "j \<in> sub h (2 * i + 1)" "j \<in> sub k (2 * i + 2)" for j
  proof -
    from sub_anc [OF that(1)] obtain a where "(j + 1) div 2 ^ a = 2 * i + 1 + 1" ..
    moreover from sub_anc [OF that(2)] obtain b where "(j + 1) div 2 ^ b = 2 * i + 2 + 1" ..
    ultimately have "(j + 1) div 2 ^ a = 2 * i + 2" "(j + 1) div 2 ^ b = 2 * i + 3" by simp_all
    with anc_level [of j a "2 * i + 2" b "2 * i + 3"] anc_level [of j b "2 * i + 3" a "2 * i + 2"] show False
      by (cases "a \<le> b") (auto simp: le_eq_less_or_eq)
  qed
  then show "sub h (2 * i + 1) \<inter> sub k (2 * i + 2) = {}" by blast
  have "False" if "i \<in> sub h x" "x = 2 * i + 1 \<or> x = 2 * i + 2" for x
  proof -
    from sub_anc [OF that(1)] obtain d where "(i + 1) div 2 ^ d = x + 1" by auto
    moreover have "(i + 1) div 2 ^ d \<le> i + 1" by simp
    ultimately show False using that(2) by linarith
  qed
  then show "i \<notin> sub h (2 * i + 1)" "i \<notin> sub h (2 * i + 2)" by blast+
qed

lemma tree_cong:
  "(\<And>j. j \<in> sub h i \<Longrightarrow> g' j = g j) \<Longrightarrow> fresh g' h i = fresh g h i \<and> tree_ok g' h i = tree_ok g h i \<and> blocks g' h i = blocks g h i"
proof (induction h arbitrary: i)
  case (Suc h)
  then have "g' (2 * i + 1) = g (2 * i + 1)" "g' (2 * i + 2) = g (2 * i + 2)" "g' i = g i" by (simp_all add: sub_root)
  with Suc.IH [of "2 * i + 1"] Suc.IH [of "2 * i + 2"] Suc.prems show ?case by simp
qed simp

lemma blocks_sub: "(t, r) \<in> blocks g h i \<Longrightarrow> t \<in> sub h i"
proof (induction h arbitrary: i)
  case (Suc h)
  then show ?case using Suc.IH [of "2 * i + 1"] Suc.IH [of "2 * i + 2"] by (auto split: if_splits)
qed (simp split: if_splits)

lemma fresh_ok: "fresh g h i \<Longrightarrow> tree_ok g h i \<and> g i = 6 + h \<and> blocks g h i = {}"
  by (cases h) auto

lemma ok_values: "tree_ok g h i \<Longrightarrow> g i \<le> 6 + h \<and> (g i = 6 + h \<longleftrightarrow> fresh g h i)"
proof (induction h arbitrary: i)
  case (Suc h)
  from Suc.prems consider "fresh g (Suc h) i" | "g i = 0"
    | "tree_ok g h (2 * i + 1)" "tree_ok g h (2 * i + 2)" "g i = max (g (2 * i + 1)) (g (2 * i + 2))" by auto
  then show ?case
  proof cases
    case 3
    then have "g i \<le> 6 + h" using Suc.IH [of "2 * i + 1"] Suc.IH [of "2 * i + 2"] by simp
    then show ?thesis by simp
  qed simp_all
qed auto

lemma blocks_empty: "tree_ok g h i \<Longrightarrow> blocks g h i = {} \<longleftrightarrow> fresh g h i"
proof (induction h arbitrary: i)
  case (Suc h)
  note v = ok_values [of g h "2 * i + 1"] ok_values [of g h "2 * i + 2"] ok_values [OF Suc.prems]
  show ?case
  proof (cases "fresh g (Suc h) i")
    case False
    then consider "g i = 0" "fresh g h (2 * i + 1)" | "tree_ok g h (2 * i + 1)" "tree_ok g h (2 * i + 2)"
      "\<not> (g (2 * i + 1) = 6 + h \<and> g (2 * i + 2) = 6 + h)" using Suc.prems by auto
    then show ?thesis
    proof cases
      case 1
      with False fresh_ok [of g h "2 * i + 1"] show ?thesis by auto
    next
      case 2
      with Suc.IH [of "2 * i + 1"] Suc.IH [of "2 * i + 2"] v False show ?thesis by auto
    qed
  qed (use fresh_ok in auto)
qed auto

text \<open>A node whose children change.\<close>

lemma blocks_split:
  assumes "tree_ok g (Suc h) i" "\<not> fresh g (Suc h) i" "\<not> (g i = 0 \<and> g (2 * i + 1) \<noteq> 0)"
  shows "tree_ok g h (2 * i + 1)" "tree_ok g h (2 * i + 2)" "g i = max (g (2 * i + 1)) (g (2 * i + 2))"
    "blocks g (Suc h) i = blocks g h (2 * i + 1) \<union> blocks g h (2 * i + 2)"
  using assms ok_values [of g h "2 * i + 1"] ok_values [of g h "2 * i + 2"] fresh_ok [of g h "2 * i + 1"] by auto

lemma join:
  assumes "tree_ok g h (2 * i + 1)" "tree_ok g h (2 * i + 2)"
    and "m = (if g (2 * i + 1) = 6 + h \<and> g (2 * i + 2) = 6 + h then 7 + h else max (g (2 * i + 1)) (g (2 * i + 2)))"
  shows "tree_ok (g(i := m)) (Suc h) i" "blocks (g(i := m)) (Suc h) i = blocks g h (2 * i + 1) \<union> blocks g h (2 * i + 2)"
proof -
  have n: "(g(i := m)) j = g j" if "j \<in> sub h (2 * i + 1) \<or> j \<in> sub h (2 * i + 2)" for j
    using that sub_disjoint(2,3) [of i h] by auto
  note c = tree_cong [of h "2 * i + 1" "g(i := m)" g] tree_cong [of h "2 * i + 2" "g(i := m)" g]
  note v = ok_values [OF assms(1)] ok_values [OF assms(2)]
  have b: "fresh g h (2 * i + 1) \<Longrightarrow> blocks g h (2 * i + 1) = {}" "fresh g h (2 * i + 2) \<Longrightarrow> blocks g h (2 * i + 2) = {}"
    using fresh_ok by blast+
  show "tree_ok (g(i := m)) (Suc h) i" "blocks (g(i := m)) (Suc h) i = blocks g h (2 * i + 1) \<union> blocks g h (2 * i + 2)"
    using c n v b assms by (auto simp: max_def)
qed

text \<open>One of the children changes and the node is set again.\<close>

lemma child_change:
  assumes ch: "tree_ok g h (2 * i + 1)" "tree_ok g h (2 * i + 2)"
    and c: "(c, d) \<in> {(2 * i + 1, 2 * i + 2), (2 * i + 2, 2 * i + 1)}"
    and 1: "tree_ok g1 h c" "\<forall>j. j \<notin> sub h c \<longrightarrow> g1 j = g j"
    and m: "m = (if g1 (2 * i + 1) = 6 + h \<and> g1 (2 * i + 2) = 6 + h then 7 + h else max (g1 (2 * i + 1)) (g1 (2 * i + 2)))"
  shows "tree_ok (g1(i := m)) (Suc h) i" "\<forall>j. j \<notin> sub (Suc h) i \<longrightarrow> (g1(i := m)) j = g j"
    "blocks (g1(i := m)) (Suc h) i = blocks g1 h c \<union> blocks g h d"
proof -
  have "sub h c \<inter> sub h d = {}" using c sub_disjoint(1) [of h i h] by auto
  then have "g1 j = g j" if "j \<in> sub h d" for j using 1(2) that by blast
  from tree_cong [OF this] have d: "tree_ok g1 h d" "blocks g1 h d = blocks g h d" using ch c by auto
  then have ok: "tree_ok g1 h (2 * i + 1)" "tree_ok g1 h (2 * i + 2)" using 1(1) c by auto
  show "tree_ok (g1(i := m)) (Suc h) i" by (rule join(1) [OF ok m])
  have "blocks (g1(i := m)) (Suc h) i = blocks g1 h (2 * i + 1) \<union> blocks g1 h (2 * i + 2)" by (rule join(2) [OF ok m])
  also have "\<dots> = blocks g1 h c \<union> blocks g1 h d" using c by auto
  finally show "blocks (g1(i := m)) (Suc h) i = blocks g1 h c \<union> blocks g h d" using d(2) by simp
  show "\<forall>j. j \<notin> sub (Suc h) i \<longrightarrow> (g1(i := m)) j = g j" using 1(2) c by auto
qed

lemma range_child: "(i + 2) * 2 ^ Suc h \<le> LONGEST_SIZE \<Longrightarrow>
    (2 * i + 1 + 2) * 2 ^ h \<le> LONGEST_SIZE \<and> (2 * i + 2 + 2) * 2 ^ h \<le> LONGEST_SIZE \<and> 2 * i + 2 < LONGEST_SIZE"
proof -
  assume a: "(i + 2) * 2 ^ Suc h \<le> LONGEST_SIZE"
  then have b: "(2 * i + 2 + 2) * 2 ^ h \<le> LONGEST_SIZE" by (simp add: algebra_simps)
  have "(2 * i + 1 + 2) * 2 ^ h \<le> (2 * i + 2 + 2) * (2::nat) ^ h" by (intro mult_right_mono) simp_all
  then have "(2 * i + 1 + 2) * 2 ^ h \<le> LONGEST_SIZE" using b by (rule order_trans)
  moreover have "x \<le> x * 2 ^ h" for x :: nat using mult_le_mono2 [of 1 "2 ^ h" x] by simp
  then have "2 * i + 2 + 2 \<le> LONGEST_SIZE" using b by (rule order_trans)
  ultimately have "(2 * i + 1 + 2) * 2 ^ h \<le> LONGEST_SIZE" "2 * i + 2 + 2 \<le> LONGEST_SIZE" by blast+
  then show ?thesis using b by simp
qed

lemma parent_child:
  "2 * i + 2 < LONGEST_SIZE \<Longrightarrow> buddy_parent (2 * i + 1) = i" "2 * i + 2 < LONGEST_SIZE \<Longrightarrow> buddy_parent (2 * i + 2) = i"
  "2 * i + 2 < LONGEST_SIZE \<Longrightarrow> buddy_parent (Suc (2 * i)) = i" "2 * i + 2 < LONGEST_SIZE \<Longrightarrow> buddy_parent (Suc (Suc (2 * i))) = i"
  by (simp_all add: parent_below)

lemma malloc_sub:
  assumes "tree_ok g h i" "r \<le> h" "6 + r \<le> g i" "(i + 2) * 2 ^ h \<le> LONGEST_SIZE"
  shows "\<exists>t g'. buddy_search g (6 + r) (6 + h) i = Inr (t, 6 + r) \<and> t \<in> sub h i \<and> buddy_update t (g(t := 0)) = buddy_update i g'
    \<and> tree_ok g' h i \<and> (\<forall>j. j \<notin> sub h i \<longrightarrow> g' j = g j) \<and> blocks g' h i = insert (t, r) (blocks g h i) \<and> (t, r) \<notin> blocks g h i"
  using assms
proof (induction h arbitrary: i)
  case 0
  then show ?case by (intro exI [of _ i] exI [of _ "g(i := 0)"]) (auto simp: buddy_search.simps)
next
  case (Suc h)
  note v = ok_values [OF Suc.prems(1)]
  show ?case
  proof (cases "r = Suc h")
    case True
    then have f: "fresh g (Suc h) i" using v Suc.prems(3) by auto
    have "\<forall>j\<in>sub h (2 * i + 1) \<union> sub h (2 * i + 2). (g(i := 0)) j = g j" using sub_disjoint(2,3) [of i h] by auto
    then have "fresh (g(i := 0)) h (2 * i + 1) = fresh g h (2 * i + 1)" "fresh (g(i := 0)) h (2 * i + 2) = fresh g h (2 * i + 2)"
      using tree_cong [of h "2 * i + 1" "g(i := 0)" g] tree_cong [of h "2 * i + 2" "g(i := 0)" g] by blast+
    with f have "fresh (g(i := 0)) h (2 * i + 1)" "fresh (g(i := 0)) h (2 * i + 2)" by simp_all
    moreover define g' where "g' = g(i := 0)"
    ultimately have "fresh g' h (2 * i + 1)" "fresh g' h (2 * i + 2)" by simp_all
    moreover from this have "g' (2 * i + 1) = 6 + h" using fresh_ok by blast
    moreover have "blocks g (Suc h) i = {}" using f fresh_ok by blast
    moreover have "g' i = 0" "\<forall>j. j \<notin> sub (Suc h) i \<longrightarrow> g' j = g j" by (simp_all add: g'_def)
    ultimately show ?thesis using True sub_root [of i "Suc h"]
      by (intro exI [of _ i] exI [of _ g']) (simp add: buddy_search.simps g'_def [symmetric])
  next
    case False
    then have r: "r \<le> h" using Suc.prems(2) by simp
    note rg = range_child [OF Suc.prems(4)]
    have n0: "g i \<noteq> 0" using Suc.prems(3) by simp
    have ch: "tree_ok g h (2 * i + 1)" "tree_ok g h (2 * i + 2)" "6 + r \<le> g (2 * i + 1) \<or> 6 + r \<le> g (2 * i + 2)"
      "blocks g (Suc h) i = blocks g h (2 * i + 1) \<union> blocks g h (2 * i + 2)"
    proof -
      have "tree_ok g h (2 * i + 1) \<and> tree_ok g h (2 * i + 2) \<and> (6 + r \<le> g (2 * i + 1) \<or> 6 + r \<le> g (2 * i + 2))
        \<and> blocks g (Suc h) i = blocks g h (2 * i + 1) \<union> blocks g h (2 * i + 2)"
      proof (cases "fresh g (Suc h) i")
        case True
        with fresh_ok [of g h "2 * i + 1"] fresh_ok [of g h "2 * i + 2"] r show ?thesis by auto
      next
        case False
        with blocks_split [OF Suc.prems(1) False] n0 Suc.prems(3) show ?thesis by (auto simp: max_def split: if_splits)
      qed
      then show "tree_ok g h (2 * i + 1)" "tree_ok g h (2 * i + 2)" "6 + r \<le> g (2 * i + 1) \<or> 6 + r \<le> g (2 * i + 2)"
        "blocks g (Suc h) i = blocks g h (2 * i + 1) \<union> blocks g h (2 * i + 2)" by blast+
    qed
    obtain c d where c: "(c, d) \<in> {(2 * i + 1, 2 * i + 2), (2 * i + 2, 2 * i + 1)}" "6 + r \<le> g c"
      "c = 2 * i + 1 + (if g (2 * i + 1) < 6 + r then 1 else 0)" using ch(3) by (cases "g (2 * i + 1) < 6 + r") auto
    have cok: "tree_ok g h c" "(c + 2) * 2 ^ h \<le> LONGEST_SIZE" "c \<noteq> 0" "buddy_parent c = i"
      using c(1) ch(1,2) rg parent_child by auto
    from Suc.IH [OF cok(1) r c(2) cok(2)] obtain t g1 where 1: "buddy_search g (6 + r) (6 + h) c = Inr (t, 6 + r)" "t \<in> sub h c"
      "buddy_update t (g(t := 0)) = buddy_update c g1" "tree_ok g1 h c" "\<forall>j. j \<notin> sub h c \<longrightarrow> g1 j = g j"
      "blocks g1 h c = insert (t, r) (blocks g h c)" "(t, r) \<notin> blocks g h c" by blast
    let ?m = "max (g1 (2 * i + 1)) (g1 (2 * i + 2))"
    have se: "buddy_search g (6 + r) (6 + Suc h) i = Inr (t, 6 + r)"
      using 1(1) r rg unfolding c(3) by (subst buddy_search.simps) (simp add: buddy_left_child_def)
    have up: "buddy_update c g1 = buddy_update i (g1(i := ?m))"
      using cok(3,4) rg by (subst buddy_update.simps) (simp add: Let_def buddy_left_child_def buddy_right_child_def)
    have "\<not> fresh g1 h c" using blocks_empty [OF 1(4)] 1(6) by blast
    then have "g1 c \<noteq> 6 + h" using ok_values [OF 1(4)] by blast
    then have m: "?m = (if g1 (2 * i + 1) = 6 + h \<and> g1 (2 * i + 2) = 6 + h then 7 + h else ?m)" using c(1) by auto
    note cc = child_change [OF ch(1,2) c(1) 1(4,5) m]
    have "blocks g (Suc h) i = blocks g h c \<union> blocks g h d" using ch(4) c(1) by auto
    then have bl: "blocks (g1(i := ?m)) (Suc h) i = insert (t, r) (blocks g (Suc h) i)" "(t, r) \<notin> blocks g (Suc h) i"
      using cc(3) 1(2,6,7) blocks_sub [of t r g h d] sub_disjoint(1) [of h i h] c(1) by auto
    have "t \<in> sub (Suc h) i" using 1(2) c(1) by auto
    moreover have "buddy_update t (g(t := 0)) = buddy_update i (g1(i := ?m))" using 1(3) up by (rule trans)
    ultimately show ?thesis using se cc(1,2) bl by blast
  qed
qed

text \<open>A block of the tree: its node is 0, what lies below it is free.\<close>

lemma block_node_props:
  "tree_ok g h i \<Longrightarrow> (t, r) \<in> blocks g h i \<Longrightarrow> (i + 2) * 2 ^ h \<le> LONGEST_SIZE \<Longrightarrow>
   r \<le> h \<and> g t = 0 \<and> (\<forall>k. r = Suc k \<longrightarrow> fresh g k (2 * t + 1) \<and> fresh g k (2 * t + 2)) \<and> (t + 2) * 2 ^ r \<le> LONGEST_SIZE"
proof (induction h arbitrary: i)
  case (Suc h)
  note rg = range_child [OF Suc.prems(3)]
  have nf: "\<not> fresh g (Suc h) i" using Suc.prems(1,2) blocks_empty by blast
  show ?case
  proof (cases "g i = 0 \<and> g (2 * i + 1) \<noteq> 0")
    case True
    then have "(t, r) = (i, Suc h)" using Suc.prems(2) by simp
    moreover have "fresh g h (2 * i + 1) \<and> fresh g h (2 * i + 2)" using Suc.prems(1) True by auto
    ultimately show ?thesis using True Suc.prems(3) by auto
  next
    case False
    note sp = blocks_split [OF Suc.prems(1) nf False]
    then consider "(t, r) \<in> blocks g h (2 * i + 1)" | "(t, r) \<in> blocks g h (2 * i + 2)" using Suc.prems(2) by blast
    then show ?thesis
    proof cases
      case 1
      with Suc.IH [OF sp(1) 1] rg show ?thesis by simp
    next
      case 2
      with Suc.IH [OF sp(2) 2] rg show ?thesis by simp
    qed
  qed
qed (simp split: if_splits)

lemma fresh_climb:
  "fresh g r i \<Longrightarrow> (i + 2) * 2 ^ r \<le> LONGEST_SIZE \<Longrightarrow> free_search g ((i + 1) * 2 ^ r - 1) 6 = free_search g (buddy_parent i) (7 + r)"
proof (induction r arbitrary: i)
  case 0
  then show ?case by (subst free_search.simps) simp
next
  case (Suc r)
  note rg = range_child [OF Suc.prems(2)]
  have "(i + 1) * 2 ^ Suc r - 1 = (2 * i + 1 + 1) * 2 ^ r - 1" by simp
  then have "free_search g ((i + 1) * 2 ^ Suc r - 1) 6 = free_search g ((2 * i + 1 + 1) * 2 ^ r - 1) 6" by (rule arg_cong)
  also have "\<dots> = free_search g (buddy_parent (2 * i + 1)) (7 + r)" using Suc.IH [of "2 * i + 1"] Suc.prems(1) rg by simp
  also have "\<dots> = free_search g i (7 + r)" using rg by (simp add: parent_child)
  also have "\<dots> = free_search g (buddy_parent i) (7 + Suc r)" using Suc.prems(1) rg by (subst free_search.simps) simp
  finally show ?case .
qed

lemma block_found:
  assumes "tree_ok g h i" "(t, r) \<in> blocks g h i" "(i + 2) * 2 ^ h \<le> LONGEST_SIZE"
  shows "free_search g ((t + 1) * 2 ^ r - 1) 6 = Inr (t, 6 + r)"
proof -
  note b = block_node_props [OF assms]
  show ?thesis
  proof (cases r)
    case 0
    with b show ?thesis by (subst free_search.simps) simp
  next
    case (Suc k)
    note rg = range_child [of t k]
    have "(t + 1) * 2 ^ r - 1 = (2 * t + 1 + 1) * 2 ^ k - 1" by (simp add: Suc)
    then have "free_search g ((t + 1) * 2 ^ r - 1) 6 = free_search g ((2 * t + 1 + 1) * 2 ^ k - 1) 6" by (rule arg_cong)
    also have "\<dots> = free_search g (buddy_parent (2 * t + 1)) (7 + k)" using b rg Suc by (intro fresh_climb) auto
    also have "\<dots> = free_search g t (7 + k)" using rg b Suc by (simp add: parent_child)
    also have "\<dots> = Inr (t, 6 + r)" using b rg Suc by (subst free_search.simps) simp
    finally show ?thesis .
  qed
qed

lemma free_sub:
  assumes "tree_ok g h i" "(t, r) \<in> blocks g h i" "(i + 2) * 2 ^ h \<le> LONGEST_SIZE"
  shows "\<exists>g'. free_update t (6 + r) (g(t := 6 + r)) = free_update i (6 + h) g'
    \<and> tree_ok g' h i \<and> (\<forall>j. j \<notin> sub h i \<longrightarrow> g' j = g j) \<and> blocks g' h i = blocks g h i - {(t, r)}"
  using assms
proof (induction h arbitrary: i)
  case 0
  then have "t = i" "r = 0" "blocks g 0 i = {(t, r)}" by (auto split: if_splits)
  moreover have "tree_ok (g(i := 6 + 0)) 0 i" "\<forall>j. j \<notin> sub 0 i \<longrightarrow> (g(i := 6 + 0)) j = g j" "blocks (g(i := 6 + 0)) 0 i = {}" by simp_all
  ultimately show ?case by blast
next
  case (Suc h)
  note rg = range_child [OF Suc.prems(3)]
  have nf: "\<not> fresh g (Suc h) i" using Suc.prems(1,2) blocks_empty by blast
  show ?case
  proof (cases "g i = 0 \<and> g (2 * i + 1) \<noteq> 0")
    case True
    then have e: "t = i" "r = Suc h" "blocks g (Suc h) i = {(t, r)}" using Suc.prems(2) by simp_all
    have f: "fresh g h (2 * i + 1)" "fresh g h (2 * i + 2)" using Suc.prems(1) True by auto
    then have "fresh (g(i := 7 + h)) h (2 * i + 1)" "fresh (g(i := 7 + h)) h (2 * i + 2)"
      using tree_cong [of h "2 * i + 1" "g(i := 7 + h)" g] tree_cong [of h "2 * i + 2" "g(i := 7 + h)" g] sub_disjoint(2,3) [of i h]
      by (metis fun_upd_other)+
    moreover have u: "6 + Suc h = 7 + h" by simp
    ultimately have "fresh (g(i := 6 + Suc h)) (Suc h) i" unfolding u by simp
    with fresh_ok have "tree_ok (g(i := 6 + Suc h)) (Suc h) i" "blocks (g(i := 6 + Suc h)) (Suc h) i = {}" by blast+
    moreover have "\<forall>j. j \<notin> sub (Suc h) i \<longrightarrow> (g(i := 6 + Suc h)) j = g j" using sub_root [of i "Suc h"] by auto
    ultimately show ?thesis unfolding e(1,2,3) by blast
  next
    case False
    note sp = blocks_split [OF Suc.prems(1) nf False]
    obtain c d where c: "(c, d) \<in> {(2 * i + 1, 2 * i + 2), (2 * i + 2, 2 * i + 1)}" "(t, r) \<in> blocks g h c"
      using sp(4) Suc.prems(2) by blast
    have cok: "tree_ok g h c" "(c + 2) * 2 ^ h \<le> LONGEST_SIZE" "c \<noteq> 0" "buddy_parent c = i"
      using c(1) sp(1,2) rg parent_child by auto
    from Suc.IH [OF cok(1) c(2) cok(2)] obtain g1 where 1: "free_update t (6 + r) (g(t := 6 + r)) = free_update c (6 + h) g1"
      "tree_ok g1 h c" "\<forall>j. j \<notin> sub h c \<longrightarrow> g1 j = g j" "blocks g1 h c = blocks g h c - {(t, r)}" by blast
    define m where "m = (if g1 (2 * i + 1) = 6 + h \<and> g1 (2 * i + 2) = 6 + h then 7 + h else max (g1 (2 * i + 1)) (g1 (2 * i + 2)))"
    have up: "free_update c (6 + h) g1 = free_update i (6 + Suc h) (g1(i := m))"
      using cok(3,4) rg unfolding m_def by (subst free_update.simps) (simp add: Let_def buddy_left_child_def buddy_right_child_def)
    note cc = child_change [OF sp(1,2) c(1) 1(2,3) m_def]
    have "blocks g (Suc h) i = blocks g h c \<union> blocks g h d" using sp(4) c(1) by auto
    moreover have "(t, r) \<notin> blocks g h d"
      using blocks_sub [OF c(2)] blocks_sub [of t r g h d] sub_disjoint(1) [of h i h] c(1) by auto
    ultimately have "blocks (g1(i := m)) (Suc h) i = blocks g (Suc h) i - {(t, r)}" using cc(3) 1(4) by blast
    moreover have "free_update t (6 + r) (g(t := 6 + r)) = free_update i (6 + Suc h) (g1(i := m))" using 1(1) up by (rule trans)
    ultimately show ?thesis using cc(1,2) by blast
  qed
qed

text \<open>The blocks determine the tree.\<close>

lemma fresh_determine: "fresh g h i \<Longrightarrow> fresh g' h i \<Longrightarrow> j \<in> sub h i \<Longrightarrow> g j = g' j"
  by (induction h arbitrary: i) auto

lemma split_part:
  assumes "tree_ok g (Suc h) i" "\<not> fresh g (Suc h) i" "\<not> (g i = 0 \<and> g (2 * i + 1) \<noteq> 0)"
  shows "blocks g h (2 * i + 1) = {b \<in> blocks g (Suc h) i. fst b \<in> sub h (2 * i + 1)}"
    "blocks g h (2 * i + 2) = {b \<in> blocks g (Suc h) i. fst b \<in> sub h (2 * i + 2)}"
  using blocks_split(4) [OF assms] sub_disjoint(1) [of h i h] blocks_sub [of _ _ g h "2 * i + 1"] blocks_sub [of _ _ g h "2 * i + 2"]
  by fastforce+

lemma whole_block:
  assumes "tree_ok g (Suc h) i"
  shows "(g i = 0 \<and> g (2 * i + 1) \<noteq> 0) \<longleftrightarrow> (i, Suc h) \<in> blocks g (Suc h) i"
  using blocks_sub [of i "Suc h" g h "2 * i + 1"] blocks_sub [of i "Suc h" g h "2 * i + 2"] sub_disjoint(2,3) [of i h]
  by auto

lemma blocks_determine:
  "tree_ok g h i \<Longrightarrow> tree_ok g' h i \<Longrightarrow> blocks g h i = blocks g' h i \<Longrightarrow> j \<in> sub h i \<Longrightarrow> g j = g' j"
proof (induction h arbitrary: i j)
  case (Suc h)
  note e = Suc.prems(3)
  have w: "(g i = 0 \<and> g (2 * i + 1) \<noteq> 0) \<longleftrightarrow> (g' i = 0 \<and> g' (2 * i + 1) \<noteq> 0)"
    unfolding whole_block [OF Suc.prems(1)] whole_block [OF Suc.prems(2)] e ..
  have f: "fresh g (Suc h) i \<longleftrightarrow> fresh g' (Suc h) i"
    using blocks_empty [OF Suc.prems(1)] blocks_empty [OF Suc.prems(2)] e by metis
  have js: "j = i \<or> j \<in> sub h (2 * i + 1) \<or> j \<in> sub h (2 * i + 2)" using Suc.prems(4) by auto
  consider "fresh g (Suc h) i" | "g i = 0" "g (2 * i + 1) \<noteq> 0" "\<not> fresh g (Suc h) i"
    | "\<not> fresh g (Suc h) i" "\<not> (g i = 0 \<and> g (2 * i + 1) \<noteq> 0)" by argo
  then show ?case
  proof cases
    case 1
    with f Suc.prems(4) fresh_determine show ?thesis by blast
  next
    case 2
    with Suc.prems(1,2) w f have "fresh g h (2 * i + 1)" "fresh g h (2 * i + 2)" "fresh g' h (2 * i + 1)" "fresh g' h (2 * i + 2)" by auto
    moreover have "g' i = g i" using 2 w by simp
    ultimately show ?thesis
      using js fresh_determine [of g h "2 * i + 1" g' j] fresh_determine [of g h "2 * i + 2" g' j] by (elim disjE) simp_all
  next
    case 3
    note s = blocks_split [OF Suc.prems(1) 3]
    have n3: "\<not> fresh g' (Suc h) i" "\<not> (g' i = 0 \<and> g' (2 * i + 1) \<noteq> 0)" using 3 f w by argo+
    note s' = blocks_split [OF Suc.prems(2) n3]
    have b: "blocks g h (2 * i + 1) = blocks g' h (2 * i + 1)" "blocks g h (2 * i + 2) = blocks g' h (2 * i + 2)"
      unfolding split_part [OF Suc.prems(1) 3] split_part [OF Suc.prems(2) n3] e by (rule refl)+
    have "g x = g' x" if "x \<in> sub h (2 * i + 1) \<or> x \<in> sub h (2 * i + 2)" for x
      using that Suc.IH [OF s(1) s'(1) b(1), of x] Suc.IH [OF s(2) s'(2) b(2), of x] by blast
    moreover from this have "g i = g' i" unfolding s(3) s'(3) using sub_root by metis
    ultimately show ?thesis using js by (elim disjE) simp_all
  qed
qed (auto split: if_splits)

subsection \<open>The buddy system\<close>

text \<open>The tree in order; the allocated blocks as offsets and exponents of sizes.\<close>

definition buddy_ok :: "buddy_state \<Rightarrow> bool" where
  "buddy_ok s \<longleftrightarrow> tree_ok (longest s) 10 0"

definition offset_of :: "nat \<times> nat \<Rightarrow> nat \<times> nat" where
  "offset_of = (\<lambda>(i, h). ((i + 1) * 2 ^ (6 + h) - 2 ^ B_TOTAL_EXP, 6 + h))"

definition allocs :: "buddy_state \<Rightarrow> (nat \<times> nat) set" where
  "allocs s = offset_of ` blocks (longest s) 10 0"

definition bytes :: "nat \<times> nat \<Rightarrow> nat set" where
  "bytes b = {fst b..<fst b + 2 ^ snd b}"

text \<open>The bytes below a node, counted from 2 to the 16.\<close>

definition span :: "nat \<Rightarrow> nat \<Rightarrow> nat set" where
  "span h i = {(i + 1) * 2 ^ (6 + h)..<(i + 2) * 2 ^ (6 + h)}"

lemma span_children: "span (Suc h) i = span h (2 * i + 1) \<union> span h (2 * i + 2)" "span h (2 * i + 1) \<inter> span h (2 * i + 2) = {}"
proof -
  have x: "(2 * i + 1 + 1) * x = (i + 1) * (x * 2)" "(2 * i + 2 + 2) * x = (i + 2) * (x * 2)" for x :: nat by (simp_all add: algebra_simps)
  have e: "(2 * i + 1 + 1) * 2 ^ (6 + h) = (i + 1) * 2 ^ (6 + Suc h)" "(2 * i + 2 + 2) * 2 ^ (6 + h) = (i + 2) * 2 ^ (6 + Suc h)"
    "2 * i + 1 + 2 = 2 * i + 2 + (1::nat)" unfolding add_Suc_right power_Suc2 x by simp_all
  have "(2 * i + 1 + 1) * 2 ^ (6 + h) \<le> (2 * i + 2 + 1) * (2::nat) ^ (6 + h)"
    "(2 * i + 2 + 1) * 2 ^ (6 + h) \<le> (2 * i + 2 + 2) * (2::nat) ^ (6 + h)" by (intro mult_right_mono; simp)+
  then show "span (Suc h) i = span h (2 * i + 1) \<union> span h (2 * i + 2)"
    unfolding span_def e(3) e(1,2) [symmetric] by auto
  show "span h (2 * i + 1) \<inter> span h (2 * i + 2) = {}" unfolding span_def e(3) by auto
qed

lemma blocks_span: "(t, r) \<in> blocks g h i \<Longrightarrow> span r t \<subseteq> span h i \<and> (2 * (i + 1) * 2 ^ h \<le> 2 * (t + 1) * 2 ^ r)"
proof (induction h arbitrary: i)
  case (Suc h)
  have "2 * (i + 1) * 2 ^ Suc h \<le> 2 * (2 * i + 2 + 1) * (2::nat) ^ h" by simp
  with Suc show ?case using Suc.IH [of "2 * i + 1"] Suc.IH [of "2 * i + 2"] span_children(1) [of h i]
    by (auto split: if_splits)
qed (simp split: if_splits)

lemma blocks_disjoint:
  "(t, r) \<in> blocks g h i \<Longrightarrow> (t', r') \<in> blocks g h i \<Longrightarrow> (t, r) \<noteq> (t', r') \<Longrightarrow> span r t \<inter> span r' t' = {}"
proof (induction h arbitrary: i)
  case (Suc h)
  show ?case
  proof (cases "g i = 0 \<and> g (2 * i + 1) \<noteq> 0 \<or> g i = 7 + h")
    case True
    with Suc.prems show ?thesis by (auto split: if_splits)
  next
    case False
    then have n: "\<not> (g i = 0 \<and> g (2 * i + 1) \<noteq> 0)" "g i \<noteq> 7 + h" by blast+
    have "blocks g (Suc h) i = blocks g h (2 * i + 1) \<union> blocks g h (2 * i + 2)" by (simp only: blocks.simps n if_False)
    with Suc.prems Suc.IH [of "2 * i + 1"] Suc.IH [of "2 * i + 2"] blocks_span [of _ _ g h "2 * i + 1"] blocks_span [of _ _ g h "2 * i + 2"]
      span_children(2) [of h i] show ?thesis by blast
  qed
qed (auto split: if_splits)

lemma span_below:
  assumes "r \<le> h" "(t + 1) div 2 ^ (h - r) = i + (1::nat)"
  shows "span r t \<subseteq> span h i"
proof -
  let ?d = "h - r"
  have "(i + 1) * 2 ^ ?d \<le> t + 1" unfolding assms(2) [symmetric] by (rule div_times_less_eq_dividend)
  moreover have "t + 1 < (t + 1) div 2 ^ ?d * 2 ^ ?d + 2 ^ ?d" using dividend_less_div_times [of "2 ^ ?d" "t + 1"] by simp
  then have "t + 2 \<le> (i + 2) * 2 ^ ?d" unfolding assms(2) by simp
  ultimately have "(i + 1) * 2 ^ ?d * 2 ^ (6 + r) \<le> (t + 1) * 2 ^ (6 + r)" "(t + 2) * 2 ^ (6 + r) \<le> (i + 2) * 2 ^ ?d * 2 ^ (6 + r)"
    by (intro mult_right_mono; simp)+
  moreover have "2 ^ ?d * 2 ^ (6 + r) = (2::nat) ^ (6 + h)" using assms(1) by (simp add: power_add [symmetric])
  then have "x * 2 ^ ?d * 2 ^ (6 + r) = x * 2 ^ (6 + h)" for x :: nat by (simp only: mult.assoc)
  ultimately have "(i + 1) * 2 ^ (6 + h) \<le> (t + 1) * 2 ^ (6 + r)" "(t + 2) * 2 ^ (6 + r) \<le> (i + 2) * 2 ^ (6 + h)" by (simp_all only:)
  then show ?thesis unfolding span_def ivl_subset by blast
qed

text \<open>A free aligned place is found by the root.\<close>

lemma room_seen:
  "tree_ok g h i \<Longrightarrow> r \<le> h \<Longrightarrow> (t + 1) div 2 ^ (h - r) = i + 1 \<Longrightarrow> \<forall>(u, q)\<in>blocks g h i. span q u \<inter> span r t = {} \<Longrightarrow> 6 + r \<le> g i"
proof (induction h arbitrary: i)
  case 0
  then have "t = i" "r = 0" by simp_all
  with 0 show ?case by (auto simp: span_def split: if_splits)
next
  case (Suc h)
  have ne: "span q u \<noteq> {}" for q u by (simp add: span_def)
  show ?case
  proof (cases "fresh g (Suc h) i")
    case True
    then have "g i = 6 + Suc h" using fresh_ok by blast
    then show ?thesis using Suc.prems(2) by simp
  next
    case nf: False
    show ?thesis
    proof (cases "r = Suc h")
      case True
      then have "t = i" using Suc.prems(3) by simp
      have "blocks g (Suc h) i \<noteq> {}" using nf blocks_empty [OF Suc.prems(1)] by blast
      then obtain u q where b: "(u, q) \<in> blocks g (Suc h) i" by fastforce
      then have "span q u \<subseteq> span r t" using blocks_span [OF b] True \<open>t = i\<close> by blast
      with b Suc.prems(4) ne show ?thesis by fastforce
    next
      case False
      then have r: "r \<le> h" "Suc h - r = Suc (h - r)" using Suc.prems(2) by simp_all
      have "\<not> (g i = 0 \<and> g (2 * i + 1) \<noteq> 0)"
      proof
        assume "g i = 0 \<and> g (2 * i + 1) \<noteq> 0"
        then have "(i, Suc h) \<in> blocks g (Suc h) i" by simp
        moreover have "span r t \<subseteq> span (Suc h) i" using span_below Suc.prems(2,3) by blast
        ultimately show False using Suc.prems(4) ne [of r t] by fastforce
      qed
      note sp = blocks_split [OF Suc.prems(1) nf this]
      have "(t + 1) div 2 ^ (h - r) div 2 = i + 1" using Suc.prems(3) unfolding r(2) by (simp add: div_mult2_eq power_Suc2 del: power_Suc)
      then consider "(t + 1) div 2 ^ (h - r) = 2 * i + 1 + 1" | "(t + 1) div 2 ^ (h - r) = 2 * i + 2 + 1" by linarith
      then show ?thesis
      proof cases
        case 1
        have "6 + r \<le> g (2 * i + 1)" by (rule Suc.IH [OF sp(1) r(1) 1]) (use Suc.prems(4) sp(4) in blast)
        then show ?thesis using sp(3) by simp
      next
        case 2
        have "6 + r \<le> g (2 * i + 2)" by (rule Suc.IH [OF sp(2) r(1) 2]) (use Suc.prems(4) sp(4) in blast)
        then show ?thesis using sp(3) by simp
      qed
    qed
  qed
qed

lemma root_range: "(0 + 2) * 2 ^ 10 \<le> LONGEST_SIZE"
  by (simp add: LONGEST_SIZE_def B_TOTAL_EXP_def B_BLOCK_EXP_def)

lemma block_offset:
  assumes "(t, r) \<in> blocks g 10 0"
  shows "65536 \<le> (t + 1) * 2 ^ (6 + r)" "(t + 2) * 2 ^ (6 + r) \<le> 131072"
    "fst (offset_of (t, r)) = (t + 1) * 2 ^ (6 + r) - 65536" "snd (offset_of (t, r)) = 6 + r"
    "x \<in> bytes (offset_of (t, r)) \<longleftrightarrow> x + 65536 \<in> span r t"
proof -
  have "span r t \<subseteq> span 10 0" using blocks_span [OF assms] by blast
  then have "{(t + 1) * 2 ^ (6 + r)..<(t + 2) * 2 ^ (6 + r)} \<subseteq> {65536..<131072}" by (simp add: span_def)
  then show b: "65536 \<le> (t + 1) * 2 ^ (6 + r)" "(t + 2) * 2 ^ (6 + r) \<le> 131072" by (auto simp: ivl_subset)
  show o: "fst (offset_of (t, r)) = (t + 1) * 2 ^ (6 + r) - 65536" "snd (offset_of (t, r)) = 6 + r"
    by (simp_all add: offset_of_def B_TOTAL_EXP_def)
  have "(t + 2) * 2 ^ (6 + r) = (t + 1) * 2 ^ (6 + r) + (2::nat) ^ (6 + r)" by (simp add: algebra_simps)
  then show "x \<in> bytes (offset_of (t, r)) \<longleftrightarrow> x + 65536 \<in> span r t"
    unfolding bytes_def span_def o using b(1) by auto
qed

lemma block_at:
  assumes "buddy_ok s" "(t, r) \<in> blocks (longest s) 10 0"
  shows "block_node (longest s) (fst (offset_of (t, r))) = Inr (t, 6 + r)"
proof -
  have "(t + 1) * 2 ^ (6 + r) = 64 * ((t + 1) * 2 ^ r)" by (simp add: power_add)
  then have "fst (offset_of (t, r)) div 64 + 1024 - 1 = (t + 1) * 2 ^ r - 1" "1024 \<le> (t + 1) * 2 ^ r"
    using block_offset(1,3) [OF assms(2)] by simp_all
  then have "block_node (longest s) (fst (offset_of (t, r))) = free_search (longest s) ((t + 1) * 2 ^ r - 1) 6"
    by (simp add: block_node_def B_BLOCK_EXP_def B_TOTAL_EXP_def)
  then show ?thesis using block_found [OF _ assms(2) root_range] assms(1) by (simp add: buddy_ok_def)
qed

lemma offset_inj: "inj_on offset_of (blocks g 10 0)"
proof (rule inj_onI)
  fix x y assume b: "x \<in> blocks g 10 0" "y \<in> blocks g 10 0" "offset_of x = offset_of y"
  obtain t r u q where e: "x = (t, r)" "y = (u, q)" by fastforce
  note bx = block_offset(1-4) [OF b(1) [unfolded e]] and bb = block_offset(1-4) [OF b(2) [unfolded e]]
  have "r = q" using bx(4) bb(4) b(3) e by simp
  moreover have "(t + 1) * 2 ^ (6 + r) = (u + 1) * 2 ^ (6 + q)" using bx(1,3) bb(1,3) b(3) e by simp
  ultimately show "x = y" using e by simp
qed

lemma allocs_disjoint:
  assumes "b \<in> allocs s" "b' \<in> allocs s" "b \<noteq> b'"
  shows "bytes b \<inter> bytes b' = {}"
proof -
  from assms(1,2) obtain t r u q where e: "b = offset_of (t, r)" "b' = offset_of (u, q)"
    "(t, r) \<in> blocks (longest s) 10 0" "(u, q) \<in> blocks (longest s) 10 0" by (auto simp: allocs_def)
  with assms(3) have "span r t \<inter> span q u = {}" using blocks_disjoint by blast
  then show ?thesis using block_offset(5) [OF e(3)] block_offset(5) [OF e(4)] e(1,2) by blast
qed

text \<open>Initially everything is free.\<close>

lemma power_of_2_iff:
  assumes "2 ^ d \<le> j" "j < 2 ^ Suc d"
  shows "is_power_of_2 j \<longleftrightarrow> j = 2 ^ d"
proof (cases "j = 2 ^ d")
  case True
  have "2 ^ d AND (2 ^ d - 1) = take_bit d (2 ^ d :: nat)" by (simp add: take_bit_eq_mask mask_eq_exp_minus_1)
  then show ?thesis using True by (simp add: is_power_of_2_def)
next
  case False
  then have "2 ^ d \<le> j - 1" "j - 1 < 2 ^ Suc d" using assms by simp_all
  then have "j div 2 ^ d = 1" "(j - 1) div 2 ^ d = 1" using assms by (auto intro!: div_nat_eqI)
  then have "bit j d" "bit (j - 1) d" by (simp_all add: bit_iff_odd)
  then have "bit (j AND (j - 1)) d" by (simp only: bit_and_iff)
  then have "j AND (j - 1) \<noteq> 0" by (intro notI) (simp del: One_nat_def)
  with False show ?thesis by (simp add: is_power_of_2_def)
qed

lemma init_fold:
  "\<exists>d g. fold init_step [0..<n] (16, g0) = (16 - d, g) \<and> 2 ^ d \<le> n + 1 \<and> n + 1 < 2 ^ Suc d
     \<and> (\<forall>j c. j < n \<longrightarrow> 2 ^ c \<le> j + 1 \<longrightarrow> j + 1 < 2 ^ Suc c \<longrightarrow> g j = 16 - c)"
proof (induction n)
  case 0
  show ?case by (intro exI [of _ 0] exI [of _ g0]) simp
next
  case (Suc n)
  then obtain d g where f: "fold init_step [0..<n] (16, g0) = (16 - d, g)" "2 ^ d \<le> n + 1" "n + 1 < 2 ^ Suc d"
    and g: "\<forall>j c. j < n \<longrightarrow> 2 ^ c \<le> j + 1 \<longrightarrow> j + 1 < 2 ^ Suc c \<longrightarrow> g j = 16 - c" by blast
  have u: "c = d" if "2 ^ c \<le> n + 1" "n + 1 < 2 ^ Suc c" for c
  proof -
    have "(2::nat) ^ c < 2 ^ Suc d" "(2::nat) ^ d < 2 ^ Suc c" using that f(2,3) by linarith+
    then show ?thesis by (simp add: power_strict_increasing_iff del: power_Suc)
  qed
  have g': "\<forall>j c. j < Suc n \<longrightarrow> 2 ^ c \<le> j + 1 \<longrightarrow> j + 1 < 2 ^ Suc c \<longrightarrow> (g(n := 16 - d)) j = 16 - c"
    using g u by (auto simp: less_Suc_eq)
  show ?case
  proof (cases "n + 2 = 2 ^ Suc d")
    case True
    then have "is_power_of_2 (n + 2)" using power_of_2_iff [of "Suc d" "n + 2"] by simp
    then have "fold init_step [0..<Suc n] (16, g0) = (16 - Suc d, g(n := 16 - d))" using f(1) by simp (simp add: init_step_def)
    moreover have "2 ^ Suc d \<le> Suc n + 1" "Suc n + 1 < 2 ^ Suc (Suc d)" using True by simp_all
    ultimately show ?thesis using g' by blast
  next
    case False
    then have "\<not> is_power_of_2 (n + 2)" using power_of_2_iff [of d "n + 2"] f(2,3) by auto
    then have "fold init_step [0..<Suc n] (16, g0) = (16 - d, g(n := 16 - d))" using f(1) by simp (simp add: init_step_def)
    moreover have "2 ^ d \<le> Suc n + 1" "Suc n + 1 < 2 ^ Suc d" using False f(2,3) by simp_all
    ultimately show ?thesis using g' by blast
  qed
qed

lemma init_fresh:
  assumes "\<forall>j c. j < LONGEST_SIZE \<longrightarrow> 2 ^ c \<le> j + 1 \<longrightarrow> j + 1 < 2 ^ Suc c \<longrightarrow> g j = 16 - c"
  shows "2 ^ c \<le> i + 1 \<Longrightarrow> i + 1 < 2 ^ Suc c \<Longrightarrow> c + h = 10 \<Longrightarrow> fresh g h i"
proof (induction h arbitrary: i c)
  case 0
  then have "i < LONGEST_SIZE" "c = 10" by (auto simp: LONGEST_SIZE_def B_TOTAL_EXP_def B_BLOCK_EXP_def)
  then have "g i = 16 - 10" using assms 0(1,2) by blast
  then show ?case by simp
next
  case (Suc h)
  have "(2::nat) ^ Suc c \<le> 2 ^ 10" using Suc.prems(3) by (intro power_increasing) simp_all
  then have "g i = 16 - c" using assms Suc.prems(1,2) by (simp add: LONGEST_SIZE_def B_TOTAL_EXP_def B_BLOCK_EXP_def)
  then have "g i = 7 + h" using Suc.prems(3) by simp
  moreover have "fresh g h (2 * i + 1)" "fresh g h (2 * i + 2)" using Suc.prems by (auto intro!: Suc.IH [of "Suc c"])
  ultimately show ?case by simp
qed

lemma buddy_init_ok: "buddy_ok (buddy_init s) \<and> allocs (buddy_init s) = {}"
proof -
  from init_fold [of LONGEST_SIZE "longest s"] obtain d g where "fold init_step [0..<LONGEST_SIZE] (16, longest s) = (16 - d, g)"
    "\<forall>j c. j < LONGEST_SIZE \<longrightarrow> 2 ^ c \<le> j + 1 \<longrightarrow> j + 1 < 2 ^ Suc c \<longrightarrow> g j = 16 - c" by blast
  then have "fresh (longest (buddy_init s)) 10 0" using init_fresh [of g 0 0 10] by (simp add: buddy_init_def B_TOTAL_EXP_def)
  with fresh_ok show ?thesis unfolding buddy_ok_def allocs_def by blast
qed

subsection \<open>The properties\<close>

lemma malloc_cases:
  assumes "buddy_ok s" "6 \<le> e" "e \<le> 16"
  obtains "buddy_malloc e s = Inr (None, s)" "longest s 0 < e"
  | t g' where "buddy_malloc e s = Inr (Some (fst (offset_of (t, e - 6))), s\<lparr>longest := g'\<rparr>)" "tree_ok g' 10 0"
      "\<forall>j. j \<notin> sub 10 0 \<longrightarrow> g' j = longest s j" "blocks g' 10 0 = insert (t, e - 6) (blocks (longest s) 10 0)"
      "(t, e - 6) \<notin> blocks (longest s) 10 0"
proof (cases "longest s 0 < e")
  case True
  then show thesis using that(1) by (simp add: buddy_malloc_def)
next
  case False
  have e: "6 + (e - 6) = e" "e - 6 \<le> 10" using assms(2,3) by simp_all
  from malloc_sub [of "longest s" 10 0 "e - 6"] assms(1) e False root_range obtain t g' where
    1: "buddy_search (longest s) e 16 0 = Inr (t, e)" "t \<in> sub 10 0" "buddy_update t ((longest s)(t := 0)) = buddy_update 0 g'"
      "tree_ok g' 10 0" "\<forall>j. j \<notin> sub 10 0 \<longrightarrow> g' j = longest s j" "blocks g' 10 0 = insert (t, e - 6) (blocks (longest s) 10 0)"
      "(t, e - 6) \<notin> blocks (longest s) 10 0" by (auto simp: buddy_ok_def simp del: tree_ok.simps blocks.simps sub.simps)
  have "(t, e - 6) \<in> blocks g' 10 0" using 1(6) by blast
  note bo = block_offset(3) [OF this]
  have "t < LONGEST_SIZE"
  proof -
    have "(t + 2) * 2 ^ (6 + (e - 6)) \<le> 131072" using block_offset(2) [OF \<open>(t, e - 6) \<in> blocks g' 10 0\<close>] .
    moreover have "(t + 2) * 2 ^ 6 \<le> (t + 2) * (2::nat) ^ (6 + (e - 6))" by (intro mult_left_mono power_increasing) simp_all
    ultimately show ?thesis by (simp add: LONGEST_SIZE_def B_TOTAL_EXP_def B_BLOCK_EXP_def)
  qed
  then have "buddy_malloc e s = Inr (Some (fst (offset_of (t, e - 6))), s\<lparr>longest := g'\<rparr>)"
    using False 1(1,3) bo e(1) by (simp add: buddy_malloc_def B_TOTAL_EXP_def buddy_update.simps [of 0])
  then show thesis using that(2) 1(4-7) by blast
qed

lemma malloc_exact:
  assumes "buddy_ok s" "6 \<le> e" "e \<le> 16"
  shows "\<exists>p s'. buddy_malloc e s = Inr (p, s') \<and> buddy_ok s' \<and> base_mem s' = base_mem s
    \<and> (case p of
         None \<Rightarrow> s' = s \<and> (\<forall>k<2 ^ (16 - e). \<exists>b\<in>allocs s. bytes b \<inter> {k * 2 ^ e..<(k + 1) * 2 ^ e} \<noteq> {})
       | Some off \<Rightarrow> 2 ^ e dvd off \<and> off + 2 ^ e \<le> 2 ^ 16 \<and> allocs s' = insert (off, e) (allocs s)
           \<and> (\<forall>b\<in>allocs s. bytes b \<inter> bytes (off, e) = {}))"
  using assms
proof (cases rule: malloc_cases)
  case 1
  let ?r = "e - 6"
  have e: "6 + ?r = e" "?r \<le> 10" using assms(2,3) by simp_all
  have "\<exists>b\<in>allocs s. bytes b \<inter> {k * 2 ^ e..<(k + 1) * 2 ^ e} \<noteq> {}" if k: "k < 2 ^ (16 - e)" for k
  proof -
    define t where "t = 2 ^ (10 - ?r) + k - 1"
    have p: "10 - ?r = 16 - e" "(2::nat) ^ (16 - e) * 2 ^ e = 65536" using assms(2,3) by (simp_all add: power_add [symmetric])
    have t: "t + 1 = 2 ^ (16 - e) + k" by (simp add: t_def p(1))
    then have "(t + 1) div 2 ^ (10 - ?r) = 0 + 1" using k unfolding p(1) by (simp add: div_nat_eqI)
    with room_seen [of "longest s" 10 0 ?r t] 1(2) assms(1) e obtain u q where
      b: "(u, q) \<in> blocks (longest s) 10 0" "span q u \<inter> span ?r t \<noteq> {}" by (fastforce simp: buddy_ok_def)
    have "(t + 1) * 2 ^ e = 65536 + k * 2 ^ e" "(t + 2) * 2 ^ e = 65536 + (k + 1) * 2 ^ e"
      using t p(2) by (simp_all add: add_mult_distrib)
    then have "span ?r t = {65536 + k * 2 ^ e..<65536 + (k + 1) * 2 ^ e}" unfolding span_def e(1) by (simp only:)
    with b(2) obtain x where "x \<in> span q u" "65536 + k * 2 ^ e \<le> x" "x < 65536 + (k + 1) * 2 ^ e" by auto
    then have "x - 65536 \<in> bytes (offset_of (u, q)) \<inter> {k * 2 ^ e..<(k + 1) * 2 ^ e}"
      using block_offset(5) [OF b(1), of "x - 65536"] by auto
    with b(1) show ?thesis unfolding allocs_def by blast
  qed
  with 1 assms(1) show ?thesis by auto
next
  case (2 t g')
  let ?r = "e - 6"
  have e: "6 + ?r = e" using assms(2) by simp
  have b: "(t, ?r) \<in> blocks g' 10 0" using 2(4) by blast
  note bo = block_offset [OF b, unfolded e]
  let ?off = "fst (offset_of (t, ?r))"
  have o: "offset_of (t, ?r) = (?off, e)" using bo(4) by (simp add: prod_eq_iff)
  have "(t + 2) * 2 ^ e = (t + 1) * 2 ^ e + (2::nat) ^ e" by (simp add: algebra_simps)
  then have "?off + 2 ^ e \<le> 2 ^ 16" using bo(1,2,3) by simp
  moreover have "(2::nat) ^ e dvd 65536" using le_imp_power_dvd [of e 16 "2::nat"] assms(3) by simp
  then have "2 ^ e dvd ?off" unfolding bo(3) by (intro dvd_diff_nat) simp_all
  moreover have a: "allocs (s\<lparr>longest := g'\<rparr>) = insert (?off, e) (allocs s)" using 2(4) o by (simp add: allocs_def)
  moreover have "bytes x \<inter> bytes (?off, e) = {}" if "x \<in> allocs s" for x
  proof -
    from that obtain u q where x: "x = offset_of (u, q)" "(u, q) \<in> blocks (longest s) 10 0" by (auto simp: allocs_def)
    then have "(u, q) \<in> blocks g' 10 0" "(u, q) \<noteq> (t, ?r)" using 2(4,5) by blast+
    with b offset_inj [of g'] have "x \<noteq> (?off, e)" using x(1) o by (metis inj_onD)
    then show ?thesis using allocs_disjoint [of x "s\<lparr>longest := g'\<rparr>" "(?off, e)"] that a by blast
  qed
  ultimately show ?thesis using 2(1,2) by (auto simp: buddy_ok_def)
qed

lemma free_exact:
  assumes "buddy_ok s" "(t, r) \<in> blocks (longest s) 10 0"
  shows "\<exists>g'. buddy_free (fst (offset_of (t, r))) s = Inr (2 ^ (6 + r), s\<lparr>longest := g'\<rparr>) \<and> tree_ok g' 10 0
    \<and> (\<forall>j. j \<notin> sub 10 0 \<longrightarrow> g' j = longest s j) \<and> blocks g' 10 0 = blocks (longest s) 10 0 - {(t, r)}"
proof -
  from free_sub [OF _ assms(2) root_range] assms(1) obtain g' where
    "free_update t (6 + r) ((longest s)(t := 6 + r)) = free_update 0 (6 + 10) g'" "tree_ok g' 10 0"
    "\<forall>j. j \<notin> sub 10 0 \<longrightarrow> g' j = longest s j" "blocks g' 10 0 = blocks (longest s) 10 0 - {(t, r)}"
    by (auto simp: buddy_ok_def simp del: tree_ok.simps blocks.simps sub.simps)
  with block_at [OF assms] show ?thesis by (auto simp: buddy_free_def free_update.simps [of 0])
qed

text \<open>C24: Allocation from a buddy system is exact. buddy_malloc for a size of 2 to the e bytes ends and
  keeps the tree in order and the memory as it is; it gives an aligned block inside the memory
  that shares no byte with an allocated block, and the allocated blocks are then the old ones and
  it; it gives none only when every aligned place of that size holds an allocated byte.
\<close>

theorem buddy_malloc_exact:
  assumes "buddy_ok s" "6 \<le> e" "e \<le> 16"
  shows "\<exists>p s'. buddy_malloc e s = Inr (p, s') \<and> buddy_ok s' \<and> base_mem s' = base_mem s
    \<and> (case p of
         None \<Rightarrow> s' = s \<and> (\<forall>k<2 ^ (16 - e). \<exists>b\<in>allocs s. bytes b \<inter> {k * 2 ^ e..<(k + 1) * 2 ^ e} \<noteq> {})
       | Some off \<Rightarrow> 2 ^ e dvd off \<and> off + 2 ^ e \<le> 2 ^ 16 \<and> allocs s' = insert (off, e) (allocs s)
           \<and> (\<forall>b\<in>allocs s. bytes b \<inter> bytes (off, e) = {}))"
  by (rule malloc_exact [OF assms])

definition example_buddy :: buddy_state where
  "example_buddy = buddy_init \<lparr>longest = (\<lambda>_. 0), base_mem = (\<lambda>_. 0), dirty = replicate 17 0\<rparr>"

theorem buddy_malloc_exact_witness:
  "\<exists>off s'. buddy_malloc 7 example_buddy = Inr (Some off, s') \<and> allocs s' = {(off, 7)} \<and> off + 128 \<le> 65536"
proof -
  have "buddy_ok example_buddy" "allocs example_buddy = {}" using buddy_init_ok by (simp_all add: example_buddy_def)
  with buddy_malloc_exact [of example_buddy 7] show ?thesis by (fastforce split: option.splits)
qed

lemma free_block:
  assumes "buddy_ok s" "(off, e) \<in> allocs s"
  shows "\<exists>s'. buddy_free off s = Inr (2 ^ e, s') \<and> buddy_ok s' \<and> base_mem s' = base_mem s \<and> allocs s' = allocs s - {(off, e)}"
proof -
  obtain t r where b: "offset_of (t, r) = (off, e)" "(t, r) \<in> blocks (longest s) 10 0" using assms(2) by (auto simp: allocs_def)
  then have e: "off = fst (offset_of (t, r))" "e = 6 + r" using block_offset(4) [OF b(2)] by simp_all
  have "offset_of ` (blocks (longest s) 10 0 - {(t, r)}) = allocs s - {(off, e)}"
    unfolding allocs_def b(1) [symmetric] using inj_on_image_set_diff [OF offset_inj [of "longest s"], of "blocks (longest s) 10 0" "{(t, r)}"] b(2)
    by simp
  with free_exact [OF assms(1) b(2)] e show ?thesis by (auto simp: buddy_ok_def allocs_def)
qed

text \<open>C31: Release is exact and undoes allocation. buddy_free of a pointer to an allocated block ends, tells
  the size of the block, keeps the tree in order and takes exactly this block from the allocated
  ones; right after the allocation of the block it restores the whole state.
\<close>

theorem buddy_free_exact:
  assumes "buddy_ok s"
  shows "((off, e) \<in> allocs s \<longrightarrow> (\<exists>s'. buddy_free off s = Inr (2 ^ e, s') \<and> buddy_ok s' \<and> base_mem s' = base_mem s
            \<and> allocs s' = allocs s - {(off, e)}))
    \<and> (6 \<le> e \<and> e \<le> 16 \<and> buddy_malloc e s = Inr (Some off, s1) \<longrightarrow> buddy_free off s1 = Inr (2 ^ e, s))"
proof (intro conjI impI)
  assume "(off, e) \<in> allocs s"
  then show "\<exists>s'. buddy_free off s = Inr (2 ^ e, s') \<and> buddy_ok s' \<and> base_mem s' = base_mem s \<and> allocs s' = allocs s - {(off, e)}"
    using free_block [OF assms] by blast
next
  assume a: "6 \<le> e \<and> e \<le> 16 \<and> buddy_malloc e s = Inr (Some off, s1)"
  then have e: "6 \<le> e" "e \<le> 16" by simp_all
  from assms e show "buddy_free off s1 = Inr (2 ^ e, s)"
  proof (cases rule: malloc_cases)
    case (2 t g')
    then have s1: "s1 = s\<lparr>longest := g'\<rparr>" "off = fst (offset_of (t, e - 6))" using a by simp_all
    have ok: "buddy_ok s1" "(t, e - 6) \<in> blocks (longest s1) 10 0" using 2(2,4) s1 by (simp_all add: buddy_ok_def)
    from free_exact [OF this] obtain g where g: "buddy_free off s1 = Inr (2 ^ e, s1\<lparr>longest := g\<rparr>)" "tree_ok g 10 0"
      "\<forall>j. j \<notin> sub 10 0 \<longrightarrow> g j = longest s1 j" "blocks g 10 0 = blocks (longest s1) 10 0 - {(t, e - 6)}"
      using e s1 by auto
    have "blocks g 10 0 = blocks (longest s) 10 0" using g(4) 2(4,5) s1 by auto
    then have "g j = longest s j" for j
      using blocks_determine [of g 10 0 "longest s" j] g(2,3) 2(3) s1 assms by (cases "j \<in> sub 10 0") (auto simp: buddy_ok_def)
    then have "g = longest s" by (rule ext)
    with g(1) s1 show ?thesis by simp
  qed (use a in simp)
qed

theorem buddy_free_exact_witness:
  "\<exists>off s1. buddy_malloc 7 example_buddy = Inr (Some off, s1) \<and> buddy_free off s1 = Inr (128, example_buddy)"
proof -
  have ok: "buddy_ok example_buddy" "allocs example_buddy = {}" using buddy_init_ok by (simp_all add: example_buddy_def)
  with malloc_exact [of example_buddy 7] obtain off s1 where m: "buddy_malloc 7 example_buddy = Inr (Some off, s1)"
    by (fastforce split: option.splits)
  with buddy_free_exact [OF ok(1), of off 7 s1] show ?thesis by simp
qed

end
