(* ===== verification/Ckpt.thy ===== *)
theory Ckpt
  imports Buddy
begin

text \<open>
  The checkpoint of a buddy system (mm/buddy/ckpt.c): the macro buddy_tree_visit, which walks
  over the tree without a stack, and the copies of the allocated blocks it makes. The memory of a
  checkpoint behind its header is a list of bytes; what is read outside it is a fault. The copy
  of the bitmap, part of incremental checkpoints only, is left out.

  The results: the walk visits every allocated byte once and ends within \<open>VISIT_FUEL\<close> turns, and
  to restore a checkpoint gives back the tree and the allocated bytes, whatever happened since.
\<close>

subsection \<open>The walk\<close>

text \<open>The inner loop: upwards until a left child is left.\<close>

function visit_up :: "nat \<Rightarrow> nat \<Rightarrow> nat \<times> nat" where
  "visit_up i l = (if even i then visit_up (buddy_parent i) (l + 1) else (buddy_parent i, l + 1))"
  by pat_completeness auto
termination
proof (relation "measure (\<lambda>(i, _). if even i then Suc i else 0)")
  fix i l :: nat
  assume "even i"
  moreover have "buddy_parent i < i" if "2 ^ 64 \<le> i"
  proof -
    have "buddy_parent i < 2 ^ 64" by (auto simp: buddy_parent_def intro: le_less_trans [OF diff_le_self] le_less_trans [OF div_le_dividend])
    with that show ?thesis by linarith
  qed
  ultimately show "((buddy_parent i, l + 1), i, l) \<in> measure (\<lambda>(i, _). if even i then Suc i else 0)"
    using parent_cases [of i] by auto
qed simp

declare visit_up.simps [simp del]

fun visit_loop :: "(nat \<Rightarrow> nat) \<Rightarrow> nat \<Rightarrow> bool \<Rightarrow> nat \<Rightarrow> nat \<Rightarrow> (nat \<times> nat) list res" where
  "visit_loop g 0 vis l i = Inl OutOfFuel"
| "visit_loop g (Suc fuel) vis l i =
     bindR (longest_get g i) (\<lambda>lon.
       if lon \<noteq> 0 \<and> lon \<noteq> l then visit_loop g fuel False (l - 1) (buddy_left_child i + (if vis then 1 else 0))
       else
         let out = (if lon = 0 then [((i + 1) * 2 ^ l - 2 ^ B_TOTAL_EXP, 2 ^ l)] else []);
             (i, l) = visit_up i l
         in if l > B_TOTAL_EXP then Inr out
            else bindR (visit_loop g fuel True l i) (\<lambda>rest. Inr (out @ rest)))"

definition VISIT_FUEL :: nat where "VISIT_FUEL = 4096"

definition buddy_tree_visit :: "(nat \<Rightarrow> nat) \<Rightarrow> (nat \<times> nat) list res" where
  "buddy_tree_visit g = visit_loop g VISIT_FUEL False B_TOTAL_EXP 0"

subsection \<open>Checkpoints\<close>

record buddy_checkpoint =
  orig :: nat
  ck_longest :: "nat \<Rightarrow> nat"
  ck_mem :: "u8 list"

definition checkpoint_full_take :: "nat \<Rightarrow> buddy_state \<Rightarrow> buddy_checkpoint res" where
  "checkpoint_full_take self s =
     bindR (buddy_tree_visit (longest s)) (\<lambda>vs.
       Inr \<lparr>orig = self, ck_longest = longest s, ck_mem = concat (map (\<lambda>(offset, len). map (base_mem s) [offset..<offset + len]) vs)\<rparr>)"

definition copy_from_ckp :: "u8 list \<Rightarrow> nat \<times> nat \<Rightarrow> nat \<times> (nat \<Rightarrow> u8) \<Rightarrow> (nat \<times> (nat \<Rightarrow> u8)) res" where
  "copy_from_ckp ck = (\<lambda>(offset, len) (ptr, mem).
     bindR (guardR (ptr + len \<le> length ck) OutOfBounds) (\<lambda>_.
       Inr (ptr + len, \<lambda>x. if offset \<le> x \<and> x < offset + len then ck ! (ptr + (x - offset)) else mem x)))"

text \<open>None: the checkpoint is one of another buddy system.\<close>

definition checkpoint_full_restore :: "nat \<Rightarrow> buddy_state \<Rightarrow> buddy_checkpoint \<Rightarrow> buddy_state option res" where
  "checkpoint_full_restore self s ckp =
     (if orig ckp \<noteq> self then Inr None
      else
        bindR (buddy_tree_visit (ck_longest ckp)) (\<lambda>vs.
        bindR (foldR (copy_from_ckp (ck_mem ckp)) vs (0, base_mem s)) (\<lambda>(_, mem).
          Inr (Some (s\<lparr>longest := ck_longest ckp, base_mem := mem\<rparr>)))))"

subsection \<open>The walk is the recursion over the tree\<close>

fun visits :: "(nat \<Rightarrow> nat) \<Rightarrow> nat \<Rightarrow> nat \<Rightarrow> (nat \<times> nat) list" where
  "visits g 0 i = (if g i = 0 then [(i, 0)] else [])"
| "visits g (Suc h) i = (if g i = 0 then [(i, Suc h)] else if g i = 7 + h then []
     else visits g h (2 * i + 1) @ visits g h (2 * i + 2))"

definition place :: "nat \<times> nat \<Rightarrow> nat \<times> nat" where
  "place = (\<lambda>(i, h). ((i + 1) * 2 ^ (6 + h) - 2 ^ B_TOTAL_EXP, 2 ^ (6 + h)))"

text \<open>What comes after the subtree of a node.\<close>

definition visit_rest :: "(nat \<Rightarrow> nat) \<Rightarrow> nat \<Rightarrow> nat \<Rightarrow> nat \<Rightarrow> (nat \<times> nat) list res" where
  "visit_rest g fuel l i =
     (case visit_up i l of (i, l) \<Rightarrow> if l > B_TOTAL_EXP then Inr [] else visit_loop g fuel True l i)"

lemma visit_step:
  "i < LONGEST_SIZE \<Longrightarrow> visit_loop g (Suc fuel) vis l i =
     (if g i \<noteq> 0 \<and> g i \<noteq> l then visit_loop g fuel False (l - 1) (2 * i + 1 + (if vis then 1 else 0))
      else bindR (visit_rest g fuel l i) (\<lambda>rest. Inr ((if g i = 0 then [((i + 1) * 2 ^ l - 2 ^ B_TOTAL_EXP, 2 ^ l)] else []) @ rest)))"
  by (auto simp: visit_rest_def Let_def buddy_left_child_def split: prod.splits)

declare visit_loop.simps(2) [simp del]

lemma up_left: "2 * i + 2 < LONGEST_SIZE \<Longrightarrow> visit_up (2 * i + 1) l = (i, l + 1)"
  using parent_child(1) [of i] by (subst visit_up.simps) simp

lemma up_right: "2 * i + 2 < LONGEST_SIZE \<Longrightarrow> visit_up (2 * i + 2) l = visit_up i (l + 1)"
  using parent_child(2) [of i] by (subst visit_up.simps) simp

lemma walk_subtree:
  "tree_ok g h i \<Longrightarrow> (i + 2) * 2 ^ h \<le> LONGEST_SIZE \<Longrightarrow> i < LONGEST_SIZE \<Longrightarrow> 6 + h \<le> 16 \<Longrightarrow>
   \<exists>n\<le>3 * 2 ^ h - 2. n > 0 \<and> (\<forall>fuel. visit_loop g (n + fuel) False (6 + h) i
     = bindR (visit_rest g fuel (6 + h) i) (\<lambda>rest. Inr (map place (visits g h i) @ rest)))"
proof (induction h arbitrary: i)
  case 0
  then show ?case
    by (intro exI [of _ 1]) (auto simp: visit_step place_def)
next
  case (Suc h)
  note rg = range_child [OF Suc.prems(2)]
  show ?case
  proof (cases "g i = 0 \<or> g i = 7 + h")
    case True
    have "(1::nat) \<le> 2 ^ h" by simp
    then have "1 \<le> 3 * 2 ^ Suc h - (2::nat)" unfolding power_Suc by linarith
    with True Suc.prems show ?thesis
      by (intro exI [of _ 1]) (auto simp: visit_step place_def)
  next
    case False
    then have c: "tree_ok g h (2 * i + 1)" "tree_ok g h (2 * i + 2)" using Suc.prems(1) by auto
    have le: "6 + h \<le> 16" "2 * i + 1 < LONGEST_SIZE" "2 * i + 2 < LONGEST_SIZE" using Suc.prems(4) rg by simp_all
    from Suc.IH [OF c(1) _ le(2,1)] rg obtain n where n: "n \<le> 3 * 2 ^ h - 2" "n > 0" "\<And>fuel. visit_loop g (n + fuel) False (6 + h) (2 * i + 1)
      = bindR (visit_rest g fuel (6 + h) (2 * i + 1)) (\<lambda>rest. Inr (map place (visits g h (2 * i + 1)) @ rest))" by blast
    from Suc.IH [OF c(2) _ le(3,1)] rg obtain m where m: "m \<le> 3 * 2 ^ h - 2" "m > 0" "\<And>fuel. visit_loop g (m + fuel) False (6 + h) (2 * i + 2)
      = bindR (visit_rest g fuel (6 + h) (2 * i + 2)) (\<lambda>rest. Inr (map place (visits g h (2 * i + 2)) @ rest))" by blast
    have s: "visit_loop g (Suc f) vis (6 + Suc h) i = visit_loop g f False (6 + h) (2 * i + 1 + (if vis then 1 else 0))" for f vis
      using False Suc.prems(3) by (subst visit_step) simp_all
    have r1: "visit_rest g f (6 + h) (2 * i + 1) = visit_loop g f True (6 + Suc h) i" for f
      using up_left [OF le(3)] Suc.prems(4) by (simp add: visit_rest_def B_TOTAL_EXP_def)
    have r2: "visit_rest g f (6 + h) (2 * i + 2) = visit_rest g f (6 + Suc h) i" for f
      using up_right [OF le(3)] by (simp add: visit_rest_def)
    have "visit_loop g ((2 + n + m) + fuel) False (6 + Suc h) i
      = bindR (visit_rest g fuel (6 + Suc h) i) (\<lambda>rest. Inr (map place (visits g (Suc h) i) @ rest))" for fuel
    proof -
      have "(2 + n + m) + fuel = Suc (n + Suc (m + fuel))" by simp
      then have "visit_loop g ((2 + n + m) + fuel) False (6 + Suc h) i = visit_loop g (n + Suc (m + fuel)) False (6 + h) (2 * i + 1)"
        by (simp only: s if_False add_0_right)
      also have "\<dots> = bindR (visit_loop g (m + fuel) False (6 + h) (2 * i + 2)) (\<lambda>rest. Inr (map place (visits g h (2 * i + 1)) @ rest))"
        unfolding n(3) r1 s by simp
      also have "\<dots> = bindR (visit_rest g fuel (6 + Suc h) i) (\<lambda>rest. Inr (map place (visits g (Suc h) i) @ rest))"
        unfolding m(3) r2 using False by (simp add: bindR_assoc)
      finally show ?thesis .
    qed
    moreover have "2 + n + m \<le> 3 * 2 ^ Suc h - 2" using n(1,2) m(1,2) by simp
    ultimately show ?thesis by (intro exI [of _ "2 + n + m"]) simp
  qed
qed

lemma walk_tree:
  assumes "tree_ok g 10 0"
  shows "buddy_tree_visit g = Inr (map place (visits g 10 0))"
proof -
  have "0 < LONGEST_SIZE" by (simp add: LONGEST_SIZE_def)
  from walk_subtree [OF assms root_range this] obtain n where n: "n \<le> 3 * 2 ^ 10 - 2"
    "\<And>fuel. visit_loop g (n + fuel) False 16 0 = bindR (visit_rest g fuel 16 0) (\<lambda>rest. Inr (map place (visits g 10 0) @ rest))" by auto
  have "visit_up 0 16 = (2 ^ 64 - 1, 18)"
    by (subst visit_up.simps, subst visit_up.simps) (simp add: buddy_parent_def)
  then have "visit_rest g fuel 16 0 = Inr []" for fuel by (simp add: visit_rest_def B_TOTAL_EXP_def)
  then show ?thesis using n(2) [of "VISIT_FUEL - n"] n(1) by (simp add: buddy_tree_visit_def VISIT_FUEL_def B_TOTAL_EXP_def)
qed

subsection \<open>What is copied\<close>

lemma full_span: "tree_ok g h i \<Longrightarrow> g i = 0 \<Longrightarrow> (\<Union>(t, r)\<in>blocks g h i. span r t) = span h i"
proof (induction h arbitrary: i)
  case (Suc h)
  show ?case
  proof (cases "g (2 * i + 1) = 0")
    case True
    then have "tree_ok g h (2 * i + 1)" "tree_ok g h (2 * i + 2)" "g (2 * i + 2) = 0" using Suc.prems fresh_ok [of g h "2 * i + 1"] by auto
    with Suc.IH [of "2 * i + 1"] Suc.IH [of "2 * i + 2"] True Suc.prems(2) span_children(1) [of h i] show ?thesis by simp
  qed (use Suc.prems in simp)
qed simp

lemma visits_span: "tree_ok g h i \<Longrightarrow> (\<Union>(t, r)\<in>set (visits g h i). span r t) = (\<Union>(t, r)\<in>blocks g h i. span r t)"
proof (induction h arbitrary: i)
  case (Suc h)
  show ?case
  proof (cases "g i = 0 \<or> g i = 7 + h")
    case True
    show ?thesis
    proof (cases "g i = 0")
      case True
      then have "visits g (Suc h) i = [(i, Suc h)]" by simp
      then show ?thesis unfolding full_span [OF Suc.prems True] by simp
    qed (use True in simp)
  next
    case False
    then have "tree_ok g h (2 * i + 1)" "tree_ok g h (2 * i + 2)" using Suc.prems by auto
    with Suc.IH [of "2 * i + 1"] Suc.IH [of "2 * i + 2"] False show ?thesis by simp
  qed
qed simp

lemma finite_blocks: "finite (blocks g h i)"
  by (induction h arbitrary: i) auto

lemma size_union:
  assumes "tree_ok g (Suc h) i" "\<not> (g i = 0 \<and> g (2 * i + 1) \<noteq> 0)" "g i \<noteq> 7 + h"
  shows "(\<Sum>(t, r)\<in>blocks g (Suc h) i. f r) = (\<Sum>(t, r)\<in>blocks g h (2 * i + 1). f r) + (\<Sum>(t, r)\<in>blocks g h (2 * i + 2). f r :: nat)"
proof -
  have "blocks g h (2 * i + 1) \<inter> blocks g h (2 * i + 2) = {}"
    using sub_disjoint(1) [of h i h] blocks_sub [of _ _ g h "2 * i + 1"] blocks_sub [of _ _ g h "2 * i + 2"] by fastforce
  moreover have "blocks g (Suc h) i = blocks g h (2 * i + 1) \<union> blocks g h (2 * i + 2)" by (simp only: blocks.simps assms(2,3) if_False)
  ultimately show ?thesis by (simp add: sum.union_disjoint finite_blocks)
qed

lemma visits_size:
  "tree_ok g h i \<Longrightarrow> sum_list (map (\<lambda>(t, r). 2 ^ (6 + r)) (visits g h i)) = (\<Sum>(t, r)\<in>blocks g h i. 2 ^ (6 + r) :: nat)
     \<and> (g i = 0 \<longrightarrow> (\<Sum>(t, r)\<in>blocks g h i. 2 ^ (6 + r)) = (2::nat) ^ (6 + h))"
proof (induction h arbitrary: i)
  case (Suc h)
  consider "g i = 7 + h" | "g i = 0" "g (2 * i + 1) \<noteq> 0" | "g i = 0" "g (2 * i + 1) = 0" | "g i \<noteq> 0" "g i \<noteq> 7 + h" by blast
  then show ?case
  proof cases
    case 3
    then have c: "tree_ok g h (2 * i + 1)" "tree_ok g h (2 * i + 2)" "g (2 * i + 2) = 0" using Suc.prems fresh_ok [of g h "2 * i + 1"] by auto
    have "(\<Sum>(t, r)\<in>blocks g (Suc h) i. 2 ^ (6 + r)) = (2::nat) ^ (6 + Suc h)"
    proof -
      have p: "(2::nat) ^ (6 + Suc h) = 2 ^ (6 + h) + 2 ^ (6 + h)" unfolding add_Suc_right power_Suc by (rule mult_2)
      show ?thesis unfolding p using size_union [OF Suc.prems, of "\<lambda>r. 2 ^ (6 + r)"] 3 c Suc.IH [of "2 * i + 1"] Suc.IH [of "2 * i + 2"] by simp
    qed
    then show ?thesis using 3 by simp
  next
    case 4
    then have "tree_ok g h (2 * i + 1)" "tree_ok g h (2 * i + 2)" using Suc.prems by auto
    with size_union [OF Suc.prems, of "\<lambda>r. 2 ^ (6 + r)"] 4 Suc.IH [of "2 * i + 1"] Suc.IH [of "2 * i + 2"] show ?thesis by simp
  qed simp_all
qed simp

text \<open>The bytes and the size of the allocated blocks.\<close>

definition used_bytes :: "buddy_state \<Rightarrow> nat set" where
  "used_bytes s = (\<Union>b\<in>allocs s. bytes b)"

definition used_size :: "buddy_state \<Rightarrow> nat" where
  "used_size s = (\<Sum>(off, e)\<in>allocs s. 2 ^ e)"

lemma used_bytes_span: "x \<in> used_bytes s \<longleftrightarrow> x + 65536 \<in> (\<Union>(t, r)\<in>blocks (longest s) 10 0. span r t)"
  using block_offset(5) [of _ _ "longest s" x] by (force simp: used_bytes_def allocs_def)

lemma used_size_blocks: "used_size s = (\<Sum>(t, r)\<in>blocks (longest s) 10 0. 2 ^ (6 + r))"
proof -
  have "used_size s = (\<Sum>b\<in>blocks (longest s) 10 0. case offset_of b of (off, e) \<Rightarrow> 2 ^ e)"
    unfolding used_size_def allocs_def using offset_inj [of "longest s"] by (simp add: sum.reindex)
  then show ?thesis by (simp add: offset_of_def split_beta)
qed

lemma visit_span: "(t, r) \<in> set (visits g h i) \<Longrightarrow> span r t \<subseteq> span h i"
proof (induction h arbitrary: i)
  case (Suc h)
  then show ?case using Suc.IH [of "2 * i + 1"] Suc.IH [of "2 * i + 2"] span_children(1) [of h i] by (auto split: if_splits)
qed (simp split: if_splits)

lemma visited_iff:
  assumes "buddy_ok s"
  shows "x \<in> used_bytes s \<longleftrightarrow> (\<exists>(o1, len)\<in>set (map place (visits (longest s) 10 0)). o1 \<le> x \<and> x < o1 + len)"
proof -
  have p: "(case place (t, r) of (o1, len) \<Rightarrow> o1 \<le> x \<and> x < o1 + len) \<longleftrightarrow> x + 65536 \<in> span r t"
    if "(t, r) \<in> set (visits (longest s) 10 0)" for t r
  proof -
    have "{(t + 1) * 2 ^ (6 + r)..<(t + 2) * 2 ^ (6 + r)} \<subseteq> {65536..<131072}" using visit_span [OF that] by (simp add: span_def)
    then have "65536 \<le> (t + 1) * 2 ^ (6 + r)" by (auto simp: ivl_subset)
    moreover have "(t + 2) * 2 ^ (6 + r) = (t + 1) * 2 ^ (6 + r) + (2::nat) ^ (6 + r)" by (simp add: algebra_simps)
    ultimately show ?thesis unfolding span_def place_def B_TOTAL_EXP_def by (simp only: prod.case atLeastLessThan_iff) (auto simp: le_diff_conv)
  qed
  have "x \<in> used_bytes s \<longleftrightarrow> (\<exists>(t, r)\<in>set (visits (longest s) 10 0). x + 65536 \<in> span r t)"
    unfolding used_bytes_span visits_span [OF assms [unfolded buddy_ok_def], symmetric] by auto
  also have "\<dots> \<longleftrightarrow> (\<exists>b\<in>set (visits (longest s) 10 0). case place b of (o1, len) \<Rightarrow> o1 \<le> x \<and> x < o1 + len)"
  proof (rule bex_cong [OF refl])
    fix b assume "b \<in> set (visits (longest s) 10 0)"
    then show "(case b of (t, r) \<Rightarrow> x + 65536 \<in> span r t) = (case place b of (o1, len) \<Rightarrow> o1 \<le> x \<and> x < o1 + len)"
      using p [of "fst b" "snd b"] by (simp add: split_beta)
  qed
  finally show ?thesis by simp
qed

lemma copy_back:
  assumes "ck = pre @ concat (map (\<lambda>(offset, len). map m [offset..<offset + len]) vs)" "ptr = length pre"
  shows "\<exists>ptr'. foldR (copy_from_ckp ck) vs (ptr, mem)
    = Inr (ptr', \<lambda>x. if \<exists>(offset, len)\<in>set vs. offset \<le> x \<and> x < offset + len then m x else mem x)"
  using assms
proof (induction vs arbitrary: pre ptr mem)
  case (Cons v vs)
  obtain offset len where v: "v = (offset, len)" by fastforce
  let ?b = "map m [offset..<offset + len]"
  let ?mem = "\<lambda>x. if offset \<le> x \<and> x < offset + len then ck ! (ptr + (x - offset)) else mem x"
  have ck: "ck = (pre @ ?b) @ concat (map (\<lambda>(offset, len). map m [offset..<offset + len]) vs)" using Cons.prems(1) v by simp
  then have "ck ! (ptr + (x - offset)) = m x" if "offset \<le> x" "x < offset + len" for x
  proof -
    have "x - offset < len" "offset + (x - offset) = x" using that by simp_all
    then have "?b ! (x - offset) = m x" by simp
    with \<open>x - offset < len\<close> show ?thesis unfolding ck using Cons.prems(2) by (simp add: nth_append)
  qed
  then have m: "?mem = (\<lambda>x. if offset \<le> x \<and> x < offset + len then m x else mem x)" by auto
  define mem' where "mem' = (\<lambda>x. if offset \<le> x \<and> x < offset + len then m x else mem x)"
  have "ptr + len \<le> length ck" using ck Cons.prems(2) by simp
  then have c: "copy_from_ckp ck v (ptr, mem) = Inr (ptr + len, mem')" unfolding mem'_def m [symmetric] by (simp add: copy_from_ckp_def v)
  from Cons.IH [OF ck, of "ptr + len" mem'] Cons.prems(2) obtain ptr' where
    "foldR (copy_from_ckp ck) vs (ptr + len, mem')
      = Inr (ptr', \<lambda>x. if \<exists>(offset, len)\<in>set vs. offset \<le> x \<and> x < offset + len then m x else mem' x)" by auto
  then show ?case using c by (intro exI [of _ ptr']) (auto simp: v fun_eq_iff mem'_def)
qed simp

lemma take_restore:
  assumes "buddy_ok s"
  obtains ck where "checkpoint_full_take a s = Inr ck" "orig ck = a" "ck_longest ck = longest s" "length (ck_mem ck) = used_size s"
    "\<And>s2. checkpoint_full_restore a s2 ck = Inr (Some (s2\<lparr>longest := longest s,
        base_mem := \<lambda>x. if x \<in> used_bytes s then base_mem s x else base_mem s2 x\<rparr>))"
proof -
  let ?vs = "map place (visits (longest s) 10 0)"
  let ?ck = "\<lparr>orig = a, ck_longest = longest s, ck_mem = concat (map (\<lambda>(offset, len). map (base_mem s) [offset..<offset + len]) ?vs)\<rparr>"
  have t: "tree_ok (longest s) 10 0" using assms by (simp add: buddy_ok_def)
  note w = walk_tree [OF t]
  have "length (ck_mem ?ck) = sum_list (map snd ?vs)" by (simp add: length_concat o_def split_beta)
  also have "\<dots> = sum_list (map (\<lambda>(t, r). 2 ^ (6 + r)) (visits (longest s) 10 0))" 
  proof -
    have "(\<lambda>(t, r). 2 ^ (6 + r)) = snd \<circ> place" by (auto simp: place_def)
    then show ?thesis by simp
  qed
  also have "\<dots> = used_size s" using visits_size [OF t] by (simp add: used_size_blocks)
  finally have l: "length (ck_mem ?ck) = used_size s" .
  have "checkpoint_full_restore a s2 ?ck = Inr (Some (s2\<lparr>longest := longest s,
        base_mem := \<lambda>x. if x \<in> used_bytes s then base_mem s x else base_mem s2 x\<rparr>))" for s2
  proof -
    from copy_back [of "ck_mem ?ck" "[]" "base_mem s" ?vs 0 "base_mem s2"] obtain ptr where
      "foldR (copy_from_ckp (ck_mem ?ck)) ?vs (0, base_mem s2)
        = Inr (ptr, \<lambda>x. if \<exists>(offset, len)\<in>set ?vs. offset \<le> x \<and> x < offset + len then base_mem s x else base_mem s2 x)" by auto
    then show ?thesis using w unfolding visited_iff [OF assms] by (simp add: checkpoint_full_restore_def)
  qed
  moreover have "checkpoint_full_take a s = Inr ?ck" using w by (simp add: checkpoint_full_take_def)
  ultimately show thesis using that [of ?ck] l by simp
qed

end
