(* ===== verification/ModelMem.thy ===== *)
theory ModelMem
  imports Ckpt
begin

text \<open>
  The memory of a process as a list of buddy systems in the order of their addresses, the
  allocation functions for models, and its checkpoints (mm/buddy/multi.c). Addresses are numbers;
  a structure buddy_state takes \<open>BUDDY_SIZE\<close> bytes from its address on, its memory starts
  \<open>MEM_OFFSET\<close> bytes behind. What mm_alloc returns for a new buddy system is an argument, its
  address and its contents. The size of the buffer that a checkpoint is written into is checked:
  writing past it is a fault. A checkpoint of a list of buddy systems is the list of their
  checkpoints; its end stands for the null pointer behind the last one.
\<close>

unbundle bit_operations_syntax

definition MEM_OFFSET :: nat where "MEM_OFFSET = 2048"
definition BUDDY_SIZE :: nat where "BUDDY_SIZE = 67728"
definition BUDDY_CKPT_HEADER :: nat where "BUDDY_CKPT_HEADER = 2192"  \<comment> \<open>offsetof(struct buddy_checkpoint, base_mem)\<close>
definition MM_CKPT_HEADER :: nat where "MM_CKPT_HEADER = 8"           \<comment> \<open>offsetof(struct mm_checkpoint, chkps)\<close>
definition POINTER_SIZE :: nat where "POINTER_SIZE = 8"

record mm_checkpoint =
  ckpt_size :: nat
  chkps :: "buddy_checkpoint list"

record mm_state =
  buddies :: "(nat \<times> buddy_state) list"
  mm_logs :: "(nat \<times> mm_checkpoint) list"
  full_ckpt_size :: nat

definition model_allocator_lp_init :: mm_state where
  "model_allocator_lp_init = \<lparr>buddies = [], mm_logs = [], full_ckpt_size = MM_CKPT_HEADER + POINTER_SIZE\<rparr>"

subsection \<open>Allocation\<close>

text \<open>The loop over the buddy systems, from the last one.\<close>

primrec malloc_loop :: "nat \<Rightarrow> nat \<Rightarrow> (nat \<times> buddy_state) list \<Rightarrow> (nat option \<times> (nat \<times> buddy_state) list) res" where
  "malloc_loop e 0 bs = Inr (None, bs)"
| "malloc_loop e (Suc i) bs =
     bindR (nthR bs i) (\<lambda>(a, s).
     bindR (buddy_malloc e s) (\<lambda>(p, s).
       case p of
         Some off \<Rightarrow> Inr (Some (a + MEM_OFFSET + off), bs[i := (a, s)])
       | None \<Rightarrow> malloc_loop e i bs))"

text \<open>The place of a new buddy system: the first one with a greater address.\<close>

definition insert_place :: "nat \<Rightarrow> (nat \<times> buddy_state) list \<Rightarrow> nat" where
  "insert_place new bs = length (takeWhile (\<lambda>(a, _). \<not> a > new) bs)"

definition rs_malloc :: "nat \<Rightarrow> buddy_state \<Rightarrow> u64 \<Rightarrow> mm_state \<Rightarrow> (nat option \<times> mm_state) res" where
  "rs_malloc new raw req_size self =
     (if req_size = 0 then Inr (None, self)
      else
        bindR (buddy_allocation_block_compute req_size) (\<lambda>e.
          if e > B_TOTAL_EXP then Inr (None, self)
          else
            let self = self\<lparr>full_ckpt_size := full_ckpt_size self + 2 ^ e\<rparr> in
            bindR (malloc_loop e (length (buddies self)) (buddies self)) (\<lambda>(p, bs).
              case p of
                Some ret \<Rightarrow> Inr (Some ret, self\<lparr>buddies := bs\<rparr>)
              | None \<Rightarrow>
                  let i = insert_place new bs;
                      self = self\<lparr>full_ckpt_size := full_ckpt_size self + BUDDY_CKPT_HEADER\<rparr>
                  in bindR (buddy_malloc e (buddy_init raw)) (\<lambda>(p, s).
                       Inr (map_option (\<lambda>off. new + MEM_OFFSET + off) p,
                         self\<lparr>buddies := take i bs @ (new, s) # drop i bs\<rparr>)))))"

text \<open>Writing n bytes from address a on, the k-th one being f k.\<close>

definition write_range :: "nat \<Rightarrow> nat \<Rightarrow> (nat \<Rightarrow> u8) \<Rightarrow> (nat \<times> buddy_state) list \<Rightarrow> (nat \<times> buddy_state) list" where
  "write_range a n f = map (\<lambda>(b, s). (b, s\<lparr>base_mem := \<lambda>x.
     let y = b + MEM_OFFSET + x in if a \<le> y \<and> y < a + n \<and> x < 2 ^ B_TOTAL_EXP then f (y - a) else base_mem s x\<rparr>))"

definition rs_calloc :: "nat \<Rightarrow> buddy_state \<Rightarrow> u64 \<Rightarrow> u64 \<Rightarrow> mm_state \<Rightarrow> (nat option \<times> mm_state) res" where
  "rs_calloc new raw nmemb sz self =
     (let tot = nmemb * sz in
      bindR (rs_malloc new raw tot self) (\<lambda>(ret, self).
        Inr (ret, case ret of None \<Rightarrow> self | Some a \<Rightarrow> self\<lparr>buddies := write_range a (unat tot) (\<lambda>_. 0) (buddies self)\<rparr>)))"

text \<open>
  The binary search; the indexes are of type array_count_t, 32 bits. A search for an address
  outside every buddy system may not end; the fuel stands for the 32 halvings it can take.
\<close>

fun find_loop :: "nat \<Rightarrow> (nat \<times> buddy_state) list \<Rightarrow> nat \<Rightarrow> u32 \<Rightarrow> u32 \<Rightarrow> nat res" where
  "find_loop 0 bs ptr l h = Inl OutOfFuel"
| "find_loop (Suc fuel) bs ptr l h =
     (let m = (l + h) div 2 in
      bindR (nthR bs (unat m)) (\<lambda>(b, _).
        if ptr < b then find_loop fuel bs ptr l (m - 1)
        else if ptr > b + BUDDY_SIZE then find_loop fuel bs ptr (m + 1) h
        else Inr (unat m)))"

definition FIND_FUEL :: nat where "FIND_FUEL = 33"

definition buddy_find_by_address :: "mm_state \<Rightarrow> nat \<Rightarrow> nat res" where
  "buddy_find_by_address self ptr = find_loop FIND_FUEL (buddies self) ptr 0 (of_nat (length (buddies self)) - 1)"

definition rs_free :: "nat option \<Rightarrow> mm_state \<Rightarrow> mm_state res" where
  "rs_free ptr self =
     (case ptr of
        None \<Rightarrow> Inr self
      | Some ptr \<Rightarrow>
          bindR (buddy_find_by_address self ptr) (\<lambda>i.
            let (b, s) = buddies self ! i in
            bindR (buddy_free (ptr - (b + MEM_OFFSET)) s) (\<lambda>(n, s).
              Inr (self\<lparr>full_ckpt_size := full_ckpt_size self - n, buddies := (buddies self)[i := (b, s)]\<rparr>))))"

definition rs_realloc :: "nat \<Rightarrow> buddy_state \<Rightarrow> nat option \<Rightarrow> u64 \<Rightarrow> mm_state \<Rightarrow> (nat option \<times> mm_state) res" where
  "rs_realloc new raw ptr req_size self =
     (if req_size = 0 then Inr (None, self)
      else case ptr of
        None \<Rightarrow> rs_malloc new raw req_size self
      | Some p \<Rightarrow>
          bindR (buddy_find_by_address self p) (\<lambda>i.
            let (b, s) = buddies self ! i in
            bindR (buddy_best_effort_realloc (p - (b + MEM_OFFSET)) req_size s) (\<lambda>ret.
              case ret of
                Handled v \<Rightarrow> Inr (Some p, self\<lparr>full_ckpt_size := nat (int (full_ckpt_size self) + v)\<rparr>)
              | Original n \<Rightarrow>
                  bindR (rs_malloc new raw req_size self) (\<lambda>(new_buffer, self).
                    case new_buffer of
                      None \<Rightarrow> Inr (None, self)
                    | Some q \<Rightarrow>
                        let self = self\<lparr>buddies := write_range q (min (unat req_size) n)
                              (\<lambda>k. base_mem s (p - (b + MEM_OFFSET) + k)) (buddies self)\<rparr>
                        in bindR (rs_free (Some p) self) (\<lambda>self. Inr (Some q, self))))))"

definition write_mem :: "nat \<Rightarrow> nat \<Rightarrow> mm_state \<Rightarrow> mm_state res" where
  "write_mem ptr s self =
     (if s = 0 \<or> buddies self = [] then Inr self
      else if ptr < fst (hd (buddies self)) \<or> ptr > fst (last (buddies self)) + BUDDY_SIZE then Inr self
      else bindR (buddy_find_by_address self ptr) (\<lambda>i.
        let (b, x) = buddies self ! i in
        bindR (buddy_dirty_mark (ptr - (b + MEM_OFFSET)) s x) (\<lambda>x.
          Inr (self\<lparr>buddies := (buddies self)[i := (b, x)]\<rparr>))))"

subsection \<open>Checkpoints\<close>

definition ckpt_bytes :: "buddy_checkpoint list \<Rightarrow> nat" where
  "ckpt_bytes cks = sum_list (map (\<lambda>c. BUDDY_CKPT_HEADER + length (ck_mem c)) cks)"

text \<open>The checkpoints of the buddy systems, from the last one.\<close>

fun take_all :: "(nat \<times> buddy_state) list \<Rightarrow> buddy_checkpoint list res" where
  "take_all [] = Inr []"
| "take_all ((a, s) # bs) = bindR (checkpoint_full_take a s) (\<lambda>c. bindR (take_all bs) (\<lambda>cs. Inr (c # cs)))"

definition mm_checkpoint_take :: "nat \<Rightarrow> mm_state \<Rightarrow> mm_state res" where
  "mm_checkpoint_take ref_i self =
     bindR (take_all (rev (buddies self))) (\<lambda>cks.
     bindR (guardR (MM_CKPT_HEADER + ckpt_bytes cks + POINTER_SIZE \<le> full_ckpt_size self) OutOfBounds) (\<lambda>_.
       Inr (self\<lparr>mm_logs := mm_logs self @ [(ref_i, \<lparr>ckpt_size = full_ckpt_size self, chkps = cks\<rparr>)]\<rparr>)))"

fun restore_all :: "(nat \<times> buddy_state) list \<Rightarrow> buddy_checkpoint list \<Rightarrow> nat \<Rightarrow> (nat \<times> (nat \<times> buddy_state) list) res" where
  "restore_all [] cks n = Inr (n, [])"
| "restore_all ((a, s) # bs) cks n =
     (case cks of
        [] \<Rightarrow> bindR (restore_all bs [] (n + BUDDY_CKPT_HEADER)) (\<lambda>(n, bs). Inr (n, (a, buddy_init s) # bs))
      | c # cs \<Rightarrow>
          bindR (checkpoint_full_restore a s c) (\<lambda>r.
            case r of
              None \<Rightarrow> bindR (restore_all bs cks (n + BUDDY_CKPT_HEADER)) (\<lambda>(n, bs). Inr (n, (a, buddy_init s) # bs))
            | Some s \<Rightarrow> bindR (restore_all bs cs n) (\<lambda>(n, bs). Inr (n, (a, s) # bs))))"

text \<open>From the log at i down to the first one that is not after ref_i.\<close>

primrec mm_log_index :: "(nat \<times> mm_checkpoint) list \<Rightarrow> nat \<Rightarrow> nat \<Rightarrow> nat res" where
  "mm_log_index ls ref_i 0 = bindR (nthR ls 0) (\<lambda>l. if fst l > ref_i then Inl OutOfBounds else Inr 0)"
| "mm_log_index ls ref_i (Suc i) = bindR (nthR ls (Suc i)) (\<lambda>l. if fst l > ref_i then mm_log_index ls ref_i i else Inr (Suc i))"

definition mm_checkpoint_restore :: "nat \<Rightarrow> mm_state \<Rightarrow> (nat \<times> mm_state) res" where
  "mm_checkpoint_restore ref_i self =
     bindR (mm_log_index (mm_logs self) ref_i (length (mm_logs self) - 1)) (\<lambda>i.
       let (r, ckp) = mm_logs self ! i in
       bindR (restore_all (rev (buddies self)) (chkps ckp) (ckpt_size ckp)) (\<lambda>(n, bs).
         Inr (r, self\<lparr>full_ckpt_size := n, buddies := rev bs, mm_logs := take (Suc i) (mm_logs self)\<rparr>)))"

subsection \<open>Round trip of a checkpoint\<close>

text \<open>The state of the memory in order; apart tells that the structures do not overlap.\<close>

definition apart :: "(nat \<times> buddy_state) list \<Rightarrow> bool" where
  "apart bs \<longleftrightarrow> sorted_wrt (\<lambda>x y. fst x + BUDDY_SIZE \<le> fst y) bs"

definition ckpt_need :: "(nat \<times> buddy_state) list \<Rightarrow> nat" where
  "ckpt_need bs = sum_list (map (\<lambda>(a, s). BUDDY_CKPT_HEADER + used_size s) bs)"

definition mm_ok :: "mm_state \<Rightarrow> bool" where
  "mm_ok self \<longleftrightarrow> apart (buddies self) \<and> (\<forall>(a, s)\<in>set (buddies self). buddy_ok s)
     \<and> full_ckpt_size self = MM_CKPT_HEADER + POINTER_SIZE + ckpt_need (buddies self)"

text \<open>What a buddy system is after the restoration of the memory old.\<close>

definition restored :: "(nat \<times> buddy_state) list \<Rightarrow> nat \<times> buddy_state \<Rightarrow> nat \<times> buddy_state" where
  "restored old = (\<lambda>(a, s2). (a, case map_of old a of
       None \<Rightarrow> buddy_init s2
     | Some s \<Rightarrow> s2\<lparr>longest := longest s, base_mem := \<lambda>x. if x \<in> used_bytes s then base_mem s x else base_mem s2 x\<rparr>))"

lemma take_all_ok:
  "\<forall>(a, s)\<in>set bs. buddy_ok s \<Longrightarrow>
   \<exists>cks. take_all bs = Inr cks \<and> ckpt_bytes cks = ckpt_need bs
     \<and> list_all2 (\<lambda>(a, s) c. orig c = a \<and> (\<forall>s2. checkpoint_full_restore a s2 c = Inr (Some (s2\<lparr>longest := longest s,
          base_mem := \<lambda>x. if x \<in> used_bytes s then base_mem s x else base_mem s2 x\<rparr>)))) bs cks"
proof (induction bs)
  case (Cons b bs)
  obtain a s where b: "b = (a, s)" by fastforce
  then have "buddy_ok s" using Cons.prems by simp
  from take_restore [OF this, of a] obtain c where c: "checkpoint_full_take a s = Inr c" "orig c = a" "length (ck_mem c) = used_size s"
    "\<forall>s2. checkpoint_full_restore a s2 c = Inr (Some (s2\<lparr>longest := longest s,
        base_mem := \<lambda>x. if x \<in> used_bytes s then base_mem s x else base_mem s2 x\<rparr>))" by blast
  from Cons obtain cks where "take_all bs = Inr cks" "ckpt_bytes cks = ckpt_need bs"
    "list_all2 (\<lambda>(a, s) c. orig c = a \<and> (\<forall>s2. checkpoint_full_restore a s2 c = Inr (Some (s2\<lparr>longest := longest s,
          base_mem := \<lambda>x. if x \<in> used_bytes s then base_mem s x else base_mem s2 x\<rparr>)))) bs cks" by auto
  with b c show ?case by (intro exI [of _ "c # cks"]) (simp add: ckpt_bytes_def ckpt_need_def)
qed (simp add: ckpt_bytes_def ckpt_need_def)

lemma falling_length:
  assumes "sorted_wrt (\<lambda>x y. fst y < fst x) (old :: (nat \<times> 'a) list)" "fst ` set old \<subseteq> fst ` set bs"
  shows "length old \<le> length (bs :: (nat \<times> 'a) list)"
proof -
  have "distinct (map fst old)" using assms(1) by (induction old) force+
  then have "length old = card (fst ` set old)" by (metis distinct_card length_map set_map)
  also have "\<dots> \<le> card (fst ` set bs)" using assms(2) by (intro card_mono) simp_all
  also have "\<dots> \<le> length bs" by (metis card_length length_map set_map)
  finally show ?thesis .
qed

text \<open>The lists are walked from the last address down; new buddy systems may lie between old ones.\<close>

lemma restore_all_ok:
  assumes "list_all2 (\<lambda>(a, s) c. orig c = a \<and> (\<forall>s2. checkpoint_full_restore a s2 c = Inr (Some (s2\<lparr>longest := longest s,
          base_mem := \<lambda>x. if x \<in> used_bytes s then base_mem s x else base_mem s2 x\<rparr>)))) old cks"
    and "sorted_wrt (\<lambda>x y. fst y < fst x) old" "sorted_wrt (\<lambda>x y. fst y < fst x) bs" "fst ` set old \<subseteq> fst ` set bs"
  shows "restore_all bs cks n = Inr (n + (length bs - length old) * BUDDY_CKPT_HEADER, map (restored old) bs)"
  using assms
proof (induction bs arbitrary: old cks n)
  case (Cons b bs)
  obtain a s2 where b: "b = (a, s2)" by fastforce
  have below: "\<forall>y\<in>set bs. fst y < a" using Cons.prems(3) b by simp
  show ?case
  proof (cases "old \<noteq> [] \<and> fst (hd old) = a")
    case True
    then obtain s old' where old: "old = (a, s) # old'" by (cases old) auto
    then obtain c cs where ck: "cks = c # cs" using Cons.prems(1) by (auto simp: list_all2_Cons1)
    have bo: "\<forall>y\<in>set old'. fst y < a" using Cons.prems(2) old by simp
    then have sub: "fst ` set old' \<subseteq> fst ` set bs" using Cons.prems(4) old b by force
    have "length old' \<le> length bs" by (rule falling_length [OF _ sub]) (use Cons.prems(2) old in simp)
    moreover have "restored old y = restored old' y" if "y \<in> set bs" for y
      using that below old by (auto simp: restored_def split: prod.splits)
    ultimately show ?thesis using Cons.IH [of old' cs n] Cons.prems sub b old ck
      by (simp add: restored_def)
  next
    case False
    have nin: "a \<notin> fst ` set old"
    proof
      assume "a \<in> fst ` set old"
      then obtain y where y: "y \<in> set old" "fst y = a" by auto
      then have "old \<noteq> []" by auto
      then obtain h old' where old: "old = h # old'" by (cases old) auto
      then have "fst h \<in> fst ` set (b # bs)" using Cons.prems(4) by auto
      then have "fst h \<le> a" using b below by auto
      moreover have "a < fst h" using False old y Cons.prems(2) by auto
      ultimately show False by simp
    qed
    then have m: "map_of old a = None" by (simp add: map_of_eq_None_iff)
    have sub: "fst ` set old \<subseteq> fst ` set bs" using Cons.prems(4) nin b by auto
    have "length old \<le> length bs" by (rule falling_length [OF Cons.prems(2) sub])
    then have l: "(length (b # bs) - length old) * BUDDY_CKPT_HEADER = BUDDY_CKPT_HEADER + (length bs - length old) * BUDDY_CKPT_HEADER"
      by (simp add: Suc_diff_le)
    have IH: "restore_all bs cks (n + BUDDY_CKPT_HEADER)
        = Inr (n + BUDDY_CKPT_HEADER + (length bs - length old) * BUDDY_CKPT_HEADER, map (restored old) bs)"
      using Cons.IH [OF Cons.prems(1,2) _ sub] Cons.prems(3) by simp
    show ?thesis
    proof (cases cks)
      case Nil
      with IH l m show ?thesis by (simp add: b restored_def)
    next
      case (Cons c cs)
      then obtain h old' where "old = h # old'" "orig c = fst h" using Cons.prems(1) by (auto simp: list_all2_Cons2)
      then have "checkpoint_full_restore a s2 c = Inr None" using False by (simp add: checkpoint_full_restore_def)
      with IH l m Cons show ?thesis by (simp add: b restored_def)
    qed
  qed
qed simp

lemma log_found:
  assumes "fst (ls ! n) \<le> r" "n \<le> i" "i < length ls" "\<forall>k. n < k \<and> k \<le> i \<longrightarrow> r < fst (ls ! k)"
  shows "mm_log_index ls r i = Inr n"
  using assms(2-4)
proof (induction i)
  case 0
  then show ?case using assms(1) by simp
next
  case (Suc i)
  then show ?case using assms(1) by (cases "n = Suc i") auto
qed

lemma apart_falls: "apart bs \<Longrightarrow> sorted_wrt (\<lambda>x y. fst y < fst x) (rev bs)"
  by (auto simp: apart_def sorted_wrt_rev BUDDY_SIZE_def elim!: sorted_wrt_mono_rel [rotated])

lemma apart_distinct: "apart bs \<Longrightarrow> distinct (map fst bs)"
  unfolding apart_def by (induction bs) (force simp: BUDDY_SIZE_def)+

lemma apart_fst: "apart bs \<longleftrightarrow> sorted_wrt (\<lambda>x y. x + BUDDY_SIZE \<le> y) (map fst bs)"
  by (simp add: apart_def sorted_wrt_map)

lemma fst_restored [simp]: "fst (restored old x) = fst x"
  by (simp add: restored_def split_beta)

lemma sum_addresses: "distinct (map fst xs) \<Longrightarrow> sum_list (map (\<lambda>x. f (fst x)) xs) = sum f (fst ` set xs)"
  using sum_list_distinct_conv_sum_set [of "map fst xs" f] by (simp add: o_def)

lemma restored_need:
  assumes "apart old" "apart bs" "fst ` set old \<subseteq> fst ` set bs" "\<forall>(a, s)\<in>set old. buddy_ok s"
  shows "ckpt_need (map (restored old) bs) = ckpt_need old + (length bs - length old) * BUDDY_CKPT_HEADER"
    "\<forall>(a, s)\<in>set (map (restored old) bs). buddy_ok s"
proof -
  let ?u = "\<lambda>a. case map_of old a of None \<Rightarrow> 0 | Some s \<Rightarrow> used_size s"
  note d = apart_distinct [OF assms(1)] apart_distinct [OF assms(2)]
  have i: "used_size (buddy_init s) = 0" for s using buddy_init_ok [of s] by (simp add: used_size_def)
  have l: "used_size (s2\<lparr>longest := longest s, base_mem := m\<rparr>) = used_size s" for s s2 m by (simp add: used_size_def allocs_def)
  have n: "ckpt_need xs = length xs * BUDDY_CKPT_HEADER + sum_list (map (\<lambda>(a, s). used_size s) xs)" for xs
    by (induction xs) (auto simp: ckpt_need_def)
  have "sum_list (map (\<lambda>(a, s). used_size s) (map (restored old) bs)) = sum_list (map (\<lambda>x. ?u (fst x)) bs)"
    by (simp add: o_def split_beta restored_def) (rule arg_cong [of _ _ sum_list], auto simp: i l split: option.split)
  also have "\<dots> = sum ?u (fst ` set bs)" using sum_addresses [OF d(2), of ?u] .
  also have "\<dots> = sum ?u (fst ` set old)" 
  proof (rule sum.mono_neutral_right)
    have "map_of old a = None" if "a \<notin> fst ` set old" for a using that by (simp add: map_of_eq_None_iff)
    then show "\<forall>a\<in>fst ` set bs - fst ` set old. ?u a = 0" by auto
  qed (use assms(3) in simp_all)
  also have "\<dots> = sum_list (map (\<lambda>x. ?u (fst x)) old)" using sum_addresses [OF d(1), of ?u] by simp
  also have "\<dots> = sum_list (map (\<lambda>(a, s). used_size s) old)"
    by (rule arg_cong [of _ _ sum_list]) (use d(1) in \<open>auto simp: split_beta\<close>)
  finally have s: "sum_list (map (\<lambda>(a, s). used_size s) (map (restored old) bs)) = sum_list (map (\<lambda>(a, s). used_size s) old)" .
  have "length old \<le> length bs"
  proof -
    have "length (map fst old) \<le> length (map fst bs)"
      using d assms(3) by (metis card_mono distinct_card finite_set set_map)
    then show ?thesis by simp
  qed
  then show "ckpt_need (map (restored old) bs) = ckpt_need old + (length bs - length old) * BUDDY_CKPT_HEADER"
    unfolding n s by (simp add: add_mult_distrib [symmetric])
  have "buddy_ok (snd (restored old x))" for x
  proof (cases "map_of old (fst x)")
    case (Some s)
    then have "(fst x, s) \<in> set old" by (rule map_of_SomeD)
    then have "buddy_ok s" using assms(4) by auto
    then show ?thesis using Some by (simp add: restored_def split_beta buddy_ok_def)
  qed (simp add: restored_def split_beta buddy_init_ok)
  then have "\<forall>x\<in>set (map (restored old) bs). buddy_ok (snd x)" by simp
  then show "\<forall>(a, s)\<in>set (map (restored old) bs). buddy_ok s" by (simp add: split_beta)
qed

lemma checkpoint_taken:
  assumes "mm_ok mm"
  obtains cks where "mm_checkpoint_take r mm = Inr (mm\<lparr>mm_logs := mm_logs mm @ [(r, \<lparr>ckpt_size = full_ckpt_size mm, chkps = cks\<rparr>)]\<rparr>)"
    "list_all2 (\<lambda>(a, s) c. orig c = a \<and> (\<forall>s2. checkpoint_full_restore a s2 c = Inr (Some (s2\<lparr>longest := longest s,
          base_mem := \<lambda>x. if x \<in> used_bytes s then base_mem s x else base_mem s2 x\<rparr>)))) (rev (buddies mm)) cks"
proof -
  have "\<forall>(a, s)\<in>set (rev (buddies mm)). buddy_ok s" using assms by (simp add: mm_ok_def)
  from take_all_ok [OF this] obtain cks where c: "take_all (rev (buddies mm)) = Inr cks" "ckpt_bytes cks = ckpt_need (rev (buddies mm))"
    "list_all2 (\<lambda>(a, s) c. orig c = a \<and> (\<forall>s2. checkpoint_full_restore a s2 c = Inr (Some (s2\<lparr>longest := longest s,
          base_mem := \<lambda>x. if x \<in> used_bytes s then base_mem s x else base_mem s2 x\<rparr>)))) (rev (buddies mm)) cks" by blast
  have "ckpt_need (rev (buddies mm)) = ckpt_need (buddies mm)" by (simp add: ckpt_need_def rev_map [symmetric])
  with c(1,2) assms have "mm_checkpoint_take r mm = Inr (mm\<lparr>mm_logs := mm_logs mm @ [(r, \<lparr>ckpt_size = full_ckpt_size mm, chkps = cks\<rparr>)]\<rparr>)"
    by (simp add: mm_checkpoint_take_def mm_ok_def)
  with c(3) show thesis using that by blast
qed

text \<open>C10: A checkpoint of the memory of a process brings it back. Taking one never writes past the buffer of
  full_ckpt_size bytes. Whatever allocations, releases and writes come after it, also with new
  buddy systems, as long as the logs are only added to: restoring for an index r' before the later
  logs succeeds and gives every buddy system of the checkpoint its tree and all its allocated
  bytes back, makes the later ones wholly free, and leaves a memory in order with the right size
  of a full checkpoint.
\<close>

theorem checkpoint_roundtrip:
  assumes "mm_ok mm" "apart (buddies mm2)" "fst ` set (buddies mm) \<subseteq> fst ` set (buddies mm2)"
    and "r \<le> r'" "\<forall>l\<in>set later. r' < fst l"
  shows "\<exists>mm1. mm_checkpoint_take r mm = Inr mm1 \<and> buddies mm1 = buddies mm \<and> full_ckpt_size mm1 = full_ckpt_size mm
    \<and> (mm_logs mm2 = mm_logs mm1 @ later \<longrightarrow> (\<exists>mm3. mm_checkpoint_restore r' mm2 = Inr (r, mm3)
         \<and> buddies mm3 = map (restored (buddies mm)) (buddies mm2) \<and> mm_logs mm3 = mm_logs mm1 \<and> mm_ok mm3))"
proof -
  from checkpoint_taken [OF assms(1), of r] obtain cks where
    t: "mm_checkpoint_take r mm = Inr (mm\<lparr>mm_logs := mm_logs mm @ [(r, \<lparr>ckpt_size = full_ckpt_size mm, chkps = cks\<rparr>)]\<rparr>)"
    and c: "list_all2 (\<lambda>(a, s) c. orig c = a \<and> (\<forall>s2. checkpoint_full_restore a s2 c = Inr (Some (s2\<lparr>longest := longest s,
          base_mem := \<lambda>x. if x \<in> used_bytes s then base_mem s x else base_mem s2 x\<rparr>)))) (rev (buddies mm)) cks" by blast
  let ?ck = "\<lparr>ckpt_size = full_ckpt_size mm, chkps = cks\<rparr>"
  let ?mm1 = "mm\<lparr>mm_logs := mm_logs mm @ [(r, ?ck)]\<rparr>" and ?n = "length (mm_logs mm)"
  have ok: "apart (buddies mm)" "\<forall>(a, s)\<in>set (buddies mm). buddy_ok s" using assms(1) by (simp_all add: mm_ok_def)
  have "\<exists>mm3. mm_checkpoint_restore r' mm2 = Inr (r, mm3) \<and> buddies mm3 = map (restored (buddies mm)) (buddies mm2)
    \<and> mm_logs mm3 = mm_logs ?mm1 \<and> mm_ok mm3" if l: "mm_logs mm2 = mm_logs ?mm1 @ later"
  proof -
    have ls: "mm_logs mm2 = mm_logs mm @ (r, ?ck) # later" using l by simp
    have "mm_log_index (mm_logs mm2) r' (length (mm_logs mm2) - 1) = Inr ?n"
    proof (rule log_found)
      show "fst (mm_logs mm2 ! ?n) \<le> r'" using assms(4) by (simp add: ls)
      show "\<forall>k. ?n < k \<and> k \<le> length (mm_logs mm2) - 1 \<longrightarrow> r' < fst (mm_logs mm2 ! k)"
      proof (intro allI impI)
        fix k assume k: "?n < k \<and> k \<le> length (mm_logs mm2) - 1"
        then have "mm_logs mm2 ! k = later ! (k - Suc ?n)" "k - Suc ?n < length later" by (auto simp: ls nth_append)
        then show "r' < fst (mm_logs mm2 ! k)" using assms(5) by simp
      qed
    qed (simp_all add: ls)
    moreover have "mm_logs mm2 ! ?n = (r, ?ck)" "take (Suc ?n) (mm_logs mm2) = mm_logs ?mm1" by (simp_all add: ls)
    moreover have "restore_all (rev (buddies mm2)) cks (full_ckpt_size mm)
      = Inr (full_ckpt_size mm + (length (buddies mm2) - length (buddies mm)) * BUDDY_CKPT_HEADER, map (restored (rev (buddies mm))) (rev (buddies mm2)))"
      using restore_all_ok [OF c apart_falls [OF ok(1)] apart_falls [OF assms(2)]] assms(3) by simp
    moreover have "restored (rev (buddies mm)) = restored (buddies mm)"
    proof -
      have "map_of (rev (buddies mm)) = map_of (buddies mm)"
        using map_of_inject_set [of "rev (buddies mm)" "buddies mm"] apart_distinct [OF ok(1)] by (simp add: rev_map [symmetric])
      then show ?thesis by (simp add: restored_def)
    qed
    ultimately have "mm_checkpoint_restore r' mm2 = Inr (r, mm2\<lparr>full_ckpt_size := full_ckpt_size mm
        + (length (buddies mm2) - length (buddies mm)) * BUDDY_CKPT_HEADER, buddies := map (restored (buddies mm)) (buddies mm2), mm_logs := mm_logs ?mm1\<rparr>)"
      by (simp add: mm_checkpoint_restore_def rev_map [symmetric])
    then obtain mm3 where r3: "mm_checkpoint_restore r' mm2 = Inr (r, mm3)" "buddies mm3 = map (restored (buddies mm)) (buddies mm2)"
      "mm_logs mm3 = mm_logs ?mm1"
      "full_ckpt_size mm3 = full_ckpt_size mm + (length (buddies mm2) - length (buddies mm)) * BUDDY_CKPT_HEADER" by (rule that) simp_all
    have "apart (buddies mm3)" using assms(2) unfolding r3(2) apart_fst by (simp add: o_def)
    then have "mm_ok mm3" using restored_need [OF ok(1) assms(2,3) ok(2)] assms(1) r3(4)
      unfolding mm_ok_def r3(2) by simp
    with r3 show ?thesis by blast
  qed
  with t show ?thesis by (intro exI [of _ ?mm1]) simp
qed

text \<open>
  A process with one buddy system and one block; after the checkpoint the model has written and
  allocated, and a second buddy system has come in at a lower address.
\<close>

definition example_block :: buddy_state where
  "example_block = (case buddy_malloc 7 example_buddy of Inr (_, s) \<Rightarrow> s | Inl _ \<Rightarrow> example_buddy)"

definition example_mem :: mm_state where
  "example_mem = \<lparr>buddies = [(200000, example_block)], mm_logs = [],
     full_ckpt_size = MM_CKPT_HEADER + POINTER_SIZE + (BUDDY_CKPT_HEADER + 128)\<rparr>"

definition example_later :: "mm_state \<Rightarrow> mm_state" where
  "example_later mm = mm\<lparr>buddies := [(100000, example_buddy), (200000, example_block\<lparr>base_mem := (\<lambda>_. 7)\<rparr>)]\<rparr>"

lemma example_mem_ok: "mm_ok example_mem"
proof -
  have "buddy_ok example_buddy" "allocs example_buddy = {}" using buddy_init_ok by (simp_all add: example_buddy_def)
  with malloc_exact [of example_buddy 7] obtain off s where "buddy_malloc 7 example_buddy = Inr (Some off, s)" "buddy_ok s" "allocs s = {(off, 7)}"
    by (fastforce split: option.splits)
  then have "buddy_ok example_block" "used_size example_block = 128" by (simp_all add: example_block_def used_size_def)
  then show ?thesis by (simp add: mm_ok_def example_mem_def apart_def ckpt_need_def)
qed

theorem checkpoint_roundtrip_witness:
  "\<exists>mm1 mm3. mm_checkpoint_take 5 example_mem = Inr mm1 \<and> mm_checkpoint_restore 6 (example_later mm1) = Inr (5, mm3)
    \<and> map fst (buddies mm3) = [100000, 200000] \<and> longest (snd (buddies mm3 ! 1)) = longest example_block \<and> mm_ok mm3"
proof -
  have a: "apart (buddies (example_later mm1))" "fst ` set (buddies example_mem) \<subseteq> fst ` set (buddies (example_later mm1))" for mm1
    by (simp_all add: example_later_def example_mem_def apart_def BUDDY_SIZE_def)
  have l: "\<forall>l\<in>set []. (6::nat) < fst l" for l :: "nat \<times> mm_checkpoint" by simp
  from checkpoint_roundtrip [OF example_mem_ok a(1) a(2), of 5 6 "[]"] obtain mm1 where
    1: "mm_checkpoint_take 5 example_mem = Inr mm1" by auto
  have "mm_logs (example_later mm1) = mm_logs mm1 @ []" by (simp add: example_later_def)
  with checkpoint_roundtrip [OF example_mem_ok a(1) [of mm1] a(2) [of mm1], of 5 6 "[]"] 1 obtain mm3 where
    "mm_checkpoint_restore 6 (example_later mm1) = Inr (5, mm3)" "buddies mm3 = map (restored (buddies example_mem)) (buddies (example_later mm1))"
    "mm_ok mm3" by auto
  with 1 show ?thesis by (auto simp: example_later_def example_mem_def restored_def)
qed

subsection \<open>Allocation keeps the memory in order\<close>

text \<open>The addresses of the allocated bytes, and the byte at an address.\<close>

definition mm_used :: "mm_state \<Rightarrow> nat set" where
  "mm_used self = (\<Union>(a, s)\<in>set (buddies self). (\<lambda>x. a + MEM_OFFSET + x) ` used_bytes s)"

lemma used_below: "buddy_ok s \<Longrightarrow> x \<in> used_bytes s \<Longrightarrow> x < 65536"
proof -
  assume "buddy_ok s" "x \<in> used_bytes s"
  then obtain t r where "(t, r) \<in> blocks (longest s) 10 0" "x + 65536 \<in> span r t" by (auto simp: used_bytes_span)
  then have "x + 65536 \<in> span 10 0" using blocks_span by blast
  then show "x < 65536" by (simp add: span_def)
qed

lemma finite_allocs: "finite (allocs s)"
  by (simp add: allocs_def finite_blocks)

text \<open>What a successful allocation in one buddy system changes.\<close>

lemma malloc_uses:
  assumes "buddy_ok s" "6 \<le> e" "e \<le> 16" "buddy_malloc e s = Inr (Some off, s')"
  shows "buddy_ok s'" "base_mem s' = base_mem s" "used_bytes s' = used_bytes s \<union> {off..<off + 2 ^ e}"
    "used_bytes s \<inter> {off..<off + 2 ^ e} = {}" "used_size s' = used_size s + 2 ^ e" "off + 2 ^ e \<le> 65536"
proof -
  from malloc_exact [OF assms(1-3)] assms(4) have m: "buddy_ok s'" "base_mem s' = base_mem s" "allocs s' = insert (off, e) (allocs s)"
    "\<forall>b\<in>allocs s. bytes b \<inter> bytes (off, e) = {}" "off + 2 ^ e \<le> 2 ^ 16" by auto
  then show "buddy_ok s'" "base_mem s' = base_mem s" "used_bytes s' = used_bytes s \<union> {off..<off + 2 ^ e}"
    "used_bytes s \<inter> {off..<off + 2 ^ e} = {}" "off + 2 ^ e \<le> 65536" by (auto simp: used_bytes_def bytes_def)
  have "bytes (off, e) \<noteq> {}" by (simp add: bytes_def)
  then have "(off, e) \<notin> allocs s" using m(4) by blast
  then show "used_size s' = used_size s + 2 ^ e" by (simp add: used_size_def m(3) finite_allocs)
qed

lemma malloc_loop_ok:
  assumes "\<forall>(a, s)\<in>set bs. buddy_ok s" "6 \<le> e" "e \<le> 16" "i \<le> length bs"
  shows "malloc_loop e i bs = Inr (None, bs) \<or> (\<exists>k a s off s'. k < i \<and> bs ! k = (a, s) \<and> buddy_malloc e s = Inr (Some off, s')
      \<and> malloc_loop e i bs = Inr (Some (a + MEM_OFFSET + off), bs[k := (a, s')]))"
  using assms(4)
proof (induction i)
  case (Suc i)
  obtain a s where b: "bs ! i = (a, s)" by fastforce
  then have "buddy_ok s" using assms(1) Suc.prems nth_mem [of i bs] by fastforce
  from malloc_exact [OF this assms(2,3)] obtain p s' where p: "buddy_malloc e s = Inr (p, s')" by blast
  show ?case
  proof (cases p)
    case None
    then have "malloc_loop e (Suc i) bs = malloc_loop e i bs" using b p Suc.prems by simp
    with Suc show ?thesis by (metis Suc_leD less_SucI)
  next
    case (Some off)
    then have "malloc_loop e (Suc i) bs = Inr (Some (a + MEM_OFFSET + off), bs[i := (a, s')])" using b p Suc.prems by simp
    with b p Some show ?thesis by (intro disjI2 exI [of _ i] exI [of _ a] exI [of _ s] exI [of _ off] exI [of _ s']) simp
  qed
qed simp

lemma mm_used_split:
  "buddies self = xs @ (a, s) # ys \<Longrightarrow>
   mm_used self = (\<Union>(b, t)\<in>set xs \<union> set ys. (\<lambda>x. b + MEM_OFFSET + x) ` used_bytes t) \<union> (\<lambda>x. a + MEM_OFFSET + x) ` used_bytes s"
  by (auto simp: mm_used_def)

lemma need_split: "ckpt_need (xs @ (a, s) # ys) = ckpt_need xs + ckpt_need ys + BUDDY_CKPT_HEADER + used_size s"
  by (simp add: ckpt_need_def)

lemma apart_split: "apart (xs @ (a, s) # ys) \<longleftrightarrow> apart xs \<and> apart ys \<and> (\<forall>y\<in>set xs. fst y + BUDDY_SIZE \<le> a) \<and> (\<forall>y\<in>set ys. a + BUDDY_SIZE \<le> fst y)"
  by (fastforce simp: apart_def sorted_wrt_append BUDDY_SIZE_def)

lemma image_range: "(\<lambda>x. a + x) ` {off..<off + n} = {a + off..<a + off + (n::nat)}"
  by (simp add: ac_simps)

lemma outside_range:
  assumes "apart (xs @ (a, s) # ys)" "\<forall>(b, t)\<in>set xs \<union> set ys. buddy_ok t" "off + n \<le> 65536"
  shows "(\<Union>(b, t)\<in>set xs \<union> set ys. (\<lambda>x. b + MEM_OFFSET + x) ` used_bytes t) \<inter> {a + MEM_OFFSET + off..<a + MEM_OFFSET + off + n} = {}"
proof -
  have "b + MEM_OFFSET + x \<notin> {a + MEM_OFFSET + off..<a + MEM_OFFSET + off + n}" if "(b, t) \<in> set xs \<union> set ys" "x \<in> used_bytes t" for b t x
  proof -
    have "x < 65536" using used_below [of t x] assms(2) that by auto
    moreover have "b + BUDDY_SIZE \<le> a \<or> a + BUDDY_SIZE \<le> b" using assms(1) that(1) unfolding apart_split by auto
    ultimately show ?thesis using assms(3) by (auto simp: BUDDY_SIZE_def MEM_OFFSET_def)
  qed
  then show ?thesis by blast
qed

text \<open>A buddy system of the list is replaced by one with a new block.\<close>

lemma grown_ok:
  assumes ok: "apart (xs @ (a, s) # ys)" "\<forall>(b, t)\<in>set xs \<union> set ys. buddy_ok t" "buddy_ok s"
    and m: "6 \<le> e" "e \<le> 16" "buddy_malloc e s = Inr (Some off, s')" and mm: "buddies mm' = xs @ (a, s') # ys"
  shows "apart (buddies mm')" "\<forall>(b, t)\<in>set (buddies mm'). buddy_ok t" "ckpt_need (buddies mm') = ckpt_need (xs @ (a, s) # ys) + 2 ^ e"
    "mm_used mm' = mm_used \<lparr>buddies = xs @ (a, s) # ys, mm_logs = [], full_ckpt_size = 0\<rparr> \<union> {a + MEM_OFFSET + off..<a + MEM_OFFSET + off + 2 ^ e}"
    "mm_used \<lparr>buddies = xs @ (a, s) # ys, mm_logs = [], full_ckpt_size = 0\<rparr> \<inter> {a + MEM_OFFSET + off..<a + MEM_OFFSET + off + 2 ^ e} = {}"
proof -
  note u = malloc_uses [OF ok(3) m]
  let ?f = "\<lambda>x. a + MEM_OFFSET + x" and ?r = "{a + MEM_OFFSET + off..<a + MEM_OFFSET + off + 2 ^ e}"
  let ?mm = "\<lparr>buddies = xs @ (a, s) # ys, mm_logs = [], full_ckpt_size = 0\<rparr>"
  note sp = mm_used_split [of mm' xs a s' ys, OF mm] mm_used_split [of ?mm xs a s ys]
  show "apart (buddies mm')" using ok(1) unfolding mm apart_split .
  show "\<forall>(b, t)\<in>set (buddies mm'). buddy_ok t" using ok(2) u(1) by (auto simp: mm)
  show "ckpt_need (buddies mm') = ckpt_need (xs @ (a, s) # ys) + 2 ^ e" unfolding mm need_split u(5) by simp
  show "mm_used mm' = mm_used ?mm \<union> ?r" using sp u(3) image_range [of "a + MEM_OFFSET" off "2 ^ e"] by (simp add: image_Un Un_assoc)
  have "?f ` used_bytes s \<inter> ?f ` {off..<off + 2 ^ e} = {}" using u(4) by auto
  then have "?f ` used_bytes s \<inter> ?r = {}" using image_range [of "a + MEM_OFFSET" off "2 ^ e"] by simp
  then show "mm_used ?mm \<inter> ?r = {}" using sp(2) outside_range [OF ok(1,2) u(6)] by (simp add: Int_Un_distrib2)
qed

lemma mm_used_cong: "buddies mm = bs \<Longrightarrow> mm_used mm = mm_used \<lparr>buddies = bs, mm_logs = [], full_ckpt_size = 0\<rparr>"
  by (simp add: mm_used_def)

lemma fresh_malloc:
  assumes "6 \<le> e" "e \<le> 16"
  obtains off s where "buddy_malloc e (buddy_init raw) = Inr (Some off, s)"
proof -
  note i = buddy_init_ok [of raw]
  from malloc_exact [OF i [THEN conjunct1] assms] obtain p s where m: "buddy_malloc e (buddy_init raw) = Inr (p, s)"
    "p = None \<longrightarrow> (\<forall>k<2 ^ (16 - e). \<exists>b\<in>allocs (buddy_init raw). bytes b \<inter> {k * 2 ^ e..<(k + 1) * 2 ^ e} \<noteq> {})"
    by (auto split: option.splits)
  have "p \<noteq> None"
  proof
    assume "p = None"
    moreover have "0 < (2::nat) ^ (16 - e)" by simp
    ultimately have "\<exists>b\<in>allocs (buddy_init raw). bytes b \<inter> {0 * 2 ^ e..<(0 + 1) * 2 ^ e} \<noteq> {}" using m(2) by blast
    then show False using i by simp
  qed
  with m(1) that show thesis by auto
qed

lemma insert_apart:
  assumes "apart bs" "\<forall>(a, s)\<in>set bs. new + BUDDY_SIZE \<le> a \<or> a + BUDDY_SIZE \<le> new"
  shows "apart (take (insert_place new bs) bs @ (new, t) # drop (insert_place new bs) bs)"
proof -
  let ?i = "insert_place new bs"
  have t: "take ?i bs = takeWhile (\<lambda>(a, _). \<not> a > new) bs" "drop ?i bs = dropWhile (\<lambda>(a, _). \<not> a > new) bs"
    by (simp_all add: insert_place_def takeWhile_eq_take [symmetric] dropWhile_eq_drop [symmetric])
  have "y \<in> set bs \<and> \<not> new < fst y" if "y \<in> set (take ?i bs)" for y
    using that unfolding t(1) by (auto dest: set_takeWhileD)
  then have 1: "\<forall>y\<in>set (take ?i bs). fst y + BUDDY_SIZE \<le> new" using assms(2) by (force simp: BUDDY_SIZE_def)
  have s: "apart (take ?i bs)" "apart (drop ?i bs)"
    using assms(1) append_take_drop_id [of ?i bs] unfolding apart_def by (metis sorted_wrt_append)+
  have "new < fst y" if "y \<in> set (drop ?i bs)" for y
  proof -
    from that obtain z zs where z: "drop ?i bs = z # zs" by (cases "drop ?i bs") auto
    then have "new < fst z" using hd_dropWhile [of "\<lambda>(a, _). \<not> a > new" bs] t(2) by (simp add: split_beta)
    moreover have "y = z \<or> fst z + BUDDY_SIZE \<le> fst y" using s(2) that z by (auto simp: apart_def)
    ultimately show ?thesis by auto
  qed
  then have "\<forall>y\<in>set (drop ?i bs). new + BUDDY_SIZE \<le> fst y" using assms(2) in_set_dropD by (force simp: BUDDY_SIZE_def)
  with 1 s show ?thesis by (simp add: apart_split)
qed

lemma malloc_kept:
  assumes ok: "mm_ok mm" "req \<noteq> 0" and new: "\<forall>(a, s)\<in>set (buddies mm). new + BUDDY_SIZE \<le> a \<or> a + BUDDY_SIZE \<le> new"
  shows "\<exists>p mm'. rs_malloc new raw req mm = Inr (p, mm') \<and> mm_ok mm' \<and> mm_logs mm' = mm_logs mm
    \<and> (\<forall>(b, s)\<in>set (buddies mm). \<exists>s'. (b, s') \<in> set (buddies mm') \<and> base_mem s' = base_mem s)
    \<and> (case p of None \<Rightarrow> mm' = mm \<and> 65536 < unat req
       | Some a \<Rightarrow> unat req \<le> 65536 \<and> (\<exists>n\<ge>unat req. mm_used mm' = mm_used mm \<union> {a..<a + n} \<and> mm_used mm \<inter> {a..<a + n} = {}))"
proof -
  from block_compute [of req] obtain e where e: "buddy_allocation_block_compute req = Inr e" "6 \<le> e" "unat req \<le> 2 ^ e" "e = 6 \<or> 2 ^ (e - 1) < unat req"
    by blast
  have mo: "apart (buddies mm)" "\<forall>(a, s)\<in>set (buddies mm). buddy_ok s"
    "full_ckpt_size mm = MM_CKPT_HEADER + POINTER_SIZE + ckpt_need (buddies mm)" using ok(1) by (simp_all add: mm_ok_def)
  show ?thesis
  proof (cases "e \<le> 16")
    case False
    then have "16 \<le> e - 1" by simp
    then have "(2::nat) ^ 16 \<le> 2 ^ (e - 1)" by (rule power_increasing) simp
    then have "65536 < unat req" using e(4) False by auto
    then show ?thesis using ok False e(1) by (intro exI [of _ None] exI [of _ mm]) (auto simp: rs_malloc_def B_TOTAL_EXP_def)
  next
    case True
    then have "(2::nat) ^ e \<le> 2 ^ 16" by (intro power_increasing) simp_all
    then have r: "unat req \<le> 65536" using e(3) by simp
    from malloc_loop_ok [OF mo(2) e(2) True, of "length (buddies mm)"] consider
      "malloc_loop e (length (buddies mm)) (buddies mm) = Inr (None, buddies mm)"
      | k a s off s' where "k < length (buddies mm)" "buddies mm ! k = (a, s)" "buddy_malloc e s = Inr (Some off, s')"
        "malloc_loop e (length (buddies mm)) (buddies mm) = Inr (Some (a + MEM_OFFSET + off), (buddies mm)[k := (a, s')])" by auto
    then show ?thesis
    proof cases
      case 1
      let ?i = "insert_place new (buddies mm)"
      let ?xs = "take ?i (buddies mm)" and ?ys = "drop ?i (buddies mm)"
      from fresh_malloc [OF e(2) True, of raw] obtain off s where m: "buddy_malloc e (buddy_init raw) = Inr (Some off, s)" by blast
      let ?mm = "mm\<lparr>full_ckpt_size := full_ckpt_size mm + 2 ^ e + BUDDY_CKPT_HEADER, buddies := ?xs @ (new, s) # ?ys\<rparr>"
      have run: "rs_malloc new raw req mm = Inr (Some (new + MEM_OFFSET + off), ?mm)"
        using ok(2) e(1) True 1 m by (simp add: rs_malloc_def B_TOTAL_EXP_def Let_def)
      have xy: "set ?xs \<union> set ?ys = set (buddies mm)" by (metis append_take_drop_id set_append)
      have i: "buddy_ok (buddy_init raw)" "allocs (buddy_init raw) = {}" using buddy_init_ok by blast+
      then have u: "used_size (buddy_init raw) = 0" "used_bytes (buddy_init raw) = {}" by (simp_all add: used_size_def used_bytes_def)
      have oks: "\<forall>(b, t)\<in>set ?xs \<union> set ?ys. buddy_ok t" using mo(2) unfolding xy .
      note g = grown_ok [OF insert_apart [OF mo(1) new] oks i(1) e(2) True m, of ?mm]
      have "ckpt_need ?xs + ckpt_need ?ys = ckpt_need (buddies mm)"
        using append_take_drop_id [of ?i "buddies mm"] unfolding ckpt_need_def by (metis map_append sum_list_append)
      then have "mm_ok ?mm" using g(1,2,3) mo(3) unfolding mm_ok_def need_split u(1) by simp
      moreover have "mm_used \<lparr>buddies = ?xs @ (new, buddy_init raw) # ?ys, mm_logs = [], full_ckpt_size = 0\<rparr> = mm_used mm"
        unfolding mm_used_def xy [symmetric] by (simp add: u(2) Un_commute)
      ultimately show ?thesis using run g(4,5) r e(3) xy
        by (intro exI [of _ "Some (new + MEM_OFFSET + off)"] exI [of _ ?mm]) auto
    next
      case (2 k a s off s')
      define xs ys where "xs = take k (buddies mm)" and "ys = drop (Suc k) (buddies mm)"
      have d: "buddies mm = xs @ (a, s) # ys" "(buddies mm)[k := (a, s')] = xs @ (a, s') # ys"
        using 2(1,2) id_take_nth_drop [of k "buddies mm"] by (simp_all add: xs_def ys_def upd_conv_take_nth_drop)
      let ?mm = "mm\<lparr>full_ckpt_size := full_ckpt_size mm + 2 ^ e, buddies := xs @ (a, s') # ys\<rparr>"
      have run: "rs_malloc new raw req mm = Inr (Some (a + MEM_OFFSET + off), ?mm)"
        using ok(2) e(1) True 2(4) d(2) by (simp add: rs_malloc_def B_TOTAL_EXP_def Let_def)
      have ap: "apart (xs @ (a, s) # ys)" "\<forall>(b, t)\<in>set xs \<union> set ys. buddy_ok t" "buddy_ok s"
        using mo(1,2) unfolding d(1) by auto
      note g = grown_ok [OF ap e(2) True 2(3), of ?mm]
      have "mm_ok ?mm" using g(1,2,3) mo(3) unfolding mm_ok_def d(1) by simp
      moreover have "mm_used \<lparr>buddies = xs @ (a, s) # ys, mm_logs = [], full_ckpt_size = 0\<rparr> = mm_used mm"
        using mm_used_cong [OF d(1)] by simp
      moreover have "base_mem s' = base_mem s" using malloc_uses(2) [OF ap(3) e(2) True 2(3)] .
      ultimately show ?thesis using run g(4,5) r e(3) d(1)
        by (intro exI [of _ "Some (a + MEM_OFFSET + off)"] exI [of _ ?mm]) auto
    qed
  qed
qed

text \<open>C12: rs_malloc hands out new memory only. For a request of at least one byte, with what mm_alloc
  returns apart from the buddy systems there are, it succeeds, keeps the memory of the process in
  order, so that the next checkpoint fits, and leaves every byte as it is; it refuses only requests of more than 65536 bytes;
  otherwise the address it gives is that of a range of at least the bytes asked for, none of which
  was in use, and the bytes in use are now the old ones and these.
\<close>

theorem rs_malloc_fresh:
  assumes "mm_ok mm" "req \<noteq> 0" "\<forall>(a, s)\<in>set (buddies mm). new + BUDDY_SIZE \<le> a \<or> a + BUDDY_SIZE \<le> new"
  shows "\<exists>p mm'. rs_malloc new raw req mm = Inr (p, mm') \<and> mm_ok mm' \<and> mm_logs mm' = mm_logs mm
    \<and> (\<forall>(b, s)\<in>set (buddies mm). \<exists>s'. (b, s') \<in> set (buddies mm') \<and> base_mem s' = base_mem s)
    \<and> (case p of None \<Rightarrow> mm' = mm \<and> 65536 < unat req
       | Some a \<Rightarrow> unat req \<le> 65536 \<and> (\<exists>n\<ge>unat req. mm_used mm' = mm_used mm \<union> {a..<a + n} \<and> mm_used mm \<inter> {a..<a + n} = {}))"
  by (rule malloc_kept [OF assms])

theorem rs_malloc_fresh_witness:
  "\<exists>a mm'. rs_malloc 100000 example_buddy 1000 example_mem = Inr (Some a, mm') \<and> mm_ok mm' \<and> {a..<a + 1000} \<subseteq> mm_used mm'"
proof -
  have "\<forall>(a, s)\<in>set (buddies example_mem). 100000 + BUDDY_SIZE \<le> a \<or> a + BUDDY_SIZE \<le> 100000"
    by (simp add: example_mem_def BUDDY_SIZE_def)
  from rs_malloc_fresh [OF example_mem_ok _ this, of 1000 example_buddy] obtain p mm' where
    r: "rs_malloc 100000 example_buddy 1000 example_mem = Inr (p, mm')" "mm_ok mm'"
    "case p of None \<Rightarrow> mm' = example_mem \<and> 65536 < unat (1000 :: u64)
       | Some a \<Rightarrow> unat (1000 :: u64) \<le> 65536 \<and> (\<exists>n\<ge>unat (1000 :: u64). mm_used mm' = mm_used example_mem \<union> {a..<a + n} \<and> mm_used example_mem \<inter> {a..<a + n} = {})"
    by auto
  have "unat (1000 :: u64) = 1000" by simp
  with r(3) obtain a n where "p = Some a" "1000 \<le> n" "mm_used mm' = mm_used example_mem \<union> {a..<a + n}" by (auto split: option.splits)
  with r(1,2) show ?thesis by auto
qed

subsection \<open>Release\<close>

lemma find_ok:
  assumes "length bs < 2 ^ 31" "\<forall>k<length bs. k < i \<longrightarrow> fst (bs ! k) + BUDDY_SIZE < ptr" "\<forall>k<length bs. i < k \<longrightarrow> ptr < fst (bs ! k)"
    and "i < length bs" "fst (bs ! i) \<le> ptr" "ptr \<le> fst (bs ! i) + BUDDY_SIZE"
  shows "unat l \<le> i \<Longrightarrow> i \<le> unat h \<Longrightarrow> unat h < length bs \<Longrightarrow> unat h - unat l < 2 ^ n \<Longrightarrow> find_loop (Suc n) bs ptr l h = Inr i"
proof (induction n arbitrary: l h)
  case 0
  then have e: "unat l = i" "unat h = i" by simp_all
  then have "l = h" by (simp add: word_unat_eq_iff)
  then have "unat ((l + h) div 2) = i" using e assms(1,4) by (simp add: unat_div unat_word_ariths)
  then show ?case using assms(4-6) by (simp add: Let_def split_beta)
next
  case (Suc n)
  let ?m = "(l + h) div 2"
  have m: "unat ?m = (unat l + unat h) div 2" using Suc.prems assms(1) by (simp add: unat_div unat_word_ariths)
  then have r: "unat l \<le> unat ?m" "unat ?m \<le> unat h" "unat ?m < length bs" using Suc.prems by simp_all
  consider "i < unat ?m" | "unat ?m < i" | "unat ?m = i" by linarith
  then show ?case
  proof cases
    case 1
    then have p: "ptr < fst (bs ! unat ?m)" using assms(3) r(3) by blast
    have u: "unat (?m - 1) = unat ?m - 1" using 1 by (subst unat_sub) (auto simp: word_le_nat_alt)
    have "find_loop (Suc n) bs ptr l (?m - 1) = Inr i"
      by (rule Suc.IH) (use Suc.prems 1 r m u in \<open>simp_all, linarith?\<close>)
    then show ?thesis using p r(3) by (subst find_loop.simps(2)) (simp add: Let_def split_beta del: find_loop.simps)
  next
    case 2
    then have p: "fst (bs ! unat ?m) + BUDDY_SIZE < ptr" using assms(2) r(3) by blast
    have u: "unat (?m + 1) = unat ?m + 1" using r(3) assms(1) by (simp add: unat_word_ariths)
    have "find_loop (Suc n) bs ptr (?m + 1) h = Inr i"
      by (rule Suc.IH) (use Suc.prems 2 r m u in \<open>simp_all, linarith?\<close>)
    then show ?thesis using p r(3) by (subst find_loop.simps(2)) (simp add: Let_def split_beta del: find_loop.simps)
  next
    case 3
    then show ?thesis using assms(4-6) by (simp add: Let_def split_beta)
  qed
qed

lemma apart_nth:
  assumes "apart bs" "i < j" "j < length bs"
  shows "fst (bs ! i) + BUDDY_SIZE \<le> fst (bs ! j)"
  using assms unfolding apart_def by (simp add: sorted_wrt_iff_nth_less)

lemma allocs_below: "buddy_ok s \<Longrightarrow> (off, e) \<in> allocs s \<Longrightarrow> off + 2 ^ e \<le> 65536"
proof -
  assume "buddy_ok s" "(off, e) \<in> allocs s"
  moreover have p: "0 < (2::nat) ^ e" by simp
  then have "off \<le> off + (2 ^ e - 1)" "off + (2 ^ e - 1) < off + 2 ^ e" by linarith+
  then have "off + (2 ^ e - 1) \<in> bytes (off, e)" unfolding bytes_def by simp
  ultimately have "off + (2 ^ e - 1) < 65536" using used_below by (force simp: used_bytes_def)
  with p show ?thesis by linarith
qed

text \<open>C22: rs_free takes back exactly the block. For the address of a block of a memory in order it finds the
  buddy system by its binary search, ends, and keeps the memory in order; the bytes in use are
  the old ones without those of the block, and no byte changes its value.
\<close>

theorem rs_free_exact:
  assumes "mm_ok mm" "length (buddies mm) < 2 ^ 31" "(a, s) \<in> set (buddies mm)" "(off, e) \<in> allocs s"
  shows "\<exists>mm'. rs_free (Some (a + MEM_OFFSET + off)) mm = Inr mm' \<and> mm_ok mm' \<and> mm_logs mm' = mm_logs mm
    \<and> mm_used mm' = mm_used mm - {a + MEM_OFFSET + off..<a + MEM_OFFSET + off + 2 ^ e}
    \<and> (\<forall>(b, t)\<in>set (buddies mm). \<exists>t'. (b, t') \<in> set (buddies mm') \<and> base_mem t' = base_mem t)"
proof -
  let ?ptr = "a + MEM_OFFSET + off" and ?bs = "buddies mm" and ?f = "\<lambda>x. a + MEM_OFFSET + x"
  let ?r = "{?ptr..<?ptr + 2 ^ e}"
  have mo: "apart ?bs" "\<forall>(a, s)\<in>set ?bs. buddy_ok s" "full_ckpt_size mm = MM_CKPT_HEADER + POINTER_SIZE + ckpt_need ?bs"
    using assms(1) by (simp_all add: mm_ok_def)
  obtain i where i: "i < length ?bs" "?bs ! i = (a, s)" using assms(3) by (meson in_set_conv_nth)
  have s: "buddy_ok s" using mo(2) assms(3) by auto
  note off = allocs_below [OF s assms(4)]
  have lo: "off < 65536" using off zero_less_power [of "2::nat" e] by linarith
  have "find_loop (Suc 32) ?bs ?ptr 0 (of_nat (length ?bs) - 1) = Inr i"
  proof (rule find_ok [OF assms(2)])
    show "\<forall>k<length ?bs. k < i \<longrightarrow> fst (?bs ! k) + BUDDY_SIZE < ?ptr"
      using apart_nth [OF mo(1)] i by (force simp: MEM_OFFSET_def)
    show "\<forall>k<length ?bs. i < k \<longrightarrow> ?ptr < fst (?bs ! k)"
      using apart_nth [OF mo(1)] i lo by (force simp: MEM_OFFSET_def BUDDY_SIZE_def)
    have "of_nat (length ?bs) - 1 = (of_nat (length ?bs - 1) :: u32)" using i(1) by (simp add: of_nat_diff)
    moreover have "unat (of_nat (length ?bs - 1) :: u32) = length ?bs - 1" using assms(2) by (simp add: unat_of_nat)
    ultimately have u: "unat (of_nat (length ?bs) - 1 :: u32) = length ?bs - 1" by simp
    show "i \<le> unat (of_nat (length ?bs) - 1 :: u32)" "unat (of_nat (length ?bs) - 1 :: u32) < length ?bs"
      "unat (of_nat (length ?bs) - 1 :: u32) - unat (0 :: u32) < 2 ^ 32" unfolding u using i(1) assms(2) by simp_all
  qed (use i lo in \<open>simp_all add: MEM_OFFSET_def BUDDY_SIZE_def\<close>)
  then have f: "buddy_find_by_address mm ?ptr = Inr i" by (simp add: buddy_find_by_address_def FIND_FUEL_def)
  from free_block [OF s assms(4)] obtain s' where s': "buddy_free off s = Inr (2 ^ e, s')" "buddy_ok s'" "base_mem s' = base_mem s"
    "allocs s' = allocs s - {(off, e)}" by blast
  define xs ys where "xs = take i ?bs" and "ys = drop (Suc i) ?bs"
  have d: "?bs = xs @ (a, s) # ys" "?bs[i := (a, s')] = xs @ (a, s') # ys"
    using i id_take_nth_drop [of i ?bs] by (simp_all add: xs_def ys_def upd_conv_take_nth_drop)
  let ?mm = "mm\<lparr>full_ckpt_size := full_ckpt_size mm - 2 ^ e, buddies := xs @ (a, s') # ys\<rparr>"
  have run: "rs_free (Some ?ptr) mm = Inr ?mm" using f i(2) s'(1) d(2) by (simp add: rs_free_def)
  have "used_size s = used_size s' + 2 ^ e"
    unfolding used_size_def s'(4) using assms(4) finite_allocs [of s] by (simp add: sum.remove [of _ "(off, e)"])
  then have "mm_ok ?mm" using mo s'(2) unfolding mm_ok_def d(1) apart_split need_split by (auto simp: apart_split need_split)
  moreover have "mm_used ?mm = mm_used mm - ?r"
  proof -
    have "bytes b \<inter> bytes (off, e) = {}" if "b \<in> allocs s - {(off, e)}" for b
      using allocs_disjoint [of b s "(off, e)"] that assms(4) by blast
    then have "used_bytes s' = used_bytes s - bytes (off, e)" unfolding used_bytes_def s'(4) by blast
    then have "?f ` used_bytes s' = ?f ` used_bytes s - ?f ` bytes (off, e)" by (simp add: image_set_diff inj_def)
    moreover have "?f ` bytes (off, e) = ?r" using image_range [of "a + MEM_OFFSET" off "2 ^ e"] by (simp add: bytes_def)
    ultimately have 1: "?f ` used_bytes s' = ?f ` used_bytes s - ?r" by simp
    let ?o = "\<Union>(b, t)\<in>set xs \<union> set ys. (\<lambda>x. b + MEM_OFFSET + x) ` used_bytes t"
    have 2: "?o \<inter> ?r = {}" by (rule outside_range) (use mo off in \<open>auto simp: d(1)\<close>)
    have 3: "buddies ?mm = xs @ (a, s') # ys" by simp
    have "A \<union> (U - R) = (A \<union> U) - R" if "A \<inter> R = {}" for A U R :: "nat set" using that by blast
    then show ?thesis unfolding mm_used_split [OF 3] mm_used_split [OF d(1)] 1 using 2 by blast
  qed
  ultimately show ?thesis using run s'(3) by (intro exI [of _ ?mm]) (auto simp: d(1))
qed

theorem rs_free_exact_witness:
  "\<exists>off mm'. rs_free (Some (200000 + MEM_OFFSET + off)) example_mem = Inr mm' \<and> mm_ok mm' \<and> mm_used mm' = {}"
proof -
  have "buddy_ok example_buddy" "allocs example_buddy = {}" using buddy_init_ok by (simp_all add: example_buddy_def)
  with malloc_exact [of example_buddy 7] obtain off s where "buddy_malloc 7 example_buddy = Inr (Some off, s)" "allocs s = {(off, 7)}"
    by (fastforce split: option.splits)
  then have a: "allocs example_block = {(off, 7)}" by (simp add: example_block_def)
  have "length (buddies example_mem) < 2 ^ 31" "(200000, example_block) \<in> set (buddies example_mem)" by (simp_all add: example_mem_def)
  from rs_free_exact [OF example_mem_ok this, of off 7] a obtain mm' where
    m: "rs_free (Some (200000 + MEM_OFFSET + off)) example_mem = Inr mm'" "mm_ok mm'"
      "mm_used mm' = mm_used example_mem - {200000 + MEM_OFFSET + off..<200000 + MEM_OFFSET + off + 2 ^ 7}" by auto
  have "mm_used example_mem \<subseteq> {200000 + MEM_OFFSET + off..<200000 + MEM_OFFSET + off + 2 ^ 7}"
    by (auto simp: mm_used_def example_mem_def used_bytes_def a bytes_def)
  with m show ?thesis by blast
qed

end
