(* ===== verification/DynArray.thy ===== *)
theory DynArray
  imports Prelude "HOL-Library.While_Combinator"
begin

text \<open>
  The dynamic array macros of datatypes/array.h. The elements in use are a list; the allocated
  size is a 32 bit word, as array_count_t is, so doubling it can wrap. The macros check no
  index: an access outside the elements in use, or a write outside the allocated size, is a
  fault. A loop that does not end is the result None; a failed allocation ends the program in
  mm_realloc and is not modelled.

  The results: the invariant that the elements fit into the allocated size, kept by every
  macro; array_reserve returns exactly for less than 2 to the 31 elements; what the macros do
  to the list of the elements.
\<close>

record 'a dyn_array =
  ar_items :: "'a list"
  ar_capacity :: u32

definition INIT_SIZE_ARRAY :: u32 where "INIT_SIZE_ARRAY = 8"

definition array_count :: "'a dyn_array \<Rightarrow> u32" where
  "array_count a = of_nat (length (ar_items a))"

definition array_peek :: "'a dyn_array \<Rightarrow> 'a res" where
  "array_peek a = (if ar_items a = [] then Inl OutOfBounds else Inr (last (ar_items a)))"

definition array_get_at :: "'a dyn_array \<Rightarrow> nat \<Rightarrow> 'a res" where
  "array_get_at a i = nthR (ar_items a) i"

definition array_is_empty :: "'a dyn_array \<Rightarrow> bool" where
  "array_is_empty a \<longleftrightarrow> array_count a = 0"

definition array_init :: "'a dyn_array" where
  "array_init = \<lparr>ar_items = [], ar_capacity = INIT_SIZE_ARRAY\<rparr>"

definition array_expand :: "'a dyn_array \<Rightarrow> 'a dyn_array" where
  "array_expand a = (if array_count a \<ge> ar_capacity a then a\<lparr>ar_capacity := ar_capacity a * 2\<rparr> else a)"

definition array_shrink :: "'a dyn_array \<Rightarrow> 'a dyn_array" where
  "array_shrink a = (if array_count a > INIT_SIZE_ARRAY \<and> array_count a * 3 \<le> ar_capacity a
     then a\<lparr>ar_capacity := ar_capacity a div 2\<rparr> else a)"

definition array_reserve :: "'a dyn_array \<Rightarrow> u32 \<Rightarrow> 'a dyn_array option" where
  "array_reserve a n =
     (let tcnt = array_count a + n in
      map_option (\<lambda>c. a\<lparr>ar_capacity := c\<rparr>) (while_option (\<lambda>c. tcnt \<ge> c) (\<lambda>c. c * 2) (ar_capacity a)))"

definition array_push :: "'a dyn_array \<Rightarrow> 'a \<Rightarrow> 'a dyn_array res" where
  "array_push a x =
     (let a = array_expand a in
      bindR (guardR (array_count a < ar_capacity a) OutOfBounds) (\<lambda>_. Inr (a\<lparr>ar_items := ar_items a @ [x]\<rparr>)))"

definition array_pop :: "'a dyn_array \<Rightarrow> ('a \<times> 'a dyn_array) res" where
  "array_pop a = (if ar_items a = [] then Inl OutOfBounds
     else Inr (last (ar_items a), a\<lparr>ar_items := butlast (ar_items a)\<rparr>))"

definition array_add_at :: "'a dyn_array \<Rightarrow> nat \<Rightarrow> 'a \<Rightarrow> 'a dyn_array res" where
  "array_add_at a i x =
     (let a = array_expand a; xs = ar_items a in
      bindR (guardR (array_count a < ar_capacity a \<and> i \<le> length xs) OutOfBounds) (\<lambda>_.
        Inr (a\<lparr>ar_items := take i xs @ x # drop i xs\<rparr>)))"

definition array_remove_at :: "'a dyn_array \<Rightarrow> nat \<Rightarrow> ('a \<times> 'a dyn_array) res" where
  "array_remove_at a i =
     (let xs = ar_items a in
      bindR (nthR xs i) (\<lambda>x. Inr (x, array_shrink (a\<lparr>ar_items := take i xs @ drop (Suc i) xs\<rparr>))))"

definition array_truncate_first :: "'a dyn_array \<Rightarrow> nat \<Rightarrow> 'a dyn_array res" where
  "array_truncate_first a n =
     bindR (guardR (n \<le> length (ar_items a)) OutOfBounds) (\<lambda>_. Inr (a\<lparr>ar_items := drop n (ar_items a)\<rparr>))"

definition array_lazy_remove_at :: "'a dyn_array \<Rightarrow> nat \<Rightarrow> 'a dyn_array res" where
  "array_lazy_remove_at a i =
     (let xs = ar_items a in
      bindR (guardR (i < length xs) OutOfBounds) (\<lambda>_. Inr (a\<lparr>ar_items := butlast (xs[i := last xs])\<rparr>)))"

subsection \<open>The invariant\<close>

definition arr_ok :: "'a dyn_array \<Rightarrow> bool" where
  "arr_ok a \<longleftrightarrow> length (ar_items a) \<le> unat (ar_capacity a) \<and> 8 \<le> unat (ar_capacity a)"

lemma arr_count: "arr_ok a \<Longrightarrow> unat (array_count a) = length (ar_items a)"
  using unsigned_less [of "ar_capacity a", where 'a = nat] by (simp add: arr_ok_def array_count_def unat_of_nat)

lemma array_init_ok [inv_intros]: "arr_ok array_init"
  by (simp add: arr_ok_def array_init_def INIT_SIZE_ARRAY_def)

lemma unat_double: "unat (c :: u32) < 2 ^ 31 \<Longrightarrow> unat (c * 2) = 2 * unat c"
  by (simp add: unat_word_ariths)

lemma array_expand_ok:
  assumes "arr_ok a" "length (ar_items a) < 2 ^ 31"
  shows "arr_ok (array_expand a)" "ar_items (array_expand a) = ar_items a"
    "array_count (array_expand a) < ar_capacity (array_expand a)"
proof -
  have "arr_ok (array_expand a) \<and> ar_items (array_expand a) = ar_items a
     \<and> array_count (array_expand a) < ar_capacity (array_expand a)"
  proof (cases "array_count a \<ge> ar_capacity a")
    case True
    with assms(1) have c: "unat (ar_capacity a) = length (ar_items a)"
      using arr_count [OF assms(1)] by (simp add: arr_ok_def word_le_nat_alt)
    with assms have "unat (ar_capacity a * 2) = 2 * length (ar_items a)" by (simp add: unat_double)
    with True c assms(1) show ?thesis
      using arr_count [OF assms(1)] by (auto simp: array_expand_def arr_ok_def array_count_def word_less_nat_alt)
  next
    case False
    with assms show ?thesis by (auto simp: array_expand_def)
  qed
  then show "arr_ok (array_expand a)" "ar_items (array_expand a) = ar_items a"
    "array_count (array_expand a) < ar_capacity (array_expand a)" by auto
qed

text \<open>The product in array_shrink wraps for more than a third of 2 to the 32 elements.\<close>

lemma array_shrink_ok:
  assumes "arr_ok a" "3 * length (ar_items a) < 2 ^ 32"
  shows "arr_ok (array_shrink a)" "ar_items (array_shrink a) = ar_items a"
proof -
  have n: "unat (array_count a) = length (ar_items a)" by (rule arr_count [OF assms(1)])
  have "length (ar_items a) \<le> unat (ar_capacity a div 2) \<and> 8 \<le> unat (ar_capacity a div 2)"
    if "array_count a > INIT_SIZE_ARRAY" "array_count a * 3 \<le> ar_capacity a"
  proof -
    have "unat (array_count a * 3) = 3 * length (ar_items a)" using assms(2) n by (simp add: unat_word_ariths)
    with that n have "3 * length (ar_items a) \<le> unat (ar_capacity a)" "8 < length (ar_items a)"
      by (auto simp: word_le_nat_alt word_less_nat_alt INIT_SIZE_ARRAY_def)
    then have "length (ar_items a) \<le> unat (ar_capacity a) div 2" "8 \<le> unat (ar_capacity a) div 2" by linarith+
    then show ?thesis by (simp add: unat_div)
  qed
  then show "arr_ok (array_shrink a)" using assms(1) by (auto simp: array_shrink_def arr_ok_def)
  show "ar_items (array_shrink a) = ar_items a" by (simp add: array_shrink_def)
qed

subsection \<open>Reserving\<close>

text \<open>The loop of array_reserve on numbers: doubling a capacity of at least 8 until it exceeds the count.\<close>

lemma reserve_loop_returns:
  fixes t :: nat
  assumes "8 \<le> unat (c :: u32)" "t < 2 ^ 31"
  shows "\<exists>c'. while_option (\<lambda>c. (of_nat t :: u32) \<ge> c) (\<lambda>c. c * 2) c = Some c' \<and> t < unat c' \<and> unat c \<le> unat c'
     \<and> (unat c' \<le> 2 * t \<or> c' = c)"
  using assms(1)
proof (induction "t + 1 - unat c" arbitrary: c rule: less_induct)
  case less
  have t: "unat (of_nat t :: u32) = t" using assms(2) by (simp add: unat_of_nat)
  show ?case
  proof (cases "(of_nat t :: u32) \<ge> c")
    case True
    with t have c: "unat c \<le> t" by (simp add: word_le_nat_alt)
    with assms(2) have d: "unat (c * 2) = 2 * unat c" by (simp add: unat_double)
    with less.prems c have "t + 1 - unat (c * 2) < t + 1 - unat c" "8 \<le> unat (c * 2)" by auto
    from less.hyps [OF this] obtain c' where
      "while_option (\<lambda>c. (of_nat t :: u32) \<ge> c) (\<lambda>c. c * 2) (c * 2) = Some c'" "t < unat c'" "unat (c * 2) \<le> unat c'"
      "unat c' \<le> 2 * t \<or> c' = c * 2" by blast
    with True c d show ?thesis by (subst while_option_unfold) auto
  next
    case False
    with t show ?thesis by (subst while_option_unfold) (auto simp: word_le_nat_alt)
  qed
qed

text \<open>Beyond that the capacity reaches 0 and stays there.\<close>

lemma reserve_loop_diverges:
  assumes "unat (t :: u32) \<ge> 2 ^ 31" "c \<in> insert 0 ((\<lambda>k. 2 ^ k) ` {k. k < 32})"
  shows "while_option (\<lambda>c. t \<ge> c) (\<lambda>c. c * 2) c = None"
proof -
  let ?I = "insert 0 ((\<lambda>k. 2 ^ k) ` {k. k < 32}) :: u32 set"
  have step: "d * 2 \<in> ?I \<and> t \<ge> d" if "d \<in> ?I" for d
  proof -
    from that consider "d = 0" | k where "d = 2 ^ k" "k < 32" by auto
    then show ?thesis
    proof cases
      case 2
      have "d = of_nat (2 ^ k)" using 2 by simp
      moreover have "(2 :: nat) ^ k < 2 ^ 32" using 2(2) by (intro power_strict_increasing) simp_all
      ultimately have "unat d = 2 ^ k" by (simp only: unat_of_nat) simp
      moreover have "(2 :: nat) ^ k \<le> 2 ^ 31" using 2(2) by (intro power_increasing) simp_all
      ultimately have "t \<ge> d" using assms(1) by (simp add: word_le_nat_alt)
      moreover have "d * 2 \<in> ?I"
      proof (cases "k = 31")
        case True
        then show ?thesis using 2 by simp
      next
        case False
        then show ?thesis using 2 by (intro insertI2 image_eqI [of _ _ "Suc k"]) auto
      qed
      ultimately show ?thesis by simp
    qed simp
  qed
  have pow: "((\<lambda>c. c * 2) ^^ n) c \<in> ?I" for n
    using assms(2) step by (induction n) auto
  show ?thesis
  proof (rule ccontr)
    assume "while_option (\<lambda>c. t \<ge> c) (\<lambda>c. c * 2) c \<noteq> None"
    then obtain d where "while_option (\<lambda>c. t \<ge> c) (\<lambda>c. c * 2) c = Some d" by auto
    from while_option_stop2 [OF this] obtain n where "d = ((\<lambda>c. c * 2) ^^ n) c" "\<not> t \<ge> d" by auto
    with pow step show False by blast
  qed
qed

lemma array_reserve_ok:
  assumes "arr_ok a" "length (ar_items a) + n < 2 ^ 31"
  shows "\<exists>a'. array_reserve a (of_nat n) = Some a' \<and> ar_items a' = ar_items a \<and> arr_ok a'
     \<and> length (ar_items a) + n < unat (ar_capacity a')"
proof -
  have t: "array_count a + of_nat n = of_nat (length (ar_items a) + n)" by (simp add: array_count_def)
  from reserve_loop_returns [OF _ assms(2), of "ar_capacity a"] assms(1) obtain c' where
    "while_option (\<lambda>c. of_nat (length (ar_items a) + n) \<ge> c) (\<lambda>c. c * 2) (ar_capacity a) = Some c'"
    "length (ar_items a) + n < unat c'" "unat (ar_capacity a) \<le> unat c'" by (auto simp: arr_ok_def)
  with assms(1) show ?thesis by (simp add: array_reserve_def t Let_def arr_ok_def)
qed

text \<open>
  array_reserve ends for fewer than 2 to the 31 elements in all, leaves the elements alone and
  makes room for one element more than asked; with capacities that start at 8, as
  array_init gives them, it never ends for 2 to the 31 or more.
\<close>

lemma array_reserve_returns:
  assumes "arr_ok a" and "length (ar_items a) + n < 2 ^ 32" and "\<exists>k. ar_capacity a = 2 ^ k"
  shows "(case array_reserve a (of_nat n) of
       None \<Rightarrow> 2 ^ 31 \<le> length (ar_items a) + n
     | Some a' \<Rightarrow> length (ar_items a) + n < 2 ^ 31 \<and> ar_items a' = ar_items a \<and> arr_ok a'
         \<and> length (ar_items a) + n < unat (ar_capacity a'))"
proof (cases "length (ar_items a) + n < 2 ^ 31")
  case True
  with array_reserve_ok [OF assms(1)] show ?thesis by fastforce
next
  case False
  let ?t = "of_nat (length (ar_items a) + n) :: u32"
  have "unat ?t = length (ar_items a) + n" using assms(2) by (simp only: unat_of_nat) simp
  with False have "2 ^ 31 \<le> unat ?t" by simp
  moreover obtain k where k: "ar_capacity a = 2 ^ k" using assms(3) by blast
  have "k < 32"
  proof (rule ccontr)
    assume "\<not> k < 32"
    then have "(2 :: u32) ^ k = 0" by (simp add: exp_eq_zero_iff)
    with k assms(1) show False by (simp add: arr_ok_def)
  qed
  with k have "ar_capacity a \<in> insert 0 ((\<lambda>k. 2 ^ k) ` {k. k < 32})" by blast
  ultimately have "while_option (\<lambda>c. ?t \<ge> c) (\<lambda>c. c * 2) (ar_capacity a) = None" by (rule reserve_loop_diverges)
  with False show ?thesis by (simp add: array_reserve_def array_count_def Let_def)
qed

subsection \<open>The list of the elements\<close>

lemma array_push_ok:
  assumes "arr_ok a" "length (ar_items a) < 2 ^ 31"
  shows "\<exists>a'. array_push a x = Inr a' \<and> ar_items a' = ar_items a @ [x] \<and> arr_ok a'"
proof -
  note e = array_expand_ok [OF assms]
  have "length (ar_items a) < unat (ar_capacity (array_expand a))"
    using e arr_count [OF e(1)] by (simp add: word_less_nat_alt)
  with e show ?thesis by (simp add: array_push_def Let_def arr_ok_def)
qed

lemma array_pop_push: "array_push a x = Inr a' \<Longrightarrow> array_pop a' = Inr (x, a'\<lparr>ar_items := ar_items a\<rparr>)"
  by (auto simp: array_push_def array_pop_def array_expand_def Let_def bindR_eq_Inr)

lemma array_add_at_ok:
  assumes "arr_ok a" "length (ar_items a) < 2 ^ 31" "i \<le> length (ar_items a)"
  shows "\<exists>a'. array_add_at a i x = Inr a' \<and> ar_items a' = take i (ar_items a) @ x # drop i (ar_items a) \<and> arr_ok a'"
proof -
  note e = array_expand_ok [OF assms(1,2)]
  have "length (ar_items a) < unat (ar_capacity (array_expand a))"
    using e arr_count [OF e(1)] by (simp add: word_less_nat_alt)
  with e assms(3) show ?thesis by (auto simp: array_add_at_def Let_def arr_ok_def)
qed

lemma array_remove_at_ok:
  assumes "arr_ok a" "3 * length (ar_items a) < 2 ^ 32" "i < length (ar_items a)"
  shows "\<exists>a'. array_remove_at a i = Inr (ar_items a ! i, a')
     \<and> ar_items a' = take i (ar_items a) @ drop (Suc i) (ar_items a) \<and> arr_ok a'"
proof -
  let ?b = "a\<lparr>ar_items := take i (ar_items a) @ drop (Suc i) (ar_items a)\<rparr>"
  have "arr_ok ?b" "3 * length (ar_items ?b) < 2 ^ 32" using assms by (auto simp: arr_ok_def)
  from array_shrink_ok [OF this] assms(3) show ?thesis by (simp add: array_remove_at_def Let_def)
qed

text \<open>
  removing at an index undoes adding there: the elements are what they were, the removed
  element is the one that was added, and the array is still in order.
\<close>

lemma array_add_remove:
  assumes "arr_ok a" and "3 * length (ar_items a) + 3 < 2 ^ 32" and "i \<le> length (ar_items a)"
  shows "\<exists>b c. array_add_at a i x = Inr b \<and> array_remove_at b i = Inr (x, c) \<and> ar_items c = ar_items a \<and> arr_ok c"
proof -
  from assms(2) have "length (ar_items a) < 2 ^ 31" by simp
  from array_add_at_ok [OF assms(1) this assms(3), of x] obtain b where
    b: "array_add_at a i x = Inr b" "ar_items b = take i (ar_items a) @ x # drop i (ar_items a)" "arr_ok b" by blast
  have "3 * length (ar_items b) < 2 ^ 32" "i < length (ar_items b)" "ar_items b ! i = x"
    using b(2) assms(2,3) by (auto simp: nth_append)
  with array_remove_at_ok [OF b(3)] obtain c where
    "array_remove_at b i = Inr (x, c)" "ar_items c = take i (ar_items b) @ drop (Suc i) (ar_items b)" "arr_ok c" by force
  with b assms(3) show ?thesis by (simp add: min_def)
qed

end
