(* ===== verification/Heap.thy ===== *)
theory Heap
  imports DynArray
begin

text \<open>
  The binary heap of datatypes/heap.h. A heap is the list of its elements in array order and
  cmp_f an argument \<open>lt\<close>; the macros move a hole up or down the array and write the element into
  it at the end. The room for the new element comes from array_reserve and is not looked at
  here.

  The contract of a queue that gives back the first element of an order is the locale
  \<open>priority_queue\<close>; the order may leave elements undecided (\<open>weak_order\<close>), as messages of
  one time do. The heap is shown to satisfy the contract for every such order.
\<close>

subsection \<open>The macros\<close>

text \<open>The loop of heap_insert, for a heap in which a node has k children (2 here, 4 in the other heap).\<close>

function sift_up :: "nat \<Rightarrow> ('a \<Rightarrow> 'a \<Rightarrow> bool) \<Rightarrow> 'a \<Rightarrow> 'a list \<Rightarrow> nat \<Rightarrow> 'a list \<times> nat" where
  "sift_up k lt elem items i =
     (if 0 < i \<and> lt elem (items ! ((i - 1) div k))
      then sift_up k lt elem (items[i := items ! ((i - 1) div k)]) ((i - 1) div k)
      else (items[i := elem], i))"
  by pat_completeness auto
termination
  by (relation "measure (\<lambda>(_, _, _, _, i). i)")
    (auto intro: order.strict_trans1 [OF div_le_dividend])

declare sift_up.simps [simp del]

definition heap_insert :: "('a \<Rightarrow> 'a \<Rightarrow> bool) \<Rightarrow> 'a list \<Rightarrow> 'a \<Rightarrow> 'a list \<times> nat" where
  "heap_insert lt items elem = sift_up 2 lt elem (items @ [elem]) (length items)"

text \<open>The loop of heap_insert_n over j, from the last element to the first.\<close>

fun heap_insert_n :: "('a \<Rightarrow> 'a \<Rightarrow> bool) \<Rightarrow> 'a list \<Rightarrow> 'a list \<Rightarrow> nat \<Rightarrow> 'a list res" where
  "heap_insert_n lt items ins 0 = Inr items"
| "heap_insert_n lt items ins (Suc j) =
     bindR (nthR ins j) (\<lambda>x. heap_insert_n lt (fst (heap_insert lt items x)) ins j)"

definition heap_min :: "'a list \<Rightarrow> 'a res" where
  "heap_min items = nthR items 0"

text \<open>The loop of heap_extract: j is the hole, i its first child.\<close>

function sift_down :: "('a \<Rightarrow> 'a \<Rightarrow> bool) \<Rightarrow> 'a \<Rightarrow> 'a list \<Rightarrow> nat \<Rightarrow> nat \<Rightarrow> 'a list" where
  "sift_down lt elem items i j =
     (if i < length items then
        let i = (if i + 1 < length items \<and> lt (items ! (i + 1)) (items ! i) then i + 1 else i) in
        if \<not> lt (items ! i) elem then items[j := elem]
        else sift_down lt elem (items[j := items ! i]) (i * 2 + 1) i
      else items[j := elem])"
  by pat_completeness auto
termination
  by (relation "measure (\<lambda>(_, _, items, i, _). length items - i)") (auto simp: Let_def split: if_splits)

declare sift_down.simps [simp del]

definition heap_extract :: "('a \<Rightarrow> 'a \<Rightarrow> bool) \<Rightarrow> 'a list \<Rightarrow> ('a \<times> 'a list) res" where
  "heap_extract lt items =
     (if items = [] then Inl OutOfBounds
      else Inr (hd items, sift_down lt (last items) (butlast items) 1 0))"

subsection \<open>The contract of a priority queue\<close>

locale weak_order =
  fixes lt :: "'a \<Rightarrow> 'a \<Rightarrow> bool"
  assumes asym: "lt a b \<Longrightarrow> \<not> lt b a"
    and ntrans: "\<not> lt a b \<Longrightarrow> \<not> lt b c \<Longrightarrow> \<not> lt a c"
begin

lemma irrefl [simp]: "\<not> lt a a"
  using asym by blast

lemma trans: "lt a b \<Longrightarrow> lt b c \<Longrightarrow> lt a c"
  using asym ntrans by blast

lemma less_le_trans: "lt a b \<Longrightarrow> \<not> lt c b \<Longrightarrow> lt a c"
  using ntrans by blast

lemma le_less_trans: "\<not> lt b a \<Longrightarrow> lt b c \<Longrightarrow> lt a c"
  using ntrans by blast

end

text \<open>
  Extraction is an operation of the queue type alone here; what the elements of a queue are is
  their multiset, and \<open>ok\<close> is the invariant of the representation.
\<close>

locale priority_queue = weak_order lt for lt :: "'a \<Rightarrow> 'a \<Rightarrow> bool" +
  fixes ok :: "'q \<Rightarrow> bool" and elems :: "'q \<Rightarrow> 'a multiset"
    and put :: "'q \<Rightarrow> 'a \<Rightarrow> 'q" and take_first :: "'q \<Rightarrow> ('a \<times> 'q) res"
  assumes put_ok: "ok q \<Longrightarrow> ok (put q x)"
    and put_elems: "ok q \<Longrightarrow> elems (put q x) = add_mset x (elems q)"
    and take_some: "ok q \<Longrightarrow> elems q \<noteq> {#} \<Longrightarrow> \<exists>x q'. take_first q = Inr (x, q')"
    and take_first: "ok q \<Longrightarrow> take_first q = Inr (x, q') \<Longrightarrow>
      ok q' \<and> elems q = add_mset x (elems q') \<and> (\<forall>y\<in>#elems q. \<not> lt y x)"
begin

text \<open>Taking n elements out, one after the other.\<close>

fun drain :: "nat \<Rightarrow> 'q \<Rightarrow> ('a list \<times> 'q) res" where
  "drain 0 q = Inr ([], q)"
| "drain (Suc n) q = bindR (take_first q) (\<lambda>(x, q). bindR (drain n q) (\<lambda>(xs, q). Inr (x # xs, q)))"

lemma drain_sorted:
  assumes "ok q" "n \<le> size (elems q)"
  shows "\<exists>xs q'. drain n q = Inr (xs, q') \<and> ok q' \<and> length xs = n \<and> elems q = mset xs + elems q'
     \<and> sorted_wrt (\<lambda>x y. \<not> lt y x) xs \<and> (\<forall>x\<in>set xs. \<forall>y\<in>#elems q'. \<not> lt y x)"
  using assms
proof (induction n arbitrary: q)
  case (Suc n)
  then have "elems q \<noteq> {#}" by auto
  with Suc.prems take_some obtain x q1 where x: "take_first q = Inr (x, q1)" by blast
  note t = take_first [OF Suc.prems(1) x]
  with Suc.prems(2) have "n \<le> size (elems q1)" by simp
  with Suc.IH [of q1] t obtain xs q' where d: "drain n q1 = Inr (xs, q')" "ok q'" "length xs = n"
    "elems q1 = mset xs + elems q'" "sorted_wrt (\<lambda>x y. \<not> lt y x) xs" "\<forall>x\<in>set xs. \<forall>y\<in>#elems q'. \<not> lt y x" by blast
  have "\<forall>y\<in>set xs. \<not> lt y x" "\<forall>y\<in>#elems q'. \<not> lt y x" using t d(4) by auto
  with x d t show ?case by (intro exI [of _ "x # xs"] exI [of _ q']) auto
qed simp

end

subsection \<open>The heap order\<close>

definition heap_at :: "nat \<Rightarrow> ('a \<Rightarrow> 'a \<Rightarrow> bool) \<Rightarrow> 'a list \<Rightarrow> bool" where
  "heap_at k lt xs \<longleftrightarrow> (\<forall>m. 0 < m \<and> m < length xs \<longrightarrow> \<not> lt (xs ! m) (xs ! ((m - 1) div k)))"

text \<open>
  In order but for one node: below i everything is, and the children of i do not come before
  the parent of i (\<open>heap_but_up\<close>); or everything but the children of i is, and these do not come
  before the parent of i (\<open>heap_but_down\<close>).
\<close>

definition heap_but_up :: "nat \<Rightarrow> ('a \<Rightarrow> 'a \<Rightarrow> bool) \<Rightarrow> nat \<Rightarrow> 'a list \<Rightarrow> bool" where
  "heap_but_up k lt i xs \<longleftrightarrow> (\<forall>m. 0 < m \<and> m < length xs \<and> m \<noteq> i \<longrightarrow> \<not> lt (xs ! m) (xs ! ((m - 1) div k)))
     \<and> (\<forall>m. 0 < i \<and> 0 < m \<and> m < length xs \<and> (m - 1) div k = i \<longrightarrow> \<not> lt (xs ! m) (xs ! ((i - 1) div k)))"

definition heap_but_down :: "nat \<Rightarrow> ('a \<Rightarrow> 'a \<Rightarrow> bool) \<Rightarrow> nat \<Rightarrow> 'a list \<Rightarrow> bool" where
  "heap_but_down k lt i xs \<longleftrightarrow>
     (\<forall>m. 0 < m \<and> m < length xs \<and> (m - 1) div k \<noteq> i \<longrightarrow> \<not> lt (xs ! m) (xs ! ((m - 1) div k)))
     \<and> (\<forall>m. 0 < i \<and> 0 < m \<and> m < length xs \<and> (m - 1) div k = i \<longrightarrow> \<not> lt (xs ! m) (xs ! ((i - 1) div k)))"

lemma heap_at_cong:
  "heap_at k lt xs \<Longrightarrow> (\<And>x y. x \<in> set xs \<Longrightarrow> y \<in> set xs \<Longrightarrow> lt' x y = lt x y) \<Longrightarrow> heap_at k lt' xs"
  unfolding heap_at_def by (metis diff_le_self div_le_dividend le_less_trans nth_mem order.trans)

lemma parent_less: "0 < m \<Longrightarrow> (m - 1) div k < (m :: nat)"
  using div_le_dividend [of "m - 1" k] by linarith

lemma mset_swapped:
  "i < length xs \<Longrightarrow> j < length xs \<Longrightarrow> mset (xs[j := xs ! i, i := xs ! j]) = mset xs"
  by (simp add: mset_swap)

context weak_order
begin

lemma heap_root:
  assumes "heap_at k lt xs" "m < length xs"
  shows "\<not> lt (xs ! m) (xs ! 0)"
  using assms(2)
proof (induction m rule: less_induct)
  case (less m)
  show ?case
  proof (cases "m = 0")
    case False
    with parent_less [of m k] less have "\<not> lt (xs ! ((m - 1) div k)) (xs ! 0)" by auto
    moreover have "\<not> lt (xs ! m) (xs ! ((m - 1) div k))" using assms(1) less.prems False by (simp add: heap_at_def)
    ultimately show ?thesis using ntrans by blast
  qed simp
qed

lemma but_up_step:
  assumes up: "heap_but_up k lt i ys" and i: "0 < i" "i < length ys" and lt: "lt (ys ! i) (ys ! ((i - 1) div k))"
  defines "p \<equiv> (i - 1) div k"
  shows "heap_but_up k lt p (ys[i := ys ! p, p := ys ! i])"
proof -
  let ?zs = "ys[i := ys ! p, p := ys ! i]"
  have p: "p < i" using parent_less [OF i(1)] by (simp add: p_def)
  have nth: "?zs ! m = (if m = i then ys ! p else if m = p then ys ! i else ys ! m)" if "m < length ys" for m
    using that p i by (auto simp: nth_list_update)
  have ord: "\<not> lt (ys ! m) (ys ! ((m - 1) div k))" if "0 < m" "m < length ys" "m \<noteq> i" for m
    using up that by (simp add: heap_but_up_def)
  have child: "\<not> lt (ys ! m) (ys ! p)" if "0 < m" "m < length ys" "(m - 1) div k = i" for m
    using up that i(1) by (simp add: heap_but_up_def p_def)
  have below: "\<not> lt (ys ! p) (ys ! i)" using lt asym by (simp add: p_def)
  have "\<not> lt (?zs ! m) (?zs ! ((m - 1) div k))" if m: "0 < m" "m < length ys" "m \<noteq> p" for m
  proof -
    have q: "(m - 1) div k < length ys" using parent_less [OF m(1), of k] m(2) by simp
    consider "m = i" | "m \<noteq> i" "(m - 1) div k = i" | "m \<noteq> i" "(m - 1) div k = p" | "m \<noteq> i" "(m - 1) div k \<noteq> i" "(m - 1) div k \<noteq> p"
      by blast
    then show ?thesis
    proof cases
      case 1
      then have "(m - 1) div k = p" by (simp only: p_def)
      with 1 show ?thesis using below p i nth [of i] nth [of p] by (simp del: One_nat_def)
    next
      case 2
      then show ?thesis using child [OF m(1,2)] nth [OF m(2)] nth [OF q] m(3) by simp
    next
      case 3
      with ord [OF m(1,2)] ntrans [OF _ below] show ?thesis using nth [OF m(2)] nth [OF q] m(3) p by auto
    next
      case 4
      then show ?thesis using ord [OF m(1,2)] nth [OF m(2)] nth [OF q] m(3) by simp
    qed
  qed
  moreover have "\<not> lt (?zs ! m) (?zs ! ((p - 1) div k))"
    if m: "0 < p" "0 < m" "m < length ys" "(m - 1) div k = p" for m
  proof -
    have pp: "(p - 1) div k < p" by (rule parent_less [OF m(1)])
    then have g: "?zs ! ((p - 1) div k) = ys ! ((p - 1) div k)" using nth p i by simp
    have up_p: "\<not> lt (ys ! p) (ys ! ((p - 1) div k))" using ord [OF m(1)] p i by simp
    show ?thesis
    proof (cases "m = i")
      case True
      then show ?thesis using up_p g nth p i by simp
    next
      case False
      have "m \<noteq> p" using parent_less [OF m(2), of k] m(4) by auto
      with False ord [OF m(2,3)] m(4) up_p have "\<not> lt (ys ! m) (ys ! ((p - 1) div k))" using ntrans by auto
      with False \<open>m \<noteq> p\<close> g nth [OF m(3)] show ?thesis by simp
    qed
  qed
  ultimately show ?thesis by (simp add: heap_but_up_def)
qed

lemma but_up_done:
  assumes "heap_but_up k lt i ys" "\<not> (0 < i \<and> lt (ys ! i) (ys ! ((i - 1) div k)))"
  shows "heap_at k lt ys"
  using assms unfolding heap_but_up_def heap_at_def by blast

lemma sift_up_ok:
  assumes "heap_but_up k lt i (items[i := elem])" "i < length items" "sift_up k lt elem items i = (zs, j)"
  shows "heap_at k lt zs \<and> mset zs = mset (items[i := elem]) \<and> j < length items \<and> zs ! j = elem \<and> length zs = length items"
  using assms
proof (induction i arbitrary: items rule: less_induct)
  case (less i)
  let ?p = "(i - 1) div k" and ?ys = "items[i := elem]"
  show ?case
  proof (cases "0 < i \<and> lt elem (items ! ?p)")
    case True
    then have p: "?p < i" using parent_less by blast
    let ?zs = "items[i := items ! ?p, ?p := elem]"
    have sw: "?ys[i := ?ys ! ?p, ?p := ?ys ! i] = ?zs" using p less.prems(2) by (simp del: One_nat_def)
    have up: "heap_but_up k lt ?p ?zs"
      using but_up_step [OF less.prems(1)] True p less.prems(2) unfolding sw by (simp del: One_nat_def)
    have m: "mset ?zs = mset ?ys" using mset_swapped [of ?p ?ys i] p less.prems(2) sw
      by (simp del: One_nat_def add: list_update_swap)
    have "sift_up k lt elem (items[i := items ! ?p]) ?p = (zs, j)"
      using less.prems(3) True by (subst (asm) sift_up.simps) (simp del: One_nat_def)
    from less.IH [OF p up _ this] p less.prems(2) m show ?thesis by (simp del: One_nat_def)
  next
    case False
    then have "zs = ?ys" "j = i" using less.prems(3) by (subst (asm) sift_up.simps, auto)+
    moreover have "\<not> (0 < i \<and> lt (?ys ! i) (?ys ! ?p))"
      using False less.prems(2) parent_less [of i k] by (auto simp del: One_nat_def)
    ultimately show ?thesis using but_up_done [OF less.prems(1)] less.prems(2) by simp
  qed
qed

lemma but_up_last:
  assumes "heap_at k lt xs" "0 < k"
  shows "heap_but_up k lt (length xs) (xs @ [x])"
proof -
  have "\<not> lt ((xs @ [x]) ! m) ((xs @ [x]) ! ((m - 1) div k))" if m: "0 < m" "m < length (xs @ [x])" "m \<noteq> length xs" for m
    using assms(1) m parent_less [OF m(1), of k] by (simp add: heap_at_def nth_append)
  moreover have False if m: "0 < m" "m < length (xs @ [x])" "(m - 1) div k = length xs" for m
    using m parent_less [OF m(1), of k] by simp
  ultimately show ?thesis unfolding heap_but_up_def by blast
qed

lemma but_down_step:
  assumes dn: "heap_but_down k lt j ys" and c: "0 < c" "c < length ys" "(c - 1) div k = j"
    and lt: "lt (ys ! c) (ys ! j)"
    and least: "\<And>m. 0 < m \<Longrightarrow> m < length ys \<Longrightarrow> (m - 1) div k = j \<Longrightarrow> \<not> lt (ys ! m) (ys ! c)"
  shows "heap_but_down k lt c (ys[j := ys ! c, c := ys ! j])"
proof -
  let ?zs = "ys[j := ys ! c, c := ys ! j]"
  have j: "j < c" using parent_less [OF c(1), of k] c(3) by simp
  have nth: "?zs ! m = (if m = c then ys ! j else if m = j then ys ! c else ys ! m)" if "m < length ys" for m
    using that j c by (auto simp: nth_list_update)
  have ord: "\<not> lt (ys ! m) (ys ! ((m - 1) div k))" if "0 < m" "m < length ys" "(m - 1) div k \<noteq> j" for m
    using dn that by (simp add: heap_but_down_def)
  have up: "\<not> lt (ys ! m) (ys ! ((j - 1) div k))" if "0 < j" "0 < m" "m < length ys" "(m - 1) div k = j" for m
    using dn that by (simp add: heap_but_down_def)
  have "\<not> lt (?zs ! m) (?zs ! ((m - 1) div k))" if m: "0 < m" "m < length ys" "(m - 1) div k \<noteq> c" for m
  proof -
    have q: "(m - 1) div k < length ys" and qm: "(m - 1) div k < m"
      using parent_less [OF m(1), of k] m(2) by simp_all
    consider "m = c" | "m \<noteq> c" "(m - 1) div k = j" | "m = j" | "m \<noteq> c" "m \<noteq> j" "(m - 1) div k \<noteq> j" by blast
    then show ?thesis
    proof cases
      case 1
      then show ?thesis using asym [OF lt] nth [OF m(2)] nth [of j] c j by simp
    next
      case 2
      then show ?thesis using least [OF m(1,2)] nth [OF m(2)] nth [OF q] qm j c by auto
    next
      case 3
      then show ?thesis using up [OF _ c] nth [OF m(2)] nth [OF q] m qm j c by auto
    next
      case 4
      then show ?thesis using ord [OF m(1,2)] nth [OF m(2)] nth [OF q] m(3) by simp
    qed
  qed
  moreover have "\<not> lt (?zs ! m) (?zs ! ((c - 1) div k))" if m: "0 < m" "m < length ys" "(m - 1) div k = c" for m
    using ord [OF m(1,2)] m j c nth [OF m(2)] nth [of j] parent_less [OF m(1), of k] by auto
  ultimately show ?thesis by (simp add: heap_but_down_def)
qed

lemma but_down_done:
  assumes dn: "heap_but_down k lt j ys"
    and "\<And>m. 0 < m \<Longrightarrow> m < length ys \<Longrightarrow> (m - 1) div k = j \<Longrightarrow> \<not> lt (ys ! m) (ys ! j)"
  shows "heap_at k lt ys"
  unfolding heap_at_def using assms by (metis heap_but_down_def)

lemma but_down_root:
  assumes "heap_at k lt xs"
  shows "heap_but_down k lt 0 ((butlast xs)[0 := x])"
proof -
  have "\<not> lt ((butlast xs)[0 := x] ! m) ((butlast xs)[0 := x] ! ((m - 1) div k))"
    if m: "0 < m" "m < length xs - 1" "(m - 1) div k \<noteq> 0" for m
  proof -
    have "(m - 1) div k < length xs - 1" using parent_less [OF m(1), of k] m(2) by simp
    with m assms show ?thesis by (simp add: heap_at_def nth_butlast)
  qed
  then show ?thesis by (simp add: heap_but_down_def)
qed

text \<open>The binary heap: the children of j are 2 j + 1 and 2 j + 2.\<close>

lemma children_2: "0 < m \<and> (m - 1) div 2 = j \<longleftrightarrow> m = j * 2 + 1 \<or> m = j * 2 + (2 :: nat)"
  by auto

lemma sift_down_ok:
  assumes "heap_but_down 2 lt j (items[j := elem])" "j < length items"
  shows "heap_at 2 lt (sift_down lt elem items (j * 2 + 1) j)
     \<and> mset (sift_down lt elem items (j * 2 + 1) j) = mset (items[j := elem])"
  using assms
proof (induction "length items - j" arbitrary: items j rule: less_induct)
  case less
  let ?ys = "items[j := elem]" and ?i = "j * 2 + 1"
  define c where "c = (if ?i + 1 < length items \<and> lt (items ! (?i + 1)) (items ! ?i) then ?i + 1 else ?i)"
  have c: "j < c" "c = j * 2 + 1 \<or> c = j * 2 + 2" by (auto simp: c_def)
  show ?case
  proof (cases "?i < length items")
    case False
    then have "heap_at 2 lt ?ys" by (intro but_down_done [OF less.prems(1)]) (use children_2 [of _ j] in fastforce)
    with False show ?thesis by (subst (1 2) sift_down.simps) simp
  next
    case True
    then have cl: "c < length items" by (simp add: c_def)
    have cj: "0 < c \<and> (c - 1) div 2 = j" unfolding children_2 by (rule c(2))
    have least: "\<not> lt (?ys ! m) (?ys ! c)" if "0 < m" "m < length ?ys" "(m - 1) div 2 = j" for m
    proof -
      have "m = j * 2 + 1 \<or> m = j * 2 + 2" using that children_2 by blast
      with that c(1) asym show ?thesis by (auto simp: c_def split: if_splits)
    qed
    have step: "sift_down lt elem items ?i j = (if \<not> lt (items ! c) elem then ?ys
       else sift_down lt elem (items[j := items ! c]) (c * 2 + 1) c)"
      unfolding c_def using True by (subst sift_down.simps) (simp add: Let_def)
    show ?thesis
    proof (cases "lt (items ! c) elem")
      case False
      then have "\<not> lt (?ys ! m) (?ys ! j)" if "0 < m" "m < length ?ys" "(m - 1) div 2 = j" for m
        using least [OF that] ntrans less.prems(2) c(1) by (metis nth_list_update nat_neq_iff)
      then have "heap_at 2 lt ?ys" by (intro but_down_done [OF less.prems(1)]) auto
      with False step show ?thesis by simp
    next
      case True
      let ?zs = "items[j := items ! c, c := elem]"
      have sw: "?ys[j := ?ys ! c, c := ?ys ! j] = ?zs" using c(1) less.prems(2) by simp
      have "heap_but_down 2 lt c ?zs"
        using but_down_step [OF less.prems(1), of c] cj cl True least c(1) less.prems(2) unfolding sw by simp
      moreover have "mset ?zs = mset ?ys" using mset_swapped [of c ?ys j] c(1) cl less.prems(2) sw by simp
      moreover have "length (items[j := items ! c]) - c < length items - j" using c(1) less.prems(2) cl by simp
      ultimately show ?thesis using less.hyps [of "items[j := items ! c]" c] step True cl by simp
    qed
  qed
qed

lemma heap_insert_ok:
  assumes "heap_at 2 lt q" "heap_insert lt q x = (q', i)"
  shows "heap_at 2 lt q'" "mset q' = add_mset x (mset q)" "length q' = Suc (length q)" "i < length q'" "q' ! i = x"
  using sift_up_ok [of 2 "length q" "q @ [x]" x q' i] but_up_last [OF assms(1), of x] assms(2)
  by (auto simp: heap_insert_def)

lemma heap_extract_ok:
  assumes "heap_at 2 lt q" "heap_extract lt q = Inr (x, q')"
  shows "heap_at 2 lt q'" "mset q = add_mset x (mset q')" "\<forall>y\<in>#mset q. \<not> lt y x"
proof -
  have ne: "q \<noteq> []" and x: "x = q ! 0" and q': "q' = sift_down lt (last q) (butlast q) 1 0"
    using assms(2) by (auto simp: heap_extract_def hd_conv_nth split: if_splits)
  show "\<forall>y\<in>#mset q. \<not> lt y x"
    using heap_root [OF assms(1)] x by (metis in_set_conv_nth set_mset_mset)
  have "heap_at 2 lt q' \<and> mset q = add_mset x (mset q')"
  proof (cases "butlast q = []")
    case True
    with ne obtain a where "q = [a]" by (metis append_butlast_last_id append_Nil)
    with x q' show ?thesis by (subst (asm) sift_down.simps) (simp add: heap_at_def)
  next
    case False
    have "mset ((butlast q)[0 := last q]) + {#q ! 0#} = mset q"
      using False by (cases q rule: rev_cases) (auto simp: mset_update nth_append)
    moreover have "0 < length (butlast q)" using False by (simp only: length_greater_0_conv not_False_eq_True)
    ultimately show ?thesis
      using sift_down_ok [OF but_down_root [OF assms(1), of "last q"], of ] q' x by (simp del: length_butlast)
  qed
  then show "heap_at 2 lt q'" "mset q = add_mset x (mset q')" by auto
qed

lemma sift_up_root:
  "0 < i \<Longrightarrow> i < length items \<Longrightarrow> \<not> lt elem (items ! 0) \<Longrightarrow> fst (sift_up k lt elem items i) ! 0 = items ! 0"
proof (induction i arbitrary: items rule: less_induct)
  case (less i)
  let ?p = "(i - 1) div k"
  show ?case
  proof (cases "lt elem (items ! ?p)")
    case True
    then have "0 < ?p" using less.prems(3) by (cases "?p = 0") auto
    then show ?thesis using True less.IH [of ?p "items[i := items ! ?p]"] less.prems parent_less [of i k]
      by (subst sift_up.simps) (simp del: One_nat_def)
  next
    case False
    then show ?thesis using less.prems by (subst sift_up.simps) simp
  qed
qed

text \<open>An element that does not come before the first one does not become the first one.\<close>

lemma heap_insert_root:
  "q \<noteq> [] \<Longrightarrow> \<not> lt x (q ! 0) \<Longrightarrow> fst (heap_insert lt q x) ! 0 = q ! 0"
  using sift_up_root [of "length q" "q @ [x]" x 2] by (simp add: heap_insert_def nth_append)

text \<open>heap_insert_n puts in the elements of an array, the last one first.\<close>

lemma heap_insert_n_ok:
  assumes "heap_at 2 lt q" "n \<le> length ins"
  shows "\<exists>q'. heap_insert_n lt q ins n = Inr q' \<and> heap_at 2 lt q' \<and> mset q' = mset (take n ins) + mset q"
  using assms
proof (induction n arbitrary: q)
  case (Suc n)
  let ?q = "fst (heap_insert lt q (ins ! n))"
  have "heap_at 2 lt ?q" "mset ?q = add_mset (ins ! n) (mset q)"
    using heap_insert_ok [OF Suc.prems(1), of "ins ! n" ?q "snd (heap_insert lt q (ins ! n))"] by simp_all
  with Suc.IH [of ?q] Suc.prems(2) show ?case by (auto simp: take_Suc_conv_app_nth)
qed simp

end

text \<open>The binary heap is a priority queue for every weak order.\<close>

sublocale weak_order \<subseteq> bin: priority_queue lt "heap_at 2 lt" mset "\<lambda>q x. fst (heap_insert lt q x)" "heap_extract lt"
proof unfold_locales
  fix q x
  assume "heap_at 2 lt q"
  then show "heap_at 2 lt (fst (heap_insert lt q x))" "mset (fst (heap_insert lt q x)) = add_mset x (mset q)"
    using heap_insert_ok [of q x "fst (heap_insert lt q x)" "snd (heap_insert lt q x)"] by simp_all
next
  fix q :: "'a list"
  assume "mset q \<noteq> {#}"
  then show "\<exists>x q'. heap_extract lt q = Inr (x, q')" by (simp add: heap_extract_def)
next
  fix q x q'
  assume "heap_at 2 lt q" "heap_extract lt q = Inr (x, q')"
  then show "heap_at 2 lt q' \<and> mset q = add_mset x (mset q') \<and> (\<forall>y\<in>#mset q. \<not> lt y x)"
    using heap_extract_ok by blast
qed

end
