(* ===== verification/RHeap.thy ===== *)
theory RHeap
  imports Heap
begin

text \<open>
  The heap of datatypes/retractable_heap.h: nodes have HEAP_K children and upd_f is told every
  place an element is written to, so that the owner of an element can find it in the heap. The
  state that upd_f changes is threaded through the loops as \<open>s\<close>.

  The results: the loop of insertion moves the elements as the one of heap.h does with four
  children; both loops restore the heap order, keep the elements, and keep the table of
  positions exact when upd_f records the position of an element under its key.
\<close>

abbreviation HEAP_K :: nat where "HEAP_K \<equiv> 4"

definition rheap_parent_i :: "nat \<Rightarrow> nat" where
  "rheap_parent_i i = (i - 1) div HEAP_K"

definition rheap_child_i :: "nat \<Rightarrow> nat" where
  "rheap_child_i i = i * HEAP_K + 1"

definition rheap_min :: "'a list \<Rightarrow> 'a res" where
  "rheap_min items = nthR items 0"

text \<open>The loop of rheap_insert, which rheap_priority_increased has again.\<close>

function rheap_up :: "('a \<Rightarrow> 'a \<Rightarrow> bool) \<Rightarrow> ('a \<Rightarrow> nat \<Rightarrow> 's \<Rightarrow> 's) \<Rightarrow> 'a \<Rightarrow> 'a list \<Rightarrow> 's \<Rightarrow> nat \<Rightarrow> 'a list \<times> 's \<times> nat" where
  "rheap_up lt upd elem items s i =
     (if 0 < i \<and> lt elem (items ! rheap_parent_i i)
      then let items = items[i := items ! rheap_parent_i i] in
           rheap_up lt upd elem items (upd (items ! i) i s) (rheap_parent_i i)
      else let items = items[i := elem] in (items, upd (items ! i) i s, i))"
  by pat_completeness auto
termination
  by (relation "measure (\<lambda>(_, _, _, _, _, i). i)")
    (auto simp: rheap_parent_i_def intro: order.strict_trans1 [OF div_le_dividend])

declare rheap_up.simps [simp del]

definition rheap_insert ::
    "('a \<Rightarrow> 'a \<Rightarrow> bool) \<Rightarrow> ('a \<Rightarrow> nat \<Rightarrow> 's \<Rightarrow> 's) \<Rightarrow> 'a list \<Rightarrow> 's \<Rightarrow> 'a \<Rightarrow> 'a list \<times> 's \<times> nat" where
  "rheap_insert lt upd items s elem = rheap_up lt upd elem (items @ [elem]) s (length items)"

definition rheap_priority_increased ::
    "('a \<Rightarrow> 'a \<Rightarrow> bool) \<Rightarrow> ('a \<Rightarrow> nat \<Rightarrow> 's \<Rightarrow> 's) \<Rightarrow> 'a list \<Rightarrow> 's \<Rightarrow> 'a \<Rightarrow> nat \<Rightarrow> 'a list \<times> 's" where
  "rheap_priority_increased lt upd items s elem pos =
     (if 0 < pos \<and> lt elem (items ! rheap_parent_i pos)
      then let (items, s, i) = rheap_up lt upd elem items s pos in (items, s)
      else (items, s))"

text \<open>
  The search in a group of children [i, mh): the first one that comes before elem, and from it
  on the one that comes before the others.
\<close>

definition best_child :: "('a \<Rightarrow> 'a \<Rightarrow> bool) \<Rightarrow> 'a list \<Rightarrow> nat \<Rightarrow> nat \<Rightarrow> nat" where
  "best_child lt items i mh = foldl (\<lambda>i j. if lt (items ! j) (items ! i) then j else i) i [Suc i..<mh]"

definition child_before :: "('a \<Rightarrow> 'a \<Rightarrow> bool) \<Rightarrow> 'a \<Rightarrow> 'a list \<Rightarrow> nat \<Rightarrow> nat option" where
  "child_before lt elem items i =
     (let mh = min (i + HEAP_K) (length items) in
      map_option (\<lambda>c. best_child lt items c mh) (find (\<lambda>c. lt (items ! c) elem) [i..<mh]))"

lemma best_child_range: "i < mh \<Longrightarrow> i \<le> best_child lt items i mh \<and> best_child lt items i mh < mh"
proof -
  have "a \<le> foldl (\<lambda>i j. if lt (items ! j) (items ! i) then j else i) a js \<and>
        foldl (\<lambda>i j. if lt (items ! j) (items ! i) then j else i) a js < mh"
    if "a < mh" "\<forall>j\<in>set js. a \<le> j \<and> j < mh" "sorted js" for a js
    using that by (induction js arbitrary: a) (auto, (meson order_trans)+)
  from this [of i "[Suc i..<mh]"] show "i < mh \<Longrightarrow> ?thesis" by (auto simp: best_child_def)
qed

lemma find_upt_SomeD:
  assumes "find P [i..<m] = Some c"
  shows "i \<le> c \<and> c < m \<and> P c \<and> (\<forall>j. i \<le> j \<and> j < c \<longrightarrow> \<not> P j)"
proof -
  obtain a where a: "a < m - i" "P (i + a)" "c = i + a" "\<forall>j<a. \<not> P (i + j)"
    using assms by (fastforce simp: find_Some_iff)
  have "\<not> P j" if "i \<le> j" "j < c" for j
    using a(4) [rule_format, of "j - i"] that a(3) by simp
  with a show ?thesis by auto
qed

lemma child_before_SomeD:
  assumes "child_before lt elem items i = Some c"
  obtains d where "i \<le> d" "d < min (i + HEAP_K) (length items)" "lt (items ! d) elem"
    "\<And>j. i \<le> j \<Longrightarrow> j < d \<Longrightarrow> \<not> lt (items ! j) elem" "c = best_child lt items d (min (i + HEAP_K) (length items))"
  using assms by (auto simp: child_before_def Let_def dest!: find_upt_SomeD)

lemma child_before_range:
  assumes "child_before lt elem items i = Some c"
  shows "i \<le> c" "c < i + HEAP_K" "c < length items"
proof -
  obtain d where "i \<le> d" "d < min (i + HEAP_K) (length items)"
    "c = best_child lt items d (min (i + HEAP_K) (length items))"
    using child_before_SomeD [OF assms] .
  with best_child_range [of d "min (i + HEAP_K) (length items)" lt items]
  show "i \<le> c" "c < i + HEAP_K" "c < length items" by auto
qed

lemma child_before_less:
  assumes "child_before lt elem items i = Some c"
  shows "length items - rheap_child_i c < length items - i"
  using child_before_range [OF assms] by (simp add: rheap_child_i_def)

text \<open>The loop of rheap_extract and of rheap_priority_lowered: p is the hole, i its first child.\<close>

function rheap_down ::
    "('a \<Rightarrow> 'a \<Rightarrow> bool) \<Rightarrow> ('a \<Rightarrow> nat \<Rightarrow> 's \<Rightarrow> 's) \<Rightarrow> 'a \<Rightarrow> 'a list \<Rightarrow> 's \<Rightarrow> nat \<Rightarrow> nat \<Rightarrow> 'a list \<times> 's" where
  "rheap_down lt upd elem items s p i =
     (case child_before lt elem items i of
        Some c \<Rightarrow> let items = items[p := items ! c] in
          rheap_down lt upd elem items (upd (items ! p) p s) c (rheap_child_i c)
      | None \<Rightarrow> let items = items[p := elem] in (items, upd (items ! p) p s))"
  by pat_completeness auto
termination
  by (relation "measure (\<lambda>(_, _, _, items, _, _, i). length items - i)")
    (auto dest: child_before_less)

declare rheap_down.simps [simp del]

definition rheap_extract ::
    "('a \<Rightarrow> 'a \<Rightarrow> bool) \<Rightarrow> ('a \<Rightarrow> nat \<Rightarrow> 's \<Rightarrow> 's) \<Rightarrow> 'a list \<Rightarrow> 's \<Rightarrow> ('a \<times> 'a list \<times> 's) res" where
  "rheap_extract lt upd items s =
     (if items = [] then Inl OutOfBounds
      else Inr (hd items, rheap_down lt upd (last items) (butlast items) s 0 1))"

definition rheap_priority_lowered ::
    "('a \<Rightarrow> 'a \<Rightarrow> bool) \<Rightarrow> ('a \<Rightarrow> nat \<Rightarrow> 's \<Rightarrow> 's) \<Rightarrow> 'a list \<Rightarrow> 's \<Rightarrow> 'a \<Rightarrow> nat \<Rightarrow> 'a list \<times> 's" where
  "rheap_priority_lowered lt upd items s elem pos = rheap_down lt upd elem items s pos (rheap_child_i pos)"

subsection \<open>The table of positions\<close>

definition track :: "('a \<Rightarrow> 'k) \<Rightarrow> 'a \<Rightarrow> nat \<Rightarrow> ('k \<Rightarrow> nat) \<Rightarrow> ('k \<Rightarrow> nat)" where
  "track f x i s = s(f x := i)"

definition tracked_but :: "('a \<Rightarrow> 'k) \<Rightarrow> nat \<Rightarrow> 'a list \<Rightarrow> ('k \<Rightarrow> nat) \<Rightarrow> bool" where
  "tracked_but f j xs s \<longleftrightarrow> distinct (map f xs) \<and> (\<forall>i<length xs. i \<noteq> j \<longrightarrow> s (f (xs ! i)) = i)"

definition tracked :: "('a \<Rightarrow> 'k) \<Rightarrow> 'a list \<Rightarrow> ('k \<Rightarrow> nat) \<Rightarrow> bool" where
  "tracked f xs s \<longleftrightarrow> distinct (map f xs) \<and> (\<forall>i<length xs. s (f (xs ! i)) = i)"

lemma distinct_nth_iff:
  "distinct (map f xs) \<Longrightarrow> i < length xs \<Longrightarrow> j < length xs \<Longrightarrow> f (xs ! i) = f (xs ! j) \<longleftrightarrow> i = j"
  using nth_eq_iff_index_eq [of "map f xs" i j] by simp

lemma tracked_swap:
  assumes "tracked_but f i ys s" "i \<noteq> p" "i < length ys" "p < length ys"
  shows "tracked_but f p (ys[i := ys ! p, p := ys ! i]) (s(f (ys ! p) := i))"
proof -
  let ?zs = "ys[i := ys ! p, p := ys ! i]"
  have "mset ?zs = mset ys" using mset_swapped [OF assms(3,4)] by (metis assms(2) list_update_swap)
  then have "mset (map f ?zs) = mset (map f ys)" by (simp only: mset_map)
  then have "distinct (map f ?zs) = distinct (map f ys)" by (rule mset_eq_imp_distinct_iff)
  with assms(1) have "distinct (map f ?zs)" by (simp add: tracked_but_def)
  moreover have "(s(f (ys ! p) := i)) (f (?zs ! m)) = m" if "m < length ys" "m \<noteq> p" for m
    using assms that distinct_nth_iff [of f ys m p] by (auto simp: tracked_but_def nth_list_update)
  ultimately show ?thesis by (simp add: tracked_but_def)
qed

lemma tracked_fill:
  assumes "tracked_but f i xs s" "i < length xs"
  shows "tracked f xs (s(f (xs ! i) := i))"
  using assms distinct_nth_iff [of f xs _ i] by (auto simp: tracked_def tracked_but_def)

lemma tracked_hole:
  assumes "tracked f xs s" "f x = f (xs ! i)" "i < length xs"
  shows "tracked_but f i (xs[i := x]) s"
proof -
  have "map f (xs[i := x]) = map f xs" using assms(2,3) by (metis list_update_id map_update nth_map)
  with assms show ?thesis by (simp add: tracked_def tracked_but_def)
qed

subsection \<open>The loops restore the heap\<close>

lemma rheap_up_sift:
  "rheap_up lt upd elem items s i = (zs, s', j) \<Longrightarrow> sift_up HEAP_K lt elem items i = (zs, j)"
proof (induction lt upd elem items s i rule: rheap_up.induct)
  case (1 lt upd elem items s i)
  then show ?case
    by (subst sift_up.simps, subst (asm) (2) rheap_up.simps)
      (auto simp: rheap_parent_i_def Let_def split: if_splits)
qed

lemma rheap_up_tracked:
  assumes "tracked_but f i (items[i := elem]) s" "i < length items" "rheap_up lt (track f) elem items s i = (zs, s', j)"
  shows "tracked f zs s'"
  using assms
proof (induction i arbitrary: items s rule: less_induct)
  case (less i)
  let ?p = "rheap_parent_i i"
  show ?case
  proof (cases "0 < i \<and> lt elem (items ! ?p)")
    case True
    then have p: "?p < i" using parent_less unfolding rheap_parent_i_def by blast
    have sw: "items[i := elem, i := items[i := elem] ! ?p, ?p := items[i := elem] ! i] = items[i := items ! ?p, ?p := elem]"
      using p less.prems(2) by simp
    have "tracked_but f ?p (items[i := items ! ?p, ?p := elem]) (s(f (items ! ?p) := i))"
      using tracked_swap [OF less.prems(1), of ?p] p less.prems(2) unfolding sw by simp
    moreover have "rheap_up lt (track f) elem (items[i := items ! ?p]) (s(f (items ! ?p) := i)) ?p = (zs, s', j)"
      using less.prems(2,3) True by (subst (asm) rheap_up.simps) (simp add: Let_def track_def)
    moreover have "?p < length (items[i := items ! ?p])" using p less.prems(2) by simp
    ultimately show ?thesis using less.IH [OF p] by blast
  next
    case False
    then have "zs = items[i := elem]" "s' = s(f elem := i)"
      using less.prems(2,3) by (subst (asm) rheap_up.simps, auto simp: Let_def track_def)+
    with tracked_fill [OF less.prems(1)] less.prems(2) show ?thesis by (simp add: fun_upd_def)
  qed
qed

lemma children_4: "0 < m \<and> (m - 1) div 4 = p \<longleftrightarrow> rheap_child_i p \<le> m \<and> m < rheap_child_i p + HEAP_K"
  by (auto simp: rheap_child_i_def)

context weak_order
begin

lemma best_child_least:
  assumes "i < mh"
  shows "\<forall>j. i \<le> j \<and> j < mh \<longrightarrow> \<not> lt (items ! j) (items ! best_child lt items i mh)"
proof -
  let ?b = "\<lambda>a js. foldl (\<lambda>i j. if lt (items ! j) (items ! i) then j else i) a js"
  have "\<forall>j\<in>set (a # js). \<not> lt (items ! j) (items ! ?b a js)" for a js
  proof (induction js arbitrary: a)
    case (Cons j js)
    let ?a = "if lt (items ! j) (items ! a) then j else a"
    have "\<not> lt (items ! a) (items ! ?a)" "\<not> lt (items ! j) (items ! ?a)" using asym by auto
    moreover have "\<not> lt (items ! ?a) (items ! ?b ?a js)" using Cons.IH [of ?a] by (simp only: list.set insert_iff simp_thms)
    ultimately have "\<not> lt (items ! a) (items ! ?b ?a js)" "\<not> lt (items ! j) (items ! ?b ?a js)" using ntrans by blast+
    with Cons.IH [of ?a] show ?case by (simp del: if_split)
  qed simp
  moreover have "j \<in> set (i # [Suc i..<mh])" if "i \<le> j" "j < mh" for j using that by auto
  ultimately show ?thesis unfolding best_child_def by blast
qed

lemma child_before_least:
  assumes "child_before lt elem items (rheap_child_i p) = Some c" "m < length items" "0 < m" "(m - 1) div HEAP_K = p"
  shows "lt (items ! c) elem" "\<not> lt (items ! m) (items ! c)"
proof -
  let ?mh = "min (rheap_child_i p + HEAP_K) (length items)"
  obtain d where d: "rheap_child_i p \<le> d" "d < ?mh" "lt (items ! d) elem"
    "\<And>j. rheap_child_i p \<le> j \<Longrightarrow> j < d \<Longrightarrow> \<not> lt (items ! j) elem" "c = best_child lt items d ?mh"
    by (rule child_before_SomeD [OF assms(1)]) blast
  have m: "rheap_child_i p \<le> m" "m < ?mh" using assms(2-4) children_4 [of m p] by auto
  note b = best_child_least [OF d(2), of items, folded d(5)]
  show c: "lt (items ! c) elem" using b d(2,3) le_less_trans by blast
  show "\<not> lt (items ! m) (items ! c)"
  proof (cases "m < d")
    case True
    then show ?thesis using d(4) [OF m(1)] c trans by blast
  next
    case False
    then show ?thesis using b m(2) by simp
  qed
qed

lemma child_before_None:
  assumes "child_before lt elem items (rheap_child_i p) = None" "m < length items" "0 < m" "(m - 1) div HEAP_K = p"
  shows "\<not> lt (items ! m) elem"
  using assms children_4 [of m p] by (auto simp: child_before_def Let_def find_None_iff)

lemma rheap_down_ok:
  assumes "heap_but_down HEAP_K lt p (items[p := elem])" "tracked_but f p (items[p := elem]) s" "p < length items"
    and "rheap_down lt (track f) elem items s p (rheap_child_i p) = (zs, s')"
  shows "heap_at HEAP_K lt zs \<and> mset zs = mset (items[p := elem]) \<and> tracked f zs s'"
  using assms
proof (induction "length items - p" arbitrary: items s p rule: less_induct)
  case less
  let ?ys = "items[p := elem]"
  note child_gt = parent_less [of _ HEAP_K]
  show ?case
  proof (cases "child_before lt elem items (rheap_child_i p)")
    case None
    have "\<not> lt (?ys ! m) (?ys ! p)" if m: "0 < m" "m < length ?ys" "(m - 1) div HEAP_K = p" for m
      using child_before_None [OF None, of m] m child_gt [OF m(1)] less.prems(3) by simp
    then have "heap_at HEAP_K lt ?ys" by (rule but_down_done [OF less.prems(1)])
    moreover have "zs = ?ys" "s' = s(f elem := p)"
      using less.prems(3,4) None by (subst (asm) rheap_down.simps, simp add: Let_def track_def)+
    ultimately show ?thesis using tracked_fill [OF less.prems(2)] less.prems(3) by simp
  next
    case (Some c)
    note r = child_before_range [OF Some]
    then have c: "0 < c" "(c - 1) div HEAP_K = p" "p < c" using children_4 [of c p] by (auto simp: rheap_child_i_def)
    note least = child_before_least [OF Some]
    let ?zs = "items[p := items ! c, c := elem]"
    have sw: "?ys[p := ?ys ! c, c := ?ys ! p] = ?zs" using c less.prems(3) by simp
    have "\<not> lt (?ys ! m) (?ys ! c)" if m: "0 < m" "m < length ?ys" "(m - 1) div HEAP_K = p" for m
      using least(2) [of m] m child_gt [OF m(1)] c by simp
    then have "heap_but_down HEAP_K lt c ?zs"
      using but_down_step [OF less.prems(1) c(1) _ c(2)] least(1) [OF r(3) c(1,2)] c r(3) less.prems(3) unfolding sw by simp
    moreover have "tracked_but f c ?zs (s(f (items ! c) := p))"
      using tracked_swap [OF less.prems(2), of c] c r(3) less.prems(3) unfolding sw by simp
    moreover have "mset ?zs = mset ?ys" using mset_swapped [of p ?ys c] c r(3) less.prems(3) sw
      by (simp add: list_update_swap)
    moreover have "rheap_down lt (track f) elem (items[p := items ! c]) (s(f (items ! c) := p)) c (rheap_child_i c) = (zs, s')"
      using less.prems(3,4) Some by (subst (asm) rheap_down.simps) (simp add: Let_def track_def)
    moreover have "length (items[p := items ! c]) - c < length items - p" using c r(3) by simp
    ultimately show ?thesis using less.hyps [of "items[p := items ! c]" c] r(3) by simp
  qed
qed

end

end
