(* ===== verification/Msg.thy ===== *)
theory Msg
  imports Heap
begin

text \<open>
  The messages of the simulation core (lp/msg.h) and the order in which they are processed. A
  payload is the list of its pl_size bytes; the flags are a 32 bit word. The link next, and the
  fields that only a debug build has, are not part of the record.

  The result: the order of messages is a weak order, so that the heaps work for it, and two
  messages it leaves undecided agree in everything a handler can see.
\<close>

unbundle bit_operations_syntax


record lp_msg =
  m_dest :: nat
  m_dest_t :: real
  m_flags :: u32
  m_seq :: u32
  m_type :: u32
  m_pl :: "u8 list"

definition MSG_FLAG_ANTI :: u32 where "MSG_FLAG_ANTI = 1"
definition MSG_FLAG_PROCESSED :: u32 where "MSG_FLAG_PROCESSED = 2"
definition MSG_PAYLOAD_BASE_SIZE :: nat where "MSG_PAYLOAD_BASE_SIZE = 32"

abbreviation pl_size :: "lp_msg \<Rightarrow> nat" where "pl_size m \<equiv> length (m_pl m)"

text \<open>Whether memcmp on payloads of one length is positive.\<close>

fun memcmp_positive :: "u8 list \<Rightarrow> u8 list \<Rightarrow> bool" where
  "memcmp_positive (x # xs) (y # ys) = (if x = y then memcmp_positive xs ys else x > y)"
| "memcmp_positive _ _ = False"

definition msg_is_before_extended :: "lp_msg \<Rightarrow> lp_msg \<Rightarrow> bool" where
  "msg_is_before_extended a b =
     (if m_flags a AND MSG_FLAG_ANTI \<noteq> m_flags b AND MSG_FLAG_ANTI
      then m_flags a AND MSG_FLAG_ANTI > m_flags b AND MSG_FLAG_ANTI
      else if m_type a \<noteq> m_type b then m_type a > m_type b
      else if pl_size a \<noteq> pl_size b then pl_size a < pl_size b
      else memcmp_positive (m_pl a) (m_pl b))"

definition msg_is_before :: "lp_msg \<Rightarrow> lp_msg \<Rightarrow> bool" where
  "msg_is_before a b \<longleftrightarrow> m_dest_t a < m_dest_t b \<or> m_dest_t a = m_dest_t b \<and> msg_is_before_extended a b"

subsection \<open>The order\<close>

lemma memcmp_asym: "memcmp_positive xs ys \<Longrightarrow> \<not> memcmp_positive ys xs"
  by (induction xs ys rule: memcmp_positive.induct) (auto split: if_splits)

lemma memcmp_ntrans:
  "length xs = length ys \<Longrightarrow> length ys = length zs \<Longrightarrow>
   \<not> memcmp_positive xs ys \<Longrightarrow> \<not> memcmp_positive ys zs \<Longrightarrow> \<not> memcmp_positive xs zs"
  by (induction xs ys zs rule: list_induct3) (auto split: if_splits)

lemma memcmp_total: "length xs = length ys \<Longrightarrow> \<not> memcmp_positive xs ys \<Longrightarrow> \<not> memcmp_positive ys xs \<Longrightarrow> xs = ys"
  by (induction xs ys rule: list_induct2) (auto split: if_splits)

lemma extended_asym: "msg_is_before_extended a b \<Longrightarrow> \<not> msg_is_before_extended b a"
  by (auto simp: msg_is_before_extended_def memcmp_asym split: if_splits)

lemma extended_ntrans:
  "\<not> msg_is_before_extended a b \<Longrightarrow> \<not> msg_is_before_extended b c \<Longrightarrow> \<not> msg_is_before_extended a c"
  by (auto simp: msg_is_before_extended_def split: if_splits dest: memcmp_ntrans [rotated 2])

lemma extended_undecided:
  assumes "\<not> msg_is_before_extended a b" "\<not> msg_is_before_extended b a"
  shows "m_type a = m_type b" "m_pl a = m_pl b" "m_flags a AND MSG_FLAG_ANTI = m_flags b AND MSG_FLAG_ANTI"
  using assms memcmp_total [of "m_pl a" "m_pl b"]
  by (auto simp: msg_is_before_extended_def split: if_splits)

interpretation ext: weak_order msg_is_before_extended
  by unfold_locales (use extended_asym extended_ntrans in blast)+

lemma timed_weak_order:
  fixes t :: "'a \<Rightarrow> real"
  assumes "weak_order lt"
  shows "weak_order (\<lambda>a b. t a < t b \<or> t a = t b \<and> lt a b)"
proof unfold_locales
  show "\<not> (t b < t a \<or> t b = t a \<and> lt b a)" if "t a < t b \<or> t a = t b \<and> lt a b" for a b
    using that weak_order.asym [OF assms, of a b] by auto
  show "\<not> (t a < t c \<or> t a = t c \<and> lt a c)"
    if "\<not> (t a < t b \<or> t a = t b \<and> lt a b)" "\<not> (t b < t c \<or> t b = t c \<and> lt b c)" for a b c
    using that weak_order.ntrans [OF assms, of a b c] by auto
qed

lemma msg_weak_order: "weak_order msg_is_before"
  using timed_weak_order [OF ext.weak_order_axioms, of m_dest_t] by (simp add: msg_is_before_def [abs_def])

interpretation msg: weak_order msg_is_before
  by (rule msg_weak_order)

text \<open>
  A heap of messages delivers them in their order: from the messages an array holds, put in
  with heap_insert_n, extracting as many as there are gives all of them, none before one that
  it should follow, and no more are left.
\<close>

lemma message_heap_sorts:
  "\<exists>q xs. heap_insert_n msg_is_before [] ms (length ms) = Inr q
    \<and> priority_queue.drain (heap_extract msg_is_before) (length ms) q = Inr (xs, [])
    \<and> mset xs = mset ms \<and> sorted_wrt (\<lambda>a b. \<not> msg_is_before b a) xs"
proof -
  obtain q where q: "heap_insert_n msg_is_before [] ms (length ms) = Inr q" "heap_at 2 msg_is_before q" "mset q = mset ms"
    using msg.heap_insert_n_ok [of "[]" "length ms" ms] by (auto simp: heap_at_def)
  then have n: "length ms \<le> size (mset q)" by simp
  from msg.bin.drain_sorted [OF q(2) n] obtain xs q' where d: "msg.bin.drain (length ms) q = Inr (xs, q')"
    "length xs = length ms" "mset q = mset xs + mset q'" "sorted_wrt (\<lambda>a b. \<not> msg_is_before b a) xs" by auto
  have "size (mset q) = length ms" using q(3) by simp
  then have "mset q' = {#}" using d(2,3) by simp
  then show ?thesis using q d by auto
qed

text \<open>
  The order of messages leaves two messages undecided only when they have one time, type and
  payload and are both anti messages or both none, so that a handler sees no difference.
\<close>

lemma msg_order_undecided:
  assumes "\<not> msg_is_before a b" "\<not> msg_is_before b a"
  shows "m_dest_t a = m_dest_t b \<and> m_type a = m_type b \<and> m_pl a = m_pl b
    \<and> m_flags a AND MSG_FLAG_ANTI = m_flags b AND MSG_FLAG_ANTI"
  using assms extended_undecided [of a b] by (auto simp: msg_is_before_def)

definition example_msg :: "real \<Rightarrow> u8 list \<Rightarrow> lp_msg" where
  "example_msg t pl = \<lparr>m_dest = 0, m_dest_t = t, m_flags = 0, m_seq = 0, m_type = 1, m_pl = pl\<rparr>"

end
