(* ===== verification/MsgAlloc.thy ===== *)
theory MsgAlloc
  imports Msg DynArray RootSim
begin

text \<open>
  The message allocator of one thread (mm/msg_allocator.c). Messages live in a store: an address
  is a number, what a freed message held stays at its address until the address is given out
  again. mm_alloc gives out an address never used before; a large message that is freed is not
  given out again.

  The result: after a new GVT exactly the messages at or above it are still held.
\<close>


record msg_alloc =
  ma_store :: "nat \<Rightarrow> lp_msg"
  ma_fresh :: nat
  free_list :: "nat list"
  at_gvt_list :: "nat list"

definition msg_at :: "msg_alloc \<Rightarrow> nat \<Rightarrow> lp_msg" where
  "msg_at al a = ma_store al a"

definition msg_upd :: "nat \<Rightarrow> (lp_msg \<Rightarrow> lp_msg) \<Rightarrow> msg_alloc \<Rightarrow> msg_alloc" where
  "msg_upd a f al = al\<lparr>ma_store := (ma_store al)(a := f (ma_store al a))\<rparr>"

definition msg_allocator_init :: "msg_alloc \<Rightarrow> msg_alloc" where
  "msg_allocator_init al = al\<lparr>free_list := [], at_gvt_list := []\<rparr>"

definition msg_allocator_fini :: "msg_alloc \<Rightarrow> msg_alloc" where
  "msg_allocator_fini al = al\<lparr>free_list := [], at_gvt_list := []\<rparr>"

text \<open>
  The address alone: pl_size is written by msg_allocator_pack together with the payload, which
  the model keeps as one list.
\<close>

definition msg_allocator_alloc :: "nat \<Rightarrow> msg_alloc \<Rightarrow> nat \<times> msg_alloc" where
  "msg_allocator_alloc payload_size al =
     (if payload_size > MSG_PAYLOAD_BASE_SIZE then (ma_fresh al, al\<lparr>ma_fresh := Suc (ma_fresh al)\<rparr>)
      else if free_list al = [] then (ma_fresh al, al\<lparr>ma_fresh := Suc (ma_fresh al)\<rparr>)
      else (last (free_list al), al\<lparr>free_list := butlast (free_list al)\<rparr>))"

definition msg_allocator_free :: "nat \<Rightarrow> msg_alloc \<Rightarrow> msg_alloc" where
  "msg_allocator_free a al =
     (if pl_size (msg_at al a) \<le> MSG_PAYLOAD_BASE_SIZE then al\<lparr>free_list := free_list al @ [a]\<rparr> else al)"

definition msg_allocator_free_at_gvt :: "nat \<Rightarrow> msg_alloc \<Rightarrow> msg_alloc" where
  "msg_allocator_free_at_gvt a al = al\<lparr>at_gvt_list := at_gvt_list al @ [a]\<rparr>"

text \<open>The loop of msg_allocator_on_gvt from index i - 1 down to 0.\<close>

fun on_gvt_loop :: "simtime \<Rightarrow> nat \<Rightarrow> msg_alloc \<Rightarrow> msg_alloc res" where
  "on_gvt_loop gvt 0 al = Inr al"
| "on_gvt_loop gvt (Suc i) al =
     bindR (nthR (at_gvt_list al) i) (\<lambda>a.
       if m_dest_t (msg_at al a) < gvt then
         let al = msg_allocator_free a al; xs = at_gvt_list al in
         on_gvt_loop gvt i (al\<lparr>at_gvt_list := butlast (xs[i := last xs])\<rparr>)
       else on_gvt_loop gvt i al)"

definition msg_allocator_on_gvt :: "simtime \<Rightarrow> msg_alloc \<Rightarrow> msg_alloc res" where
  "msg_allocator_on_gvt gvt al = on_gvt_loop gvt (length (at_gvt_list al)) al"

text \<open>The sequence number and the flags of the new message are what its memory holds.\<close>

definition msg_allocator_pack :: "nat \<Rightarrow> simtime \<Rightarrow> u32 \<Rightarrow> u8 list \<Rightarrow> msg_alloc \<Rightarrow> nat \<times> msg_alloc" where
  "msg_allocator_pack receiver timestamp event_type payload al =
     (let (a, al) = msg_allocator_alloc (length payload) al in
      (a, msg_upd a (\<lambda>m. m\<lparr>m_dest := receiver, m_dest_t := timestamp, m_type := event_type, m_pl := payload\<rparr>) al))"

subsection \<open>Which messages are in use\<close>

definition alloc_ok :: "msg_alloc \<Rightarrow> bool" where
  "alloc_ok al \<longleftrightarrow> distinct (free_list al) \<and> (\<forall>a\<in>set (free_list al). a < ma_fresh al)"

definition in_use :: "msg_alloc \<Rightarrow> nat \<Rightarrow> bool" where
  "in_use al a \<longleftrightarrow> a < ma_fresh al \<and> a \<notin> set (free_list al)"

lemma alloc_new:
  assumes "alloc_ok al" "msg_allocator_alloc n al = (a, al')"
  shows "alloc_ok al'" "\<not> in_use al a" "in_use al' a" "b \<noteq> a \<Longrightarrow> in_use al' b \<longleftrightarrow> in_use al b"
    "ma_store al' = ma_store al" "at_gvt_list al' = at_gvt_list al"
proof -
  have "free_list al = butlast (free_list al) @ [last (free_list al)]" if "free_list al \<noteq> []" using that by simp
  then have l: "distinct (butlast (free_list al)) \<and> last (free_list al) \<notin> set (butlast (free_list al))
     \<and> set (free_list al) = insert (last (free_list al)) (set (butlast (free_list al)))" if "free_list al \<noteq> []"
    using that assms(1) unfolding alloc_ok_def by (metis distinct_append distinct_butlast list.set_intros(1)
      not_distinct_conv_prefix rotate1.simps(2) set_rotate1 list.simps(15))
  show "alloc_ok al'" "\<not> in_use al a" "in_use al' a" "b \<noteq> a \<Longrightarrow> in_use al' b \<longleftrightarrow> in_use al b"
    "ma_store al' = ma_store al" "at_gvt_list al' = at_gvt_list al"
    using assms l by (auto simp: msg_allocator_alloc_def alloc_ok_def in_use_def less_SucI split: if_splits)
qed

lemma pack_new:
  assumes "alloc_ok al" "msg_allocator_pack r t ty pl al = (a, al')"
  shows "alloc_ok al'" "\<not> in_use al a" "in_use al' a" "b \<noteq> a \<Longrightarrow> in_use al' b \<longleftrightarrow> in_use al b"
    "b \<noteq> a \<Longrightarrow> msg_at al' b = msg_at al b"
    "m_dest (msg_at al' a) = r" "m_dest_t (msg_at al' a) = t" "m_type (msg_at al' a) = ty" "m_pl (msg_at al' a) = pl"
proof -
  obtain al1 where m: "msg_allocator_alloc (length pl) al = (a, al1)"
    and al': "al' = msg_upd a (\<lambda>m. m\<lparr>m_dest := r, m_dest_t := t, m_type := ty, m_pl := pl\<rparr>) al1"
    using assms(2) by (auto simp: msg_allocator_pack_def split: prod.splits)
  note n = alloc_new [OF assms(1) m]
  show "alloc_ok al'" "\<not> in_use al a" "in_use al' a" "b \<noteq> a \<Longrightarrow> in_use al' b \<longleftrightarrow> in_use al b"
    "b \<noteq> a \<Longrightarrow> msg_at al' b = msg_at al b"
    "m_dest (msg_at al' a) = r" "m_dest_t (msg_at al' a) = t" "m_type (msg_at al' a) = ty" "m_pl (msg_at al' a) = pl"
    using n n(4) [of b] by (auto simp: al' msg_upd_def msg_at_def alloc_ok_def in_use_def)
qed

lemma free_kept:
  assumes "alloc_ok al" "in_use al a"
  shows "alloc_ok (msg_allocator_free a al)" "b \<noteq> a \<Longrightarrow> in_use (msg_allocator_free a al) b \<longleftrightarrow> in_use al b"
    "ma_store (msg_allocator_free a al) = ma_store al" "at_gvt_list (msg_allocator_free a al) = at_gvt_list al"
  using assms by (auto simp: msg_allocator_free_def alloc_ok_def in_use_def)

lemma lazy_remove_mset: "i < length xs \<Longrightarrow> mset xs = add_mset (xs ! i) (mset (butlast (xs[i := last xs])))"
proof (cases xs rule: rev_cases)
  case (snoc ys y)
  assume "i < length xs"
  with snoc show ?thesis by (cases "i < length ys") (auto simp: list_update_append nth_append mset_update)
qed simp

lemma on_gvt_loop_spec:
  assumes "i \<le> length (at_gvt_list al)"
    and "\<forall>j. i \<le> j \<and> j < length (at_gvt_list al) \<longrightarrow> gvt \<le> m_dest_t (msg_at al (at_gvt_list al ! j))"
  shows "\<exists>al'. on_gvt_loop gvt i al = Inr al' \<and> ma_store al' = ma_store al \<and> ma_fresh al' = ma_fresh al
     \<and> mset (at_gvt_list al') = filter_mset (\<lambda>a. gvt \<le> m_dest_t (msg_at al a)) (mset (at_gvt_list al))
     \<and> mset (free_list al') = mset (free_list al) +
         filter_mset (\<lambda>a. m_dest_t (msg_at al a) < gvt \<and> pl_size (msg_at al a) \<le> MSG_PAYLOAD_BASE_SIZE) (mset (at_gvt_list al))"
  using assms
proof (induction i arbitrary: al)
  case 0
  have "filter_mset (\<lambda>a. gvt \<le> m_dest_t (msg_at al a)) (mset (at_gvt_list al)) = mset (at_gvt_list al)"
    "filter_mset (\<lambda>a. m_dest_t (msg_at al a) < gvt \<and> pl_size (msg_at al a) \<le> MSG_PAYLOAD_BASE_SIZE) (mset (at_gvt_list al)) = {#}"
    using 0 by (auto simp: filter_mset_eq_conv in_set_conv_nth linorder_not_less)
  then show ?case by simp
next
  case (Suc i)
  let ?xs = "at_gvt_list al" and ?a = "at_gvt_list al ! i"
  show ?case
  proof (cases "m_dest_t (msg_at al ?a) < gvt")
    case True
    let ?f = "msg_allocator_free ?a al"
    define ys where "ys = butlast (?xs[i := last ?xs])"
    let ?al = "?f\<lparr>at_gvt_list := ys\<rparr>"
    have f: "ma_store ?f = ma_store al" "at_gvt_list ?f = ?xs" "ma_fresh ?f = ma_fresh al"
      by (auto simp: msg_allocator_free_def)
    have ys: "mset ?xs = add_mset ?a (mset ys)" "length ys = length ?xs - 1"
      using lazy_remove_mset [of i ?xs] Suc.prems(1) by (auto simp: ys_def)
    have "ys ! j = (if j = i then last ?xs else ?xs ! j)" if "j < length ys" for j
      using that Suc.prems(1) by (auto simp: ys_def nth_butlast nth_list_update)
    moreover have "last ?xs = ?xs ! (length ?xs - 1)" using Suc.prems(1) by (intro last_conv_nth) auto
    ultimately have "\<forall>j. i \<le> j \<and> j < length ys \<longrightarrow> gvt \<le> m_dest_t (msg_at al (ys ! j))"
      using Suc.prems(2) ys(2) by (auto simp: Suc_le_eq)
    moreover have "i \<le> length ys" using Suc.prems(1) ys(2) by linarith
    ultimately obtain al' where al': "on_gvt_loop gvt i ?al = Inr al'"
      "ma_store al' = ma_store al" "ma_fresh al' = ma_fresh al"
      "mset (at_gvt_list al') = filter_mset (\<lambda>a. gvt \<le> m_dest_t (msg_at al a)) (mset ys)"
      "mset (free_list al') = mset (free_list ?f) +
         filter_mset (\<lambda>a. m_dest_t (msg_at al a) < gvt \<and> pl_size (msg_at al a) \<le> MSG_PAYLOAD_BASE_SIZE) (mset ys)"
      using Suc.IH [of ?al] f by (auto simp: msg_at_def)
    moreover have "on_gvt_loop gvt (Suc i) al = Inr al'"
      using Suc.prems(1) True f(2) al'(1) by (simp add: Let_def ys_def)
    ultimately show ?thesis using True ys(1) by (auto simp: msg_allocator_free_def)
  next
    case False
    with Suc.prems have "\<forall>j. i \<le> j \<and> j < length ?xs \<longrightarrow> gvt \<le> m_dest_t (msg_at al (?xs ! j))"
      by (metis le_eq_less_or_eq linorder_not_le Suc_leI)
    with Suc.IH [of al] Suc.prems(1) False show ?thesis by simp
  qed
qed

text \<open>
  A new GVT releases exactly the messages below it: the messages that wait for their time
  and are at or above the GVT are still held, the small ones below it are free again, and no
  message is changed.
\<close>

lemma msg_allocator_on_gvt_exact:
  "\<exists>al'. msg_allocator_on_gvt gvt al = Inr al' \<and> ma_store al' = ma_store al \<and> ma_fresh al' = ma_fresh al
     \<and> mset (at_gvt_list al') = filter_mset (\<lambda>a. gvt \<le> m_dest_t (msg_at al a)) (mset (at_gvt_list al))
     \<and> mset (free_list al') = mset (free_list al) +
         filter_mset (\<lambda>a. m_dest_t (msg_at al a) < gvt \<and> pl_size (msg_at al a) \<le> MSG_PAYLOAD_BASE_SIZE) (mset (at_gvt_list al))"
  using on_gvt_loop_spec [of "length (at_gvt_list al)" al gvt] by (simp add: msg_allocator_on_gvt_def)

definition example_alloc :: msg_alloc where
  "example_alloc = msg_allocator_init \<lparr>ma_store = (\<lambda>_. \<lparr>m_dest = 0, m_dest_t = 0, m_flags = 0, m_seq = 0, m_type = 0, m_pl = []\<rparr>),
     ma_fresh = 0, free_list = [], at_gvt_list = []\<rparr>"

lemma example_alloc_ok: "alloc_ok example_alloc"
  by (simp add: example_alloc_def alloc_ok_def msg_allocator_init_def)

end
