(* ===== verification/Retractable.thy ===== *)
theory Retractable
  imports RHeap MsgAlloc
begin

text \<open>
  Retractable events (lib/retractable/retractable.c): each logical process has one event whose
  time it may change until it happens. The queue of a thread holds a pair of a time and a
  process for each of its processes, at the position the process remembers; the time a process
  asks for (retractable_ctx) reaches the queue with retractable_reschedule.

  The result: after retractable_reschedule the queue is a heap again, positions and times are
  right for every process, and so the event that is taken next is the earliest one.
\<close>

record retractable =
  r_queue :: "(simtime \<times> nat) list"
  retractable_pos :: "nat \<Rightarrow> nat"
  retractable_ctx :: "nat \<Rightarrow> simtime"

definition rq_elem_is_before :: "simtime \<times> nat \<Rightarrow> simtime \<times> nat \<Rightarrow> bool" where
  "rq_elem_is_before a b \<longleftrightarrow> fst a < fst b"

definition rq_elem_update :: "simtime \<times> nat \<Rightarrow> nat \<Rightarrow> (nat \<Rightarrow> nat) \<Rightarrow> (nat \<Rightarrow> nat)" where
  "rq_elem_update rq i pos = pos(snd rq := i)"

definition retractable_lib_init :: "retractable \<Rightarrow> retractable" where
  "retractable_lib_init q = q\<lparr>r_queue := []\<rparr>"

definition retractable_lib_lp_init :: "nat \<Rightarrow> retractable \<Rightarrow> retractable" where
  "retractable_lib_lp_init this_lp q =
     (let (items, pos, i) = rheap_insert rq_elem_is_before rq_elem_update (r_queue q) (retractable_pos q) (SIMTIME_MAX, this_lp) in
      q\<lparr>r_queue := items, retractable_pos := pos, retractable_ctx := (retractable_ctx q)(this_lp := SIMTIME_MAX)\<rparr>)"

definition retractable_lib_fini :: "retractable \<Rightarrow> retractable" where
  "retractable_lib_fini q = q\<lparr>r_queue := []\<rparr>"

definition retractable_reschedule :: "nat \<Rightarrow> retractable \<Rightarrow> retractable res" where
  "retractable_reschedule lp q =
     (let pos = retractable_pos q lp; t = retractable_ctx q lp in
      bindR (nthR (r_queue q) pos) (\<lambda>rq.
        if t = fst rq then Inr q
        else
          let lowered = t > fst rq;
              items = (r_queue q)[pos := (t, snd rq)];
              rq = (t, snd rq);
              (items, ps) = (if lowered
                then rheap_priority_lowered rq_elem_is_before rq_elem_update items (retractable_pos q) rq pos
                else rheap_priority_increased rq_elem_is_before rq_elem_update items (retractable_pos q) rq pos)
          in Inr (q\<lparr>r_queue := items, retractable_pos := ps\<rparr>)))"

definition ScheduleRetractableEvent :: "nat \<Rightarrow> simtime \<Rightarrow> retractable \<Rightarrow> retractable" where
  "ScheduleRetractableEvent current_lp timestamp q = q\<lparr>retractable_ctx := (retractable_ctx q)(current_lp := timestamp)\<rparr>"

definition retractable_post_silent :: "nat \<Rightarrow> simtime \<Rightarrow> retractable \<Rightarrow> retractable" where
  "retractable_post_silent lp now q =
     (if retractable_ctx q lp \<le> now then q\<lparr>retractable_ctx := (retractable_ctx q)(lp := SIMTIME_MAX)\<rparr> else q)"

definition retractable_extract :: "retractable \<Rightarrow> msg_alloc \<Rightarrow> (nat \<times> retractable \<times> msg_alloc) res" where
  "retractable_extract q al =
     bindR (rheap_min (r_queue q)) (\<lambda>rq.
       let q = q\<lparr>retractable_ctx := (retractable_ctx q)(snd rq := SIMTIME_MAX)\<rparr>;
           (ret, al) = msg_allocator_pack (snd rq) (fst rq) LP_RETRACTABLE [] al
       in Inr (ret, q, msg_upd ret (\<lambda>m. m\<lparr>m_flags := 0\<rparr>) al))"

definition retractable_is_before :: "retractable \<Rightarrow> simtime \<Rightarrow> bool res" where
  "retractable_is_before q normal_t =
     bindR (rheap_min (r_queue q)) (\<lambda>rq. Inr (fst rq \<le> normal_t \<and> fst rq \<noteq> SIMTIME_MAX))"

subsection \<open>The invariant\<close>

interpretation rq: weak_order rq_elem_is_before
  by unfold_locales (auto simp: rq_elem_is_before_def)

text \<open>
  The queue is a heap that holds the processes lps, each once and where it remembers to be
  (\<open>rq_ok\<close>), and the time of every process but those of late is the one it asked for.
\<close>

definition rq_ok :: "nat set \<Rightarrow> retractable \<Rightarrow> bool" where
  "rq_ok lps q \<longleftrightarrow> heap_at HEAP_K rq_elem_is_before (r_queue q) \<and> tracked snd (r_queue q) (retractable_pos q)
     \<and> snd ` set (r_queue q) = lps"

definition rq_timely :: "nat set \<Rightarrow> retractable \<Rightarrow> bool" where
  "rq_timely late q \<longleftrightarrow> (\<forall>(t, lp)\<in>set (r_queue q). lp \<notin> late \<longrightarrow> t = retractable_ctx q lp)"

lemma rq_elem_update_track: "rq_elem_update = track snd"
  by (simp add: fun_eq_iff rq_elem_update_def track_def)

lemma tracked_find:
  assumes "tracked f xs s" "k \<in> f ` set xs"
  shows "s k < length xs" "f (xs ! s k) = k"
  using assms by (auto simp: tracked_def in_set_conv_nth)

lemma heap_at_raise:
  assumes "heap_at k lt xs" "i < length xs" "\<And>x. lt y x \<Longrightarrow> \<not> lt x y" "\<And>x. \<not> lt x (xs ! i) \<Longrightarrow> \<not> lt x y"
    and tr: "\<And>x y z. \<not> lt x y \<Longrightarrow> \<not> lt y z \<Longrightarrow> \<not> lt x z"
  shows "heap_but_up k lt i (xs[i := y])"
  unfolding heap_but_up_def
proof (intro conjI allI impI; elim conjE)
  fix m assume m: "0 < m" "m < length (xs[i := y])" "m \<noteq> i"
  then have "\<not> lt (xs ! m) (xs ! ((m - 1) div k))" using assms(1) by (simp add: heap_at_def)
  with assms(2,4) m show "\<not> lt (xs[i := y] ! m) (xs[i := y] ! ((m - 1) div k))"
    by (cases "(m - 1) div k = i") (simp_all del: One_nat_def)
next
  fix m assume m: "0 < i" "0 < m" "m < length (xs[i := y])" "(m - 1) div k = i"
  have "m \<noteq> i" "(i - 1) div k < i" using m(4) parent_less [OF m(2), of k] parent_less [OF m(1), of k] by auto
  moreover have "\<not> lt (xs ! m) (xs ! i)" "\<not> lt (xs ! i) (xs ! ((i - 1) div k))"
    using assms(1,2) m by (auto simp: heap_at_def)
  ultimately show "\<not> lt (xs[i := y] ! m) (xs[i := y] ! ((i - 1) div k))" using tr by auto
qed

lemma heap_at_lower:
  assumes "heap_at k lt xs" "i < length xs" "\<And>x. \<not> lt (xs ! i) x \<Longrightarrow> \<not> lt y x"
    and tr: "\<And>x y z. \<not> lt x y \<Longrightarrow> \<not> lt y z \<Longrightarrow> \<not> lt x z"
  shows "heap_but_down k lt i (xs[i := y])"
  unfolding heap_but_down_def
proof (intro conjI allI impI; elim conjE)
  fix m assume m: "0 < m" "m < length (xs[i := y])" "(m - 1) div k \<noteq> i"
  then have "\<not> lt (xs ! m) (xs ! ((m - 1) div k))" using assms(1) by (simp add: heap_at_def)
  with assms(2,3) m show "\<not> lt (xs[i := y] ! m) (xs[i := y] ! ((m - 1) div k))"
    by (cases "m = i") (simp_all del: One_nat_def)
next
  fix m assume m: "0 < i" "0 < m" "m < length (xs[i := y])" "(m - 1) div k = i"
  have "m \<noteq> i" "(i - 1) div k < i" using m(4) parent_less [OF m(2), of k] parent_less [OF m(1), of k] by auto
  moreover have "\<not> lt (xs ! m) (xs ! i)" "\<not> lt (xs ! i) (xs ! ((i - 1) div k))"
    using assms(1,2) m by (auto simp: heap_at_def)
  ultimately show "\<not> lt (xs[i := y] ! m) (xs[i := y] ! ((i - 1) div k))" using tr by auto
qed

lemma priority_increased_ok:
  assumes "heap_but_up HEAP_K rq_elem_is_before i xs" "tracked snd xs s" "i < length xs" "x = xs ! i"
    and "rheap_priority_increased rq_elem_is_before rq_elem_update xs s x i = (zs, s')"
  shows "heap_at HEAP_K rq_elem_is_before zs \<and> mset zs = mset xs \<and> tracked snd zs s'"
proof (cases "0 < i \<and> rq_elem_is_before x (xs ! rheap_parent_i i)")
  case True
  with assms(5) obtain j where u: "rheap_up rq_elem_is_before (track snd) x xs s i = (zs, s', j)"
    by (auto simp: rheap_priority_increased_def rq_elem_update_track split: prod.splits)
  have "tracked_but snd i xs s" using assms(2) by (simp add: tracked_def tracked_but_def)
  then have "tracked snd zs s'" using rheap_up_tracked [OF _ assms(3) u] assms(4) by simp
  moreover have "heap_at HEAP_K rq_elem_is_before zs \<and> mset zs = mset xs"
    using rq.sift_up_ok [OF _ assms(3) rheap_up_sift [OF u]] assms(1,4) by simp
  ultimately show ?thesis by simp
next
  case False
  with assms(4,5) have "zs = xs" "s' = s" by (auto simp: rheap_priority_increased_def)
  moreover have "heap_at HEAP_K rq_elem_is_before xs"
    using rq.but_up_done [OF assms(1)] False assms(4) by (simp add: rheap_parent_i_def)
  ultimately show ?thesis using assms(2) by simp
qed

lemma reschedule_kept:
  assumes "rq_ok lps q" "rq_timely {lp} q" "lp \<in> lps"
  shows "\<exists>q'. retractable_reschedule lp q = Inr q' \<and> rq_ok lps q' \<and> rq_timely {} q' \<and> retractable_ctx q' = retractable_ctx q"
proof -
  let ?xs = "r_queue q" and ?i = "retractable_pos q lp" and ?t = "retractable_ctx q lp"
  have h: "heap_at HEAP_K rq_elem_is_before ?xs" and tr: "tracked snd ?xs (retractable_pos q)" and l: "snd ` set ?xs = lps"
    using assms(1) by (auto simp: rq_ok_def)
  have i: "?i < length ?xs" "snd (?xs ! ?i) = lp" using tracked_find [OF tr] l assms(3) by auto
  obtain t0 where e: "?xs ! ?i = (t0, lp)" using i(2) by (metis prod.collapse)
  let ?ys = "?xs[?i := (?t, lp)]"
  have "map snd ?ys = map snd ?xs" using i by (metis list_update_id map_update nth_map snd_conv)
  then have lys: "snd ` set ?ys = lps" and trys: "tracked snd ?ys (retractable_pos q)"
    using l tr i by (metis list.set_map, simp add: tracked_def nth_list_update)
  have d: "distinct (map snd ?xs)" using tr by (simp add: tracked_def)
  have tys: "t = retractable_ctx q l'" if mem: "(t, l') \<in> set ?ys" for t l'
  proof -
    obtain j where jy: "j < length ?ys" "?ys ! j = (t, l')" using mem unfolding in_set_conv_nth by blast
    then have j: "j < length ?xs" "?ys ! j = (t, l')" by simp_all
    show ?thesis
    proof (cases "j = ?i")
      case True
      then show ?thesis using j by auto
    next
      case False
      then have "?xs ! j = (t, l')" using j by simp
      moreover from this have "l' \<noteq> lp" using distinct_nth_iff [OF d j(1) i(1)] False i(2) by auto
      ultimately show ?thesis using assms(2) j(1) nth_mem [OF j(1)] by (fastforce simp: rq_timely_def)
    qed
  qed
  have settled: "rq_ok lps (q\<lparr>r_queue := zs, retractable_pos := s\<rparr>)" "rq_timely {} (q\<lparr>r_queue := zs, retractable_pos := s\<rparr>)"
    if "heap_at HEAP_K rq_elem_is_before zs \<and> mset zs = mset ?ys \<and> tracked snd zs s" for zs s
    using that lys tys mset_eq_setD [of zs ?ys] by (auto simp: rq_ok_def rq_timely_def)
  consider (same) "?t = t0" | (low) "?t > t0" | (high) "?t < t0" by linarith
  then show ?thesis
  proof cases
    case same
    then have "?ys = ?xs" using e by (metis list_update_id)
    then have "rq_timely {} q" using tys by (auto simp: rq_timely_def)
    with same assms(1) i e show ?thesis by (simp add: retractable_reschedule_def Let_def)
  next
    case low
    have "heap_but_down HEAP_K rq_elem_is_before ?i ?ys"
      by (rule heap_at_lower [OF h i(1)]) (use e low in \<open>auto simp: rq_elem_is_before_def\<close>)
    moreover obtain zs s where z: "rheap_down rq_elem_is_before (track snd) (?t, lp) ?ys (retractable_pos q) ?i (rheap_child_i ?i) = (zs, s)"
      by fastforce
    moreover have "tracked_but snd ?i ?ys (retractable_pos q)" using trys unfolding tracked_def tracked_but_def by blast
    ultimately have "heap_at HEAP_K rq_elem_is_before zs \<and> mset zs = mset ?ys \<and> tracked snd zs s"
      using rq.rheap_down_ok [of ?i ?ys "(?t, lp)" snd "retractable_pos q" zs s] i(1) by simp
    note settled [OF this]
    moreover have "retractable_reschedule lp q = Inr (q\<lparr>r_queue := zs, retractable_pos := s\<rparr>)"
      using low i e z by (simp add: retractable_reschedule_def rheap_priority_lowered_def rq_elem_update_track Let_def)
    ultimately show ?thesis by simp
  next
    case high
    have "heap_but_up HEAP_K rq_elem_is_before ?i ?ys"
      by (rule heap_at_raise [OF h i(1)]) (use e high in \<open>auto simp: rq_elem_is_before_def\<close>)
    moreover obtain zs s where z: "rheap_priority_increased rq_elem_is_before rq_elem_update ?ys (retractable_pos q) (?t, lp) ?i = (zs, s)"
      by fastforce
    ultimately have "heap_at HEAP_K rq_elem_is_before zs \<and> mset zs = mset ?ys \<and> tracked snd zs s"
      using priority_increased_ok [OF _ trys _ _ z] i(1) by simp
    note settled [OF this]
    moreover have "retractable_reschedule lp q = Inr (q\<lparr>r_queue := zs, retractable_pos := s\<rparr>)"
      using high i e z by (simp add: retractable_reschedule_def Let_def)
    ultimately show ?thesis by simp
  qed
qed

lemma lp_init_kept:
  assumes "rq_ok lps q" "rq_timely {} q" "lp \<notin> lps"
  shows "rq_ok (insert lp lps) (retractable_lib_lp_init lp q) \<and> rq_timely {} (retractable_lib_lp_init lp q)"
proof -
  let ?xs = "r_queue q @ [(SIMTIME_MAX, lp)]" and ?n = "length (r_queue q)"
  obtain zs s i where z: "rheap_up rq_elem_is_before (track snd) (SIMTIME_MAX, lp) ?xs (retractable_pos q) ?n = (zs, s, i)"
    by (metis prod_cases3)
  have h: "heap_at HEAP_K rq_elem_is_before (r_queue q)" and t: "tracked snd (r_queue q) (retractable_pos q)"
    and l: "snd ` set (r_queue q) = lps" using assms(1) by (auto simp: rq_ok_def)
  have "heap_at HEAP_K rq_elem_is_before zs \<and> mset zs = mset ?xs"
    using rq.sift_up_ok [OF _ _ rheap_up_sift [OF z]] rq.but_up_last [OF h] by simp
  moreover have "tracked_but snd ?n ?xs (retractable_pos q)"
    using t l assms(3) by (auto simp: tracked_def tracked_but_def nth_append)
  then have "tracked snd zs s" using rheap_up_tracked [OF _ _ z] by simp
  moreover have "(a, lp) \<notin> set (r_queue q)" for a using l assms(3) by force
  ultimately show ?thesis using z l assms(2,3) mset_eq_setD [of zs ?xs]
    by (auto simp: retractable_lib_lp_init_def rheap_insert_def rq_elem_update_track rq_ok_def rq_timely_def)
qed

text \<open>The first entry of the queue is the earliest event asked for.\<close>

lemma rq_first:
  assumes "rq_ok lps q" "rq_timely {} q" "lps \<noteq> {}"
  shows "\<exists>t lp. rheap_min (r_queue q) = Inr (t, lp) \<and> lp \<in> lps \<and> t = retractable_ctx q lp
     \<and> (\<forall>l\<in>lps. t \<le> retractable_ctx q l)"
proof -
  have h: "heap_at HEAP_K rq_elem_is_before (r_queue q)" and l: "snd ` set (r_queue q) = lps"
    using assms(1) by (auto simp: rq_ok_def)
  then have "r_queue q \<noteq> []" using assms(3) by auto
  then have n: "0 < length (r_queue q)" by simp
  obtain t lp where e: "r_queue q ! 0 = (t, lp)" by fastforce
  then have m: "(t, lp) \<in> set (r_queue q)" using nth_mem [OF n] by simp
  have "t \<le> retractable_ctx q l'" if mem: "l' \<in> lps" for l'
  proof -
    obtain t' where t': "(t', l') \<in> set (r_queue q)" using l mem by force
    then obtain j where "j < length (r_queue q)" "r_queue q ! j = (t', l')" by (auto simp: in_set_conv_nth)
    with rq.heap_root [OF h] e have "t \<le> t'" by (fastforce simp: rq_elem_is_before_def)
    with t' assms(2) show ?thesis by (auto simp: rq_timely_def)
  qed
  moreover have "t = retractable_ctx q lp" "lp \<in> lps" using m l assms(2) by (force simp: rq_timely_def)+
  ultimately show ?thesis using n e by (auto simp: rheap_min_def)
qed

text \<open>
  C21: The queue of the retractable events is right after a process has been handled: when only
  the time of that process may differ from the one it asked for, retractable_reschedule
  restores the heap, the position every process remembers, and the times of all of them, and
  the queue holds the same processes.
\<close>

theorem retractable_reschedule_keeps:
  assumes "rq_ok lps q" "rq_timely {lp} q" "lp \<in> lps"
  shows "\<exists>q'. retractable_reschedule lp q = Inr q' \<and> rq_ok lps q' \<and> rq_timely {} q'
     \<and> retractable_ctx q' = retractable_ctx q"
  by (rule reschedule_kept [OF assms])

definition example_rq :: retractable where
  "example_rq = fold retractable_lib_lp_init [0, 1, 2]
     (retractable_lib_init \<lparr>r_queue = [], retractable_pos = (\<lambda>_. 0), retractable_ctx = (\<lambda>_. 0)\<rparr>)"

lemma example_rq_ok: "rq_ok {0, 1, 2} example_rq \<and> rq_timely {} example_rq"
proof -
  let ?q = "retractable_lib_init \<lparr>r_queue = [], retractable_pos = (\<lambda>_. 0), retractable_ctx = (\<lambda>_. 0)\<rparr>"
  have 0: "rq_ok {} ?q \<and> rq_timely {} ?q"
    by (simp add: rq_ok_def rq_timely_def retractable_lib_init_def heap_at_def tracked_def)
  then have 1: "rq_ok {0} (retractable_lib_lp_init 0 ?q) \<and> rq_timely {} (retractable_lib_lp_init 0 ?q)"
    using lp_init_kept [of "{}" ?q 0] by simp
  then have "rq_ok {1, 0} (retractable_lib_lp_init 1 (retractable_lib_lp_init 0 ?q))
      \<and> rq_timely {} (retractable_lib_lp_init 1 (retractable_lib_lp_init 0 ?q))"
    using lp_init_kept [of "{0}" _ 1] by simp
  then show ?thesis using lp_init_kept [of "{1, 0}" _ 2] by (simp add: example_rq_def insert_commute)
qed

lemma example_rq_ctx: "l \<in> {0, 1, 2} \<Longrightarrow> retractable_ctx example_rq l = SIMTIME_MAX"
  by (auto simp: example_rq_def retractable_lib_lp_init_def Let_def split: prod.splits)

lemma schedule_late:
  "rq_ok lps q \<Longrightarrow> rq_timely {} q \<Longrightarrow>
   rq_ok lps (ScheduleRetractableEvent lp t q) \<and> rq_timely {lp} (ScheduleRetractableEvent lp t q)"
  by (auto simp: ScheduleRetractableEvent_def rq_ok_def rq_timely_def)

theorem retractable_reschedule_keeps_witness:
  "\<exists>q'. retractable_reschedule 1 (ScheduleRetractableEvent 1 5 example_rq) = Inr q' \<and> rq_ok {0, 1, 2} q'
     \<and> rq_timely {} q' \<and> retractable_ctx q' = retractable_ctx (ScheduleRetractableEvent 1 5 example_rq)"
  using retractable_reschedule_keeps [of "{0, 1, 2}" "ScheduleRetractableEvent 1 5 example_rq" 1]
    schedule_late [of "{0, 1, 2}" example_rq 1 5] example_rq_ok by simp

lemma extract_earliest:
  assumes "rq_ok lps q" "rq_timely {} q" "lps \<noteq> {}" "\<forall>l\<in>lps. retractable_ctx q l \<le> SIMTIME_MAX" "alloc_ok al"
  shows "(\<exists>b. retractable_is_before q t = Inr b \<and> (b \<longleftrightarrow> (\<exists>l\<in>lps. retractable_ctx q l \<le> t \<and> retractable_ctx q l \<noteq> SIMTIME_MAX)))
    \<and> (\<exists>a q' al'. retractable_extract q al = Inr (a, q', al') \<and> m_dest (msg_at al' a) \<in> lps
      \<and> m_type (msg_at al' a) = LP_RETRACTABLE \<and> m_flags (msg_at al' a) = 0 \<and> m_pl (msg_at al' a) = []
      \<and> m_dest_t (msg_at al' a) = retractable_ctx q (m_dest (msg_at al' a))
      \<and> (\<forall>l\<in>lps. m_dest_t (msg_at al' a) \<le> retractable_ctx q l)
      \<and> retractable_ctx q' = (retractable_ctx q)(m_dest (msg_at al' a) := SIMTIME_MAX)
      \<and> rq_ok lps q' \<and> rq_timely {m_dest (msg_at al' a)} q')"
proof -
  obtain t0 lp where m: "rheap_min (r_queue q) = Inr (t0, lp)" "lp \<in> lps" "t0 = retractable_ctx q lp"
    "\<forall>l\<in>lps. t0 \<le> retractable_ctx q l" using rq_first [OF assms(1-3)] by blast
  have "(t0 \<le> t \<and> t0 \<noteq> SIMTIME_MAX) \<longleftrightarrow> (\<exists>l\<in>lps. retractable_ctx q l \<le> t \<and> retractable_ctx q l \<noteq> SIMTIME_MAX)"
    using m assms(4) by (metis order_antisym order_trans)
  then have "\<exists>b. retractable_is_before q t = Inr b \<and> (b \<longleftrightarrow> (\<exists>l\<in>lps. retractable_ctx q l \<le> t \<and> retractable_ctx q l \<noteq> SIMTIME_MAX))"
    using m(1) by (simp add: retractable_is_before_def)
  moreover obtain a al1 where p: "msg_allocator_pack lp t0 LP_RETRACTABLE [] al = (a, al1)" by fastforce
  then have "retractable_extract q al = Inr (a, q\<lparr>retractable_ctx := (retractable_ctx q)(lp := SIMTIME_MAX)\<rparr>,
      msg_upd a (\<lambda>m. m\<lparr>m_flags := 0\<rparr>) al1)"
    using m(1) by (simp add: retractable_extract_def)
  moreover note pack_new [OF assms(5) p]
  moreover have "rq_ok lps (q\<lparr>retractable_ctx := (retractable_ctx q)(lp := SIMTIME_MAX)\<rparr>)"
    "rq_timely {lp} (q\<lparr>retractable_ctx := (retractable_ctx q)(lp := SIMTIME_MAX)\<rparr>)"
    using assms(1,2) by (auto simp: rq_ok_def rq_timely_def)
  ultimately show ?thesis using m by (simp add: msg_at_def msg_upd_def)
qed

lemma retractable_extract_alloc:
  assumes "alloc_ok al" "retractable_extract q al = Inr (a, q', al')"
  shows "alloc_ok al'" "\<not> in_use al a" "in_use al' a" "b \<noteq> a \<Longrightarrow> in_use al' b \<longleftrightarrow> in_use al b" "b \<noteq> a \<Longrightarrow> msg_at al' b = msg_at al b"
proof -
  obtain t lp where r: "rheap_min (r_queue q) = Inr (t, lp)"
    using assms(2) by (auto simp: retractable_extract_def bindR_eq_Inr)
  obtain b1 al1 where b1: "msg_allocator_pack lp t LP_RETRACTABLE [] al = (b1, al1)" by fastforce
  then have p: "msg_allocator_pack lp t LP_RETRACTABLE [] al = (a, al1)"
    and al': "al' = msg_upd a (\<lambda>m. m\<lparr>m_flags := 0\<rparr>) al1"
    using assms(2) r by (auto simp: retractable_extract_def)
  note n = pack_new [OF assms(1) p]
  show "alloc_ok al'" "\<not> in_use al a" "in_use al' a" "b \<noteq> a \<Longrightarrow> in_use al' b \<longleftrightarrow> in_use al b" "b \<noteq> a \<Longrightarrow> msg_at al' b = msg_at al b"
    using n n(4) [of b] n(5) [of b] by (auto simp: al' msg_upd_def msg_at_def alloc_ok_def in_use_def)
qed

text \<open>
  In such a queue an event is pending for a message of time t exactly when some process
  asked for a time up to t that is not the largest one, and the event that is then taken has
  the earliest time any process asked for and is sent to a process that asked for it, which
  has no event any more.
\<close>

lemma retractable_extract_earliest:
  assumes "rq_ok lps q" "rq_timely {} q" "lps \<noteq> {}" "\<forall>l\<in>lps. retractable_ctx q l \<le> SIMTIME_MAX" "alloc_ok al"
  shows "(\<exists>b. retractable_is_before q t = Inr b \<and> (b \<longleftrightarrow> (\<exists>l\<in>lps. retractable_ctx q l \<le> t \<and> retractable_ctx q l \<noteq> SIMTIME_MAX)))
    \<and> (\<exists>a q' al'. retractable_extract q al = Inr (a, q', al') \<and> m_dest (msg_at al' a) \<in> lps
      \<and> m_type (msg_at al' a) = LP_RETRACTABLE \<and> m_flags (msg_at al' a) = 0 \<and> m_pl (msg_at al' a) = []
      \<and> m_dest_t (msg_at al' a) = retractable_ctx q (m_dest (msg_at al' a))
      \<and> (\<forall>l\<in>lps. m_dest_t (msg_at al' a) \<le> retractable_ctx q l)
      \<and> retractable_ctx q' = (retractable_ctx q)(m_dest (msg_at al' a) := SIMTIME_MAX)
      \<and> rq_ok lps q' \<and> rq_timely {m_dest (msg_at al' a)} q')"
  by (rule extract_earliest [OF assms])

end
