(* ===== verification/Serial.thy ===== *)
theory Serial
  imports Retractable
begin

text \<open>
  The sequential engine (serial/serial.c) with the processing of a message (lp/common.h). The
  model of the user is a parameter: its dispatcher maps the state of a process and an event to
  the new state and to the calls it makes to the engine, in their order. The timer of the
  machine enters as one truth value for each turn of the loop, whether the GVT period is over.

  The results: with handlers that schedule nothing before the message at hand each turn handles
  a first pending message and removes exactly it; a debug build stops at correct events; the
  loop ends when no ordinary message is left.
\<close>

datatype call =
    Schedule nat simtime u32 "u8 list"  \<comment> \<open>ScheduleNewEvent\<close>
  | Retract simtime                     \<comment> \<open>ScheduleRetractableEvent\<close>

record 's config =
  lps :: nat
  dispatcher :: "nat \<Rightarrow> simtime \<Rightarrow> u32 \<Rightarrow> u8 list \<Rightarrow> 's \<Rightarrow> 's \<times> call list"
  committed :: "nat \<Rightarrow> 's \<Rightarrow> bool"
  termination_time :: simtime
  debug :: bool

record 's serial =
  se_alloc :: msg_alloc
  queue :: "nat list"
  se_retractable :: retractable
  se_state :: "nat \<Rightarrow> 's"
  se_termination_t :: "nat \<Rightarrow> simtime"
  to_terminate :: nat

definition se_before :: "msg_alloc \<Rightarrow> nat \<Rightarrow> nat \<Rightarrow> bool" where
  "se_before al a b \<longleftrightarrow> msg_is_before (msg_at al a) (msg_at al b)"

definition ScheduleNewEvent_serial ::
    "'s config \<Rightarrow> nat \<Rightarrow> simtime \<Rightarrow> u32 \<Rightarrow> u8 list \<Rightarrow> 's serial \<Rightarrow> 's serial res" where
  "ScheduleNewEvent_serial c receiver timestamp event_type payload s =
     (let (msg, al) = msg_allocator_pack receiver timestamp event_type payload (se_alloc s);
          al = msg_upd msg (\<lambda>m. m\<lparr>m_flags := 0\<rparr>) al in
      bindR (if debug c then bindR (heap_min (queue s)) (\<lambda>h. guardR (\<not> se_before al msg h) Abort) else Inr ()) (\<lambda>_.
        Inr (s\<lparr>se_alloc := al, queue := fst (heap_insert (se_before al) (queue s) msg)\<rparr>)))"

fun make_call :: "'s config \<Rightarrow> nat \<Rightarrow> call \<Rightarrow> 's serial \<Rightarrow> 's serial res" where
  "make_call c current_lp (Schedule r t ty pl) s = ScheduleNewEvent_serial c r t ty pl s"
| "make_call c current_lp (Retract t) s = Inr (s\<lparr>se_retractable := ScheduleRetractableEvent current_lp t (se_retractable s)\<rparr>)"

definition common_msg_process :: "'s config \<Rightarrow> lp_msg \<Rightarrow> 's serial \<Rightarrow> 's serial res" where
  "common_msg_process c m s =
     (let (st, calls) = dispatcher c (m_dest m) (m_dest_t m) (m_type m) (m_pl m) (se_state s (m_dest m)) in
      foldR (make_call c (m_dest m)) calls (s\<lparr>se_state := (se_state s)(m_dest m := st)\<rparr>))"

text \<open>The first messages and the start of the loop body: which message is handled.\<close>

definition serial_next :: "'s serial \<Rightarrow> (nat \<times> 's serial) res" where
  "serial_next s =
     bindR (heap_min (queue s)) (\<lambda>msg.
     bindR (retractable_is_before (se_retractable s) (m_dest_t (msg_at (se_alloc s) msg))) (\<lambda>b.
       if b then bindR (retractable_extract (se_retractable s) (se_alloc s)) (\<lambda>(msg, rq, al).
         Inr (msg, s\<lparr>se_retractable := rq, se_alloc := al\<rparr>))
       else Inr (msg, s)))"

definition serial_handle :: "'s config \<Rightarrow> nat \<Rightarrow> 's serial \<Rightarrow> 's serial res" where
  "serial_handle c msg s =
     (let m = msg_at (se_alloc s) msg in
      bindR (common_msg_process c m s) (\<lambda>s.
      bindR (retractable_reschedule (m_dest m) (se_retractable s)) (\<lambda>rq. Inr (s\<lparr>se_retractable := rq\<rparr>))))"

text \<open>The rest of the loop body; True says that the loop is left.\<close>

definition serial_remove :: "nat \<Rightarrow> 's serial \<Rightarrow> 's serial res" where
  "serial_remove msg s =
     bindR (if m_type (msg_at (se_alloc s) msg) \<noteq> LP_RETRACTABLE
            then bindR (heap_extract (se_before (se_alloc s)) (queue s)) (\<lambda>(_, q). Inr (s\<lparr>queue := q\<rparr>))
            else Inr s) (\<lambda>s. Inr (s\<lparr>se_alloc := msg_allocator_free msg (se_alloc s)\<rparr>))"

definition serial_turn :: "'s config \<Rightarrow> bool \<Rightarrow> 's serial \<Rightarrow> (bool \<times> 's serial) res" where
  "serial_turn c gvt_due s =
     bindR (serial_next s) (\<lambda>(msg, s).
     bindR (serial_handle c msg s) (\<lambda>s.
       let m = msg_at (se_alloc s) msg; lp = m_dest m;
           ends = se_termination_t s lp < 0 \<and> committed c lp (se_state s lp);
           s = (if ends then s\<lparr>se_termination_t := (se_termination_t s)(lp := m_dest_t m), to_terminate := to_terminate s - 1\<rparr> else s) in
       if ends \<and> to_terminate s = 0 then Inr (True, s)
       else if gvt_due \<and> termination_time c \<le> m_dest_t m then Inr (True, s)
       else bindR (serial_remove msg s) (\<lambda>s. Inr (False, s))))"

text \<open>The loop, for as many turns as there are readings of the timer; True says that it ended.\<close>

fun serial_loop :: "'s config \<Rightarrow> bool list \<Rightarrow> 's serial \<Rightarrow> (bool \<times> 's serial) res" where
  "serial_loop c [] s = Inr (queue s = [], s)"
| "serial_loop c (due # dues) s =
     (if queue s = [] then Inr (True, s)
      else bindR (serial_turn c due s) (\<lambda>(stop, s). if stop then Inr (True, s) else serial_loop c dues s))"

definition serial_simulation_run :: "'s config \<Rightarrow> bool list \<Rightarrow> 's serial \<Rightarrow> (bool \<times> 's serial) res" where
  "serial_simulation_run c dues s = serial_loop c dues (s\<lparr>to_terminate := lps c\<rparr>)"

text \<open>One turn of the loop of serial_simulation_init; the state of a process starts as \<open>st0\<close>, a null pointer.\<close>

definition serial_init_lp :: "'s config \<Rightarrow> 's \<Rightarrow> nat \<Rightarrow> 's serial \<Rightarrow> 's serial res" where
  "serial_init_lp c st0 i s =
     (let s = s\<lparr>se_termination_t := (se_termination_t s)(i := -1), se_retractable := retractable_lib_lp_init i (se_retractable s),
               se_state := (se_state s)(i := st0)\<rparr>;
          (msg, al) = msg_allocator_pack i 0 LP_INIT [] (se_alloc s);
          al = msg_upd msg (\<lambda>m. m\<lparr>m_flags := 0\<rparr>) al;
          s = s\<lparr>se_alloc := al, queue := fst (heap_insert (se_before al) (queue s) msg)\<rparr> in
      bindR (serial_handle c msg s) (\<lambda>s.
      bindR (heap_extract (se_before (se_alloc s)) (queue s)) (\<lambda>(m, q).
        Inr (s\<lparr>queue := q, se_alloc := msg_allocator_free m (se_alloc s)\<rparr>))))"

definition serial_simulation_init :: "'s config \<Rightarrow> 's \<Rightarrow> 's serial \<Rightarrow> 's serial res" where
  "serial_simulation_init c st0 s =
     foldR (serial_init_lp c st0) [0..<lps c]
       (s\<lparr>se_alloc := msg_allocator_init (se_alloc s), se_retractable := retractable_lib_init (se_retractable s), queue := []\<rparr>)"

text \<open>At the end every process gets LP_FINI at time 0, and the messages left are freed.\<close>

definition serial_simulation_fini :: "'s config \<Rightarrow> 's serial \<Rightarrow> 's serial res" where
  "serial_simulation_fini c s =
     bindR (foldR (\<lambda>i s. let (st, calls) = dispatcher c i 0 LP_FINI [] (se_state s i) in
              foldR (make_call c i) calls (s\<lparr>se_state := (se_state s)(i := st)\<rparr>)) [0..<lps c] s) (\<lambda>s.
       Inr (s\<lparr>se_alloc := msg_allocator_fini (fold msg_allocator_free (queue s) (se_alloc s)), queue := [],
              se_retractable := retractable_lib_fini (se_retractable s)\<rparr>))"

subsection \<open>The invariant\<close>

interpretation se: weak_order "se_before al" for al
proof unfold_locales
  show "\<not> se_before al b a" if "se_before al a b" for a b
    using that msg.asym unfolding se_before_def by blast
  show "\<not> se_before al a c" if "\<not> se_before al a b" "\<not> se_before al b c" for a b c
    using that msg.ntrans unfolding se_before_def by blast
qed

definition serial_ok :: "nat \<Rightarrow> nat set \<Rightarrow> 's serial \<Rightarrow> bool" where
  "serial_ok n late s \<longleftrightarrow> alloc_ok (se_alloc s) \<and> distinct (queue s) \<and> (\<forall>a\<in>set (queue s). in_use (se_alloc s) a)
     \<and> heap_at 2 (se_before (se_alloc s)) (queue s)
     \<and> (\<forall>a\<in>set (queue s). m_dest (msg_at (se_alloc s) a) < n \<and> m_type (msg_at (se_alloc s) a) \<noteq> LP_RETRACTABLE)
     \<and> rq_ok {..<n} (se_retractable s) \<and> rq_timely late (se_retractable s)
     \<and> (\<forall>l<n. retractable_ctx (se_retractable s) l \<le> SIMTIME_MAX)"

definition pending :: "'s serial \<Rightarrow> lp_msg multiset" where
  "pending s = image_mset (msg_at (se_alloc s)) (mset (queue s))"

text \<open>
  What a handler may do for a message m: schedule messages for processes that exist, not with
  the type of retractable events, and not before m.
\<close>

definition call_ok :: "nat \<Rightarrow> lp_msg \<Rightarrow> call \<Rightarrow> bool" where
  "call_ok n m a = (case a of
      Schedule r t ty pl \<Rightarrow> r < n \<and> ty \<noteq> LP_RETRACTABLE
        \<and> \<not> msg_is_before \<lparr>m_dest = r, m_dest_t = t, m_flags = 0, m_seq = 0, m_type = ty, m_pl = pl\<rparr> m
    | Retract t \<Rightarrow> t \<le> SIMTIME_MAX)"

definition sent :: "lp_msg \<Rightarrow> call \<Rightarrow> bool" where
  "sent m a = (case a of Schedule r t ty pl \<Rightarrow> m_dest m = r \<and> m_dest_t m = t \<and> m_flags m = 0 \<and> m_type m = ty \<and> m_pl m = pl
     | Retract t \<Rightarrow> False)"

lemma before_no_seq: "msg_is_before (m\<lparr>m_seq := i\<rparr>) x = msg_is_before m x" "msg_is_before x (m\<lparr>m_seq := i\<rparr>) = msg_is_before x m"
  by (simp_all add: msg_is_before_def msg_is_before_extended_def)

text \<open>
  A call keeps the invariant, keeps a message a that is in use, and, when a is the first of the
  queue and the call is not before it, keeps it the first.
\<close>

lemma schedule_kept:
  assumes ok: "serial_ok n late s" and a: "in_use (se_alloc s) a"
    and call: "call_ok n (msg_at (se_alloc s) a) (Schedule r t ty pl)"
    and dbg: "\<not> debug c"
  shows "\<exists>s' m. ScheduleNewEvent_serial c r t ty pl s = Inr s' \<and> serial_ok n late s' \<and> in_use (se_alloc s') a
     \<and> msg_at (se_alloc s') a = msg_at (se_alloc s) a \<and> sent m (Schedule r t ty pl) \<and> pending s' = add_mset m (pending s)
     \<and> se_state s' = se_state s \<and> se_retractable s' = se_retractable s \<and> queue s' \<noteq> []
     \<and> (a \<notin> set (queue s) \<longrightarrow> a \<notin> set (queue s'))
     \<and> (queue s \<noteq> [] \<and> queue s ! 0 = a \<longrightarrow> queue s' ! 0 = a)
     \<and> se_termination_t s' = se_termination_t s \<and> to_terminate s' = to_terminate s"
proof -
  obtain b al1 where p: "msg_allocator_pack r t ty pl (se_alloc s) = (b, al1)" by fastforce
  let ?al = "msg_upd b (\<lambda>m. m\<lparr>m_flags := 0\<rparr>) al1"
  let ?q = "fst (heap_insert (se_before ?al) (queue s) b)"
  let ?s = "s\<lparr>se_alloc := ?al, queue := ?q\<rparr>"
  have al: "alloc_ok (se_alloc s)" and q: "distinct (queue s)" "\<forall>x\<in>set (queue s). in_use (se_alloc s) x"
    and h: "heap_at 2 (se_before (se_alloc s)) (queue s)" using ok by (auto simp: serial_ok_def)
  note n = pack_new [OF al p]
  have old: "msg_at ?al x = msg_at (se_alloc s) x" if "x \<noteq> b" for x
    using n(5) [OF that] that by (simp add: msg_at_def msg_upd_def)
  have use: "in_use ?al x \<longleftrightarrow> in_use al1 x" for x by (simp add: in_use_def msg_upd_def)
  have qb: "b \<notin> set (queue s)" "a \<noteq> b" using q(2) a n(2) by auto
  have m: "sent (msg_at ?al b) (Schedule r t ty pl)" using n(6-9) by (simp add: sent_def msg_at_def msg_upd_def)
  have "heap_at 2 (se_before ?al) (queue s)"
    using heap_at_cong [OF h, of "se_before ?al"] old qb(1) by (metis se_before_def)
  note i = se.heap_insert_ok [OF this, of b ?q "snd (heap_insert (se_before ?al) (queue s) b)"]
  have hq: "heap_at 2 (se_before ?al) ?q" "mset ?q = add_mset b (mset (queue s))" using i(1,2) by simp_all
  have sq: "set ?q = insert b (set (queue s))" using hq(2) by (metis set_mset_add_mset_insert set_mset_mset)
  have "distinct ?q" using hq(2) q(1) qb(1) mset_eq_imp_distinct_iff [of ?q "b # queue s"] by simp
  moreover have "alloc_ok ?al" using n(1) by (simp add: alloc_ok_def msg_upd_def)
  moreover have "in_use ?al x" if "x = b \<or> in_use (se_alloc s) x" for x
    unfolding use using n(3) n(4) [of x] that by blast
  moreover have "m_dest (msg_at ?al x) < n \<and> m_type (msg_at ?al x) \<noteq> LP_RETRACTABLE" if "x \<in> set ?q" for x
  proof (cases "x = b")
    case True
    then show ?thesis using m call by (simp add: sent_def call_ok_def)
  next
    case False
    then show ?thesis using that old [OF False] ok by (simp add: serial_ok_def sq)
  qed
  ultimately have "serial_ok n late ?s" "in_use ?al a"
    using ok a q(2) hq(1) by (auto simp: serial_ok_def sq)
  moreover have "pending ?s = add_mset (msg_at ?al b) (pending s)"
  proof -
    have "image_mset (msg_at ?al) (mset (queue s)) = image_mset (msg_at (se_alloc s)) (mset (queue s))"
      by (rule image_mset_cong) (metis old qb(1) set_mset_mset)
    then show ?thesis by (simp add: pending_def hq(2))
  qed
  moreover have "?q ! 0 = a" if "queue s \<noteq> [] \<and> queue s ! 0 = a"
  proof -
    let ?m = "\<lparr>m_dest = r, m_dest_t = t, m_flags = 0, m_seq = 0, m_type = ty, m_pl = pl\<rparr>"
    have "msg_at ?al b = ?m\<lparr>m_seq := m_seq (msg_at ?al b)\<rparr>"
      using m by (cases "msg_at ?al b") (simp add: sent_def)
    then have "msg_is_before (msg_at ?al b) y = msg_is_before ?m y" for y
      using before_no_seq(1) [where m = ?m and x = y] by metis
    then have "\<not> se_before ?al b a" using call by (simp add: se_before_def old [OF qb(2)] call_ok_def)
    then show ?thesis using se.heap_insert_root [of "queue s" ?al b] that by simp
  qed
  moreover have "ScheduleNewEvent_serial c r t ty pl s = Inr ?s"
    using p dbg by (simp add: ScheduleNewEvent_serial_def Let_def)
  moreover have "?q \<noteq> []" using sq by auto
  ultimately show ?thesis using m old [OF qb(2)] qb sq by (intro exI [of _ ?s] exI [of _ "msg_at ?al b"]) auto
qed

definition schedules :: "call list \<Rightarrow> call list" where
  "schedules cs = filter (\<lambda>a. case a of Schedule _ _ _ _ \<Rightarrow> True | Retract _ \<Rightarrow> False) cs"

lemma retract_kept:
  assumes "serial_ok n late s" "t \<le> SIMTIME_MAX"
  shows "serial_ok n (insert lp late) (s\<lparr>se_retractable := ScheduleRetractableEvent lp t (se_retractable s)\<rparr>)"
  using assms by (auto simp: serial_ok_def ScheduleRetractableEvent_def rq_ok_def rq_timely_def)

lemma late_mono: "serial_ok n late s \<Longrightarrow> late \<subseteq> late' \<Longrightarrow> serial_ok n late' s"
  by (auto simp: serial_ok_def rq_timely_def)

text \<open>All calls of a handler; \<open>first\<close> says whether the message handled is the first of the queue.\<close>

lemma calls_kept:
  assumes "serial_ok n late s" "in_use (se_alloc s) a" "msg_at (se_alloc s) a = m" "\<forall>x\<in>set cs. call_ok n m x" "\<not> debug c"
    and "if first then queue s \<noteq> [] \<and> queue s ! 0 = a else a \<notin> set (queue s)"
  shows "\<exists>s' ms. foldR (make_call c lp) cs s = Inr s' \<and> serial_ok n (insert lp late) s' \<and> in_use (se_alloc s') a
     \<and> msg_at (se_alloc s') a = m \<and> list_all2 sent ms (schedules cs) \<and> pending s' = mset ms + pending s \<and> se_state s' = se_state s
     \<and> (if first then queue s' \<noteq> [] \<and> queue s' ! 0 = a else a \<notin> set (queue s'))
     \<and> se_termination_t s' = se_termination_t s \<and> to_terminate s' = to_terminate s"
  using assms
proof (induction cs arbitrary: s late)
  case Nil
  then show ?case using late_mono [OF Nil.prems(1), of "insert lp late"] by (auto simp: schedules_def)
next
  case (Cons x cs)
  show ?case
  proof (cases x)
    case (Schedule r t ty pl)
    with Cons.prems have "call_ok n (msg_at (se_alloc s) a) (Schedule r t ty pl)" by simp
    from schedule_kept [OF Cons.prems(1,2) this Cons.prems(5)] obtain s1 m1 where
      1: "ScheduleNewEvent_serial c r t ty pl s = Inr s1" "serial_ok n late s1" "in_use (se_alloc s1) a"
      "msg_at (se_alloc s1) a = m" "sent m1 (Schedule r t ty pl)" "pending s1 = add_mset m1 (pending s)"
      "se_state s1 = se_state s" "queue s1 \<noteq> []" "a \<notin> set (queue s) \<longrightarrow> a \<notin> set (queue s1)"
      "queue s \<noteq> [] \<and> queue s ! 0 = a \<longrightarrow> queue s1 ! 0 = a"
      "se_termination_t s1 = se_termination_t s" "to_terminate s1 = to_terminate s"
      using Cons.prems(3) by blast
    have f: "if first then queue s1 \<noteq> [] \<and> queue s1 ! 0 = a else a \<notin> set (queue s1)"
      using Cons.prems(6) 1(8,9,10) by (cases first) auto
    have cs: "\<forall>x\<in>set cs. call_ok n m x" using Cons.prems(4) by simp
    from Cons.IH [OF 1(2,3,4) cs Cons.prems(5) f] obtain s' ms where
      2: "foldR (make_call c lp) cs s1 = Inr s'" "serial_ok n (insert lp late) s'" "in_use (se_alloc s') a"
      "msg_at (se_alloc s') a = m" "list_all2 sent ms (schedules cs)" "pending s' = mset ms + pending s1" "se_state s' = se_state s1"
      "if first then queue s' \<noteq> [] \<and> queue s' ! 0 = a else a \<notin> set (queue s')"
      "se_termination_t s' = se_termination_t s1" "to_terminate s' = to_terminate s1" by blast
    show ?thesis
      by (rule exI [of _ s'], rule exI [of _ "m1 # ms"]) (use 1 2 Schedule in \<open>auto simp: schedules_def\<close>)
  next
    case (Retract t)
    let ?s = "s\<lparr>se_retractable := ScheduleRetractableEvent lp t (se_retractable s)\<rparr>"
    have ok: "serial_ok n (insert lp late) ?s" using retract_kept [OF Cons.prems(1)] Cons.prems(4) Retract by (simp add: call_ok_def)
    have pr: "in_use (se_alloc ?s) a" "msg_at (se_alloc ?s) a = m" "\<forall>x\<in>set cs. call_ok n m x"
      "if first then queue ?s \<noteq> [] \<and> queue ?s ! 0 = a else a \<notin> set (queue ?s)"
      using Cons.prems(2,3,4,6) by simp_all
    from Cons.IH [OF ok pr(1-3) Cons.prems(5) pr(4)] obtain s' ms where
      2: "foldR (make_call c lp) cs ?s = Inr s'" "serial_ok n (insert lp (insert lp late)) s'" "in_use (se_alloc s') a"
      "msg_at (se_alloc s') a = m" "list_all2 sent ms (schedules cs)" "pending s' = mset ms + pending ?s" "se_state s' = se_state ?s"
      "if first then queue s' \<noteq> [] \<and> queue s' ! 0 = a else a \<notin> set (queue s')"
      "se_termination_t s' = se_termination_t ?s" "to_terminate s' = to_terminate ?s" by blast
    show ?thesis
      by (rule exI [of _ s'], rule exI [of _ ms]) (use 2 Retract in \<open>auto simp: schedules_def pending_def\<close>)
  qed
qed

subsection \<open>A turn of the loop\<close>

definition first_event :: "nat \<Rightarrow> 's serial \<Rightarrow> lp_msg \<Rightarrow> bool" where
  "first_event n s m \<longleftrightarrow>
     m \<in># pending s \<and> m_type m \<noteq> LP_RETRACTABLE \<and> (\<forall>x\<in>#pending s. \<not> msg_is_before x m)
       \<and> (\<forall>l<n. retractable_ctx (se_retractable s) l \<noteq> SIMTIME_MAX \<longrightarrow> m_dest_t m < retractable_ctx (se_retractable s) l)
   \<or> m_type m = LP_RETRACTABLE \<and> m_pl m = [] \<and> m_dest_t m = retractable_ctx (se_retractable s) (m_dest m)
       \<and> (\<forall>l<n. m_dest_t m \<le> retractable_ctx (se_retractable s) l) \<and> (\<forall>x\<in>#pending s. m_dest_t m \<le> m_dest_t x)"

lemma next_kept:
  assumes ok: "serial_ok n {} s" and ne: "queue s \<noteq> []" and n: "0 < n"
  shows "\<exists>a s1 first. serial_next s = Inr (a, s1) \<and> serial_ok n {m_dest (msg_at (se_alloc s1) a)} s1 \<and> in_use (se_alloc s1) a
     \<and> first_event n s (msg_at (se_alloc s1) a) \<and> m_dest (msg_at (se_alloc s1) a) < n \<and> pending s1 = pending s
     \<and> se_state s1 = se_state s \<and> (first \<longleftrightarrow> m_type (msg_at (se_alloc s1) a) \<noteq> LP_RETRACTABLE)
     \<and> (if first then queue s1 \<noteq> [] \<and> queue s1 ! 0 = a else a \<notin> set (queue s1))
     \<and> se_termination_t s1 = se_termination_t s \<and> to_terminate s1 = to_terminate s"
proof -
  let ?h = "queue s ! 0" and ?r = "se_retractable s" and ?al = "se_alloc s"
  let ?t = "m_dest_t (msg_at ?al ?h)"
  have h: "heap_min (queue s) = Inr ?h" "?h \<in> set (queue s)" using ne by (simp_all add: heap_min_def)
  have hp: "heap_at 2 (se_before ?al) (queue s)" and al: "alloc_ok ?al" and rq: "rq_ok {..<n} ?r" "rq_timely {} ?r" "{..<n} \<noteq> {}"
    "\<forall>l\<in>{..<n}. retractable_ctx ?r l \<le> SIMTIME_MAX" using ok n by (auto simp: serial_ok_def)
  have root: "\<not> msg_is_before x (msg_at ?al ?h)" if mem: "x \<in># pending s" for x
  proof -
    obtain b where b: "b \<in> set (queue s)" "x = msg_at ?al b" using mem by (auto simp: pending_def)
    then obtain j where "j < length (queue s)" "queue s ! j = b" by (auto simp: in_set_conv_nth)
    with se.heap_root [OF hp] b show ?thesis by (auto simp: se_before_def)
  qed
  obtain b where b: "retractable_is_before ?r ?t = Inr b"
    "b \<longleftrightarrow> (\<exists>l\<in>{..<n}. retractable_ctx ?r l \<le> ?t \<and> retractable_ctx ?r l \<noteq> SIMTIME_MAX)"
    and "\<exists>a r' al'. retractable_extract ?r ?al = Inr (a, r', al') \<and> m_dest (msg_at al' a) \<in> {..<n}
      \<and> m_type (msg_at al' a) = LP_RETRACTABLE \<and> m_flags (msg_at al' a) = 0 \<and> m_pl (msg_at al' a) = []
      \<and> m_dest_t (msg_at al' a) = retractable_ctx ?r (m_dest (msg_at al' a))
      \<and> (\<forall>l\<in>{..<n}. m_dest_t (msg_at al' a) \<le> retractable_ctx ?r l)
      \<and> retractable_ctx r' = (retractable_ctx ?r)(m_dest (msg_at al' a) := SIMTIME_MAX)
      \<and> rq_ok {..<n} r' \<and> rq_timely {m_dest (msg_at al' a)} r'"
    using extract_earliest [OF rq al, of ?t] by blast
  then obtain a r' al' where x: "retractable_extract ?r ?al = Inr (a, r', al')" and ax: "m_dest (msg_at al' a) < n"
      "m_type (msg_at al' a) = LP_RETRACTABLE" "m_pl (msg_at al' a) = []"
      "m_dest_t (msg_at al' a) = retractable_ctx ?r (m_dest (msg_at al' a))"
      "\<forall>l\<in>{..<n}. m_dest_t (msg_at al' a) \<le> retractable_ctx ?r l"
      and rx: "retractable_ctx r' = (retractable_ctx ?r)(m_dest (msg_at al' a) := SIMTIME_MAX)"
      "rq_ok {..<n} r'" "rq_timely {m_dest (msg_at al' a)} r'" by blast
  show ?thesis
  proof (cases b)
    case False
    then have "serial_next s = Inr (?h, s)" using h b(1) by (simp add: serial_next_def)
    moreover have hm: "msg_at ?al ?h \<in># pending s" using h(2) by (simp add: pending_def)
    moreover have "\<forall>l<n. retractable_ctx ?r l \<noteq> SIMTIME_MAX \<longrightarrow> ?t < retractable_ctx ?r l" using False b(2) by (auto simp: not_le)
    moreover have "m_type (msg_at ?al ?h) \<noteq> LP_RETRACTABLE" "m_dest (msg_at ?al ?h) < n" "in_use ?al ?h"
      using ok h(2) by (auto simp: serial_ok_def)
    ultimately show ?thesis using ok ne root late_mono [OF ok]
      by (intro exI [of _ ?h] exI [of _ s] exI [of _ True]) (auto simp: first_event_def)
  next
    case True
    let ?s = "s\<lparr>se_retractable := r', se_alloc := al'\<rparr>"
    note ex = retractable_extract_alloc [OF al x]
    have nx: "serial_next s = Inr (a, ?s)" using True h b(1) x by (simp add: serial_next_def)
    have aq: "a \<notin> set (queue s)" using ok ex(2) by (auto simp: serial_ok_def)
    then have same: "msg_at al' y = msg_at ?al y" if "y \<in> set (queue s)" for y
      using that by (intro ex(5)) auto
    have "heap_at 2 (se_before al') (queue s)" using heap_at_cong [OF hp, of "se_before al'"] same by (simp add: se_before_def)
    moreover have "in_use al' y" if "y \<in> set (queue s)" for y
      using ex(4) [of y] aq that ok by (auto simp: serial_ok_def)
    ultimately have "serial_ok n {m_dest (msg_at al' a)} ?s" using ok ex(1) rx same by (auto simp: serial_ok_def)
    moreover have "pending ?s = pending s" by (simp add: pending_def) (rule image_mset_cong, simp add: same)
    moreover have "m_dest_t (msg_at al' a) \<le> m_dest_t y" if "y \<in># pending s" for y
    proof -
      have "m_dest_t (msg_at al' a) \<le> ?t" using True b(2) ax(5) by (meson order_trans)
      moreover have "?t \<le> m_dest_t y" using root [OF that] by (auto simp: msg_is_before_def)
      ultimately show ?thesis by simp
    qed
    ultimately show ?thesis using nx ex(3) ax aq
      by (intro exI [of _ a] exI [of _ ?s] exI [of _ False]) (auto simp: first_event_def)
  qed
qed

lemma handle_kept:
  assumes ok: "serial_ok n {m_dest m} s" and a: "in_use (se_alloc s) a" "msg_at (se_alloc s) a = m"
    and calls: "\<forall>x\<in>set (snd (dispatcher c (m_dest m) (m_dest_t m) (m_type m) (m_pl m) (se_state s (m_dest m)))). call_ok n m x"
    and c: "\<not> debug c" "m_dest m < n" and q: "if first then queue s \<noteq> [] \<and> queue s ! 0 = a else a \<notin> set (queue s)"
  shows "\<exists>s' ms. serial_handle c a s = Inr s' \<and> serial_ok n {} s' \<and> in_use (se_alloc s') a \<and> msg_at (se_alloc s') a = m
     \<and> list_all2 sent ms (schedules (snd (dispatcher c (m_dest m) (m_dest_t m) (m_type m) (m_pl m) (se_state s (m_dest m)))))
     \<and> pending s' = mset ms + pending s
     \<and> se_state s' = (se_state s)(m_dest m := fst (dispatcher c (m_dest m) (m_dest_t m) (m_type m) (m_pl m) (se_state s (m_dest m))))
     \<and> (if first then queue s' \<noteq> [] \<and> queue s' ! 0 = a else a \<notin> set (queue s'))
     \<and> se_termination_t s' = se_termination_t s \<and> to_terminate s' = to_terminate s"
proof -
  obtain st cs where d: "dispatcher c (m_dest m) (m_dest_t m) (m_type m) (m_pl m) (se_state s (m_dest m)) = (st, cs)" by fastforce
  let ?s = "s\<lparr>se_state := (se_state s)(m_dest m := st)\<rparr>"
  have ok': "serial_ok n {m_dest m} ?s" using ok by (simp add: serial_ok_def)
  have pr: "in_use (se_alloc ?s) a" "msg_at (se_alloc ?s) a = m" "\<forall>x\<in>set cs. call_ok n m x"
    "if first then queue ?s \<noteq> [] \<and> queue ?s ! 0 = a else a \<notin> set (queue ?s)" using a calls d q by simp_all
  from calls_kept [OF ok' pr(1-3) c(1) pr(4), of "m_dest m"] obtain s1 ms where
    1: "foldR (make_call c (m_dest m)) cs ?s = Inr s1" "serial_ok n {m_dest m} s1" "in_use (se_alloc s1) a"
    "msg_at (se_alloc s1) a = m" "list_all2 sent ms (schedules cs)" "pending s1 = mset ms + pending ?s" "se_state s1 = se_state ?s"
    "if first then queue s1 \<noteq> [] \<and> queue s1 ! 0 = a else a \<notin> set (queue s1)"
    "se_termination_t s1 = se_termination_t ?s" "to_terminate s1 = to_terminate ?s" by auto
  have "rq_ok {..<n} (se_retractable s1)" "rq_timely {m_dest m} (se_retractable s1)" "m_dest m \<in> {..<n}"
    using 1(2) c(2) by (auto simp: serial_ok_def)
  from reschedule_kept [OF this] obtain r where r: "retractable_reschedule (m_dest m) (se_retractable s1) = Inr r"
    "rq_ok {..<n} r" "rq_timely {} r" "retractable_ctx r = retractable_ctx (se_retractable s1)" by blast
  let ?s2 = "s1\<lparr>se_retractable := r\<rparr>"
  have "serial_ok n {} ?s2" using 1(2) r(2-4) by (simp add: serial_ok_def)
  moreover have "serial_handle c a s = Inr ?s2" using 1(1) r(1) a(2) d by (simp add: serial_handle_def common_msg_process_def)
  ultimately show ?thesis using 1 d by (intro exI [of _ ?s2] exI [of _ ms]) (simp add: pending_def)
qed

lemma remove_kept:
  assumes ok: "serial_ok n {} s" and a: "in_use (se_alloc s) a"
    and q: "if m_type (msg_at (se_alloc s) a) \<noteq> LP_RETRACTABLE then queue s \<noteq> [] \<and> queue s ! 0 = a else a \<notin> set (queue s)"
  shows "\<exists>s'. serial_remove a s = Inr s' \<and> serial_ok n {} s' \<and> se_state s' = se_state s
    \<and> pending s = (if m_type (msg_at (se_alloc s) a) \<noteq> LP_RETRACTABLE then {#msg_at (se_alloc s) a#} else {#}) + pending s'
    \<and> se_termination_t s' = se_termination_t s \<and> to_terminate s' = to_terminate s"
proof -
  let ?al = "se_alloc s" and ?f = "msg_allocator_free a (se_alloc s)"
  have al: "alloc_ok ?al" using ok by (simp add: serial_ok_def)
  note f = free_kept [OF al a]
  have at: "msg_at ?f = msg_at ?al" using f(3) by (simp add: fun_eq_iff msg_at_def)
  then have lt: "se_before ?f = se_before ?al" by (simp add: fun_eq_iff se_before_def)
  show ?thesis
  proof (cases "m_type (msg_at ?al a) = LP_RETRACTABLE")
    case True
    let ?s = "s\<lparr>se_alloc := ?f\<rparr>"
    have "in_use ?f y" if "y \<in> set (queue s)" for y
      using f(2) [of y] q True that ok by (auto simp: serial_ok_def)
    then have "serial_ok n {} ?s" using ok f(1) at lt by (simp add: serial_ok_def)
    with True show ?thesis by (intro exI [of _ ?s]) (simp add: serial_remove_def pending_def at)
  next
    case False
    with q have ne: "queue s \<noteq> []" and r: "queue s ! 0 = a" by auto
    then obtain h where h: "heap_extract (se_before ?al) (queue s) = Inr (a, h)"
      by (simp add: heap_extract_def hd_conv_nth)
    have "heap_at 2 (se_before ?al) (queue s)" using ok by (simp add: serial_ok_def)
    note x = se.heap_extract_ok [OF this h]
    have d: "distinct (a # h)" using x(2) ok mset_eq_imp_distinct_iff [of "queue s" "a # h"] by (simp add: serial_ok_def)
    have sq: "set (queue s) = insert a (set h)" using x(2) by (metis set_mset_add_mset_insert set_mset_mset)
    let ?s = "s\<lparr>queue := h, se_alloc := ?f\<rparr>"
    have "in_use ?f y" if "y \<in> set h" for y
      using f(2) [of y] d that ok sq by (auto simp: serial_ok_def)
    then have "serial_ok n {} ?s" using ok f(1) at lt x(1) d sq by (simp add: serial_ok_def)
    with False h x(2) show ?thesis by (intro exI [of _ ?s]) (simp add: serial_remove_def pending_def at)
  qed
qed

text \<open>
  C14: A turn of the sequential engine with a well behaved model, one whose handlers schedule
  nothing before the event at hand: it never faults and handles a first pending event, an
  ordinary message that no other comes before or the earliest event of a process, with exactly
  the state of its process. Unless it ends the run, it keeps the queue in order, and the pending
  messages are then those before without the one handled and with those its handler sent.
\<close>

theorem serial_turn_exact:
  assumes "serial_ok (lps c) {} s" "queue s \<noteq> []" "0 < lps c" "\<not> debug c"
    and "\<forall>m st. m_dest m < lps c \<longrightarrow>
      (\<forall>x\<in>set (snd (dispatcher c (m_dest m) (m_dest_t m) (m_type m) (m_pl m) st)). call_ok (lps c) m x)"
  shows "\<exists>m stop s' ms st cs. serial_turn c due s = Inr (stop, s') \<and> first_event (lps c) s m
    \<and> dispatcher c (m_dest m) (m_dest_t m) (m_type m) (m_pl m) (se_state s (m_dest m)) = (st, cs)
    \<and> se_state s' = (se_state s)(m_dest m := st) \<and> list_all2 sent ms (schedules cs)
    \<and> (stop \<longrightarrow> to_terminate s' = 0 \<or> termination_time c \<le> m_dest_t m)
    \<and> (\<not> stop \<longrightarrow> serial_ok (lps c) {} s'
        \<and> pending s + mset ms = (if m_type m \<noteq> LP_RETRACTABLE then {#m#} else {#}) + pending s')"
proof -
  obtain a s1 first where 1: "serial_next s = Inr (a, s1)" "serial_ok (lps c) {m_dest (msg_at (se_alloc s1) a)} s1"
    "in_use (se_alloc s1) a" "first_event (lps c) s (msg_at (se_alloc s1) a)" "m_dest (msg_at (se_alloc s1) a) < lps c"
    "pending s1 = pending s" "se_state s1 = se_state s" "first \<longleftrightarrow> m_type (msg_at (se_alloc s1) a) \<noteq> LP_RETRACTABLE"
    "if first then queue s1 \<noteq> [] \<and> queue s1 ! 0 = a else a \<notin> set (queue s1)"
    using next_kept [OF assms(1-3)] by blast
  define m where "m = msg_at (se_alloc s1) a"
  obtain st cs where d: "dispatcher c (m_dest m) (m_dest_t m) (m_type m) (m_pl m) (se_state s1 (m_dest m)) = (st, cs)" by fastforce
  have cs: "\<forall>x\<in>set (snd (dispatcher c (m_dest m) (m_dest_t m) (m_type m) (m_pl m) (se_state s1 (m_dest m)))). call_ok (lps c) m x"
    using assms(5) 1(5) by (simp add: m_def)
  obtain s2 ms where 2: "serial_handle c a s1 = Inr s2" "serial_ok (lps c) {} s2" "in_use (se_alloc s2) a" "msg_at (se_alloc s2) a = m"
    "list_all2 sent ms (schedules cs)" "pending s2 = mset ms + pending s1" "se_state s2 = (se_state s1)(m_dest m := st)"
    "if first then queue s2 \<noteq> [] \<and> queue s2 ! 0 = a else a \<notin> set (queue s2)"
    using handle_kept [OF 1(2) [folded m_def] 1(3) m_def [symmetric] cs assms(4) 1(5) [folded m_def] 1(9)] d by auto
  define ends where "ends \<longleftrightarrow> se_termination_t s2 (m_dest m) < 0 \<and> committed c (m_dest m) (se_state s2 (m_dest m))"
  define s3 where "s3 = (if ends then s2\<lparr>se_termination_t := (se_termination_t s2)(m_dest m := m_dest_t m),
    to_terminate := to_terminate s2 - 1\<rparr> else s2)"
  have 3: "serial_ok (lps c) {} s3" "in_use (se_alloc s3) a" "msg_at (se_alloc s3) a = m" "pending s3 = mset ms + pending s"
    "se_state s3 = (se_state s)(m_dest m := st)"
    "if m_type (msg_at (se_alloc s3) a) \<noteq> LP_RETRACTABLE then queue s3 \<noteq> [] \<and> queue s3 ! 0 = a else a \<notin> set (queue s3)"
    using 2 1(6,7,8) by (auto simp: s3_def serial_ok_def pending_def m_def)
  obtain s4 where 4: "serial_remove a s3 = Inr s4" "serial_ok (lps c) {} s4" "se_state s4 = se_state s3"
    "pending s3 = (if m_type m \<noteq> LP_RETRACTABLE then {#m#} else {#}) + pending s4"
    using remove_kept [OF 3(1,2,6)] 3(3) by auto
  have t: "serial_turn c due s = (if ends \<and> to_terminate s3 = 0 then Inr (True, s3)
     else if due \<and> termination_time c \<le> m_dest_t m then Inr (True, s3) else Inr (False, s4))"
    using 1(1) 2(1,4) 4(1)
    by (simp only: serial_turn_def Let_def ends_def [symmetric] bindR_simps prod.case s3_def [symmetric] split: if_split)
  have fe: "first_event (lps c) s m" using 1(4) by (simp add: m_def)
  have dd: "dispatcher c (m_dest m) (m_dest_t m) (m_type m) (m_pl m) (se_state s (m_dest m)) = (st, cs)" using d 1(7) by simp
  show ?thesis
  proof (cases "(ends \<and> to_terminate s3 = 0) \<or> (due \<and> termination_time c \<le> m_dest_t m)")
    case True
    then have "serial_turn c due s = Inr (True, s3)" "to_terminate s3 = 0 \<or> termination_time c \<le> m_dest_t m" using t by auto
    then show ?thesis using fe dd 3(5) 2(5) by blast
  next
    case False
    then have "serial_turn c due s = Inr (False, s4)" using t by auto
    moreover have "pending s + mset ms = (if m_type m \<noteq> LP_RETRACTABLE then {#m#} else {#}) + pending s4"
      using 3(4) 4(4) by (simp add: add.commute)
    ultimately show ?thesis using fe dd 3(5) 2(5) 4(2,3) by metis
  qed
qed

definition example_rq1 :: retractable where
  "example_rq1 = retractable_lib_lp_init 0 \<lparr>r_queue = [], retractable_pos = (\<lambda>_. 0), retractable_ctx = (\<lambda>_. 0)\<rparr>"

text \<open>One process that answers every event with another one a time unit later.\<close>

definition example_config :: "nat config" where
  "example_config = \<lparr>lps = 1, dispatcher = (\<lambda>lp t ty pl st. (Suc st, [Schedule 0 (t + 1) 1 []])), committed = (\<lambda>_ st. st > 5),
     termination_time = SIMTIME_MAX, debug = False\<rparr>"

definition example_serial :: "nat serial" where
  "example_serial = \<lparr>se_alloc = \<lparr>ma_store = (\<lambda>_. \<lparr>m_dest = 0, m_dest_t = 1, m_flags = 0, m_seq = 0, m_type = 1, m_pl = []\<rparr>),
       ma_fresh = 1, free_list = [], at_gvt_list = []\<rparr>,
     queue = [0], se_retractable = example_rq1, se_state = (\<lambda>_. 0), se_termination_t = (\<lambda>_. -1), to_terminate = 1\<rparr>"

lemma example_serial_ok: "serial_ok 1 {} example_serial"
proof -
  let ?q = "\<lparr>r_queue = [], retractable_pos = (\<lambda>_. 0), retractable_ctx = (\<lambda>_. 0)\<rparr> :: retractable"
  have "rq_ok {} ?q" "rq_timely {} ?q" by (simp_all add: rq_ok_def rq_timely_def heap_at_def tracked_def)
  then have "rq_ok {..<1} example_rq1" "rq_timely {} example_rq1"
    using lp_init_kept [of "{}" ?q 0] by (simp_all add: example_rq1_def lessThan_Suc)
  moreover have "retractable_ctx example_rq1 0 = SIMTIME_MAX"
    by (simp add: example_rq1_def retractable_lib_lp_init_def Let_def split: prod.splits)
  ultimately show ?thesis
    by (simp add: serial_ok_def example_serial_def alloc_ok_def in_use_def heap_at_def msg_at_def LP_RETRACTABLE_def)
qed

theorem serial_turn_exact_witness:
  "\<exists>m stop s' ms st cs. serial_turn example_config True example_serial = Inr (stop, s') \<and> first_event 1 example_serial m
    \<and> dispatcher example_config (m_dest m) (m_dest_t m) (m_type m) (m_pl m) (se_state example_serial (m_dest m)) = (st, cs)
    \<and> se_state s' = (se_state example_serial)(m_dest m := st) \<and> list_all2 sent ms (schedules cs)"
proof -
  have ok: "serial_ok (lps example_config) {} example_serial" using example_serial_ok by (simp add: example_config_def)
  have "\<forall>m st. m_dest m < lps example_config \<longrightarrow>
      (\<forall>x\<in>set (snd (dispatcher example_config (m_dest m) (m_dest_t m) (m_type m) (m_pl m) st)). call_ok (lps example_config) m x)"
    by (simp add: example_config_def call_ok_def LP_RETRACTABLE_def msg_is_before_def)
  from serial_turn_exact [OF ok _ _ _ this, of True] show ?thesis
    by (simp add: example_config_def example_serial_def) blast
qed

text \<open>
  A debug build refuses correct events: while the event of a process is handled, a new
  message is compared with the first ordinary message, which lies in the future, and the program
  stops when the new one is to happen before that, although it lies in the future as well.
\<close>

lemma serial_debug_refuses_future:
  assumes "debug c" "serial_ok n {} s" "queue s \<noteq> []" "0 < n" "serial_next s = Inr (a, s1)"
    and "m_dest_t (msg_at (se_alloc s1) a) < t" "t < m_dest_t (msg_at (se_alloc s1) (queue s1 ! 0))"
  shows "ScheduleNewEvent_serial c r t ty pl s1 = Inl Abort"
proof -
  have ok: "serial_ok n {m_dest (msg_at (se_alloc s1) a)} s1" using next_kept [OF assms(2-4)] assms(5) by auto
  have q: "queue s1 = queue s" using assms(5) by (auto simp: serial_next_def bindR_eq_Inr split: if_splits)
  obtain b al1 where p: "msg_allocator_pack r t ty pl (se_alloc s1) = (b, al1)" by fastforce
  have "alloc_ok (se_alloc s1)" using ok by (simp add: serial_ok_def)
  note n = pack_new [OF this p]
  have "in_use (se_alloc s1) (queue s1 ! 0)" using ok q assms(3) by (simp add: serial_ok_def)
  then have "queue s1 ! 0 \<noteq> b" using n(2) by auto
  then have "se_before (msg_upd b (\<lambda>m. m\<lparr>m_flags := 0\<rparr>) al1) b (queue s1 ! 0)"
    using n(5) [of "queue s1 ! 0"] n(7) assms(7) by (simp add: se_before_def msg_is_before_def msg_at_def msg_upd_def)
  then show ?thesis using p q assms(1,3) by (simp add: ScheduleNewEvent_serial_def heap_min_def Let_def)
qed

end
