(* ===== verification/Lp.thy ===== *)
theory Lp
  imports Prelude "HOL-Library.While_Combinator"
begin

text \<open>
  Which node and which thread hosts a logical process (lp/lp.h, lp/lp.c): the macros lid_to_nid
  and lid_to_rid, the search of partition_start for the first process of a part, and how
  lp_global_init and lp_init divide the processes. Ids are 64 bit words; a search that does not
  end is None.

  The result: as long as the products do not wrap, the search returns, and the parts it finds
  are exactly the processes that lid_to_nid or lid_to_rid sends to them.
\<close>

text \<open>The loops of partition_start: down while the index is in the part or after it, then up to it.\<close>

definition partition_start :: "u64 \<Rightarrow> u64 \<Rightarrow> (u64 \<Rightarrow> u64) \<Rightarrow> u64 \<Rightarrow> u64 \<Rightarrow> u64 option" where
  "partition_start part_id part_cnt part_fnc start_i tot_i =
     (case while_option (\<lambda>g. g > start_i \<and> part_fnc g \<ge> part_id) (\<lambda>g. g - 1) (part_id * tot_i div part_cnt + start_i) of
        None \<Rightarrow> None
      | Some g \<Rightarrow> while_option (\<lambda>g. part_fnc g < part_id) (\<lambda>g. g + 1) g)"

text \<open>The ids are narrowed to 32 bits, as nid_t and rid_t are, and widened for the comparison.\<close>

definition lid_to_nid :: "u32 \<Rightarrow> u64 \<Rightarrow> u64 \<Rightarrow> u32" where
  "lid_to_nid n_nodes lps lp_id = ucast (lp_id * ucast n_nodes div lps)"

definition lid_to_rid :: "u64 \<Rightarrow> u32 \<Rightarrow> u64 \<Rightarrow> u64 \<Rightarrow> u32" where
  "lid_to_rid lid_node_first n_threads n_lps_node lp_id = ucast ((lp_id - lid_node_first) * ucast n_threads div n_lps_node)"

text \<open>
  lp_global_init gives the first process of the node, their number, and the number of threads,
  which a node with fewer processes lowers.
\<close>

definition lp_global_init :: "u32 \<Rightarrow> u32 \<Rightarrow> u64 \<Rightarrow> u32 \<Rightarrow> (u64 \<times> u64 \<times> u32) option" where
  "lp_global_init nid n_nodes lps n_threads =
     (case partition_start (ucast nid) (ucast n_nodes) (\<lambda>g. ucast (lid_to_nid n_nodes lps g)) 0 lps of
        None \<Rightarrow> None
      | Some lid_node_first \<Rightarrow>
     (case partition_start (ucast nid + 1) (ucast n_nodes) (\<lambda>g. ucast (lid_to_nid n_nodes lps g)) 0 lps of
        None \<Rightarrow> None
      | Some e \<Rightarrow>
        let n_lps_node = e - lid_node_first in
        Some (lid_node_first, n_lps_node, if n_lps_node < ucast n_threads then ucast n_lps_node else n_threads)))"

text \<open>The processes of a thread: from the first up to, but not including, the second one.\<close>

definition lp_init_range :: "u32 \<Rightarrow> u64 \<Rightarrow> u32 \<Rightarrow> u64 \<Rightarrow> (u64 \<times> u64) option" where
  "lp_init_range rid lid_node_first n_threads n_lps_node =
     (let f = (\<lambda>g. ucast (lid_to_rid lid_node_first n_threads n_lps_node g)) in
      case partition_start (ucast rid) (ucast n_threads) f lid_node_first n_lps_node of
        None \<Rightarrow> None
      | Some lid_thread_first \<Rightarrow>
     (case partition_start (ucast rid + 1) (ucast n_threads) f lid_node_first n_lps_node of
        None \<Rightarrow> None
      | Some lid_thread_end \<Rightarrow> Some (lid_thread_first, lid_thread_end)))"

subsection \<open>The search\<close>

text \<open>For a function that grows up to part_cnt the search returns the first index of the part or after it.\<close>

lemma partition_start_least:
  fixes s :: u64
  assumes mono: "\<And>x y. s \<le> x \<Longrightarrow> x \<le> y \<Longrightarrow> y \<le> e \<Longrightarrow> f x \<le> f y"
    and top: "p \<le> f e" and guess: "s \<le> p * tot div cnt + s" "p * tot div cnt + s \<le> e"
  shows "\<exists>g. partition_start p cnt f s tot = Some g \<and> s \<le> g \<and> g \<le> e \<and> (\<forall>x. s \<le> x \<and> x \<le> e \<longrightarrow> x < g \<longleftrightarrow> f x < p)"
proof -
  let ?b = "\<lambda>g. g > s \<and> f g \<ge> p" and ?c = "\<lambda>g :: u64. g - 1" and ?P = "\<lambda>g. s \<le> g \<and> g \<le> e"
  have down: "?P (?c g) \<and> unat (?c g) < unat g" if "?P g" "?b g" for g
  proof -
    have "g \<noteq> 0" using that by auto
    then have "unat (g - 1) = unat g - 1" "0 < unat g" by (simp_all add: unat_minus_one unat_gt_0)
    with that \<open>0 < unat g\<close> show ?thesis by (auto simp: word_le_nat_alt word_less_nat_alt)
  qed
  obtain g where g: "while_option ?b ?c (p * tot div cnt + s) = Some g"
    using measure_while_option_Some [of ?P ?b ?c unat "p * tot div cnt + s"] down guess by blast
  have Pg: "?P g" using while_option_rule [OF _ g, of ?P] down guess by blast
  have "\<not> ?b g" using while_option_stop [OF g] .
  then have low: "x < g \<Longrightarrow> s \<le> x \<Longrightarrow> f x < p" for x
    using mono [of x g] Pg by (meson leD leI less_imp_le order_le_less_trans order.strict_trans1)
  let ?b2 = "\<lambda>g. f g < p" and ?c2 = "\<lambda>g :: u64. g + 1"
  let ?P2 = "\<lambda>g. s \<le> g \<and> g \<le> e \<and> (\<forall>x. s \<le> x \<and> x < g \<longrightarrow> f x < p)"
  have up: "?P2 (?c2 g) \<and> unat e - unat (?c2 g) < unat e - unat g" if "?P2 g" "?b2 g" for g
  proof -
    have "g \<noteq> e" using that top by auto
    with that have ge: "g < e" by (simp add: order_le_neq_trans)
    then have u: "unat (g + 1) = Suc (unat g)"
      using unsigned_less [of e, where 'a = nat] by (simp add: word_less_nat_alt unat_word_ariths mod_less)
    have "f x < p" if "s \<le> x" "x < g + 1" for x
    proof (cases "x = g")
      case False
      with that u have "x < g" by (auto simp: word_less_nat_alt less_Suc_eq word_unat_eq_iff)
      with that \<open>?P2 g\<close> show ?thesis by blast
    qed (use \<open>?b2 g\<close> in simp)
    with that u ge show ?thesis by (auto simp: word_le_nat_alt word_less_nat_alt)
  qed
  have P2g: "?P2 g" using Pg low by blast
  then obtain g' where g': "while_option ?b2 ?c2 g = Some g'"
    using measure_while_option_Some [of ?P2 ?b2 ?c2 "\<lambda>g. unat e - unat g" g] up by blast
  have P2: "?P2 g'" using while_option_rule [OF _ g', of ?P2] up P2g by blast
  have "\<not> ?b2 g'" using while_option_stop [OF g'] .
  then have "x < g' \<longleftrightarrow> f x < p" if "s \<le> x" "x \<le> e" for x
    using P2 mono [of g' x] that by (meson leD leI order_trans)
  with g g' P2 show ?thesis by (auto simp: partition_start_def)
qed

subsection \<open>The parts\<close>

text \<open>Both macros are of one form: an offset is scaled from tot to cnt.\<close>

lemma unat_scaled:
  fixes x s t c :: u64
  assumes "unat t * unat c < 2 ^ 64" "s \<le> x" "unat x - unat s \<le> unat t"
  shows "unat ((x - s) * c div t) = (unat x - unat s) * unat c div unat t"
proof -
  have d: "unat (x - s) = unat x - unat s" using assms(2) by (simp add: unat_sub word_le_nat_alt)
  have "(unat x - unat s) * unat c \<le> unat t * unat c" using assms(3) by simp
  with assms(1) have "(unat x - unat s) * unat c < 2 ^ 64" by linarith
  then have "unat ((x - s) * c) = (unat x - unat s) * unat c" by (simp add: unat_word_ariths d)
  then show ?thesis by (simp add: unat_div)
qed

lemma scaled_bound: "0 < t \<Longrightarrow> a \<le> t \<Longrightarrow> a * c div t \<le> (c :: nat)"
  by (metis div_le_mono mult_le_mono1 nonzero_mult_div_cancel_left not_gr_zero)

lemma unat_narrow: "unat (w :: u64) < 2 ^ 32 \<Longrightarrow> unat (ucast (ucast w :: u32) :: u64) = unat w"
  by (simp add: unsigned_ucast_eq unsigned_take_bit_eq take_bit_nat_eq_self)

lemma unat_widen: "unat (ucast (w :: u32) :: u64) = unat w"
  using unsigned_less [of w, where 'a = nat] by (simp add: unsigned_ucast_eq take_bit_nat_eq_self)

lemma scaled_parts:
  fixes s t :: u64 and c p :: u32
  assumes t: "0 < unat t" and c: "0 < unat c" and no_wrap: "unat t * unat c < 2 ^ 64" "unat s + unat t < 2 ^ 64"
    and p: "unat p \<le> unat c"
    and f: "f = (\<lambda>g :: u64. ucast (ucast ((g - s) * ucast c div t) :: u32))"
  shows "\<exists>g. partition_start (ucast p) (ucast c) f s t = Some g \<and> s \<le> g \<and> g \<le> s + t
    \<and> (\<forall>x. s \<le> x \<and> x \<le> s + t \<longrightarrow> x < g \<longleftrightarrow> f x < ucast p)"
proof (rule partition_start_least)
  have e: "unat (s + t) = unat s + unat t" using no_wrap(2) by (simp add: unat_word_ariths)
  have cu: "unat (ucast c :: u64) = unat c" and pu: "unat (ucast p :: u64) = unat p" by (simp_all add: unat_widen)
  have fu: "unat (f x) = (unat x - unat s) * unat c div unat t" if "s \<le> x" "x \<le> s + t" for x
  proof -
    have d: "unat x - unat s \<le> unat t" using that e by (simp add: word_le_nat_alt)
    have "unat ((x - s) * ucast c div t) = (unat x - unat s) * unat c div unat t"
      using unat_scaled [of t "ucast c" s x] no_wrap(1) that(1) d cu by simp
    moreover have "(unat x - unat s) * unat c div unat t < 2 ^ 32"
      using scaled_bound [OF t d, of "unat c"] unsigned_less [of c, where 'a = nat] by simp
    ultimately show ?thesis unfolding f using unat_narrow by metis
  qed
  show "f x \<le> f y" if "s \<le> x" "x \<le> y" "y \<le> s + t" for x y
  proof -
    have "(unat x - unat s) * unat c div unat t \<le> (unat y - unat s) * unat c div unat t"
      using that by (intro div_le_mono mult_le_mono1 diff_le_mono) (simp add: word_le_nat_alt)
    with that show ?thesis using fu [of x] fu [of y] by (simp add: word_le_nat_alt)
  qed
  have "s \<le> s + t" using e by (simp add: word_le_nat_alt)
  then show "ucast p \<le> f (s + t)" using fu [of "s + t"] e t p pu by (simp add: word_le_nat_alt)
  have "unat p * unat t \<le> unat t * unat c" using p by simp
  with no_wrap(1) have "unat p * unat t < 2 ^ 64" by linarith
  then have "unat (ucast p * t div ucast c) = unat p * unat t div unat c"
    using pu cu by (simp add: unat_div unat_word_ariths)
  moreover have "unat p * unat t div unat c \<le> unat t" using scaled_bound [OF c p, of "unat t"] by simp
  ultimately have "unat (ucast p * t div ucast c + s) = unat p * unat t div unat c + unat s"
    "unat p * unat t div unat c + unat s \<le> unat s + unat t" using no_wrap(2) by (simp_all add: unat_word_ariths)
  then show "s \<le> ucast p * t div ucast c + s" "ucast p * t div ucast c + s \<le> s + t"
    using e by (simp_all add: word_le_nat_alt)
qed

text \<open>Two searches one after the other bound exactly the indexes of one part.\<close>

lemma scaled_part:
  fixes s t :: u64 and c p :: u32
  assumes t: "0 < unat t" and p: "p < c" and no_wrap: "unat t * unat c < 2 ^ 64" "unat s + unat t < 2 ^ 64"
    and f: "f = (\<lambda>g :: u64. (ucast ((g - s) * ucast c div t) :: u32))"
  shows "\<exists>a b. partition_start (ucast p) (ucast c) (\<lambda>g. ucast (f g)) s t = Some a
    \<and> partition_start (ucast p + 1) (ucast c) (\<lambda>g. ucast (f g)) s t = Some b
    \<and> s \<le> a \<and> a \<le> b \<and> b \<le> s + t \<and> (\<forall>x. s \<le> x \<and> x \<le> s + t \<longrightarrow> a \<le> x \<and> x < b \<longleftrightarrow> f x = p)"
proof -
  have pc: "unat p < unat c" using p by (simp add: word_less_nat_alt)
  then have s1: "unat (p + 1) = Suc (unat p)"
    using unsigned_less [of c, where 'a = nat] by (simp add: unat_word_ariths)
  then have u1: "(ucast (p + 1) :: u64) = ucast p + 1"
    using unsigned_less [of p, where 'a = nat] by (simp add: unat_widen word_unat_eq_iff unat_word_ariths)
  have F: "(\<lambda>g. ucast (f g)) = (\<lambda>g :: u64. ucast (ucast ((g - s) * ucast c div t) :: u32) :: u64)"
    by (simp add: f)
  obtain a where a: "partition_start (ucast p) (ucast c) (\<lambda>g. ucast (f g)) s t = Some a" "s \<le> a" "a \<le> s + t"
    "\<And>x. s \<le> x \<Longrightarrow> x \<le> s + t \<Longrightarrow> x < a \<longleftrightarrow> (ucast (f x) :: u64) < ucast p"
    using scaled_parts [OF t _ no_wrap _ F, of p] pc by auto
  obtain b where b: "partition_start (ucast p + 1) (ucast c) (\<lambda>g. ucast (f g)) s t = Some b" "s \<le> b" "b \<le> s + t"
    "\<And>x. s \<le> x \<Longrightarrow> x \<le> s + t \<Longrightarrow> x < b \<longleftrightarrow> (ucast (f x) :: u64) < ucast (p + 1)"
    using scaled_parts [OF t _ no_wrap _ F, of "p + 1"] pc s1 unfolding u1 by auto
  have "a \<le> x \<and> x < b \<longleftrightarrow> f x = p" if "s \<le> x" "x \<le> s + t" for x
    using a(4) [OF that] b(4) [OF that] s1 by (auto simp: word_less_nat_alt word_le_nat_alt unat_widen word_unat_eq_iff)
  moreover have "a \<le> b"
  proof (rule ccontr)
    assume "\<not> a \<le> b"
    then have "b < a" by simp
    then have "unat (f b) < unat p" using a(4) [OF b(2,3)] by (simp add: word_less_nat_alt unat_widen)
    then have "b < b" using b(4) [OF b(2,3)] s1 by (simp add: word_less_nat_alt unat_widen)
    then show False by simp
  qed
  ultimately show ?thesis using a(1-3) b(1-3) by blast
qed

text \<open>
  C38: The threads of a node share its processes: both searches of lp_init return, and the
  processes between their results are exactly those that lid_to_rid sends to the thread.
\<close>

theorem lp_init_range_exact:
  assumes "0 < n_lps_node" "rid < n_threads" "unat n_lps_node * unat n_threads < 2 ^ 64"
    and "unat lid_node_first + unat n_lps_node < 2 ^ 64"
  shows "\<exists>a b. lp_init_range rid lid_node_first n_threads n_lps_node = Some (a, b)
    \<and> lid_node_first \<le> a \<and> a \<le> b \<and> b \<le> lid_node_first + n_lps_node
    \<and> (\<forall>lp. lid_node_first \<le> lp \<and> lp < lid_node_first + n_lps_node \<longrightarrow>
         a \<le> lp \<and> lp < b \<longleftrightarrow> lid_to_rid lid_node_first n_threads n_lps_node lp = rid)"
proof -
  have "0 < unat n_lps_node" using assms(1) by (simp add: unat_gt_0 word_neq_0_conv)
  from scaled_part [OF this assms(2-4) refl] show ?thesis
    by (auto simp: lp_init_range_def lid_to_rid_def [abs_def] Let_def less_imp_le)
qed

theorem lp_init_range_exact_witness:
  "\<exists>a b. lp_init_range 1 5 4 10 = Some (a, b) \<and> 5 \<le> a \<and> a \<le> b \<and> b \<le> 5 + 10
    \<and> (\<forall>lp. 5 \<le> lp \<and> lp < 5 + 10 \<longrightarrow> a \<le> lp \<and> lp < b \<longleftrightarrow> lid_to_rid 5 4 10 lp = 1)"
  using lp_init_range_exact [of 10 1 4 5] by simp

text \<open>
  The nodes share all processes: lp_global_init returns, and the processes from the first
  one on, as many as it says, are exactly those that lid_to_nid sends to the node.
\<close>

lemma lp_global_init_exact:
  assumes "0 < lps" "nid < n_nodes" "unat lps * unat n_nodes < 2 ^ 64"
  shows "\<exists>first n threads. lp_global_init nid n_nodes lps n_threads = Some (first, n, threads)
    \<and> unat first + unat n \<le> unat lps \<and> unat threads \<le> unat n_threads \<and> unat threads \<le> unat n
    \<and> (\<forall>lp. lp < lps \<longrightarrow> first \<le> lp \<and> unat lp < unat first + unat n \<longleftrightarrow> lid_to_nid n_nodes lps lp = nid)"
proof -
  have t: "0 < unat lps" using assms(1) by (simp add: unat_gt_0 word_neq_0_conv)
  have l: "unat (0 :: u64) + unat lps < 2 ^ 64" using unsigned_less [of lps, where 'a = nat] by simp
  have F: "lid_to_nid n_nodes lps = (\<lambda>g. ucast ((g - 0) * ucast n_nodes div lps))"
    by (simp add: lid_to_nid_def [abs_def])
  obtain a b where p: "partition_start (ucast nid) (ucast n_nodes) (\<lambda>g. ucast (lid_to_nid n_nodes lps g)) 0 lps = Some a"
    "partition_start (ucast nid + 1) (ucast n_nodes) (\<lambda>g. ucast (lid_to_nid n_nodes lps g)) 0 lps = Some b"
    "a \<le> b" "b \<le> lps" "\<And>x. x \<le> lps \<Longrightarrow> a \<le> x \<and> x < b \<longleftrightarrow> lid_to_nid n_nodes lps x = nid"
    using scaled_part [OF t assms(2,3) l F] by auto
  let ?n = "b - a" and ?m = "if b - a < ucast n_threads then ucast (b - a) else n_threads"
  have n: "unat ?n = unat b - unat a" "unat a \<le> unat b" "unat b \<le> unat lps"
    using p(3,4) by (simp_all add: unat_sub word_le_nat_alt)
  have "unat (ucast ?n :: u32) = unat ?n" if "?n < ucast n_threads"
    using that unsigned_less [of n_threads, where 'a = nat]
    by (simp add: word_less_nat_alt unat_widen unsigned_ucast_eq unsigned_take_bit_eq take_bit_nat_eq_self)
  then have "unat ?m \<le> unat n_threads \<and> unat ?m \<le> unat ?n" by (auto simp: word_less_nat_alt unat_widen)
  moreover have "a \<le> x \<and> unat x < unat a + unat ?n \<longleftrightarrow> lid_to_nid n_nodes lps x = nid" if "x < lps" for x
    using p(5) [OF less_imp_le [OF that]] n by (simp add: word_less_nat_alt)
  ultimately show ?thesis using p(1,2) n by (simp add: lp_global_init_def Let_def)
qed

end
