(* ===== verification/MsgQueue.thy ===== *)
theory MsgQueue
  imports Retractable Lp
begin

text \<open>
  The message queue of the parallel runtime (datatypes/msg_queue.c): each thread has a buffer
  that every thread may put messages into, newest first, and a heap of its own. The chain of
  next links of a buffer is a list of addresses. The atomic operations are single steps: the
  retries of the exchange in msg_queue_insert change nothing until the one that succeeds.

  The result: extraction neither loses nor invents a message, and gives one that no message of
  the thread comes before.
\<close>

record msg_queues =
  mq_list :: "u32 \<Rightarrow> nat list"
  mqp :: "u32 \<Rightarrow> (simtime \<times> nat) list"

definition q_elem_is_before :: "msg_alloc \<Rightarrow> simtime \<times> nat \<Rightarrow> simtime \<times> nat \<Rightarrow> bool" where
  "q_elem_is_before al ma mb \<longleftrightarrow> fst ma < fst mb \<or>
     fst ma = fst mb \<and> msg_is_before_extended (msg_at al (snd ma)) (msg_at al (snd mb))"

definition msg_queue_init :: "u32 \<Rightarrow> msg_queues \<Rightarrow> retractable \<Rightarrow> msg_queues \<times> retractable" where
  "msg_queue_init rid q r =
     (q\<lparr>mqp := (mqp q)(rid := []), mq_list := (mq_list q)(rid := [])\<rparr>, retractable_lib_init r)"

text \<open>
  The loop over the buffer in msg_queue_fini reads the link of a message after freeing it, so it
  is a fault when the message is not one the allocator keeps.
\<close>

fun free_buffer :: "nat list \<Rightarrow> msg_alloc \<Rightarrow> msg_alloc res" where
  "free_buffer [] al = Inr al"
| "free_buffer (m # ms) al =
     bindR (guardR (pl_size (msg_at al m) \<le> MSG_PAYLOAD_BASE_SIZE) UseAfterFree) (\<lambda>_.
       free_buffer ms (msg_allocator_free m al))"

definition msg_queue_fini :: "u32 \<Rightarrow> msg_queues \<Rightarrow> retractable \<Rightarrow> msg_alloc \<Rightarrow> (msg_queues \<times> retractable \<times> msg_alloc) res" where
  "msg_queue_fini rid q r al =
     (let r = retractable_lib_fini r; al = fold (\<lambda>e. msg_allocator_free (snd e)) (mqp q rid) al in
      bindR (free_buffer (mq_list q rid) al) (\<lambda>al. Inr (q\<lparr>mqp := (mqp q)(rid := [])\<rparr>, r, al)))"

definition msg_queue_insert_queued :: "u32 \<Rightarrow> msg_alloc \<Rightarrow> msg_queues \<Rightarrow> msg_queues" where
  "msg_queue_insert_queued rid al q =
     q\<lparr>mq_list := (mq_list q)(rid := []),
       mqp := (mqp q)(rid := fold (\<lambda>m h. fst (heap_insert (q_elem_is_before al) h (m_dest_t (msg_at al m), m)))
                 (mq_list q rid) (mqp q rid))\<rparr>"

text \<open>The address of the message to be processed, or None.\<close>

definition msg_queue_extract ::
    "u32 \<Rightarrow> msg_queues \<Rightarrow> retractable \<Rightarrow> msg_alloc \<Rightarrow> (nat option \<times> msg_queues \<times> retractable \<times> msg_alloc) res" where
  "msg_queue_extract rid q r al =
     (let q = msg_queue_insert_queued rid al q;
          qt = (case mqp q rid of [] \<Rightarrow> SIMTIME_MAX | e # _ \<Rightarrow> fst e) in
      bindR (retractable_is_before r qt) (\<lambda>b.
        if b then bindR (retractable_extract r al) (\<lambda>(m, r, al). Inr (Some m, q, r, al))
        else if mqp q rid \<noteq> [] then
          bindR (heap_extract (q_elem_is_before al) (mqp q rid)) (\<lambda>(e, h).
            Inr (Some (snd e), q\<lparr>mqp := (mqp q)(rid := h)\<rparr>, r, al))
        else Inr (None, q, r, al)))"

text \<open>\<open>to_rid\<close> is lid_to_rid of the node.\<close>

definition msg_queue_insert :: "(u64 \<Rightarrow> u32) \<Rightarrow> nat \<Rightarrow> msg_alloc \<Rightarrow> msg_queues \<Rightarrow> msg_queues" where
  "msg_queue_insert to_rid m al q =
     (let rid = to_rid (of_nat (m_dest (msg_at al m))) in
      q\<lparr>mq_list := (mq_list q)(rid := m # mq_list q rid)\<rparr>)"

subsection \<open>The invariant\<close>

lemma q_elem_weak_order: "weak_order (q_elem_is_before al)"
proof unfold_locales
  show "\<not> q_elem_is_before al b a" if "q_elem_is_before al a b" for a b
    using that ext.asym by (auto simp: q_elem_is_before_def)
  show "\<not> q_elem_is_before al a c" if "\<not> q_elem_is_before al a b" "\<not> q_elem_is_before al b c" for a b c
    using that ext.ntrans by (auto simp: q_elem_is_before_def)
qed

interpretation qe: weak_order "q_elem_is_before al" for al
  by (rule q_elem_weak_order)

text \<open>The messages of a thread, and that its heap is one whose entries carry the times of their messages.\<close>

definition mq_msgs :: "u32 \<Rightarrow> msg_queues \<Rightarrow> nat multiset" where
  "mq_msgs rid q = mset (mq_list q rid) + image_mset snd (mset (mqp q rid))"

definition mq_ok :: "u32 \<Rightarrow> msg_alloc \<Rightarrow> msg_queues \<Rightarrow> bool" where
  "mq_ok rid al q \<longleftrightarrow> heap_at 2 (q_elem_is_before al) (mqp q rid)
     \<and> (\<forall>(t, m)\<in>set (mqp q rid). t = m_dest_t (msg_at al m))"

lemma q_elem_msg:
  "t = m_dest_t (msg_at al a) \<Longrightarrow> u = m_dest_t (msg_at al b) \<Longrightarrow>
   q_elem_is_before al (t, a) (u, b) \<longleftrightarrow> msg_is_before (msg_at al a) (msg_at al b)"
  by (simp add: q_elem_is_before_def msg_is_before_def)

lemma insert_list_ok:
  assumes "heap_at 2 (q_elem_is_before al) h" "\<forall>(t, m)\<in>set h. t = m_dest_t (msg_at al m)"
    and h': "h' = fold (\<lambda>m h. fst (heap_insert (q_elem_is_before al) h (m_dest_t (msg_at al m), m))) ms h"
  shows "heap_at 2 (q_elem_is_before al) h' \<and> (\<forall>(t, m)\<in>set h'. t = m_dest_t (msg_at al m))
    \<and> image_mset snd (mset h') = mset ms + image_mset snd (mset h)"
  using assms
proof (induction ms arbitrary: h)
  case (Cons m ms)
  let ?h = "fst (heap_insert (q_elem_is_before al) h (m_dest_t (msg_at al m), m))"
  have "heap_at 2 (q_elem_is_before al) ?h" by (rule qe.bin.put_ok [OF Cons.prems(1)])
  moreover note e = qe.bin.put_elems [OF Cons.prems(1), of "(m_dest_t (msg_at al m), m)"]
  moreover have "\<forall>(t, m)\<in>set ?h. t = m_dest_t (msg_at al m)"
    using Cons.prems(2) mset_eq_setD [of ?h "(m_dest_t (msg_at al m), m) # h"] e by auto
  ultimately show ?case using Cons.IH [of ?h] Cons.prems(3) by simp
qed simp

lemma insert_queued_ok:
  assumes "mq_ok rid al q"
  shows "mq_ok rid al (msg_queue_insert_queued rid al q)" "mq_msgs rid (msg_queue_insert_queued rid al q) = mq_msgs rid q"
    "mq_list (msg_queue_insert_queued rid al q) rid = []"
  using insert_list_ok [of al "mqp q rid" _ "mq_list q rid"] assms
  by (auto simp: mq_ok_def mq_msgs_def msg_queue_insert_queued_def)

text \<open>Putting a message into a buffer.\<close>

lemma msg_queue_insert_adds:
  assumes "mq_ok rid al q"
  shows "mq_ok rid al (msg_queue_insert f m al q)"
    "mq_msgs rid (msg_queue_insert f m al q) =
       (if rid = f (of_nat (m_dest (msg_at al m))) then add_mset m (mq_msgs rid q) else mq_msgs rid q)"
  using assms by (auto simp: mq_ok_def mq_msgs_def msg_queue_insert_def Let_def)

lemma heap_part_first:
  assumes "mq_ok rid al q" "mq_list q rid = []" "heap_extract (q_elem_is_before al) (mqp q rid) = Inr (e, h)"
  defines "q' \<equiv> q\<lparr>mqp := (mqp q)(rid := h)\<rparr>"
  shows "mq_ok rid al q'" "mq_msgs rid q = add_mset (snd e) (mq_msgs rid q')" "fst e = m_dest_t (msg_at al (snd e))"
    "\<forall>m\<in>#mq_msgs rid q. \<not> msg_is_before (msg_at al m) (msg_at al (snd e))"
proof -
  have h0: "heap_at 2 (q_elem_is_before al) (mqp q rid)" and t0: "\<forall>(t, m)\<in>set (mqp q rid). t = m_dest_t (msg_at al m)"
    using assms(1) by (auto simp: mq_ok_def)
  note x = qe.heap_extract_ok [OF h0 assms(3)]
  have s: "set (mqp q rid) = insert e (set h)" using x(2) by (metis set_mset_add_mset_insert set_mset_mset)
  then show "mq_ok rid al q'" using x(1) t0 by (auto simp: mq_ok_def q'_def)
  show "mq_msgs rid q = add_mset (snd e) (mq_msgs rid q')" using x(2) assms(2) by (simp add: mq_msgs_def q'_def)
  show te: "fst e = m_dest_t (msg_at al (snd e))" using s t0 by auto
  have "\<not> msg_is_before (msg_at al m) (msg_at al (snd e))" if "(t, m) \<in> set (mqp q rid)" for t m
  proof -
    have "\<not> q_elem_is_before al (t, m) (fst e, snd e)" using x(3) that by simp
    then show ?thesis using q_elem_msg [of t al m "fst e" "snd e"] t0 that te by auto
  qed
  then show "\<forall>m\<in>#mq_msgs rid q. \<not> msg_is_before (msg_at al m) (msg_at al (snd e))"
    using assms(2) by (force simp: mq_msgs_def)
qed

text \<open>What extraction does, for the three ways it can end.\<close>

lemma extract_cases:
  assumes q: "mq_ok rid al q" and r: "rq_ok lps r" "rq_timely {} r" "lps \<noteq> {}" "\<forall>l\<in>lps. retractable_ctx r l \<le> SIMTIME_MAX"
    and al: "alloc_ok al"
  shows "(\<exists>a q' r' al'. msg_queue_extract rid q r al = Inr (Some a, q', r', al') \<and> retractable_extract r al = Inr (a, r', al')
        \<and> mq_msgs rid q' = mq_msgs rid q \<and> (\<exists>l\<in>lps. retractable_ctx r l \<noteq> SIMTIME_MAX)
        \<and> (\<forall>m\<in>#mq_msgs rid q. m_dest_t (msg_at al' a) \<le> m_dest_t (msg_at al m)))
    \<or> (\<exists>a q'. msg_queue_extract rid q r al = Inr (Some a, q', r, al) \<and> mq_ok rid al q' \<and> mq_msgs rid q = add_mset a (mq_msgs rid q')
        \<and> (\<forall>m\<in>#mq_msgs rid q. \<not> msg_is_before (msg_at al m) (msg_at al a))
        \<and> (\<forall>l\<in>lps. retractable_ctx r l \<noteq> SIMTIME_MAX \<longrightarrow> m_dest_t (msg_at al a) < retractable_ctx r l))
    \<or> (\<exists>q'. msg_queue_extract rid q r al = Inr (None, q', r, al) \<and> mq_msgs rid q = {#} \<and> mq_msgs rid q' = {#}
        \<and> (\<forall>l\<in>lps. retractable_ctx r l = SIMTIME_MAX))"
proof -
  let ?q = "msg_queue_insert_queued rid al q"
  note i = insert_queued_ok [OF q]
  define qt where "qt = (case mqp ?q rid of [] \<Rightarrow> SIMTIME_MAX | e # _ \<Rightarrow> fst e)"
  obtain b where b: "retractable_is_before r qt = Inr b"
      "b \<longleftrightarrow> (\<exists>l\<in>lps. retractable_ctx r l \<le> qt \<and> retractable_ctx r l \<noteq> SIMTIME_MAX)"
    and "\<exists>a r' al'. retractable_extract r al = Inr (a, r', al') \<and> (\<forall>l\<in>lps. m_dest_t (msg_at al' a) \<le> retractable_ctx r l)"
    using extract_earliest [OF r al, of qt] by blast
  then obtain a r' al' where x: "retractable_extract r al = Inr (a, r', al')"
    "\<forall>l\<in>lps. m_dest_t (msg_at al' a) \<le> retractable_ctx r l" by blast
  have least: "qt \<le> m_dest_t (msg_at al m)" if "m \<in># mq_msgs rid q" for m
  proof -
    have "m \<in># mq_msgs rid ?q" using that i(2) by simp
    then have "m \<in> snd ` set (mqp ?q rid)" using i(3) by (simp add: mq_msgs_def)
    then obtain t where t: "(t, m) \<in> set (mqp ?q rid)" by force
    then obtain j where j: "j < length (mqp ?q rid)" "mqp ?q rid ! j = (t, m)" by (auto simp: in_set_conv_nth)
    have h: "heap_at 2 (q_elem_is_before al) (mqp ?q rid)" and tm: "t = m_dest_t (msg_at al m)"
      using i(1) t by (auto simp: mq_ok_def)
    from j obtain e es where e: "mqp ?q rid = e # es" by (cases "mqp ?q rid") auto
    have "\<not> q_elem_is_before al (t, m) e" using qe.heap_root [OF h j(1)] j(2) e by simp
    then show ?thesis using tm e by (auto simp: qt_def q_elem_is_before_def not_less)
  qed
  show ?thesis
  proof (cases b)
    case True
    with b(2) obtain l where "l \<in> lps" "retractable_ctx r l \<le> qt" "retractable_ctx r l \<noteq> SIMTIME_MAX" by blast
    moreover have "msg_queue_extract rid q r al = Inr (Some a, ?q, r', al')"
      using True b(1) x(1) by (simp add: msg_queue_extract_def Let_def qt_def)
    ultimately show ?thesis using x least i(2) by (meson order_trans)
  next
    case False
    show ?thesis
    proof (cases "mqp ?q rid")
      case Nil
      then have "qt = SIMTIME_MAX" by (simp add: qt_def)
      with False b(2) r(4) have "\<forall>l\<in>lps. retractable_ctx r l = SIMTIME_MAX" by auto
      moreover have "msg_queue_extract rid q r al = Inr (None, ?q, r, al)"
        using False b(1) Nil by (simp add: msg_queue_extract_def Let_def qt_def)
      moreover have "mq_msgs rid ?q = {#}" using Nil i(3) by (simp add: mq_msgs_def)
      ultimately show ?thesis using i(2) by auto
    next
      case (Cons e es)
      then obtain h where h: "heap_extract (q_elem_is_before al) (mqp ?q rid) = Inr (e, h)"
        by (simp add: heap_extract_def)
      let ?q' = "?q\<lparr>mqp := (mqp ?q)(rid := h)\<rparr>"
      note f = heap_part_first [OF i(1) i(3) h]
      have "msg_queue_extract rid q r al = Inr (Some (snd e), ?q', r, al)"
        using False b(1) Cons h by (simp add: msg_queue_extract_def Let_def qt_def)
      moreover have "\<forall>l\<in>lps. retractable_ctx r l \<noteq> SIMTIME_MAX \<longrightarrow> m_dest_t (msg_at al (snd e)) < retractable_ctx r l"
        using False b(2) f(3) Cons by (auto simp: qt_def not_le)
      ultimately show ?thesis using f i(2) by auto
    qed
  qed
qed

text \<open>
  C20: Extraction of a message for a thread never faults and gives a first one: either the event
  of a process, which is not after any message of the thread, or a message that no other comes
  before and that is before every event of a process; then exactly this message leaves the
  queue. It gives nothing only when no message and no event is pending.
\<close>

theorem msg_queue_extract_first:
  assumes "mq_ok rid al q" "rq_ok lps r" "rq_timely {} r" "lps \<noteq> {}" "\<forall>l\<in>lps. retractable_ctx r l \<le> SIMTIME_MAX" "alloc_ok al"
  shows "(\<exists>a q' r' al'. msg_queue_extract rid q r al = Inr (Some a, q', r', al') \<and> retractable_extract r al = Inr (a, r', al')
        \<and> mq_msgs rid q' = mq_msgs rid q \<and> (\<exists>l\<in>lps. retractable_ctx r l \<noteq> SIMTIME_MAX)
        \<and> (\<forall>m\<in>#mq_msgs rid q. m_dest_t (msg_at al' a) \<le> m_dest_t (msg_at al m)))
    \<or> (\<exists>a q'. msg_queue_extract rid q r al = Inr (Some a, q', r, al) \<and> mq_ok rid al q' \<and> mq_msgs rid q = add_mset a (mq_msgs rid q')
        \<and> (\<forall>m\<in>#mq_msgs rid q. \<not> msg_is_before (msg_at al m) (msg_at al a))
        \<and> (\<forall>l\<in>lps. retractable_ctx r l \<noteq> SIMTIME_MAX \<longrightarrow> m_dest_t (msg_at al a) < retractable_ctx r l))
    \<or> (\<exists>q'. msg_queue_extract rid q r al = Inr (None, q', r, al) \<and> mq_msgs rid q = {#} \<and> mq_msgs rid q' = {#}
        \<and> (\<forall>l\<in>lps. retractable_ctx r l = SIMTIME_MAX))"
  by (rule extract_cases [OF assms])

definition example_mq :: msg_queues where
  "example_mq = msg_queue_insert (\<lambda>_. 0) 7 example_alloc (fst (msg_queue_init 0 \<lparr>mq_list = (\<lambda>_. []), mqp = (\<lambda>_. [])\<rparr> example_rq))"

theorem msg_queue_extract_first_witness:
  "mq_msgs 0 example_mq = {#7#} \<and>
   ((\<exists>a q' r' al'. msg_queue_extract 0 example_mq example_rq example_alloc = Inr (Some a, q', r', al')
        \<and> mq_msgs 0 q' = mq_msgs 0 example_mq)
    \<or> (\<exists>a q'. msg_queue_extract 0 example_mq example_rq example_alloc = Inr (Some a, q', example_rq, example_alloc)
        \<and> mq_msgs 0 example_mq = add_mset a (mq_msgs 0 q')))"
proof -
  have 1: "mq_ok 0 example_alloc example_mq" "mq_msgs 0 example_mq = {#7#}"
    by (simp_all add: example_mq_def mq_ok_def mq_msgs_def msg_queue_insert_def msg_queue_init_def Let_def heap_at_def)
  have "retractable_ctx example_rq l \<le> SIMTIME_MAX" if "l \<in> {0, 1, 2}" for l
    using that by (auto simp: example_rq_ctx)
  then show ?thesis
    using msg_queue_extract_first [OF 1(1), of "{0, 1, 2}" example_rq] example_rq_ok example_alloc_ok 1(2) by fastforce
qed

end
