(* ===== verification/AutoCkpt.thy ===== *)
theory AutoCkpt
  imports Prelude
begin

text \<open>
  The choice of the checkpoint interval (mm/auto_ckpt.c, mm/auto_ckpt.h). Doubles are reals; the
  counts of the statistics module that a GVT reads are arguments. A quotient that is no finite
  number, for silent executions that took no time, is the result None.
\<close>

record auto_ckpt =
  inv_bad_p :: real
  m_bad :: u32
  m_good :: u32
  ac_interval :: u32
  ckpt_rem :: u32

record ackpt =
  ckpt_avg_cost :: real
  inv_sil_avg_cost :: real

definition EXP_AVG :: "real \<Rightarrow> real \<Rightarrow> real \<Rightarrow> real" where
  "EXP_AVG f old_v sample = old_v * ((f - 1) / f) + sample * (1 / f)"

definition auto_ckpt_init :: ackpt where
  "auto_ckpt_init = \<lparr>ckpt_avg_cost = 1, inv_sil_avg_cost = 1 / 4096\<rparr>"

definition auto_ckpt_on_gvt :: "u32 \<Rightarrow> u64 \<Rightarrow> u64 \<Rightarrow> u64 \<Rightarrow> u64 \<Rightarrow> ackpt \<Rightarrow> ackpt option" where
  "auto_ckpt_on_gvt config_interval ckpt_cost ckpt_size sil_count sil_cost a =
     (if config_interval \<noteq> 0 then Some a
      else if sil_count \<noteq> 0 \<and> sil_cost = 0 then None
      else
        let a = (if sil_count \<noteq> 0 then a\<lparr>inv_sil_avg_cost :=
                   EXP_AVG 16 (inv_sil_avg_cost a) (real (unat sil_count) / real (unat sil_cost))\<rparr> else a)
        in Some (if ckpt_size \<noteq> 0 then a\<lparr>ckpt_avg_cost :=
                   EXP_AVG 16 (ckpt_avg_cost a) (real (unat ckpt_cost) / real (unat ckpt_size))\<rparr> else a))"

definition auto_ckpt_lp_init :: "u32 \<Rightarrow> auto_ckpt" where
  "auto_ckpt_lp_init config_interval =
     \<lparr>inv_bad_p = 64, m_bad = 0, m_good = 0, ac_interval = (if config_interval \<noteq> 0 then config_interval else 256), ckpt_rem = 0\<rparr>"

text \<open>The conversion to unsigned int is defined for values below 2 to the 32.\<close>

definition auto_ckpt_recompute :: "u32 \<Rightarrow> ackpt \<Rightarrow> u64 \<Rightarrow> auto_ckpt \<Rightarrow> auto_ckpt" where
  "auto_ckpt_recompute config_interval ap state_size a =
     (if m_bad a = 0 \<or> config_interval \<noteq> 0 then a
      else
        let p = EXP_AVG 8 (inv_bad_p a) (2 * real (unat (m_good a)) / real (unat (m_bad a))) in
        a\<lparr>inv_bad_p := p, m_bad := 0, m_good := 0,
          ac_interval := of_int \<lceil>sqrt (p * ckpt_avg_cost ap * inv_sil_avg_cost ap * real (unat state_size))\<rceil>\<rparr>)"

definition auto_ckpt_register_bad :: "auto_ckpt \<Rightarrow> auto_ckpt" where
  "auto_ckpt_register_bad a = a\<lparr>m_bad := m_bad a + 1\<rparr>"

definition auto_ckpt_register_good :: "auto_ckpt \<Rightarrow> auto_ckpt" where
  "auto_ckpt_register_good a = a\<lparr>m_good := m_good a + 1\<rparr>"

definition auto_ckpt_interval_get :: "auto_ckpt \<Rightarrow> u32" where
  "auto_ckpt_interval_get a = ac_interval a"

definition auto_ckpt_is_needed :: "auto_ckpt \<Rightarrow> bool \<times> auto_ckpt" where
  "auto_ckpt_is_needed a =
     (let a = a\<lparr>ckpt_rem := ckpt_rem a + 1\<rparr>; r = ckpt_rem a \<ge> ac_interval a in
      (r, if r then a\<lparr>ckpt_rem := 0\<rparr> else a))"

subsection \<open>How often a checkpoint is taken\<close>

text \<open>n messages one after the other, counting the checkpoints.\<close>

fun good_run :: "nat \<Rightarrow> auto_ckpt \<Rightarrow> nat \<times> auto_ckpt" where
  "good_run 0 a = (0, a)"
| "good_run (Suc n) a =
     (let (r, a) = auto_ckpt_is_needed a; (k, a) = good_run n a in ((if r then Suc k else k), a))"

lemma is_needed_interval: "ac_interval (snd (auto_ckpt_is_needed a)) = ac_interval a"
  by (simp add: auto_ckpt_is_needed_def Let_def)

lemma good_run_count:
  assumes "0 < unat (ac_interval a)" "unat (ckpt_rem a) < unat (ac_interval a)"
  shows "fst (good_run n a) = (unat (ckpt_rem a) + n) div unat (ac_interval a)
     \<and> unat (ckpt_rem (snd (good_run n a))) = (unat (ckpt_rem a) + n) mod unat (ac_interval a)"
  using assms
proof (induction n arbitrary: a)
  case (Suc n)
  obtain r b where b: "auto_ckpt_is_needed a = (r, b)" by fastforce
  have s: "unat (ckpt_rem a + 1) = Suc (unat (ckpt_rem a))"
    using Suc.prems(2) unsigned_less [of "ac_interval a", where 'a = nat] by (simp add: unat_word_ariths)
  have i: "ac_interval b = ac_interval a" using is_needed_interval [of a] b by simp
  show ?case
  proof (cases "Suc (unat (ckpt_rem a)) = unat (ac_interval a)")
    case True
    then have "r" "ckpt_rem b = 0" using b s by (auto simp: auto_ckpt_is_needed_def Let_def word_le_nat_alt)
    moreover have u: "unat (ckpt_rem a) + Suc n = n + unat (ac_interval a)" using True by simp
    have "(unat (ckpt_rem a) + Suc n) div unat (ac_interval a) = Suc (n div unat (ac_interval a))"
      "(unat (ckpt_rem a) + Suc n) mod unat (ac_interval a) = n mod unat (ac_interval a)"
      unfolding u using Suc.prems(1) by simp_all
    ultimately show ?thesis using Suc.IH [of b] Suc.prems(1) i b by (simp add: split_beta)
  next
    case False
    with Suc.prems(2) have "\<not> r" "unat (ckpt_rem b) = Suc (unat (ckpt_rem a))"
      using b s by (auto simp: auto_ckpt_is_needed_def Let_def word_le_nat_alt)
    with Suc.IH [of b] Suc.prems False i b show ?thesis by (simp add: split_beta)
  qed
qed simp

text \<open>
  Checkpoints are taken regularly: of n messages processed one after the other, exactly every
  ac_interval-th one takes a checkpoint, the count of messages since the last one carried over.
\<close>

lemma checkpoint_every_interval:
  assumes "0 < unat (ac_interval a)" "unat (ckpt_rem a) < unat (ac_interval a)"
  shows "fst (good_run n a) = (unat (ckpt_rem a) + n) div unat (ac_interval a)
     \<and> unat (ckpt_rem (snd (good_run n a))) = (unat (ckpt_rem a) + n) mod unat (ac_interval a)"
  by (rule good_run_count [OF assms])

end
