(* ===== verification/Worker.thy ===== *)
theory Worker
  imports Serial MsgQueue AutoCkpt
begin

text \<open>
  A worker thread of the parallel runtime: its processes (struct lp_ctx of lp/lp.h, struct
  process_ctx of lp/process.h), its queues, and the modules it uses while it handles messages:
  the log of checkpoints (mm/buddy/multi.c), the detection of termination (gvt/termination.c),
  the counts of remote messages and the local minimum of the GVT (gvt/gvt.h, gvt/gvt.c), and
  what it hands to MPI.

  The memory of a process is one value, which a checkpoint copies together with the time of the
  retractable event, kept in that memory as well. A pointer in p_msgs is marked in its two low
  bits; the marks are the constructors of \<open>entry\<close>.
\<close>

unbundle bit_operations_syntax

datatype entry =
    Past nat         \<comment> \<open>a processed message\<close>
  | SentLocal nat    \<comment> \<open>mark_msg_sent\<close>
  | SentRemote nat   \<comment> \<open>mark_msg_remote\<close>

fun is_msg_sent :: "entry \<Rightarrow> bool" where
  "is_msg_sent (Past _) = False"
| "is_msg_sent _ = True"

fun is_msg_remote :: "entry \<Rightarrow> bool" where
  "is_msg_remote (SentRemote _) = True"
| "is_msg_remote _ = False"

fun is_msg_local_sent :: "entry \<Rightarrow> bool" where
  "is_msg_local_sent (SentLocal _) = True"
| "is_msg_local_sent _ = False"

fun is_msg_past :: "entry \<Rightarrow> bool" where
  "is_msg_past (Past _) = True"
| "is_msg_past _ = False"

fun unmark_msg :: "entry \<Rightarrow> nat" where
  "unmark_msg (Past a) = a"
| "unmark_msg (SentLocal a) = a"
| "unmark_msg (SentRemote a) = a"

record 's lp_ctx =
  termination_t :: simtime
  fossil_epoch :: u32
  lp_state :: 's
  lp_ckpt :: auto_ckpt
  p_msgs :: "entry list"
  early_antis :: "nat list"
  bound :: simtime
  logs :: "(nat \<times> 's \<times> simtime) list"

datatype packet = Message u32 lp_msg | AntiMessage u32 lp_msg

text \<open>Where the worker runs, and the configuration of the run that the processing reads.\<close>

record placement =
  nid :: u32
  n_nodes :: u32
  rid :: u32
  n_threads :: u32
  lid_node_first :: u64
  n_lps_node :: u64
  ckpt_interval :: u32

record 's worker =
  w_alloc :: msg_alloc
  w_queues :: msg_queues
  w_retractable :: retractable
  w_lps :: "nat \<Rightarrow> 's lp_ctx"
  silent_processing :: bool
  current_msg :: nat
  mpi_out :: "packet list"
  gvt_accumulator :: simtime
  gvt_phase :: bool
  remote_msg_seq :: "bool \<Rightarrow> u32 \<Rightarrow> u32"
  remote_msg_received :: "bool \<Rightarrow> u32"
  lps_to_end :: u64
  max_t :: simtime
  w_ackpt :: ackpt
  fossil_epoch_current :: u32
  fossil_gvt_current :: simtime

definition lp_upd :: "nat \<Rightarrow> ('s lp_ctx \<Rightarrow> 's lp_ctx) \<Rightarrow> 's worker \<Rightarrow> 's worker" where
  "lp_upd lp f w = w\<lparr>w_lps := (w_lps w)(lp := f (w_lps w lp))\<rparr>"

definition alloc_upd :: "(msg_alloc \<Rightarrow> msg_alloc) \<Rightarrow> 's worker \<Rightarrow> 's worker" where
  "alloc_upd f w = w\<lparr>w_alloc := f (w_alloc w)\<rparr>"

definition w_msg :: "'s worker \<Rightarrow> nat \<Rightarrow> lp_msg" where
  "w_msg w a = msg_at (w_alloc w) a"

text \<open>atomic_fetch_add on the flags of a message: the value before the addition.\<close>

definition fetch_add_flags :: "nat \<Rightarrow> u32 \<Rightarrow> 's worker \<Rightarrow> u32 \<times> 's worker" where
  "fetch_add_flags a d w = (m_flags (w_msg w a), alloc_upd (msg_upd a (\<lambda>m. m\<lparr>m_flags := m_flags m + d\<rparr>)) w)"

definition queue_insert :: "placement \<Rightarrow> nat \<Rightarrow> 's worker \<Rightarrow> 's worker" where
  "queue_insert pl a w =
     w\<lparr>w_queues := msg_queue_insert (lid_to_rid (lid_node_first pl) (n_threads pl) (n_lps_node pl)) a (w_alloc w) (w_queues w)\<rparr>"

subsection \<open>Remote messages\<close>

definition gvt_remote_msg_send :: "placement \<Rightarrow> nat \<Rightarrow> u32 \<Rightarrow> 's worker \<Rightarrow> 's worker" where
  "gvt_remote_msg_send pl a dest w =
     (let ph = gvt_phase w; s = remote_msg_seq w ph dest; b = (if ph then 1 else 0) in
      alloc_upd (msg_upd a (\<lambda>m. m\<lparr>m_seq := push_bit 1 s OR b,
         m_flags := push_bit 14 (nid pl) OR push_bit 2 (rid pl + 1) OR b\<rparr>))
       (w\<lparr>remote_msg_seq := (remote_msg_seq w)(ph := (remote_msg_seq w ph)(dest := s + 1))\<rparr>))"

definition gvt_remote_anti_msg_send :: "nat \<Rightarrow> u32 \<Rightarrow> 's worker \<Rightarrow> 's worker" where
  "gvt_remote_anti_msg_send a dest w =
     (let ph = gvt_phase w in
      alloc_upd (msg_upd a (\<lambda>m. m\<lparr>m_flags := m_flags m OR (if ph then 2 else 0)\<rparr>))
       (w\<lparr>remote_msg_seq := (remote_msg_seq w)(ph := (remote_msg_seq w ph)(dest := remote_msg_seq w ph dest + 1))\<rparr>))"

definition gvt_remote_msg_receive :: "nat \<Rightarrow> 's worker \<Rightarrow> 's worker" where
  "gvt_remote_msg_receive a w =
     (let ph = (m_flags (w_msg w a) AND 1 \<noteq> 0) in
      alloc_upd (msg_upd a (\<lambda>m. m\<lparr>m_flags := m_flags m AND NOT 3\<rparr>))
       (w\<lparr>remote_msg_received := (remote_msg_received w)(ph := remote_msg_received w ph + 1)\<rparr>))"

definition gvt_remote_anti_msg_receive :: "nat \<Rightarrow> 's worker \<Rightarrow> 's worker" where
  "gvt_remote_anti_msg_receive a w =
     (let ph = (drop_bit 1 (m_flags (w_msg w a)) AND 1 \<noteq> 0) in
      alloc_upd (msg_upd a (\<lambda>m. m\<lparr>m_flags := (m_flags m AND NOT 3) OR MSG_FLAG_ANTI\<rparr>))
       (w\<lparr>remote_msg_received := (remote_msg_received w)(ph := remote_msg_received w ph + 1)\<rparr>))"

text \<open>What MPI is given is the part of the message from dest on; its delivery is not part of the model.\<close>

definition mpi_remote_msg_send :: "placement \<Rightarrow> nat \<Rightarrow> u32 \<Rightarrow> 's worker \<Rightarrow> 's worker" where
  "mpi_remote_msg_send pl a dest w =
     (let w = gvt_remote_msg_send pl a dest w in w\<lparr>mpi_out := mpi_out w @ [Message dest (w_msg w a)]\<rparr>)"

definition mpi_remote_anti_msg_send :: "nat \<Rightarrow> u32 \<Rightarrow> 's worker \<Rightarrow> 's worker" where
  "mpi_remote_anti_msg_send a dest w =
     (let w = gvt_remote_anti_msg_send a dest w in w\<lparr>mpi_out := mpi_out w @ [AntiMessage dest (w_msg w a)]\<rparr>)"

text \<open>
  A packet that MPI delivers becomes a message of the queue: the part for one packet of
  mpi_remote_msg_handle. An anti-message carries what lies between dest and m_seq.
\<close>

definition mpi_receive :: "placement \<Rightarrow> packet \<Rightarrow> 's worker \<Rightarrow> 's worker" where
  "mpi_receive pl p w =
     (case p of
        AntiMessage _ m \<Rightarrow>
          let (a, al) = msg_allocator_alloc 0 (w_alloc w);
              w = alloc_upd (msg_upd a (\<lambda>x. x\<lparr>m_type := 0, m_pl := [], m_dest := m_dest m, m_dest_t := m_dest_t m,
                m_flags := m_flags m, m_seq := m_seq m\<rparr>)) (w\<lparr>w_alloc := al\<rparr>)
          in queue_insert pl a (gvt_remote_anti_msg_receive a w)
      | Message _ m \<Rightarrow>
          let (a, al) = msg_allocator_alloc (pl_size m) (w_alloc w);
              w = alloc_upd (msg_upd a (\<lambda>_. m)) (w\<lparr>w_alloc := al\<rparr>)
          in queue_insert pl a (gvt_remote_msg_receive a w))"

definition gvt_on_msg_extraction :: "simtime \<Rightarrow> 's worker \<Rightarrow> 's worker" where
  "gvt_on_msg_extraction msg_t w = (if gvt_accumulator w > msg_t then w\<lparr>gvt_accumulator := msg_t\<rparr> else w)"

subsection \<open>Termination\<close>

definition termination_lp_init :: "'s config \<Rightarrow> nat \<Rightarrow> 's worker \<Rightarrow> 's worker" where
  "termination_lp_init c lp w =
     (let term = committed c lp (lp_state (w_lps w lp)) in
      lp_upd lp (\<lambda>x. x\<lparr>termination_t := (if term then SIMTIME_MAX else 0)\<rparr>)
        (w\<lparr>lps_to_end := lps_to_end w + (if term then 0 else 1)\<rparr>))"

definition termination_on_msg_process :: "'s config \<Rightarrow> nat \<Rightarrow> simtime \<Rightarrow> 's worker \<Rightarrow> 's worker" where
  "termination_on_msg_process c lp msg_time w =
     (if termination_t (w_lps w lp) \<noteq> 0 then w
      else
        let term = committed c lp (lp_state (w_lps w lp)) in
        lp_upd lp (\<lambda>x. x\<lparr>termination_t := (if term then msg_time else 0)\<rparr>)
          (w\<lparr>max_t := (if term then max msg_time (max_t w) else max_t w),
             lps_to_end := lps_to_end w - (if term then 1 else 0)\<rparr>))"

definition termination_on_lp_rollback :: "nat \<Rightarrow> simtime \<Rightarrow> 's worker \<Rightarrow> 's worker" where
  "termination_on_lp_rollback lp msg_time w =
     (let old_t = termination_t (w_lps w lp); keep = (old_t < msg_time \<or> old_t = SIMTIME_MAX) in
      lp_upd lp (\<lambda>x. x\<lparr>termination_t := (if keep then old_t else 0)\<rparr>)
        (w\<lparr>lps_to_end := lps_to_end w + (if keep then 0 else 1)\<rparr>))"

text \<open>
  The part of termination_on_gvt before the other threads are told: whether this thread is
  willing to end.
\<close>

definition termination_on_gvt :: "'s config \<Rightarrow> simtime \<Rightarrow> 's worker \<Rightarrow> bool \<times> 's worker" where
  "termination_on_gvt c current_gvt w =
     (if (lps_to_end w \<noteq> 0 \<or> max_t w \<ge> current_gvt) \<and> current_gvt < termination_time c then (False, w)
      else (True, w\<lparr>max_t := SIMTIME_MAX\<rparr>))"

subsection \<open>The log of checkpoints\<close>

definition model_allocator_checkpoint_take :: "nat \<Rightarrow> nat \<Rightarrow> 's worker \<Rightarrow> 's worker" where
  "model_allocator_checkpoint_take lp ref_i w =
     lp_upd lp (\<lambda>x. x\<lparr>logs := logs x @ [(ref_i, lp_state x, retractable_ctx (w_retractable w) lp)]\<rparr>) w"

text \<open>From the log at i down to the first one that is not after ref_i.\<close>

primrec log_index :: "(nat \<times> 'i) list \<Rightarrow> nat \<Rightarrow> nat \<Rightarrow> nat res" where
  "log_index ls ref_i 0 = bindR (nthR ls 0) (\<lambda>l. if fst l > ref_i then Inl OutOfBounds else Inr 0)"
| "log_index ls ref_i (Suc i) = bindR (nthR ls (Suc i)) (\<lambda>l. if fst l > ref_i then log_index ls ref_i i else Inr (Suc i))"

definition model_allocator_checkpoint_restore :: "nat \<Rightarrow> nat \<Rightarrow> 's worker \<Rightarrow> (nat \<times> 's worker) res" where
  "model_allocator_checkpoint_restore lp ref_i w =
     (let ls = logs (w_lps w lp) in
      bindR (log_index ls ref_i (length ls - 1)) (\<lambda>i.
        let (r, st, t) = ls ! i in
        Inr (r, (lp_upd lp (\<lambda>x. x\<lparr>lp_state := st, logs := take (Suc i) ls\<rparr>) w)
          \<lparr>w_retractable := ScheduleRetractableEvent lp t (w_retractable w)\<rparr>)))"

definition model_allocator_fossil_lp_collect :: "nat \<Rightarrow> nat \<Rightarrow> 's worker \<Rightarrow> (nat \<times> 's worker) res" where
  "model_allocator_fossil_lp_collect lp tgt_ref_i w =
     (let ls = logs (w_lps w lp) in
      bindR (log_index ls tgt_ref_i (length ls - 1)) (\<lambda>log_i.
        let ref_i = fst (ls ! log_i) in
        Inr (ref_i, lp_upd lp (\<lambda>x. x\<lparr>logs := map (\<lambda>(r, img). (r - ref_i, img)) (drop log_i ls)\<rparr>) w)))"

end
