(* ===== verification/Threads.thy ===== *)
theory Threads
  imports Prelude
begin

text \<open>
  What the protocols between the threads of a node share: counting the threads in a state, as a
  counter of type rid_t holds it, and threads that stay within one step of each other.
\<close>

definition MAX_THREADS :: nat where "MAX_THREADS = 2 ^ 12"

definition cnt :: "nat \<Rightarrow> ('a \<Rightarrow> bool) \<Rightarrow> (nat \<Rightarrow> 'a) \<Rightarrow> nat" where
  "cnt n P ph = card {j. j < n \<and> P (ph j)}"

lemma cnt_upd:
  assumes "i < n"
  shows "cnt n P (ph(i := p)) + (if P (ph i) then 1 else 0) = cnt n P ph + (if P p then 1 else 0)"
proof -
  let ?A = "{j. j < n \<and> j \<noteq> i \<and> P (ph j)}"
  have "{j. j < n \<and> P ((ph(i := q)) j)} = (if P q then insert i ?A else ?A)" for q
    using assms by auto
  then have c: "cnt n P (ph(i := q)) = card ?A + (if P q then 1 else 0)" for q by (simp add: cnt_def)
  show ?thesis using c [of p] c [of "ph i"] by simp
qed

lemma cnt_le: "cnt n P ph \<le> n"
  unfolding cnt_def using card_mono [of "{..<n}" "{j. j < n \<and> P (ph j)}"] by auto

lemma cnt_all: "cnt n P ph = n \<longleftrightarrow> (\<forall>j<n. P (ph j))"
proof
  assume "cnt n P ph = n"
  then have "{j. j < n \<and> P (ph j)} = {..<n}" by (intro card_subset_eq) (auto simp: cnt_def)
  then show "\<forall>j<n. P (ph j)" by auto
next
  assume "\<forall>j<n. P (ph j)"
  then have "{j. j < n \<and> P (ph j)} = {..<n}" by auto
  then show "cnt n P ph = n" by (simp add: cnt_def)
qed

lemma cnt_none: "cnt n P ph = 0 \<longleftrightarrow> (\<forall>j<n. \<not> P (ph j))"
  by (auto simp: cnt_def)

lemma of_nat_u32_eq:
  assumes "a < 2 ^ 32" "b < 2 ^ 32"
  shows "(of_nat a :: u32) = of_nat b \<longleftrightarrow> a = b"
proof -
  have u: "unat (of_nat m :: u32) = m" if "m < 2 ^ 32" for m using that by (simp add: unat_of_nat)
  show ?thesis using u [OF assms(1)] u [OF assms(2)] by metis
qed

lemma word_cnt:
  assumes "n \<le> MAX_THREADS"
  shows "(of_nat (cnt n P ph) :: u32) = 0 \<longleftrightarrow> cnt n P ph = 0" "(of_nat (cnt n P ph) :: u32) = 1 \<longleftrightarrow> cnt n P ph = 1"
    "(of_nat (cnt n P ph) :: u32) = of_nat n \<longleftrightarrow> cnt n P ph = n"
proof -
  have b: "cnt n P ph < 2 ^ 32" "n < 2 ^ 32" using assms cnt_le [of n P ph] by (simp_all add: MAX_THREADS_def)
  show "(of_nat (cnt n P ph) :: u32) = 0 \<longleftrightarrow> cnt n P ph = 0" using of_nat_u32_eq [OF b(1), of 0] by simp
  show "(of_nat (cnt n P ph) :: u32) = 1 \<longleftrightarrow> cnt n P ph = 1" using of_nat_u32_eq [OF b(1), of 1] by simp
  show "(of_nat (cnt n P ph) :: u32) = of_nat n \<longleftrightarrow> cnt n P ph = n" by (rule of_nat_u32_eq [OF b])
qed

lemma cnt_cong: "(\<And>j. j < n \<Longrightarrow> P (f j) = Q (f j)) \<Longrightarrow> cnt n P f = cnt n Q f"
  unfolding cnt_def by (rule arg_cong [where f = card]) auto

lemma cnt_one: "i < n \<Longrightarrow> P (f i) \<Longrightarrow> cnt n P f = 1 \<longleftrightarrow> (\<forall>j<n. j \<noteq> i \<longrightarrow> \<not> P (f j))"
proof -
  assume "i < n" "P (f i)"
  then have "{j. j < n \<and> P (f j)} = insert i {j. j < n \<and> j \<noteq> i \<and> P (f j)}" by auto
  then show ?thesis by (auto simp: cnt_def)
qed


lemma neighbours:
  assumes "4 * a + x \<le> 4 * b + y + (1::nat)" "4 * b + y \<le> 4 * a + x + 1" "x \<le> 3" "y \<le> 3"
  shows "y \<noteq> (x + 2) mod 4 \<and> (4 * a + x \<le> 4 * b + y \<longleftrightarrow> y \<noteq> (x + 3) mod 4)"
proof -
  have "x = 0 \<or> x = 1 \<or> x = 2 \<or> x = 3" "y = 0 \<or> y = 1 \<or> y = 2 \<or> y = 3" using assms(3,4) by linarith+
  with assms(1,2) show ?thesis by (elim disjE; hypsubst; simp) presburger+
qed

text \<open>No thread is more than one step ahead of another.\<close>

definition together :: "nat \<Rightarrow> (nat \<Rightarrow> nat) \<Rightarrow> bool" where
  "together n p \<longleftrightarrow> (\<forall>i<n. \<forall>j<n. p i \<le> p j + 1)"

lemma togetherD: "together n p \<Longrightarrow> i < n \<Longrightarrow> j < n \<Longrightarrow> p i \<le> p j + 1"
  by (simp add: together_def)

lemma together_act: "together n p \<Longrightarrow> \<forall>j<n. p i \<le> p j \<Longrightarrow> together n (p(i := Suc (p i)))"
  unfolding together_def by (auto simp: le_SucI)

end
