(* ===== verification/Gvt.thy ===== *)
theory Gvt
  imports Worker Threads
begin

text \<open>
  The reduction of the GVT (gvt/gvt.c): the phases of a thread, the phases of a node, and the
  step that a worker takes between two groups of messages. The static and thread local variables
  of the file are the records \<open>gvt_thread\<close> and \<open>gvt_node\<close>; an atomic operation acts on the
  record, with the wrap-around of its type. What the code asks of MPI is appended to
  \<open>mpi_calls\<close>; what MPI answers is an argument: whether a reduction is complete, and its result.
\<close>

datatype thread_phase = thread_phase_idle | thread_phase_A | thread_phase_B | thread_phase_C | thread_phase_D

datatype node_phase =
    node_phase_redux_first | node_sent_reduce | node_sent_reduce_wait | node_sent_wait
  | node_phase_redux_second | node_min_reduce | node_min_reduce_wait | node_min_wait | node_done

datatype platform_ctrl_msg_code = MSG_CTRL_GVT_START | MSG_CTRL_GVT_DONE | MSG_CTRL_TERMINATION

datatype mpi_call =
    ControlMsg platform_ctrl_msg_code nat   \<comment> \<open>mpi_control_msg_send_to\<close>
  | ReduceSumScatter "u32 list"             \<comment> \<open>mpi_reduce_sum_scatter\<close>
  | ReduceMin simtime                       \<comment> \<open>mpi_reduce_min\<close>

record gvt_thread =
  t_phase :: thread_phase
  t_node_phase :: node_phase
  t_accumulator :: simtime
  t_color :: bool
  t_msg_seq :: "bool \<Rightarrow> nat \<Rightarrow> u32"
  t_last_seq :: "bool \<Rightarrow> nat \<Rightarrow> u32"
  t_received :: "bool \<Rightarrow> u32"

record gvt_node =
  gvt_threads :: "nat \<Rightarrow> gvt_thread"
  reducing_p :: "nat \<Rightarrow> simtime"
  c_a :: u32
  c_b :: u32
  c_c :: u32
  c_d :: u32
  total_sent :: "nat \<Rightarrow> u32"
  total_msg_received :: u32
  remote_msg_to_receive :: u32
  gvt_timer :: u64
  gvt_nodes :: u32
  mpi_calls :: "mpi_call list"

text \<open>What a call reads from outside: the timer and the answers of the two pending reductions.\<close>

record gvt_input =
  in_time :: u64
  in_sum :: "u32 option"
  in_min :: "simtime option"

definition MAX_NODES :: nat where "MAX_NODES = 2 ^ 16"

definition thread_upd :: "nat \<Rightarrow> (gvt_thread \<Rightarrow> gvt_thread) \<Rightarrow> gvt_node \<Rightarrow> gvt_node" where
  "thread_upd r f g = g\<lparr>gvt_threads := (gvt_threads g)(r := f (gvt_threads g r))\<rparr>"

definition set_phase :: "nat \<Rightarrow> thread_phase \<Rightarrow> gvt_node \<Rightarrow> gvt_node" where
  "set_phase r p = thread_upd r (\<lambda>t. t\<lparr>t_phase := p\<rparr>)"

definition set_node_phase :: "nat \<Rightarrow> node_phase \<Rightarrow> gvt_node \<Rightarrow> gvt_node" where
  "set_node_phase r p = thread_upd r (\<lambda>t. t\<lparr>t_node_phase := p\<rparr>)"

definition mpi_do :: "mpi_call \<Rightarrow> gvt_node \<Rightarrow> gvt_node" where
  "mpi_do c g = g\<lparr>mpi_calls := mpi_calls g @ [c]\<rparr>"

text \<open>mpi_control_msg_broadcast: to every node, from the last one.\<close>

definition mpi_control_msg_broadcast :: "nat \<Rightarrow> platform_ctrl_msg_code \<Rightarrow> gvt_node \<Rightarrow> gvt_node" where
  "mpi_control_msg_broadcast nodes ctrl g = fold (\<lambda>i. mpi_do (ControlMsg ctrl i)) (rev [0..<nodes]) g"

definition gvt_global_init :: "u64 \<Rightarrow> gvt_node \<Rightarrow> gvt_node" where
  "gvt_global_init now g = g\<lparr>gvt_timer := now\<rparr>"

definition gvt_start_processing :: "nat \<Rightarrow> gvt_node \<Rightarrow> gvt_node" where
  "gvt_start_processing r = thread_upd r (\<lambda>t. t\<lparr>t_accumulator := SIMTIME_MAX, t_phase := thread_phase_A\<rparr>)"

definition gvt_on_done_ctrl_msg :: "gvt_node \<Rightarrow> gvt_node" where
  "gvt_on_done_ctrl_msg g = g\<lparr>gvt_nodes := gvt_nodes g - 1\<rparr>"

text \<open>gvt_on_msg_extraction on the variables of this file; Worker has it on those of a worker.\<close>

definition gvt_extraction :: "nat \<Rightarrow> simtime \<Rightarrow> gvt_node \<Rightarrow> gvt_node" where
  "gvt_extraction r msg_t = thread_upd r (\<lambda>t. if t_accumulator t > msg_t then t\<lparr>t_accumulator := msg_t\<rparr> else t)"

primrec node_reduce_loop :: "(nat \<Rightarrow> simtime) \<Rightarrow> nat \<Rightarrow> simtime \<Rightarrow> simtime" where
  "node_reduce_loop p 0 candidate = candidate"
| "node_reduce_loop p (Suc i) candidate = node_reduce_loop p i (min (p i) candidate)"

definition gvt_node_reduce :: "nat \<Rightarrow> (nat \<Rightarrow> simtime) \<Rightarrow> simtime" where
  "gvt_node_reduce n p = node_reduce_loop p (n - 1) (p (n - 1))"

definition gvt_thread_phase_run :: "nat \<Rightarrow> nat \<Rightarrow> gvt_node \<Rightarrow> (bool \<times> gvt_node) res" where
  "gvt_thread_phase_run n r g =
     (case t_phase (gvt_threads g r) of
        thread_phase_A \<Rightarrow>
          if c_a g \<noteq> 0 then Inr (False, g)
          else let g = set_phase r thread_phase_B g in Inr (False, g\<lparr>c_b := c_b g + 1\<rparr>)
      | thread_phase_B \<Rightarrow>
          if c_b g \<noteq> of_nat n then Inr (False, g)
          else let g = set_phase r thread_phase_C g in Inr (False, g\<lparr>c_a := c_a g + 1\<rparr>)
      | thread_phase_C \<Rightarrow>
          if c_a g \<noteq> of_nat n then Inr (False, g)
          else let g = g\<lparr>reducing_p := (reducing_p g)(r := t_accumulator (gvt_threads g r))\<rparr>;
                   g = set_phase r thread_phase_D g
               in Inr (False, g\<lparr>c_b := c_b g - 1\<rparr>)
      | thread_phase_D \<Rightarrow>
          if c_b g \<noteq> 0 then Inr (False, g)
          else let g = set_phase r thread_phase_idle g in Inr (True, g\<lparr>c_a := c_a g - 1\<rparr>)
      | thread_phase_idle \<Rightarrow> Inl Abort)"

text \<open>The phases node_sent_reduce and node_sent_wait without what they do first.\<close>

definition count_sent :: "nat \<Rightarrow> nat \<Rightarrow> gvt_node \<Rightarrow> gvt_node" where
  "count_sent nodes r g =
     (let t = gvt_threads g r; c = \<not> t_color t;
          g = g\<lparr>total_sent := \<lambda>i. if i < nodes then total_sent g i + (t_msg_seq t c i - t_last_seq t c i) else total_sent g i\<rparr>;
          g = thread_upd r (\<lambda>t. t\<lparr>t_last_seq := (t_last_seq t)(c := \<lambda>i. if i < nodes then t_msg_seq t c i else t_last_seq t c i)\<rparr>) g
      in g\<lparr>total_msg_received := total_msg_received g + 1\<rparr>)"

definition clear_sent :: "nat \<Rightarrow> nat \<Rightarrow> nat \<Rightarrow> gvt_node \<Rightarrow> gvt_node res" where
  "clear_sent n nodes r g =
     (let q = nodes div n + 1 in
      bindR (guardR (r * q + q \<le> MAX_NODES) OutOfBounds) (\<lambda>_.
        Inr (g\<lparr>total_sent := \<lambda>i. if r * q \<le> i \<and> i < r * q + q then 0 else total_sent g i\<rparr>)))"

definition gvt_node_phase_run :: "nat \<Rightarrow> nat \<Rightarrow> gvt_input \<Rightarrow> nat \<Rightarrow> gvt_node \<Rightarrow> (bool \<times> gvt_node) res" where
  "gvt_node_phase_run n nodes inp r g =
     (let t = gvt_threads g r; ph = t_node_phase t in
      case ph of
        node_phase_redux_first \<Rightarrow>
          bindR (gvt_thread_phase_run n r g) (\<lambda>(b, g).
            if \<not> b then Inr (False, g)
            else Inr (False, set_node_phase r node_sent_reduce (set_phase r thread_phase_A
                   (thread_upd r (\<lambda>t. t\<lparr>t_color := \<not> t_color t\<rparr>) g))))
      | node_phase_redux_second \<Rightarrow>
          bindR (gvt_thread_phase_run n r g) (\<lambda>(b, g).
            if \<not> b then Inr (False, g)
            else Inr (False, set_node_phase r node_min_reduce (set_phase r thread_phase_A g)))
      | node_sent_reduce \<Rightarrow>
          if c_a g \<noteq> 0 then Inr (False, g)
          else
            let g = count_sent nodes r g; old = c_c g; g = g\<lparr>c_c := c_c g + 1\<rparr> in
            if old \<noteq> of_nat n - 1 then Inr (False, set_node_phase r node_sent_wait g)
            else Inr (False, set_node_phase r node_sent_reduce_wait (mpi_do (ReduceSumScatter (map (total_sent g) [0..<nodes])) g))
      | node_sent_reduce_wait \<Rightarrow>
          (case in_sum inp of
             None \<Rightarrow> Inr (False, g)
           | Some v \<Rightarrow>
               Inr (False, set_node_phase r node_sent_wait
                 (g\<lparr>remote_msg_to_receive := v, total_msg_received := total_msg_received g - (v + of_nat n)\<rparr>)))
      | node_sent_wait \<Rightarrow>
          let old = total_msg_received g; c = \<not> t_color t;
              g = g\<lparr>total_msg_received := old + t_received t c\<rparr>;
              g = thread_upd r (\<lambda>t. t\<lparr>t_received := (t_received t)(c := 0)\<rparr>) g in
          if old \<noteq> 0 then Inr (False, g)
          else bindR (clear_sent n nodes r g) (\<lambda>g. Inr (False, set_node_phase r node_phase_redux_second g))
      | node_min_reduce \<Rightarrow>
          let old = c_d g; g = g\<lparr>c_d := old + 1\<rparr> in
          if old \<noteq> 0 then Inr (False, set_node_phase r node_min_wait g)
          else
            let m = gvt_node_reduce n (reducing_p g) in
            Inr (False, set_node_phase r node_min_reduce_wait (mpi_do (ReduceMin m) (g\<lparr>reducing_p := (reducing_p g)(0 := m)\<rparr>)))
      | node_min_reduce_wait \<Rightarrow>
          if c_d g \<noteq> of_nat n then Inr (False, g)
          else (case in_min inp of
             None \<Rightarrow> Inr (False, g)
           | Some v \<Rightarrow>
               Inr (True, set_node_phase r node_done (g\<lparr>reducing_p := (reducing_p g)(0 := v), c_c := c_c g - of_nat n\<rparr>)))
      | node_min_wait \<Rightarrow>
          if c_c g \<noteq> 0 then Inr (False, g) else Inr (True, set_node_phase r node_done g)
      | node_done \<Rightarrow>
          let g = set_phase r thread_phase_idle (set_node_phase r node_phase_redux_first g);
              old = c_d g; g = g\<lparr>c_d := old - 1\<rparr> in
          Inr (False, if old = 1 then mpi_do (ControlMsg MSG_CTRL_GVT_DONE 0) g else g))"

text \<open>The master looks at the timer and starts a new reduction when none is running.\<close>

definition gvt_phase_run :: "nat \<Rightarrow> nat \<Rightarrow> nat \<Rightarrow> u64 \<Rightarrow> gvt_input \<Rightarrow> nat \<Rightarrow> gvt_node \<Rightarrow> (simtime \<times> gvt_node) res" where
  "gvt_phase_run n nodes this_nid gvt_period inp r g =
     (if t_phase (gvt_threads g r) \<noteq> thread_phase_idle then
        bindR (gvt_node_phase_run n nodes inp r g) (\<lambda>(b, g). Inr (if b then reducing_p g 0 else 0, g))
      else
        let g = (if c_b g \<noteq> 0 then gvt_start_processing r g else g) in
        if r = 0 \<and> this_nid = 0 \<and> gvt_period < in_time inp - gvt_timer g \<and> gvt_nodes g = 0
        then Inr (0, mpi_control_msg_broadcast nodes MSG_CTRL_GVT_START
                       (g\<lparr>gvt_timer := in_time inp, gvt_nodes := gvt_nodes g + of_nat nodes\<rparr>))
        else Inr (0, g))"

lemma thread_upd_simps [simp]:
  "gvt_threads (thread_upd r f g) = (gvt_threads g)(r := f (gvt_threads g r))"
  "reducing_p (thread_upd r f g) = reducing_p g"
  "c_a (thread_upd r f g) = c_a g" "c_b (thread_upd r f g) = c_b g"
  "c_c (thread_upd r f g) = c_c g" "c_d (thread_upd r f g) = c_d g"
  "total_msg_received (thread_upd r f g) = total_msg_received g"
  by (simp_all add: thread_upd_def)

text \<open>The accumulator of a worker and the one of this file change in the same way.\<close>

lemma gvt_extraction_worker:
  "t_accumulator (gvt_threads g r) = gvt_accumulator w \<Longrightarrow>
   t_accumulator (gvt_threads (gvt_extraction r msg_t g) r) = gvt_accumulator (gvt_on_msg_extraction msg_t w)"
  by (simp add: gvt_extraction_def gvt_on_msg_extraction_def)

lemma node_reduce_loop_le: "node_reduce_loop p m c \<le> c \<and> (\<forall>i<m. node_reduce_loop p m c \<le> p i)"
proof (induction m arbitrary: c)
  case (Suc m)
  from Suc [of "min (p m) c"] show ?case by (auto simp: less_Suc_eq)
qed simp

text \<open>The minimum over the threads of a node.\<close>

lemma gvt_node_reduce_le: "i < n \<Longrightarrow> gvt_node_reduce n p \<le> p i"
  using node_reduce_loop_le [of p "n - 1" "p (n - 1)"] unfolding gvt_node_reduce_def
  by (cases "i = n - 1") auto

end
