(* ===== verification/GvtSafe.thy ===== *)
theory GvtSafe
  imports Gvt
begin

text \<open>
  The threads of one node run the phases of a reduction (gvt/gvt.c) while they process and send
  messages (parallel/parallel.c, lp/process.c, datatypes/msg_queue.c). The threads interleave:
  a step is one atomic action of one thread, and the test of a phase and the action that follows
  are two steps. Messages are their times; those from other nodes are not part of this model.

  The results: the four phases are barriers, so that all threads finish a reduction together; a
  thread that keeps calling is never blocked for ever; and when all threads have written their
  minimum, no message that any thread still holds, has in its queue or is processing is before
  the minimum of the node, however the threads interleaved.
\<close>

text \<open>Has this thread looked at its queue since its last call of \<open>gvt_phase_run\<close>?\<close>

datatype looked = Unseen | Taken | Seen

record gvt_sys =
  sys_node :: gvt_node
  sys_queue :: "nat \<Rightarrow> simtime multiset"    \<comment> \<open>the heap of a thread\<close>
  sys_buffer :: "nat \<Rightarrow> simtime multiset"   \<comment> \<open>what others inserted and the thread has not yet taken\<close>
  sys_current :: "nat \<Rightarrow> simtime option"    \<comment> \<open>the message a thread is processing\<close>
  sys_looked :: "nat \<Rightarrow> looked"
  sys_ready :: "nat \<Rightarrow> bool"                 \<comment> \<open>the test of the phase has succeeded\<close>
  sys_rounds :: "nat \<Rightarrow> nat"                \<comment> \<open>reductions the thread has finished\<close>

definition phases :: "gvt_node \<Rightarrow> nat \<Rightarrow> thread_phase" where
  "phases g i = t_phase (gvt_threads g i)"

definition acc_of :: "gvt_sys \<Rightarrow> nat \<Rightarrow> simtime" where
  "acc_of s i = t_accumulator (gvt_threads (sys_node s) i)"

text \<open>The two halves of gvt_thread_phase_run: what a phase waits for and what it does then.\<close>

definition phase_test :: "nat \<Rightarrow> gvt_node \<Rightarrow> thread_phase \<Rightarrow> bool" where
  "phase_test n g p =
     (case p of
        thread_phase_A \<Rightarrow> c_a g = 0
      | thread_phase_B \<Rightarrow> c_b g = of_nat n
      | thread_phase_C \<Rightarrow> c_a g = of_nat n
      | thread_phase_D \<Rightarrow> c_b g = 0
      | thread_phase_idle \<Rightarrow> False)"

definition phase_act :: "nat \<Rightarrow> gvt_node \<Rightarrow> gvt_node" where
  "phase_act r g =
     (case t_phase (gvt_threads g r) of
        thread_phase_A \<Rightarrow> (set_phase r thread_phase_B g)\<lparr>c_b := c_b g + 1\<rparr>
      | thread_phase_B \<Rightarrow> (set_phase r thread_phase_C g)\<lparr>c_a := c_a g + 1\<rparr>
      | thread_phase_C \<Rightarrow> (set_phase r thread_phase_D (g\<lparr>reducing_p := (reducing_p g)(r := t_accumulator (gvt_threads g r))\<rparr>))
                            \<lparr>c_b := c_b g - 1\<rparr>
      | thread_phase_D \<Rightarrow> (set_phase r thread_phase_idle g)\<lparr>c_a := c_a g - 1\<rparr>
      | thread_phase_idle \<Rightarrow> g)"

lemma gvt_thread_phase_run_halves:
  "t_phase (gvt_threads g r) \<noteq> thread_phase_idle \<Longrightarrow>
   gvt_thread_phase_run n r g =
     Inr (if phase_test n g (t_phase (gvt_threads g r))
          then (t_phase (gvt_threads g r) = thread_phase_D, phase_act r g) else (False, g))"
  by (cases "t_phase (gvt_threads g r)")
    (simp_all add: gvt_thread_phase_run_def phase_test_def phase_act_def Let_def set_phase_def thread_upd_def)

subsection \<open>The steps\<close>

text \<open>
  A step of thread i. \<open>start\<close>: gvt_start_processing; \<open>again\<close>: the second reduction of a round,
  which keeps the minimum; \<open>take\<close>: msg_queue_insert_queued; \<open>pick\<close> and \<open>nothing\<close>:
  msg_queue_extract and gvt_on_msg_extraction; \<open>send\<close>: while a message is processed, messages and
  anti-messages not before it enter the buffers of threads; \<open>finish\<close>: process_msg returns;
  \<open>test\<close>, \<open>wait\<close>, \<open>act\<close>: gvt_thread_phase_run.
\<close>

inductive gvt_step :: "nat \<Rightarrow> gvt_sys \<Rightarrow> gvt_sys \<Rightarrow> bool" for n where
  start: "i < n \<Longrightarrow> \<not> sys_ready s i \<Longrightarrow> sys_current s i = None \<Longrightarrow> phases (sys_node s) i = thread_phase_idle \<Longrightarrow>
     gvt_step n s (s\<lparr>sys_node := gvt_start_processing i (sys_node s), sys_looked := (sys_looked s)(i := Unseen)\<rparr>)"
| again: "i < n \<Longrightarrow> \<not> sys_ready s i \<Longrightarrow> sys_current s i = None \<Longrightarrow> phases (sys_node s) i = thread_phase_idle \<Longrightarrow>
     gvt_step n s (s\<lparr>sys_node := set_phase i thread_phase_A (sys_node s), sys_looked := (sys_looked s)(i := Unseen)\<rparr>)"
| take: "i < n \<Longrightarrow> \<not> sys_ready s i \<Longrightarrow> sys_current s i = None \<Longrightarrow>
     gvt_step n s (s\<lparr>sys_queue := (sys_queue s)(i := sys_queue s i + sys_buffer s i),
                     sys_buffer := (sys_buffer s)(i := {#}), sys_looked := (sys_looked s)(i := Taken)\<rparr>)"
| pick: "i < n \<Longrightarrow> \<not> sys_ready s i \<Longrightarrow> sys_current s i = None \<Longrightarrow> sys_looked s i = Taken \<Longrightarrow>
     t \<in># sys_queue s i \<Longrightarrow> (\<forall>m\<in>#sys_queue s i. t \<le> m) \<Longrightarrow>
     gvt_step n s (s\<lparr>sys_node := gvt_extraction i t (sys_node s),
                     sys_queue := (sys_queue s)(i := sys_queue s i - {#t#}),
                     sys_current := (sys_current s)(i := Some t), sys_looked := (sys_looked s)(i := Seen)\<rparr>)"
| nothing: "i < n \<Longrightarrow> \<not> sys_ready s i \<Longrightarrow> sys_current s i = None \<Longrightarrow> sys_looked s i = Taken \<Longrightarrow>
     sys_queue s i = {#} \<Longrightarrow> gvt_step n s (s\<lparr>sys_looked := (sys_looked s)(i := Seen)\<rparr>)"
| send: "i < n \<Longrightarrow> j < n \<Longrightarrow> sys_current s i = Some t \<Longrightarrow> t \<le> m \<Longrightarrow>
     gvt_step n s (s\<lparr>sys_buffer := (sys_buffer s)(j := add_mset m (sys_buffer s j))\<rparr>)"
| finish: "i < n \<Longrightarrow> gvt_step n s (s\<lparr>sys_current := (sys_current s)(i := None)\<rparr>)"
| test: "i < n \<Longrightarrow> \<not> sys_ready s i \<Longrightarrow> sys_current s i = None \<Longrightarrow> sys_looked s i = Seen \<Longrightarrow>
     phase_test n (sys_node s) (phases (sys_node s) i) \<Longrightarrow> gvt_step n s (s\<lparr>sys_ready := (sys_ready s)(i := True)\<rparr>)"
| wait: "i < n \<Longrightarrow> \<not> sys_ready s i \<Longrightarrow> sys_current s i = None \<Longrightarrow> sys_looked s i = Seen \<Longrightarrow>
     \<not> phase_test n (sys_node s) (phases (sys_node s) i) \<Longrightarrow> gvt_step n s (s\<lparr>sys_looked := (sys_looked s)(i := Unseen)\<rparr>)"
| act: "i < n \<Longrightarrow> sys_ready s i \<Longrightarrow>
     gvt_step n s (s\<lparr>sys_node := phase_act i (sys_node s), sys_ready := (sys_ready s)(i := False),
                     sys_looked := (sys_looked s)(i := Unseen),
                     sys_rounds := (if phases (sys_node s) i = thread_phase_D then (sys_rounds s)(i := Suc (sys_rounds s i)) else sys_rounds s)\<rparr>)"

text \<open>At the start no reduction runs; queues and buffers may hold any messages.\<close>

definition gvt_initial :: "gvt_sys \<Rightarrow> bool" where
  "gvt_initial s \<longleftrightarrow> c_a (sys_node s) = 0 \<and> c_b (sys_node s) = 0 \<and>
     (\<forall>i. phases (sys_node s) i = thread_phase_idle \<and> \<not> sys_ready s i \<and> sys_rounds s i = 0 \<and> sys_current s i = None)"

inductive gvt_reachable :: "nat \<Rightarrow> gvt_sys \<Rightarrow> bool" for n where
  init: "gvt_initial s \<Longrightarrow> gvt_reachable n s"
| step: "gvt_reachable n s \<Longrightarrow> gvt_step n s t \<Longrightarrow> gvt_reachable n t"

inductive_cases gvt_stepE: "gvt_step n s t"

subsection \<open>The phases are barriers\<close>

fun idx :: "thread_phase \<Rightarrow> nat" where
  "idx thread_phase_idle = 0" | "idx thread_phase_A = 0" | "idx thread_phase_B = 1"
| "idx thread_phase_C = 2" | "idx thread_phase_D = 3"

fun next_phase :: "thread_phase \<Rightarrow> thread_phase" where
  "next_phase thread_phase_idle = thread_phase_idle" | "next_phase thread_phase_A = thread_phase_B"
| "next_phase thread_phase_B = thread_phase_C" | "next_phase thread_phase_C = thread_phase_D"
| "next_phase thread_phase_D = thread_phase_idle"

definition in_a :: "thread_phase \<Rightarrow> bool" where "in_a p \<longleftrightarrow> idx p = 2 \<or> idx p = 3"
definition in_b :: "thread_phase \<Rightarrow> bool" where "in_b p \<longleftrightarrow> idx p = 1 \<or> idx p = 2"

definition counts_ok :: "nat \<Rightarrow> gvt_node \<Rightarrow> bool" where
  "counts_ok n g \<longleftrightarrow> c_a g = of_nat (cnt n in_a (phases g)) \<and> c_b g = of_nat (cnt n in_b (phases g))"

text \<open>The number of phases a thread has passed; no thread is more than one ahead of another.\<close>

definition pos :: "(nat \<Rightarrow> thread_phase) \<Rightarrow> (nat \<Rightarrow> nat) \<Rightarrow> nat \<Rightarrow> nat" where
  "pos ph rd i = 4 * rd i + idx (ph i)"

lemma idx_le: "idx p \<le> 3"
  by (cases p) simp_all

lemma phases_act: "phases (phase_act i g) = (phases g)(i := next_phase (phases g i))"
  by (cases "t_phase (gvt_threads g i)") (auto simp: phases_def phase_act_def set_phase_def fun_eq_iff)

lemma counters_act:
  "c_a (phase_act i g) = c_a g + (if phases g i = thread_phase_B then 1 else if phases g i = thread_phase_D then - 1 else 0)"
  "c_b (phase_act i g) = c_b g + (if phases g i = thread_phase_A then 1 else if phases g i = thread_phase_C then - 1 else 0)"
  by (cases "t_phase (gvt_threads g i)"; simp add: phases_def phase_act_def set_phase_def)+

text \<open>The test of a phase succeeds exactly when every thread has reached the phase.\<close>

lemma phase_test_iff:
  assumes "n \<le> MAX_THREADS" "counts_ok n g" "together n (pos (phases g) rd)" "i < n" "phases g i \<noteq> thread_phase_idle"
  shows "phase_test n g (phases g i) \<longleftrightarrow> (\<forall>j<n. pos (phases g) rd i \<le> pos (phases g) rd j)"
proof -
  have r: "4 * rd i + idx (phases g i) \<le> 4 * rd j + idx (phases g j) + 1"
    "4 * rd j + idx (phases g j) \<le> 4 * rd i + idx (phases g i) + 1" if "j < n" for j
    using assms(3,4) that by (simp_all add: together_def pos_def)
  have le: "pos (phases g) rd i \<le> pos (phases g) rd j \<longleftrightarrow> (case phases g i of thread_phase_A \<Rightarrow> \<not> in_a (phases g j)
      | thread_phase_B \<Rightarrow> in_b (phases g j) | thread_phase_C \<Rightarrow> in_a (phases g j) | thread_phase_D \<Rightarrow> \<not> in_b (phases g j)
      | thread_phase_idle \<Rightarrow> False)" if "j < n" for j
    using neighbours [OF r [OF that] idx_le idx_le] assms(5)
    by (cases "phases g i"; cases "phases g j") (simp_all add: pos_def in_a_def in_b_def)
  have c: "phase_test n g (phases g i) \<longleftrightarrow> (case phases g i of thread_phase_A \<Rightarrow> cnt n in_a (phases g) = 0
      | thread_phase_B \<Rightarrow> cnt n in_b (phases g) = n | thread_phase_C \<Rightarrow> cnt n in_a (phases g) = n
      | thread_phase_D \<Rightarrow> cnt n in_b (phases g) = 0 | thread_phase_idle \<Rightarrow> False)"
    using assms(2) word_cnt [OF assms(1)] by (cases "phases g i") (simp_all add: phase_test_def counts_ok_def)
  show ?thesis unfolding c using le assms(5) by (cases "phases g i") (simp_all add: cnt_all cnt_none)
qed

lemma counts_act:
  assumes "counts_ok n g" "i < n"
  shows "counts_ok n (phase_act i g)"
proof -
  have a: "cnt n P (phases (phase_act i g)) + (if P (phases g i) then 1 else 0)
      = cnt n P (phases g) + (if P (next_phase (phases g i)) then 1 else 0)" for P
    unfolding phases_act by (rule cnt_upd [OF assms(2)])
  have w: "(of_nat a :: u32) + of_nat b = of_nat c + of_nat d" if "a + b = c + d" for a b c d
    using that by (metis of_nat_add)
  show ?thesis using w [OF a [of in_a]] w [OF a [of in_b]] assms(1)
    by (cases "phases g i") (auto simp: counts_ok_def counters_act in_a_def in_b_def algebra_simps)
qed

definition finish_round :: "nat \<Rightarrow> thread_phase \<Rightarrow> (nat \<Rightarrow> nat) \<Rightarrow> nat \<Rightarrow> nat" where
  "finish_round i p rd = (if p = thread_phase_D then rd(i := Suc (rd i)) else rd)"

lemma pos_act:
  "phases g i \<noteq> thread_phase_idle \<Longrightarrow>
   pos (phases (phase_act i g)) (finish_round i (phases g i) rd) = (pos (phases g) rd)(i := Suc (pos (phases g) rd i))"
  by (cases "phases g i") (auto simp: pos_def phases_act finish_round_def fun_eq_iff)

subsection \<open>The system stays in order\<close>

definition spos :: "gvt_sys \<Rightarrow> nat \<Rightarrow> nat" where
  "spos s = pos (phases (sys_node s)) (sys_rounds s)"

definition sys_ok :: "nat \<Rightarrow> gvt_sys \<Rightarrow> bool" where
  "sys_ok n s \<longleftrightarrow> counts_ok n (sys_node s) \<and> together n (spos s) \<and>
     (\<forall>i<n. sys_ready s i \<longrightarrow> phases (sys_node s) i \<noteq> thread_phase_idle \<and> sys_current s i = None \<and>
        sys_looked s i = Seen \<and> (\<forall>j<n. spos s i \<le> spos s j))"

lemma phases_upd [simp]:
  "phases (gvt_start_processing i g) = (phases g)(i := thread_phase_A)"
  "phases (set_phase i p g) = (phases g)(i := p)"
  "phases (gvt_extraction i t g) = phases g"
  by (auto simp: phases_def gvt_start_processing_def set_phase_def gvt_extraction_def fun_eq_iff)

lemma counters_upd [simp]:
  "c_a (gvt_start_processing i g) = c_a g" "c_b (gvt_start_processing i g) = c_b g"
  "c_a (set_phase i p g) = c_a g" "c_b (set_phase i p g) = c_b g"
  "c_a (gvt_extraction i t g) = c_a g" "c_b (gvt_extraction i t g) = c_b g"
  by (simp_all add: gvt_start_processing_def set_phase_def gvt_extraction_def)

text \<open>To enter phase A is no move.\<close>

lemma pos_enter: "ph i = thread_phase_idle \<Longrightarrow> pos (ph(i := thread_phase_A)) rd = pos ph rd"
  by (auto simp: pos_def fun_eq_iff)

lemma counts_enter:
  assumes "ph i = thread_phase_idle"
  shows "cnt n in_a (ph(i := thread_phase_A)) = cnt n in_a ph" "cnt n in_b (ph(i := thread_phase_A)) = cnt n in_b ph"
proof -
  have "in_a ((ph(i := thread_phase_A)) j) = in_a (ph j)" "in_b ((ph(i := thread_phase_A)) j) = in_b (ph j)" for j
    using assms by (simp_all add: in_a_def in_b_def)
  then show "cnt n in_a (ph(i := thread_phase_A)) = cnt n in_a ph" "cnt n in_b (ph(i := thread_phase_A)) = cnt n in_b ph"
    unfolding cnt_def by simp_all
qed

lemma spos_act:
  assumes "phases (sys_node s) i \<noteq> thread_phase_idle"
    "sys_node t = phase_act i (sys_node s)" "sys_rounds t = finish_round i (phases (sys_node s) i) (sys_rounds s)"
  shows "spos t = (spos s)(i := Suc (spos s i))"
  using pos_act [OF assms(1)] assms(2,3) by (simp add: spos_def)

lemma sys_ok_init: "gvt_initial s \<Longrightarrow> sys_ok n s"
  by (simp add: gvt_initial_def sys_ok_def counts_ok_def together_def spos_def pos_def cnt_def in_a_def in_b_def)

lemma sys_ok_step:
  assumes "n \<le> MAX_THREADS" "gvt_step n s t" "sys_ok n s"
  shows "sys_ok n t"
  using assms(2)
proof (cases rule: gvt_step.cases)
  case (test i)
  have "together n (pos (phases (sys_node s)) (sys_rounds s))" "counts_ok n (sys_node s)"
    using assms(3) by (simp_all add: sys_ok_def spos_def)
  note b = phase_test_iff [OF assms(1) this(2,1) test(2)]
  have "phases (sys_node s) i \<noteq> thread_phase_idle" using test(6) by (auto simp: phase_test_def)
  with b test(6) have "\<forall>j<n. spos s i \<le> spos s j" "phases (sys_node s) i \<noteq> thread_phase_idle" by (simp_all add: spos_def)
  then show ?thesis using test assms(3) by (auto simp: sys_ok_def spos_def)
next
  case (act i)
  have r: "phases (sys_node s) i \<noteq> thread_phase_idle" "\<forall>j<n. spos s i \<le> spos s j" "counts_ok n (sys_node s)" "together n (spos s)"
    using assms(3) act(2,3) by (auto simp: sys_ok_def)
  have p: "spos t = (spos s)(i := Suc (spos s i))"
    by (rule spos_act [OF r(1)]) (simp_all add: act(1) finish_round_def)
  have "counts_ok n (sys_node t)" using counts_act [OF r(3) act(2)] by (simp add: act(1))
  moreover have "together n (spos t)" unfolding p by (rule together_act [OF r(4,2)])
  moreover have "\<forall>j<n. sys_ready t j \<longrightarrow> phases (sys_node t) j \<noteq> thread_phase_idle \<and> sys_current t j = None \<and>
        sys_looked t j = Seen \<and> (\<forall>k<n. spos t j \<le> spos t k)"
    using assms(3) unfolding p by (auto simp: act(1) phases_act sys_ok_def le_SucI)
  ultimately show ?thesis by (simp add: sys_ok_def)
qed (use assms(3) in \<open>auto simp: sys_ok_def counts_ok_def spos_def pos_enter counts_enter\<close>)

lemma reachable_ok:
  assumes "gvt_reachable n s" "n \<le> MAX_THREADS"
  shows "sys_ok n s"
  using assms by (induction rule: gvt_reachable.induct) (auto intro: sys_ok_init sys_ok_step)

subsection \<open>No message is lost from the minimum\<close>

text \<open>
  In round k a thread that has entered phase A answers for a lower bound: its accumulator until it
  writes it in phase C, and then what it wrote. A message is covered when some thread's bound is
  not after it.
\<close>

definition entered :: "gvt_sys \<Rightarrow> nat \<Rightarrow> nat \<Rightarrow> bool" where
  "entered s k i \<longleftrightarrow> 4 * k < spos s i \<or> (spos s i = 4 * k \<and> phases (sys_node s) i = thread_phase_A)"

definition vouched :: "gvt_sys \<Rightarrow> nat \<Rightarrow> nat \<Rightarrow> simtime" where
  "vouched s k i = (if 4 * k + 3 \<le> spos s i then reducing_p (sys_node s) i else t_accumulator (gvt_threads (sys_node s) i))"

definition covered :: "nat \<Rightarrow> gvt_sys \<Rightarrow> nat \<Rightarrow> simtime \<Rightarrow> bool" where
  "covered n s k m \<longleftrightarrow> (\<exists>i<n. entered s k i \<and> vouched s k i \<le> m)"

text \<open>
  While no thread has written in the next round: what a thread that takes part is processing is
  covered; so is its buffer once it has emptied it in phase C, and its queue once it has then
  taken the first message.
\<close>

definition cover_inv :: "nat \<Rightarrow> nat \<Rightarrow> gvt_sys \<Rightarrow> bool" where
  "cover_inv n k s \<longleftrightarrow> ((\<forall>i<n. spos s i \<le> 4 * k + 6) \<longrightarrow>
     (\<forall>i<n. entered s k i \<longrightarrow> (\<forall>t. sys_current s i = Some t \<longrightarrow> covered n s k t)) \<and>
     (\<forall>i<n. 4 * k + 3 \<le> spos s i \<or> spos s i = 4 * k + 2 \<and> sys_looked s i \<noteq> Unseen \<longrightarrow>
        (\<forall>m\<in>#sys_buffer s i. covered n s k m)) \<and>
     (\<forall>i<n. 4 * k + 3 \<le> spos s i \<or> spos s i = 4 * k + 2 \<and> sys_looked s i = Seen \<longrightarrow>
        (\<forall>m\<in>#sys_queue s i. covered n s k m)))"

lemma covered_mono:
  assumes "covered n s k m" "\<forall>i<n. entered s k i \<longrightarrow> entered t k i \<and> vouched t k i \<le> vouched s k i"
  shows "covered n t k m"
  using assms unfolding covered_def by (meson order_trans)

text \<open>A step that leaves the node alone changes no bound.\<close>

lemma covered_same:
  "sys_node t = sys_node s \<Longrightarrow> sys_rounds t = sys_rounds s \<Longrightarrow> entered t k = entered s k \<and> vouched t k = vouched s k
     \<and> covered n t k = covered n s k \<and> spos t = spos s"
  by (intro conjI ext) (simp_all add: entered_def vouched_def covered_def spos_def)

lemma idx_A: "idx p = 0 \<longleftrightarrow> p = thread_phase_idle \<or> p = thread_phase_A"
  by (cases p) simp_all

text \<open>Entering a round, with or without a new accumulator, and extraction.\<close>

lemma enter_bounds:
  assumes "phases (sys_node s) i = thread_phase_idle" "sys_rounds t = sys_rounds s"
    "sys_node t = gvt_start_processing i (sys_node s) \<or> sys_node t = set_phase i thread_phase_A (sys_node s)"
  shows "spos t = spos s" "entered s k j \<Longrightarrow> entered t k j \<and> vouched t k j = vouched s k j"
    "entered t k j \<Longrightarrow> j \<noteq> i \<Longrightarrow> entered s k j"
proof -
  show p: "spos t = spos s" using assms by (auto simp: spos_def pos_enter)
  have m: "4 * k \<noteq> spos s i \<Longrightarrow> 4 * k < spos s i \<Longrightarrow> 4 * k + 3 \<le> spos s i"
    using assms(1) by (simp add: spos_def pos_def)
  have ph: "phases (sys_node t) = (phases (sys_node s))(i := thread_phase_A)" using assms(3) by auto
  have v: "reducing_p (sys_node t) = reducing_p (sys_node s)"
    "l \<noteq> i \<Longrightarrow> t_accumulator (gvt_threads (sys_node t) l) = t_accumulator (gvt_threads (sys_node s) l)" for l
    using assms(3) by (auto simp: gvt_start_processing_def set_phase_def)
  show "entered s k j \<Longrightarrow> entered t k j \<and> vouched t k j = vouched s k j"
    using assms(1) m v(2) by (cases "j = i") (auto simp: entered_def vouched_def p ph v(1))
  show "entered t k j \<Longrightarrow> j \<noteq> i \<Longrightarrow> entered s k j" by (simp add: entered_def p ph)
qed

lemma extract_bounds:
  assumes "sys_node u = gvt_extraction i t (sys_node s)" "sys_rounds u = sys_rounds s"
  shows "spos u = spos s" "entered u k j = entered s k j" "vouched u k j \<le> vouched s k j"
    "spos s i < 4 * k + 3 \<Longrightarrow> vouched u k i \<le> t"
proof -
  show p: "spos u = spos s" using assms by (simp add: spos_def)
  have r: "reducing_p (sys_node u) = reducing_p (sys_node s)" using assms by (simp add: gvt_extraction_def)
  show "entered u k j = entered s k j" using assms p by (simp add: entered_def)
  show "vouched u k j \<le> vouched s k j" using assms by (simp add: vouched_def p r) (simp add: gvt_extraction_def)
  show "spos s i < 4 * k + 3 \<Longrightarrow> vouched u k i \<le> t" using assms by (simp add: vouched_def p gvt_extraction_def)
qed

lemma act_bounds:
  assumes "phases (sys_node s) i \<noteq> thread_phase_idle" "spos s i \<le> 4 * k + 5"
    "sys_node t = phase_act i (sys_node s)" "sys_rounds t = finish_round i (phases (sys_node s) i) (sys_rounds s)"
  shows "entered s k j \<Longrightarrow> entered t k j \<and> vouched t k j = vouched s k j"
    "entered t k j \<Longrightarrow> entered s k j"
proof -
  have p: "spos t = (spos s)(i := Suc (spos s i))" by (rule spos_act [OF assms(1,3,4)])
  have ph: "phases (sys_node t) = (phases (sys_node s))(i := next_phase (phases (sys_node s) i))"
    using assms(3) by (simp add: phases_act)
  have c: "phases (sys_node s) i = thread_phase_C \<longleftrightarrow> spos s i mod 4 = 2"
    by (cases "phases (sys_node s) i"; simp add: spos_def pos_def; presburger)
  have a: "phases (sys_node s) i = thread_phase_A \<longleftrightarrow> spos s i mod 4 = 0"
    using assms(1) by (cases "phases (sys_node s) i"; simp add: spos_def pos_def; presburger)
  have r: "reducing_p (sys_node t) = (if phases (sys_node s) i = thread_phase_C
      then (reducing_p (sys_node s))(i := t_accumulator (gvt_threads (sys_node s) i)) else reducing_p (sys_node s))"
    using assms(3) by (cases "t_phase (gvt_threads (sys_node s) i)") (auto simp: phases_def phase_act_def set_phase_def)
  have acc: "t_accumulator (gvt_threads (sys_node t) l) = t_accumulator (gvt_threads (sys_node s) l)" for l
    using assms(3) by (cases "t_phase (gvt_threads (sys_node s) i)") (auto simp: phase_act_def set_phase_def)
  have v: "vouched t k i = vouched s k i" if "4 * k \<le> spos s i"
  proof -
    have m: "spos s i mod 4 = 2 \<longleftrightarrow> spos s i = 4 * k + 2" using assms(2) that by presburger
    show ?thesis unfolding vouched_def p r acc c m by auto
  qed
  show "entered s k j \<Longrightarrow> entered t k j \<and> vouched t k j = vouched s k j"
    using v by (cases "j = i") (auto simp: entered_def p ph vouched_def r acc)
  show "entered t k j \<Longrightarrow> entered s k j"
  proof (cases "j = i")
    case True
    have z: "spos s i mod 4 = 0" if "4 * k < Suc (spos s i)" "\<not> 4 * k < spos s i" using that by presburger
    have "next_phase q \<noteq> thread_phase_A" for q by (cases q) simp_all
    with True show "entered t k j \<Longrightarrow> entered s k j" by (auto simp: entered_def p ph a z)
  qed (simp add: entered_def p ph)
qed

lemma cover_current:
  "cover_inv n k s \<Longrightarrow> \<forall>i<n. spos s i \<le> 4 * k + 6 \<Longrightarrow> i < n \<Longrightarrow> entered s k i \<Longrightarrow> sys_current s i = Some t \<Longrightarrow> covered n s k t"
  by (simp add: cover_inv_def)

lemma cover_buffer:
  "cover_inv n k s \<Longrightarrow> \<forall>i<n. spos s i \<le> 4 * k + 6 \<Longrightarrow> i < n \<Longrightarrow>
   4 * k + 3 \<le> spos s i \<or> spos s i = 4 * k + 2 \<and> sys_looked s i \<noteq> Unseen \<Longrightarrow> m \<in># sys_buffer s i \<Longrightarrow> covered n s k m"
  unfolding cover_inv_def by blast

lemma cover_queue:
  "cover_inv n k s \<Longrightarrow> \<forall>i<n. spos s i \<le> 4 * k + 6 \<Longrightarrow> i < n \<Longrightarrow>
   4 * k + 3 \<le> spos s i \<or> spos s i = 4 * k + 2 \<and> sys_looked s i = Seen \<Longrightarrow> m \<in># sys_queue s i \<Longrightarrow> covered n s k m"
  unfolding cover_inv_def by blast

lemma cover_invI:
  assumes "\<And>i t. \<forall>i<n. spos s i \<le> 4 * k + 6 \<Longrightarrow> i < n \<Longrightarrow> entered s k i \<Longrightarrow> sys_current s i = Some t \<Longrightarrow> covered n s k t"
    "\<And>i m. \<forall>i<n. spos s i \<le> 4 * k + 6 \<Longrightarrow> i < n \<Longrightarrow>
       4 * k + 3 \<le> spos s i \<or> spos s i = 4 * k + 2 \<and> sys_looked s i \<noteq> Unseen \<Longrightarrow> m \<in># sys_buffer s i \<Longrightarrow> covered n s k m"
    "\<And>i m. \<forall>i<n. spos s i \<le> 4 * k + 6 \<Longrightarrow> i < n \<Longrightarrow>
       4 * k + 3 \<le> spos s i \<or> spos s i = 4 * k + 2 \<and> sys_looked s i = Seen \<Longrightarrow> m \<in># sys_queue s i \<Longrightarrow> covered n s k m"
  shows "cover_inv n k s"
  using assms unfolding cover_inv_def by blast

lemma cover_init: "gvt_initial s \<Longrightarrow> cover_inv n k s"
  by (rule cover_invI) (auto simp: gvt_initial_def entered_def spos_def pos_def)

lemma cover_step_enter:
  assumes "cover_inv n k s" "phases (sys_node s) i = thread_phase_idle" "sys_rounds t = sys_rounds s"
    "sys_node t = gvt_start_processing i (sys_node s) \<or> sys_node t = set_phase i thread_phase_A (sys_node s)"
    "sys_queue t = sys_queue s" "sys_buffer t = sys_buffer s" "sys_current t = sys_current s" "sys_current s i = None"
    "sys_looked t = (sys_looked s)(i := Unseen)"
  shows "cover_inv n k t"
proof -
  note b = enter_bounds [OF assms(2,3,4)]
  have m: "covered n s k x \<Longrightarrow> covered n t k x" for x by (erule covered_mono) (use b(2) in auto)
  show ?thesis
  proof (rule cover_invI, unfold b(1))
    fix j x assume "\<forall>i<n. spos s i \<le> 4 * k + 6" "j < n" "entered t k j" "sys_current t j = Some x"
    moreover from this have "j \<noteq> i" using assms(7,8) by auto
    ultimately show "covered n t k x" using m cover_current [OF assms(1)] b(3) assms(7) by simp
  next
    fix j x assume "\<forall>i<n. spos s i \<le> 4 * k + 6" "j < n" "x \<in># sys_buffer t j"
      "4 * k + 3 \<le> spos s j \<or> spos s j = 4 * k + 2 \<and> sys_looked t j \<noteq> Unseen"
    then show "covered n t k x" using assms(6,9) by (intro m cover_buffer [OF assms(1)]) (auto split: if_splits)
  next
    fix j x assume "\<forall>i<n. spos s i \<le> 4 * k + 6" "j < n" "x \<in># sys_queue t j"
      "4 * k + 3 \<le> spos s j \<or> spos s j = 4 * k + 2 \<and> sys_looked t j = Seen"
    then show "covered n t k x" using assms(5,9) by (intro m cover_queue [OF assms(1)]) (auto split: if_splits)
  qed
qed

lemma cover_step_act:
  assumes "cover_inv n k s" "i < n" "phases (sys_node s) i \<noteq> thread_phase_idle" "sys_looked s i = Seen"
    "sys_node t = phase_act i (sys_node s)" "sys_rounds t = finish_round i (phases (sys_node s) i) (sys_rounds s)"
    "sys_queue t = sys_queue s" "sys_buffer t = sys_buffer s" "sys_current t = sys_current s"
    "sys_looked t = (sys_looked s)(i := Unseen)"
  shows "cover_inv n k t"
proof -
  have p: "spos t = (spos s)(i := Suc (spos s i))" by (rule spos_act [OF assms(3,5,6)])
  have le: "\<forall>l<n. spos s l \<le> 4 * k + 6" "spos s i \<le> 4 * k + 5" if "\<forall>l<n. spos t l \<le> 4 * k + 6"
  proof -
    show "spos s i \<le> 4 * k + 5" using that assms(2) by (auto simp: p dest: spec [of _ i])
    with that show "\<forall>l<n. spos s l \<le> 4 * k + 6" by (auto simp: p split: if_splits)
  qed
  have m: "covered n t k x" if "covered n s k x" "spos s i \<le> 4 * k + 5" for x
    by (rule covered_mono [OF that(1)]) (use act_bounds(1) [OF assms(3) that(2) assms(5,6)] in auto)
  show ?thesis
  proof (rule cover_invI)
    fix j x assume a: "\<forall>l<n. spos t l \<le> 4 * k + 6" "j < n" "entered t k j" "sys_current t j = Some x"
    then show "covered n t k x" using m cover_current [OF assms(1) le(1) [OF a(1)]] act_bounds(2) [OF assms(3) le(2) assms(5,6)] le(2) assms(9) by simp
  next
    fix j x assume a: "\<forall>l<n. spos t l \<le> 4 * k + 6" "j < n" "x \<in># sys_buffer t j"
      "4 * k + 3 \<le> spos t j \<or> spos t j = 4 * k + 2 \<and> sys_looked t j \<noteq> Unseen"
    have "4 * k + 3 \<le> spos s j \<or> spos s j = 4 * k + 2 \<and> sys_looked s j \<noteq> Unseen"
      using a(4) assms(4,10) by (auto simp: p split: if_splits)
    with a show "covered n t k x" using assms(8) le by (intro m cover_buffer [OF assms(1)]) auto
  next
    fix j x assume a: "\<forall>l<n. spos t l \<le> 4 * k + 6" "j < n" "x \<in># sys_queue t j"
      "4 * k + 3 \<le> spos t j \<or> spos t j = 4 * k + 2 \<and> sys_looked t j = Seen"
    have "4 * k + 3 \<le> spos s j \<or> spos s j = 4 * k + 2 \<and> sys_looked s j = Seen"
      using a(4) assms(4,10) by (auto simp: p split: if_splits)
    with a show "covered n t k x" using assms(7) le by (intro m cover_queue [OF assms(1)]) auto
  qed
qed

lemma cover_step_pick:
  assumes "cover_inv n k s" "i < n" "sys_looked s i = Taken" "t \<in># sys_queue s i" "\<forall>m\<in>#sys_queue s i. t \<le> m"
    "sys_node u = gvt_extraction i t (sys_node s)" "sys_rounds u = sys_rounds s"
    "sys_queue u = (sys_queue s)(i := sys_queue s i - {#t#})" "sys_buffer u = sys_buffer s"
    "sys_current u = (sys_current s)(i := Some t)" "sys_looked u = (sys_looked s)(i := Seen)"
  shows "cover_inv n k u"
proof -
  note b = extract_bounds [OF assms(6,7)]
  have m: "covered n s k x \<Longrightarrow> covered n u k x" for x by (erule covered_mono) (use b(2,3) in auto)
  have now: "covered n u k x" if "entered s k i" "spos s i < 4 * k + 3" "t \<le> x" for x
    using b(2) b(4) [OF that(2)] that assms(2) unfolding covered_def by (meson order_trans)
  have e: "entered s k i" if "spos s i = 4 * k + 2" using that by (simp add: entered_def)
  show ?thesis
  proof (rule cover_invI, unfold b(1,2))
    fix j x assume a: "\<forall>l<n. spos s l \<le> 4 * k + 6" "j < n" "entered s k j" "sys_current u j = Some x"
    show "covered n u k x"
    proof (cases "j = i")
      case True
      then show ?thesis using a assms(4,10) now m cover_queue [OF assms(1) a(1,2)]
        by (cases "spos s i < 4 * k + 3") auto
    qed (use a m cover_current [OF assms(1)] assms(10) in simp)
  next
    fix j x assume "\<forall>l<n. spos s l \<le> 4 * k + 6" "j < n" "x \<in># sys_buffer u j"
      "4 * k + 3 \<le> spos s j \<or> spos s j = 4 * k + 2 \<and> sys_looked u j \<noteq> Unseen"
    then show "covered n u k x" using assms(3,9,11) by (intro m cover_buffer [OF assms(1)]) (auto split: if_splits)
  next
    fix j x assume a: "\<forall>l<n. spos s l \<le> 4 * k + 6" "j < n" "x \<in># sys_queue u j"
      "4 * k + 3 \<le> spos s j \<or> spos s j = 4 * k + 2 \<and> sys_looked u j = Seen"
    then have x: "x \<in># sys_queue s j" using assms(8) by (auto split: if_splits dest: in_diffD)
    show "covered n u k x"
    proof (cases "j = i \<and> spos s i = 4 * k + 2")
      case True
      then show ?thesis using now e x assms(5) by auto
    qed (use a x assms(11) in \<open>intro m cover_queue [OF assms(1)]; auto split: if_splits\<close>)
  qed
qed

text \<open>Sending: whoever sends after the buffer of j was emptied in phase C takes part in the round.\<close>

lemma cover_step_send:
  assumes "sys_ok n s" "cover_inv n k s" "i < n" "j < n" "sys_current s i = Some t" "t \<le> m"
  shows "cover_inv n k (s\<lparr>sys_buffer := (sys_buffer s)(j := add_mset m (sys_buffer s j))\<rparr>)" (is "cover_inv n k ?u")
proof -
  have same: "entered ?u k = entered s k" "covered n ?u k = covered n s k" "spos ?u = spos s"
    using covered_same [of ?u s k n] by simp_all
  show ?thesis
  proof (rule cover_invI, unfold same)
    fix l x assume "\<forall>i<n. spos s i \<le> 4 * k + 6" "l < n" "entered s k l" "sys_current ?u l = Some x"
    then show "covered n s k x" using cover_current [OF assms(2)] by simp
  next
    fix l x assume a: "\<forall>i<n. spos s i \<le> 4 * k + 6" "l < n" "x \<in># sys_buffer ?u l"
      "4 * k + 3 \<le> spos s l \<or> spos s l = 4 * k + 2 \<and> sys_looked ?u l \<noteq> Unseen"
    show "covered n s k x"
    proof (cases "x \<in># sys_buffer s l")
      case True
      then show ?thesis using a by (intro cover_buffer [OF assms(2)]) auto
    next
      case False
      then have x: "x = m" using a(3) by (auto split: if_splits)
      have "spos s l \<le> spos s i + 1" using assms(1,3) a(2) by (simp add: sys_ok_def together_def)
      then have "entered s k i" using a(4) by (auto simp: entered_def)
      from cover_current [OF assms(2) a(1) assms(3) this assms(5)] show ?thesis
        using assms(6) x unfolding covered_def by (meson order_trans)
    qed
  next
    fix l x assume "\<forall>i<n. spos s i \<le> 4 * k + 6" "l < n" "x \<in># sys_queue ?u l"
      "4 * k + 3 \<le> spos s l \<or> spos s l = 4 * k + 2 \<and> sys_looked ?u l = Seen"
    then show "covered n s k x" by (intro cover_queue [OF assms(2)]) auto
  qed
qed

lemma cover_step_take:
  assumes "cover_inv n k s" "i < n"
  shows "cover_inv n k (s\<lparr>sys_queue := (sys_queue s)(i := sys_queue s i + sys_buffer s i),
    sys_buffer := (sys_buffer s)(i := {#}), sys_looked := (sys_looked s)(i := Taken)\<rparr>)" (is "cover_inv n k ?u")
proof -
  have same: "entered ?u k = entered s k" "covered n ?u k = covered n s k" "spos ?u = spos s"
    using covered_same [of ?u s k n] by simp_all
  show ?thesis
  proof (rule cover_invI, unfold same)
    fix l x assume "\<forall>i<n. spos s i \<le> 4 * k + 6" "l < n" "entered s k l" "sys_current ?u l = Some x"
    then show "covered n s k x" using cover_current [OF assms(1)] by simp
  next
    fix l x assume "\<forall>i<n. spos s i \<le> 4 * k + 6" "l < n" "x \<in># sys_buffer ?u l"
      "4 * k + 3 \<le> spos s l \<or> spos s l = 4 * k + 2 \<and> sys_looked ?u l \<noteq> Unseen"
    then show "covered n s k x" by (intro cover_buffer [OF assms(1)]) (auto split: if_splits)
  next
    fix l x assume a: "\<forall>i<n. spos s i \<le> 4 * k + 6" "l < n" "x \<in># sys_queue ?u l"
      "4 * k + 3 \<le> spos s l \<or> spos s l = 4 * k + 2 \<and> sys_looked ?u l = Seen"
    show "covered n s k x"
    proof (cases "x \<in># sys_queue s l")
      case True
      then show ?thesis using a by (intro cover_queue [OF assms(1)]) (auto split: if_splits)
    next
      case False
      then show ?thesis using a by (intro cover_buffer [OF assms(1), of l]) (auto split: if_splits)
    qed
  qed
qed

text \<open>Steps that change neither the node nor the messages, but perhaps what a thread has seen.\<close>

lemma cover_step_other:
  assumes "cover_inv n k s" "sys_node u = sys_node s" "sys_rounds u = sys_rounds s" "sys_buffer u = sys_buffer s"
    "sys_queue u = sys_queue s" "\<And>l x. sys_current u l = Some x \<Longrightarrow> sys_current s l = Some x"
    "\<And>l. sys_looked u l \<noteq> sys_looked s l \<Longrightarrow> sys_looked u l = Unseen \<or> sys_looked s l = Taken \<and> sys_queue s l = {#}"
  shows "cover_inv n k u"
proof -
  have same: "entered u k = entered s k" "covered n u k = covered n s k" "spos u = spos s"
    using covered_same [OF assms(2,3)] by simp_all
  show ?thesis
  proof (rule cover_invI, unfold same assms(4,5))
    fix l x assume "\<forall>i<n. spos s i \<le> 4 * k + 6" "l < n" "entered s k l" "sys_current u l = Some x"
    then show "covered n s k x" using cover_current [OF assms(1)] assms(6) by blast
  next
    fix l x assume a: "\<forall>i<n. spos s i \<le> 4 * k + 6" "l < n" "x \<in># sys_buffer s l"
      "4 * k + 3 \<le> spos s l \<or> spos s l = 4 * k + 2 \<and> sys_looked u l \<noteq> Unseen"
    show "covered n s k x" by (rule cover_buffer [OF assms(1) a(1,2) _ a(3)]) (use a(4) assms(7) [of l] in auto)
  next
    fix l x assume a: "\<forall>i<n. spos s i \<le> 4 * k + 6" "l < n" "x \<in># sys_queue s l"
      "4 * k + 3 \<le> spos s l \<or> spos s l = 4 * k + 2 \<and> sys_looked u l = Seen"
    show "covered n s k x" by (rule cover_queue [OF assms(1) a(1,2) _ a(3)])
      (use a(3,4) assms(7) [of l] in \<open>cases "sys_looked u l = sys_looked s l"; auto\<close>)
  qed
qed

lemma cover_step:
  assumes "gvt_step n s t" "sys_ok n s" "cover_inv n k s"
  shows "cover_inv n k t"
  using assms(1)
proof (cases rule: gvt_step.cases)
  case (start i)
  then show ?thesis by (intro cover_step_enter [OF assms(3)]) auto
next
  case (again i)
  then show ?thesis by (intro cover_step_enter [OF assms(3)]) auto
next
  case (take i)
  show ?thesis unfolding take(1) by (rule cover_step_take [OF assms(3) take(2)])
next
  case (pick i x)
  then show ?thesis by (intro cover_step_pick [OF assms(3)]) auto
next
  case (send i j x m)
  show ?thesis unfolding send(1) by (rule cover_step_send [OF assms(2,3) send(2-5)])
next
  case (act i)
  then show ?thesis using assms(2)
    by (intro cover_step_act [OF assms(3) act(2)]) (auto simp: sys_ok_def finish_round_def)
qed (rule cover_step_other [OF assms(3)]; auto split: if_splits)+

lemma reachable_cover:
  assumes "gvt_reachable n s" "n \<le> MAX_THREADS"
  shows "cover_inv n k s"
  using assms by (induction rule: gvt_reachable.induct) (auto intro: cover_init cover_step reachable_ok)

text \<open>A message anywhere on the node: in a queue, in a buffer or being processed.\<close>

definition pending :: "nat \<Rightarrow> gvt_sys \<Rightarrow> simtime \<Rightarrow> bool" where
  "pending n s m \<longleftrightarrow> (\<exists>i<n. m \<in># sys_queue s i \<or> m \<in># sys_buffer s i \<or> sys_current s i = Some m)"

text \<open>C5: The minimum of a node is a lower bound. However the threads interleave their work and the phases of a
  reduction, from the moment on when all threads have written their minimum for a round until one
  writes for the next round, no message is in a queue, in a buffer or being processed whose time is
  before the minimum that gvt_node_reduce computes: none that was there can be missed, and none
  sent in the meantime can be before it.
\<close>

theorem gvt_node_bound:
  assumes "gvt_reachable n s" "n \<le> MAX_THREADS" "\<forall>i<n. 4 * k + 3 \<le> spos s i \<and> spos s i \<le> 4 * k + 6" "pending n s m"
  shows "gvt_node_reduce n (reducing_p (sys_node s)) \<le> m"
proof -
  have c: "cover_inv n k s" by (rule reachable_cover [OF assms(1,2)])
  have b: "\<forall>i<n. spos s i \<le> 4 * k + 6" and e: "\<And>i. i < n \<Longrightarrow> entered s k i"
    using assms(3) by (auto simp: entered_def)
  obtain i where i: "i < n" "m \<in># sys_queue s i \<or> m \<in># sys_buffer s i \<or> sys_current s i = Some m"
    using assms(4) by (auto simp: pending_def)
  then have "covered n s k m"
    using cover_queue [OF c b] cover_buffer [OF c b] cover_current [OF c b _ e] assms(3) by blast
  then obtain j where j: "j < n" "vouched s k j \<le> m" by (auto simp: covered_def)
  then have "reducing_p (sys_node s) j \<le> m" using assms(3) by (simp add: vouched_def)
  with gvt_node_reduce_le [OF j(1)] show ?thesis by (rule order_trans)
qed

text \<open>One thread: a message is taken and processed, then the next phase is run.\<close>

definition worked :: "nat \<Rightarrow> simtime \<Rightarrow> gvt_sys \<Rightarrow> gvt_sys" where
  "worked i t s = s\<lparr>sys_node := phase_act i (gvt_extraction i t (sys_node s)),
     sys_queue := (sys_queue s)(i := sys_queue s i + sys_buffer s i - {#t#}), sys_buffer := (sys_buffer s)(i := {#}),
     sys_current := (sys_current s)(i := None), sys_looked := (sys_looked s)(i := Unseen),
     sys_ready := (sys_ready s)(i := False),
     sys_rounds := (if phases (sys_node s) i = thread_phase_D then (sys_rounds s)(i := Suc (sys_rounds s i)) else sys_rounds s)\<rparr>"

lemma reachable_worked:
  assumes "gvt_reachable n s" "i < n" "\<not> sys_ready s i" "sys_current s i = None"
    "t \<in># sys_queue s i + sys_buffer s i" "\<forall>m\<in>#sys_queue s i + sys_buffer s i. t \<le> m"
    "phase_test n (gvt_extraction i t (sys_node s)) (phases (sys_node s) i)"
  shows "gvt_reachable n (worked i t s)"
proof -
  note r = gvt_reachable.step
  let ?a = "s\<lparr>sys_queue := (sys_queue s)(i := sys_queue s i + sys_buffer s i),
     sys_buffer := (sys_buffer s)(i := {#}), sys_looked := (sys_looked s)(i := Taken)\<rparr>"
  let ?b = "?a\<lparr>sys_node := gvt_extraction i t (sys_node ?a), sys_queue := (sys_queue ?a)(i := sys_queue ?a i - {#t#}),
     sys_current := (sys_current ?a)(i := Some t), sys_looked := (sys_looked ?a)(i := Seen)\<rparr>"
  let ?c = "?b\<lparr>sys_current := (sys_current ?b)(i := None)\<rparr>" let ?d = "?c\<lparr>sys_ready := (sys_ready ?c)(i := True)\<rparr>"
  let ?e = "?d\<lparr>sys_node := phase_act i (sys_node ?d), sys_ready := (sys_ready ?d)(i := False),
     sys_looked := (sys_looked ?d)(i := Unseen),
     sys_rounds := (if phases (sys_node ?d) i = thread_phase_D then (sys_rounds ?d)(i := Suc (sys_rounds ?d i)) else sys_rounds ?d)\<rparr>"
  have a: "gvt_reachable n ?a" by (rule r [OF assms(1)], rule gvt_step.take) (use assms in auto)
  have b: "gvt_reachable n ?b" by (rule r [OF a], rule gvt_step.pick) (use assms in auto)
  have c: "gvt_reachable n ?c" by (rule r [OF b], rule gvt_step.finish) (use assms in auto)
  have d: "gvt_reachable n ?d" by (rule r [OF c], rule gvt_step.test) (use assms in auto)
  have "gvt_reachable n ?e" by (rule r [OF d], rule gvt_step.act) (use assms in auto)
  also have "?e = worked i t s" using assms(3,4) by (simp add: worked_def fun_upd_idem)
  finally show ?thesis .
qed

text \<open>A node of one thread that has four messages waiting.\<close>

definition example_node :: gvt_node where
  "example_node = \<lparr>gvt_threads = \<lambda>_. \<lparr>t_phase = thread_phase_idle, t_node_phase = node_phase_redux_first, t_accumulator = 0,
       t_color = False, t_msg_seq = \<lambda>_ _. 0, t_last_seq = \<lambda>_ _. 0, t_received = \<lambda>_. 0\<rparr>,
     reducing_p = \<lambda>_. 0, c_a = 0, c_b = 0, c_c = 0, c_d = 0, total_sent = \<lambda>_. 0, total_msg_received = 0,
     remote_msg_to_receive = 0, gvt_timer = 0, gvt_nodes = 0, mpi_calls = []\<rparr>"

definition example_gvt :: gvt_sys where
  "example_gvt = \<lparr>sys_node = example_node, sys_queue = \<lambda>_. {#4, 2#}, sys_buffer = \<lambda>_. {#3, 5#},
     sys_current = \<lambda>_. None, sys_looked = \<lambda>_. Unseen, sys_ready = \<lambda>_. False, sys_rounds = \<lambda>_. 0\<rparr>"

definition example_started :: gvt_sys where
  "example_started = example_gvt\<lparr>sys_node := gvt_start_processing 0 example_node, sys_looked := (\<lambda>_. Unseen)(0 := Unseen)\<rparr>"

definition example_done :: gvt_sys where
  "example_done = worked 0 4 (worked 0 3 (worked 0 2 example_started))"

lemmas example_gvt_defs = example_started_def example_gvt_def example_node_def gvt_start_processing_def worked_def
  gvt_extraction_def phase_act_def set_phase_def phases_def phase_test_def SIMTIME_MAX_def

lemma example_started_reachable: "gvt_reachable 1 example_started"
proof -
  have i: "gvt_reachable 1 example_gvt"
    by (rule gvt_reachable.init) (simp add: gvt_initial_def example_gvt_def example_node_def phases_def)
  show ?thesis unfolding example_started_def
    by (rule gvt_reachable.step [OF i])
      (use gvt_step.start [of 0 1 example_gvt] in \<open>simp add: example_gvt_def example_node_def phases_def\<close>)
qed

lemma example_done_reachable: "gvt_reachable 1 example_done"
proof -
  have a: "gvt_reachable 1 (worked 0 2 example_started)"
    by (rule reachable_worked [OF example_started_reachable]) (simp_all add: example_gvt_defs)
  have b: "gvt_reachable 1 (worked 0 3 (worked 0 2 example_started))"
    by (rule reachable_worked [OF a]) (simp_all add: example_gvt_defs)
  show ?thesis unfolding example_done_def by (rule reachable_worked [OF b]) (simp_all add: example_gvt_defs)
qed

lemma worked_parts:
  "phases (sys_node (worked i t s)) = (phases (sys_node s))(i := next_phase (phases (sys_node s) i))"
  "sys_queue (worked i t s) = (sys_queue s)(i := sys_queue s i + sys_buffer s i - {#t#})"
  "sys_rounds (worked i t s) = finish_round i (phases (sys_node s) i) (sys_rounds s)"
  by (simp_all add: worked_def phases_act finish_round_def)

lemma example_done_parts:
  "phases (sys_node example_done) 0 = thread_phase_D" "sys_queue example_done 0 = {#5#}" "sys_rounds example_done 0 = 0"
proof -
  have s: "phases (sys_node example_started) 0 = thread_phase_A" "sys_queue example_started 0 = {#4, 2#}"
    "sys_buffer example_started 0 = {#3, 5#}" "sys_rounds example_started 0 = 0"
    by (simp_all add: example_started_def example_gvt_def)
  have b: "sys_buffer (worked 0 t r) 0 = {#}" for t r by (simp add: worked_def)
  show "phases (sys_node example_done) 0 = thread_phase_D" "sys_queue example_done 0 = {#5#}" "sys_rounds example_done 0 = 0"
    by (simp_all add: example_done_def worked_parts s b finish_round_def)
qed

theorem gvt_node_bound_witness:
  "pending 1 example_done 5 \<and> gvt_node_reduce 1 (reducing_p (sys_node example_done)) \<le> 5"
proof -
  have p: "pending 1 example_done 5" by (auto simp: pending_def example_done_parts)
  have "gvt_node_reduce 1 (reducing_p (sys_node example_done)) \<le> 5"
    by (rule gvt_node_bound [OF example_done_reachable _ _ p, of 0])
      (simp_all add: MAX_THREADS_def spos_def pos_def example_done_parts)
  with p show ?thesis by simp
qed

subsection \<open>The phases as barriers, and progress\<close>

text \<open>C25: A phase is a barrier. In every reachable state a thread that runs gvt_thread_phase_run within a phase
  goes on to the next phase exactly when every thread has reached the phase it is in, and else
  changes nothing; the call tells that the reduction is done exactly when it leaves the last phase.
\<close>

theorem gvt_thread_phase_barrier:
  assumes "gvt_reachable n s" "n \<le> MAX_THREADS" "i < n" "phases (sys_node s) i \<noteq> thread_phase_idle"
  shows "\<exists>b g. gvt_thread_phase_run n i (sys_node s) = Inr (b, g) \<and>
    (if \<forall>j<n. spos s i \<le> spos s j
     then phases g = (phases (sys_node s))(i := next_phase (phases (sys_node s) i)) \<and> (b \<longleftrightarrow> phases g i = thread_phase_idle)
     else \<not> b \<and> g = sys_node s)"
proof -
  have ok: "counts_ok n (sys_node s)" "together n (pos (phases (sys_node s)) (sys_rounds s))"
    using reachable_ok [OF assms(1,2)] by (simp_all add: sys_ok_def spos_def)
  have d: "p = thread_phase_D \<longleftrightarrow> next_phase p = thread_phase_idle" if "p \<noteq> thread_phase_idle" for p
    using that by (cases p) simp_all
  have r: "gvt_thread_phase_run n i (sys_node s) = Inr (if phase_test n (sys_node s) (phases (sys_node s) i)
      then (phases (sys_node s) i = thread_phase_D, phase_act i (sys_node s)) else (False, sys_node s))"
    unfolding phases_def by (rule gvt_thread_phase_run_halves) (use assms(4) in \<open>simp add: phases_def\<close>)
  show ?thesis
    using d [OF assms(4)] unfolding r phase_test_iff [OF assms(2) ok assms(3,4)] by (auto simp: spos_def phases_act)
qed

theorem gvt_thread_phase_barrier_witness:
  "\<exists>g. gvt_thread_phase_run 1 0 (sys_node example_done) = Inr (True, g) \<and> phases g 0 = thread_phase_idle"
  using gvt_thread_phase_barrier [OF example_done_reachable, of 0] by (auto simp: MAX_THREADS_def example_done_parts)

text \<open>
  A turn of a thread in a reduction: it enters when it is idle, and runs its phase otherwise. The
  second component counts the reductions each thread has finished.
\<close>

definition phase_turn :: "nat \<Rightarrow> nat \<Rightarrow> gvt_node \<times> (nat \<Rightarrow> nat) \<Rightarrow> (gvt_node \<times> (nat \<Rightarrow> nat)) res" where
  "phase_turn n i = (\<lambda>(g, rd).
     if phases g i = thread_phase_idle then Inr (gvt_start_processing i g, rd)
     else bindR (gvt_thread_phase_run n i g) (\<lambda>(b, g). Inr (g, if b then rd(i := Suc (rd i)) else rd)))"

fun stage :: "thread_phase \<Rightarrow> nat" where
  "stage thread_phase_idle = 0" | "stage thread_phase_A = 1" | "stage thread_phase_B = 2"
| "stage thread_phase_C = 3" | "stage thread_phase_D = 4"

definition reached :: "gvt_node \<times> (nat \<Rightarrow> nat) \<Rightarrow> nat \<Rightarrow> nat" where
  "reached = (\<lambda>(g, rd) i. 5 * rd i + stage (phases g i))"

definition turn_ok :: "nat \<Rightarrow> gvt_node \<times> (nat \<Rightarrow> nat) \<Rightarrow> bool" where
  "turn_ok n = (\<lambda>(g, rd). counts_ok n g \<and> together n (pos (phases g) rd))"

lemma reached_pos: "reached (g, rd) i \<le> reached (g, rd) j \<Longrightarrow> pos (phases g) rd i \<le> pos (phases g) rd j"
  by (cases "phases g i"; cases "phases g j") (simp_all add: reached_def pos_def)

text \<open>A turn always succeeds, undoes nothing, and a thread that is last moves on.\<close>

lemma turn_progress:
  assumes "n \<le> MAX_THREADS" "turn_ok n st" "i < n"
  obtains st' where "phase_turn n i st = Inr st'" "turn_ok n st'" "\<And>j. reached st j \<le> reached st' j"
    "(\<forall>j<n. reached st i \<le> reached st j) \<Longrightarrow> reached st i < reached st' i"
proof -
  obtain g rd where st: "st = (g, rd)" by (cases st)
  have ok: "counts_ok n g" "together n (pos (phases g) rd)" using assms(2) by (simp_all add: st turn_ok_def)
  show thesis
  proof (cases "phases g i = thread_phase_idle")
    case True
    show thesis
      by (rule that [of "(gvt_start_processing i g, rd)"])
        (use True ok in \<open>auto simp: st phase_turn_def turn_ok_def counts_ok_def pos_enter counts_enter reached_def\<close>)
  next
    case False
    have r: "gvt_thread_phase_run n i g = Inr (if phase_test n g (phases g i)
        then (phases g i = thread_phase_D, phase_act i g) else (False, g))"
      unfolding phases_def by (rule gvt_thread_phase_run_halves) (use False in \<open>simp add: phases_def\<close>)
    show thesis
    proof (cases "phase_test n g (phases g i)")
      case True
      have p: "\<forall>j<n. pos (phases g) rd i \<le> pos (phases g) rd j"
        using phase_test_iff [OF assms(1) ok assms(3) False] True by simp
      let ?st = "(phase_act i g, finish_round i (phases g i) rd)"
      have adv: "reached ?st = (reached st)(i := Suc (reached st i))"
        using False by (cases "phases g i") (auto simp: reached_def st phases_act finish_round_def fun_eq_iff)
      have "turn_ok n ?st" using counts_act [OF ok(1) assms(3)] together_act [OF ok(2) p]
        by (simp add: turn_ok_def pos_act [OF False])
      moreover have "phase_turn n i st = Inr ?st" using False True r by (simp add: st phase_turn_def finish_round_def)
      ultimately show thesis using adv by (intro that) auto
    next
      case no: False
      then have "phase_turn n i st = Inr st" using False r by (simp add: st phase_turn_def)
      moreover have "\<not> (\<forall>j<n. reached st i \<le> reached st j)"
        using no phase_test_iff [OF assms(1) ok assms(3) False] reached_pos unfolding st by blast
      ultimately show thesis using assms(2) by (intro that) auto
    qed
  qed
qed

lemma sweep_progress:
  assumes "n \<le> MAX_THREADS" "turn_ok n st" "set ys \<subseteq> {..<n}" "\<forall>j<n. m \<le> reached st j"
  shows "\<exists>st'. foldR (phase_turn n) ys st = Inr st' \<and> turn_ok n st' \<and> (\<forall>j. reached st j \<le> reached st' j)
    \<and> (\<forall>j\<in>set ys. m < reached st' j)"
  using assms(2-4)
proof (induction ys arbitrary: st)
  case (Cons i ys)
  then have "i < n" by simp
  obtain st1 where t: "phase_turn n i st = Inr st1" "turn_ok n st1" "\<And>j. reached st j \<le> reached st1 j"
    "(\<forall>j<n. reached st i \<le> reached st j) \<Longrightarrow> reached st i < reached st1 i"
    by (rule turn_progress [OF assms(1) Cons.prems(1) \<open>i < n\<close>]) blast
  have "m < reached st1 i"
  proof (cases "reached st i = m")
    case True
    then show ?thesis using t(4) Cons.prems(3) by auto
  next
    case False
    then have "m < reached st i" using Cons.prems(3) \<open>i < n\<close> by (simp add: order_less_le)
    then show ?thesis using t(3) [of i] by linarith
  qed
  moreover have "\<forall>j<n. m \<le> reached st1 j" using Cons.prems(3) t(3) order_trans by blast
  from Cons.IH [OF t(2) _ this] Cons.prems(2) obtain st' where
    "foldR (phase_turn n) ys st1 = Inr st'" "turn_ok n st'" "\<forall>j. reached st1 j \<le> reached st' j" "\<forall>j\<in>set ys. m < reached st' j"
    by auto
  ultimately show ?case using t(1,3) by (auto intro: order_trans less_le_trans)
qed simp

text \<open>C17: A reduction always ends. When every thread takes a turn in each of 5 k groups of turns, in any order and
  however often, starting from a node at rest, no call fails and every thread has finished at
  least k reductions: no schedule can keep a thread from completing while all threads keep calling.
\<close>

theorem gvt_reduction_ends:
  assumes "n \<le> MAX_THREADS" "c_a g = 0" "c_b g = 0" "\<forall>i. phases g i = thread_phase_idle"
    "\<forall>ys\<in>set segs. set ys = {..<n}" "length segs = 5 * k"
  shows "\<exists>g' rd. foldR (phase_turn n) (concat segs) (g, \<lambda>_. 0) = Inr (g', rd) \<and> (\<forall>i<n. k \<le> rd i)"
proof -
  have ok: "turn_ok n (g, \<lambda>_. 0)"
    using assms(2-4) by (simp add: turn_ok_def counts_ok_def together_def pos_def cnt_def in_a_def in_b_def)
  have "\<exists>st'. foldR (phase_turn n) (concat segs) st = Inr st' \<and> (\<forall>j<n. m + length segs \<le> reached st' j)"
    if "turn_ok n st" "\<forall>j<n. m \<le> reached st j" for st m
    using that assms(5)
  proof (induction segs arbitrary: st m)
    case (Cons ys segs)
    have ys: "set ys = {..<n}" using Cons.prems(3) by simp
    from sweep_progress [OF assms(1) Cons.prems(1) eq_refl [OF ys] Cons.prems(2)]
    obtain st1 where s: "foldR (phase_turn n) ys st = Inr st1" "turn_ok n st1" "\<forall>j\<in>set ys. m < reached st1 j" by blast
    have "\<forall>j<n. Suc m \<le> reached st1 j" using s(3) Cons.prems(3) by (simp add: Suc_le_eq)
    from Cons.IH [OF s(2) this] Cons.prems(3) show ?case by (auto simp: foldR_append s(1))
  qed simp
  from this [OF ok, of 0] assms(6) obtain g' rd where
    f: "foldR (phase_turn n) (concat segs) (g, \<lambda>_. 0) = Inr (g', rd)" "\<forall>j<n. 5 * k \<le> reached (g', rd) j" by auto
  have "k \<le> rd i" if "i < n" for i
  proof -
    have "stage (phases g' i) \<le> 4" by (cases "phases g' i") simp_all
    with f(2) that show ?thesis by (force simp: reached_def)
  qed
  with f(1) show ?thesis by blast
qed

theorem gvt_reduction_ends_witness:
  "\<exists>g rd. foldR (phase_turn 2) (concat (replicate 5 [1, 0])) (example_node, \<lambda>_. 0) = Inr (g, rd) \<and> 1 \<le> rd 0 \<and> 1 \<le> rd 1"
proof -
  have "\<exists>g rd. foldR (phase_turn 2) (concat (replicate 5 [1, 0])) (example_node, \<lambda>_. 0) = Inr (g, rd) \<and> (\<forall>i<2. 1 \<le> rd i)"
    by (rule gvt_reduction_ends) (auto simp: MAX_THREADS_def example_node_def phases_def)
  then show ?thesis by (elim ex_forward) auto
qed

end
