(* ===== verification/Sync.thy ===== *)
theory Sync
  imports Threads
begin

text \<open>
  The barrier of the threads of a node (core/sync.c). A call of sync_thread_barrier is two steps
  with others in between: the atomic addition, and the end of the loop that waits. The static
  variables are \<open>cs\<close>, shared, and \<open>phase\<close>, one for each thread; how often a thread has entered and
  who was elected at each use of the barrier are recorded beside them.

  The results: no thread gets past a use of the barrier before all have come to it, at each use
  exactly one thread is elected, and when all have come, all can go on.
\<close>

record barrier =
  bar_cs :: "nat \<Rightarrow> u32"
  bar_phase :: "nat \<Rightarrow> nat"
  bar_inside :: "nat \<Rightarrow> bool"
  bar_entered :: "nat \<Rightarrow> nat"
  bar_elected :: "nat \<Rightarrow> nat list"

text \<open>The first half of a call: the leader flag and the counter after the atomic addition.\<close>

definition barrier_arrive :: "nat \<Rightarrow> barrier \<Rightarrow> bool \<times> barrier" where
  "barrier_arrive i s =
     (let c = bar_phase s i mod 2; old = bar_cs s c in
      if bar_phase s i div 2 mod 2 \<noteq> 0 then (old = 1, s\<lparr>bar_cs := (bar_cs s)(c := old - 1)\<rparr>)
      else (old = 0, s\<lparr>bar_cs := (bar_cs s)(c := old + 1)\<rparr>))"

text \<open>The condition on which the loop ends, and the end of the call.\<close>

definition barrier_open :: "nat \<Rightarrow> nat \<Rightarrow> barrier \<Rightarrow> bool" where
  "barrier_open n i s =
     (let r = bar_cs s (bar_phase s i mod 2) in if bar_phase s i div 2 mod 2 \<noteq> 0 then r = 0 else r = of_nat n)"

definition barrier_leave :: "nat \<Rightarrow> barrier \<Rightarrow> barrier" where
  "barrier_leave i s = s\<lparr>bar_phase := (bar_phase s)(i := (bar_phase s i + 1) mod 4)\<rparr>"

inductive barrier_step :: "nat \<Rightarrow> barrier \<Rightarrow> barrier \<Rightarrow> bool" for n where
  arrive: "i < n \<Longrightarrow> \<not> bar_inside s i \<Longrightarrow> barrier_arrive i s = (l, t) \<Longrightarrow>
     barrier_step n s (t\<lparr>bar_inside := (bar_inside t)(i := True), bar_entered := (bar_entered t)(i := Suc (bar_entered t i)),
       bar_elected := (if l then (bar_elected t)(bar_entered t i := i # bar_elected t (bar_entered t i)) else bar_elected t)\<rparr>)"
| leave: "i < n \<Longrightarrow> bar_inside s i \<Longrightarrow> barrier_open n i s \<Longrightarrow>
     barrier_step n s ((barrier_leave i s)\<lparr>bar_inside := (bar_inside s)(i := False)\<rparr>)"

inductive barrier_reachable :: "nat \<Rightarrow> barrier \<Rightarrow> bool" for n where
  init: "bar_cs s = (\<lambda>_. 0) \<Longrightarrow> bar_phase s = (\<lambda>_. 0) \<Longrightarrow> bar_inside s = (\<lambda>_. False) \<Longrightarrow> bar_entered s = (\<lambda>_. 0) \<Longrightarrow>
     bar_elected s = (\<lambda>_. []) \<Longrightarrow> barrier_reachable n s"
| step: "barrier_reachable n s \<Longrightarrow> barrier_step n s t \<Longrightarrow> barrier_reachable n t"

subsection \<open>The invariant\<close>

text \<open>How many uses a thread has got past; what the two counters count.\<close>

definition bar_left :: "barrier \<Rightarrow> nat \<Rightarrow> nat" where
  "bar_left s i = bar_entered s i - (if bar_inside s i then 1 else 0)"

definition in_first :: "nat \<Rightarrow> bool" where "in_first e \<longleftrightarrow> e mod 4 = 1 \<or> e mod 4 = 2"
definition in_second :: "nat \<Rightarrow> bool" where "in_second e \<longleftrightarrow> e mod 4 = 2 \<or> e mod 4 = 3"

definition elected_ok :: "nat \<Rightarrow> barrier \<Rightarrow> bool" where
  "elected_ok n s \<longleftrightarrow> (\<forall>b. length (bar_elected s b) =
     (if b mod 4 < 2 then if \<exists>j<n. b < bar_entered s j then 1 else 0 else if \<forall>j<n. b < bar_entered s j then 1 else 0))"

definition barrier_ok :: "nat \<Rightarrow> barrier \<Rightarrow> bool" where
  "barrier_ok n s \<longleftrightarrow>
     bar_cs s 0 = of_nat (cnt n in_first (bar_entered s)) \<and> bar_cs s 1 = of_nat (cnt n in_second (bar_entered s)) \<and>
     (\<forall>i<n. bar_phase s i = bar_left s i mod 4 \<and> (bar_inside s i \<longrightarrow> 0 < bar_entered s i)) \<and>
     (\<forall>i<n. \<forall>j<n. bar_left s i \<le> bar_entered s j) \<and> elected_ok n s"

lemma mod4_cases:
  fixes e :: nat obtains "e mod 4 = 0" | "e mod 4 = 1" | "e mod 4 = 2" | "e mod 4 = 3"
proof -
  have "e mod 4 < 4" by simp
  then have "e mod 4 = 0 \<or> e mod 4 = 1 \<or> e mod 4 = 2 \<or> e mod 4 = 3" by linarith
  then show thesis by (elim disjE) (rule that; assumption)+
qed

lemma Suc_mod4: "Suc e mod 4 = (if e mod 4 = 3 then 0 else Suc (e mod 4))"
  by (simp add: mod_Suc)

text \<open>A thread that is not inside is with the last ones: the others are with it or one ahead.\<close>

lemma barrier_near:
  assumes "barrier_ok n s" "i < n" "j < n" "\<not> bar_inside s i"
  shows "bar_entered s j = bar_entered s i \<or> bar_entered s j = Suc (bar_entered s i)"
proof -
  have "bar_entered s i \<le> bar_entered s j" "bar_left s j \<le> bar_entered s i"
    using assms by (auto simp: barrier_ok_def bar_left_def)
  then show ?thesis by (auto simp: bar_left_def split: if_splits)
qed

text \<open>The flag of a thread that arrives: in the first two of four uses the first, then the last.\<close>

lemma arrive_leader:
  assumes "barrier_ok n s" "n \<le> MAX_THREADS" "i < n" "\<not> bar_inside s i" "barrier_arrive i s = (l, t)"
  shows "l \<longleftrightarrow> (if bar_entered s i mod 4 < 2 then \<not> (\<exists>j<n. bar_entered s i < bar_entered s j)
                else \<forall>j<n. j \<noteq> i \<longrightarrow> bar_entered s i < bar_entered s j)"
proof -
  let ?e = "bar_entered s i" and ?ahead = "\<lambda>x. bar_entered s i < x"
  have ph: "bar_phase s i = ?e mod 4" using assms(1,3,4) by (simp add: barrier_ok_def bar_left_def)
  have cs: "bar_cs s 0 = of_nat (cnt n in_first (bar_entered s))" "bar_cs s 1 = of_nat (cnt n in_second (bar_entered s))"
    using assms(1) by (simp_all add: barrier_ok_def)
  have w: "(of_nat (cnt n P f) :: u32) = 0 \<longleftrightarrow> cnt n P f = 0" "(of_nat (cnt n P f) :: u32) = 1 \<longleftrightarrow> cnt n P f = 1"
    for P and f :: "nat \<Rightarrow> nat" using word_cnt [OF assms(2)] by simp_all
  have none: "cnt n P (bar_entered s) = 0 \<longleftrightarrow> \<not> (\<exists>j<n. ?e < bar_entered s j)" if "\<not> P ?e" "P (Suc ?e)" for P
    using barrier_near [OF assms(1,3) _ assms(4)] that unfolding cnt_none by (metis lessI less_irrefl)
  have one: "cnt n P (bar_entered s) = 1 \<longleftrightarrow> (\<forall>j<n. j \<noteq> i \<longrightarrow> ?e < bar_entered s j)" if "P ?e" "\<not> P (Suc ?e)" for P
    using barrier_near [OF assms(1,3) _ assms(4)] that cnt_one [OF assms(3), of P] by (metis lessI less_irrefl)
  show ?thesis
  proof (cases rule: mod4_cases [of ?e])
    case 1
    then show ?thesis using assms(5) none [of in_first] by (auto simp: barrier_arrive_def Let_def ph cs cs(2) [unfolded One_nat_def] w in_first_def Suc_mod4)
  next
    case 2
    then show ?thesis using assms(5) none [of in_second] by (auto simp: barrier_arrive_def Let_def ph cs cs(2) [unfolded One_nat_def] w in_second_def Suc_mod4)
  next
    case 3
    then show ?thesis using assms(5) one [of in_first] by (auto simp: barrier_arrive_def Let_def ph cs cs(2) [unfolded One_nat_def] w in_first_def Suc_mod4)
  next
    case 4
    then show ?thesis using assms(5) one [of in_second] by (auto simp: barrier_arrive_def Let_def ph cs cs(2) [unfolded One_nat_def] w in_second_def Suc_mod4)
  qed
qed

text \<open>The loop ends exactly when all threads have come to this use of the barrier.\<close>

lemma open_iff:
  assumes "barrier_ok n s" "n \<le> MAX_THREADS" "i < n" "bar_inside s i"
  shows "barrier_open n i s \<longleftrightarrow> (\<forall>j<n. bar_entered s i \<le> bar_entered s j)"
proof -
  obtain e where e: "bar_entered s i = Suc e" using assms(1,3,4) by (cases "bar_entered s i") (auto simp: barrier_ok_def)
  have ph: "bar_phase s i = e mod 4" using assms(1,3,4) e by (simp add: barrier_ok_def bar_left_def)
  have cs: "bar_cs s 0 = of_nat (cnt n in_first (bar_entered s))" "bar_cs s 1 = of_nat (cnt n in_second (bar_entered s))"
    using assms(1) by (simp_all add: barrier_ok_def)
  note w = word_cnt [OF assms(2)]
  have near: "bar_entered s j = e \<or> bar_entered s j = Suc e \<or> bar_entered s j = Suc (Suc e)" if "j < n" for j
  proof -
    have "bar_left s i \<le> bar_entered s j" "bar_left s j \<le> bar_entered s i"
      using assms that by (auto simp: barrier_ok_def)
    then show ?thesis using e assms(4) by (auto simp: bar_left_def split: if_splits)
  qed
  have all: "cnt n P (bar_entered s) = n \<longleftrightarrow> (\<forall>j<n. Suc e \<le> bar_entered s j)" if "\<not> P e" "P (Suc e)" "P (Suc (Suc e))" for P
    using near that unfolding cnt_all by (metis Suc_n_not_le_n le_SucI order_refl)
  have none: "cnt n P (bar_entered s) = 0 \<longleftrightarrow> (\<forall>j<n. Suc e \<le> bar_entered s j)" if "P e" "\<not> P (Suc e)" "\<not> P (Suc (Suc e))" for P
    using near that unfolding cnt_none by (metis Suc_n_not_le_n le_SucI order_refl)
  show ?thesis
  proof (cases rule: mod4_cases [of e])
    case 1
    then show ?thesis using all [of in_first] by (simp add: barrier_open_def ph cs cs(2) [unfolded One_nat_def] w in_first_def Suc_mod4 e)
  next
    case 2
    then show ?thesis using all [of in_second] by (simp add: barrier_open_def ph cs cs(2) [unfolded One_nat_def] w in_second_def Suc_mod4 e)
  next
    case 3
    then show ?thesis using none [of in_first] by (simp add: barrier_open_def ph cs cs(2) [unfolded One_nat_def] w in_first_def Suc_mod4 e)
  next
    case 4
    then show ?thesis using none [of in_second] by (simp add: barrier_open_def ph cs cs(2) [unfolded One_nat_def] w in_second_def Suc_mod4 e)
  qed
qed

subsection \<open>Every step keeps it\<close>

lemma elected_ok_arrive:
  assumes "barrier_ok n s" "n \<le> MAX_THREADS" "i < n" "\<not> bar_inside s i" "barrier_arrive i s = (l, t)"
    "bar_entered u = (bar_entered s)(i := Suc (bar_entered s i))"
    "bar_elected u = (if l then (bar_elected s)(bar_entered s i := i # bar_elected s (bar_entered s i)) else bar_elected s)"
  shows "elected_ok n u"
  unfolding elected_ok_def
proof
  fix b
  let ?e = "bar_entered s i"
  have old: "length (bar_elected s b) = (if b mod 4 < 2 then if \<exists>j<n. b < bar_entered s j then 1 else 0
      else if \<forall>j<n. b < bar_entered s j then 1 else 0)" using assms(1) by (simp add: barrier_ok_def elected_ok_def)
  note lead = arrive_leader [OF assms(1-5)]
  show "length (bar_elected u b) = (if b mod 4 < 2 then if \<exists>j<n. b < bar_entered u j then 1 else 0
      else if \<forall>j<n. b < bar_entered u j then 1 else 0)"
  proof (cases "b = ?e")
    case True
    have ex: "\<exists>j<n. b < bar_entered u j" using assms(3,6) True by (auto intro!: exI [of _ i])
    have all: "(\<forall>j<n. b < bar_entered u j) \<longleftrightarrow> (\<forall>j<n. j \<noteq> i \<longrightarrow> b < bar_entered s j)" using assms(6) True by auto
    have notall: "\<not> (\<forall>j<n. b < bar_entered s j)" using assms(3) True by auto
    show ?thesis
    proof (cases "b mod 4 < 2")
      case low: True
      with lead True have "l \<longleftrightarrow> \<not> (\<exists>j<n. b < bar_entered s j)" by simp
      with low ex old show ?thesis by (auto simp: assms(7) True [symmetric])
    next
      case high: False
      with lead True have "l \<longleftrightarrow> (\<forall>j<n. j \<noteq> i \<longrightarrow> b < bar_entered s j)" by simp
      moreover have "bar_elected s b = []" using old high notall by simp
      ultimately show ?thesis using high all by (auto simp: assms(7) True [symmetric])
    qed
  next
    case False
    then have "b < bar_entered u j \<longleftrightarrow> b < bar_entered s j" for j using assms(6) by auto
    moreover have "bar_elected u b = bar_elected s b" using False by (simp add: assms(7))
    ultimately show ?thesis using old by simp
  qed
qed

lemma cnt_arrive:
  assumes "i < n"
  shows "(of_nat (cnt n P (f(i := Suc (f i)))) :: u32)
    = of_nat (cnt n P f) + (if P (Suc (f i)) then 1 else 0) - (if P (f i) then 1 else 0)"
proof -
  have "(of_nat (cnt n P (f(i := Suc (f i))) + (if P (f i) then 1 else 0)) :: u32)
      = of_nat (cnt n P f + (if P (Suc (f i)) then 1 else 0))"
    by (rule arg_cong [where f = of_nat], rule cnt_upd [OF assms])
  then show ?thesis by (simp add: algebra_simps split: if_splits)
qed

lemma counts_arrive:
  assumes "barrier_ok n s" "i < n" "\<not> bar_inside s i" "barrier_arrive i s = (l, t)"
    "bar_entered u = (bar_entered s)(i := Suc (bar_entered s i))" "bar_cs u = bar_cs t"
  shows "bar_cs u 0 = of_nat (cnt n in_first (bar_entered u)) \<and> bar_cs u 1 = of_nat (cnt n in_second (bar_entered u))"
proof -
  let ?e = "bar_entered s i"
  have ph: "bar_phase s i = ?e mod 4" using assms(1-3) by (simp add: barrier_ok_def bar_left_def)
  have cs: "bar_cs s 0 = of_nat (cnt n in_first (bar_entered s))" "bar_cs s 1 = of_nat (cnt n in_second (bar_entered s))"
    using assms(1) by (simp_all add: barrier_ok_def)
  show ?thesis
    by (rule mod4_cases [of ?e]; use assms(4) in \<open>auto simp: assms(5,6) cnt_arrive [OF assms(2)] cs cs(2) [unfolded One_nat_def]
      barrier_arrive_def Let_def ph in_first_def in_second_def Suc_mod4\<close>)
qed

lemma barrier_ok_step:
  assumes "barrier_step n s u" "barrier_ok n s" "n \<le> MAX_THREADS"
  shows "barrier_ok n u"
  using assms(1)
proof (cases rule: barrier_step.cases)
  case (arrive i l t)
  have t: "bar_phase t = bar_phase s" "bar_inside t = bar_inside s" "bar_entered t = bar_entered s" "bar_elected t = bar_elected s"
    using arrive(4) by (auto simp: barrier_arrive_def Let_def split: if_splits)
  have e: "bar_entered u = (bar_entered s)(i := Suc (bar_entered s i))" "bar_cs u = bar_cs t" "bar_phase u = bar_phase s"
    "bar_elected u = (if l then (bar_elected s)(bar_entered s i := i # bar_elected s (bar_entered s i)) else bar_elected s)"
    by (simp_all add: arrive(1) t)
  have left: "bar_left u j = bar_left s j" for j using arrive(3) by (simp add: arrive(1) t bar_left_def)
  have "\<forall>j<n. bar_inside u j \<longrightarrow> 0 < bar_entered u j" using assms(2) by (simp add: arrive(1) t barrier_ok_def)
  moreover have "\<forall>j<n. \<forall>k<n. bar_left u j \<le> bar_entered u k" using assms(2) unfolding left e(1) barrier_ok_def by (simp add: le_SucI)
  moreover have "\<forall>j<n. bar_phase u j = bar_left u j mod 4" using assms(2) unfolding left e(3) barrier_ok_def by simp
  ultimately show ?thesis
    using counts_arrive [OF assms(2) arrive(2-4) e(1,2)] elected_ok_arrive [OF assms(2,3) arrive(2-4) e(1,4)]
    by (simp add: barrier_ok_def)
next
  case (leave i)
  have o: "\<forall>j<n. bar_entered s i \<le> bar_entered s j" using open_iff [OF assms(2,3) leave(2,3)] leave(4) by simp
  have e: "bar_entered u = bar_entered s" "bar_cs u = bar_cs s" "bar_elected u = bar_elected s"
    "bar_phase u = (bar_phase s)(i := (bar_phase s i + 1) mod 4)" "bar_inside u = (bar_inside s)(i := False)"
    by (simp_all add: leave(1) barrier_leave_def)
  have p: "0 < bar_entered s i" "bar_phase s i = bar_left s i mod 4" using assms(2) leave(2,3) by (simp_all add: barrier_ok_def)
  have left: "bar_left u j = (if j = i then Suc (bar_left s i) else bar_left s j)" for j
    using p(1) leave(3) by (simp add: bar_left_def e)
  have "\<forall>j<n. bar_phase u j = bar_left u j mod 4"
    using assms(2) p(2) by (auto simp: e left barrier_ok_def Suc_mod4 mod_Suc)
  moreover have "\<forall>j<n. \<forall>k<n. bar_left u j \<le> bar_entered u k"
    using assms(2) o p(1) leave(3) by (auto simp: e left barrier_ok_def bar_left_def)
  moreover have "elected_ok n u" using assms(2) by (simp add: barrier_ok_def elected_ok_def e)
  ultimately show ?thesis using assms(2) by (simp add: barrier_ok_def e)
qed

lemma barrier_reachable_ok: "barrier_reachable n s \<Longrightarrow> n \<le> MAX_THREADS \<Longrightarrow> 0 < n \<Longrightarrow> barrier_ok n s"
proof (induction rule: barrier_reachable.induct)
  case (init s)
  then show ?case by (auto simp: barrier_ok_def bar_left_def elected_ok_def cnt_def in_first_def in_second_def)
qed (rule barrier_ok_step)

text \<open>C18: The barrier works. In every reachable state a thread that has got past a use of the barrier has been
  joined there by every other thread; a use to which all have come has elected exactly one of
  them; and a thread that waits may go on exactly when all have come to the use it waits at, so
  that the last to come releases all and nobody waits for ever.
\<close>

theorem barrier_correct:
  assumes "barrier_reachable n s" "n \<le> MAX_THREADS" "i < n"
  shows "(\<forall>j<n. bar_left s i \<le> bar_entered s j) \<and>
    (\<forall>b. (\<forall>j<n. b < bar_entered s j) \<longrightarrow> length (bar_elected s b) = 1) \<and>
    (bar_inside s i \<longrightarrow> (barrier_open n i s \<longleftrightarrow> (\<forall>j<n. bar_entered s i \<le> bar_entered s j)))"
proof -
  have ok: "barrier_ok n s" by (rule barrier_reachable_ok [OF assms(1,2)]) (use assms(3) in simp)
  then have "\<forall>b. (\<forall>j<n. b < bar_entered s j) \<longrightarrow> length (bar_elected s b) = 1"
    using assms(3) by (auto simp: barrier_ok_def elected_ok_def)
  with ok open_iff [OF ok assms(2,3)] assms(3) show ?thesis by (simp add: barrier_ok_def)
qed

definition example_barrier :: barrier where
  "example_barrier = \<lparr>bar_cs = \<lambda>_. 0, bar_phase = \<lambda>_. 0, bar_inside = \<lambda>_. False, bar_entered = \<lambda>_. 0, bar_elected = \<lambda>_. []\<rparr>"

definition example_waiting :: barrier where
  "example_waiting = example_barrier\<lparr>bar_cs := (\<lambda>_. 0)(0 := 1), bar_inside := (\<lambda>_. False)(1 := True),
     bar_entered := (\<lambda>_. 0)(1 := 1), bar_elected := (\<lambda>_. [])(0 := [1])\<rparr>"

lemma example_waiting_reachable: "barrier_reachable 2 example_waiting"
proof -
  have "barrier_reachable 2 example_barrier" by (rule barrier_reachable.init) (simp_all add: example_barrier_def)
  moreover have "barrier_step 2 example_barrier example_waiting"
    using barrier_step.arrive [of 1 2 example_barrier True "example_barrier\<lparr>bar_cs := (\<lambda>_. 0)(0 := 1)\<rparr>"]
    by (simp add: example_barrier_def example_waiting_def barrier_arrive_def)
  ultimately show ?thesis by (rule barrier_reachable.step)
qed

theorem barrier_correct_witness:
  "barrier_reachable 2 example_waiting \<and> bar_inside example_waiting 1 \<and> \<not> barrier_open 2 1 example_waiting"
proof -
  have "bar_inside example_waiting 1" "bar_entered example_waiting 1 = 1" "bar_entered example_waiting 0 = 0"
    by (simp_all add: example_waiting_def example_barrier_def)
  with barrier_correct [OF example_waiting_reachable, of 1] show ?thesis
    using example_waiting_reachable by (force simp: MAX_THREADS_def)
qed

end
