(* ===== verification/StatsFiles.thy ===== *)
theory StatsFiles
  imports Stats
begin

text \<open>
  What Statistics.c copies, writes and prints. A file is the string or the list of bytes the code
  writes; opening it can fail, which ends the program. The text of a time (format \<open>%lf\<close>) and the
  bytes of a double are arguments, as is the padding between the members of a struct; words are
  stored with their low byte first.

  The results: the binary file of the detailed statistics can be read back record by record, and
  sprintSelfishStats writes its whole text, ends the program, or loses the last character when the
  text is exactly as long as the buffer.
\<close>

subsection \<open>Copying\<close>

definition copyReceivedStatisticsState :: "detailed_stats \<Rightarrow> detailed_stats \<Rightarrow> detailed_stats res" where
  "copyReceivedStatisticsState dest src =
     (let dest = dest\<lparr>blockStatsCapacity := blockStatsCapacity src\<rparr>; n = blockStatsCapacity dest * BLOCK_STAT_SIZE in
      bindR (guardR (0 < n \<and> n \<le> RS_MALLOC_MAX) Abort) (\<lambda>_.
      let dest = dest\<lparr>blockStats := blockStats src, minedBlockStatsCapacity := minedBlockStatsCapacity src\<rparr>;
          n = minedBlockStatsCapacity dest * BLOCK_STAT_SIZE in
      bindR (guardR (0 < n \<and> n \<le> RS_MALLOC_MAX) Abort) (\<lambda>_.
      Inr (dest\<lparr>minedBlockStats := minedBlockStats src\<rparr>))))"

definition copyStatisticsState :: "env \<Rightarrow> stats_state \<Rightarrow> stats_state \<Rightarrow> stats_state res" where
  "copyStatisticsState env dest src =
     (case statsType env of
        STATS_NONE \<Rightarrow> Inr dest
      | STATS_DETAILED \<Rightarrow>
          bindR (copyReceivedStatisticsState (detailedStats dest) (detailedStats src)) (\<lambda>d. Inr (dest\<lparr>detailedStats := d\<rparr>))
      | STATS_FIFTY_ONE \<Rightarrow> Inr (dest\<lparr>fiftyOneStats := fiftyOneStats src\<rparr>)
      | STATS_SELFISH \<Rightarrow> Inr (dest\<lparr>selfishStats := selfishStats src\<rparr>))"

lemma copyStatisticsState_copies:
  assumes "records_ok (blockStats (detailedStats src)) (blockStatsCapacity (detailedStats src))"
    "records_ok (minedBlockStats (detailedStats src)) (minedBlockStatsCapacity (detailedStats src))"
  shows "\<exists>st. copyStatisticsState env dest src = Inr st \<and>
    (statsType env = STATS_DETAILED \<longrightarrow> detailedStats st = detailedStats src) \<and>
    (statsType env = STATS_SELFISH \<longrightarrow> selfishStats st = selfishStats src) \<and>
    (statsType env = STATS_FIFTY_ONE \<longrightarrow> fiftyOneStats st = fiftyOneStats src)"
proof -
  have fits: "0 < c * BLOCK_STAT_SIZE \<and> c * BLOCK_STAT_SIZE \<le> RS_MALLOC_MAX" if r: "records_ok xs c" for xs c
  proof -
    obtain k where "k \<le> 11" "c = 2 ^ k" using r by (auto simp: records_ok_def)
    then have "0 < c" "c \<le> 2 ^ 11" using power_increasing [of k 11 "2::nat"] by auto
    then show ?thesis by (simp add: BLOCK_STAT_SIZE_def RS_MALLOC_MAX_def)
  qed
  show ?thesis using fits [OF assms(1)] fits [OF assms(2)]
    by (cases "statsType env") (auto simp: copyStatisticsState_def copyReceivedStatisticsState_def Let_def)
qed

subsection \<open>Numbers as text\<close>

definition digit :: "nat \<Rightarrow> char" where "digit d = char_of (48 + d :: nat)"

fun show_nat :: "nat \<Rightarrow> string" where
  "show_nat n = (if n < 10 then [digit n] else show_nat (n div 10) @ [digit (n mod 10)])"

declare show_nat.simps [simp del]

text \<open>The formats \<open>%lu\<close> of a size_t and \<open>%d\<close> of a node_id_t.\<close>

definition show_lu :: "u64 \<Rightarrow> string" where "show_lu w = show_nat (unat w)"

definition show_d :: "node_id \<Rightarrow> string" where
  "show_d w = (if sint w < 0 then ''-'' @ show_nat (nat (- sint w)) else show_nat (nat (sint w)))"

definition newline :: char where "newline = CHR 0x0A"
definition quote :: "string \<Rightarrow> string" where "quote s = CHR 0x22 # s @ [CHR 0x22]"

subsection \<open>Text files\<close>

text \<open>The loop over the records, which differ in the name of the time.\<close>

fun show_records :: "(simtime \<Rightarrow> string) \<Rightarrow> string \<Rightarrow> block_stat list \<Rightarrow> string" where
  "show_records lf time_name [] = []"
| "show_records lf time_name (r # rs) =
     ''{'' @ quote ''miner'' @ '':'' @ show_d (bs_miner r) @ '','' @ quote ''height'' @ '':'' @ show_nat (bs_height r) @ '','' @
     quote time_name @ '':'' @ lf (bs_time r) @ ''}'' @ (if rs \<noteq> [] then '','' else []) @ [newline] @ show_records lf time_name rs"

definition detailed_text :: "(simtime \<Rightarrow> string) \<Rightarrow> detailed_stats \<Rightarrow> string" where
  "detailed_text lf d =
     ''{'' @ [newline] @ quote ''blockStats'' @ '':['' @ [newline] @ show_records lf ''receivedTime'' (blockStats d) @ ''],'' @ [newline] @
     quote ''minedBlockStats'' @ '':['' @ [newline] @ show_records lf ''minedTime'' (minedBlockStats d) @ '']'' @ [newline] @ ''}'' @ [newline]"

definition fifty_one_text :: "fifty_one_stats \<Rightarrow> string" where
  "fifty_one_text f =
     ''{'' @ [newline] @ quote ''attackerBlocksInMainChain'' @ '':'' @ show_lu (fo_attackerBlocksInMainChain f) @ '','' @
     quote ''totalBlocksInMainChain'' @ '':'' @ show_lu (fo_totalBlocksInMainChain f) @ [newline] @ ''}'' @ [newline]"

definition selfish_text :: "string \<times> string \<times> string \<times> string \<times> string \<Rightarrow> selfish_stats \<Rightarrow> string" where
  "selfish_text = (\<lambda>(a, b, c, d, e) s.
     ''{'' @ [newline] @ quote a @ '':'' @ show_lu (attackerBlocksInMainChain s) @ '','' @ quote b @ '':'' @ show_lu (totalBlocksInMainChain s) @ '','' @
     quote c @ '':'' @ show_lu (totalBlocksMined s) @ '','' @ quote d @ '':'' @ show_lu (ownBlocksInMainChain s) @ '','' @
     quote e @ '':'' @ show_lu (switchesToSelfishChain s) @ [newline] @ ''}'' @ [newline])"

definition long_names :: "string \<times> string \<times> string \<times> string \<times> string" where
  "long_names = (''attackerBlocksInMainChain'', ''totalBlocksInMainChain'', ''totalBlocksMined'', ''ownBlocksInMainChain'', ''switchesToSelfishChain'')"

definition short_names :: "string \<times> string \<times> string \<times> string \<times> string" where
  "short_names = (''ABMC'', ''TBMC'', ''TBM'', ''OBIMC'', ''Sw'')"

text \<open>fopen gives no file when \<open>opened\<close> is false. None: the code writes no file at all.\<close>

definition dumpDetailedStats :: "(simtime \<Rightarrow> string) \<Rightarrow> bool \<Rightarrow> detailed_stats \<Rightarrow> string res" where
  "dumpDetailedStats lf opened d = bindR (guardR opened Abort) (\<lambda>_. Inr (detailed_text lf d))"

definition dumpFiftyOneStats :: "bool \<Rightarrow> fifty_one_stats \<Rightarrow> string res" where
  "dumpFiftyOneStats opened f = bindR (guardR opened Abort) (\<lambda>_. Inr (fifty_one_text f))"

definition dumpSelfishStatsVerbose :: "bool \<Rightarrow> selfish_stats \<Rightarrow> string res" where
  "dumpSelfishStatsVerbose opened s = bindR (guardR opened Abort) (\<lambda>_. Inr (selfish_text long_names s))"

definition dumpSelfishStats :: "bool \<Rightarrow> selfish_stats \<Rightarrow> string res" where
  "dumpSelfishStats opened s = bindR (guardR opened Abort) (\<lambda>_. Inr (selfish_text short_names s))"

definition dumpStats :: "(simtime \<Rightarrow> string) \<Rightarrow> env \<Rightarrow> bool \<Rightarrow> stats_state \<Rightarrow> string option res" where
  "dumpStats lf env opened st =
     (case statsType env of
        STATS_NONE \<Rightarrow> Inr None
      | STATS_DETAILED \<Rightarrow> bindR (dumpDetailedStats lf opened (detailedStats st)) (\<lambda>x. Inr (Some x))
      | STATS_FIFTY_ONE \<Rightarrow> bindR (dumpFiftyOneStats opened (fiftyOneStats st)) (\<lambda>x. Inr (Some x))
      | STATS_SELFISH \<Rightarrow> bindR (dumpSelfishStats opened (selfishStats st)) (\<lambda>x. Inr (Some x)))"

definition printDetailedStats :: "(simtime \<Rightarrow> string) \<Rightarrow> detailed_stats \<Rightarrow> string" where
  "printDetailedStats lf d = detailed_text lf d"

definition printFiftyOneStats :: "fifty_one_stats \<Rightarrow> string" where "printFiftyOneStats f = fifty_one_text f"

definition printSelfishStats :: "selfish_stats \<Rightarrow> string" where "printSelfishStats s = selfish_text long_names s"

definition printStats :: "(simtime \<Rightarrow> string) \<Rightarrow> env \<Rightarrow> stats_state \<Rightarrow> string" where
  "printStats lf env st =
     (case statsType env of
        STATS_NONE \<Rightarrow> []
      | STATS_DETAILED \<Rightarrow> printDetailedStats lf (detailedStats st)
      | STATS_FIFTY_ONE \<Rightarrow> printFiftyOneStats (fiftyOneStats st)
      | STATS_SELFISH \<Rightarrow> printSelfishStats (selfishStats st))"

subsection \<open>Text in a buffer\<close>

text \<open>snprintf into a buffer of n bytes, n positive: what is stored before the zero, and what it returns.\<close>

definition snprintf :: "nat \<Rightarrow> string \<Rightarrow> string \<times> nat" where
  "snprintf n s = (take (n - 1) s, length s)"

definition selfish_array :: "selfish_stats \<Rightarrow> string" where
  "selfish_array s = ''['' @ show_lu (attackerBlocksInMainChain s) @ '','' @ show_lu (totalBlocksInMainChain s) @ '','' @
     show_lu (totalBlocksMined s) @ '','' @ show_lu (ownBlocksInMainChain s) @ '','' @ show_lu (switchesToSelfishChain s) @ '']''"

definition sprintSelfishStatsHeader :: "nat \<Rightarrow> string \<times> nat" where
  "sprintSelfishStatsHeader buffer_size = (case long_names of (a, b, c, d, e) \<Rightarrow>
     snprintf buffer_size (''['' @ quote a @ '','' @ quote b @ '','' @ quote c @ '','' @ quote d @ '','' @ quote e @ '']''))"

definition sprintSelfishStats :: "selfish_stats \<Rightarrow> nat \<Rightarrow> (string \<times> nat) res" where
  "sprintSelfishStats s buffer_size =
     (let (buffer, written) = snprintf buffer_size (selfish_array s) in
      bindR (guardR (\<not> written > buffer_size) Abort) (\<lambda>_. Inr (buffer, written)))"

text \<open>
  sprintSelfishStats loses a character in one case. With a buffer longer than the text it stores the
  whole text and returns its length; with a shorter one it ends the program; but when the text is
  exactly as long as the buffer it returns its length as if all were well, and the closing bracket
  is missing.
\<close>

lemma sprintSelfishStats_exact:
  "sprintSelfishStats s n =
     (if length (selfish_array s) < n then Inr (selfish_array s, length (selfish_array s))
      else if length (selfish_array s) = n then Inr (butlast (selfish_array s), n)
      else Inl Abort)"
  by (simp add: sprintSelfishStats_def snprintf_def butlast_conv_take)

subsection \<open>Binary files\<close>

definition to_bytes :: "nat \<Rightarrow> 'a::len word \<Rightarrow> u8 list" where
  "to_bytes n w = map (\<lambda>i. ucast (drop_bit (8 * i) w)) [0..<n]"

fun from_bytes :: "u8 list \<Rightarrow> 'a::len word" where
  "from_bytes [] = 0"
| "from_bytes (b # bs) = ucast b OR push_bit 8 (from_bytes bs)"

text \<open>A record: the miner, the padding, the height, the bits of the time.\<close>

definition record_bytes :: "(simtime \<Rightarrow> u64) \<Rightarrow> u8 list \<Rightarrow> block_stat \<Rightarrow> u8 list" where
  "record_bytes bits pad r = to_bytes 4 (bs_miner r) @ pad @ to_bytes 8 (of_nat (bs_height r) :: u64) @ to_bytes 8 (bits (bs_time r))"

definition records_bytes :: "(simtime \<Rightarrow> u64) \<Rightarrow> u8 list \<Rightarrow> block_stat list \<Rightarrow> u8 list" where
  "records_bytes bits pad rs = to_bytes 8 (of_nat (length rs) :: u64) @ concat (map (record_bytes bits pad) rs)"

definition dumpDetailedStatsBinary :: "(simtime \<Rightarrow> u64) \<Rightarrow> u8 list \<Rightarrow> bool \<Rightarrow> detailed_stats \<Rightarrow> u8 list res" where
  "dumpDetailedStatsBinary bits pad opened d =
     bindR (guardR opened Abort) (\<lambda>_. Inr (records_bytes bits pad (blockStats d) @ records_bytes bits pad (minedBlockStats d)))"

definition dumpFiftyOneStatsBinary :: "bool \<Rightarrow> fifty_one_stats \<Rightarrow> u8 list res" where
  "dumpFiftyOneStatsBinary opened f = bindR (guardR opened Abort) (\<lambda>_.
     Inr (to_bytes 8 (fo_attackerBlocksInMainChain f) @ to_bytes 8 (fo_totalBlocksInMainChain f)))"

definition dumpSelfishStatsBinary :: "bool \<Rightarrow> selfish_stats \<Rightarrow> u8 list res" where
  "dumpSelfishStatsBinary opened s = bindR (guardR opened Abort) (\<lambda>_.
     Inr (to_bytes 8 (attackerBlocksInMainChain s) @ to_bytes 8 (totalBlocksInMainChain s) @ to_bytes 8 (totalBlocksMined s) @
          to_bytes 8 (ownBlocksInMainChain s) @ to_bytes 8 (switchesToSelfishChain s)))"

definition dumpStatsBinary :: "(simtime \<Rightarrow> u64) \<Rightarrow> u8 list \<Rightarrow> env \<Rightarrow> bool \<Rightarrow> stats_state \<Rightarrow> u8 list option res" where
  "dumpStatsBinary bits pad env opened st =
     (case statsType env of
        STATS_NONE \<Rightarrow> Inr None
      | STATS_DETAILED \<Rightarrow> bindR (dumpDetailedStatsBinary bits pad opened (detailedStats st)) (\<lambda>x. Inr (Some x))
      | STATS_FIFTY_ONE \<Rightarrow> bindR (dumpFiftyOneStatsBinary opened (fiftyOneStats st)) (\<lambda>x. Inr (Some x))
      | STATS_SELFISH \<Rightarrow> bindR (dumpSelfishStatsBinary opened (selfishStats st)) (\<lambda>x. Inr (Some x)))"

text \<open>A reader of such a file: the number of records, then the records of 24 bytes.\<close>

definition read_record :: "u8 list \<Rightarrow> node_id \<times> u64 \<times> u64" where
  "read_record bs = (from_bytes (take 4 bs), from_bytes (take 8 (drop 8 bs)), from_bytes (take 8 (drop 16 bs)))"

primrec read_many :: "nat \<Rightarrow> u8 list \<Rightarrow> (node_id \<times> u64 \<times> u64) list \<times> u8 list" where
  "read_many 0 bs = ([], bs)"
| "read_many (Suc n) bs = (let (rs, rest) = read_many n (drop BLOCK_STAT_SIZE bs) in (read_record bs # rs, rest))"

definition read_records :: "u8 list \<Rightarrow> (node_id \<times> u64 \<times> u64) list \<times> u8 list" where
  "read_records bs = read_many (unat (from_bytes (take 8 bs) :: u64)) (drop 8 bs)"

lemma length_to_bytes [simp]: "length (to_bytes n w) = n"
  by (simp add: to_bytes_def)

lemma to_bytes_Suc: "to_bytes (Suc n) w = ucast w # to_bytes n (drop_bit 8 w)"
  by (simp add: to_bytes_def upt_conv_Cons map_Suc_upt [symmetric] o_def drop_bit_drop_bit add.commute del: upt_Suc)

lemma from_to_bytes: "LENGTH('a) \<le> 8 * n \<Longrightarrow> from_bytes (to_bytes n w) = (w :: 'a::len word)"
proof -
  have "from_bytes (to_bytes n w) = (take_bit (8 * n) w :: 'a word)" for n
  proof (induction n arbitrary: w)
    case 0
    then show ?case by (simp add: to_bytes_def)
  next
    case (Suc n)
    have "ucast (ucast w :: u8) OR push_bit 8 (take_bit (8 * n) (drop_bit 8 w)) = (take_bit (8 * Suc n) w :: 'a word)"
      by (rule bit_word_eqI) (auto simp: bit_simps)
    with Suc show ?case by (simp add: to_bytes_Suc)
  qed
  moreover assume "LENGTH('a) \<le> 8 * n"
  ultimately show ?thesis by (simp add: take_bit_word_eq_self)
qed

lemma read_record_bytes:
  assumes "length pad = 4"
  shows "read_record (record_bytes bits pad r @ rest) = (bs_miner r, of_nat (bs_height r), bits (bs_time r))"
    "drop BLOCK_STAT_SIZE (record_bytes bits pad r @ rest) = rest"
  using assms by (simp_all add: read_record_def record_bytes_def from_to_bytes BLOCK_STAT_SIZE_def)

lemma read_records_bytes:
  assumes "length pad = 4" "length rs < 2 ^ 64"
  shows "read_records (records_bytes bits pad rs @ rest) = (map (\<lambda>r. (bs_miner r, of_nat (bs_height r), bits (bs_time r))) rs, rest)"
proof -
  have "read_many (length rs) (concat (map (record_bytes bits pad) rs) @ rest)
      = (map (\<lambda>r. (bs_miner r, of_nat (bs_height r), bits (bs_time r))) rs, rest)"
    by (induction rs) (simp_all add: read_record_bytes [OF assms(1)] del: drop_append)
  moreover have "unat (of_nat (length rs) :: u64) = length rs" using assms(2) by (simp add: unat_of_nat)
  ultimately show ?thesis by (simp add: read_records_def records_bytes_def from_to_bytes)
qed

text \<open>C40: The binary file of the detailed statistics can be read back. Whatever the padding, a reader that takes
  the number of records and then pieces of 24 bytes gets exactly the miners, heights and times of
  the received blocks, then those of the mined blocks, and nothing is left over.
\<close>

theorem detailed_dump_readable:
  assumes "length pad = 4" "records_ok (blockStats d) (blockStatsCapacity d)" "records_ok (minedBlockStats d) (minedBlockStatsCapacity d)"
  shows "\<exists>file rest. dumpDetailedStatsBinary bits pad True d = Inr file
    \<and> read_records file = (map (\<lambda>r. (bs_miner r, of_nat (bs_height r), bits (bs_time r))) (blockStats d), rest)
    \<and> read_records rest = (map (\<lambda>r. (bs_miner r, of_nat (bs_height r), bits (bs_time r))) (minedBlockStats d), [])"
proof -
  have small: "length xs < 2 ^ 64" if r: "records_ok xs c" for xs c
  proof -
    obtain k where k: "k \<le> 11" "length xs \<le> 2 ^ k" using r by (auto simp: records_ok_def)
    then have "length xs \<le> 2 ^ 11" using power_increasing [of k 11 "2::nat"] order_trans by fastforce
    then show ?thesis by simp
  qed
  note r = read_records_bytes [OF assms(1) small]
  show ?thesis using r [OF assms(2), of bits "records_bytes bits pad (minedBlockStats d)"] r [OF assms(3), of bits "[]"]
    by (simp add: dumpDetailedStatsBinary_def)
qed

theorem detailed_dump_readable_witness:
  "\<exists>file rest. dumpDetailedStatsBinary (\<lambda>_. 5) [1, 2, 3, 4] True (detailedStats example_stats) = Inr file
    \<and> read_records file = (replicate 2048 (1, 2, 5), rest) \<and> read_records rest = ([], [])"
proof -
  have "records_ok (blockStats (detailedStats example_stats)) (blockStatsCapacity (detailedStats example_stats))"
    unfolding records_ok_def by (rule conjI, simp add: example_stats_def) (rule exI [of _ 11], simp add: example_stats_def)
  moreover have "records_ok (minedBlockStats (detailedStats example_stats)) (minedBlockStatsCapacity (detailedStats example_stats))"
    unfolding records_ok_def by (rule conjI, simp add: example_stats_def) (rule exI [of _ 0], simp add: example_stats_def)
  ultimately show ?thesis using detailed_dump_readable [of "[1, 2, 3, 4]" "detailedStats example_stats" "\<lambda>_. 5"]
    by (simp add: example_stats_def)
qed

end
