(* ===== verification/SimStats.thy ===== *)
theory SimStats
  imports StatsFiles
begin

text \<open>
  The statistics of the simulation core (log/stats.c): the counters of a thread, the rows that each
  GVT appends to the temporary files, the messages by which the other nodes hand their files to the
  first one, and the file it writes. The reader of that file is the one of the repository,
  log/parse/rootsim_stats.py. Files are lists of bytes; a number is stored with its low byte first,
  as on the machines the program runs on; a double enters as its 64 bits. The timers and the size of
  the resident set are arguments.

  The results: a GVT appends exactly one row with the counts since the last one and clears them, and
  the reader gets back the rows of every thread and node up to the last GVT that all of them saw,
  whatever was counted, or refuses the file when the GVTs of the nodes differ.
\<close>

definition STATS_COUNT :: nat where "STATS_COUNT = 12"
definition STATS_REAL_TIME_GVT :: nat where "STATS_REAL_TIME_GVT = 11"
definition STATS_GLOBAL_COUNT :: nat where "STATS_GLOBAL_COUNT = 6"
definition STATS_GLOBAL_END :: nat where "STATS_GLOBAL_END = 4"
definition STATS_GLOBAL_HR_TOTAL :: nat where "STATS_GLOBAL_HR_TOTAL = 5"

definition stats_names :: "string list" where
  "stats_names = [''processed messages'', ''processed messages time'', ''rollbacks'', ''recovery time'',
     ''rolled back messages'', ''checkpoints'', ''checkpoints time'', ''checkpoints size'', ''silent messages'',
     ''silent messages time'', ''anti messages'', ''gvt real time'']"

record stats_global =
  threads_count :: u64
  lps_count :: u64
  max_rss :: u64
  timestamps :: "u64 list"

text \<open>The static variables of the file on one node; those of its threads by the id of the thread.\<close>

record sim_stats =
  stats_glob_cur :: stats_global
  stats_node_tmp :: "u8 list"
  stats_tmps :: "nat \<Rightarrow> u8 list"
  stats_cur :: "nat \<Rightarrow> u64 list"

subsection \<open>Counting\<close>

definition stats_global_time_take :: "nat \<Rightarrow> u64 \<Rightarrow> sim_stats \<Rightarrow> sim_stats" where
  "stats_global_time_take this_stat now s =
     s\<lparr>stats_glob_cur := (stats_glob_cur s)\<lparr>timestamps := (timestamps (stats_glob_cur s))[this_stat := now]\<rparr>\<rparr>"

definition stats_take :: "nat \<Rightarrow> nat \<Rightarrow> u64 \<Rightarrow> sim_stats \<Rightarrow> sim_stats" where
  "stats_take rid this_stat c s =
     s\<lparr>stats_cur := (stats_cur s)(rid := (stats_cur s rid)[this_stat := stats_cur s rid ! this_stat + c])\<rparr>"

definition stats_retrieve :: "nat \<Rightarrow> nat \<Rightarrow> sim_stats \<Rightarrow> u64" where
  "stats_retrieve rid this_stat s = stats_cur s rid ! this_stat"

text \<open>A C struct or array of 64 bit numbers in a file.\<close>

definition words_bytes :: "u64 list \<Rightarrow> u8 list" where
  "words_bytes ws = concat (map (to_bytes 8) ws)"

definition stats_on_gvt :: "bool \<Rightarrow> nat \<Rightarrow> u64 \<Rightarrow> u64 \<Rightarrow> u64 \<Rightarrow> sim_stats \<Rightarrow> sim_stats" where
  "stats_on_gvt stats_file rid now gvt rss s =
     (if \<not> stats_file then s
      else
        let row = (stats_cur s rid)[STATS_REAL_TIME_GVT := now];
            s = s\<lparr>stats_tmps := (stats_tmps s)(rid := stats_tmps s rid @ words_bytes row),
                  stats_cur := (stats_cur s)(rid := replicate STATS_COUNT 0)\<rparr> in
        if rid \<noteq> 0 then s else s\<lparr>stats_node_tmp := stats_node_tmp s @ words_bytes [gvt, rss]\<rparr>)"

subsection \<open>The final file\<close>

definition global_words :: "stats_global \<Rightarrow> u64 list" where
  "global_words g = threads_count g # lps_count g # max_rss g # timestamps g"

text \<open>What a node sets in its global statistics before it hands them over.\<close>

definition global_close :: "nat \<Rightarrow> u64 \<Rightarrow> u64 \<Rightarrow> u64 \<Rightarrow> u64 \<Rightarrow> stats_global \<Rightarrow> stats_global" where
  "global_close n n_lps rss now now_hr g =
     g\<lparr>threads_count := of_nat n, lps_count := n_lps, max_rss := rss,
       timestamps := (timestamps g)[STATS_GLOBAL_END := now, STATS_GLOBAL_HR_TOTAL := now_hr]\<rparr>"

text \<open>A file of another node, or of a thread, with its size in front.\<close>

definition sized :: "u8 list \<Rightarrow> u8 list" where
  "sized bs = to_bytes 8 (of_nat (length bs) :: u64) @ bs"

text \<open>The messages of stats_files_send; each carries at most INT_MAX bytes.\<close>

definition stats_files_send :: "nat \<Rightarrow> sim_stats \<Rightarrow> u8 list list" where
  "stats_files_send n s =
     words_bytes (global_words (stats_glob_cur s)) # map (take (2 ^ 31 - 1)) (stats_node_tmp s # map (stats_tmps s) [0..<n])"

text \<open>The messages of one node are taken in order: the number of threads says how many follow.\<close>

definition receive_node :: "u8 list list \<Rightarrow> u8 list" where
  "receive_node ms =
     (case ms of
        [] \<Rightarrow> []
      | sg # bufs \<Rightarrow> sg @ concat (map sized (take (unat (from_bytes (take 8 sg) :: u64) + 1) bufs)))"

definition stats_files_receive :: "u8 list list list \<Rightarrow> u8 list" where
  "stats_files_receive nodes = concat (map receive_node nodes)"

text \<open>A name with its length, at most 255, in front.\<close>

definition name_bytes :: "string \<Rightarrow> u8 list" where
  "name_bytes name = to_bytes 1 (of_nat (min (length name) 255) :: u8) @ map of_char (take 255 name)"

definition stats_file_final_write :: "nat \<Rightarrow> nat \<Rightarrow> sim_stats \<Rightarrow> u8 list" where
  "stats_file_final_write nodes n s =
     to_bytes 2 (61455 :: 16 word) @ to_bytes 8 (of_nat STATS_COUNT :: u64) @
     concat (map name_bytes stats_names) @
     to_bytes 8 (of_nat nodes :: u64) @
     words_bytes (global_words (stats_glob_cur s)) @ sized (stats_node_tmp s) @ concat (map (sized \<circ> stats_tmps s) [0..<n])"

text \<open>The file of a whole run: the first node's part, then what the others sent.\<close>

definition stats_file :: "(nat \<times> sim_stats) list \<Rightarrow> u8 list" where
  "stats_file nodes =
     (case nodes of
        [] \<Rightarrow> []
      | (n, s) # rest \<Rightarrow> stats_file_final_write (length nodes) n s @ stats_files_receive (map (\<lambda>(n, s). stats_files_send n s) rest))"

subsection \<open>The reader\<close>

text \<open>_pattern_unpack: n bytes in the order of the file. None stands for an exception.\<close>

definition unpack :: "bool \<Rightarrow> nat \<Rightarrow> u8 list \<Rightarrow> ('a::len word \<times> u8 list) option" where
  "unpack big n bs = (if n \<le> length bs then Some (from_bytes ((if big then rev else id) (take n bs)), drop n bs) else None)"

primrec unpack_many :: "nat \<Rightarrow> (u8 list \<Rightarrow> ('a \<times> u8 list) option) \<Rightarrow> u8 list \<Rightarrow> ('a list \<times> u8 list) option" where
  "unpack_many 0 p bs = Some ([], bs)"
| "unpack_many (Suc n) p bs =
     (case p bs of
        None \<Rightarrow> None
      | Some (x, bs) \<Rightarrow> (case unpack_many n p bs of None \<Rightarrow> None | Some (xs, bs) \<Rightarrow> Some (x # xs, bs)))"

text \<open>range of a signed 64 bit number: no turn for a negative one.\<close>

definition range_q :: "u64 \<Rightarrow> nat" where
  "range_q q = nat (sint q)"

text \<open>The bytes that decode as UTF-8; any others are an exception.\<close>

fun utf8 :: "u8 list \<Rightarrow> bool" where
  "utf8 [] \<longleftrightarrow> True"
| "utf8 (b # bs) \<longleftrightarrow>
     (let cont = (\<lambda>c. 128 \<le> c \<and> c < (192 :: u8)) in
      if b < 128 then utf8 bs
      else
        (case bs of
           [] \<Rightarrow> False
         | c # bs1 \<Rightarrow>
             if 194 \<le> b \<and> b < 224 then cont c \<and> utf8 bs1
             else
               (case bs1 of
                  [] \<Rightarrow> False
                | d # bs2 \<Rightarrow>
                    if 224 \<le> b \<and> b < 240
                    then cont c \<and> cont d \<and> (b = 224 \<longrightarrow> 160 \<le> c) \<and> (b = 237 \<longrightarrow> c < 160) \<and> utf8 bs2
                    else
                      (case bs2 of
                         [] \<Rightarrow> False
                       | e # bs3 \<Rightarrow>
                           240 \<le> b \<and> b < 245 \<and> cont c \<and> cont d \<and> cont e \<and> (b = 240 \<longrightarrow> 144 \<le> c) \<and>
                           (b = 244 \<longrightarrow> c < 144) \<and> utf8 bs3))))"

definition unpack_name :: "bool \<Rightarrow> u8 list \<Rightarrow> (u8 list \<times> u8 list) option" where
  "unpack_name big bs =
     (case unpack big 1 bs of
        None \<Rightarrow> None
      | Some (l :: u8, bs) \<Rightarrow>
          if unat l \<le> length bs \<and> utf8 (take (unat l) bs)
          then Some (rev (dropWhile (\<lambda>b. b = 0) (rev (take (unat l) bs))), drop (unat l) bs) else None)"

text \<open>A file of rows of m numbers; the size divided by zero is an exception.\<close>

definition unpack_rows :: "bool \<Rightarrow> nat \<Rightarrow> u8 list \<Rightarrow> (u64 list list \<times> u8 list) option" where
  "unpack_rows big m bs =
     (case unpack big 8 bs of
        None \<Rightarrow> None
      | Some (q :: u64, bs) \<Rightarrow>
          if m = 0 then None else unpack_many (range_q q div (m * 8)) (unpack_many m (unpack big 8)) bs)"

text \<open>
  What a node left: its global statistics, its rows (a GVT as the bits of a double, the size of the
  resident set), and the rows of its threads.
\<close>

type_synonym node_stats = "u64 list \<times> u64 list list \<times> u64 list list list"

definition unpack_node :: "bool \<Rightarrow> nat \<Rightarrow> u8 list \<Rightarrow> (node_stats \<times> u8 list) option" where
  "unpack_node big m bs =
     (case unpack_many 9 (unpack big 8) bs of
        None \<Rightarrow> None
      | Some (glob, bs) \<Rightarrow>
          (case unpack_rows big 2 bs of
             None \<Rightarrow> None
           | Some (node_stats, bs) \<Rightarrow>
               (case unpack_many (unat (glob ! 0)) (unpack_rows big m) bs of
                  None \<Rightarrow> None
                | Some (threads_stats, bs) \<Rightarrow> Some ((glob, node_stats, threads_stats), bs))))"

text \<open>_truncate_to_last_gvt: every node and thread is cut to the shortest of all.\<close>

definition truncate_to_last_gvt :: "node_stats list \<Rightarrow> node_stats list option" where
  "truncate_to_last_gvt all_stats =
     (case all_stats of
        [] \<Rightarrow> None
      | (_, node_stats0, _) # _ \<Rightarrow>
          let min_gvts = fold min (concat (map (\<lambda>(_, node_stats, threads_stats). length node_stats # map length threads_stats) all_stats))
                (length node_stats0) in
          Some (map (\<lambda>(glob, node_stats, threads_stats). (glob, take min_gvts node_stats, map (take min_gvts) threads_stats)) all_stats))"

text \<open>The comparison of two doubles by their bits: a NaN equals nothing, the two zeros are equal.\<close>

definition double_nan :: "u64 \<Rightarrow> bool" where
  "double_nan x \<longleftrightarrow> 9218868437227405312 < x AND 9223372036854775807"

definition double_eq :: "u64 \<Rightarrow> u64 \<Rightarrow> bool" where
  "double_eq x y \<longleftrightarrow> \<not> double_nan x \<and> \<not> double_nan y \<and> (x = y \<or> (x OR y) AND 9223372036854775807 = 0)"

text \<open>The GVTs: those of the first node, with which those of every other node are compared.\<close>

primrec node_gvts :: "u64 list list \<Rightarrow> nat \<Rightarrow> u64 list \<Rightarrow> u64 list option" where
  "node_gvts [] i gvts = Some gvts"
| "node_gvts (row # rows) i gvts =
     (if length gvts \<le> i then node_gvts rows (Suc i) (gvts @ [row ! 0])
      else if \<not> double_eq (gvts ! i) (row ! 0) then None
      else node_gvts rows (Suc i) gvts)"

text \<open>
  The loop over the nodes. A metric is looked up by its number in every row of a thread: a row is
  too short when two metrics have the same name.
\<close>

primrec nodes_gvts :: "nat \<Rightarrow> node_stats list \<Rightarrow> u64 list \<Rightarrow> u64 list option" where
  "nodes_gvts n_names [] gvts = Some gvts"
| "nodes_gvts n_names (node # nodes) gvts =
     (case node of (_, node_stats, threads_stats) \<Rightarrow>
        (case node_gvts node_stats 0 gvts of
           None \<Rightarrow> None
         | Some gvts \<Rightarrow>
             if list_all (list_all (\<lambda>tup. n_names \<le> length tup)) threads_stats then nodes_gvts n_names nodes gvts else None))"

text \<open>
  RSStats: the names of the metrics, the GVTs and what is kept of each node. The tables that the
  class derives from these are left out.
\<close>

definition RSStats :: "u8 list \<Rightarrow> (u8 list list \<times> u64 list \<times> node_stats list) option" where
  "RSStats bs =
     (case unpack True 2 bs of
        None \<Rightarrow> None
      | Some (magic_number :: 16 word, bs) \<Rightarrow>
          if magic_number \<noteq> 4080 \<and> magic_number \<noteq> 61455 then None
          else
            let big = (magic_number = 61455) in
            (case unpack big 8 bs of
               None \<Rightarrow> None
             | Some (n_stats :: u64, bs) \<Rightarrow>
                 (case unpack_many (range_q n_stats) (unpack_name big) bs of
                    None \<Rightarrow> None
                  | Some (names, bs) \<Rightarrow>
                      (case unpack big 8 bs of
                         None \<Rightarrow> None
                       | Some (nodes_count :: u64, bs) \<Rightarrow>
                           (case unpack_many (range_q nodes_count) (unpack_node big (length (remdups names))) bs of
                              None \<Rightarrow> None
                            | Some (all_stats, bs) \<Rightarrow>
                                if bs \<noteq> [] then None
                                else
                                  (case truncate_to_last_gvt all_stats of
                                     None \<Rightarrow> None
                                   | Some all_stats \<Rightarrow>
                                       (case nodes_gvts (length names) all_stats [] of
                                          None \<Rightarrow> None
                                        | Some gvts \<Rightarrow> Some (names, gvts, all_stats))))))))"

subsection \<open>What is written can be read\<close>

lemma unpack_to_bytes: "LENGTH('a) = 8 * n \<Longrightarrow> unpack False n (to_bytes n w @ rest) = Some (w :: 'a::len word, rest)"
  by (simp add: unpack_def from_to_bytes)

lemma unpack_u64 [simp]: "unpack False 8 (to_bytes 8 w @ rest) = Some (w :: u64, rest)"
  by (rule unpack_to_bytes) simp

lemma range_q_of_nat: "n < 2 ^ 63 \<Longrightarrow> range_q (of_nat n) = n"
  by (simp add: range_q_def signed_of_nat signed_take_bit_int_eq_self)

lemma unpack_many_concat:
  assumes "\<And>x rest. x \<in> set xs \<Longrightarrow> p (enc x @ rest) = Some (f x, rest)"
  shows "unpack_many (length xs) p (concat (map enc xs) @ rest) = Some (map f xs, rest)"
  using assms by (induction xs) auto

lemma unpack_words: "unpack_many (length ws) (unpack False 8) (words_bytes ws @ rest) = Some (ws, rest)"
  unfolding words_bytes_def using unpack_many_concat [of ws "unpack False 8" "to_bytes 8" id rest] by simp

lemma length_words_bytes: "length (words_bytes ws) = 8 * length ws"
  by (induction ws) (simp_all add: words_bytes_def)

text \<open>A temporary file: one row after the other, all of the same length.\<close>

definition rows_bytes :: "u64 list list \<Rightarrow> u8 list" where
  "rows_bytes rows = concat (map words_bytes rows)"

lemma length_rows_bytes: "\<forall>r\<in>set rows. length r = m \<Longrightarrow> length (rows_bytes rows) = length rows * (m * 8)"
  by (induction rows) (simp_all add: rows_bytes_def length_words_bytes)

lemma unpack_rows_sized:
  assumes "\<forall>r\<in>set rows. length r = m" "0 < m" "length (rows_bytes rows) < 2 ^ 31"
  shows "unpack_rows False m (sized (rows_bytes rows) @ rest) = Some (rows, rest)"
proof -
  have u: "range_q (of_nat (length (rows_bytes rows)) :: u64) = length rows * (m * 8)"
  proof -
    have "range_q (of_nat (length (rows_bytes rows)) :: u64) = length (rows_bytes rows)" using assms(3) by (simp add: range_q_of_nat)
    then show ?thesis unfolding length_rows_bytes [OF assms(1)] .
  qed
  have "unpack_many (length rows) (unpack_many m (unpack False 8)) (concat (map words_bytes rows) @ rest) = Some (map id rows, rest)"
    by (rule unpack_many_concat) (use assms(1) unpack_words in auto)
  then show ?thesis using assms(2) by (simp add: unpack_rows_def sized_def u rows_bytes_def [symmetric])
qed

text \<open>
  A node that can be read: its files hold rows, its global statistics are complete, and its files
  have fewer than 2 to the 31 bytes, as a message can carry.
\<close>

definition node_ok :: "nat \<Rightarrow> sim_stats \<Rightarrow> u64 list list \<Rightarrow> (nat \<Rightarrow> u64 list list) \<Rightarrow> bool" where
  "node_ok n s node_rows thread_rows \<longleftrightarrow>
     n < 2 ^ 32 \<and> threads_count (stats_glob_cur s) = of_nat n \<and> length (timestamps (stats_glob_cur s)) = STATS_GLOBAL_COUNT \<and>
     stats_node_tmp s = rows_bytes node_rows \<and> (\<forall>r\<in>set node_rows. length r = 2) \<and> length (stats_node_tmp s) < 2 ^ 31 \<and>
     (\<forall>i<n. stats_tmps s i = rows_bytes (thread_rows i) \<and> (\<forall>r\<in>set (thread_rows i). length r = STATS_COUNT) \<and>
        length (stats_tmps s i) < 2 ^ 31)"

definition node_bytes :: "nat \<Rightarrow> sim_stats \<Rightarrow> u8 list" where
  "node_bytes n s = words_bytes (global_words (stats_glob_cur s)) @ sized (stats_node_tmp s) @ concat (map (sized \<circ> stats_tmps s) [0..<n])"

lemma unpack_node_bytes:
  assumes "node_ok n s node_rows thread_rows"
  shows "unpack_node False STATS_COUNT (node_bytes n s @ rest)
    = Some ((global_words (stats_glob_cur s), node_rows, map thread_rows [0..<n]), rest)"
proof -
  let ?g = "global_words (stats_glob_cur s)"
  have g: "length ?g = 9" "?g ! 0 = of_nat n" using assms by (simp_all add: global_words_def node_ok_def STATS_GLOBAL_COUNT_def)
  have n: "unat (of_nat n :: u64) = n" using assms by (simp add: node_ok_def unat_of_nat)
  have a: "unpack_many 9 (unpack False 8) (words_bytes ?g @ r) = Some (?g, r)" for r
    using unpack_words [of ?g r] by (simp only: g(1))
  have b: "unpack_rows False 2 (sized (stats_node_tmp s) @ r) = Some (node_rows, r)" for r
    using assms unpack_rows_sized [of node_rows 2 r] unfolding node_ok_def by fastforce
  have "unpack_many (length [0..<n]) (unpack_rows False STATS_COUNT) (concat (map (sized \<circ> stats_tmps s) [0..<n]) @ rest)
      = Some (map thread_rows [0..<n], rest)"
  proof (rule unpack_many_concat)
    fix i r assume "i \<in> set [0..<n]"
    then have i: "stats_tmps s i = rows_bytes (thread_rows i)" "\<forall>r\<in>set (thread_rows i). length r = STATS_COUNT"
      "length (rows_bytes (thread_rows i)) < 2 ^ 31" using assms by (auto simp: node_ok_def)
    from unpack_rows_sized [OF i(2) _ i(3)]
    show "unpack_rows False STATS_COUNT ((sized \<circ> stats_tmps s) i @ r) = Some (thread_rows i, r)"
      by (simp add: i(1) STATS_COUNT_def)
  qed
  then show ?thesis by (simp add: unpack_node_def node_bytes_def a b g(2) n)
qed

lemma receive_send:
  assumes "node_ok n s node_rows thread_rows"
  shows "receive_node (stats_files_send n s) = node_bytes n s"
proof -
  have n: "unat (of_nat n :: u64) = n" using assms by (simp add: node_ok_def unat_of_nat)
  have "from_bytes (take 8 (words_bytes (global_words (stats_glob_cur s)))) = (of_nat n :: u64)"
    using assms by (simp add: words_bytes_def global_words_def node_ok_def from_to_bytes)
  moreover have "take (2 ^ 31 - 1) (stats_node_tmp s) = stats_node_tmp s"
    "map (take (2 ^ 31 - 1)) (map (stats_tmps s) [0..<n]) = map (stats_tmps s) [0..<n]"
    using assms by (auto simp: node_ok_def)
  ultimately show ?thesis
    by (simp add: receive_node_def stats_files_send_def node_bytes_def n o_def del: map_map diff_Suc_1)
      (simp add: o_def)
qed

lemma utf8_ascii: "list_all (\<lambda>b. b < 128) bs \<Longrightarrow> utf8 bs"
  by (induction bs) (simp_all add: Let_def)

lemma unpack_names:
  "unpack_many STATS_COUNT (unpack_name False)
     (concat (map name_bytes stats_names) @ rest)
   = Some (map (map of_char) stats_names, rest)"
proof -
  have c: "length stats_names = STATS_COUNT" by (simp add: stats_names_def STATS_COUNT_def)
  have "unpack_many (length stats_names) (unpack_name False)
     (concat (map name_bytes stats_names) @ rest)
     = Some (map (map of_char) stats_names, rest)"
  proof (rule unpack_many_concat)
    fix name rest assume "name \<in> set stats_names"
    then have "length name < 30" "dropWhile (\<lambda>b. b = 0) (rev (map of_char name)) = (rev (map of_char name) :: u8 list)"
      "utf8 (map of_char name)"
      by (auto simp: stats_names_def intro!: utf8_ascii)
    then show "unpack_name False (name_bytes name @ rest)
      = Some (map of_char name, rest)"
      by (simp add: unpack_name_def name_bytes_def unpack_to_bytes [unfolded One_nat_def] unat_of_nat)
  qed
  then show ?thesis by (simp only: c)
qed

lemma RSStats_stats_file:
  assumes "nodes \<noteq> []" "length nodes < 2 ^ 63"
    "\<forall>(n, s)\<in>set nodes. node_ok n s (node_rows s) (thread_rows s)"
  defines "names \<equiv> map (map of_char) stats_names :: u8 list list"
  shows "RSStats (stats_file nodes) =
    (case truncate_to_last_gvt (map (\<lambda>(n, s). (global_words (stats_glob_cur s), node_rows s, map (thread_rows s) [0..<n])) nodes) of
       None \<Rightarrow> None
     | Some a \<Rightarrow> (case nodes_gvts (length names) a [] of None \<Rightarrow> None | Some gvts \<Rightarrow> Some (names, gvts, a)))"
proof -
  obtain n s rest where nodes: "nodes = (n, s) # rest" using assms(1) by (cases nodes) auto
  have sent: "map (\<lambda>(n, s). receive_node (stats_files_send n s)) rest = map (\<lambda>(n, s). node_bytes n s) rest"
    using assms(3) receive_send by (auto simp: nodes split_beta)
  have body: "stats_file_final_write (length nodes) n s @ stats_files_receive (map (\<lambda>(n, s). stats_files_send n s) rest)
    = to_bytes 2 (61455 :: 16 word) @ to_bytes 8 (of_nat STATS_COUNT :: u64) @
      concat (map name_bytes stats_names) @
      to_bytes 8 (of_nat (length nodes) :: u64) @ concat (map (\<lambda>(n, s). node_bytes n s) nodes)"
  proof -
    have "stats_files_receive (map (\<lambda>(n, s). stats_files_send n s) rest) = concat (map (\<lambda>(n, s). node_bytes n s) rest)"
      unfolding stats_files_receive_def sent [symmetric] by (simp add: o_def split_beta prod.case_eq_if case_prod_unfold)
    then show ?thesis by (simp add: stats_file_final_write_def nodes node_bytes_def)
  qed
  have "unpack_many (length nodes) (unpack_node False STATS_COUNT) (concat (map (\<lambda>(n, s). node_bytes n s) nodes) @ [])
    = Some (map (\<lambda>(n, s). (global_words (stats_glob_cur s), node_rows s, map (thread_rows s) [0..<n])) nodes, [])"
    by (rule unpack_many_concat) (use assms(3) unpack_node_bytes in fastforce)
  moreover have "unpack True 2 (to_bytes 2 (61455 :: 16 word) @ r) = Some (4080 :: 16 word, r)" for r
    by (simp add: unpack_def to_bytes_def upt_conv_Cons)
  moreover have "length (remdups (map (map of_char) stats_names :: u8 list list)) = STATS_COUNT"
    by (simp add: stats_names_def STATS_COUNT_def)
  moreover have "range_q (of_nat (length nodes)) = length nodes" "range_q (of_nat STATS_COUNT) = STATS_COUNT"
    using assms(2) by (intro range_q_of_nat; simp add: STATS_COUNT_def)+
  ultimately show ?thesis
    unfolding stats_file_def nodes list.case prod.case unfolding nodes [symmetric] body
    unfolding names_def by (simp add: RSStats_def unpack_names)
qed

text \<open>The rows that every node and every thread has, and the GVTs that all nodes must agree on.\<close>

definition common_gvts :: "(sim_stats \<Rightarrow> u64 list list) \<Rightarrow> (sim_stats \<Rightarrow> nat \<Rightarrow> u64 list list) \<Rightarrow> (nat \<times> sim_stats) list \<Rightarrow> nat" where
  "common_gvts node_rows thread_rows nodes =
     Min (\<Union>(n, s)\<in>set nodes. insert (length (node_rows s)) ((\<lambda>i. length (thread_rows s i)) ` {..<n}))"

definition same_gvts :: "u64 list list \<Rightarrow> u64 list list \<Rightarrow> bool" where
  "same_gvts rows rows' \<longleftrightarrow> list_all2 (\<lambda>r r'. double_eq (r ! 0) (r' ! 0)) rows rows'"

lemma truncate_to_last_gvt_rows:
  assumes "nodes \<noteq> []"
  shows "truncate_to_last_gvt (map (\<lambda>(n, s). (g s, node_rows s, map (thread_rows s) [0..<n])) nodes) =
    (let m = common_gvts node_rows thread_rows nodes in
     Some (map (\<lambda>(n, s). (g s, take m (node_rows s), map (take m \<circ> thread_rows s) [0..<n])) nodes))"
proof -
  obtain n s rest where nodes: "nodes = (n, s) # rest" using assms by (cases nodes) auto
  let ?ls = "concat (map (\<lambda>(n, s). length (node_rows s) # map (\<lambda>i. length (thread_rows s i)) [0..<n]) nodes)"
  have c: "concat (map ((\<lambda>(_, ns, ts). length ns # map length ts) \<circ> (\<lambda>(n, s). (g s, node_rows s, map (thread_rows s) [0..<n]))) nodes) = ?ls"
    by (simp add: o_def case_prod_unfold)
  have "fold min ?ls (length (node_rows s)) = Min (set (length (node_rows s) # ?ls))" by (simp only: Min.set_eq_fold)
  also have "set (length (node_rows s) # ?ls) = (\<Union>(n, s)\<in>set nodes. insert (length (node_rows s)) ((\<lambda>i. length (thread_rows s i)) ` {..<n}))"
    by (auto simp: nodes lessThan_atLeast0)
  finally have "fold min ?ls (length (node_rows s)) = common_gvts node_rows thread_rows nodes" by (simp add: common_gvts_def)
  with c show ?thesis
    unfolding truncate_to_last_gvt_def by (simp add: nodes Let_def o_def case_prod_unfold)
qed

lemma node_gvts_first: "node_gvts rows (length gvts) gvts = Some (gvts @ map (\<lambda>r. r ! 0) rows)"
proof (induction rows arbitrary: gvts)
  case (Cons row rows)
  from Cons.IH [of "gvts @ [row ! 0]"] show ?case by simp
qed simp

lemma node_gvts_same:
  "i + length rows = length gvts \<Longrightarrow>
   node_gvts rows i gvts = (if list_all2 (\<lambda>g r. double_eq g (r ! 0)) (drop i gvts) rows then Some gvts else None)"
proof (induction rows arbitrary: i)
  case (Cons row rows)
  then have "drop i gvts = gvts ! i # drop (Suc i) gvts" by (intro Cons_nth_drop_Suc [symmetric]) simp
  then show ?case using Cons.IH [of "Suc i"] Cons.prems by simp
qed simp

lemma nodes_gvts_same:
  assumes "\<forall>(g, rows, ts)\<in>set nodes. length rows = length gvts \<and> list_all (list_all (\<lambda>r. k \<le> length r)) ts"
  shows "nodes_gvts k nodes gvts =
    (if \<forall>(g, rows, ts)\<in>set nodes. list_all2 (\<lambda>g r. double_eq g (r ! 0)) gvts rows then Some gvts else None)"
  using assms by (induction nodes) (auto simp: node_gvts_same split: option.splits)

text \<open>C23: What the reader of the repository makes of the file of the statistics. For any number of nodes and
  threads whose files hold whatever rows were counted, each file smaller than a message can carry,
  let m be the number of rows that all of them have, nodes and threads alike. When the first m GVTs
  that each other node wrote equal those of the first node, as doubles, the reader accepts the file
  that the first node writes with what the others send, and gives back the twelve names, the m GVTs
  and, for every node, its global statistics and the first m rows of the node and of each of its
  threads, in order. Otherwise it raises an exception.
\<close>

theorem stats_file_readable:
  assumes "nodes \<noteq> []" "length nodes < 2 ^ 63"
    "\<forall>(n, s)\<in>set nodes. node_ok n s (node_rows s) (thread_rows s)"
  defines "m \<equiv> common_gvts node_rows thread_rows nodes"
  defines "first \<equiv> take m (node_rows (snd (hd nodes)))"
  shows "RSStats (stats_file nodes) =
    (if \<forall>(n, s)\<in>set (tl nodes). same_gvts first (take m (node_rows s))
     then Some (map (map of_char) stats_names, map (\<lambda>r. r ! 0) first,
       map (\<lambda>(n, s). (global_words (stats_glob_cur s), take m (node_rows s), map (take m \<circ> thread_rows s) [0..<n])) nodes)
     else None)"
proof -
  obtain n s rest where nodes: "nodes = (n, s) # rest" using assms(1) by (cases nodes) auto
  let ?all = "map (\<lambda>(n, s). (global_words (stats_glob_cur s), node_rows s, map (thread_rows s) [0..<n])) nodes"
  let ?cut = "map (\<lambda>(n, s). (global_words (stats_glob_cur s), take m (node_rows s), map (take m \<circ> thread_rows s) [0..<n]))"
  let ?names = "map (map of_char) stats_names :: u8 list list"
  have all: "RSStats (stats_file nodes) = (case truncate_to_last_gvt ?all of
      None \<Rightarrow> None
    | Some a \<Rightarrow> (case nodes_gvts (length ?names) a [] of None \<Rightarrow> None | Some gvts \<Rightarrow> Some (?names, gvts, a)))"
    by (rule RSStats_stats_file [OF assms(1-3)])
  have cut: "truncate_to_last_gvt ?all = Some (?cut nodes)"
    unfolding m_def truncate_to_last_gvt_rows [OF assms(1)] Let_def ..
  have le: "m \<le> length (node_rows s')" "\<forall>i<n'. m \<le> length (thread_rows s' i)" if "(n', s') \<in> set nodes" for n' s'
    using that unfolding m_def common_gvts_def by (force intro!: Min_le)+
  have len: "length (take m (node_rows s')) = m" "\<forall>r\<in>set ts. \<forall>tup\<in>set r. STATS_COUNT \<le> length tup"
    if "(n', s') \<in> set nodes" "ts = map (take m \<circ> thread_rows s') [0..<n']" for n' s' ts
    using le [OF that(1)] assms(3) that by (auto simp: node_ok_def dest!: in_set_takeD)
  have first: "first = take m (node_rows s)" "length first = m" using len(1) [of n s] by (simp_all add: first_def nodes)
  have k: "length ?names = STATS_COUNT" by (simp add: stats_names_def STATS_COUNT_def)
  have "nodes_gvts STATS_COUNT (?cut nodes) [] = nodes_gvts STATS_COUNT (?cut rest) (map (\<lambda>r. r ! 0) first)"
    using len(2) [of n s] using node_gvts_first [of first "[]"] by (simp add: nodes first(1) [symmetric] list_all_iff)
  also have "\<dots> = (if \<forall>(g, rows, ts)\<in>set (?cut rest). list_all2 (\<lambda>g r. double_eq g (r ! 0)) (map (\<lambda>r. r ! 0) first) rows
      then Some (map (\<lambda>r. r ! 0) first) else None)"
  proof (rule nodes_gvts_same)
    show "\<forall>(g, rows, ts)\<in>set (?cut rest). length rows = length (map (\<lambda>r. r ! 0) first) \<and> list_all (list_all (\<lambda>r. STATS_COUNT \<le> length r)) ts"
      using len first(2) by (fastforce simp: nodes list_all_iff)
  qed
  finally have "nodes_gvts STATS_COUNT (?cut nodes) [] =
      (if \<forall>(n, s)\<in>set rest. same_gvts first (take m (node_rows s)) then Some (map (\<lambda>r. r ! 0) first) else None)"
    by (simp add: same_gvts_def list_all2_map1 case_prod_unfold)
  then show ?thesis unfolding all cut k by (simp add: nodes)
qed

text \<open>A GVT appends one row to the file of the thread, with what was counted since the last one.\<close>

lemma stats_on_gvt_row:
  fixes now :: u64
  assumes "stats_tmps s rid = rows_bytes rows" "length (stats_cur s rid) = STATS_COUNT" "\<forall>r\<in>set rows. length r = STATS_COUNT"
  defines "row \<equiv> (stats_cur s rid)[STATS_REAL_TIME_GVT := now]"
  shows "stats_tmps (stats_on_gvt True rid now gvt rss s) rid = rows_bytes (rows @ [row])"
    "\<forall>r\<in>set (rows @ [row]). length r = STATS_COUNT"
    "stats_cur (stats_on_gvt True rid now gvt rss s) rid = replicate STATS_COUNT 0"
    "i \<noteq> rid \<Longrightarrow> stats_tmps (stats_on_gvt True rid now gvt rss s) i = stats_tmps s i"
  using assms(1-3) by (auto simp: stats_on_gvt_def row_def rows_bytes_def Let_def)

lemma stats_on_gvt_node_row:
  "stats_node_tmp s = rows_bytes rows \<Longrightarrow>
   stats_node_tmp (stats_on_gvt True rid now gvt rss s) = rows_bytes (if rid = 0 then rows @ [[gvt, rss]] else rows)"
  by (simp add: stats_on_gvt_def rows_bytes_def Let_def)

text \<open>
  A run of two nodes of one thread: the first counts five messages and sees two GVTs, the second
  only the first of them; a third one saw another GVT.
\<close>

definition example_sim_stats :: sim_stats where
  "example_sim_stats = \<lparr>stats_glob_cur = global_close 1 1 0 9 9 \<lparr>threads_count = 0, lps_count = 0, max_rss = 0, timestamps = replicate 6 0\<rparr>,
     stats_node_tmp = [], stats_tmps = \<lambda>_. [], stats_cur = \<lambda>_. replicate STATS_COUNT 0\<rparr>"

definition example_counted :: sim_stats where
  "example_counted = stats_on_gvt True 0 8 3 200 (stats_on_gvt True 0 7 2 100 (stats_take 0 0 5 example_sim_stats))"

definition example_one_gvt :: "u64 \<Rightarrow> sim_stats" where
  "example_one_gvt gvt = stats_on_gvt True 0 9 gvt 50 example_sim_stats"

lemma example_counted_parts:
  "stats_node_tmp example_counted = rows_bytes [[2, 100], [3, 200]]"
  "stats_tmps example_counted 0 = rows_bytes [[5, 0, 0, 0, 0, 0, 0, 0, 0, 0, 0, 7], [0, 0, 0, 0, 0, 0, 0, 0, 0, 0, 0, 8]]"
  "stats_glob_cur example_counted = stats_glob_cur example_sim_stats"
  by (simp_all add: example_counted_def stats_on_gvt_def stats_take_def example_sim_stats_def rows_bytes_def Let_def
      STATS_COUNT_def STATS_REAL_TIME_GVT_def eval_nat_numeral)

lemma example_one_gvt_parts:
  "stats_node_tmp (example_one_gvt gvt) = rows_bytes [[gvt, 50]]"
  "stats_tmps (example_one_gvt gvt) 0 = rows_bytes [[0, 0, 0, 0, 0, 0, 0, 0, 0, 0, 0, 9]]"
  "stats_glob_cur (example_one_gvt gvt) = stats_glob_cur example_sim_stats"
  by (simp_all add: example_one_gvt_def stats_on_gvt_def example_sim_stats_def rows_bytes_def Let_def
      STATS_COUNT_def STATS_REAL_TIME_GVT_def eval_nat_numeral)

text \<open>What is read of the first two nodes is cut to one row; with the third node the file is refused.\<close>

theorem stats_file_readable_witness:
  "RSStats (stats_file [(1, example_counted), (1, example_one_gvt 2)]) = Some (map (map of_char) stats_names, [2],
     [([1, 1, 0, 0, 0, 0, 0, 9, 9], [[2, 100]], [[[5, 0, 0, 0, 0, 0, 0, 0, 0, 0, 0, 7]]]),
      ([1, 1, 0, 0, 0, 0, 0, 9, 9], [[2, 50]], [[[0, 0, 0, 0, 0, 0, 0, 0, 0, 0, 0, 9]]])])
   \<and> RSStats (stats_file [(1, example_counted), (1, example_one_gvt 4)]) = None"
proof -
  let ?nr = "\<lambda>s. if s = example_counted then [[2, 100], [3, 200]] else if s = example_one_gvt 2 then [[2, 50]] else [[4, 50]] :: u64 list list"
  let ?tr = "\<lambda>s (i::nat). if s = example_counted
    then [[5, 0, 0, 0, 0, 0, 0, 0, 0, 0, 0, 7], [0, 0, 0, 0, 0, 0, 0, 0, 0, 0, 0, 8]]
    else [[0, 0, 0, 0, 0, 0, 0, 0, 0, 0, 0, 9]] :: u64 list list"
  have "length (stats_node_tmp (example_one_gvt gvt)) \<noteq> length (stats_node_tmp example_counted)" for gvt
    by (simp add: example_counted_parts example_one_gvt_parts length_rows_bytes [where m = 2])
  then have d: "example_one_gvt gvt \<noteq> example_counted" for gvt by metis
  have "stats_node_tmp (example_one_gvt 4) ! 0 = 4" "stats_node_tmp (example_one_gvt 2) ! 0 = 2"
    by (simp_all add: example_one_gvt_parts rows_bytes_def words_bytes_def to_bytes_def upt_conv_Cons)
  then have e: "example_one_gvt 4 \<noteq> example_one_gvt 2" by auto
  have g: "global_words (stats_glob_cur example_sim_stats) = [1, 1, 0, 0, 0, 0, 0, 9, 9]"
    by (simp add: example_sim_stats_def global_words_def global_close_def STATS_GLOBAL_END_def STATS_GLOBAL_HR_TOTAL_def eval_nat_numeral)
  have t: "threads_count (stats_glob_cur example_sim_stats) = of_nat 1" "length (timestamps (stats_glob_cur example_sim_stats)) = STATS_GLOBAL_COUNT"
    by (simp_all add: example_sim_stats_def global_close_def STATS_GLOBAL_COUNT_def)
  have ok: "node_ok 1 example_counted (?nr example_counted) (?tr example_counted)"
    "node_ok 1 (example_one_gvt 2) (?nr (example_one_gvt 2)) (?tr (example_one_gvt 2))"
    "node_ok 1 (example_one_gvt 4) (?nr (example_one_gvt 4)) (?tr (example_one_gvt 4))"
    using t d e
    by (simp_all add: node_ok_def example_counted_parts example_one_gvt_parts STATS_COUNT_def length_rows_bytes [where m = 2] length_rows_bytes [where m = 12])
  have m: "common_gvts ?nr ?tr [(1, example_counted), (1, example_one_gvt gvt)] = 1" for gvt
    using d by (simp add: common_gvts_def lessThan_Suc)
  have run: "RSStats (stats_file [(1, example_counted), (1, example_one_gvt gvt)]) =
    (if same_gvts [[2, 100]] (take 1 (?nr (example_one_gvt gvt)))
     then Some (map (map of_char) stats_names, [2],
       [(global_words (stats_glob_cur example_counted), [[2, 100]], [[[5, 0, 0, 0, 0, 0, 0, 0, 0, 0, 0, 7]]]),
        (global_words (stats_glob_cur (example_one_gvt gvt)), take 1 (?nr (example_one_gvt gvt)), [take 1 (?tr (example_one_gvt gvt) 0)])])
     else None)" if "node_ok 1 (example_one_gvt gvt) (?nr (example_one_gvt gvt)) (?tr (example_one_gvt gvt))" for gvt
  proof -
    have all: "\<forall>(n, s)\<in>set [(1, example_counted), (1, example_one_gvt gvt)]. node_ok n s (?nr s) (?tr s)"
      using ok(1) that by (simp only: list.set ball_simps prod.case simp_thms)
    have "take 1 (?nr example_counted) = [[2, 100]]"
      "map (take 1 \<circ> ?tr example_counted) [0..<1] = [[[5, 0, 0, 0, 0, 0, 0, 0, 0, 0, 0, 7]]]"
      "map (take 1 \<circ> ?tr (example_one_gvt gvt)) [0..<1] = [take 1 (?tr (example_one_gvt gvt) 0)]" by simp_all
    note parts = this
    from stats_file_readable [OF _ _ all] show ?thesis
      by (simp only: m parts list.sel list.set ball_simps prod.case snd_conv list.map nth_Cons_0 simp_thms list.distinct) simp
  qed
  show ?thesis
    using run [OF ok(2)] run [OF ok(3)] d e
    by (simp add: same_gvts_def double_eq_def double_nan_def example_counted_parts example_one_gvt_parts g)
qed

end
