(* ===== verification/Process.thy ===== *)
theory Process
  imports Worker
begin

text \<open>
  The Time Warp engine (lp/process.c, gvt/fossil.c): processing a message, scheduling new ones,
  checkpoints, and the rollback that a message from the past or an anti-message causes. Timers
  and the counts of the statistics are left out.

  A loop that walks over p_msgs reads an element outside it only when the structure is broken;
  that is the fault \<open>OutOfBounds\<close>.
\<close>

definition ScheduleNewEvent ::
    "'s config \<Rightarrow> placement \<Rightarrow> nat \<Rightarrow> nat \<Rightarrow> simtime \<Rightarrow> u32 \<Rightarrow> u8 list \<Rightarrow> 's worker \<Rightarrow> 's worker res" where
  "ScheduleNewEvent c pl current_lp receiver timestamp event_type payload w =
     (if silent_processing w then Inr w
      else
        let (msg, al) = msg_allocator_pack receiver timestamp event_type payload (w_alloc w);
            w = w\<lparr>w_alloc := al\<rparr>;
            w = (if debug c then alloc_upd (msg_upd msg (\<lambda>m. m\<lparr>m_flags := 0\<rparr>)) w else w)
        in bindR (guardR (\<not> (debug c \<and> msg_is_before (w_msg w msg) (w_msg w (current_msg w)))) Abort) (\<lambda>_.
          let dest_nid = lid_to_nid (n_nodes pl) (of_nat (lps c)) (of_nat receiver) in
          if dest_nid \<noteq> nid pl then
            Inr (lp_upd current_lp (\<lambda>x. x\<lparr>p_msgs := p_msgs x @ [SentRemote msg]\<rparr>) (mpi_remote_msg_send pl msg dest_nid w))
          else
            Inr (lp_upd current_lp (\<lambda>x. x\<lparr>p_msgs := p_msgs x @ [SentLocal msg]\<rparr>)
              (queue_insert pl msg (alloc_upd (msg_upd msg (\<lambda>m. m\<lparr>m_flags := 0\<rparr>)) w)))))"

fun lp_call :: "'s config \<Rightarrow> placement \<Rightarrow> nat \<Rightarrow> call \<Rightarrow> 's worker \<Rightarrow> 's worker res" where
  "lp_call c pl lp (Schedule r t ty pld) w = ScheduleNewEvent c pl lp r t ty pld w"
| "lp_call c pl lp (Retract t) w = Inr (w\<lparr>w_retractable := ScheduleRetractableEvent lp t (w_retractable w)\<rparr>)"

text \<open>The call of the dispatcher in common_msg_process and in silent_execution.\<close>

definition dispatch :: "'s config \<Rightarrow> placement \<Rightarrow> nat \<Rightarrow> nat \<Rightarrow> 's worker \<Rightarrow> 's worker res" where
  "dispatch c pl lp msg w =
     (let m = w_msg w msg;
          (st, calls) = dispatcher c (m_dest m) (m_dest_t m) (m_type m) (m_pl m) (lp_state (w_lps w lp))
      in foldR (lp_call c pl lp) calls (lp_upd lp (\<lambda>x. x\<lparr>lp_state := st\<rparr>) w))"

definition checkpoint_take :: "nat \<Rightarrow> 's worker \<Rightarrow> 's worker" where
  "checkpoint_take lp w = model_allocator_checkpoint_take lp (length (p_msgs (w_lps w lp))) w"

definition process_lp_init :: "'s config \<Rightarrow> placement \<Rightarrow> nat \<Rightarrow> 's worker \<Rightarrow> 's worker res" where
  "process_lp_init c pl lp w =
     (let w = lp_upd lp (\<lambda>x. x\<lparr>p_msgs := [], early_antis := []\<rparr>) w;
          (msg, al) = msg_allocator_pack lp 0 LP_INIT [] (w_alloc w);
          w = alloc_upd (msg_upd msg (\<lambda>m. m\<lparr>m_flags := MSG_FLAG_PROCESSED\<rparr>)) (w\<lparr>w_alloc := al, current_msg := msg\<rparr>)
      in bindR (dispatch c pl lp msg w) (\<lambda>w.
         let w = lp_upd lp (\<lambda>x. x\<lparr>bound := 0\<rparr>) w in
         bindR (retractable_reschedule lp (w_retractable w)) (\<lambda>r.
         Inr (checkpoint_take lp (lp_upd lp (\<lambda>x. x\<lparr>p_msgs := p_msgs x @ [Past msg]\<rparr>) (w\<lparr>w_retractable := r\<rparr>))))))"

definition process_lp_fini :: "'s config \<Rightarrow> placement \<Rightarrow> nat \<Rightarrow> 's worker \<Rightarrow> 's worker res" where
  "process_lp_fini c pl lp w =
     (let (st, calls) = dispatcher c lp 0 LP_FINI [] (lp_state (w_lps w lp)) in
      bindR (foldR (lp_call c pl lp) calls (lp_upd lp (\<lambda>x. x\<lparr>lp_state := st\<rparr>) w)) (\<lambda>w.
        Inr (lp_upd lp (\<lambda>x. x\<lparr>p_msgs := []\<rparr>) (fold (\<lambda>e w.
          if is_msg_local_sent e then w
          else if is_msg_remote e \<or> m_flags (w_msg w (unmark_msg e)) AND MSG_FLAG_ANTI = 0
            then alloc_upd (msg_allocator_free (unmark_msg e)) w
          else w) (p_msgs (w_lps w lp)) w))))"

subsection \<open>Rollback\<close>

text \<open>
  The two loops of silent_execution: over the marked entries, and while past_i is not reached.
  The entries p are fixed, for nothing is added to them in silent mode.
\<close>

function silent_loop ::
    "'s config \<Rightarrow> placement \<Rightarrow> nat \<Rightarrow> entry list \<Rightarrow> nat \<Rightarrow> nat \<Rightarrow> 's worker \<Rightarrow> (nat \<times> 's worker) res" where
  "silent_loop c pl lp p last_i past_i w =
     (if last_i < length p then
        (case p ! last_i of
           Past msg \<Rightarrow> bindR (dispatch c pl lp msg w) (\<lambda>w.
             if Suc last_i < past_i then silent_loop c pl lp p (Suc last_i) past_i w else Inr (msg, w))
         | _ \<Rightarrow> silent_loop c pl lp p (Suc last_i) past_i w)
      else Inl OutOfBounds)"
  by pat_completeness auto
termination
  by (relation "measure (\<lambda>(_, _, _, p, last_i, _, _). length p - last_i)") auto

declare silent_loop.simps [simp del]

definition silent_execution :: "'s config \<Rightarrow> placement \<Rightarrow> nat \<Rightarrow> nat \<Rightarrow> nat \<Rightarrow> 's worker \<Rightarrow> 's worker res" where
  "silent_execution c pl lp last_i past_i w =
     (if last_i \<ge> past_i then Inr w
      else bindR (silent_loop c pl lp (p_msgs (w_lps w lp)) last_i past_i (w\<lparr>silent_processing := True\<rparr>)) (\<lambda>(msg, w).
        Inr (w\<lparr>w_retractable := retractable_post_silent lp (m_dest_t (w_msg w msg)) (w_retractable w), silent_processing := False\<rparr>)))"

text \<open>One entry of the loop of send_anti_messages; it reads the next one after a marked entry.\<close>

definition undo_sent :: "'s config \<Rightarrow> placement \<Rightarrow> entry \<Rightarrow> 's worker \<Rightarrow> 's worker" where
  "undo_sent c pl e w =
     (if is_msg_remote e then
        let msg = unmark_msg e; dest_nid = lid_to_nid (n_nodes pl) (of_nat (lps c)) (of_nat (m_dest (w_msg w msg))) in
        alloc_upd (msg_allocator_free_at_gvt msg) (mpi_remote_anti_msg_send msg dest_nid w)
      else
        let msg = unmark_msg e; (f, w) = fetch_add_flags msg MSG_FLAG_ANTI w in
        if f AND MSG_FLAG_PROCESSED \<noteq> 0 then queue_insert pl msg w else w)"

definition undo_past :: "placement \<Rightarrow> nat \<Rightarrow> 's worker \<Rightarrow> 's worker" where
  "undo_past pl msg w =
     (let (f, w) = fetch_add_flags msg (- MSG_FLAG_PROCESSED) w in
      if f AND MSG_FLAG_ANTI = 0 then
        (if m_type (w_msg w msg) = LP_RETRACTABLE then alloc_upd (msg_allocator_free msg) w else queue_insert pl msg w)
      else w)"

fun anti_loop :: "'s config \<Rightarrow> placement \<Rightarrow> entry list \<Rightarrow> 's worker \<Rightarrow> 's worker res" where
  "anti_loop c pl [] w = Inr w"
| "anti_loop c pl (e # es) w =
     (case e of
        Past msg \<Rightarrow> anti_loop c pl es (undo_past pl msg w)
      | _ \<Rightarrow> if es = [] then Inl OutOfBounds else anti_loop c pl es (undo_sent c pl e w))"

definition send_anti_messages :: "'s config \<Rightarrow> placement \<Rightarrow> nat \<Rightarrow> nat \<Rightarrow> 's worker \<Rightarrow> 's worker res" where
  "send_anti_messages c pl lp past_i w =
     bindR (anti_loop c pl (drop past_i (p_msgs (w_lps w lp))) w) (\<lambda>w.
       Inr (lp_upd lp (\<lambda>x. x\<lparr>p_msgs := take past_i (p_msgs x)\<rparr>) w))"

definition do_rollback :: "'s config \<Rightarrow> placement \<Rightarrow> nat \<Rightarrow> nat \<Rightarrow> 's worker \<Rightarrow> 's worker res" where
  "do_rollback c pl lp past_i w =
     bindR (send_anti_messages c pl lp past_i w) (\<lambda>w.
     bindR (model_allocator_checkpoint_restore lp past_i w) (\<lambda>(last_i, w).
       silent_execution c pl lp last_i past_i w))"

subsection \<open>Where to roll back to\<close>

text \<open>The loop of match_straggler_msg, from index i on downwards.\<close>

fun straggler_loop :: "lp_msg \<Rightarrow> (nat \<Rightarrow> lp_msg) \<Rightarrow> entry list \<Rightarrow> nat \<Rightarrow> nat" where
  "straggler_loop s_msg msg p 0 = 0"
| "straggler_loop s_msg msg p (Suc i) =
     (case p ! i of
        Past a \<Rightarrow> if msg_is_before s_msg (msg a) then straggler_loop s_msg msg p i else Suc i
      | _ \<Rightarrow> straggler_loop s_msg msg p i)"

definition match_straggler_msg :: "nat \<Rightarrow> nat \<Rightarrow> 's worker \<Rightarrow> nat res" where
  "match_straggler_msg lp s_msg w =
     (let p = p_msgs (w_lps w lp) in
      bindR (guardR (p \<noteq> []) OutOfBounds) (\<lambda>_. Inr (straggler_loop (w_msg w s_msg) (w_msg w) p (length p - 1))))"

text \<open>One after the last processed message before index i.\<close>

fun prev_past :: "entry list \<Rightarrow> nat \<Rightarrow> nat" where
  "prev_past p 0 = 0"
| "prev_past p (Suc i) = (if is_msg_past (p ! i) then Suc i else prev_past p i)"

fun find_entry :: "(entry \<Rightarrow> bool) \<Rightarrow> entry list \<Rightarrow> nat \<Rightarrow> nat option" where
  "find_entry P p 0 = None"
| "find_entry P p (Suc i) = (if P (p ! i) then Some i else find_entry P p i)"

definition match_anti_msg :: "nat \<Rightarrow> nat \<Rightarrow> 's worker \<Rightarrow> nat res" where
  "match_anti_msg lp a_msg w =
     (let p = p_msgs (w_lps w lp) in
      case find_entry (\<lambda>e. e = Past a_msg) p (length p) of
        None \<Rightarrow> Inl OutOfBounds
      | Some i \<Rightarrow> Inr (prev_past p i))"

definition handle_remote_anti_msg :: "'s config \<Rightarrow> placement \<Rightarrow> nat \<Rightarrow> nat \<Rightarrow> 's worker \<Rightarrow> 's worker res" where
  "handle_remote_anti_msg c pl lp a_msg w =
     (let w = alloc_upd (msg_upd a_msg (\<lambda>m. m\<lparr>m_flags := m_flags m - MSG_FLAG_ANTI\<rparr>)) w;
          m_id = m_flags (w_msg w a_msg); seq = m_seq (w_msg w a_msg); p = p_msgs (w_lps w lp) in
      case find_entry (\<lambda>e. \<not> is_msg_sent e \<and> m_flags (w_msg w (unmark_msg e)) = m_id \<and> m_seq (w_msg w (unmark_msg e)) = seq) p (length p) of
        None \<Rightarrow> Inr (lp_upd lp (\<lambda>x. x\<lparr>early_antis := a_msg # early_antis x\<rparr>) w)
      | Some i \<Rightarrow>
          let msg = unmark_msg (p ! i);
              w = alloc_upd (msg_upd msg (\<lambda>m. m\<lparr>m_flags := m_flags m OR MSG_FLAG_ANTI\<rparr>)) w in
          bindR (do_rollback c pl lp (prev_past p i) w) (\<lambda>w.
          let w = termination_on_lp_rollback lp (m_dest_t (w_msg w msg)) w in
          Inr (alloc_upd (msg_allocator_free a_msg) (alloc_upd (msg_allocator_free msg) w))))"

text \<open>The anti-messages that came early, without the first one that matches, if there is one.\<close>

fun early_match :: "(nat \<Rightarrow> bool) \<Rightarrow> nat list \<Rightarrow> (nat \<times> nat list) option" where
  "early_match P [] = None"
| "early_match P (a # as) =
     (if P a then Some (a, as) else map_option (\<lambda>(b, bs). (b, a # bs)) (early_match P as))"

definition check_early_anti_messages :: "nat \<Rightarrow> nat \<Rightarrow> 's worker \<Rightarrow> bool \<times> 's worker" where
  "check_early_anti_messages lp msg w =
     (case early_match (\<lambda>a. m_flags (w_msg w a) = m_flags (w_msg w msg) \<and> m_seq (w_msg w a) = m_seq (w_msg w msg))
             (early_antis (w_lps w lp)) of
        None \<Rightarrow> (False, w)
      | Some (a_msg, rest) \<Rightarrow>
          (True, alloc_upd (msg_allocator_free a_msg) (alloc_upd (msg_allocator_free msg)
            (lp_upd lp (\<lambda>x. x\<lparr>early_antis := rest\<rparr>) w))))"

definition register_bad :: "nat \<Rightarrow> 's worker \<Rightarrow> 's worker" where
  "register_bad lp w = lp_upd lp (\<lambda>x. x\<lparr>lp_ckpt := auto_ckpt_register_bad (lp_ckpt x)\<rparr>) w"

definition handle_anti_msg :: "'s config \<Rightarrow> placement \<Rightarrow> nat \<Rightarrow> nat \<Rightarrow> u32 \<Rightarrow> 's worker \<Rightarrow> 's worker res" where
  "handle_anti_msg c pl lp msg last_flags w =
     (if last_flags > (MSG_FLAG_ANTI OR MSG_FLAG_PROCESSED) then
        bindR (handle_remote_anti_msg c pl lp msg w) (\<lambda>w. Inr (register_bad lp w))
      else
        bindR (if last_flags = (MSG_FLAG_ANTI OR MSG_FLAG_PROCESSED) then
                 bindR (match_anti_msg lp msg w) (\<lambda>past_i.
                 bindR (do_rollback c pl lp past_i w) (\<lambda>w.
                   Inr (register_bad lp (termination_on_lp_rollback lp (m_dest_t (w_msg w msg)) w))))
               else Inr w) (\<lambda>w.
          Inr (alloc_upd (msg_allocator_free msg) w)))"

definition handle_straggler_msg :: "'s config \<Rightarrow> placement \<Rightarrow> nat \<Rightarrow> nat \<Rightarrow> 's worker \<Rightarrow> 's worker res" where
  "handle_straggler_msg c pl lp msg w =
     bindR (match_straggler_msg lp msg w) (\<lambda>past_i.
     bindR (do_rollback c pl lp past_i w) (\<lambda>w.
       Inr (register_bad lp (termination_on_lp_rollback lp (m_dest_t (w_msg w msg)) w))))"

subsection \<open>Fossil collection\<close>

definition fossil_on_gvt :: "simtime \<Rightarrow> 's worker \<Rightarrow> 's worker" where
  "fossil_on_gvt this_gvt w = w\<lparr>fossil_epoch_current := fossil_epoch_current w + 1, fossil_gvt_current := this_gvt\<rparr>"

definition fossil_is_needed :: "nat \<Rightarrow> 's worker \<Rightarrow> bool" where
  "fossil_is_needed lp w \<longleftrightarrow> fossil_epoch (w_lps w lp) \<noteq> fossil_epoch_current w"

text \<open>The index of the last processed message below the GVT, searched from i downwards.\<close>

fun fossil_scan :: "(nat \<Rightarrow> lp_msg) \<Rightarrow> simtime \<Rightarrow> entry list \<Rightarrow> nat \<Rightarrow> nat option" where
  "fossil_scan msg gvt p 0 = None"
| "fossil_scan msg gvt p (Suc i) =
     (case p ! i of
        Past a \<Rightarrow> if m_dest_t (msg a) \<ge> gvt then fossil_scan msg gvt p i else Some i
      | _ \<Rightarrow> fossil_scan msg gvt p i)"

definition fossil_lp_collect :: "nat \<Rightarrow> 's worker \<Rightarrow> 's worker res" where
  "fossil_lp_collect lp w =
     (let p = p_msgs (w_lps w lp) in
      if p = [] then Inr w
      else bindR (guardR (is_msg_past (last p)) OutOfBounds) (\<lambda>_.
        case fossil_scan (w_msg w) (fossil_gvt_current w) p (length p) of
          None \<Rightarrow> Inr w
        | Some i \<Rightarrow>
            bindR (model_allocator_fossil_lp_collect lp (i + 1) w) (\<lambda>(past_i, w).
            bindR (guardR (past_i \<le> length p) OutOfBounds) (\<lambda>_.
              let w = foldr (\<lambda>e w. if is_msg_local_sent e then w else alloc_upd (msg_allocator_free (unmark_msg e)) w) (take past_i p) w
              in Inr (lp_upd lp (\<lambda>x. x\<lparr>p_msgs := drop past_i p, fossil_epoch := fossil_epoch_current w\<rparr>) w)))))"

subsection \<open>Processing a message\<close>

definition bound_reset :: "nat \<Rightarrow> 's worker \<Rightarrow> 's worker" where
  "bound_reset lp w = lp_upd lp (\<lambda>x. x\<lparr>bound := (if p_msgs x = [] then -1 else bound x)\<rparr>) w"

definition reschedule :: "nat \<Rightarrow> 's worker \<Rightarrow> 's worker res" where
  "reschedule lp w = bindR (retractable_reschedule lp (w_retractable w)) (\<lambda>r. Inr (w\<lparr>w_retractable := r\<rparr>))"

text \<open>full_ckpt_size, which the choice of the interval reads, is the argument \<open>ckpt_size\<close>.\<close>

definition collect_if_needed :: "placement \<Rightarrow> u64 \<Rightarrow> nat \<Rightarrow> 's worker \<Rightarrow> 's worker res" where
  "collect_if_needed pl ckpt_size lp w =
     (if fossil_is_needed lp w then
        bindR (fossil_lp_collect lp (lp_upd lp (\<lambda>x. x\<lparr>lp_ckpt :=
          auto_ckpt_recompute (ckpt_interval pl) (w_ackpt w) ckpt_size (lp_ckpt x)\<rparr>) w)) (\<lambda>w. Inr (bound_reset lp w))
      else Inr w)"

text \<open>The forward execution of a message: the end of process_msg.\<close>

definition process_forward :: "'s config \<Rightarrow> placement \<Rightarrow> nat \<Rightarrow> nat \<Rightarrow> 's worker \<Rightarrow> 's worker res" where
  "process_forward c pl lp msg w =
     bindR (dispatch c pl lp msg (w\<lparr>current_msg := msg\<rparr>)) (\<lambda>w.
     let w = lp_upd lp (\<lambda>x. x\<lparr>bound := m_dest_t (w_msg w msg)\<rparr>) w in
     bindR (reschedule lp w) (\<lambda>w.
     let w = lp_upd lp (\<lambda>x. x\<lparr>p_msgs := p_msgs x @ [Past msg], lp_ckpt := auto_ckpt_register_good (lp_ckpt x)\<rparr>) w;
         (needed, ac) = auto_ckpt_is_needed (lp_ckpt (w_lps w lp));
         w = lp_upd lp (\<lambda>x. x\<lparr>lp_ckpt := ac\<rparr>) w;
         w = (if needed then checkpoint_take lp w else w)
     in Inr (termination_on_msg_process c lp (m_dest_t (w_msg w msg)) w)))"

text \<open>A message that is no anti-message and is not cancelled: a rollback when it is late, and its execution.\<close>

definition process_ordinary :: "'s config \<Rightarrow> placement \<Rightarrow> nat \<Rightarrow> nat \<Rightarrow> 's worker \<Rightarrow> 's worker res" where
  "process_ordinary c pl lp msg w =
     bindR (if bound (w_lps w lp) \<ge> m_dest_t (w_msg w msg) then
              bindR (guardR (p_msgs (w_lps w lp) \<noteq> []) OutOfBounds) (\<lambda>_.
                if msg_is_before (w_msg w msg) (w_msg w (unmark_msg (last (p_msgs (w_lps w lp)))))
                then handle_straggler_msg c pl lp msg w else Inr w)
            else Inr w) (\<lambda>w.
     process_forward c pl lp msg w)"

definition process_msg :: "'s config \<Rightarrow> placement \<Rightarrow> u64 \<Rightarrow> 's worker \<Rightarrow> 's worker res" where
  "process_msg c pl ckpt_size w =
     bindR (msg_queue_extract (rid pl) (w_queues w) (w_retractable w) (w_alloc w)) (\<lambda>(om, q, r, al).
     let w = w\<lparr>w_queues := q, w_retractable := r, w_alloc := al\<rparr> in
     case om of
       None \<Rightarrow> Inr w
     | Some msg \<Rightarrow>
         let w = gvt_on_msg_extraction (m_dest_t (w_msg w msg)) w; lp = m_dest (w_msg w msg) in
         bindR (collect_if_needed pl ckpt_size lp w) (\<lambda>w.
         let (flags, w) = fetch_add_flags msg MSG_FLAG_PROCESSED w in
         if flags AND MSG_FLAG_ANTI \<noteq> 0 then
           bindR (handle_anti_msg c pl lp msg flags w) (\<lambda>w. reschedule lp (bound_reset lp w))
         else
           let (gone, w) = (if flags \<noteq> 0 \<and> early_antis (w_lps w lp) \<noteq> [] then check_early_anti_messages lp msg w else (False, w)) in
           if gone then Inr w else process_ordinary c pl lp msg w))"

end
