(* ===== verification/TimeWarp.thy ===== *)
theory TimeWarp
  imports Process
begin

text \<open>
  What the Time Warp engine promises for one process: the state of the process, with the time
  of its retractable event, is what its handlers make of the processed messages in p_msgs one
  after the other, starting from any of its checkpoints (\<open>tw_ok\<close>). Rolling back keeps this,
  although the silent execution does not repeat the extraction of retractable events: what it
  leaves out is put right at its end, as long as handlers ask for such events in their future.
\<close>

subsection \<open>Replaying messages\<close>

text \<open>What a handler sees of a message.\<close>

definition view :: "lp_msg \<Rightarrow> lp_msg" where
  "view m = m\<lparr>m_flags := 0, m_seq := 0\<rparr>"

definition pasts :: "'s worker \<Rightarrow> entry list \<Rightarrow> lp_msg list" where
  "pasts w p = map (\<lambda>e. view (w_msg w (unmark_msg e))) (filter is_msg_past p)"

definition retract_time :: "call list \<Rightarrow> simtime \<Rightarrow> simtime" where
  "retract_time cs t = fold (\<lambda>x t. case x of Retract t' \<Rightarrow> t' | _ \<Rightarrow> t) cs t"

text \<open>
  One message: the new state and time of the retractable event. A retractable event is taken
  before its message is handled, except in the silent execution.
\<close>

definition handle :: "'s config \<Rightarrow> lp_msg \<Rightarrow> 's \<times> simtime \<Rightarrow> 's \<times> simtime" where
  "handle c m img = (let (st, cs) = dispatcher c (m_dest m) (m_dest_t m) (m_type m) (m_pl m) (fst img) in (st, retract_time cs (snd img)))"

definition step :: "'s config \<Rightarrow> lp_msg \<Rightarrow> 's \<times> simtime \<Rightarrow> 's \<times> simtime" where
  "step c m img = handle c m (fst img, if m_type m = LP_RETRACTABLE then SIMTIME_MAX else snd img)"

definition replay :: "'s config \<Rightarrow> lp_msg list \<Rightarrow> 's \<times> simtime \<Rightarrow> 's \<times> simtime" where
  "replay c ms img = fold (step c) ms img"

text \<open>
  The times fit: messages come in the order of time, a retractable event happens when it was
  asked for, none is overdue, and handlers ask for later times only.
\<close>

fun timely :: "'s config \<Rightarrow> simtime \<Rightarrow> 's \<times> simtime \<Rightarrow> lp_msg list \<Rightarrow> bool" where
  "timely c now img [] \<longleftrightarrow> now < snd img"
| "timely c now img (m # ms) \<longleftrightarrow> now < snd img \<and> now \<le> m_dest_t m \<and> m_dest_t m < SIMTIME_MAX
     \<and> (if m_type m = LP_RETRACTABLE then snd img = m_dest_t m else m_dest_t m < snd img)
     \<and> timely c (m_dest_t m) (step c m img) ms"

lemma replay_append: "replay c (xs @ ys) img = replay c ys (replay c xs img)"
  by (simp add: replay_def)

lemma timely_append:
  "timely c now img (xs @ ys) \<longleftrightarrow> timely c now img xs \<and>
     timely c (if xs = [] then now else m_dest_t (last xs)) (replay c xs img) ys"
proof (induction xs arbitrary: now img)
  case Nil
  show ?case by (cases ys) (auto simp: replay_def)
next
  case (Cons x xs)
  then show ?case by (auto simp: replay_def)
qed

lemma timely_last: "timely c now img xs \<Longrightarrow> (if xs = [] then now else m_dest_t (last xs)) < snd (replay c xs img)"
  using timely_append [of c now img xs "[]"] by simp

text \<open>The silent execution: the same state; the time of the retractable event may be an old one.\<close>

lemma handle_fst: "fst (handle c m (st, t)) = fst (handle c m (st, t'))"
  by (simp add: handle_def split_beta)

lemma retract_time_same: "(\<forall>t. retract_time cs t = t) \<or> (\<exists>u. \<forall>t. retract_time cs t = u)"
  unfolding retract_time_def
proof (induction cs rule: rev_induct)
  case (snoc x cs)
  then show ?case by (cases x) auto
qed simp

lemma silent_replay:
  "timely c now img ms \<Longrightarrow> ts = snd img \<or> ts \<le> now \<and> snd img = SIMTIME_MAX \<Longrightarrow>
   fst (fold (handle c) ms (fst img, ts)) = fst (replay c ms img)
   \<and> (snd (fold (handle c) ms (fst img, ts)) = snd (replay c ms img)
     \<or> snd (fold (handle c) ms (fst img, ts)) \<le> (if ms = [] then now else m_dest_t (last ms)) \<and> snd (replay c ms img) = SIMTIME_MAX)"
proof (induction ms arbitrary: now img ts)
  case Nil
  then show ?case by (simp add: replay_def)
next
  case (Cons m ms)
  obtain st cs where d: "dispatcher c (m_dest m) (m_dest_t m) (m_type m) (m_pl m) (fst img) = (st, cs)" by fastforce
  have h: "handle c m (fst img, ts) = (st, retract_time cs ts)" using d by (simp add: handle_def)
  have s: "step c m img = (st, retract_time cs (if m_type m = LP_RETRACTABLE then SIMTIME_MAX else snd img))"
    using d by (simp add: step_def handle_def)
  have "retract_time cs ts = snd (step c m img) \<or> retract_time cs ts \<le> m_dest_t m \<and> snd (step c m img) = SIMTIME_MAX"
    using retract_time_same [of cs] Cons.prems(1,2) unfolding s by (auto split: if_splits)
  moreover have "timely c (m_dest_t m) (step c m img) ms" using Cons.prems(1) by simp
  ultimately have "fst (fold (handle c) ms (st, retract_time cs ts)) = fst (replay c ms (step c m img))
    \<and> (snd (fold (handle c) ms (st, retract_time cs ts)) = snd (replay c ms (step c m img))
      \<or> snd (fold (handle c) ms (st, retract_time cs ts)) \<le> (if ms = [] then m_dest_t m else m_dest_t (last ms))
        \<and> snd (replay c ms (step c m img)) = SIMTIME_MAX)"
    using Cons.IH [of "m_dest_t m" "step c m img" "retract_time cs ts"] s by simp
  then show ?case by (cases "ms = []") (simp_all add: h replay_def)
qed

subsection \<open>What operations leave alone\<close>

text \<open>Only flags, queues and the allocator change; or only process lp changes besides.\<close>

definition quiet :: "'s worker \<Rightarrow> 's worker \<Rightarrow> bool" where
  "quiet w w' \<longleftrightarrow> w_lps w' = w_lps w \<and> w_retractable w' = w_retractable w \<and> silent_processing w' = silent_processing w
     \<and> (\<forall>a. view (w_msg w' a) = view (w_msg w a))"

lemma quiet_refl [simp]: "quiet w w"
  by (simp add: quiet_def)

lemma quiet_trans: "quiet w w' \<Longrightarrow> quiet w' w'' \<Longrightarrow> quiet w w''"
  by (simp add: quiet_def)

lemma quiet_pasts: "quiet w w' \<Longrightarrow> pasts w' = pasts w"
  by (simp add: quiet_def pasts_def fun_eq_iff)

lemma view_simps [simp]:
  "view (m\<lparr>m_flags := f\<rparr>) = view m" "view (m\<lparr>m_seq := q\<rparr>) = view m" "view (view m) = view m"
  "m_dest (view m) = m_dest m" "m_dest_t (view m) = m_dest_t m" "m_type (view m) = m_type m" "m_pl (view m) = m_pl m"
  by (simp_all add: view_def)

lemma quiet_alloc: "(\<And>a. view (msg_at (f (w_alloc w)) a) = view (msg_at (w_alloc w) a)) \<Longrightarrow> quiet w (alloc_upd f w)"
  by (simp add: quiet_def alloc_upd_def w_msg_def)

lemma quiet_msg_upd: "(\<And>m. view (f m) = view m) \<Longrightarrow> quiet w (alloc_upd (msg_upd a f) w)"
  by (rule quiet_alloc) (simp add: msg_upd_def msg_at_def)

lemma quiet_free: "quiet w (alloc_upd (msg_allocator_free a) w)" "quiet w (alloc_upd (msg_allocator_free_at_gvt a) w)"
  by (rule quiet_alloc, simp add: msg_allocator_free_def msg_allocator_free_at_gvt_def msg_at_def)+

lemma quiet_insert: "quiet w (queue_insert pl a w)"
  by (simp add: quiet_def queue_insert_def w_msg_def)

lemma quiet_anti_send: "quiet w (mpi_remote_anti_msg_send a d w)"
  by (simp add: quiet_def mpi_remote_anti_msg_send_def gvt_remote_anti_msg_send_def Let_def alloc_upd_def w_msg_def msg_upd_def msg_at_def)

lemma quiet_fetch_add: "quiet w (snd (fetch_add_flags a d w))"
  by (simp add: fetch_add_flags_def quiet_msg_upd)

lemma quiet_undo_sent: "quiet w (undo_sent c pl e w)"
  unfolding undo_sent_def Let_def
  using quiet_trans [OF quiet_anti_send quiet_free(2)] quiet_fetch_add [of w "unmark_msg e" MSG_FLAG_ANTI]
    quiet_trans [OF quiet_fetch_add quiet_insert] by (auto simp: split_beta)

lemma quiet_undo_past: "quiet w (undo_past pl a w)"
  unfolding undo_past_def Let_def
  using quiet_trans [OF quiet_fetch_add quiet_free(1)] quiet_fetch_add [of w a] quiet_trans [OF quiet_fetch_add quiet_insert]
  by (auto simp: split_beta)

lemma anti_loop_quiet:
  "es \<noteq> [] \<longrightarrow> is_msg_past (last es) \<Longrightarrow> \<exists>w'. anti_loop c pl es w = Inr w' \<and> quiet w w'"
proof (induction c pl es w rule: anti_loop.induct)
  case (2 c pl e es w)
  show ?case
  proof (cases e)
    case (Past m)
    then show ?thesis using 2 quiet_trans [OF quiet_undo_past] by (cases "es = []") (fastforce, fastforce)
  next
    case (SentLocal m)
    then have "es \<noteq> []" using 2(4) by auto
    then show ?thesis using 2 SentLocal quiet_trans [OF quiet_undo_sent] by fastforce
  next
    case (SentRemote m)
    then have "es \<noteq> []" using 2(4) by auto
    then show ?thesis using 2 SentRemote quiet_trans [OF quiet_undo_sent] by fastforce
  qed
qed simp

subsection \<open>The silent execution\<close>

text \<open>What a checkpoint holds: the memory and the time of the retractable event.\<close>

definition image_of :: "nat \<Rightarrow> 's worker \<Rightarrow> 's \<times> simtime" where
  "image_of lp w = (lp_state (w_lps w lp), retractable_ctx (w_retractable w) lp)"

definition set_image :: "nat \<Rightarrow> 's \<times> simtime \<Rightarrow> 's worker \<Rightarrow> 's worker" where
  "set_image lp i w = (lp_upd lp (\<lambda>x. x\<lparr>lp_state := fst i\<rparr>) w)\<lparr>w_retractable := ScheduleRetractableEvent lp (snd i) (w_retractable w)\<rparr>"

lemma set_image_simps [simp]:
  "image_of lp (set_image lp i w) = i" "set_image lp i (set_image lp j w) = set_image lp i w"
  "w_msg (set_image lp i w) = w_msg w" "silent_processing (set_image lp i w) = silent_processing w"
  "p_msgs (w_lps (set_image lp i w) l) = p_msgs (w_lps w l)" "logs (w_lps (set_image lp i w) l) = logs (w_lps w l)"
  "bound (w_lps (set_image lp i w) l) = bound (w_lps w l)"
  by (auto simp: image_of_def set_image_def ScheduleRetractableEvent_def lp_upd_def w_msg_def)

lemma set_image_pasts [simp]: "pasts (set_image lp i w) = pasts w"
  by (simp add: pasts_def fun_eq_iff)

lemma set_image_id: "set_image lp (image_of lp w) w = w"
  by (simp add: image_of_def set_image_def ScheduleRetractableEvent_def lp_upd_def)

lemma silent_calls:
  "silent_processing w \<Longrightarrow>
   foldR (lp_call c pl lp) cs w = Inr (set_image lp (lp_state (w_lps w lp), retract_time cs (retractable_ctx (w_retractable w) lp)) w)"
proof (induction cs arbitrary: w)
  case Nil
  then show ?case using set_image_id [of lp w] by (simp add: retract_time_def image_of_def)
next
  case (Cons x cs)
  show ?case
  proof (cases x)
    case (Schedule r t ty pld)
    then show ?thesis using Cons by (simp add: ScheduleNewEvent_def retract_time_def)
  next
    case (Retract t)
    let ?w = "w\<lparr>w_retractable := ScheduleRetractableEvent lp t (w_retractable w)\<rparr>"
    have "set_image lp i ?w = set_image lp i w" for i
      by (simp add: set_image_def ScheduleRetractableEvent_def lp_upd_def)
    with Retract Cons show ?thesis by (simp add: retract_time_def ScheduleRetractableEvent_def)
  qed
qed

lemma silent_dispatch:
  assumes "silent_processing w"
  shows "dispatch c pl lp msg w = Inr (set_image lp (handle c (view (w_msg w msg)) (image_of lp w)) w)"
proof -
  obtain st cs where d: "dispatcher c (m_dest (w_msg w msg)) (m_dest_t (w_msg w msg)) (m_type (w_msg w msg)) (m_pl (w_msg w msg))
    (lp_state (w_lps w lp)) = (st, cs)" by fastforce
  let ?w = "lp_upd lp (\<lambda>x. x\<lparr>lp_state := st\<rparr>) w"
  have "silent_processing ?w" using assms by (simp add: lp_upd_def)
  note silent_calls [OF this, of c pl lp cs]
  moreover have "set_image lp (lp_state (w_lps ?w lp), t) ?w = set_image lp (st, t) w" for t
    by (simp add: set_image_def lp_upd_def)
  ultimately show ?thesis
    using d by (simp add: dispatch_def handle_def image_of_def Let_def) (simp add: lp_upd_def)
qed

lemma pasts_Cons: "pasts w (e # es) = (if is_msg_past e then view (w_msg w (unmark_msg e)) # pasts w es else pasts w es)"
  by (simp add: pasts_def)

lemma silent_loop_replays:
  assumes "silent_processing w" "last_i < past_i" "past_i \<le> length p" "is_msg_past (p ! (past_i - 1))"
  shows "silent_loop c pl lp p last_i past_i w = Inr (unmark_msg (p ! (past_i - 1)),
     set_image lp (fold (handle c) (pasts w (drop last_i (take past_i p))) (image_of lp w)) w)"
  using assms(1,2)
proof (induction "past_i - last_i" arbitrary: last_i w)
  case (Suc d)
  have d: "drop last_i (take past_i p) = p ! last_i # drop (Suc last_i) (take past_i p)"
    using Suc.prems(2) assms(3) by (simp add: Cons_nth_drop_Suc [symmetric])
  have l: "last_i < length p" using Suc.prems(2) assms(3) by simp
  show ?case
  proof (cases "Suc last_i < past_i")
    case True
    show ?thesis
    proof (cases "p ! last_i")
      case (Past msg)
      let ?w = "set_image lp (handle c (view (w_msg w msg)) (image_of lp w)) w"
      have "silent_processing ?w" using Suc.prems(1) by simp
      from Suc.hyps(1) [OF _ this True] Suc.hyps(2) True Past l silent_dispatch [OF Suc.prems(1), of c pl lp msg] show ?thesis
        by (subst silent_loop.simps) (simp add: d pasts_Cons)
    next
      case (SentLocal a)
      with Suc.hyps(1) [OF _ Suc.prems(1) True] Suc.hyps(2) True l show ?thesis
        by (subst silent_loop.simps) (simp add: d pasts_Cons)
    next
      case (SentRemote a)
      with Suc.hyps(1) [OF _ Suc.prems(1) True] Suc.hyps(2) True l show ?thesis
        by (subst silent_loop.simps) (simp add: d pasts_Cons)
    qed
  next
    case False
    then have e: "past_i = Suc last_i" using Suc.prems(2) by simp
    then obtain msg where m: "p ! last_i = Past msg" "p ! (past_i - 1) = Past msg" using assms(4) by (cases "p ! last_i") auto
    have "drop (Suc last_i) (take past_i p) = []" using e by simp
    then have "pasts w (drop last_i (take past_i p)) = [view (w_msg w msg)]" unfolding d by (simp add: pasts_def m(1))
    with m l False silent_dispatch [OF Suc.prems(1), of c pl lp msg] show ?thesis
      by (subst silent_loop.simps) (simp del: One_nat_def)
  qed
qed simp

subsection \<open>The log\<close>

lemma log_index_finds:
  assumes "sorted (map fst ls)" "i < length ls" "fst (ls ! 0) \<le> ref_i"
  shows "\<exists>j. log_index ls ref_i i = Inr j \<and> j \<le> i \<and> fst (ls ! j) \<le> ref_i \<and> (\<forall>k. j < k \<and> k \<le> i \<longrightarrow> ref_i < fst (ls ! k))"
  using assms(2)
proof (induction i)
  case 0
  then show ?case using assms(3) by auto
next
  case (Suc i)
  show ?case
  proof (cases "fst (ls ! Suc i) > ref_i")
    case True
    from Suc obtain j where "log_index ls ref_i i = Inr j" "j \<le> i" "fst (ls ! j) \<le> ref_i" "\<forall>k. j < k \<and> k \<le> i \<longrightarrow> ref_i < fst (ls ! k)"
      by auto
    with True Suc.prems show ?thesis by (intro exI [of _ j]) (auto simp: le_Suc_eq)
  next
    case False
    with Suc.prems show ?thesis by (intro exI [of _ "Suc i"]) auto
  qed
qed

subsection \<open>The invariant of a process\<close>

definition cut :: "entry list \<Rightarrow> nat \<Rightarrow> bool" where
  "cut p r \<longleftrightarrow> r \<le> length p \<and> (r = 0 \<or> is_msg_past (p ! (r - 1)))"

text \<open>The checkpoints of a process: r0 and img0 are the first one, p its entries.\<close>

definition logs_ok :: "'s config \<Rightarrow> (entry list \<Rightarrow> lp_msg list) \<Rightarrow> entry list \<Rightarrow> (nat \<times> 's \<times> simtime) list \<Rightarrow> bool" where
  "logs_ok c ms p ls \<longleftrightarrow> ls \<noteq> [] \<and> sorted (map fst ls)
     \<and> (\<forall>(r, img)\<in>set ls. cut p r \<and> img = replay c (ms (drop (fst (hd ls)) (take r p))) (snd (hd ls)))"

definition tw_ok :: "'s config \<Rightarrow> nat \<Rightarrow> 's worker \<Rightarrow> bool" where
  "tw_ok c lp w \<longleftrightarrow> (let x = w_lps w lp; p = p_msgs x; r0 = fst (hd (logs x)); img0 = snd (hd (logs x)) in
     logs_ok c (pasts w) p (logs x) \<and> cut p (length p)
     \<and> image_of lp w = replay c (pasts w (drop r0 p)) img0
     \<and> (\<exists>now. timely c now img0 (pasts w (drop r0 p))))"

lemma pasts_append: "pasts w (xs @ ys) = pasts w xs @ pasts w ys"
  by (simp add: pasts_def)

lemma logs_ok_truncate:
  assumes "logs_ok c ms p ls" "i < length ls" "fst (ls ! i) \<le> r"
  shows "logs_ok c ms (take r p) (take (Suc i) ls)"
proof -
  have s: "sorted (map fst ls)" using assms(1) by (simp add: logs_ok_def)
  have h: "hd (take (Suc i) ls) = hd ls" using assms(2) by (cases ls) auto
  have "sorted (map fst (take (Suc i) ls))" using s by (simp add: take_map [symmetric])
  moreover have "cut (take r p) q \<and> img = replay c (ms (drop (fst (hd ls)) (take q (take r p)))) (snd (hd ls))"
    if e: "(q, img) \<in> set (take (Suc i) ls)" for q img
  proof -
    obtain k where k: "k \<le> i" "ls ! k = (q, img)" using e assms(2) by (auto simp: in_set_conv_nth less_Suc_eq_le)
    have "fst (ls ! k) \<le> fst (ls ! i)" using sorted_nth_mono [OF s, of k i] k assms(2) by simp
    then have q: "q \<le> r" using k assms(3) by simp
    have "(q, img) \<in> set ls" using e in_set_takeD by fastforce
    then have "cut p q \<and> img = replay c (ms (drop (fst (hd ls)) (take q p))) (snd (hd ls))"
      using assms(1) by (auto simp: logs_ok_def)
    with q show ?thesis by (cases "q = 0") (auto simp: cut_def min_absorb1)
  qed
  ultimately show ?thesis unfolding logs_ok_def h using assms(2) by auto
qed

text \<open>Two consecutive pieces of the entries.\<close>

lemma drop_take_split: "r0 \<le> r \<Longrightarrow> r \<le> n \<Longrightarrow> drop r0 (take n p) = drop r0 (take r p) @ drop r (take n p)"
proof -
  assume a: "r0 \<le> r" "r \<le> n"
  have "take (r - r0) (drop r0 (take n p)) = drop r0 (take r p)" using a by (simp add: take_drop min_absorb1)
  moreover have "drop (r - r0) (drop r0 (take n p)) = drop r (take n p)" using a by simp
  ultimately show ?thesis by (metis append_take_drop_id)
qed

lemma logs_ok_first:
  assumes "logs_ok c ms p ls" "(r, img) \<in> set ls"
  shows "fst (hd ls) \<le> r"
  using assms sorted_wrt_nth_less by (cases ls) (auto simp: logs_ok_def)

text \<open>The silent execution from a checkpoint of the log.\<close>

lemma silent_execution_restores:
  assumes t: "timely c now img (pasts w (drop r (take n p)))" and p: "p_msgs (w_lps w lp) = take n p" "cut p n" "r \<le> n"
    and i: "image_of lp w = img" and s: "\<not> silent_processing w"
  shows "silent_execution c pl lp r n w = Inr (set_image lp (replay c (pasts w (drop r (take n p))) img) w)"
proof (cases "r = n")
  case True
  then show ?thesis using i set_image_id [of lp w] by (simp add: silent_execution_def pasts_def replay_def)
next
  case False
  with p(3) have r: "r < n" by simp
  let ?w = "w\<lparr>silent_processing := True\<rparr>" and ?ms = "pasts w (drop r (take n p))"
  have c: "is_msg_past (take n p ! (n - 1))" "n \<le> length (take n p)" "n \<le> length p" using p(2) r by (auto simp: cut_def)
  have ps: "pasts ?w = pasts w" by (simp add: pasts_def w_msg_def fun_eq_iff)
  have im: "image_of lp ?w = img" using i by (simp add: image_of_def)
  have sl: "silent_loop c pl lp (take n p) r n ?w = Inr (unmark_msg (p ! (n - 1)), set_image lp (fold (handle c) ?ms img) ?w)"
    using silent_loop_replays [of ?w r n "take n p" c pl lp] r c ps im by simp
  have "drop r (take n p) \<noteq> []" using r c(3) by simp
  moreover have "last (drop r (take n p)) = p ! (n - 1)"
    using r c(3) by (simp add: last_drop last_conv_nth)
  ultimately have "drop r (take n p) = butlast (drop r (take n p)) @ [p ! (n - 1)]" by (metis append_butlast_last_id)
  moreover have "is_msg_past (p ! (n - 1))" using c r by simp
  ultimately have l: "?ms = pasts w (butlast (drop r (take n p))) @ [view (w_msg w (unmark_msg (p ! (n - 1))))]"
    using pasts_append [of w] by (metis pasts_Cons append_Nil2 pasts_append pasts_def filter.simps(1) list.map(1))
  then have ne: "?ms \<noteq> []" and lt: "m_dest_t (last ?ms) = m_dest_t (w_msg w (unmark_msg (p ! (n - 1))))" by simp_all
  note sr = silent_replay [OF t, of "snd img"]
  have lr: "m_dest_t (last ?ms) < snd (replay c ?ms img)" using timely_last [OF t] ne by simp
  let ?f = "fold (handle c) ?ms img"
  have f: "fst ?f = fst (replay c ?ms img)" "snd ?f = snd (replay c ?ms img) \<or> snd ?f \<le> m_dest_t (last ?ms) \<and> snd (replay c ?ms img) = SIMTIME_MAX"
    using sr ne by simp_all
  have "snd (replay c ?ms img) = (if snd ?f \<le> m_dest_t (last ?ms) then SIMTIME_MAX else snd ?f)" using f(2) lr by auto
  then show ?thesis using r sl f(1) lt p(1)
    by (simp add: silent_execution_def retractable_post_silent_def set_image_def ScheduleRetractableEvent_def w_msg_def lp_upd_def)
       (auto simp: s)
qed

text \<open>Rolling back to a place after the first checkpoint.\<close>

definition first_log :: "nat \<Rightarrow> 's worker \<Rightarrow> nat \<times> 's \<times> simtime" where
  "first_log lp w = hd (logs (w_lps w lp))"

lemma tw_okD:
  assumes "tw_ok c lp w"
  shows "logs_ok c (pasts w) (p_msgs (w_lps w lp)) (logs (w_lps w lp))"
    "cut (p_msgs (w_lps w lp)) (length (p_msgs (w_lps w lp)))"
    "image_of lp w = replay c (pasts w (drop (fst (first_log lp w)) (p_msgs (w_lps w lp)))) (snd (first_log lp w))"
    "\<exists>now. timely c now (snd (first_log lp w)) (pasts w (drop (fst (first_log lp w)) (p_msgs (w_lps w lp))))"
  using assms by (auto simp: tw_ok_def first_log_def Let_def)

lemma tw_okI:
  assumes "logs_ok c (pasts w) p (logs (w_lps w lp))" "p_msgs (w_lps w lp) = p" "cut p (length p)"
    and "image_of lp w = replay c (pasts w (drop (fst (first_log lp w)) p)) (snd (first_log lp w))"
    and "timely c now (snd (first_log lp w)) (pasts w (drop (fst (first_log lp w)) p))"
  shows "tw_ok c lp w"
  using assms by (auto simp: tw_ok_def first_log_def Let_def)

lemma rollback_kept:
  assumes ok: "tw_ok c lp w" and s: "\<not> silent_processing w" and n: "cut (p_msgs (w_lps w lp)) n" "fst (first_log lp w) \<le> n"
  shows "\<exists>w'. do_rollback c pl lp n w = Inr w' \<and> tw_ok c lp w' \<and> \<not> silent_processing w'
    \<and> p_msgs (w_lps w' lp) = take n (p_msgs (w_lps w lp)) \<and> first_log lp w' = first_log lp w
    \<and> image_of lp w' = replay c (pasts w (drop (fst (first_log lp w)) (take n (p_msgs (w_lps w lp))))) (snd (first_log lp w))
    \<and> (\<forall>a. view (w_msg w' a) = view (w_msg w a)) \<and> (\<forall>l. l \<noteq> lp \<longrightarrow> w_lps w' l = w_lps w l)
    \<and> (\<exists>t. w_retractable w' = ScheduleRetractableEvent lp t (w_retractable w)) \<and> bound (w_lps w' lp) = bound (w_lps w lp)
    \<and> (\<exists>w1. anti_loop c pl (drop n (p_msgs (w_lps w lp))) w = Inr w1 \<and> w_alloc w' = w_alloc w1)"
proof -
  let ?p = "p_msgs (w_lps w lp)" and ?ls = "logs (w_lps w lp)" and ?r0 = "fst (first_log lp w)" and ?img0 = "snd (first_log lp w)"
  note k = tw_okD [OF ok]
  have np: "n \<le> length ?p" using n(1) by (simp add: cut_def)
  have "drop n ?p \<noteq> [] \<longrightarrow> is_msg_past (last (drop n ?p))"
    using k(2) by (auto simp: cut_def last_conv_nth split: if_splits)
  from anti_loop_quiet [OF this, of c pl w] obtain w1 where w1: "anti_loop c pl (drop n ?p) w = Inr w1" "quiet w w1" by blast
  define w2 where "w2 = lp_upd lp (\<lambda>x. x\<lparr>p_msgs := take n (p_msgs x)\<rparr>) w1"
  have sa: "send_anti_messages c pl lp n w = Inr w2" using w1(1) by (simp add: send_anti_messages_def w2_def)
  have lps1: "w_lps w1 = w_lps w" "w_retractable w1 = w_retractable w" "silent_processing w1 = silent_processing w"
    using w1(2) by (simp_all add: quiet_def)
  have p2: "p_msgs (w_lps w2 lp) = take n ?p" "logs (w_lps w2 lp) = ?ls" "pasts w2 = pasts w" "\<not> silent_processing w2"
    using lps1 s quiet_pasts [OF w1(2)] by (simp_all add: w2_def lp_upd_def pasts_def w_msg_def fun_eq_iff)
  have ls: "?ls \<noteq> []" "sorted (map fst ?ls)" and hd0: "?ls ! 0 = first_log lp w"
    using k(1) by (auto simp: logs_ok_def first_log_def hd_conv_nth)
  have "length ?ls - 1 < length ?ls" "fst (?ls ! 0) \<le> n" using ls(1) hd0 n(2) by simp_all
  from log_index_finds [OF ls(2) this] obtain i where i: "log_index ?ls n (length ?ls - 1) = Inr i" "i \<le> length ?ls - 1" "fst (?ls ! i) \<le> n"
    by blast
  then have il: "i < length ?ls" using \<open>length ?ls - 1 < length ?ls\<close> by simp
  obtain r img where e: "?ls ! i = (r, img)" using prod.exhaust by blast
  then have m: "(r, img) \<in> set ?ls" "r \<le> n" using nth_mem [OF il] i(3) by auto
  then have cr: "cut ?p r" "img = replay c (pasts w (drop ?r0 (take r ?p))) ?img0"
    using k(1) by (auto simp: logs_ok_def first_log_def)
  have r0r: "?r0 \<le> r" using logs_ok_first [OF k(1) m(1)] by (simp add: first_log_def)
  define w3 where "w3 = set_image lp img (lp_upd lp (\<lambda>x. x\<lparr>logs := take (Suc i) ?ls\<rparr>) w2)"
  have re: "model_allocator_checkpoint_restore lp n w2 = Inr (r, w3)"
    using i(1) e p2(2)
    by (cases "w_lps w2 lp") (simp add: model_allocator_checkpoint_restore_def w3_def set_image_def lp_upd_def split_beta)
  have ps3: "pasts w3 = pasts w" using p2(3) by (simp add: w3_def pasts_def lp_upd_def w_msg_def fun_eq_iff)
  obtain now where "timely c now ?img0 (pasts w (drop ?r0 ?p))" using k(4) by blast
  moreover have sp: "pasts w (drop ?r0 ?p) = pasts w (drop ?r0 (take n ?p)) @ pasts w (drop n ?p)"
    using drop_take_split [OF n(2) np, of ?p] by (simp add: pasts_append [symmetric])
  ultimately have tn: "timely c now ?img0 (pasts w (drop ?r0 (take n ?p)))" by (simp add: timely_append)
  have sp2: "pasts w (drop ?r0 (take n ?p)) = pasts w (drop ?r0 (take r ?p)) @ pasts w (drop r (take n ?p))"
    using drop_take_split [OF r0r m(2), of ?p] by (simp add: pasts_append [symmetric])
  with tn obtain now' where t': "timely c now' img (pasts w (drop r (take n ?p)))"
    by (auto simp: timely_append cr(2))
  have im: "replay c (pasts w (drop r (take n ?p))) img = replay c (pasts w (drop ?r0 (take n ?p))) ?img0"
    unfolding sp2 by (simp add: replay_append cr(2))
  have p3: "p_msgs (w_lps w3 lp) = take n ?p" "image_of lp w3 = img" "\<not> silent_processing w3"
    using p2 by (simp_all add: w3_def lp_upd_def)
  have se: "silent_execution c pl lp r n w3 = Inr (set_image lp (replay c (pasts w (drop r (take n ?p))) img) w3)"
    using silent_execution_restores [OF _ p3(1) n(1) m(2) p3(2,3), of c now'] t' by (simp add: ps3)
  define w4 where "w4 = set_image lp (replay c (pasts w (drop ?r0 (take n ?p))) ?img0) w3"
  have rb: "do_rollback c pl lp n w = Inr w4" using sa re se im by (simp add: do_rollback_def w4_def)
  have l4: "logs (w_lps w4 lp) = take (Suc i) ?ls" "p_msgs (w_lps w4 lp) = take n ?p" "pasts w4 = pasts w"
    using p3 ps3 by (simp_all add: w4_def w3_def lp_upd_def)
  have f4: "first_log lp w4 = first_log lp w" using l4(1) ls(1) by (cases ?ls) (auto simp: first_log_def)
  have "tw_ok c lp w4"
  proof (rule tw_okI [OF _ l4(2)])
    show "logs_ok c (pasts w4) (take n ?p) (logs (w_lps w4 lp))" using logs_ok_truncate [OF k(1) il i(3)] l4 by simp
    show "cut (take n ?p) (length (take n ?p))" using n(1) by (cases "n = 0") (auto simp: cut_def min_absorb1)
    show "image_of lp w4 = replay c (pasts w4 (drop (fst (first_log lp w4)) (take n ?p))) (snd (first_log lp w4))"
      by (simp add: f4 l4(3)) (simp add: w4_def)
    show "timely c now (snd (first_log lp w4)) (pasts w4 (drop (fst (first_log lp w4)) (take n ?p)))" using tn by (simp add: f4 l4(3))
  qed
  moreover have "view (w_msg w4 a) = view (w_msg w a)" for a
    using w1(2) by (simp add: w4_def w3_def w2_def quiet_def) (simp add: w_msg_def lp_upd_def)
  moreover have "w_lps w4 l = w_lps w l" if "l \<noteq> lp" for l
    using that lps1 by (simp add: w4_def w3_def w2_def set_image_def lp_upd_def)
  moreover have "w_retractable w4 = ScheduleRetractableEvent lp (snd (replay c (pasts w (drop ?r0 (take n ?p))) ?img0)) (w_retractable w)"
    using lps1 by (simp add: w4_def w3_def w2_def set_image_def lp_upd_def ScheduleRetractableEvent_def)
  moreover have "\<not> silent_processing w4" "image_of lp w4 = replay c (pasts w (drop ?r0 (take n ?p))) ?img0"
    "bound (w_lps w4 lp) = bound (w_lps w lp)"
    using p3(3) lps1 by (simp_all add: w4_def w3_def w2_def lp_upd_def)
  moreover have "w_alloc w4 = w_alloc w1" by (simp add: w4_def w3_def w2_def set_image_def lp_upd_def)
  ultimately show ?thesis using rb l4(2) f4 w1(1) by blast
qed

subsection \<open>The messages that a rollback frees\<close>

definition past_addrs :: "entry list \<Rightarrow> nat list" where
  "past_addrs p = map unmark_msg (filter is_msg_past p)"

lemma undo_sent_alloc:
  "alloc_ok (w_alloc (undo_sent c pl e w)) = alloc_ok (w_alloc w)" "in_use (w_alloc (undo_sent c pl e w)) a = in_use (w_alloc w) a"
  by (simp_all add: undo_sent_def Let_def fetch_add_flags_def alloc_upd_def queue_insert_def mpi_remote_anti_msg_send_def
      gvt_remote_anti_msg_send_def msg_allocator_free_at_gvt_def msg_upd_def alloc_ok_def in_use_def)

lemma undo_past_alloc:
  assumes "alloc_ok (w_alloc w)" "in_use (w_alloc w) a"
  shows "alloc_ok (w_alloc (undo_past pl a w))" "b \<noteq> a \<Longrightarrow> in_use (w_alloc (undo_past pl a w)) b = in_use (w_alloc w) b"
proof -
  let ?w = "snd (fetch_add_flags a (- MSG_FLAG_PROCESSED) w)"
  have f: "alloc_ok (w_alloc ?w)" "in_use (w_alloc ?w) x = in_use (w_alloc w) x" for x
    using assms(1) by (simp_all add: fetch_add_flags_def alloc_upd_def msg_upd_def alloc_ok_def in_use_def)
  have "in_use (w_alloc ?w) a" using f(2) assms(2) by simp
  note k = free_kept [OF f(1) this]
  show "alloc_ok (w_alloc (undo_past pl a w))"
    using k(1) f(1) by (simp add: undo_past_def split_beta Let_def queue_insert_def) (simp add: alloc_upd_def)
  show "b \<noteq> a \<Longrightarrow> in_use (w_alloc (undo_past pl a w)) b = in_use (w_alloc w) b"
    using k(2) [of b] f(2) [of b] by (simp add: undo_past_def split_beta Let_def queue_insert_def) (simp add: alloc_upd_def)
qed

lemma anti_loop_alloc:
  assumes "anti_loop c pl es w = Inr w'" "alloc_ok (w_alloc w)" "distinct (past_addrs es)" "\<forall>a\<in>set (past_addrs es). in_use (w_alloc w) a"
  shows "alloc_ok (w_alloc w') \<and> (\<forall>b. b \<notin> set (past_addrs es) \<longrightarrow> in_use (w_alloc w') b = in_use (w_alloc w) b)"
  using assms
proof (induction es arbitrary: w)
  case (Cons e es)
  show ?case
  proof (cases "is_msg_past e")
    case True
    then obtain a where e: "e = Past a" by (cases e) auto
    have l: "anti_loop c pl es (undo_past pl a w) = Inr w'" using Cons.prems(1) e by simp
    have a: "in_use (w_alloc w) a" "a \<notin> set (past_addrs es)" "distinct (past_addrs es)" "\<forall>b\<in>set (past_addrs es). in_use (w_alloc w) b"
      using Cons.prems(3,4) e by (auto simp: past_addrs_def)
    note u = undo_past_alloc [where pl = pl, OF Cons.prems(2) a(1)]
    have "\<forall>b\<in>set (past_addrs es). in_use (w_alloc (undo_past pl a w)) b" using u(2) a(2,4) by metis
    from Cons.IH [OF l u(1) a(3) this] u(2) show ?thesis by (auto simp: past_addrs_def e)
  next
    case False
    then have "anti_loop c pl es (undo_sent c pl e w) = Inr w'" using Cons.prems(1) by (cases e) (auto split: if_splits)
    moreover have "past_addrs (e # es) = past_addrs es" using False by (simp add: past_addrs_def)
    ultimately show ?thesis using Cons.IH [of "undo_sent c pl e w"] Cons.prems(2-4) undo_sent_alloc [of c pl e w] by simp
  qed
qed simp

end
