(* ===== verification/Straggler.thy ===== *)
theory Straggler
  imports TimeWarp
begin

text \<open>
  The processing of an ordinary message by the Time Warp engine, the late ones included: the
  index match_straggler_msg finds, the execution of the handler with the messages it sends, and
  the theorem that puts them together: whatever the order of arrival, the state of the process
  is the one a sequential execution of its messages in their order gives.
\<close>

subsection \<open>The place of a late message\<close>

lemma straggler_loop_place:
  fixes s :: lp_msg and msg :: "nat \<Rightarrow> lp_msg"
  assumes "i \<le> length p"
  defines "n \<equiv> straggler_loop s msg p i"
  shows "n \<le> i" "cut p n" "\<And>k a. n \<le> k \<Longrightarrow> k < i \<Longrightarrow> p ! k = Past a \<Longrightarrow> msg_is_before s (msg a)"
    "0 < n \<Longrightarrow> \<exists>a. p ! (n - 1) = Past a \<and> \<not> msg_is_before s (msg a)"
proof -
  have "n \<le> i \<and> cut p n \<and> (\<forall>k a. n \<le> k \<and> k < i \<and> p ! k = Past a \<longrightarrow> msg_is_before s (msg a))
    \<and> (0 < n \<longrightarrow> (\<exists>a. p ! (n - 1) = Past a \<and> \<not> msg_is_before s (msg a)))"
    using assms(1) unfolding n_def
  proof (induction i)
    case (Suc i)
    note IH = Suc.IH [OF Suc_leD [OF Suc.prems]]
    show ?case
    proof (cases "\<exists>a. p ! i = Past a \<and> \<not> msg_is_before s (msg a)")
      case True
      then show ?thesis using Suc.prems by (auto simp: cut_def)
    next
      case False
      then have "straggler_loop s msg p (Suc i) = straggler_loop s msg p i" by (auto split: entry.split)
      with IH False show ?thesis by (auto simp: less_Suc_eq)
    qed
  qed (simp add: cut_def)
  then show "n \<le> i" "cut p n" "\<And>k a. n \<le> k \<Longrightarrow> k < i \<Longrightarrow> p ! k = Past a \<Longrightarrow> msg_is_before s (msg a)"
    "0 < n \<Longrightarrow> \<exists>a. p ! (n - 1) = Past a \<and> \<not> msg_is_before s (msg a)" by blast+
qed

text \<open>The order of messages does not see more than the view when no anti-messages are concerned.\<close>

definition plain :: "lp_msg \<Rightarrow> bool" where
  "plain m \<longleftrightarrow> m_flags m AND MSG_FLAG_ANTI = 0"

lemma plain_before: "plain a \<Longrightarrow> plain b \<Longrightarrow> msg_is_before a b \<longleftrightarrow> msg_is_before (view a) (view b)"
  by (simp add: plain_def msg_is_before_def msg_is_before_extended_def view_def)

definition in_order :: "lp_msg list \<Rightarrow> bool" where
  "in_order ms \<longleftrightarrow> sorted_wrt (\<lambda>a b. \<not> msg_is_before b a) ms"

lemma in_order_last:
  assumes "in_order ms" "ms \<noteq> []" "x \<in> set ms"
  shows "\<not> msg_is_before (last ms) x"
proof -
  have "ms = butlast ms @ [last ms]" using assms(2) by simp
  then have "\<forall>y\<in>set (butlast ms). \<not> msg_is_before (last ms) y" and "x \<in> set (butlast ms) \<or> x = last ms"
    using assms(1,3) unfolding in_order_def
    by (metis sorted_wrt_append list.set_intros(1), metis Un_iff set_append empty_iff insert_iff list.set)
  then show ?thesis by auto
qed

lemma in_order_snoc:
  assumes "in_order ms" "ms \<noteq> [] \<Longrightarrow> \<not> msg_is_before m (last ms)"
  shows "in_order (ms @ [m])"
proof -
  have "\<not> msg_is_before m x" if "x \<in> set ms" for x
  proof -
    have "ms \<noteq> []" using that by auto
    with in_order_last [OF assms(1) _ that] assms(2) msg.ntrans show ?thesis by blast
  qed
  then show ?thesis using assms(1) by (simp add: in_order_def sorted_wrt_append)
qed

subsection \<open>Handlers that send messages\<close>

lemma remote_send_frame:
  "w_lps (mpi_remote_msg_send pl a d w) = w_lps w" "w_retractable (mpi_remote_msg_send pl a d w) = w_retractable w"
  "silent_processing (mpi_remote_msg_send pl a d w) = silent_processing w"
  "view (w_msg (mpi_remote_msg_send pl a d w) b) = view (w_msg w b)"
  "alloc_ok (w_alloc (mpi_remote_msg_send pl a d w)) = alloc_ok (w_alloc w)"
  "in_use (w_alloc (mpi_remote_msg_send pl a d w)) b = in_use (w_alloc w) b"
  "m_flags (w_msg (mpi_remote_msg_send pl a d w) b) = (if b = a then m_flags (w_msg (gvt_remote_msg_send pl a d w) a) else m_flags (w_msg w b))"
  by (simp_all add: mpi_remote_msg_send_def gvt_remote_msg_send_def Let_def alloc_upd_def w_msg_def msg_upd_def msg_at_def
      alloc_ok_def in_use_def)

text \<open>What scheduling a message leaves alone, for the messages in use.\<close>

definition sends_only :: "nat \<Rightarrow> 's worker \<Rightarrow> 's worker \<Rightarrow> bool" where
  "sends_only lp w w' \<longleftrightarrow> alloc_ok (w_alloc w') \<and> \<not> silent_processing w'
     \<and> (\<forall>a. in_use (w_alloc w) a \<longrightarrow> in_use (w_alloc w') a \<and> view (w_msg w' a) = view (w_msg w a))
     \<and> (\<forall>l. l \<noteq> lp \<longrightarrow> w_lps w' l = w_lps w l) \<and> lp_state (w_lps w' lp) = lp_state (w_lps w lp)
     \<and> logs (w_lps w' lp) = logs (w_lps w lp) \<and> bound (w_lps w' lp) = bound (w_lps w lp)
     \<and> (\<exists>ss. p_msgs (w_lps w' lp) = p_msgs (w_lps w lp) @ ss \<and> (\<forall>e\<in>set ss. is_msg_sent e))"

lemma sends_only_trans:
  assumes "sends_only lp w w'" "sends_only lp w' w''"
  shows "sends_only lp w w''"
proof -
  from assms(1) obtain xs where "p_msgs (w_lps w' lp) = p_msgs (w_lps w lp) @ xs" "\<forall>e\<in>set xs. is_msg_sent e"
    by (auto simp: sends_only_def)
  moreover from assms(2) obtain ys where "p_msgs (w_lps w'' lp) = p_msgs (w_lps w' lp) @ ys" "\<forall>e\<in>set ys. is_msg_sent e"
    by (auto simp: sends_only_def)
  ultimately have "p_msgs (w_lps w'' lp) = p_msgs (w_lps w lp) @ (xs @ ys) \<and> (\<forall>e\<in>set (xs @ ys). is_msg_sent e)" by auto
  then have "\<exists>ss. p_msgs (w_lps w'' lp) = p_msgs (w_lps w lp) @ ss \<and> (\<forall>e\<in>set ss. is_msg_sent e)" by blast
  with assms show ?thesis by (simp add: sends_only_def)
qed

lemma schedule_grows:
  assumes al: "alloc_ok (w_alloc w)" and s: "\<not> silent_processing w" "\<not> debug c"
  shows "\<exists>w'. ScheduleNewEvent c pl lp r t ty pld w = Inr w' \<and> sends_only lp w w' \<and> w_retractable w' = w_retractable w"
proof -
  obtain a al1 where p: "msg_allocator_pack r t ty pld (w_alloc w) = (a, al1)" by fastforce
  note n = pack_new [OF al p]
  let ?w = "w\<lparr>w_alloc := al1\<rparr>" and ?d = "lid_to_nid (n_nodes pl) (of_nat (lps c)) (of_nat r)"
  have old: "in_use al1 b \<and> msg_at al1 b = msg_at (w_alloc w) b" if "in_use (w_alloc w) b" for b
    using that n(2) n(4) [of b] n(5) [of b] by (cases "b = a") auto
  show ?thesis
  proof (cases "?d = nid pl")
    case True
    let ?w' = "lp_upd lp (\<lambda>x. x\<lparr>p_msgs := p_msgs x @ [SentLocal a]\<rparr>)
      (queue_insert pl a (alloc_upd (msg_upd a (\<lambda>m. m\<lparr>m_flags := 0\<rparr>)) ?w))"
    have "ScheduleNewEvent c pl lp r t ty pld w = Inr ?w'" using p s True by (simp add: ScheduleNewEvent_def Let_def)
    moreover have "view (w_msg ?w' b) = view (w_msg w b) \<and> in_use (w_alloc ?w') b" if "in_use (w_alloc w) b" for b
      using old [OF that] n(2) that
      by (auto simp: lp_upd_def queue_insert_def alloc_upd_def w_msg_def msg_upd_def msg_at_def in_use_def)
    moreover have "alloc_ok (w_alloc ?w')" using n(1) by (simp add: lp_upd_def queue_insert_def alloc_upd_def msg_upd_def alloc_ok_def)
    ultimately show ?thesis using s
      by (intro exI [of _ ?w']) (auto simp: sends_only_def lp_upd_def queue_insert_def alloc_upd_def)
  next
    case False
    let ?w' = "lp_upd lp (\<lambda>x. x\<lparr>p_msgs := p_msgs x @ [SentRemote a]\<rparr>) (mpi_remote_msg_send pl a ?d ?w)"
    have "ScheduleNewEvent c pl lp r t ty pld w = Inr ?w'" using p s False by (simp add: ScheduleNewEvent_def Let_def)
    moreover have "view (w_msg ?w' b) = view (w_msg w b) \<and> in_use (w_alloc ?w') b" if "in_use (w_alloc w) b" for b
      using old [OF that] remote_send_frame(4,6) [of pl a ?d ?w b]
      by (simp add: lp_upd_def w_msg_def)
    moreover have "alloc_ok (w_alloc ?w')" using n(1) remote_send_frame(5) [of pl a ?d ?w] by (simp add: lp_upd_def)
    ultimately show ?thesis using s remote_send_frame(1,2,3) [of pl a ?d ?w]
      by (intro exI [of _ ?w']) (auto simp: sends_only_def lp_upd_def)
  qed
qed

lemma schedule_twice [simp]: "ScheduleRetractableEvent lp t (ScheduleRetractableEvent lp t' r) = ScheduleRetractableEvent lp t r"
  by (simp add: ScheduleRetractableEvent_def)

lemma calls_grow:
  assumes "alloc_ok (w_alloc w)" "\<not> silent_processing w" "\<not> debug c"
  shows "\<exists>w'. foldR (lp_call c pl lp) cs w = Inr w' \<and> sends_only lp w w'
    \<and> w_retractable w' = ScheduleRetractableEvent lp (retract_time cs (retractable_ctx (w_retractable w) lp)) (w_retractable w)"
  using assms(1,2)
proof (induction cs arbitrary: w)
  case Nil
  then show ?case by (auto simp: sends_only_def retract_time_def ScheduleRetractableEvent_def)
next
  case (Cons x cs)
  show ?case
  proof (cases x)
    case (Schedule r t ty pld)
    from schedule_grows [OF Cons.prems assms(3), of pl lp r t ty pld] obtain w1 where
      1: "ScheduleNewEvent c pl lp r t ty pld w = Inr w1" "sends_only lp w w1" "w_retractable w1 = w_retractable w" by blast
    have "alloc_ok (w_alloc w1)" "\<not> silent_processing w1" using 1(2) by (simp_all add: sends_only_def)
    from Cons.IH [OF this] obtain w' where "foldR (lp_call c pl lp) cs w1 = Inr w'" "sends_only lp w1 w'"
      "w_retractable w' = ScheduleRetractableEvent lp (retract_time cs (retractable_ctx (w_retractable w1) lp)) (w_retractable w1)"
      by blast
    with 1 Schedule sends_only_trans show ?thesis by (intro exI [of _ w']) (auto simp: retract_time_def)
  next
    case (Retract t)
    let ?w = "w\<lparr>w_retractable := ScheduleRetractableEvent lp t (w_retractable w)\<rparr>"
    have "alloc_ok (w_alloc ?w)" "\<not> silent_processing ?w" using Cons.prems by simp_all
    from Cons.IH [OF this] obtain w' where "foldR (lp_call c pl lp) cs ?w = Inr w'" "sends_only lp ?w w'"
      "w_retractable w' = ScheduleRetractableEvent lp (retract_time cs (retractable_ctx (w_retractable ?w) lp)) (w_retractable ?w)"
      by blast
    moreover have "sends_only lp w ?w" using Cons.prems by (simp add: sends_only_def w_msg_def)
    ultimately show ?thesis using Retract sends_only_trans
      by (intro exI [of _ w']) (auto simp: retract_time_def ScheduleRetractableEvent_def)
  qed
qed

subsection \<open>The execution of a message\<close>

lemma pasts_same:
  "(\<And>e. e \<in> set p \<Longrightarrow> is_msg_past e \<Longrightarrow> view (w_msg w' (unmark_msg e)) = view (w_msg w (unmark_msg e))) \<Longrightarrow> pasts w' p = pasts w p"
  by (auto simp: pasts_def)

lemma pasts_sent_filter: "\<forall>e\<in>set es. is_msg_sent e \<Longrightarrow> filter is_msg_past es = []"
proof -
  have "\<not> is_msg_past e" if "is_msg_sent e" for e using that by (cases e) auto
  then show "\<forall>e\<in>set es. is_msg_sent e \<Longrightarrow> filter is_msg_past es = []" by (auto simp: filter_empty_conv)
qed

lemma pasts_sent: "\<forall>e\<in>set es. is_msg_sent e \<Longrightarrow> pasts w es = []"
  by (simp add: pasts_def pasts_sent_filter)

lemma logs_ok_extend:
  assumes "logs_ok c ms p ls" "\<And>q. set q \<subseteq> set p \<Longrightarrow> ms' q = ms q"
  shows "logs_ok c ms' (p @ es) ls"
proof -
  have "cut (p @ es) r \<and> img = replay c (ms' (drop (fst (hd ls)) (take r (p @ es)))) (snd (hd ls))" if "(r, img) \<in> set ls" for r img
  proof -
    have "cut p r" "img = replay c (ms (drop (fst (hd ls)) (take r p))) (snd (hd ls))" using that assms(1) by (auto simp: logs_ok_def)
    moreover have "set (drop (fst (hd ls)) (take r p)) \<subseteq> set p" by (meson in_set_dropD in_set_takeD subsetI)
    ultimately show ?thesis using assms(2) by (cases "r = 0") (auto simp: cut_def nth_append)
  qed
  then show ?thesis using assms(1) by (auto simp: logs_ok_def)
qed

lemma logs_ok_cut: "logs_ok c ms p ls \<Longrightarrow> cut p (fst (hd ls))"
proof -
  assume l: "logs_ok c ms p ls"
  then have "hd ls \<in> set ls" by (simp add: logs_ok_def)
  then have "(fst (hd ls), snd (hd ls)) \<in> set ls" by simp
  with l show ?thesis unfolding logs_ok_def by blast
qed

lemma logs_ok_add:
  assumes "logs_ok c ms p ls" "cut p (length p)" "img = replay c (ms (drop (fst (hd ls)) p)) (snd (hd ls))"
  shows "logs_ok c ms p (ls @ [(length p, img)])"
proof -
  have "r \<le> length p" if "(r, i) \<in> set ls" for r i using that assms(1) by (auto simp: logs_ok_def cut_def)
  then have "sorted (map fst (ls @ [(length p, img)]))" using assms(1) by (auto simp: logs_ok_def sorted_append)
  moreover have "hd (ls @ [(length p, img)]) = hd ls" using assms(1) by (simp add: logs_ok_def)
  ultimately show ?thesis using assms by (auto simp: logs_ok_def)
qed

text \<open>What the processing of a process relies on besides its own invariant.\<close>

definition worker_ok :: "nat set \<Rightarrow> nat \<Rightarrow> 's worker \<Rightarrow> bool" where
  "worker_ok L lp w \<longleftrightarrow> alloc_ok (w_alloc w) \<and> \<not> silent_processing w \<and> lp \<in> L
     \<and> rq_ok L (w_retractable w) \<and> rq_timely {lp} (w_retractable w)
     \<and> distinct (past_addrs (p_msgs (w_lps w lp))) \<and> (\<forall>a\<in>set (past_addrs (p_msgs (w_lps w lp))). in_use (w_alloc w) a)"

lemma rq_ok_schedule:
  "rq_ok L r \<Longrightarrow> rq_timely {lp} r \<Longrightarrow> rq_ok L (ScheduleRetractableEvent lp t r) \<and> rq_timely {lp} (ScheduleRetractableEvent lp t r)"
  by (auto simp: ScheduleRetractableEvent_def rq_ok_def rq_timely_def)

lemma termination_frame:
  "w_alloc (termination_on_msg_process c lp t w) = w_alloc w" "w_retractable (termination_on_msg_process c lp t w) = w_retractable w"
  "silent_processing (termination_on_msg_process c lp t w) = silent_processing w"
  "p_msgs (w_lps (termination_on_msg_process c lp t w) l) = p_msgs (w_lps w l)"
  "logs (w_lps (termination_on_msg_process c lp t w) l) = logs (w_lps w l)"
  "lp_state (w_lps (termination_on_msg_process c lp t w) l) = lp_state (w_lps w l)"
  "bound (w_lps (termination_on_msg_process c lp t w) l) = bound (w_lps w l)"
  by (simp_all add: termination_on_msg_process_def lp_upd_def Let_def)

text \<open>The worker after the handler: the entries, the checkpoint that may be taken.\<close>

lemma forward_kept:
  assumes ok: "logs_ok c (pasts w) (p_msgs (w_lps w lp)) (logs (w_lps w lp))" "worker_ok L lp w" "in_use (w_alloc w) msg" "\<not> debug c"
    and fresh: "msg \<notin> set (past_addrs (p_msgs (w_lps w lp)))"
    and im: "image_of lp w = (fst i, if m_type (w_msg w msg) = LP_RETRACTABLE then SIMTIME_MAX else snd i)"
    and i: "i = replay c (pasts w (drop (fst (first_log lp w)) (p_msgs (w_lps w lp)))) (snd (first_log lp w))"
    and t: "timely c now (snd (first_log lp w)) (pasts w (drop (fst (first_log lp w)) (p_msgs (w_lps w lp))) @ [view (w_msg w msg)])"
  shows "\<exists>w'. process_forward c pl lp msg w = Inr w' \<and> tw_ok c lp w' \<and> worker_ok L lp w' \<and> rq_timely {} (w_retractable w')
    \<and> first_log lp w' = first_log lp w \<and> pasts w' (p_msgs (w_lps w' lp)) = pasts w (p_msgs (w_lps w lp)) @ [view (w_msg w msg)]
    \<and> pasts w' (drop (fst (first_log lp w)) (p_msgs (w_lps w' lp)))
      = pasts w (drop (fst (first_log lp w)) (p_msgs (w_lps w lp))) @ [view (w_msg w msg)]
    \<and> bound (w_lps w' lp) = m_dest_t (w_msg w msg)"
proof -
  let ?m = "w_msg w msg" and ?p = "p_msgs (w_lps w lp)" and ?r0 = "fst (first_log lp w)" and ?img0 = "snd (first_log lp w)"
  obtain st cs where d: "dispatcher c (m_dest ?m) (m_dest_t ?m) (m_type ?m) (m_pl ?m) (lp_state (w_lps w lp)) = (st, cs)" by fastforce
  let ?w1 = "lp_upd lp (\<lambda>x. x\<lparr>lp_state := st\<rparr>) (w\<lparr>current_msg := msg\<rparr>)"
  have "alloc_ok (w_alloc ?w1)" "\<not> silent_processing ?w1" using ok(2) by (simp_all add: worker_ok_def lp_upd_def)
  from calls_grow [OF this ok(4), of pl lp cs] obtain w2 where w2: "foldR (lp_call c pl lp) cs ?w1 = Inr w2" "sends_only lp ?w1 w2"
    "w_retractable w2 = ScheduleRetractableEvent lp (retract_time cs (retractable_ctx (w_retractable w) lp)) (w_retractable w)"
    by (auto simp: lp_upd_def)
  have disp: "dispatch c pl lp msg (w\<lparr>current_msg := msg\<rparr>) = Inr w2" using w2(1) d by (simp add: dispatch_def Let_def w_msg_def)
  have g: "alloc_ok (w_alloc w2)" "\<not> silent_processing w2" "lp_state (w_lps w2 lp) = st" "logs (w_lps w2 lp) = logs (w_lps w lp)"
    using w2(2) by (simp_all add: sends_only_def lp_upd_def)
  have use: "in_use (w_alloc w2) a \<and> view (w_msg w2 a) = view (w_msg w a)" if "in_use (w_alloc w) a" for a
    using w2(2) that by (auto simp: sends_only_def lp_upd_def w_msg_def)
  have "view (w_msg w2 msg) = view ?m" using use ok(3) by blast
  then have mt: "m_dest_t (w_msg w2 msg) = m_dest_t ?m" by (metis view_simps(5))
  obtain ss where ss: "p_msgs (w_lps w2 lp) = ?p @ ss" "\<forall>e\<in>set ss. is_msg_sent e"
    using w2(2) by (auto simp: sends_only_def lp_upd_def)
  have rt: "retractable_ctx (w_retractable w2) lp = retract_time cs (retractable_ctx (w_retractable w) lp)"
    by (simp add: w2(3) ScheduleRetractableEvent_def)
  let ?w3 = "lp_upd lp (\<lambda>x. x\<lparr>bound := m_dest_t (w_msg w2 msg)\<rparr>) w2"
  have q: "rq_ok L (w_retractable w)" "rq_timely {lp} (w_retractable w)" and L: "lp \<in> L" using ok(2) by (simp_all add: worker_ok_def)
  have "rq_ok L (w_retractable ?w3) \<and> rq_timely {lp} (w_retractable ?w3)"
    using rq_ok_schedule [OF q] w2(3) by (simp add: lp_upd_def)
  then obtain r where r: "retractable_reschedule lp (w_retractable ?w3) = Inr r" "rq_ok L r" "rq_timely {} r"
    "retractable_ctx r = retractable_ctx (w_retractable w2)" using reschedule_kept [of L "w_retractable ?w3" lp] L by (auto simp: lp_upd_def)
  define w5 where "w5 = lp_upd lp (\<lambda>x. x\<lparr>p_msgs := p_msgs x @ [Past msg], lp_ckpt := auto_ckpt_register_good (lp_ckpt x)\<rparr>)
    (?w3\<lparr>w_retractable := r\<rparr>)"
  obtain needed ac where na: "auto_ckpt_is_needed (lp_ckpt (w_lps w5 lp)) = (needed, ac)" by fastforce
  define w6 where "w6 = lp_upd lp (\<lambda>x. x\<lparr>lp_ckpt := ac\<rparr>) w5"
  define w7 where "w7 = (if needed then checkpoint_take lp w6 else w6)"
  define w8 where "w8 = termination_on_msg_process c lp (m_dest_t (w_msg w7 msg)) w7"
  have fw: "process_forward c pl lp msg w = Inr w8"
    using disp r(1) na unfolding process_forward_def reschedule_def
    by (cases needed) (simp_all add: Let_def w5_def [symmetric] w6_def [symmetric] w7_def w8_def)
  define p' where "p' = ?p @ ss @ [Past msg]"
  have f6: "p_msgs (w_lps w6 lp) = p'" "logs (w_lps w6 lp) = logs (w_lps w lp)" "w_alloc w6 = w_alloc w2"
    "image_of lp w6 = (st, retract_time cs (retractable_ctx (w_retractable w) lp))" "w_retractable w6 = r" "\<not> silent_processing w6"
    "bound (w_lps w6 lp) = m_dest_t ?m"
    using g ss(1) r(4) rt mt by (simp_all add: w6_def w5_def lp_upd_def p'_def image_of_def)
  have f7: "p_msgs (w_lps w7 lp) = p'" "w_alloc w7 = w_alloc w2" "image_of lp w7 = image_of lp w6" "w_retractable w7 = r"
    "\<not> silent_processing w7" "bound (w_lps w7 lp) = m_dest_t ?m"
    "logs (w_lps w7 lp) = (if needed then logs (w_lps w lp) @ [(length p', image_of lp w6)] else logs (w_lps w lp))"
    using f6 by (simp_all add: w7_def checkpoint_take_def model_allocator_checkpoint_take_def lp_upd_def image_of_def)
  have f8: "p_msgs (w_lps w8 lp) = p'" "w_alloc w8 = w_alloc w2" "image_of lp w8 = image_of lp w6" "w_retractable w8 = r"
    "\<not> silent_processing w8" "bound (w_lps w8 lp) = m_dest_t ?m" "logs (w_lps w8 lp) = logs (w_lps w7 lp)"
    using f7 by (simp_all add: w8_def termination_frame image_of_def)
  have msgs8: "w_msg w8 = w_msg w2" using f8(2) by (simp add: w_msg_def fun_eq_iff)
  have inu: "in_use (w_alloc w) (unmark_msg e)" if "e \<in> set ?p" "is_msg_past e" for e
    using ok(2) that by (auto simp: worker_ok_def past_addrs_def)
  have same: "pasts w8 q = pasts w q" if "set q \<subseteq> set ?p" for q
  proof (rule pasts_same)
    fix e assume "e \<in> set q" "is_msg_past e"
    with that inu have "in_use (w_alloc w) (unmark_msg e)" by blast
    then show "view (w_msg w8 (unmark_msg e)) = view (w_msg w (unmark_msg e))" unfolding msgs8 using use by blast
  qed
  have new: "pasts w8 (q @ ss @ [Past msg]) = pasts w q @ [view ?m]" if "set q \<subseteq> set ?p" for q
    using same [OF that] pasts_sent [OF ss(2), of w8] use [OF ok(3)] by (simp add: pasts_append) (simp add: pasts_def msgs8)
  have l0: "logs (w_lps w lp) \<noteq> []" "fst (hd (logs (w_lps w lp))) = ?r0" "snd (hd (logs (w_lps w lp))) = ?img0"
    using ok(1) by (simp_all add: logs_ok_def first_log_def)
  have l1: "?r0 \<le> length ?p" using logs_ok_cut [OF ok(1)] by (simp add: first_log_def cut_def)
  have dp: "drop ?r0 p' = drop ?r0 ?p @ ss @ [Past msg]" using l1 by (simp add: p'_def)
  have nd: "pasts w8 (drop ?r0 p') = pasts w (drop ?r0 ?p) @ [view ?m]"
    unfolding dp by (rule new) (rule set_drop_subset)
  have im6: "image_of lp w6 = replay c (pasts w8 (drop ?r0 p')) ?img0"
  proof -
    have "step c (view ?m) i = (st, retract_time cs (retractable_ctx (w_retractable w) lp))"
      using im d by (simp add: step_def handle_def image_of_def)
    then show ?thesis unfolding nd by (simp add: f6(4) replay_append i [symmetric]) (simp add: replay_def)
  qed
  have cp: "cut p' (length p')" by (simp add: cut_def p'_def nth_append)
  have lo: "logs_ok c (pasts w8) p' (logs (w_lps w lp))" unfolding p'_def by (rule logs_ok_extend [OF ok(1) same])
  have lo8: "logs_ok c (pasts w8) p' (logs (w_lps w8 lp))"
    using logs_ok_add [OF lo cp, of "image_of lp w6"] lo im6 l0 by (simp add: f8(7) f7(7))
  have fl: "first_log lp w8 = first_log lp w" using l0(1) by (simp add: first_log_def f8(7) f7(7))
  have "tw_ok c lp w8"
    by (rule tw_okI [OF lo8 f8(1) cp]) (use im6 t nd in \<open>simp_all add: fl f8(3)\<close>)
  moreover have "worker_ok L lp w8"
  proof -
    have "past_addrs p' = past_addrs ?p @ [msg]" using pasts_sent_filter [OF ss(2)] by (simp add: past_addrs_def p'_def)
    then have "distinct (past_addrs p')" "\<forall>a\<in>set (past_addrs p'). in_use (w_alloc w2) a"
      using ok(2,3) fresh use by (auto simp: worker_ok_def)
    moreover have "rq_timely {lp} r" using r(3) by (auto simp: rq_timely_def)
    ultimately show ?thesis using g(1) f8 r(2) L by (simp add: worker_ok_def)
  qed
  moreover have "pasts w8 p' = pasts w ?p @ [view ?m]" unfolding p'_def by (rule new) simp
  ultimately show ?thesis using fw fl nd f8 r(3) by (intro exI [of _ w8]) simp
qed

subsection \<open>Late and timely messages\<close>

text \<open>A handler asks for its own event at a later time only.\<close>

definition asks_later :: "'s config \<Rightarrow> lp_msg \<Rightarrow> bool" where
  "asks_later c m \<longleftrightarrow> (\<forall>st t. Retract t \<in> set (snd (dispatcher c (m_dest m) (m_dest_t m) (m_type m) (m_pl m) st)) \<longrightarrow> m_dest_t m < t)"

lemma retract_time_later:
  "(\<And>t. Retract t \<in> set cs \<Longrightarrow> now < t) \<Longrightarrow> now < t0 \<Longrightarrow> now < retract_time cs t0"
  unfolding retract_time_def
proof (induction cs arbitrary: t0)
  case (Cons x cs)
  then show ?case by (cases x) auto
qed simp

lemma timely_snoc:
  assumes "timely c now img ms" "ms \<noteq> [] \<Longrightarrow> m_dest_t (last ms) \<le> m_dest_t m" "m_dest_t m < SIMTIME_MAX"
    and "m_type m \<noteq> LP_RETRACTABLE" "m_dest_t m < snd (replay c ms img)" "asks_later c m"
  shows "\<exists>now'. timely c now' img (ms @ [m])"
proof -
  have l: "m_dest_t m < snd (step c m i)" if "m_dest_t m < snd i" for i
    using that assms(4,6) retract_time_later [of _ "m_dest_t m" "snd i"]
    by (auto simp: step_def handle_def asks_later_def split_beta)
  show ?thesis
  proof (cases "ms = []")
    case True
    let ?n = "min now (m_dest_t m)"
    have "timely c ?n img [m]" using assms True l [of img] by (auto simp: replay_def)
    with True show ?thesis by auto
  next
    case False
    then have "timely c (m_dest_t (last ms)) (replay c ms img) [m]"
      using assms timely_last [OF assms(1)] l by auto
    with False assms(1) show ?thesis by (auto simp: timely_append)
  qed
qed

text \<open>The messages before the place of a late one are those that it does not precede.\<close>

lemma place_splits:
  assumes p: "p \<noteq> []" "cut p (length p)" "in_order (pasts w p)" "msg_is_before s (w_msg w (unmark_msg (last p)))"
    and pl: "plain s" "\<forall>e\<in>set p. is_msg_past e \<longrightarrow> plain (w_msg w (unmark_msg e))"
  defines "n \<equiv> straggler_loop s (w_msg w) p (length p - 1)"
  shows "cut p n" "n < length p" "\<forall>x\<in>set (pasts w (drop n p)). msg_is_before (view s) x"
    "\<forall>x\<in>set (pasts w (take n p)). \<not> msg_is_before (view s) x"
proof -
  have i: "length p - 1 \<le> length p" by simp
  note st = straggler_loop_place [OF i, of s "w_msg w", folded n_def]
  have "0 < length p" using p(1) by simp
  then show n: "n < length p" using st(1) by linarith
  show "cut p n" by (rule st(2))
  have pb: "msg_is_before s (w_msg w a) \<longleftrightarrow> msg_is_before (view s) (view (w_msg w a))" if "Past a \<in> set p" for a
    using pl that by (intro plain_before) auto
  have "msg_is_before (view s) (view (w_msg w a))" if a: "Past a \<in> set (drop n p)" for a
  proof -
    obtain k where k: "n \<le> k" "k < length p" "p ! k = Past a"
      using a by (auto simp: in_set_conv_nth) (metis le_add1 add.commute less_diff_conv)
    then have "Past a \<in> set p" using nth_mem by metis
    moreover have "msg_is_before s (w_msg w a)"
    proof (cases "k = length p - 1")
      case True
      then show ?thesis using p(1,4) k(3) by (simp add: last_conv_nth)
    next
      case False
      then show ?thesis using st(3) [OF k(1) _ k(3)] k(2) by simp
    qed
    ultimately show ?thesis using pb by simp
  qed
  then show "\<forall>x\<in>set (pasts w (drop n p)). msg_is_before (view s) x"
    by (auto simp: pasts_def elim!: is_msg_past.elims)
  show "\<forall>x\<in>set (pasts w (take n p)). \<not> msg_is_before (view s) x"
  proof
    fix x assume x: "x \<in> set (pasts w (take n p))"
    then have "0 < n" by (cases n) (auto simp: pasts_def)
    with st(4) obtain a where a: "p ! (n - 1) = Past a" "\<not> msg_is_before s (w_msg w a)" by blast
    have "Past a \<in> set p" using a(1) n by (metis less_imp_diff_less nth_mem)
    then have b: "\<not> msg_is_before (view s) (view (w_msg w a))" using pb a(2) by simp
    have "take n p = take (n - 1) p @ [Past a]" using a(1) \<open>0 < n\<close> n take_Suc_conv_app_nth [of "n - 1" p] by simp
    then have l: "last (pasts w (take n p)) = view (w_msg w a)" "pasts w (take n p) \<noteq> []" by (simp_all add: pasts_def)
    have "pasts w p = pasts w (take n p) @ pasts w (drop n p)" by (simp add: pasts_append [symmetric])
    then have "in_order (pasts w (take n p))" using p(3) by (simp add: in_order_def sorted_wrt_append)
    from in_order_last [OF this l(2) x] b show "\<not> msg_is_before (view s) x" unfolding l(1) using msg.ntrans by blast
  qed
qed

lemma filter_split: "\<forall>x\<in>set xs. P x \<Longrightarrow> \<forall>y\<in>set ys. \<not> P y \<Longrightarrow> filter P (xs @ ys) = xs"
  by (simp add: filter_empty_conv)

text \<open>The steps of a late message before it is handled.\<close>

lemma rollback_frame:
  "w_alloc (register_bad lp (termination_on_lp_rollback lp t w)) = w_alloc w"
  "w_retractable (register_bad lp (termination_on_lp_rollback lp t w)) = w_retractable w"
  "silent_processing (register_bad lp (termination_on_lp_rollback lp t w)) = silent_processing w"
  "p_msgs (w_lps (register_bad lp (termination_on_lp_rollback lp t w)) l) = p_msgs (w_lps w l)"
  "logs (w_lps (register_bad lp (termination_on_lp_rollback lp t w)) l) = logs (w_lps w l)"
  "lp_state (w_lps (register_bad lp (termination_on_lp_rollback lp t w)) l) = lp_state (w_lps w l)"
  "bound (w_lps (register_bad lp (termination_on_lp_rollback lp t w)) l) = bound (w_lps w l)"
  by (simp_all add: termination_on_lp_rollback_def register_bad_def lp_upd_def Let_def)

lemma tw_ok_frame:
  assumes "w_alloc w' = w_alloc w" "w_retractable w' = w_retractable w" "p_msgs (w_lps w' lp) = p_msgs (w_lps w lp)"
    "logs (w_lps w' lp) = logs (w_lps w lp)" "lp_state (w_lps w' lp) = lp_state (w_lps w lp)"
  shows "pasts w' = pasts w" "first_log lp w' = first_log lp w" "image_of lp w' = image_of lp w" "tw_ok c lp w' = tw_ok c lp w"
proof -
  show "pasts w' = pasts w" using assms(1) by (simp add: pasts_def w_msg_def fun_eq_iff)
  then show "first_log lp w' = first_log lp w" "image_of lp w' = image_of lp w" "tw_ok c lp w' = tw_ok c lp w"
    using assms by (simp_all add: first_log_def image_of_def tw_ok_def Let_def)
qed

lemma straggler_kept:
  assumes ok: "tw_ok c lp w" "worker_ok L lp w" and m: "in_use (w_alloc w) msg" "msg \<notin> set (past_addrs (p_msgs (w_lps w lp)))"
    and pl: "plain (w_msg w msg)" "\<forall>e\<in>set (p_msgs (w_lps w lp)). is_msg_past e \<longrightarrow> plain (w_msg w (unmark_msg e))"
    and ord: "in_order (pasts w (p_msgs (w_lps w lp)))" "p_msgs (w_lps w lp) \<noteq> []"
    and late: "msg_is_before (w_msg w msg) (w_msg w (unmark_msg (last (p_msgs (w_lps w lp)))))"
    and first: "\<forall>x\<in>set (pasts w (take (fst (first_log lp w)) (p_msgs (w_lps w lp)))). \<not> msg_is_before (view (w_msg w msg)) x"
  defines "keep \<equiv> (\<lambda>x. \<not> msg_is_before (view (w_msg w msg)) x)"
  shows "\<exists>w'. handle_straggler_msg c pl lp msg w = Inr w' \<and> tw_ok c lp w' \<and> worker_ok L lp w' \<and> first_log lp w' = first_log lp w
    \<and> in_use (w_alloc w') msg \<and> view (w_msg w' msg) = view (w_msg w msg) \<and> msg \<notin> set (past_addrs (p_msgs (w_lps w' lp)))
    \<and> pasts w' (p_msgs (w_lps w' lp)) = filter keep (pasts w (p_msgs (w_lps w lp)))
    \<and> pasts w' (drop (fst (first_log lp w)) (p_msgs (w_lps w' lp))) = filter keep (pasts w (drop (fst (first_log lp w)) (p_msgs (w_lps w lp))))"
proof -
  let ?p = "p_msgs (w_lps w lp)" and ?r0 = "fst (first_log lp w)"
  define n where "n = straggler_loop (w_msg w msg) (w_msg w) ?p (length ?p - 1)"
  note k = tw_okD [OF ok(1)]
  note sp = place_splits [OF ord(2) k(2) ord(1) late pl, folded n_def]
  have cr: "cut ?p ?r0" using logs_ok_cut [OF k(1)] by (simp add: first_log_def)
  have r0: "?r0 \<le> n"
  proof (rule ccontr)
    assume "\<not> ?r0 \<le> n"
    then have r: "n \<le> ?r0 - 1" "0 < ?r0" "?r0 - 1 < length ?p" using cr by (auto simp: cut_def)
    with cr obtain a where a: "?p ! (?r0 - 1) = Past a" by (cases "?p ! (?r0 - 1)") (auto simp: cut_def)
    have "drop n ?p ! (?r0 - 1 - n) = Past a" "?r0 - 1 - n < length (drop n ?p)" using a r by auto
    then have "Past a \<in> set (drop n ?p)" by (metis nth_mem)
    then have "msg_is_before (view (w_msg w msg)) (view (w_msg w a))" using sp(3) by (force simp: pasts_def)
    moreover have "take ?r0 ?p ! (?r0 - 1) = Past a" "?r0 - 1 < length (take ?r0 ?p)" using a r by auto
    then have "Past a \<in> set (take ?r0 ?p)" by (metis nth_mem)
    then have "\<not> msg_is_before (view (w_msg w msg)) (view (w_msg w a))" using first by (force simp: pasts_def)
    ultimately show False by blast
  qed
  have s: "\<not> silent_processing w" using ok(2) by (simp add: worker_ok_def)
  from rollback_kept [OF ok(1) s sp(1) r0, of pl] obtain w1 w0 where w1: "do_rollback c pl lp n w = Inr w1" "tw_ok c lp w1"
    "\<not> silent_processing w1" "p_msgs (w_lps w1 lp) = take n ?p" "first_log lp w1 = first_log lp w"
    "\<forall>a. view (w_msg w1 a) = view (w_msg w a)" "\<exists>t. w_retractable w1 = ScheduleRetractableEvent lp t (w_retractable w)"
    and w0: "anti_loop c pl (drop n ?p) w = Inr w0" "w_alloc w1 = w_alloc w0" by blast
  let ?w = "register_bad lp (termination_on_lp_rollback lp (m_dest_t (w_msg w1 msg)) w1)"
  have h: "handle_straggler_msg c pl lp msg w = Inr ?w"
    using w1(1) ord(2) by (simp add: handle_straggler_msg_def match_straggler_msg_def n_def Let_def)
  note fr = tw_ok_frame [of ?w w1 lp, OF rollback_frame(1,2,4,5,6)]
  have ps: "pasts w1 = pasts w" using w1(6) by (simp add: pasts_def fun_eq_iff)
  have pa: "past_addrs ?p = past_addrs (take n ?p) @ past_addrs (drop n ?p)"
    by (simp add: past_addrs_def map_append [symmetric] filter_append [symmetric] del: map_append filter_append)
  have d: "distinct (past_addrs ?p)" "\<forall>a\<in>set (past_addrs ?p). in_use (w_alloc w) a" "alloc_ok (w_alloc w)"
    using ok(2) by (simp_all add: worker_ok_def)
  have al: "alloc_ok (w_alloc w0)" "\<And>b. b \<notin> set (past_addrs (drop n ?p)) \<Longrightarrow> in_use (w_alloc w0) b = in_use (w_alloc w) b"
    using anti_loop_alloc [OF w0(1) d(3)] d(1,2) pa by auto
  have rq: "rq_ok L (w_retractable w1)" "rq_timely {lp} (w_retractable w1)"
    using w1(7) ok(2) rq_ok_schedule [of L "w_retractable w" lp] by (auto simp: worker_ok_def)
  have "worker_ok L lp ?w"
    using al d(1,2) pa rq w1(3,4) w0(2) ok(2) by (auto simp: worker_ok_def rollback_frame)
  moreover have "in_use (w_alloc ?w) msg" "msg \<notin> set (past_addrs (p_msgs (w_lps ?w lp)))"
    using al(2) [of msg] m pa w0(2) w1(4) by (auto simp: rollback_frame)
  moreover have "view (w_msg ?w msg) = view (w_msg w msg)" using w1(6) by (simp add: w_msg_def rollback_frame)
  moreover have "pasts ?w (p_msgs (w_lps ?w lp)) = filter keep (pasts w ?p)"
  proof -
    have "pasts w ?p = pasts w (take n ?p) @ pasts w (drop n ?p)" by (simp add: pasts_append [symmetric])
    moreover have "filter keep (pasts w (take n ?p) @ pasts w (drop n ?p)) = pasts w (take n ?p)"
      by (rule filter_split) (use sp(3,4) in \<open>auto simp: keep_def\<close>)
    ultimately show ?thesis using fr(1) ps w1(4) by (simp add: rollback_frame)
  qed
  moreover have "pasts ?w (drop ?r0 (p_msgs (w_lps ?w lp))) = filter keep (pasts w (drop ?r0 ?p))"
  proof -
    have "pasts w (drop ?r0 ?p) = pasts w (drop ?r0 (take n ?p)) @ pasts w (drop n ?p)"
      using drop_take_split [OF r0, of "length ?p" ?p] sp(2) by (simp add: pasts_append [symmetric])
    moreover have "set (pasts w (drop ?r0 (take n ?p))) \<subseteq> set (pasts w (take n ?p))"
      by (auto simp: pasts_def dest: in_set_dropD)
    then have "filter keep (pasts w (drop ?r0 (take n ?p)) @ pasts w (drop n ?p)) = pasts w (drop ?r0 (take n ?p))"
      by (intro filter_split) (use sp(3,4) in \<open>auto simp: keep_def\<close>)
    ultimately show ?thesis using fr(1) ps w1(4) by (simp add: rollback_frame)
  qed
  moreover have "tw_ok c lp ?w" "first_log lp ?w = first_log lp w" using fr(2,4) w1(2,5) by simp_all
  ultimately show ?thesis using h by blast
qed

end
