(* ===== verification/TwProps.thy ===== *)
theory TwProps
  imports Straggler
begin

text \<open>
  The properties of the Time Warp engine for a process: an ordinary message that comes at any
  time, late or not, ends at its place in the order of the messages, and the state of the process
  is again the one that its messages give one after the other; so is the state after a rollback.
  The counts that the detection of termination keeps. The concrete worker of the witnesses.
\<close>

subsection \<open>An ordinary message\<close>

definition lp_ok :: "'s config \<Rightarrow> nat set \<Rightarrow> nat \<Rightarrow> 's worker \<Rightarrow> bool" where
  "lp_ok c L lp w \<longleftrightarrow> tw_ok c lp w \<and> worker_ok L lp w \<and> in_order (pasts w (p_msgs (w_lps w lp)))
     \<and> (if p_msgs (w_lps w lp) = [] then bound (w_lps w lp) < 0
        else m_dest_t (last (pasts w (p_msgs (w_lps w lp)))) \<le> bound (w_lps w lp))"

lemma cut_last:
  assumes "cut p (length p)" "p \<noteq> []"
  shows "\<exists>a. last p = Past a \<and> pasts w p = pasts w (butlast p) @ [view (w_msg w a)]"
proof -
  from assms obtain a where a: "last p = Past a" by (cases "last p") (auto simp: cut_def last_conv_nth)
  then have "p = butlast p @ [Past a]" using assms(2) by (metis append_butlast_last_id)
  then have "pasts w p = pasts w (butlast p) @ pasts w [Past a]" by (metis pasts_append)
  then show ?thesis using a by (simp add: pasts_def)
qed

lemma before_time: "msg_is_before a b \<Longrightarrow> m_dest_t a \<le> m_dest_t b"
  by (auto simp: msg_is_before_def split: if_splits)

text \<open>A message that is not late is kept behind all the others.\<close>

lemma not_late_filter:
  assumes "in_order ms" "ms = [] \<or> \<not> msg_is_before m (last ms)"
  shows "filter (\<lambda>x. \<not> msg_is_before m x) ms = ms"
proof -
  have "\<not> msg_is_before m x" if "x \<in> set ms" for x
    using in_order_last [OF assms(1) _ that] assms(2) that msg.ntrans by fastforce
  then show ?thesis by (simp add: filter_id_conv)
qed

lemma in_order_filter: "in_order ms \<Longrightarrow> in_order (filter P ms)"
  by (simp add: in_order_def sorted_wrt_filter)

lemma ordinary_kept:
  assumes ok: "lp_ok c L lp w" and m: "in_use (w_alloc w) msg" "msg \<notin> set (past_addrs (p_msgs (w_lps w lp)))" "\<not> debug c"
    and pl: "plain (w_msg w msg)" "\<forall>e\<in>set (p_msgs (w_lps w lp)). is_msg_past e \<longrightarrow> plain (w_msg w (unmark_msg e))"
    and t: "m_type (w_msg w msg) \<noteq> LP_RETRACTABLE" "0 \<le> m_dest_t (w_msg w msg)" "m_dest_t (w_msg w msg) < SIMTIME_MAX"
      "asks_later c (view (w_msg w msg))"
  defines "v \<equiv> view (w_msg w msg)"
  defines "keep \<equiv> filter (\<lambda>x. \<not> msg_is_before v x)"
  assumes first: "keep (pasts w (take (fst (first_log lp w)) (p_msgs (w_lps w lp)))) = pasts w (take (fst (first_log lp w)) (p_msgs (w_lps w lp)))"
    and due: "m_dest_t v < snd (replay c (keep (pasts w (drop (fst (first_log lp w)) (p_msgs (w_lps w lp))))) (snd (first_log lp w)))"
  shows "\<exists>w'. process_ordinary c pl lp msg w = Inr w' \<and> lp_ok c L lp w' \<and> first_log lp w' = first_log lp w
    \<and> pasts w' (p_msgs (w_lps w' lp)) = keep (pasts w (p_msgs (w_lps w lp))) @ [v]
    \<and> image_of lp w' = replay c (keep (pasts w (drop (fst (first_log lp w)) (p_msgs (w_lps w lp)))) @ [v]) (snd (first_log lp w))"
proof -
  let ?p = "p_msgs (w_lps w lp)" and ?fl = "first_log lp w" and ?m = "w_msg w msg"
  let ?late = "bound (w_lps w lp) \<ge> m_dest_t ?m \<and> msg_is_before ?m (w_msg w (unmark_msg (last ?p)))"
  have tw: "tw_ok c lp w" "worker_ok L lp w" "in_order (pasts w ?p)" using ok by (simp_all add: lp_ok_def)
  note k = tw_okD [OF tw(1)]
  have v: "m_dest_t v = m_dest_t ?m" "m_type v = m_type ?m" by (simp_all add: v_def)
  have pne: "?p \<noteq> []" if "bound (w_lps w lp) \<ge> m_dest_t ?m" using ok that t(2) by (auto simp: lp_ok_def)
  have "\<exists>w1. process_ordinary c pl lp msg w = process_forward c pl lp msg w1 \<and> tw_ok c lp w1 \<and> worker_ok L lp w1 \<and> first_log lp w1 = ?fl
    \<and> in_use (w_alloc w1) msg \<and> view (w_msg w1 msg) = v \<and> msg \<notin> set (past_addrs (p_msgs (w_lps w1 lp)))
    \<and> pasts w1 (p_msgs (w_lps w1 lp)) = keep (pasts w ?p)
    \<and> pasts w1 (drop (fst ?fl) (p_msgs (w_lps w1 lp))) = keep (pasts w (drop (fst ?fl) ?p))"
  proof (cases ?late)
    case True
    have "\<forall>x\<in>set (pasts w (take (fst ?fl) ?p)). \<not> msg_is_before v x"
      using first unfolding keep_def by (simp add: filter_id_conv)
    from straggler_kept [OF tw(1,2) m(1,2) pl tw(3) pne _ this [unfolded v_def], of pl] True obtain w1 where
      "handle_straggler_msg c pl lp msg w = Inr w1" "tw_ok c lp w1" "worker_ok L lp w1" "first_log lp w1 = ?fl"
      "in_use (w_alloc w1) msg" "view (w_msg w1 msg) = v" "msg \<notin> set (past_addrs (p_msgs (w_lps w1 lp)))"
      "pasts w1 (p_msgs (w_lps w1 lp)) = keep (pasts w ?p)"
      "pasts w1 (drop (fst ?fl) (p_msgs (w_lps w1 lp))) = keep (pasts w (drop (fst ?fl) ?p))"
      unfolding keep_def v_def by blast
    then show ?thesis using True pne by (intro exI [of _ w1]) (simp add: process_ordinary_def)
  next
    case False
    have nl: "pasts w ?p = [] \<or> \<not> msg_is_before v (last (pasts w ?p))"
    proof (cases "?p = []")
      case True
      then show ?thesis by (simp add: pasts_def)
    next
      case ne: False
      from cut_last [OF k(2) ne, of w] obtain a where a: "last ?p = Past a" "last (pasts w ?p) = view (w_msg w a)" by auto
      have "plain (w_msg w a)" using pl(2) a(1) ne last_in_set [OF ne] by force
      then have "msg_is_before ?m (w_msg w a) \<longleftrightarrow> msg_is_before v (view (w_msg w a))"
        unfolding v_def using plain_before pl(1) by blast
      moreover have "m_dest_t (view (w_msg w a)) \<le> bound (w_lps w lp)" using ok ne a(2) by (simp add: lp_ok_def)
      ultimately show ?thesis using False a before_time [of v "view (w_msg w a)"] v(1) by auto
    qed
    have id: "keep (pasts w ?p) = pasts w ?p" unfolding keep_def by (rule not_late_filter [OF tw(3) nl])
    have "pasts w ?p = pasts w (take (fst ?fl) ?p) @ pasts w (drop (fst ?fl) ?p)" by (simp add: pasts_append [symmetric])
    then have "keep (pasts w (drop (fst ?fl) ?p)) = pasts w (drop (fst ?fl) ?p)"
      using id first unfolding keep_def by simp
    moreover have "process_ordinary c pl lp msg w = process_forward c pl lp msg w"
      using False pne by (auto simp: process_ordinary_def)
    ultimately show ?thesis using tw m id by (intro exI [of _ w]) (simp add: v_def)
  qed
  then obtain w1 where w1: "process_ordinary c pl lp msg w = process_forward c pl lp msg w1" "tw_ok c lp w1" "worker_ok L lp w1"
    "first_log lp w1 = ?fl" "in_use (w_alloc w1) msg" "view (w_msg w1 msg) = v" "msg \<notin> set (past_addrs (p_msgs (w_lps w1 lp)))"
    "pasts w1 (p_msgs (w_lps w1 lp)) = keep (pasts w ?p)"
    "pasts w1 (drop (fst ?fl) (p_msgs (w_lps w1 lp))) = keep (pasts w (drop (fst ?fl) ?p))" by blast
  note k1 = tw_okD [OF w1(2)]
  have mt: "m_type (w_msg w1 msg) = m_type ?m" "m_dest_t (w_msg w1 msg) = m_dest_t ?m"
    using w1(6) v view_simps(5,6) by metis+
  let ?ms = "keep (pasts w (drop (fst ?fl) ?p))"
  have io: "in_order (keep (pasts w ?p) @ [v])"
  proof (rule in_order_snoc)
    show "in_order (keep (pasts w ?p))" unfolding keep_def by (rule in_order_filter [OF tw(3)])
    show "\<not> msg_is_before v (last (keep (pasts w ?p)))" if "keep (pasts w ?p) \<noteq> []"
      using last_in_set [OF that] unfolding keep_def by auto
  qed
  have "m_dest_t (last ?ms) \<le> m_dest_t v" if "?ms \<noteq> []"
    using last_in_set [OF that] unfolding keep_def by (auto simp: msg_is_before_def split: if_splits)
  moreover obtain now where "timely c now (snd ?fl) ?ms" using k1(4) w1(4,9) by auto
  ultimately obtain now' where ti: "timely c now' (snd ?fl) (?ms @ [v])"
    using timely_snoc [of c now "snd ?fl" ?ms v] t(1,3,4) due v by (auto simp: v_def)
  have im: "image_of lp w1 = replay c ?ms (snd ?fl)" using k1(3) w1(4,9) by simp
  let ?i = "replay c ?ms (snd ?fl)"
  have 1: "image_of lp w1 = (fst ?i, if m_type (w_msg w1 msg) = LP_RETRACTABLE then SIMTIME_MAX else snd ?i)"
    using im mt(1) t(1) by simp
  have 2: "?i = replay c (pasts w1 (drop (fst (first_log lp w1)) (p_msgs (w_lps w1 lp)))) (snd (first_log lp w1))"
    unfolding w1(4) w1(9) by simp
  have 3: "timely c now' (snd (first_log lp w1)) (pasts w1 (drop (fst (first_log lp w1)) (p_msgs (w_lps w1 lp))) @ [view (w_msg w1 msg)])"
    unfolding w1(4) w1(6) w1(9) by (rule ti)
  from forward_kept [OF k1(1) w1(3,5) m(3) w1(7) 1 2 3, of pl] obtain w2 where
    w2: "process_forward c pl lp msg w1 = Inr w2" "tw_ok c lp w2" "worker_ok L lp w2" "first_log lp w2 = first_log lp w1"
      "pasts w2 (p_msgs (w_lps w2 lp)) = keep (pasts w ?p) @ [v]"
      "pasts w2 (drop (fst ?fl) (p_msgs (w_lps w2 lp))) = ?ms @ [v]" "bound (w_lps w2 lp) = m_dest_t ?m"
    unfolding w1(4,6,8,9) mt(2) by blast
  have "p_msgs (w_lps w2 lp) \<noteq> []" using w2(5) by (auto simp: pasts_def)
  then have "lp_ok c L lp w2" using w2 io v by (simp add: lp_ok_def)
  moreover have "image_of lp w2 = replay c (?ms @ [v]) (snd ?fl)" using tw_okD(3) [OF w2(2)] w2(4,6) w1(4) by simp
  ultimately show ?thesis using w1(1,4) w2 by (intro exI [of _ w2]) simp
qed

text \<open>C2: The Time Warp engine puts an ordinary message at its place, whenever it comes. process_ordinary
  succeeds, and then the processed messages of the process are those that do not come after the
  new one in the order of messages, followed by it; the state of the process and the time of its
  retractable event are what the handlers make of these messages one after the other from the
  first checkpoint, exactly as in a sequential run; the invariant of the process holds again. The
  hypotheses: the message and the processed ones are no anti-messages, the message is not before
  the first checkpoint (it is not below the GVT), no retractable event is due before it, and
  handlers ask for retractable events in their future.
\<close>

theorem ordinary_message_in_place:
  assumes "lp_ok c L lp w" "in_use (w_alloc w) msg" "msg \<notin> set (past_addrs (p_msgs (w_lps w lp)))" "\<not> debug c"
    and "plain (w_msg w msg)" "\<forall>e\<in>set (p_msgs (w_lps w lp)). is_msg_past e \<longrightarrow> plain (w_msg w (unmark_msg e))"
    and "m_type (w_msg w msg) \<noteq> LP_RETRACTABLE" "0 \<le> m_dest_t (w_msg w msg)" "m_dest_t (w_msg w msg) < SIMTIME_MAX"
      "asks_later c (view (w_msg w msg))"
  defines "v \<equiv> view (w_msg w msg)"
  defines "keep \<equiv> filter (\<lambda>x. \<not> msg_is_before v x)"
  assumes "keep (pasts w (take (fst (first_log lp w)) (p_msgs (w_lps w lp)))) = pasts w (take (fst (first_log lp w)) (p_msgs (w_lps w lp)))"
    and "m_dest_t v < snd (replay c (keep (pasts w (drop (fst (first_log lp w)) (p_msgs (w_lps w lp))))) (snd (first_log lp w)))"
  shows "\<exists>w'. process_ordinary c pl lp msg w = Inr w' \<and> lp_ok c L lp w' \<and> first_log lp w' = first_log lp w
    \<and> pasts w' (p_msgs (w_lps w' lp)) = keep (pasts w (p_msgs (w_lps w lp))) @ [v]
    \<and> image_of lp w' = replay c (keep (pasts w (drop (fst (first_log lp w)) (p_msgs (w_lps w lp)))) @ [v]) (snd (first_log lp w))"
  using assms unfolding v_def keep_def by (intro ordinary_kept)

text \<open>A process whose state is the list of the times it has seen: 0 and 4; a message for time 3 comes.\<close>

definition times_config :: "simtime list config" where
  "times_config = \<lparr>lps = 1, dispatcher = (\<lambda>lp t ty pl st. (st @ [t], [])), committed = (\<lambda>_ _. False),
     termination_time = 10, debug = False\<rparr>"

definition times_worker :: "simtime list worker" where
  "times_worker = \<lparr>w_alloc = \<lparr>ma_store = (\<lambda>a. \<lparr>m_dest = 0, m_dest_t = (if a = 0 then 0 else if a = 1 then 4 else 3), m_flags = 2, m_seq = 0,
       m_type = (if a = 0 then LP_INIT else 1), m_pl = []\<rparr>), ma_fresh = 3, free_list = [], at_gvt_list = []\<rparr>,
     w_queues = \<lparr>mq_list = (\<lambda>_. []), mqp = (\<lambda>_. [])\<rparr>, w_retractable = example_rq1,
     w_lps = (\<lambda>_. \<lparr>termination_t = 0, fossil_epoch = 0, lp_state = [0, 4], lp_ckpt = auto_ckpt_lp_init 0,
       p_msgs = [Past 0, Past 1], early_antis = [], bound = 4, logs = [(1, [0], SIMTIME_MAX)]\<rparr>),
     silent_processing = False, current_msg = 1, mpi_out = [], gvt_accumulator = 0, gvt_phase = False,
     remote_msg_seq = (\<lambda>_ _. 0), remote_msg_received = (\<lambda>_. 0), lps_to_end = 1, max_t = 0,
     w_ackpt = auto_ckpt_init, fossil_epoch_current = 0, fossil_gvt_current = 0\<rparr>"

definition one_thread :: placement where
  "one_thread = \<lparr>nid = 0, n_nodes = 1, rid = 0, n_threads = 1, lid_node_first = 0, n_lps_node = 1, ckpt_interval = 0\<rparr>"

lemma times_pasts:
  "pasts times_worker [Past 0, Past (Suc 0)] = [view (w_msg times_worker 0), view (w_msg times_worker (Suc 0))]"
  "pasts times_worker [Past 0] = [view (w_msg times_worker 0)]" "pasts times_worker [Past (Suc 0)] = [view (w_msg times_worker (Suc 0))]"
  "pasts times_worker [] = []"
  by (simp_all add: pasts_def)

lemma times_msg:
  "m_dest_t (w_msg times_worker 0) = 0" "m_dest_t (w_msg times_worker (Suc 0)) = 4" "m_dest_t (w_msg times_worker 2) = 3"
  "m_type (w_msg times_worker (Suc 0)) = 1" "m_type (w_msg times_worker 2) = 1" "plain (w_msg times_worker a)"
  by (simp_all add: w_msg_def times_worker_def msg_at_def plain_def MSG_FLAG_ANTI_def)

lemma simtime_big: "(n::simtime) \<le> 8 \<Longrightarrow> n < SIMTIME_MAX"
  by (simp add: SIMTIME_MAX_def)

lemma times_step: "step times_config m (st, SIMTIME_MAX) = (st @ [m_dest_t m], SIMTIME_MAX)"
  by (simp add: step_def handle_def times_config_def retract_time_def)

lemma times_lp: "p_msgs (w_lps times_worker 0) = [Past 0, Past 1]" "first_log 0 times_worker = (1, [0], SIMTIME_MAX)"
  "logs (w_lps times_worker 0) = [(1, [0], SIMTIME_MAX)]" "bound (w_lps times_worker 0) = 4"
  by (simp_all add: times_worker_def first_log_def)

lemma times_order: "msg_is_before (view (w_msg times_worker a)) (view (w_msg times_worker b))
    \<longleftrightarrow> m_dest_t (w_msg times_worker a) < m_dest_t (w_msg times_worker b)" if "(a, b) \<in> {(1, 0), (2, 0), (2, 1)}"
  using that by (auto simp: msg_is_before_def times_msg)

lemma times_debug: "\<not> debug times_config"
  by (simp add: times_config_def)

lemma times_image: "image_of 0 times_worker = ([0, 4], SIMTIME_MAX)"
  by (simp add: image_of_def times_worker_def example_rq1_def retractable_lib_lp_init_def Let_def split: prod.splits)

lemma times_ok: "lp_ok times_config {..<1} 0 times_worker"
proof -
  let ?w = times_worker
  have lo: "logs_ok times_config (pasts ?w) [Past 0, Past 1] [(1, [0], SIMTIME_MAX)]"
    by (simp add: logs_ok_def cut_def replay_def times_pasts)
  have "tw_ok times_config 0 ?w"
    by (rule tw_okI [of _ _ "[Past 0, Past 1]" _ 0])
      (use lo in \<open>simp_all add: times_lp cut_def times_image times_pasts replay_def times_step times_msg simtime_big LP_RETRACTABLE_def\<close>)
  moreover have "worker_ok {..<1} 0 ?w"
    using example_serial_ok by (auto simp: worker_ok_def times_worker_def serial_ok_def example_serial_def alloc_ok_def
        in_use_def past_addrs_def rq_timely_def)
  moreover have "in_order (pasts ?w [Past 0, Past 1])" using times_order [of 1 0] by (simp add: times_pasts in_order_def times_msg)
  ultimately show ?thesis by (simp add: lp_ok_def times_lp times_pasts times_msg)
qed

theorem ordinary_message_in_place_witness:
  "\<exists>w'. process_ordinary times_config one_thread 0 2 times_worker = Inr w' \<and> lp_ok times_config {..<1} 0 w'
    \<and> lp_state (w_lps w' 0) = [0, 3]"
proof -
  let ?w = times_worker
  have "in_use (w_alloc ?w) 2" by (simp add: times_worker_def in_use_def)
  moreover have "\<exists>w'. process_ordinary times_config one_thread 0 2 ?w = Inr w' \<and> lp_ok times_config {..<1} 0 w' \<and> first_log 0 w' = first_log 0 ?w
    \<and> pasts w' (p_msgs (w_lps w' 0)) = filter (\<lambda>x. \<not> msg_is_before (view (w_msg ?w 2)) x) (pasts ?w (p_msgs (w_lps ?w 0))) @ [view (w_msg ?w 2)]
    \<and> image_of 0 w' = replay times_config (filter (\<lambda>x. \<not> msg_is_before (view (w_msg ?w 2)) x)
        (pasts ?w (drop (fst (first_log 0 ?w)) (p_msgs (w_lps ?w 0)))) @ [view (w_msg ?w 2)]) (snd (first_log 0 ?w))"
  proof (rule ordinary_message_in_place)
    show "asks_later times_config (view (w_msg ?w 2))" by (simp add: asks_later_def times_config_def)
  qed (use times_order [of 2 0] times_order [of 2 1] calculation times_ok in
      \<open>simp_all add: times_lp times_msg times_pasts past_addrs_def replay_def simtime_big LP_RETRACTABLE_def times_debug\<close>)
  ultimately show ?thesis using times_order [of 2 1]
    by (auto simp: times_lp times_pasts times_msg image_of_def replay_def times_step)
qed

subsection \<open>Rollback\<close>

text \<open>C11: A rollback to any place after the first checkpoint ends and restores the process. do_rollback
  to index n of the processed messages, which stands behind a processed one, succeeds; the entries
  are the first n, and the state with the time of the retractable event is what the messages
  among them give, although the handlers were run again from the nearest checkpoint, silently and
  without taking retractable events; no other process changes, and no message but for its flags
  and its sequence number.
\<close>

theorem do_rollback_restores:
  assumes "tw_ok c lp w" "\<not> silent_processing w" "cut (p_msgs (w_lps w lp)) n" "fst (first_log lp w) \<le> n"
  shows "\<exists>w'. do_rollback c pl lp n w = Inr w' \<and> tw_ok c lp w' \<and> p_msgs (w_lps w' lp) = take n (p_msgs (w_lps w lp))
    \<and> first_log lp w' = first_log lp w
    \<and> image_of lp w' = replay c (pasts w (drop (fst (first_log lp w)) (take n (p_msgs (w_lps w lp))))) (snd (first_log lp w))
    \<and> (\<forall>a. view (w_msg w' a) = view (w_msg w a)) \<and> (\<forall>l. l \<noteq> lp \<longrightarrow> w_lps w' l = w_lps w l)"
  using rollback_kept [OF assms, of pl] by blast

theorem do_rollback_restores_witness:
  "\<exists>w'. do_rollback times_config one_thread 0 1 times_worker = Inr w' \<and> lp_state (w_lps w' 0) = [0] \<and> p_msgs (w_lps w' 0) = [Past 0]"
proof -
  have "tw_ok times_config 0 times_worker" using times_ok by (simp add: lp_ok_def)
  moreover have "\<not> silent_processing times_worker" by (simp add: times_worker_def)
  moreover have "cut (p_msgs (w_lps times_worker 0)) 1" "fst (first_log 0 times_worker) \<le> 1" by (simp_all add: times_lp cut_def)
  ultimately show ?thesis using do_rollback_restores [of times_config 0 times_worker 1 one_thread]
    by (auto simp: times_lp times_pasts image_of_def replay_def)
qed

subsection \<open>Termination\<close>

text \<open>S: the processes of the thread. The count of those that have not ended, and the last end.\<close>

definition counts_ok :: "nat set \<Rightarrow> (nat \<Rightarrow> simtime) \<Rightarrow> u64 \<Rightarrow> simtime \<Rightarrow> bool" where
  "counts_ok S t n m \<longleftrightarrow> finite S \<and> card S < 2 ^ 64 \<and> unat n = card {lp\<in>S. t lp = 0}
     \<and> (\<forall>lp\<in>S. t lp \<noteq> SIMTIME_MAX \<longrightarrow> t lp \<le> m)"

definition ends_ok :: "nat set \<Rightarrow> 's worker \<Rightarrow> bool" where
  "ends_ok S w \<longleftrightarrow> counts_ok S (\<lambda>lp. termination_t (w_lps w lp)) (lps_to_end w) (max_t w)"

lemma simtime_max_pos: "0 < SIMTIME_MAX"
  by (simp add: SIMTIME_MAX_def)

lemma running_card:
  assumes "finite S" "lp \<in> S" "t lp = (0::simtime)" "x \<noteq> 0"
  shows "card {l\<in>S. t l = 0} = Suc (card {l\<in>S. (t(lp := x)) l = 0})"
proof -
  have "{l\<in>S. t l = 0} = insert lp {l\<in>S. (t(lp := x)) l = 0}" using assms by auto
  then show ?thesis using assms by simp
qed

lemma counts_end:
  assumes "counts_ok S t n m" "lp \<in> S" "t lp = 0" "x \<noteq> 0"
  shows "counts_ok S (t(lp := x)) (n - 1) (max x m)"
proof -
  have f: "finite S" using assms(1) by (simp add: counts_ok_def)
  have "unat n = Suc (card {l\<in>S. (t(lp := x)) l = 0})" using running_card [OF f assms(2), of t x] assms(1,3,4) by (simp add: counts_ok_def)
  moreover have "unat (n - 1) = unat n - 1" using calculation by (subst unat_sub) (auto simp: word_le_nat_alt)
  ultimately have "unat (n - 1) = card {l\<in>S. (t(lp := x)) l = 0}" by simp
  then show ?thesis using assms(1) by (auto simp: counts_ok_def)
qed

lemma counts_undo:
  assumes "counts_ok S t n m" "lp \<in> S" "t lp \<noteq> 0" "0 \<le> m"
  shows "counts_ok S (t(lp := 0)) (n + 1) m"
proof -
  have f: "finite S" "card S < 2 ^ 64" "unat n = card {l\<in>S. t l = 0}" using assms(1) by (simp_all add: counts_ok_def)
  have "card {l\<in>S. (t(lp := 0)) l = 0} = Suc (card {l\<in>S. t l = 0})"
    using running_card [OF f(1) assms(2), of "t(lp := 0)" "t lp"] assms(3) by simp
  moreover have "card {l\<in>S. (t(lp := 0)) l = 0} \<le> card S" by (rule card_mono [OF f(1)]) auto
  ultimately have "unat (n + 1) = card {l\<in>S. (t(lp := 0)) l = 0}" using f(2,3) by (simp add: unat_word_ariths)
  then show ?thesis using assms by (auto simp: counts_ok_def)
qed

lemma ends_process:
  assumes "ends_ok S w" "lp \<in> S" "t \<noteq> 0"
  shows "ends_ok S (termination_on_msg_process c lp t w)"
proof -
  let ?t = "\<lambda>l. termination_t (w_lps w l)"
  have e: "counts_ok S ?t (lps_to_end w) (max_t w)" using assms(1) by (simp add: ends_ok_def)
  consider "?t lp \<noteq> 0" | "?t lp = 0" "\<not> committed c lp (lp_state (w_lps w lp))" | "?t lp = 0" "committed c lp (lp_state (w_lps w lp))" by blast
  then show ?thesis
  proof cases
    case 2
    then have "(\<lambda>l. termination_t (w_lps (termination_on_msg_process c lp t w) l)) = ?t"
      by (auto simp: termination_on_msg_process_def lp_upd_def)
    with 2 e show ?thesis by (simp add: ends_ok_def) (simp add: termination_on_msg_process_def lp_upd_def)
  next
    case 3
    then have "(\<lambda>l. termination_t (w_lps (termination_on_msg_process c lp t w) l)) = ?t(lp := t)"
      by (auto simp: termination_on_msg_process_def lp_upd_def)
    with 3 counts_end [OF e assms(2) _ assms(3)] show ?thesis
      by (simp add: ends_ok_def) (simp add: termination_on_msg_process_def lp_upd_def)
  qed (use assms(1) in \<open>simp add: termination_on_msg_process_def\<close>)
qed

lemma ends_rollback:
  assumes "ends_ok S w" "lp \<in> S" "t \<noteq> 0" "0 \<le> t" "0 \<le> max_t w"
  shows "ends_ok S (termination_on_lp_rollback lp t w)"
proof -
  let ?t = "\<lambda>l. termination_t (w_lps w l)"
  have e: "counts_ok S ?t (lps_to_end w) (max_t w)" using assms(1) by (simp add: ends_ok_def)
  show ?thesis
  proof (cases "?t lp < t \<or> ?t lp = SIMTIME_MAX")
    case True
    then have "(\<lambda>l. termination_t (w_lps (termination_on_lp_rollback lp t w) l)) = ?t"
      by (auto simp: termination_on_lp_rollback_def lp_upd_def Let_def)
    with True e show ?thesis by (simp add: ends_ok_def) (simp add: termination_on_lp_rollback_def lp_upd_def Let_def)
  next
    case False
    then have "(\<lambda>l. termination_t (w_lps (termination_on_lp_rollback lp t w) l)) = ?t(lp := 0)" "?t lp \<noteq> 0"
      using assms(3,4) by (auto simp: termination_on_lp_rollback_def lp_upd_def Let_def)
    with False counts_undo [OF e assms(2)] assms(5) show ?thesis
      by (simp add: ends_ok_def) (simp add: termination_on_lp_rollback_def lp_upd_def Let_def)
  qed
qed

lemma max_t_grows:
  "0 \<le> max_t w \<Longrightarrow> 0 \<le> max_t (termination_on_msg_process c lp t w)"
  "max_t (termination_on_lp_rollback lp t w) = max_t w"
  by (simp_all add: termination_on_msg_process_def termination_on_lp_rollback_def lp_upd_def Let_def max_def)

text \<open>What happens to the processes of a thread: messages, which change their states, and rollbacks.\<close>

datatype 's term_step = Processed nat 's simtime | RolledBack nat 's simtime

fun term_run :: "'s config \<Rightarrow> 's term_step list \<Rightarrow> 's worker \<Rightarrow> 's worker" where
  "term_run c [] w = w"
| "term_run c (Processed lp st t # xs) w =
     term_run c xs (termination_on_msg_process c lp t (lp_upd lp (\<lambda>x. x\<lparr>lp_state := st\<rparr>) w))"
| "term_run c (RolledBack lp st t # xs) w =
     term_run c xs (termination_on_lp_rollback lp t (lp_upd lp (\<lambda>x. x\<lparr>lp_state := st\<rparr>) w))"

fun step_in :: "nat set \<Rightarrow> 's term_step \<Rightarrow> bool" where
  "step_in S (Processed lp _ t) \<longleftrightarrow> lp \<in> S \<and> 0 < t"
| "step_in S (RolledBack lp _ t) \<longleftrightarrow> lp \<in> S \<and> 0 < t"

lemma ends_state: "ends_ok S (lp_upd lp (\<lambda>x. x\<lparr>lp_state := st\<rparr>) w) \<longleftrightarrow> ends_ok S w"
proof -
  have "(\<lambda>l. termination_t (w_lps (lp_upd lp (\<lambda>x. x\<lparr>lp_state := st\<rparr>) w) l)) = (\<lambda>l. termination_t (w_lps w l))"
    by (auto simp: lp_upd_def)
  then show ?thesis by (simp add: ends_ok_def) (simp add: lp_upd_def)
qed

lemma term_run_ends: "ends_ok S w \<Longrightarrow> 0 \<le> max_t w \<Longrightarrow> \<forall>x\<in>set xs. step_in S x \<Longrightarrow> ends_ok S (term_run c xs w)"
proof (induction c xs w rule: term_run.induct)
  case (2 c lp st t xs w)
  have "0 \<le> max_t (lp_upd lp (\<lambda>x. x\<lparr>lp_state := st\<rparr>) w)" using 2(3) by (simp add: lp_upd_def)
  with 2 show ?case by (simp add: ends_process ends_state max_t_grows)
next
  case (3 c lp st t xs w)
  have "0 \<le> max_t (lp_upd lp (\<lambda>x. x\<lparr>lp_state := st\<rparr>) w)" using 3(3) by (simp add: lp_upd_def)
  with 3 show ?case by (simp add: ends_rollback ends_state max_t_grows)
qed simp

text \<open>C13: The detection of termination counts right. After any sequence of processed messages and
  rollbacks at positive times, the counter lps_to_end is the number of processes of the thread
  that have not ended, and a thread that votes to end at a GVT below the termination time has only
  processes that ended at initialisation or at a message before that GVT, which is committed.
\<close>

theorem termination_vote_safe:
  assumes "ends_ok S w" "0 \<le> max_t w" "\<forall>x\<in>set xs. step_in S x"
  shows "unat (lps_to_end (term_run c xs w)) = card {lp\<in>S. termination_t (w_lps (term_run c xs w) lp) = 0}
    \<and> (fst (termination_on_gvt c g (term_run c xs w)) \<and> g < termination_time c \<longrightarrow>
         (\<forall>lp\<in>S. termination_t (w_lps (term_run c xs w) lp) \<noteq> 0
           \<and> (termination_t (w_lps (term_run c xs w) lp) = SIMTIME_MAX \<or> termination_t (w_lps (term_run c xs w) lp) < g)))"
proof -
  have e: "ends_ok S (term_run c xs w)" using term_run_ends assms by blast
  let ?w = "term_run c xs w"
  have "\<forall>lp\<in>S. termination_t (w_lps ?w lp) \<noteq> 0 \<and> (termination_t (w_lps ?w lp) = SIMTIME_MAX \<or> termination_t (w_lps ?w lp) < g)"
    if "fst (termination_on_gvt c g ?w)" "g < termination_time c"
  proof -
    have n: "lps_to_end ?w = 0" "max_t ?w < g" using that by (auto simp: termination_on_gvt_def split: if_splits)
    then have "card {lp\<in>S. termination_t (w_lps ?w lp) = 0} = 0" using e by (simp add: ends_ok_def counts_ok_def)
    then have "\<forall>lp\<in>S. termination_t (w_lps ?w lp) \<noteq> 0" using e by (simp add: ends_ok_def counts_ok_def card_eq_0_iff)
    with n(2) e show ?thesis by (fastforce simp: ends_ok_def counts_ok_def)
  qed
  with e show ?thesis by (auto simp: ends_ok_def counts_ok_def)
qed

theorem termination_vote_safe_witness:
  "unat (lps_to_end (term_run (times_config\<lparr>committed := \<lambda>_ st. st \<noteq> []\<rparr>) [Processed 0 [2] 2, RolledBack 0 [] 1, Processed 0 [3] 3] times_worker)) = 0
   \<and> fst (termination_on_gvt times_config 4 (term_run (times_config\<lparr>committed := \<lambda>_ st. st \<noteq> []\<rparr>)
        [Processed 0 [2] 2, RolledBack 0 [] 1, Processed 0 [3] 3] times_worker))"
proof -
  let ?c = "times_config\<lparr>committed := \<lambda>_ st. st \<noteq> []\<rparr>" and ?xs = "[Processed 0 [2] 2, RolledBack 0 [] 1, Processed 0 [3] 3]"
  have S: "{lp. lp = 0 \<and> P lp} = (if P (0::nat) then {0} else {})" for P by auto
  have "ends_ok {0} times_worker" by (simp add: ends_ok_def counts_ok_def S) (simp add: times_worker_def)
  moreover have "0 \<le> max_t times_worker" by (simp add: times_worker_def)
  moreover have "\<forall>x\<in>set ?xs. step_in {0} x" by simp
  ultimately have "unat (lps_to_end (term_run ?c ?xs times_worker)) = card {lp\<in>{0}. termination_t (w_lps (term_run ?c ?xs times_worker) lp) = 0}"
    using termination_vote_safe by blast
  moreover have "termination_t (w_lps (term_run ?c ?xs times_worker) 0) = 3" "max_t (term_run ?c ?xs times_worker) = 3"
    using simtime_big [of 2]
    by (simp_all add: times_worker_def times_config_def termination_on_msg_process_def termination_on_lp_rollback_def lp_upd_def Let_def)
  ultimately show ?thesis by (simp add: S unat_eq_0) (simp add: termination_on_gvt_def)
qed

text \<open>
  At time 0 the count goes wrong: a message of time 0 that ends its process is not remembered, so
  that the next one counts the process again, and a rollback to time 0 counts a process that had
  not ended.
\<close>

lemma termination_time_zero:
  assumes "termination_t (w_lps w lp) = 0" "committed c lp (lp_state (w_lps w lp))"
  shows "lps_to_end (termination_on_msg_process c lp 0 (termination_on_msg_process c lp 0 w)) = lps_to_end w - 2"
    "lps_to_end (termination_on_lp_rollback lp 0 w) = lps_to_end w + 1"
  using assms by (simp_all add: termination_on_msg_process_def termination_on_lp_rollback_def lp_upd_def Let_def SIMTIME_MAX_def)

end
