(* ===== verification/Termination.thy ===== *)
theory Termination
  imports Gvt TwProps
begin

text \<open>
  How a run ends (gvt/termination.c): at a GVT a thread is willing to end when all its processes
  have ended, or when the GVT has reached the termination time; the thread that brings the count of
  a node to zero tells every node, and a node stops when it has been told as often as there are
  nodes. RootsimStop tells every node more often than that. What a thread votes on is in Worker
  (termination_on_gvt); here are the counters of the nodes and the messages between them. A system
  is the nodes and their threads, and a step is a GVT at a thread, work of a thread between two GVTs,
  a call of RootsimStop or the arrival of a message.

  The results: no node stops before every thread of every node has voted, unless the termination
  time has been reached or RootsimStop was called; and it stops when the messages of these have arrived.
\<close>

record termination_node =
  thr_to_end :: u32
  nodes_to_end :: u32

definition termination_global_init :: "nat \<Rightarrow> nat \<Rightarrow> termination_node" where
  "termination_global_init n nodes = \<lparr>thr_to_end = of_nat n, nodes_to_end = of_nat nodes\<rparr>"

definition termination_on_ctrl_msg :: "termination_node \<Rightarrow> termination_node" where
  "termination_on_ctrl_msg t = t\<lparr>nodes_to_end := nodes_to_end t - 1\<rparr>"

text \<open>nid_t is a signed int.\<close>

definition termination_cant_end :: "termination_node \<Rightarrow> bool" where
  "termination_cant_end t \<longleftrightarrow> 0 < sint (nodes_to_end t)"

text \<open>The rest of termination_on_gvt, for a thread that is willing to end: must the node tell the others?\<close>

definition termination_vote :: "termination_node \<Rightarrow> bool \<times> termination_node" where
  "termination_vote t = (thr_to_end t = 1, t\<lparr>thr_to_end := thr_to_end t - 1\<rparr>)"

definition termination_on_gvt_all ::
    "'s config \<Rightarrow> nat \<Rightarrow> simtime \<Rightarrow> 's worker \<times> termination_node \<times> gvt_node \<Rightarrow> 's worker \<times> termination_node \<times> gvt_node" where
  "termination_on_gvt_all c nodes current_gvt = (\<lambda>(w, t, g).
     let (willing, w) = termination_on_gvt c current_gvt w in
     if \<not> willing then (w, t, g)
     else let (tell, t) = termination_vote t in
       (w, t, if tell then mpi_control_msg_broadcast nodes MSG_CTRL_TERMINATION g else g))"

text \<open>RootsimStop: in a sequential run the termination time becomes -1; else every node is told n_nodes + 1 times.\<close>

definition RootsimStop :: "bool \<Rightarrow> nat \<Rightarrow> simtime \<times> gvt_node \<Rightarrow> simtime \<times> gvt_node" where
  "RootsimStop serial nodes = (\<lambda>(termination_time, g).
     if serial then (- 1, g)
     else (termination_time, ((mpi_control_msg_broadcast nodes MSG_CTRL_TERMINATION) ^^ (nodes + 1)) g))"

lemma broadcast_calls:
  "mpi_calls (mpi_control_msg_broadcast nodes ctrl g) = mpi_calls g @ map (ControlMsg ctrl) (rev [0..<nodes])"
proof -
  have "mpi_calls (fold (\<lambda>i. mpi_do (ControlMsg ctrl i)) xs g) = mpi_calls g @ map (ControlMsg ctrl) xs" for xs
    by (induction xs arbitrary: g) (simp_all add: mpi_do_def)
  then show ?thesis by (simp add: mpi_control_msg_broadcast_def)
qed

text \<open>A thread that has voted votes again only for the time limit: its max_t is SIMTIME_MAX from then on.\<close>

lemma vote_once:
  assumes "termination_on_gvt c g w = (True, w')" "gvt \<le> SIMTIME_MAX" "termination_on_gvt c gvt w' = (b, w'')"
  shows "b \<longrightarrow> termination_time c \<le> gvt"
  using assms by (auto simp: termination_on_gvt_def split: if_splits)

text \<open>
  At the time limit the same thread may count more than once: it is the second vote of one thread, not
  one of each of two, that makes this node tell the others.
\<close>

lemma second_vote_tells: "termination_vote (snd (termination_vote (termination_global_init 2 m))) = (True, \<lparr>thr_to_end = 0, nodes_to_end = of_nat m\<rparr>)"
  by (simp add: termination_vote_def termination_global_init_def)

subsection \<open>The nodes and their messages\<close>

text \<open>
  \<open>term_mpi\<close> keeps what each node has asked of MPI, \<open>term_arrived\<close> how many of the messages to a
  node have arrived. The last four fields record what has happened: the threads of a node that have voted, the
  number of votes, the calls of RootsimStop, and whether some thread was given a GVT at or above
  the termination time.
\<close>

record 's termination_sys =
  term_nodes :: "nat \<Rightarrow> termination_node"
  term_workers :: "nat \<Rightarrow> nat \<Rightarrow> 's worker"
  term_mpi :: "nat \<Rightarrow> gvt_node"
  term_arrived :: "nat \<Rightarrow> nat"
  term_voted :: "nat \<Rightarrow> nat set"
  term_votes :: "nat \<Rightarrow> nat"
  term_stops :: "nat \<Rightarrow> nat"
  term_late :: bool

text \<open>The termination messages that node i has sent to node j, and those that all nodes have sent to j.\<close>

definition term_sent_by :: "'s termination_sys \<Rightarrow> nat \<Rightarrow> nat \<Rightarrow> nat" where
  "term_sent_by s i j = count_list (mpi_calls (term_mpi s i)) (ControlMsg MSG_CTRL_TERMINATION j)"

definition term_sent :: "nat \<Rightarrow> 's termination_sys \<Rightarrow> nat \<Rightarrow> nat" where
  "term_sent nodes s j = (\<Sum>i<nodes. term_sent_by s i j)"

definition thread_gvt :: "'s config \<Rightarrow> nat \<Rightarrow> simtime \<Rightarrow> nat \<Rightarrow> nat \<Rightarrow> 's termination_sys \<Rightarrow> 's termination_sys" where
  "thread_gvt c nodes gvt i r s =
     (let (w, t, g) = termination_on_gvt_all c nodes gvt (term_workers s i r, term_nodes s i, term_mpi s i);
          willing = fst (termination_on_gvt c gvt (term_workers s i r)) in
      s\<lparr>term_workers := (term_workers s)(i := (term_workers s i)(r := w)), term_nodes := (term_nodes s)(i := t),
        term_mpi := (term_mpi s)(i := g),
        term_voted := (term_voted s)(i := (if willing then insert r (term_voted s i) else term_voted s i)),
        term_votes := (term_votes s)(i := term_votes s i + (if willing then 1 else 0)),
        term_late := (term_late s \<or> termination_time c \<le> gvt)\<rparr>)"

definition node_stop :: "nat \<Rightarrow> nat \<Rightarrow> 's termination_sys \<Rightarrow> 's termination_sys" where
  "node_stop nodes i s =
     s\<lparr>term_mpi := (term_mpi s)(i := snd (RootsimStop False nodes (0, term_mpi s i))),
       term_stops := (term_stops s)(i := term_stops s i + 1)\<rparr>"

definition message_arrives :: "nat \<Rightarrow> 's termination_sys \<Rightarrow> 's termination_sys" where
  "message_arrives j s =
     s\<lparr>term_nodes := (term_nodes s)(j := termination_on_ctrl_msg (term_nodes s j)),
       term_arrived := (term_arrived s)(j := term_arrived s j + 1)\<rparr>"

text \<open>
  Between two GVTs a thread may do anything but lower its max_t; the handling of messages and rollbacks
  does not (\<open>term_run_max\<close>). No time is above SIMTIME_MAX, the largest double.
\<close>

inductive term_step :: "'s config \<Rightarrow> nat \<Rightarrow> nat \<Rightarrow> 's termination_sys \<Rightarrow> 's termination_sys \<Rightarrow> bool" for c nodes n where
  gvt: "i < nodes \<Longrightarrow> r < n \<Longrightarrow> gvt \<le> SIMTIME_MAX \<Longrightarrow> term_step c nodes n s (thread_gvt c nodes gvt i r s)"
| work: "max_t (term_workers s i r) \<le> max_t w \<Longrightarrow>
     term_step c nodes n s (s\<lparr>term_workers := (term_workers s)(i := (term_workers s i)(r := w))\<rparr>)"
| stop: "i < nodes \<Longrightarrow> term_step c nodes n s (node_stop nodes i s)"
| arrive: "term_arrived s j < term_sent nodes s j \<Longrightarrow> term_step c nodes n s (message_arrives j s)"

inductive term_reachable :: "'s config \<Rightarrow> nat \<Rightarrow> nat \<Rightarrow> 's termination_sys \<Rightarrow> bool" for c nodes n where
  init: "term_nodes s = (\<lambda>_. termination_global_init n nodes) \<Longrightarrow> (\<And>i j. term_sent_by s i j = 0) \<Longrightarrow>
     term_arrived s = (\<lambda>_. 0) \<Longrightarrow> term_voted s = (\<lambda>_. {}) \<Longrightarrow> term_votes s = (\<lambda>_. 0) \<Longrightarrow> term_stops s = (\<lambda>_. 0) \<Longrightarrow>
     \<not> term_late s \<Longrightarrow> term_reachable c nodes n s"
| step: "term_reachable c nodes n s \<Longrightarrow> term_step c nodes n s t \<Longrightarrow> term_reachable c nodes n t"

lemma term_run_max: "max_t w \<le> max_t (term_run c xs w)"
proof (induction c xs w rule: term_run.induct)
  case (2 c lp st t xs w)
  have "max_t w \<le> max_t (termination_on_msg_process c lp t (lp_upd lp (\<lambda>x. x\<lparr>lp_state := st\<rparr>) w))"
    by (simp add: termination_on_msg_process_def lp_upd_def Let_def)
  with 2 show ?case by simp
next
  case (3 c lp st t xs w)
  have "max_t w = max_t (termination_on_lp_rollback lp t (lp_upd lp (\<lambda>x. x\<lparr>lp_state := st\<rparr>) w))"
    by (simp add: termination_on_lp_rollback_def lp_upd_def Let_def)
  with 3 show ?case by simp
qed simp

subsection \<open>The counts\<close>

text \<open>How often a node with n threads has told the others after v votes: the count of threads wraps.\<close>

primrec broadcasts :: "nat \<Rightarrow> nat \<Rightarrow> nat" where
  "broadcasts n 0 = 0"
| "broadcasts n (Suc v) = broadcasts n v + (if of_nat n - of_nat v = (1::u32) then 1 else 0)"

lemma broadcasts_once:
  assumes "0 < n" "n \<le> MAX_THREADS" "v \<le> 2 ^ 32"
  shows "broadcasts n v = (if n \<le> v then 1 else 0)"
  using assms(3)
proof (induction v)
  case (Suc v)
  have "of_nat n - of_nat v = (1::u32) \<longleftrightarrow> (of_nat n :: u32) = of_nat (Suc v)" by (auto simp: algebra_simps)
  also have "\<dots> \<longleftrightarrow> n = Suc v"
  proof (cases "Suc v < 2 ^ 32")
    case True
    then show ?thesis using assms(2) of_nat_u32_eq [of n "Suc v"] by (simp add: MAX_THREADS_def)
  next
    case False
    then have v: "Suc v = 2 ^ 32" using Suc.prems by simp
    have "(of_nat (Suc v) :: u32) = 0" unfolding v by simp
    moreover have "(of_nat n :: u32) \<noteq> 0" using assms(1,2) of_nat_u32_eq [of n 0] by (simp add: MAX_THREADS_def)
    moreover have "n \<noteq> Suc v" using v assms(2) by (simp add: MAX_THREADS_def)
    ultimately show ?thesis by metis
  qed
  finally show ?case using Suc by auto
qed (use assms(1) in simp)

definition term_ok :: "nat \<Rightarrow> nat \<Rightarrow> 's termination_sys \<Rightarrow> bool" where
  "term_ok nodes n s \<longleftrightarrow>
     (\<forall>i. thr_to_end (term_nodes s i) = of_nat n - of_nat (term_votes s i)
        \<and> term_voted s i \<subseteq> {..<n} \<and> card (term_voted s i) \<le> term_votes s i
        \<and> (\<not> term_late s \<longrightarrow> term_votes s i = card (term_voted s i))
        \<and> (\<forall>r\<in>term_voted s i. SIMTIME_MAX \<le> max_t (term_workers s i r))) \<and>
     (\<forall>j. nodes_to_end (term_nodes s j) = of_nat nodes - of_nat (term_arrived s j) \<and> term_arrived s j \<le> term_sent nodes s j) \<and>
     (\<forall>i j. j < nodes \<longrightarrow> term_sent_by s i j = broadcasts n (term_votes s i) + (nodes + 1) * term_stops s i)"

lemma count_broadcast:
  "count_list (mpi_calls (mpi_control_msg_broadcast nodes ctrl g)) (ControlMsg ctrl j)
     = count_list (mpi_calls g) (ControlMsg ctrl j) + (if j < nodes then 1 else 0)"
proof -
  have "count_list (map (ControlMsg ctrl) (rev xs)) (ControlMsg ctrl j) = count_list xs j" for xs
    by (induction xs) auto
  moreover have "count_list [0..<nodes] j = (if j < nodes then 1 else 0)" by (induction nodes) auto
  ultimately show ?thesis by (simp add: broadcast_calls)
qed

lemma count_stop:
  "count_list (mpi_calls (snd (RootsimStop False nodes (t, g)))) (ControlMsg MSG_CTRL_TERMINATION j)
     = count_list (mpi_calls g) (ControlMsg MSG_CTRL_TERMINATION j) + (if j < nodes then nodes + 1 else 0)"
proof -
  have "count_list (mpi_calls ((mpi_control_msg_broadcast nodes MSG_CTRL_TERMINATION ^^ k) g)) (ControlMsg MSG_CTRL_TERMINATION j)
     = count_list (mpi_calls g) (ControlMsg MSG_CTRL_TERMINATION j) + (if j < nodes then k else 0)" for k
    by (induction k) (auto simp: count_broadcast)
  from this [of "nodes + 1"] show ?thesis by (simp only: RootsimStop_def prod.case if_False snd_conv)
qed

lemma sent_mono: "(\<And>k. term_sent_by s k j \<le> term_sent_by s' k j) \<Longrightarrow> term_sent nodes s j \<le> term_sent nodes s' j"
  unfolding term_sent_def by (intro sum_mono)

lemma gvt_fields:
  assumes "termination_on_gvt c gvt (term_workers s i r) = (willing, w')"
  shows "term_workers (thread_gvt c nodes gvt i r s) = (term_workers s)(i := (term_workers s i)(r := w'))"
    "term_voted (thread_gvt c nodes gvt i r s) = (term_voted s)(i := (if willing then insert r (term_voted s i) else term_voted s i))"
    "term_votes (thread_gvt c nodes gvt i r s) = (term_votes s)(i := term_votes s i + (if willing then 1 else 0))"
    "term_stops (thread_gvt c nodes gvt i r s) = term_stops s" "term_arrived (thread_gvt c nodes gvt i r s) = term_arrived s"
    "term_late (thread_gvt c nodes gvt i r s) \<longleftrightarrow> term_late s \<or> termination_time c \<le> gvt"
    "thr_to_end (term_nodes (thread_gvt c nodes gvt i r s) k) = thr_to_end (term_nodes s k) - (if k = i \<and> willing then 1 else 0)"
    "nodes_to_end (term_nodes (thread_gvt c nodes gvt i r s) k) = nodes_to_end (term_nodes s k)"
    "term_mpi (thread_gvt c nodes gvt i r s) = (term_mpi s)(i := (if willing \<and> thr_to_end (term_nodes s i) = 1
       then mpi_control_msg_broadcast nodes MSG_CTRL_TERMINATION (term_mpi s i) else term_mpi s i))"
  using assms by (auto simp: thread_gvt_def termination_on_gvt_all_def termination_vote_def Let_def)

lemma sent_by_gvt:
  assumes "termination_on_gvt c gvt (term_workers s i r) = (willing, w')" "j < nodes"
  shows "term_sent_by (thread_gvt c nodes gvt i r s) k j = term_sent_by s k j +
    (if k = i \<and> willing \<and> thr_to_end (term_nodes s i) = 1 then 1 else 0)"
  using assms(2) unfolding term_sent_by_def gvt_fields(9) [where s = s, OF assms(1)] by (simp add: count_broadcast)

lemma sent_by_stop: "j < nodes \<Longrightarrow> term_sent_by (node_stop nodes i s) k j = term_sent_by s k j + (if k = i then nodes + 1 else 0)"
  using count_stop [of nodes 0 "term_mpi s i" j] by (simp add: term_sent_by_def node_stop_def)

subsection \<open>The invariant\<close>

lemma term_ok_gvt:
  assumes ok: "term_ok nodes n s" and r: "r < n" and gvt: "gvt \<le> SIMTIME_MAX"
  shows "term_ok nodes n (thread_gvt c nodes gvt i r s)"
proof -
  let ?s = "thread_gvt c nodes gvt i r s"
  obtain willing w' where v: "termination_on_gvt c gvt (term_workers s i r) = (willing, w')" by fastforce
  note f = gvt_fields [where s = s and nodes = nodes, OF v]
  have o: "thr_to_end (term_nodes s k) = of_nat n - of_nat (term_votes s k)" "term_voted s k \<subseteq> {..<n}" "card (term_voted s k) \<le> term_votes s k"
    "\<not> term_late s \<Longrightarrow> term_votes s k = card (term_voted s k)" "\<And>r. r \<in> term_voted s k \<Longrightarrow> SIMTIME_MAX \<le> max_t (term_workers s k r)" for k
    using ok by (simp_all add: term_ok_def)
  have fin: "finite (term_voted s k)" for k using o(2) finite_subset by blast
  have grow: "SIMTIME_MAX \<le> max_t w'" if "willing \<or> r \<in> term_voted s i"
    using v that o(5) [of r i] by (auto simp: termination_on_gvt_def split: if_splits)
  have new: "r \<notin> term_voted s i" if "willing" "\<not> term_late ?s"
    using v that o(5) [of r i] gvt f(6) by (auto simp: termination_on_gvt_def split: if_splits)
  have "thr_to_end (term_nodes ?s k) = of_nat n - of_nat (term_votes ?s k)" for k
    using o(1) [of k] by (auto simp: f(3,7))
  moreover have "term_voted ?s k \<subseteq> {..<n}" for k using o(2) [of k] o(2) [of i] r by (auto simp: f(2))
  moreover have "card (term_voted ?s k) \<le> term_votes ?s k" for k
    using o(3) [of k] fin [of i] by (auto simp: f(2,3) card_insert_if)
  moreover have "term_votes ?s k = card (term_voted ?s k)" if "\<not> term_late ?s" for k
    using o(4) [of k] that new f(6) fin [of i] by (auto simp: f(2,3))
  moreover have "SIMTIME_MAX \<le> max_t (term_workers ?s k q)" if "q \<in> term_voted ?s k" for k q
    using that o(5) [of q k] grow by (auto simp: f(1,2) split: if_splits)
  moreover have "term_sent_by ?s k j = broadcasts n (term_votes ?s k) + (nodes + 1) * term_stops ?s k" if "j < nodes" for k j
    using ok that o(1) [of i] by (simp add: sent_by_gvt [OF v that] f(3,4) term_ok_def)
  moreover have "term_arrived ?s j \<le> term_sent nodes ?s j" for j
  proof -
    have "term_sent_by s k j \<le> term_sent_by ?s k j" for k
      unfolding term_sent_by_def f(9) by (simp add: count_broadcast)
    then have "term_sent nodes s j \<le> term_sent nodes ?s j" by (rule sent_mono)
    moreover have "term_arrived s j \<le> term_sent nodes s j" using ok by (simp add: term_ok_def)
    ultimately show ?thesis unfolding f(5) by (rule le_trans [rotated])
  qed
  moreover have "nodes_to_end (term_nodes ?s j) = of_nat nodes - of_nat (term_arrived ?s j)" for j
    using ok by (simp add: term_ok_def f(5,8))
  ultimately show ?thesis unfolding term_ok_def by blast
qed

lemma term_ok_step:
  assumes "term_step c nodes n s u" "term_ok nodes n s"
  shows "term_ok nodes n u"
  using assms(1)
proof (cases rule: term_step.cases)
  case (gvt i r g)
  then show ?thesis using term_ok_gvt [OF assms(2)] by blast
next
  case (work i r w)
  have "term_sent_by u = term_sent_by s" "term_sent nodes u = term_sent nodes s"
    by (simp_all add: work(1) term_sent_by_def term_sent_def fun_eq_iff)
  moreover have "SIMTIME_MAX \<le> max_t (term_workers u k q)" if "q \<in> term_voted s k" for k q
  proof -
    have "SIMTIME_MAX \<le> max_t (term_workers s k q)" using that assms(2) by (simp add: term_ok_def)
    then show ?thesis using work(2) by (auto simp: work(1))
  qed
  ultimately show ?thesis using assms(2) by (simp add: work(1) term_ok_def)
next
  case (stop i)
  have "term_sent nodes s j \<le> term_sent nodes u j" for j
    unfolding stop(1) by (rule sent_mono) (use count_stop [of nodes 0 "term_mpi s i" j] in \<open>simp add: term_sent_by_def node_stop_def\<close>)
  moreover have "term_arrived s j \<le> term_sent nodes s j" for j using assms(2) by (simp add: term_ok_def)
  ultimately have "term_arrived s j \<le> term_sent nodes u j" for j by (rule le_trans [rotated])
  moreover have "term_sent_by u k j = broadcasts n (term_votes s k) + (nodes + 1) * term_stops u k" if "j < nodes" for k j
    using assms(2) that by (simp add: stop(1) sent_by_stop [OF that] term_ok_def) (simp add: node_stop_def)
  ultimately show ?thesis using assms(2) by (simp add: stop(1) term_ok_def) (simp add: node_stop_def)
next
  case (arrive j)
  have "term_sent_by u = term_sent_by s" "term_sent nodes u = term_sent nodes s"
    by (simp_all add: arrive(1) term_sent_by_def term_sent_def message_arrives_def fun_eq_iff)
  moreover have "term_arrived u k \<le> term_sent nodes s k" for k
    using assms(2) arrive(2) by (simp add: arrive(1) message_arrives_def term_ok_def)
  moreover have "nodes_to_end (term_nodes u k) = of_nat nodes - of_nat (term_arrived u k)" for k
    using assms(2) by (simp add: arrive(1) message_arrives_def term_ok_def termination_on_ctrl_msg_def)
  ultimately show ?thesis using assms(2) by (simp add: term_ok_def) (simp add: arrive(1) message_arrives_def termination_on_ctrl_msg_def)
qed

lemma term_reachable_ok: "term_reachable c nodes n s \<Longrightarrow> term_ok nodes n s"
proof (induction rule: term_reachable.induct)
  case (init s)
  then show ?case by (simp add: term_ok_def termination_global_init_def)
qed (rule term_ok_step)

text \<open>nid_t is a signed int: the count of a node may fall below zero.\<close>

lemma can_end_iff:
  assumes "term_ok nodes n s" "nodes \<le> MAX_NODES" "term_arrived s j < 2 ^ 31"
  shows "termination_cant_end (term_nodes s j) \<longleftrightarrow> term_arrived s j < nodes"
proof -
  have "nodes_to_end (term_nodes s j) = of_int (int nodes - int (term_arrived s j))" using assms(1) by (simp add: term_ok_def)
  moreover have "sint (of_int m :: u32) = m" if "- (2 ^ 31) \<le> m" "m \<le> 2 ^ 16" for m
    using that by (simp add: signed_of_int signed_take_bit_int_eq_self)
  moreover have "- (2 ^ 31) \<le> int nodes - int (term_arrived s j)" "int nodes - int (term_arrived s j) \<le> 2 ^ 16"
    using assms(2,3) by (simp_all add: MAX_NODES_def)
  ultimately have "sint (nodes_to_end (term_nodes s j)) = int nodes - int (term_arrived s j)" by metis
  then show ?thesis by (auto simp: termination_cant_end_def)
qed

text \<open>C15: A run ends when all agree and not before. In every state the system can reach, a node may stop only
  when RootsimStop was called or the threads of every node have voted to end as often as there are
  threads, and unless some thread was given a GVT at or above the termination time these are votes of all
  threads: every thread of every node has voted. Conversely, when all threads have voted, or when
  RootsimStop was called, a node stops as soon as the messages to it have arrived. The counters are
  32 bits wide: a node has counted at most 2 to the 32 votes, and fewer than 2 to the 31
  messages have arrived.
\<close>

theorem termination_agreed:
  assumes "term_reachable c nodes n s" "0 < n" "n \<le> MAX_THREADS" "nodes \<le> MAX_NODES" "j < nodes"
    and "\<forall>i<nodes. term_votes s i \<le> 2 ^ 32" "term_arrived s j < 2 ^ 31"
  shows "(\<not> termination_cant_end (term_nodes s j) \<longrightarrow>
      (\<exists>i<nodes. 0 < term_stops s i) \<or> (\<forall>i<nodes. n \<le> term_votes s i \<and> (term_late s \<or> term_voted s i = {..<n}))) \<and>
    (((\<forall>i<nodes. term_voted s i = {..<n}) \<or> (\<exists>i<nodes. 0 < term_stops s i)) \<and> term_arrived s j = term_sent nodes s j \<longrightarrow>
      \<not> termination_cant_end (term_nodes s j))"
proof -
  have ok: "term_ok nodes n s" by (rule term_reachable_ok [OF assms(1)])
  have sent: "term_sent_by s i j = (if n \<le> term_votes s i then 1 else 0) + (nodes + 1) * term_stops s i" if "i < nodes" for i
    using ok assms(5) broadcasts_once [OF assms(2,3)] assms(6) that by (simp add: term_ok_def)
  have votes: "term_voted s i \<subseteq> {..<n}" "card (term_voted s i) \<le> term_votes s i" "\<not> term_late s \<Longrightarrow> term_votes s i = card (term_voted s i)" for i
    using ok by (simp_all add: term_ok_def)
  have a: "term_arrived s j \<le> term_sent nodes s j" using ok by (simp add: term_ok_def)
  show ?thesis unfolding can_end_iff [OF ok assms(4,7)] not_less
  proof (intro conjI impI)
    assume le: "nodes \<le> term_arrived s j"
    show "(\<exists>i<nodes. 0 < term_stops s i) \<or> (\<forall>i<nodes. n \<le> term_votes s i \<and> (term_late s \<or> term_voted s i = {..<n}))"
    proof (cases "\<exists>i<nodes. 0 < term_stops s i")
      case False
      have "term_sent nodes s j = (\<Sum>i<nodes. if n \<le> term_votes s i then 1 else 0)"
        unfolding term_sent_def by (rule sum.cong) (use sent False in auto)
      also have "\<dots> = card {i\<in>{..<nodes}. n \<le> term_votes s i}" by (simp add: sum.If_cases Int_def)
      finally have "nodes \<le> card {i\<in>{..<nodes}. n \<le> term_votes s i}" using a le by simp
      moreover have "card {i\<in>{..<nodes}. n \<le> term_votes s i} \<le> card {..<nodes}" by (rule card_mono) auto
      ultimately have all: "{i\<in>{..<nodes}. n \<le> term_votes s i} = {..<nodes}" by (intro card_subset_eq) auto
      have "n \<le> term_votes s i \<and> (term_late s \<or> term_voted s i = {..<n})" if i: "i < nodes" for i
      proof -
        have n: "n \<le> term_votes s i" using all i by blast
        have "term_voted s i = {..<n}" if "\<not> term_late s"
          by (rule card_subset_eq) (use votes [of i] n that card_mono [of "{..<n}" "term_voted s i"] in auto)
        with n show ?thesis by blast
      qed
      then show ?thesis by blast
    qed simp
  next
    assume h: "((\<forall>i<nodes. term_voted s i = {..<n}) \<or> (\<exists>i<nodes. 0 < term_stops s i)) \<and> term_arrived s j = term_sent nodes s j"
    have "nodes \<le> term_sent nodes s j"
    proof (cases "\<exists>i<nodes. 0 < term_stops s i")
      case True
      then obtain i where i: "i < nodes" "0 < term_stops s i" by blast
      then have "(nodes + 1) * 1 \<le> (nodes + 1) * term_stops s i" by (intro mult_le_mono) simp_all
      then have "nodes \<le> term_sent_by s i j" using sent [OF i(1)] by (simp split: if_splits)
      also have "\<dots> \<le> term_sent nodes s j" unfolding term_sent_def using i(1) by (intro member_le_sum) auto
      finally show ?thesis .
    next
      case False
      then have "n \<le> term_votes s i" if "i < nodes" for i
      proof -
        have "term_voted s i = {..<n}" using h False that by blast
        then show ?thesis using votes(2) [of i] by simp
      qed
      then have "(\<Sum>i<nodes. 1) \<le> term_sent nodes s j" unfolding term_sent_def by (intro sum_mono) (simp add: sent)
      then show ?thesis by simp
    qed
    then show "nodes \<le> term_arrived s j" using h by simp
  qed
qed

text \<open>One node of one thread whose processes have ended: at the GVT 5 it votes, and its message arrives.\<close>

definition quiet_node :: gvt_node where
  "quiet_node = \<lparr>gvt_threads = \<lambda>_. \<lparr>t_phase = thread_phase_idle, t_node_phase = node_phase_redux_first, t_accumulator = SIMTIME_MAX,
       t_color = False, t_msg_seq = \<lambda>_ _. 0, t_last_seq = \<lambda>_ _. 0, t_received = \<lambda>_. 0\<rparr>,
     reducing_p = \<lambda>_. 0, c_a = 0, c_b = 0, c_c = 0, c_d = 0, total_sent = \<lambda>_. 0, total_msg_received = 0, remote_msg_to_receive = 0,
     gvt_timer = 0, gvt_nodes = 0, mpi_calls = []\<rparr>"

definition example_term :: "simtime list termination_sys" where
  "example_term = \<lparr>term_nodes = \<lambda>_. termination_global_init 1 1, term_workers = \<lambda>_ _. times_worker\<lparr>lps_to_end := 0\<rparr>,
     term_mpi = \<lambda>_. quiet_node, term_arrived = \<lambda>_. 0, term_voted = \<lambda>_. {}, term_votes = \<lambda>_. 0, term_stops = \<lambda>_. 0, term_late = False\<rparr>"

definition example_stopped :: "simtime list termination_sys" where
  "example_stopped = message_arrives 0 (thread_gvt times_config 1 5 0 0 example_term)"

lemma example_vote: "\<exists>w. termination_on_gvt times_config 5 (term_workers example_term 0 0) = (True, w)"
  by (simp add: termination_on_gvt_def example_term_def times_worker_def times_config_def)

lemma example_stopped_reachable: "term_reachable times_config 1 1 example_stopped"
proof -
  have a: "term_reachable times_config 1 1 example_term"
    by (rule term_reachable.init) (simp_all add: example_term_def term_sent_by_def quiet_node_def)
  have "(5 :: simtime) \<le> SIMTIME_MAX" using simtime_big [of 5] by simp
  then have "term_step times_config 1 1 example_term (thread_gvt times_config 1 5 0 0 example_term)" by (intro term_step.gvt) simp_all
  then have b: "term_reachable times_config 1 1 (thread_gvt times_config 1 5 0 0 example_term)" by (rule term_reachable.step [OF a])
  obtain w where v: "termination_on_gvt times_config 5 (term_workers example_term 0 0) = (True, w)" using example_vote by blast
  have "term_sent_by (thread_gvt times_config 1 5 0 0 example_term) 0 0 = 1"
    using sent_by_gvt [OF v, of 0 1 0] by (simp add: example_term_def term_sent_by_def quiet_node_def termination_global_init_def)
  moreover have "term_arrived (thread_gvt times_config 1 5 0 0 example_term) 0 = 0"
    using gvt_fields(5) [OF v, of 1] by (simp add: example_term_def)
  ultimately have "term_step times_config 1 1 (thread_gvt times_config 1 5 0 0 example_term) example_stopped"
    unfolding example_stopped_def by (intro term_step.arrive) (simp add: term_sent_def)
  then show ?thesis by (rule term_reachable.step [OF b])
qed

theorem termination_agreed_witness:
  "term_reachable times_config 1 1 example_stopped \<and> \<not> termination_cant_end (term_nodes example_stopped 0)
     \<and> term_voted example_stopped 0 = {0} \<and> \<not> term_late example_stopped \<and> term_stops example_stopped 0 = 0"
proof -
  obtain w where v: "termination_on_gvt times_config 5 (term_workers example_term 0 0) = (True, w)" using example_vote by blast
  let ?s = "thread_gvt times_config 1 5 0 0 example_term"
  have s: "term_voted example_stopped 0 = {0}" "term_votes example_stopped 0 = 1" "term_arrived example_stopped 0 = 1"
    "term_stops example_stopped 0 = 0" "\<not> term_late example_stopped"
    using gvt_fields(2-6) [OF v, of 1] by (simp_all add: example_stopped_def message_arrives_def example_term_def times_config_def)
  have "term_sent_by ?s 0 0 = 1"
    using sent_by_gvt [OF v, of 0 1 0] by (simp add: example_term_def term_sent_by_def quiet_node_def termination_global_init_def)
  then have "term_sent 1 example_stopped 0 = 1" by (simp add: term_sent_def term_sent_by_def example_stopped_def message_arrives_def)
  with termination_agreed [OF example_stopped_reachable, of 0] s show ?thesis
    using example_stopped_reachable by (simp add: MAX_THREADS_def MAX_NODES_def lessThan_Suc)
qed

end
