(* ===== verification/Parallel.thy ===== *)
theory Parallel
  imports TwProps Termination
begin

text \<open>
  The life of a worker thread (lp/lp.c, parallel/parallel.c): how a thread sets up its processes,
  the turns of its loop, and what it takes down at the end. It puts the parts together: the engine
  of Process on the record \<open>worker\<close>, the reduction of the GVT on \<open>gvt_node\<close>, the votes of
  Termination. The variables that a worker and the thread of a \<open>gvt_node\<close> both hold are the same
  ones of the program, so they are copied over before and after gvt.c runs. The barriers between
  the parts are in Sync; starting threads, timers and statistics are left out.

  The result: after the set up every process of the thread satisfies the invariant from which the
  theorems on the engine start, the count of running processes is exact, and the processes are
  those that the placement gives to the thread.
\<close>

subsection \<open>Processes\<close>

text \<open>One turn of the loop of lp_init. The memory of the new process is empty: \<open>st0\<close> is the null pointer.\<close>

definition lp_init_one :: "'s config \<Rightarrow> placement \<Rightarrow> 's \<Rightarrow> nat \<Rightarrow> 's worker \<Rightarrow> 's worker res" where
  "lp_init_one c pl st0 lp w =
     (let w = lp_upd lp (\<lambda>x. x\<lparr>logs := [], lp_state := st0, fossil_epoch := 0\<rparr>) w;
          w = w\<lparr>w_retractable := retractable_lib_lp_init lp (w_retractable w)\<rparr>;
          w = lp_upd lp (\<lambda>x. x\<lparr>lp_ckpt := auto_ckpt_lp_init (ckpt_interval pl)\<rparr>) w
      in bindR (process_lp_init c pl lp w) (\<lambda>w. Inr (termination_lp_init c lp w)))"

text \<open>None: a search of lp_init_range does not end.\<close>

definition lp_range :: "placement \<Rightarrow> nat list option" where
  "lp_range pl = map_option (\<lambda>(a, b). [unat a..<unat b])
     (lp_init_range (rid pl) (lid_node_first pl) (n_threads pl) (n_lps_node pl))"

definition lp_init :: "'s config \<Rightarrow> placement \<Rightarrow> 's \<Rightarrow> 's worker \<Rightarrow> 's worker res option" where
  "lp_init c pl st0 w = map_option (\<lambda>ls. foldR (lp_init_one c pl st0) ls w) (lp_range pl)"

definition lp_fini :: "'s config \<Rightarrow> placement \<Rightarrow> 's worker \<Rightarrow> 's worker res option" where
  "lp_fini c pl w = map_option (\<lambda>ls. foldR (\<lambda>lp w.
     bindR (process_lp_fini c pl lp w) (\<lambda>w. Inr (lp_upd lp (\<lambda>x. x\<lparr>logs := []\<rparr>) w))) ls w) (lp_range pl)"

definition SetState :: "bool \<Rightarrow> bool \<Rightarrow> nat \<Rightarrow> 's \<Rightarrow> 's worker \<Rightarrow> 's worker res" where
  "SetState dbg lp_initialized current_lp state w =
     bindR (guardR (\<not> (dbg \<and> lp_initialized)) Abort) (\<lambda>_. Inr (lp_upd current_lp (\<lambda>x. x\<lparr>lp_state := state\<rparr>) w))"

subsection \<open>The thread\<close>

definition worker_thread_init :: "'s config \<Rightarrow> placement \<Rightarrow> 's \<Rightarrow> 's worker \<Rightarrow> 's worker res option" where
  "worker_thread_init c pl st0 w =
     (let w = w\<lparr>w_ackpt := auto_ckpt_init, w_alloc := msg_allocator_init (w_alloc w)\<rparr>;
          (q, r) = msg_queue_init (rid pl) (w_queues w) (w_retractable w)
      in lp_init c pl st0 (w\<lparr>w_queues := q, w_retractable := r\<rparr>))"

text \<open>worker_thread_fini after gvt_msg_drain.\<close>

definition worker_thread_fini :: "'s config \<Rightarrow> placement \<Rightarrow> 's worker \<Rightarrow> 's worker res option" where
  "worker_thread_fini c pl w = map_option (\<lambda>r.
     bindR r (\<lambda>w.
     bindR (msg_queue_fini (rid pl) (w_queues w) (w_retractable w) (w_alloc w)) (\<lambda>(q, r, al).
       Inr (w\<lparr>w_queues := q, w_retractable := r, w_alloc := msg_allocator_fini al\<rparr>)))) (lp_fini c pl w)"

text \<open>The thread local variables of gvt.c, as the worker has them.\<close>

definition gvt_store :: "nat \<Rightarrow> 's worker \<Rightarrow> gvt_node \<Rightarrow> gvt_node" where
  "gvt_store r w = thread_upd r (\<lambda>t. t\<lparr>t_accumulator := gvt_accumulator w, t_color := gvt_phase w,
     t_msg_seq := (\<lambda>ph i. remote_msg_seq w ph (of_nat i)), t_received := remote_msg_received w\<rparr>)"

definition gvt_load :: "nat \<Rightarrow> gvt_node \<Rightarrow> 's worker \<Rightarrow> 's worker" where
  "gvt_load r g w = (let t = gvt_threads g r in
     w\<lparr>gvt_accumulator := t_accumulator t, gvt_phase := t_color t, remote_msg_received := t_received t\<rparr>)"

text \<open>What mpi_remote_msg_handle takes from MPI: simulation messages and control messages.\<close>

datatype received = Packet packet | Ctrl platform_ctrl_msg_code

definition control_msg_process :: "nat \<Rightarrow> platform_ctrl_msg_code \<Rightarrow> termination_node \<times> gvt_node \<Rightarrow> termination_node \<times> gvt_node" where
  "control_msg_process r ctrl = (\<lambda>(t, g). case ctrl of
     MSG_CTRL_GVT_START \<Rightarrow> (t, gvt_start_processing r g)
   | MSG_CTRL_GVT_DONE \<Rightarrow> (t, gvt_on_done_ctrl_msg g)
   | MSG_CTRL_TERMINATION \<Rightarrow> (termination_on_ctrl_msg t, g))"

type_synonym 's thread_state = "'s worker \<times> termination_node \<times> gvt_node"

definition mpi_remote_msg_handle :: "placement \<Rightarrow> received list \<Rightarrow> 's thread_state \<Rightarrow> 's thread_state" where
  "mpi_remote_msg_handle pl = fold (\<lambda>x (w, t, g). case x of
     Packet p \<Rightarrow> (mpi_receive pl p w, t, g)
   | Ctrl ctrl \<Rightarrow>
       let r = unat (rid pl); (t, g) = control_msg_process r ctrl (t, gvt_store r w g)
       in (gvt_load r g w, t, g))"

text \<open>
  What a turn reads from outside: what MPI delivers, full_ckpt_size at each of the 64 calls of
  process_msg, the input of the reduction, and the counts auto_ckpt_on_gvt takes from the statistics.
\<close>

record turn_input =
  tu_received :: "received list"
  tu_sizes :: "nat \<Rightarrow> u64"
  tu_gvt :: gvt_input
  tu_ckpt_cost :: u64
  tu_ckpt_size :: u64
  tu_sil_count :: u64
  tu_sil_cost :: u64

text \<open>The body of the loop once a GVT is known; None when the averages are no finite numbers any more.\<close>

definition on_gvt :: "'s config \<Rightarrow> placement \<Rightarrow> turn_input \<Rightarrow> simtime \<Rightarrow> 's thread_state \<Rightarrow> 's thread_state res option" where
  "on_gvt c pl inp current_gvt s =
     (let (w, t, g) = termination_on_gvt_all c (unat (n_nodes pl)) current_gvt s in
      map_option (\<lambda>a.
        let w = fossil_on_gvt current_gvt (w\<lparr>w_ackpt := a\<rparr>) in
        bindR (msg_allocator_on_gvt current_gvt (w_alloc w)) (\<lambda>al. Inr (w\<lparr>w_alloc := al\<rparr>, t, g)))
      (auto_ckpt_on_gvt (ckpt_interval pl) (tu_ckpt_cost inp) (tu_ckpt_size inp) (tu_sil_count inp) (tu_sil_cost inp) (w_ackpt w)))"

text \<open>One turn of the loop of parallel_thread_run; False says that the loop has ended.\<close>

definition parallel_thread_turn ::
    "'s config \<Rightarrow> placement \<Rightarrow> u64 \<Rightarrow> turn_input \<Rightarrow> 's thread_state \<Rightarrow> (bool \<times> 's thread_state) res option" where
  "parallel_thread_turn c pl gvt_period inp = (\<lambda>(w, t, g).
     if \<not> termination_cant_end t then Some (Inr (False, w, t, g))
     else
       let (w, t, g) = mpi_remote_msg_handle pl (tu_received inp) (w, t, g); r = unat (rid pl) in
       case foldR (process_msg c pl) (map (tu_sizes inp) [0..<64]) w of
         Inl e \<Rightarrow> Some (Inl e)
       | Inr w \<Rightarrow>
         (case gvt_phase_run (unat (n_threads pl)) (unat (n_nodes pl)) (unat (nid pl)) gvt_period (tu_gvt inp) r (gvt_store r w g) of
            Inl e \<Rightarrow> Some (Inl e)
          | Inr (current_gvt, g) \<Rightarrow>
              let s = (gvt_load r g w, t, g) in
              if current_gvt = 0 then Some (Inr (True, s))
              else map_option (\<lambda>x. bindR x (\<lambda>s. Inr (True, s))) (on_gvt c pl inp current_gvt s)))"


subsection \<open>The set up\<close>

text \<open>
  The processes L of a thread are in order: the invariant of the engine for each, no message processed
  by two of them, and the exact count.
\<close>

definition thread_ok :: "'s config \<Rightarrow> nat set \<Rightarrow> 's worker \<Rightarrow> bool" where
  "thread_ok c L w \<longleftrightarrow> alloc_ok (w_alloc w) \<and> \<not> silent_processing w \<and> rq_ok L (w_retractable w) \<and> rq_timely {} (w_retractable w)
     \<and> ends_ok L w \<and> 0 \<le> max_t w \<and> (\<forall>lp\<in>L. lp_ok c L lp w)
     \<and> (\<forall>l\<in>L. \<forall>k\<in>L. l \<noteq> k \<longrightarrow> set (past_addrs (p_msgs (w_lps w l))) \<inter> set (past_addrs (p_msgs (w_lps w k))) = {})"

text \<open>What a process needs of the rest of the worker to stay as it is.\<close>

lemma lp_ok_frame:
  assumes ok: "lp_ok c L l w" and same: "w_lps w' l = w_lps w l" "retractable_ctx (w_retractable w') l = retractable_ctx (w_retractable w) l"
    and use: "\<And>a. a \<in> set (past_addrs (p_msgs (w_lps w l))) \<Longrightarrow> in_use (w_alloc w') a \<and> view (w_msg w' a) = view (w_msg w a)"
    and rest: "alloc_ok (w_alloc w')" "\<not> silent_processing w'" "rq_ok L' (w_retractable w')" "rq_timely {} (w_retractable w')" "l \<in> L'"
  shows "lp_ok c L' l w'"
proof -
  let ?p = "p_msgs (w_lps w l)"
  have wok: "worker_ok L l w" and tw: "tw_ok c l w" using ok by (simp_all add: lp_ok_def)
  have ps: "pasts w' q = pasts w q" if "set q \<subseteq> set ?p" for q
  proof (rule pasts_same)
    fix e assume "e \<in> set q" "is_msg_past e"
    then have "unmark_msg e \<in> set (past_addrs ?p)" using that by (auto simp: past_addrs_def)
    then show "view (w_msg w' (unmark_msg e)) = view (w_msg w (unmark_msg e))" using use by blast
  qed
  note k = tw_okD [OF tw]
  have im: "image_of l w' = image_of l w" "first_log l w' = first_log l w" using same by (simp_all add: image_of_def first_log_def)
  have dr: "pasts w' (drop n ?p) = pasts w (drop n ?p)" for n by (rule ps) (rule set_drop_subset)
  have "logs_ok c (pasts w') ?p (logs (w_lps w l))" using logs_ok_extend [OF k(1), of "pasts w'" "[]"] ps by simp
  then have "logs_ok c (pasts w') ?p (logs (w_lps w' l))" by (simp add: same(1))
  moreover obtain now where "timely c now (snd (first_log l w)) (pasts w (drop (fst (first_log l w)) ?p))" using k(4) by blast
  ultimately have "tw_ok c l w'"
    using k(2,3) im dr same(1) by (intro tw_okI [of _ _ ?p _ now]) simp_all
  moreover have "rq_timely {l} (w_retractable w')" using rest(4) by (auto simp: rq_timely_def)
  then have "worker_ok L' l w'" using wok use rest same(1) by (simp add: worker_ok_def)
  ultimately show ?thesis using ok ps [of ?p] same(1) by (simp add: lp_ok_def)
qed

lemma ends_new:
  assumes "ends_ok L w" "lp \<notin> L" "Suc (card L) < 2 ^ 64" "0 \<le> max_t w"
    and "lps_to_end w' = lps_to_end w" "max_t w' = max_t w" "\<And>l. l \<in> L \<Longrightarrow> w_lps w' l = w_lps w l"
  shows "ends_ok (insert lp L) (termination_lp_init c lp w')"
proof -
  let ?T = "\<lambda>l. termination_t (w_lps w l)" and ?b = "committed c lp (lp_state (w_lps w' lp))"
  let ?u = "termination_lp_init c lp w'"
  have e: "finite L" "unat (lps_to_end w) = card {l\<in>L. ?T l = 0}" "\<forall>l\<in>L. ?T l \<noteq> SIMTIME_MAX \<longrightarrow> ?T l \<le> max_t w"
    using assms(1) by (simp_all add: ends_ok_def counts_ok_def)
  have t: "termination_t (w_lps ?u l) = (if l = lp then if ?b then SIMTIME_MAX else 0 else ?T l)" if "l \<in> insert lp L" for l
    using that assms(2,7) by (auto simp: termination_lp_init_def Let_def lp_upd_def)
  have m: "max_t ?u = max_t w" "lps_to_end ?u = lps_to_end w + (if ?b then 0 else 1)"
    using assms(5,6) by (simp_all add: termination_lp_init_def Let_def lp_upd_def)
  have "{l\<in>insert lp L. termination_t (w_lps ?u l) = 0} = (if ?b then {l\<in>L. ?T l = 0} else insert lp {l\<in>L. ?T l = 0})"
    using t assms(2) simtime_max_pos by (auto split: if_splits)
  moreover have "card {l\<in>L. ?T l = 0} \<le> card L" using e(1) by (intro card_mono) auto
  then have "unat (lps_to_end w + 1) = Suc (unat (lps_to_end w))"
    using assms(3) e(2) by (simp add: unat_word_ariths)
  ultimately have "unat (lps_to_end ?u) = card {l\<in>insert lp L. termination_t (w_lps ?u l) = 0}"
    using m(2) e(1,2) assms(2) by (cases ?b) auto
  moreover have "\<forall>l\<in>insert lp L. termination_t (w_lps ?u l) \<noteq> SIMTIME_MAX \<longrightarrow> termination_t (w_lps ?u l) \<le> max_t ?u"
    using t m(1) e(3) assms(4) by auto
  ultimately show ?thesis using e(1) assms(2,3) by (simp add: ends_ok_def counts_ok_def)
qed


text \<open>The first message of a process, and what its handler makes of the empty memory.\<close>

definition init_msg :: "nat \<Rightarrow> lp_msg \<Rightarrow> bool" where
  "init_msg lp m \<longleftrightarrow> m_dest m = lp \<and> m_dest_t m = 0 \<and> m_type m = LP_INIT \<and> m_pl m = []"

lemma handle_init:
  "init_msg lp m \<Longrightarrow> handle c m img = (fst (dispatcher c lp 0 LP_INIT [] (fst img)), retract_time (snd (dispatcher c lp 0 LP_INIT [] (fst img))) (snd img))"
  by (simp add: handle_def init_msg_def split_beta)

lemma calls_keep_counts:
  "foldR (lp_call c pl lp) cs w = Inr w' \<Longrightarrow> lps_to_end w' = lps_to_end w \<and> max_t w' = max_t w"
proof (induction cs arbitrary: w)
  case (Cons x cs)
  then obtain w1 where w1: "lp_call c pl lp x w = Inr w1" "foldR (lp_call c pl lp) cs w1 = Inr w'" by (auto simp: res_simps)
  have "lps_to_end w1 = lps_to_end w \<and> max_t w1 = max_t w"
    using w1(1) by (cases x) (auto simp: ScheduleNewEvent_def Let_def res_simps alloc_upd_def lp_upd_def queue_insert_def
        mpi_remote_msg_send_def gvt_remote_msg_send_def split: prod.splits if_splits)
  with Cons.IH [OF w1(2)] show ?case by simp
qed simp

lemma process_lp_init_kept:
  assumes al: "alloc_ok (w_alloc w)" "\<not> silent_processing w" "\<not> debug c" and q: "rq_ok L (w_retractable w)" "rq_timely {} (w_retractable w)" "lp \<in> L"
    and fresh: "logs (w_lps w lp) = []" "retractable_ctx (w_retractable w) lp = SIMTIME_MAX"
  shows "\<exists>w'. process_lp_init c pl lp w = Inr w' \<and> lp_ok c L lp w' \<and> alloc_ok (w_alloc w') \<and> \<not> silent_processing w'
    \<and> rq_ok L (w_retractable w') \<and> rq_timely {} (w_retractable w')
    \<and> (\<forall>a. in_use (w_alloc w) a \<longrightarrow> in_use (w_alloc w') a \<and> view (w_msg w' a) = view (w_msg w a))
    \<and> (\<forall>l. l \<noteq> lp \<longrightarrow> w_lps w' l = w_lps w l \<and> retractable_ctx (w_retractable w') l = retractable_ctx (w_retractable w) l)
    \<and> lps_to_end w' = lps_to_end w \<and> max_t w' = max_t w
    \<and> (\<exists>a. \<not> in_use (w_alloc w) a \<and> past_addrs (p_msgs (w_lps w' lp)) = [a])
    \<and> (\<exists>m. init_msg lp m \<and> pasts w' (p_msgs (w_lps w' lp)) = [m] \<and> image_of lp w' = handle c m (lp_state (w_lps w lp), SIMTIME_MAX)
         \<and> first_log lp w' = (length (p_msgs (w_lps w' lp)), image_of lp w'))"
proof -
  let ?w0 = "lp_upd lp (\<lambda>x. x\<lparr>p_msgs := [], early_antis := []\<rparr>) w"
  obtain msg al1 where p: "msg_allocator_pack lp 0 LP_INIT [] (w_alloc w) = (msg, al1)" by fastforce
  note n = pack_new [OF al(1) p]
  let ?w1 = "alloc_upd (msg_upd msg (\<lambda>m. m\<lparr>m_flags := MSG_FLAG_PROCESSED\<rparr>)) (?w0\<lparr>w_alloc := al1, current_msg := msg\<rparr>)"
  have m1: "init_msg lp (view (w_msg ?w1 msg))"
    using n(6-9) by (simp add: init_msg_def view_def alloc_upd_def w_msg_def msg_upd_def msg_at_def)
  have old1: "in_use (w_alloc ?w1) a \<and> view (w_msg ?w1 a) = view (w_msg w a)" if "in_use (w_alloc w) a" for a
    using that n(2) n(4,5) [of a] by (cases "a = msg") (auto simp: alloc_upd_def lp_upd_def w_msg_def msg_upd_def msg_at_def in_use_def)
  have use1: "in_use (w_alloc ?w1) msg" "alloc_ok (w_alloc ?w1)" "\<not> silent_processing ?w1" "w_retractable ?w1 = w_retractable w"
    using n(1,3) al(2) by (simp_all add: alloc_upd_def lp_upd_def msg_upd_def in_use_def alloc_ok_def)
  let ?d = "dispatcher c lp 0 LP_INIT [] (lp_state (w_lps w lp))"
  obtain st cs where d: "?d = (st, cs)" by fastforce
  let ?w2 = "lp_upd lp (\<lambda>x. x\<lparr>lp_state := st\<rparr>) ?w1"
  have "alloc_ok (w_alloc ?w2)" "\<not> silent_processing ?w2" using use1 by (simp_all add: lp_upd_def)
  from calls_grow [OF this al(3), of pl lp cs] obtain w3 where w3: "foldR (lp_call c pl lp) cs ?w2 = Inr w3" "sends_only lp ?w2 w3"
    "w_retractable w3 = ScheduleRetractableEvent lp (retract_time cs SIMTIME_MAX) (w_retractable w)"
    using fresh(2) use1(4) by (auto simp: lp_upd_def)
  have disp: "dispatch c pl lp msg ?w1 = Inr w3"
    using w3(1) d m1 by (simp add: dispatch_def Let_def init_msg_def) (simp add: alloc_upd_def lp_upd_def)
  have g: "alloc_ok (w_alloc w3)" "\<not> silent_processing w3" "lp_state (w_lps w3 lp) = st" "logs (w_lps w3 lp) = []"
    using w3(2) fresh(1) by (simp_all add: sends_only_def lp_upd_def alloc_upd_def)
  have others: "w_lps w3 l = w_lps w l" if "l \<noteq> lp" for l
    using w3(2) that by (simp add: sends_only_def lp_upd_def alloc_upd_def)
  have use3: "in_use (w_alloc w3) a \<and> view (w_msg w3 a) = view (w_msg ?w1 a)" if "in_use (w_alloc ?w1) a" for a
    using w3(2) that by (auto simp: sends_only_def lp_upd_def w_msg_def)
  obtain ss where ss: "p_msgs (w_lps w3 lp) = ss" "\<forall>e\<in>set ss. is_msg_sent e"
    using w3(2) by (auto simp: sends_only_def lp_upd_def alloc_upd_def)
  let ?w4 = "lp_upd lp (\<lambda>x. x\<lparr>bound := 0\<rparr>) w3"
  have "rq_timely {lp} (w_retractable w)" using q(2) by (auto simp: rq_timely_def)
  with rq_ok_schedule q(1) w3(3) have "rq_ok L (w_retractable ?w4) \<and> rq_timely {lp} (w_retractable ?w4)" by (simp add: lp_upd_def)
  then obtain r where r: "retractable_reschedule lp (w_retractable ?w4) = Inr r" "rq_ok L r" "rq_timely {} r"
    "retractable_ctx r = retractable_ctx (w_retractable w3)" using reschedule_kept [of L "w_retractable ?w4" lp] q(3) by (auto simp: lp_upd_def)
  define w5 where "w5 = checkpoint_take lp (lp_upd lp (\<lambda>x. x\<lparr>p_msgs := p_msgs x @ [Past msg]\<rparr>) (?w4\<lparr>w_retractable := r\<rparr>))"
  have "w_alloc ?w0 = w_alloc w" by (simp add: lp_upd_def)
  then have run: "process_lp_init c pl lp w = Inr w5"
    using p disp r(1) by (simp add: process_lp_init_def Let_def w5_def)
  define p' where "p' = ss @ [Past msg]"
  have f5: "p_msgs (w_lps w5 lp) = p'" "logs (w_lps w5 lp) = [(length p', image_of lp w5)]" "w_alloc w5 = w_alloc w3"
    "image_of lp w5 = (st, retract_time cs SIMTIME_MAX)" "w_retractable w5 = r" "\<not> silent_processing w5" "bound (w_lps w5 lp) = 0"
    "\<And>l. l \<noteq> lp \<Longrightarrow> w_lps w5 l = w_lps w3 l" "lps_to_end w5 = lps_to_end w3" "max_t w5 = max_t w3"
    using g ss(1) r(4) w3(3)
    by (simp_all add: w5_def checkpoint_take_def model_allocator_checkpoint_take_def lp_upd_def p'_def image_of_def ScheduleRetractableEvent_def)
  have msgs5: "w_msg w5 = w_msg w3" using f5(3) by (simp add: w_msg_def fun_eq_iff)
  let ?m = "view (w_msg ?w1 msg)"
  have past5: "pasts w5 p' = [?m]"
    using pasts_sent [OF ss(2), of w5] use3 [OF use1(1)] by (simp add: p'_def pasts_append) (simp add: pasts_def msgs5)
  have im5: "image_of lp w5 = handle c ?m (lp_state (w_lps w lp), SIMTIME_MAX)"
    unfolding handle_init [OF m1] f5(4) using d by simp
  have cp: "cut p' (length p')" by (simp add: cut_def p'_def)
  have nil: "pasts w5 [] = []" by (simp add: pasts_def)
  have "tw_ok c lp w5"
    using cp f5(1,2) nil by (intro tw_okI [of _ _ p' _ "snd (image_of lp w5) - 1"]) (simp_all add: logs_ok_def first_log_def replay_def)
  moreover have pa: "past_addrs p' = [msg]" using pasts_sent_filter [OF ss(2)] by (simp add: p'_def past_addrs_def)
  then have "worker_ok L lp w5"
    using f5 g(1) r(2,3) q(3) use3 [OF use1(1)] by (auto simp: worker_ok_def rq_timely_def)
  moreover have "in_order [?m]" by (simp add: in_order_def)
  moreover have "m_dest_t ?m = 0" using m1 by (simp add: init_msg_def)
  ultimately have "lp_ok c L lp w5" using f5(1,7) past5 by (simp add: lp_ok_def) (simp add: p'_def)
  moreover have "in_use (w_alloc w5) a \<and> view (w_msg w5 a) = view (w_msg w a)" if "in_use (w_alloc w) a" for a
    using old1 [OF that] use3 [of a] by (simp add: f5(3) msgs5)
  moreover have "w_lps w5 l = w_lps w l \<and> retractable_ctx (w_retractable w5) l = retractable_ctx (w_retractable w) l" if "l \<noteq> lp" for l
    using that others f5(5,8) r(4) w3(3) by (simp add: ScheduleRetractableEvent_def)
  moreover have "lps_to_end w5 = lps_to_end w \<and> max_t w5 = max_t w"
    using calls_keep_counts [OF w3(1)] f5(9,10) by (simp add: lp_upd_def alloc_upd_def)
  moreover have "first_log lp w5 = (length (p_msgs (w_lps w5 lp)), image_of lp w5)" using f5(1,2) by (simp add: first_log_def)
  moreover have "\<exists>a. \<not> in_use (w_alloc w) a \<and> past_addrs (p_msgs (w_lps w5 lp)) = [a]" using n(2) pa f5(1) by auto
  ultimately show ?thesis using run m1 past5 im5 f5(1,3,5,6) g(1) r(2,3) by (intro exI [of _ w5]) auto
qed


text \<open>A process as it is after its first message: one message, one checkpoint.\<close>

definition lp_started :: "'s config \<Rightarrow> 's \<Rightarrow> nat \<Rightarrow> 's worker \<Rightarrow> bool" where
  "lp_started c st0 lp w \<longleftrightarrow> (\<exists>m. init_msg lp m \<and> pasts w (p_msgs (w_lps w lp)) = [m] \<and> image_of lp w = handle c m (st0, SIMTIME_MAX)
     \<and> first_log lp w = (length (p_msgs (w_lps w lp)), image_of lp w))"

lemma lp_started_frame:
  assumes "lp_started c st0 l w" "worker_ok L l w" "w_lps w' l = w_lps w l" "retractable_ctx (w_retractable w') l = retractable_ctx (w_retractable w) l"
    and use: "\<And>a. in_use (w_alloc w) a \<Longrightarrow> view (w_msg w' a) = view (w_msg w a)"
  shows "lp_started c st0 l w'"
proof -
  let ?p = "p_msgs (w_lps w l)"
  have "pasts w' ?p = pasts w ?p"
  proof (rule pasts_same)
    fix e assume "e \<in> set ?p" "is_msg_past e"
    then have "unmark_msg e \<in> set (past_addrs ?p)" by (auto simp: past_addrs_def)
    then show "view (w_msg w' (unmark_msg e)) = view (w_msg w (unmark_msg e))" using assms(2) use by (auto simp: worker_ok_def)
  qed
  then show ?thesis using assms(1,3,4) by (simp add: lp_started_def image_of_def first_log_def)
qed

definition threads_up :: "'s config \<Rightarrow> 's \<Rightarrow> nat set \<Rightarrow> 's worker \<Rightarrow> bool" where
  "threads_up c st0 L w \<longleftrightarrow> thread_ok c L w \<and> (\<forall>lp\<in>L. lp_started c st0 lp w)"

lemma lp_init_one_kept:
  assumes ok: "threads_up c st0 L w" and lp: "lp \<notin> L" "Suc (card L) < 2 ^ 64" "\<not> debug c"
  shows "\<exists>w'. lp_init_one c pl st0 lp w = Inr w' \<and> threads_up c st0 (insert lp L) w'"
proof -
  have k: "alloc_ok (w_alloc w)" "\<not> silent_processing w" "rq_ok L (w_retractable w)" "rq_timely {} (w_retractable w)" "ends_ok L w" "0 \<le> max_t w"
    "\<And>l. l \<in> L \<Longrightarrow> lp_ok c L l w \<and> lp_started c st0 l w"
    and dj: "\<And>l k. l \<in> L \<Longrightarrow> k \<in> L \<Longrightarrow> l \<noteq> k
      \<Longrightarrow> set (past_addrs (p_msgs (w_lps w l))) \<inter> set (past_addrs (p_msgs (w_lps w k))) = {}"
    using ok by (simp_all add: threads_up_def thread_ok_def)
  let ?r = "retractable_lib_lp_init lp (w_retractable w)"
  define w1 where "w1 = lp_upd lp (\<lambda>x. x\<lparr>lp_ckpt := auto_ckpt_lp_init (ckpt_interval pl)\<rparr>)
    ((lp_upd lp (\<lambda>x. x\<lparr>logs := [], lp_state := st0, fossil_epoch := 0\<rparr>) w)\<lparr>w_retractable := ?r\<rparr>)"
  have r: "rq_ok (insert lp L) ?r \<and> rq_timely {} ?r" by (rule lp_init_kept [OF k(3,4) lp(1)])
  have rc: "retractable_ctx ?r = (retractable_ctx (w_retractable w))(lp := SIMTIME_MAX)"
    by (simp add: retractable_lib_lp_init_def Let_def split: prod.splits)
  have f1: "w_alloc w1 = w_alloc w" "\<not> silent_processing w1" "w_retractable w1 = ?r" "logs (w_lps w1 lp) = []" "lp_state (w_lps w1 lp) = st0"
    "lps_to_end w1 = lps_to_end w" "max_t w1 = max_t w" "\<And>l. l \<noteq> lp \<Longrightarrow> w_lps w1 l = w_lps w l" "\<And>a. w_msg w1 a = w_msg w a"
    using k(2) by (simp_all add: w1_def lp_upd_def w_msg_def)
  from process_lp_init_kept [of w1 c "insert lp L" lp pl] obtain w2 m where
    w2: "process_lp_init c pl lp w1 = Inr w2" "lp_ok c (insert lp L) lp w2" "alloc_ok (w_alloc w2)" "\<not> silent_processing w2"
      "rq_ok (insert lp L) (w_retractable w2)" "rq_timely {} (w_retractable w2)"
      "\<And>a. in_use (w_alloc w1) a \<Longrightarrow> in_use (w_alloc w2) a \<and> view (w_msg w2 a) = view (w_msg w1 a)"
      "\<And>l. l \<noteq> lp \<Longrightarrow> w_lps w2 l = w_lps w1 l \<and> retractable_ctx (w_retractable w2) l = retractable_ctx (w_retractable w1) l"
      "lps_to_end w2 = lps_to_end w1" "max_t w2 = max_t w1" "\<exists>a. \<not> in_use (w_alloc w1) a \<and> past_addrs (p_msgs (w_lps w2 lp)) = [a]"
      "init_msg lp m" "pasts w2 (p_msgs (w_lps w2 lp)) = [m]" "image_of lp w2 = handle c m (lp_state (w_lps w1 lp), SIMTIME_MAX)"
      "first_log lp w2 = (length (p_msgs (w_lps w2 lp)), image_of lp w2)"
    using k(1) f1(1-4) r rc lp(3) by auto
  define w3 where "w3 = termination_lp_init c lp w2"
  have "w_retractable (lp_upd lp f w) = w_retractable w" for f by (simp add: lp_upd_def)
  then have run: "lp_init_one c pl st0 lp w = Inr w3" using w2(1) by (simp add: lp_init_one_def Let_def w1_def [symmetric] w3_def)
  have f3: "w_alloc w3 = w_alloc w2" "w_retractable w3 = w_retractable w2" "silent_processing w3 = silent_processing w2" "max_t w3 = max_t w2"
    "\<And>l. l \<noteq> lp \<Longrightarrow> w_lps w3 l = w_lps w2 l" "p_msgs (w_lps w3 lp) = p_msgs (w_lps w2 lp)" "logs (w_lps w3 lp) = logs (w_lps w2 lp)"
    "lp_state (w_lps w3 lp) = lp_state (w_lps w2 lp)" "bound (w_lps w3 lp) = bound (w_lps w2 lp)" "\<And>a. w_msg w3 a = w_msg w2 a"
    by (simp_all add: w3_def termination_lp_init_def Let_def lp_upd_def w_msg_def)
  have ps3: "pasts w3 = pasts w2" by (simp add: pasts_def f3(10) fun_eq_iff)
  have pl: "p_msgs (w_lps w3 l) = p_msgs (w_lps w l)" if "l \<in> L" for l
    using that lp(1) f3(5) w2(8) f1(8) by (cases "l = lp") simp_all
  obtain a where a: "\<not> in_use (w_alloc w) a" "past_addrs (p_msgs (w_lps w3 lp)) = [a]" using w2(11) f1(1) f3(6) by auto
  have new: "a \<notin> set (past_addrs (p_msgs (w_lps w l)))" if "l \<in> L" for l
    using k(7) [OF that] a(1) by (auto simp: lp_ok_def worker_ok_def)
  have "\<forall>l\<in>insert lp L. \<forall>k\<in>insert lp L. l \<noteq> k \<longrightarrow> set (past_addrs (p_msgs (w_lps w3 l))) \<inter> set (past_addrs (p_msgs (w_lps w3 k))) = {}"
    using dj new a(2) pl by simp
  moreover have old: "lp_ok c (insert lp L) l w3 \<and> lp_started c st0 l w3" if l: "l \<in> L" for l
  proof -
    have ne: "l \<noteq> lp" using l lp(1) by blast
    have same: "w_lps w3 l = w_lps w l" "retractable_ctx (w_retractable w3) l = retractable_ctx (w_retractable w) l"
      using ne f3(2,5) w2(8) f1(3,8) rc by simp_all
    have use: "in_use (w_alloc w3) a \<and> view (w_msg w3 a) = view (w_msg w a)" if "in_use (w_alloc w) a" for a
      using that w2(7) [of a] f1(1,9) f3(1,10) by simp
    have "in_use (w_alloc w) a" if "a \<in> set (past_addrs (p_msgs (w_lps w l)))" for a
      using that k(7) [OF l] by (simp add: lp_ok_def worker_ok_def)
    then have "lp_ok c (insert lp L) l w3"
      using k(7) [OF l] same use w2(3-6) f3(1-3) l by (intro lp_ok_frame [of c L l w w3]) auto
    moreover have "lp_started c st0 l w3"
      using k(7) [OF l] same use by (intro lp_started_frame [of c st0 l w L w3]) (auto simp: lp_ok_def)
    ultimately show ?thesis ..
  qed
  have im3: "image_of lp w3 = image_of lp w2" "first_log lp w3 = first_log lp w2" using f3(2,7,8) by (simp_all add: image_of_def first_log_def)
  moreover have "lp_ok c (insert lp L) lp w3"
    using w2(2) f3 ps3 im3 by (simp add: lp_ok_def tw_ok_def worker_ok_def Let_def first_log_def)
  moreover have "lp_started c st0 lp w3" using w2(12-15) f1(5) f3(6) ps3 im3 by (auto simp: lp_started_def)
  moreover have "w_lps w2 l = w_lps w l" if "l \<in> L" for l
    using that w2(8) [of l] f1(8) [of l] lp(1) by (cases "l = lp") simp_all
  then have "ends_ok (insert lp L) w3"
    unfolding w3_def using w2(9,10) f1(6,7) by (intro ends_new [OF k(5) lp(1,2) k(6)]) simp_all
  ultimately show ?thesis
    using run old w2(3-6,10) f1(7) f3(1-4) k(6) by (intro exI [of _ w3]) (auto simp: threads_up_def thread_ok_def)
qed

lemma lp_inits_kept:
  assumes "threads_up c st0 L w" "distinct ls" "set ls \<inter> L = {}" "card L + length ls < 2 ^ 64" "\<not> debug c"
  shows "\<exists>w'. foldR (lp_init_one c pl st0) ls w = Inr w' \<and> threads_up c st0 (L \<union> set ls) w'"
  using assms(1-4)
proof (induction ls arbitrary: L w)
  case (Cons lp ls)
  then have lp: "lp \<notin> L" "Suc (card L) < 2 ^ 64" by auto
  from lp_init_one_kept [OF Cons.prems(1) this assms(5)] obtain w1 where
    w1: "lp_init_one c pl st0 lp w = Inr w1" "threads_up c st0 (insert lp L) w1" by blast
  have "finite L" using Cons.prems(1) by (simp add: threads_up_def thread_ok_def ends_ok_def counts_ok_def)
  then have "card (insert lp L) + length ls < 2 ^ 64" using Cons.prems(4) lp(1) by simp
  with Cons.IH [OF w1(2)] Cons.prems(2,3) obtain w' where
    "foldR (lp_init_one c pl st0) ls w1 = Inr w'" "threads_up c st0 (insert lp L \<union> set ls) w'" by auto
  then show ?case using w1(1) by simp
qed simp


lemma lp_range_exact:
  assumes "0 < n_lps_node pl" "rid pl < n_threads pl" "unat (n_lps_node pl) * unat (n_threads pl) < 2 ^ 64"
    and "unat (lid_node_first pl) + unat (n_lps_node pl) < 2 ^ 64"
  shows "\<exists>ls. lp_range pl = Some ls \<and> distinct ls \<and> length ls < 2 ^ 64
    \<and> set ls = unat ` {lp. lid_node_first pl \<le> lp \<and> lp < lid_node_first pl + n_lps_node pl
        \<and> lid_to_rid (lid_node_first pl) (n_threads pl) (n_lps_node pl) lp = rid pl}"
proof -
  let ?s = "lid_node_first pl" and ?t = "n_lps_node pl"
  have "0 < unat ?t" using assms(1) by (simp add: unat_gt_0 word_neq_0_conv)
  from scaled_part [OF this assms(2-4) refl] obtain a b where
    r: "lp_init_range (rid pl) ?s (n_threads pl) ?t = Some (a, b)" "?s \<le> a" "b \<le> ?s + ?t"
      "\<And>x. ?s \<le> x \<Longrightarrow> x \<le> ?s + ?t \<Longrightarrow> a \<le> x \<and> x < b \<longleftrightarrow> lid_to_rid ?s (n_threads pl) ?t x = rid pl"
    by (auto simp: lp_init_range_def lid_to_rid_def [abs_def] Let_def)
  have "{unat a..<unat b} = unat ` {lp. a \<le> lp \<and> lp < b}"
  proof (intro equalityI subsetI)
    fix x assume "x \<in> {unat a..<unat b}"
    moreover then have "x < 2 ^ 64" using unsigned_less [of b, where 'a = nat] by simp
    then have u: "unat (of_nat x :: u64) = x" by (simp add: unat_of_nat take_bit_nat_eq_self)
    ultimately show "x \<in> unat ` {lp. a \<le> lp \<and> lp < b}"
      by (intro image_eqI [of _ _ "of_nat x"]) (simp_all add: word_le_nat_alt word_less_nat_alt)
  qed (auto simp: word_le_nat_alt word_less_nat_alt)
  moreover have "{lp. a \<le> lp \<and> lp < b} = {lp. ?s \<le> lp \<and> lp < ?s + ?t \<and> lid_to_rid ?s (n_threads pl) ?t lp = rid pl}"
  proof (intro Collect_cong)
    fix x
    have "?s \<le> x \<and> x \<le> ?s + ?t \<and> (a \<le> x \<and> x < b \<longrightarrow> x < ?s + ?t)" if "a \<le> x \<and> x < b \<or> ?s \<le> x \<and> x < ?s + ?t"
      using that r(2,3) by (meson less_imp_le order_trans order_less_le_trans)
    then show "a \<le> x \<and> x < b \<longleftrightarrow> ?s \<le> x \<and> x < ?s + ?t \<and> lid_to_rid ?s (n_threads pl) ?t x = rid pl"
      using r(4) [of x] by blast
  qed
  moreover have "unat b - unat a < 2 ^ 64" using unsigned_less [of b, where 'a = nat] by simp
  ultimately show ?thesis using r(1) by (simp add: lp_range_def)
qed

text \<open>C6: A thread starts with all its processes ready. worker_thread_init returns without a fault, and
  the processes it has set up are exactly those of the node that lid_to_rid sends to the thread;
  each has handled LP_INIT from an empty memory, holds one checkpoint, of the state after it,
  satisfies the invariant from which the theorems on rollbacks and messages start, and the count
  of processes that have not ended is exact.
\<close>

theorem worker_thread_init_ready:
  assumes "0 < n_lps_node pl" "rid pl < n_threads pl" "unat (n_lps_node pl) * unat (n_threads pl) < 2 ^ 64"
    and "unat (lid_node_first pl) + unat (n_lps_node pl) < 2 ^ 64"
    and "\<not> debug c" "\<not> silent_processing w" "lps_to_end w = 0" "max_t w = 0"
  defines "L \<equiv> unat ` {lp. lid_node_first pl \<le> lp \<and> lp < lid_node_first pl + n_lps_node pl
    \<and> lid_to_rid (lid_node_first pl) (n_threads pl) (n_lps_node pl) lp = rid pl}"
  shows "\<exists>w'. worker_thread_init c pl st0 w = Some (Inr w') \<and> thread_ok c L w' \<and> (\<forall>lp\<in>L. lp_started c st0 lp w')"
proof -
  from lp_range_exact [OF assms(1-4)] obtain ls where ls: "lp_range pl = Some ls" "distinct ls" "length ls < 2 ^ 64" "set ls = L"
    unfolding L_def by blast
  obtain q r where qr: "msg_queue_init (rid pl) (w_queues w) (w_retractable w) = (q, r)" by fastforce
  then have r: "r = retractable_lib_init (w_retractable w)" by (simp add: msg_queue_init_def)
  let ?w = "w\<lparr>w_ackpt := auto_ckpt_init, w_alloc := msg_allocator_init (w_alloc w), w_queues := q, w_retractable := r\<rparr>"
  have "threads_up c st0 {} ?w"
    using assms(6-8) r by (simp add: threads_up_def thread_ok_def msg_allocator_init_def alloc_ok_def retractable_lib_init_def
        rq_ok_def rq_timely_def heap_at_def tracked_def ends_ok_def counts_ok_def)
  from lp_inits_kept [OF this ls(2), of pl] ls(3,4) assms(5) obtain w' where
    "foldR (lp_init_one c pl st0) ls ?w = Inr w'" "threads_up c st0 L w'" by auto
  then show ?thesis using ls(1) qr by (simp add: worker_thread_init_def lp_init_def threads_up_def)
qed

theorem worker_thread_init_ready_witness:
  "\<exists>w'. worker_thread_init times_config one_thread [] (times_worker\<lparr>lps_to_end := 0\<rparr>) = Some (Inr w')
     \<and> lp_ok times_config {0} 0 w' \<and> lp_state (w_lps w' 0) = [0]"
proof -
  have L: "unat ` {lp. lid_node_first one_thread \<le> lp \<and> lp < lid_node_first one_thread + n_lps_node one_thread
    \<and> lid_to_rid (lid_node_first one_thread) (n_threads one_thread) (n_lps_node one_thread) lp = rid one_thread} = {0}"
  proof -
    have "{lp :: u64. 0 \<le> lp \<and> lp < 0 + 1 \<and> lid_to_rid 0 1 1 lp = 0} = {0}" by (auto simp: lid_to_rid_def)
    then show ?thesis by (simp add: one_thread_def)
  qed
  from worker_thread_init_ready [of one_thread times_config "times_worker\<lparr>lps_to_end := 0\<rparr>" "[]", unfolded L] obtain w' where
    w': "worker_thread_init times_config one_thread [] (times_worker\<lparr>lps_to_end := 0\<rparr>) = Some (Inr w')"
      "thread_ok times_config {0} w'" "lp_started times_config [] 0 w'"
    by (auto simp: one_thread_def times_config_def times_worker_def)
  from w'(3) have "lp_state (w_lps w' 0) = [0]"
    by (auto simp: lp_started_def image_of_def handle_init times_config_def)
  then show ?thesis using w' by (simp add: thread_ok_def)
qed

end
