(* ===== verification/ThreadInv.thy ===== *)
theory ThreadInv
  imports Parallel
begin

text \<open>
  The processes of one thread together. While the engine handles an ordinary message of one
  process, late or not, nothing that the other processes of the thread rely on changes, and
  the count of running processes stays exact; so the invariant of the thread, which its set up
  establishes, is kept.
\<close>

subsection \<open>What handling a message of a process leaves alone\<close>

text \<open>Only process lp and the messages of A may be touched.\<close>

definition others :: "nat \<Rightarrow> nat set \<Rightarrow> 's worker \<Rightarrow> 's worker \<Rightarrow> bool" where
  "others lp A w w' \<longleftrightarrow>
     (\<forall>l. l \<noteq> lp \<longrightarrow> w_lps w' l = w_lps w l \<and> retractable_ctx (w_retractable w') l = retractable_ctx (w_retractable w) l)
     \<and> (\<forall>a. a \<notin> A \<longrightarrow> in_use (w_alloc w) a \<longrightarrow> in_use (w_alloc w') a \<and> view (w_msg w' a) = view (w_msg w a))"

lemma others_trans: "others lp A w w' \<Longrightarrow> others lp A w' w'' \<Longrightarrow> others lp A w w''"
  by (auto simp: others_def)

lemma others_mono: "others lp A w w' \<Longrightarrow> A \<subseteq> B \<Longrightarrow> others lp B w w'"
  by (auto simp: others_def)

text \<open>The counts of termination do not change.\<close>

definition same_ends :: "'s worker \<Rightarrow> 's worker \<Rightarrow> bool" where
  "same_ends w w' \<longleftrightarrow> lps_to_end w' = lps_to_end w \<and> max_t w' = max_t w
     \<and> (\<forall>l. termination_t (w_lps w' l) = termination_t (w_lps w l))"

lemma same_ends_trans: "same_ends w w' \<Longrightarrow> same_ends w' w'' \<Longrightarrow> same_ends w w''"
  by (simp add: same_ends_def)

lemma same_ends_ok: "same_ends w w' \<Longrightarrow> ends_ok L w' = ends_ok L w"
  by (simp add: same_ends_def ends_ok_def)

lemma same_ends_upd:
  "(\<And>x. termination_t (f x) = termination_t x) \<Longrightarrow> same_ends w (lp_upd lp f w)"
  "same_ends w (w\<lparr>w_retractable := r\<rparr>)" "same_ends w (w\<lparr>silent_processing := b\<rparr>)" "same_ends w (w\<lparr>current_msg := m\<rparr>)"
  by (simp_all add: same_ends_def lp_upd_def)

subsection \<open>Rolling back\<close>

lemma undo_quiet:
  "quiet w (undo_sent c pl e w) \<and> same_ends w (undo_sent c pl e w)" "quiet w (undo_past pl a w) \<and> same_ends w (undo_past pl a w)"
  using quiet_undo_sent [of w c pl e] quiet_undo_past [of w pl a]
  by (simp_all add: same_ends_def undo_sent_def undo_past_def Let_def fetch_add_flags_def alloc_upd_def queue_insert_def
      mpi_remote_anti_msg_send_def gvt_remote_anti_msg_send_def)

lemma anti_loop_leaves: "anti_loop c pl es w = Inr w' \<Longrightarrow> quiet w w' \<and> same_ends w w'"
proof (induction c pl es w rule: anti_loop.induct)
  case (1 c pl w)
  then show ?case by (simp add: same_ends_def)
next
  case (2 c pl e es w)
  note q = undo_quiet(1) [of w c pl e] undo_quiet(2) [of w pl "unmark_msg e"]
  from 2 q show ?case
    using quiet_trans same_ends_trans by (cases e; cases "es = []") (auto, (blast)+)
qed

text \<open>Loading a checkpoint and executing silently: the state of the process and its retractable event.\<close>

definition inward :: "nat \<Rightarrow> 's worker \<Rightarrow> 's worker \<Rightarrow> bool" where
  "inward lp w w' \<longleftrightarrow> w_alloc w' = w_alloc w \<and> same_ends w w' \<and> p_msgs (w_lps w' lp) = p_msgs (w_lps w lp)
     \<and> (\<not> silent_processing w \<longrightarrow> \<not> silent_processing w')
     \<and> (\<forall>l. l \<noteq> lp \<longrightarrow> w_lps w' l = w_lps w l) \<and> (\<exists>t. w_retractable w' = ScheduleRetractableEvent lp t (w_retractable w))"

lemma inward_trans: "inward lp w w' \<Longrightarrow> inward lp w' w'' \<Longrightarrow> inward lp w w''"
  by (auto simp: inward_def same_ends_def)

lemma inward_refl: "inward lp w w"
proof -
  have "ScheduleRetractableEvent lp (retractable_ctx (w_retractable w) lp) (w_retractable w) = w_retractable w"
    by (simp add: ScheduleRetractableEvent_def)
  then show ?thesis unfolding inward_def same_ends_def by metis
qed

lemma silent_loop_image:
  "silent_loop c pl lp p i n w = Inr (m, w') \<Longrightarrow> silent_processing w \<Longrightarrow> \<exists>img. w' = set_image lp img w"
proof (induction c pl lp p i n w rule: silent_loop.induct)
  case (1 c pl lp p i n w)
  show ?case
  proof (cases "p ! i")
    case (Past msg)
    note d = silent_dispatch [OF 1(5), of c pl lp msg]
    let ?w = "set_image lp (handle c (view (w_msg w msg)) (image_of lp w)) w"
    have i: "i < length p" using 1(4) by (subst (asm) silent_loop.simps) (auto split: if_splits)
    show ?thesis
    proof (cases "Suc i < n")
      case True
      then have "silent_loop c pl lp p (Suc i) n ?w = Inr (m, w')"
        using 1(4) i Past d by (subst (asm) silent_loop.simps) simp
      moreover have "silent_processing ?w" using 1(5) by simp
      ultimately obtain img where "w' = set_image lp img ?w" using 1(1) [OF i Past d True] by blast
      then show ?thesis by (intro exI [of _ img]) simp
    next
      case False
      then have "w' = ?w" using 1(4) i Past d by (subst (asm) silent_loop.simps) auto
      then show ?thesis by blast
    qed
  next
    case (SentLocal msg)
    then show ?thesis using 1(2,4,5) by (subst (asm) (2) silent_loop.simps) (auto split: if_splits)
  next
    case (SentRemote msg)
    then show ?thesis using 1(3,4,5) by (subst (asm) (2) silent_loop.simps) (auto split: if_splits)
  qed
qed

lemma silent_execution_inward:
  assumes "silent_execution c pl lp i n w = Inr w'"
  shows "inward lp w w'"
proof (cases "i \<ge> n")
  case True
  then show ?thesis using assms inward_refl by (simp add: silent_execution_def)
next
  case False
  let ?w = "w\<lparr>silent_processing := True\<rparr>"
  from assms False obtain msg w1 where s: "silent_loop c pl lp (p_msgs (w_lps w lp)) i n ?w = Inr (msg, w1)"
    "w' = w1\<lparr>w_retractable := retractable_post_silent lp (m_dest_t (w_msg w1 msg)) (w_retractable w1), silent_processing := False\<rparr>"
    by (auto simp: silent_execution_def res_simps split: prod.splits)
  from silent_loop_image [OF s(1)] obtain img where "w1 = set_image lp img ?w" by auto
  then have w1: "w_alloc w1 = w_alloc w" "same_ends w w1" "p_msgs (w_lps w1 lp) = p_msgs (w_lps w lp)"
    "\<And>l. l \<noteq> lp \<Longrightarrow> w_lps w1 l = w_lps w l" "w_retractable w1 = ScheduleRetractableEvent lp (snd img) (w_retractable w)"
    by (simp_all add: set_image_def same_ends_def lp_upd_def)
  have "\<exists>t. retractable_post_silent lp now (ScheduleRetractableEvent lp u r) = ScheduleRetractableEvent lp t r" for now u r
    unfolding retractable_post_silent_def ScheduleRetractableEvent_def by (cases "u \<le> now") auto
  with w1 show ?thesis unfolding s(2) by (simp add: inward_def same_ends_def)
qed

lemma restore_inward:
  assumes "model_allocator_checkpoint_restore lp n w = Inr (i, w')"
  shows "inward lp w w'"
proof -
  from assms obtain k where k: "log_index (logs (w_lps w lp)) n (length (logs (w_lps w lp)) - 1) = Inr k"
    by (auto simp: model_allocator_checkpoint_restore_def Let_def res_simps)
  obtain r st t where e: "logs (w_lps w lp) ! k = (r, st, t)" using prod_cases3 by blast
  have "w' = (lp_upd lp (\<lambda>x. x\<lparr>lp_state := st, logs := take (Suc k) (logs (w_lps w lp))\<rparr>) w)
    \<lparr>w_retractable := ScheduleRetractableEvent lp t (w_retractable w)\<rparr>"
    using assms k e by (simp add: model_allocator_checkpoint_restore_def Let_def)
  then show ?thesis by (auto simp: inward_def same_ends_def lp_upd_def)
qed

lemma past_addrs_split: "past_addrs p = past_addrs (take n p) @ past_addrs (drop n p)"
  by (simp add: past_addrs_def map_append [symmetric] filter_append [symmetric] del: map_append filter_append)

lemma do_rollback_leaves:
  assumes rb: "do_rollback c pl lp n w = Inr w'" and ok: "worker_ok L lp w"
  shows "others lp (set (past_addrs (drop n (p_msgs (w_lps w lp))))) w w' \<and> same_ends w w' \<and> worker_ok L lp w'
    \<and> p_msgs (w_lps w' lp) = take n (p_msgs (w_lps w lp)) \<and> (\<forall>a. view (w_msg w' a) = view (w_msg w a))"
proof -
  let ?p = "p_msgs (w_lps w lp)"
  from rb obtain w1 i w3 where w1: "anti_loop c pl (drop n ?p) w = Inr w1"
    and w3: "model_allocator_checkpoint_restore lp n (lp_upd lp (\<lambda>x. x\<lparr>p_msgs := take n (p_msgs x)\<rparr>) w1) = Inr (i, w3)"
    and w4: "silent_execution c pl lp i n w3 = Inr w'"
    by (auto simp: do_rollback_def send_anti_messages_def res_simps split: prod.splits)
  let ?w2 = "lp_upd lp (\<lambda>x. x\<lparr>p_msgs := take n (p_msgs x)\<rparr>) w1"
  have q: "quiet w w1" "same_ends w w1" using anti_loop_leaves [OF w1] by blast+
  have "inward lp ?w2 w'" using restore_inward [OF w3] silent_execution_inward [OF w4] inward_trans by blast
  then have in4: "w_alloc w' = w_alloc w1" "same_ends ?w2 w'" "p_msgs (w_lps w' lp) = take n ?p" "\<not> silent_processing w'"
      "\<And>l. l \<noteq> lp \<Longrightarrow> w_lps w' l = w_lps w l" "\<exists>t. w_retractable w' = ScheduleRetractableEvent lp t (w_retractable w)"
    using q(1) ok by (auto simp: inward_def quiet_def lp_upd_def worker_ok_def)
  note sp = past_addrs_split [of ?p n]
  have d: "distinct (past_addrs (take n ?p))" "distinct (past_addrs (drop n ?p))" "alloc_ok (w_alloc w)"
    "set (past_addrs (take n ?p)) \<inter> set (past_addrs (drop n ?p)) = {}"
    "\<forall>a\<in>set (past_addrs (take n ?p)). in_use (w_alloc w) a" "\<forall>a\<in>set (past_addrs (drop n ?p)). in_use (w_alloc w) a"
    using ok sp by (auto simp: worker_ok_def)
  from anti_loop_alloc [OF w1 d(3,2,6)] have al: "alloc_ok (w_alloc w')"
    "\<And>b. b \<notin> set (past_addrs (drop n ?p)) \<Longrightarrow> in_use (w_alloc w') b = in_use (w_alloc w) b" by (simp_all add: in4(1))
  have v: "view (w_msg w' a) = view (w_msg w a)" for a
    using in4(1) q(1) by (simp add: quiet_def w_msg_def)
  have "worker_ok L lp w'"
    using ok al d(1,4,5) in4(3,4,6) rq_ok_schedule [of L "w_retractable w" lp] by (auto simp: worker_ok_def)
  moreover have "retractable_ctx (w_retractable w') l = retractable_ctx (w_retractable w) l" if "l \<noteq> lp" for l
    using in4(6) that by (auto simp: ScheduleRetractableEvent_def)
  then have "others lp (set (past_addrs (drop n ?p))) w w'" using in4(5) al(2) v by (simp add: others_def)
  moreover have "same_ends w w'" using in4(2) q(2) by (simp add: same_ends_def lp_upd_def)
  ultimately show ?thesis using v in4(3) by blast
qed

lemma straggler_leaves:
  assumes h: "handle_straggler_msg c pl lp msg w = Inr w'" and ok: "worker_ok L lp w" "ends_ok L w" "0 \<le> max_t w"
    and m: "in_use (w_alloc w) msg" "msg \<notin> set (past_addrs (p_msgs (w_lps w lp)))" "0 < m_dest_t (w_msg w msg)"
  shows "others lp (set (past_addrs (p_msgs (w_lps w lp)))) w w' \<and> ends_ok L w' \<and> 0 \<le> max_t w'
    \<and> set (past_addrs (p_msgs (w_lps w' lp))) \<subseteq> set (past_addrs (p_msgs (w_lps w lp)))
    \<and> worker_ok L lp w' \<and> in_use (w_alloc w') msg \<and> m_dest_t (w_msg w' msg) = m_dest_t (w_msg w msg)"
proof -
  let ?A = "set (past_addrs (p_msgs (w_lps w lp)))"
  from h obtain n w1 where w1: "do_rollback c pl lp n w = Inr w1"
    and w': "w' = register_bad lp (termination_on_lp_rollback lp (m_dest_t (w_msg w1 msg)) w1)"
    by (auto simp: handle_straggler_msg_def res_simps)
  have "set (past_addrs (drop n (p_msgs (w_lps w lp)))) \<subseteq> ?A" using past_addrs_split [of "p_msgs (w_lps w lp)" n] by simp
  with do_rollback_leaves [OF w1 ok(1)] have k: "others lp ?A w w1" "worker_ok L lp w1" "same_ends w w1" "p_msgs (w_lps w1 lp) = take n (p_msgs (w_lps w lp))"
    "view (w_msg w1 msg) = view (w_msg w msg)" using others_mono by blast+
  have t: "m_dest_t (w_msg w1 msg) = m_dest_t (w_msg w msg)" using k(5) by (metis view_simps(5))
  have lp: "lp \<in> L" using ok(1) by (simp add: worker_ok_def)
  have "ends_ok L w1" "0 \<le> max_t w1" using ok(2,3) same_ends_ok [OF k(3)] k(3) by (simp_all add: same_ends_def)
  then have "ends_ok L (termination_on_lp_rollback lp (m_dest_t (w_msg w1 msg)) w1)"
    using ends_rollback [of L w1 lp "m_dest_t (w_msg w msg)"] lp m(3) t by simp
  then have "ends_ok L w'" unfolding w' register_bad_def by (subst same_ends_ok [OF same_ends_upd(1)]) simp_all
  moreover have "0 \<le> max_t w'" using \<open>0 \<le> max_t w1\<close> by (simp add: w' register_bad_def termination_on_lp_rollback_def Let_def lp_upd_def)
  moreover have "others lp ?A w1 w'"
    by (simp add: others_def w' register_bad_def termination_on_lp_rollback_def Let_def lp_upd_def w_msg_def)
  with k(1) have "others lp ?A w w'" by (rule others_trans)
  moreover have "set (past_addrs (take n (p_msgs (w_lps w lp)))) \<subseteq> ?A" using past_addrs_split [of "p_msgs (w_lps w lp)" n] by simp
  then have "set (past_addrs (p_msgs (w_lps w' lp))) \<subseteq> ?A" using k(4) by (simp add: w' rollback_frame)
  moreover have "worker_ok L lp w'" using k(2) by (simp add: worker_ok_def w' rollback_frame)
  moreover have "in_use (w_alloc w') msg" using k(1) m(1,2) by (simp add: others_def w' rollback_frame)
  moreover have "m_dest_t (w_msg w' msg) = m_dest_t (w_msg w msg)" using t by (simp add: w_msg_def w' rollback_frame)
  ultimately show ?thesis by blast
qed


subsection \<open>Executing\<close>

lemma calls_keep_ends: "foldR (lp_call c pl lp) cs w = Inr w' \<Longrightarrow> same_ends w w'"
proof (induction cs arbitrary: w)
  case (Cons x cs)
  then obtain w1 where w1: "lp_call c pl lp x w = Inr w1" "foldR (lp_call c pl lp) cs w1 = Inr w'" by (auto simp: res_simps)
  have "same_ends w w1"
    using w1(1) by (cases x) (auto simp: same_ends_def ScheduleNewEvent_def Let_def res_simps alloc_upd_def lp_upd_def queue_insert_def
        mpi_remote_msg_send_def gvt_remote_msg_send_def split: prod.splits if_splits)
  with Cons.IH [OF w1(2)] show ?case using same_ends_trans by blast
qed (simp add: same_ends_def)

lemma reschedule_ctx: "retractable_reschedule lp q = Inr q' \<Longrightarrow> retractable_ctx q' = retractable_ctx q"
  by (auto simp: retractable_reschedule_def Let_def res_simps split: if_splits prod.splits)

lemma forward_leaves:
  assumes f: "process_forward c pl lp msg w = Inr w'" and ok: "worker_ok L lp w" "\<not> debug c" "ends_ok L w" "0 \<le> max_t w"
    and m: "in_use (w_alloc w) msg" "m_dest_t (w_msg w msg) \<noteq> 0"
  shows "others lp {} w w' \<and> ends_ok L w' \<and> 0 \<le> max_t w' \<and> rq_timely {} (w_retractable w')
    \<and> past_addrs (p_msgs (w_lps w' lp)) = past_addrs (p_msgs (w_lps w lp)) @ [msg]"
proof -
  let ?m = "w_msg w msg"
  obtain st cs where d: "dispatcher c (m_dest ?m) (m_dest_t ?m) (m_type ?m) (m_pl ?m) (lp_state (w_lps w lp)) = (st, cs)" by fastforce
  let ?w1 = "lp_upd lp (\<lambda>x. x\<lparr>lp_state := st\<rparr>) (w\<lparr>current_msg := msg\<rparr>)"
  have "alloc_ok (w_alloc ?w1)" "\<not> silent_processing ?w1" using ok(1) by (simp_all add: worker_ok_def lp_upd_def)
  from calls_grow [OF this ok(2), of pl lp cs] obtain w2 where w2: "foldR (lp_call c pl lp) cs ?w1 = Inr w2" "sends_only lp ?w1 w2"
    "w_retractable w2 = ScheduleRetractableEvent lp (retract_time cs (retractable_ctx (w_retractable w) lp)) (w_retractable w)"
    by (auto simp: lp_upd_def)
  have disp: "dispatch c pl lp msg (w\<lparr>current_msg := msg\<rparr>) = Inr w2" using w2(1) d by (simp add: dispatch_def Let_def w_msg_def)
  have use: "in_use (w_alloc w2) a \<and> view (w_msg w2 a) = view (w_msg w a)" if "in_use (w_alloc w) a" for a
    using w2(2) that by (auto simp: sends_only_def lp_upd_def w_msg_def)
  have old: "w_lps w2 l = w_lps w l" if "l \<noteq> lp" for l using w2(2) that by (simp add: sends_only_def lp_upd_def)
  have "same_ends w ?w1" by (simp add: same_ends_def lp_upd_def)
  then have e2: "same_ends w w2" using calls_keep_ends [OF w2(1)] same_ends_trans by blast
  obtain ss where ss: "p_msgs (w_lps w2 lp) = p_msgs (w_lps w lp) @ ss" "\<forall>e\<in>set ss. is_msg_sent e"
    using w2(2) by (auto simp: sends_only_def lp_upd_def)
  let ?w3 = "lp_upd lp (\<lambda>x. x\<lparr>bound := m_dest_t (w_msg w2 msg)\<rparr>) w2"
  have "rq_ok L (w_retractable ?w3) \<and> rq_timely {lp} (w_retractable ?w3)" and L: "lp \<in> L"
    using rq_ok_schedule [of L "w_retractable w" lp] w2(3) ok(1) by (simp_all add: lp_upd_def worker_ok_def)
  then obtain r where r: "retractable_reschedule lp (w_retractable ?w3) = Inr r" "rq_timely {} r"
    using reschedule_kept [of L "w_retractable ?w3" lp] by blast
  have rc: "retractable_ctx r l = retractable_ctx (w_retractable w) l" if "l \<noteq> lp" for l
    using reschedule_ctx [OF r(1)] w2(3) that by (simp add: lp_upd_def ScheduleRetractableEvent_def)
  define w5 where "w5 = lp_upd lp (\<lambda>x. x\<lparr>p_msgs := p_msgs x @ [Past msg], lp_ckpt := auto_ckpt_register_good (lp_ckpt x)\<rparr>)
    (?w3\<lparr>w_retractable := r\<rparr>)"
  obtain needed ac where na: "auto_ckpt_is_needed (lp_ckpt (w_lps w5 lp)) = (needed, ac)" by fastforce
  define w7 where "w7 = (let w6 = lp_upd lp (\<lambda>x. x\<lparr>lp_ckpt := ac\<rparr>) w5 in if needed then checkpoint_take lp w6 else w6)"
  have w': "w' = termination_on_msg_process c lp (m_dest_t (w_msg w7 msg)) w7"
    using f disp r(1) na unfolding process_forward_def reschedule_def
    by (cases needed) (simp_all add: Let_def w5_def [symmetric] w7_def)
  have f7: "w_alloc w7 = w_alloc w2" "w_retractable w7 = r" "same_ends w2 w7" "p_msgs (w_lps w7 lp) = p_msgs (w_lps w lp) @ ss @ [Past msg]"
    "\<And>l. l \<noteq> lp \<Longrightarrow> w_lps w7 l = w_lps w2 l"
    using ss(1) by (simp_all add: w7_def w5_def Let_def checkpoint_take_def model_allocator_checkpoint_take_def lp_upd_def same_ends_def)
  have "view (w_msg w7 msg) = view ?m" using use [OF m(1)] f7(1) by (simp add: w_msg_def)
  then have t: "m_dest_t (w_msg w7 msg) = m_dest_t ?m" by (metis view_simps(5))
  have "ends_ok L w7" "0 \<le> max_t w7"
    using same_ends_ok [OF same_ends_trans [OF e2 f7(3)]] same_ends_trans [OF e2 f7(3)] ok(3,4) by (simp_all add: same_ends_def)
  then have "ends_ok L w'" "0 \<le> max_t w'" unfolding w' t using ends_process L m(2) max_t_grows(1) by blast+
  moreover have "w_lps w' l = w_lps w7 l" if "l \<noteq> lp" for l
    using that by (simp add: w' termination_on_msg_process_def Let_def lp_upd_def)
  then have "others lp {} w w'" using use old rc f7 by (auto simp: others_def w' termination_frame w_msg_def)
  moreover have "past_addrs (p_msgs (w_lps w' lp)) = past_addrs (p_msgs (w_lps w lp)) @ [msg]"
    using f7(4) pasts_sent_filter [OF ss(2)] by (simp add: w' termination_frame past_addrs_def)
  ultimately show ?thesis using r(2) f7(2) by (simp add: w' termination_frame)
qed


subsection \<open>The invariant of a thread\<close>

lemma ordinary_leaves:
  assumes r: "process_ordinary c pl lp msg w = Inr w'" and ok: "worker_ok L lp w" "\<not> debug c" "ends_ok L w" "0 \<le> max_t w"
    and m: "in_use (w_alloc w) msg" "msg \<notin> set (past_addrs (p_msgs (w_lps w lp)))" "0 < m_dest_t (w_msg w msg)"
  shows "others lp (set (past_addrs (p_msgs (w_lps w lp)))) w w' \<and> ends_ok L w' \<and> 0 \<le> max_t w' \<and> rq_timely {} (w_retractable w')
    \<and> set (past_addrs (p_msgs (w_lps w' lp))) \<subseteq> insert msg (set (past_addrs (p_msgs (w_lps w lp))))"
proof -
  let ?A = "set (past_addrs (p_msgs (w_lps w lp)))"
  from r obtain w1 where w1: "handle_straggler_msg c pl lp msg w = Inr w1 \<or> w1 = w" "process_forward c pl lp msg w1 = Inr w'"
    by (auto simp: process_ordinary_def res_simps split: if_splits)
  have "others lp ?A w w1 \<and> ends_ok L w1 \<and> 0 \<le> max_t w1 \<and> set (past_addrs (p_msgs (w_lps w1 lp))) \<subseteq> ?A
    \<and> worker_ok L lp w1 \<and> in_use (w_alloc w1) msg \<and> m_dest_t (w_msg w1 msg) = m_dest_t (w_msg w msg)"
    using w1(1)
  proof
    assume "handle_straggler_msg c pl lp msg w = Inr w1"
    from straggler_leaves [OF this ok(1,3,4) m] show ?thesis by blast
  qed (use ok m in \<open>simp add: others_def\<close>)
  moreover with forward_leaves [OF w1(2), of L] ok(2) m(3) have "others lp {} w1 w'" "ends_ok L w'" "0 \<le> max_t w'" "rq_timely {} (w_retractable w')"
    "past_addrs (p_msgs (w_lps w' lp)) = past_addrs (p_msgs (w_lps w1 lp)) @ [msg]" by auto
  ultimately show ?thesis using others_trans [OF _ others_mono, of lp ?A w w1 "{}" w'] by auto
qed


text \<open>C4: The invariant of a thread holds on. When a thread whose processes are in order handles an
  ordinary message of one of them, late or not, all of them are in order afterwards: each
  satisfies the invariant of the engine, no message is held as processed by two of them, and the
  count of running processes is exact. The message gets its place among the messages of its process,
  and the states and the messages of the other processes are what they were. The hypotheses are
  those under which an ordinary message is handled, with a time after 0.
\<close>

theorem thread_keeps_order:
  assumes ok: "thread_ok c L w" and lp: "lp \<in> L" and m: "in_use (w_alloc w) msg" "\<forall>l\<in>L. msg \<notin> set (past_addrs (p_msgs (w_lps w l)))"
    and "\<not> debug c" "plain (w_msg w msg)" "\<forall>e\<in>set (p_msgs (w_lps w lp)). is_msg_past e \<longrightarrow> plain (w_msg w (unmark_msg e))"
    and t: "m_type (w_msg w msg) \<noteq> LP_RETRACTABLE" "0 < m_dest_t (w_msg w msg)" "m_dest_t (w_msg w msg) < SIMTIME_MAX"
      "asks_later c (view (w_msg w msg))"
  defines "v \<equiv> view (w_msg w msg)"
  defines "keep \<equiv> filter (\<lambda>x. \<not> msg_is_before v x)"
  assumes first: "keep (pasts w (take (fst (first_log lp w)) (p_msgs (w_lps w lp)))) = pasts w (take (fst (first_log lp w)) (p_msgs (w_lps w lp)))"
    and due: "m_dest_t v < snd (replay c (keep (pasts w (drop (fst (first_log lp w)) (p_msgs (w_lps w lp))))) (snd (first_log lp w)))"
  shows "\<exists>w'. process_ordinary c pl lp msg w = Inr w' \<and> thread_ok c L w'
    \<and> pasts w' (p_msgs (w_lps w' lp)) = keep (pasts w (p_msgs (w_lps w lp))) @ [v]
    \<and> (\<forall>l\<in>L. l \<noteq> lp \<longrightarrow> image_of l w' = image_of l w \<and> pasts w' (p_msgs (w_lps w' l)) = pasts w (p_msgs (w_lps w l)))"
proof -
  let ?P = "\<lambda>w l. set (past_addrs (p_msgs (w_lps w l)))"
  have k: "lp_ok c L lp w" "ends_ok L w" "0 \<le> max_t w" "\<And>l. l \<in> L \<Longrightarrow> lp_ok c L l w" using ok lp by (simp_all add: thread_ok_def)
  have dj: "?P w l \<inter> ?P w j = {}" if "l \<in> L" "j \<in> L" "l \<noteq> j" for l j using ok that by (simp add: thread_ok_def)
  have ml: "msg \<notin> ?P w lp" and wok: "worker_ok L lp w" using m(2) lp k(1) by (simp_all add: lp_ok_def)
  from ordinary_kept [OF k(1) m(1) ml assms(5,6,7) t(1) _ t(3,4) first [unfolded keep_def v_def] due [unfolded keep_def v_def], of pl] t(2)
  obtain w' where w': "process_ordinary c pl lp msg w = Inr w'" "lp_ok c L lp w'"
    "pasts w' (p_msgs (w_lps w' lp)) = keep (pasts w (p_msgs (w_lps w lp))) @ [v]" unfolding keep_def v_def by auto
  from ordinary_leaves [OF w'(1) wok assms(5) k(2,3) m(1) ml t(2)]
  have r: "others lp (?P w lp) w w'" "ends_ok L w'" "0 \<le> max_t w'" "rq_timely {} (w_retractable w')" "?P w' lp \<subseteq> insert msg (?P w lp)" by auto
  have wok': "alloc_ok (w_alloc w')" "\<not> silent_processing w'" "rq_ok L (w_retractable w')" using w'(2) by (simp_all add: lp_ok_def worker_ok_def)
  have other: "lp_ok c L l w' \<and> w_lps w' l = w_lps w l \<and> image_of l w' = image_of l w
      \<and> pasts w' (p_msgs (w_lps w' l)) = pasts w (p_msgs (w_lps w l))" if l: "l \<in> L" "l \<noteq> lp" for l
  proof -
    have same: "w_lps w' l = w_lps w l" "retractable_ctx (w_retractable w') l = retractable_ctx (w_retractable w) l"
      using r(1) l(2) by (simp_all add: others_def)
    have use: "in_use (w_alloc w') a \<and> view (w_msg w' a) = view (w_msg w a)" if "a \<in> ?P w l" for a
      using that dj [OF l(1) lp l(2)] k(4) [OF l(1)] r(1) by (auto simp: others_def lp_ok_def worker_ok_def)
    have "pasts w' (p_msgs (w_lps w l)) = pasts w (p_msgs (w_lps w l))"
      by (rule pasts_same) (use use in \<open>auto simp: past_addrs_def\<close>)
    moreover have "lp_ok c L l w'" by (rule lp_ok_frame [OF k(4) [OF l(1)] same use wok' r(4) l(1)])
    ultimately show ?thesis using same by (simp add: image_of_def)
  qed
  have "?P w' l \<inter> ?P w' j = {}" if "l \<in> L" "j \<in> L" "l \<noteq> j" for l j
    using that other [of l] other [of j] dj [of l j] r(5) m(2) by (cases "l = lp"; cases "j = lp") auto
  then have "thread_ok c L w'" using wok' r(2-4) w'(2) other by (auto simp: thread_ok_def)
  then show ?thesis using w'(1,3) other by blast
qed


lemma times_thread_ok: "thread_ok times_config {..<1} times_worker"
proof -
  have "ends_ok {..<1} times_worker" by (simp add: ends_ok_def counts_ok_def times_worker_def lessThan_Suc)
  moreover have "rq_timely {} (w_retractable times_worker)"
    using example_serial_ok by (simp add: times_worker_def serial_ok_def example_serial_def)
  moreover have "l = 0 \<Longrightarrow> lp_ok times_config {..<1} l times_worker" for l using times_ok by simp
  moreover have "worker_ok {..<1} 0 times_worker" using times_ok by (simp add: lp_ok_def)
  ultimately show ?thesis by (simp add: thread_ok_def worker_ok_def) (simp add: times_worker_def)
qed

theorem thread_keeps_order_witness:
  "\<exists>w'. process_ordinary times_config one_thread 0 2 times_worker = Inr w' \<and> thread_ok times_config {..<1} w'"
proof -
  let ?w = times_worker and ?c = times_config
  let ?keep = "filter (\<lambda>x. \<not> msg_is_before (view (w_msg ?w 2)) x)"
  have "in_use (w_alloc ?w) 2" by (simp add: times_worker_def in_use_def)
  moreover have "l = 0 \<Longrightarrow> 2 \<notin> set (past_addrs (p_msgs (w_lps ?w l)))" for l by (simp add: times_lp past_addrs_def)
  moreover have "asks_later ?c (view (w_msg ?w 2))" by (simp add: asks_later_def times_config_def)
  moreover have "?keep (pasts ?w (take (fst (first_log 0 ?w)) (p_msgs (w_lps ?w 0)))) = pasts ?w (take (fst (first_log 0 ?w)) (p_msgs (w_lps ?w 0)))"
    using times_order [of 2 0] by (simp add: times_lp times_pasts times_msg)
  moreover have "m_dest_t (view (w_msg ?w 2)) < snd (replay ?c (?keep (pasts ?w (drop (fst (first_log 0 ?w)) (p_msgs (w_lps ?w 0))))) (snd (first_log 0 ?w)))"
    using times_order [of 2 1] by (simp add: times_lp times_pasts times_msg replay_def simtime_big)
  ultimately show ?thesis
    using thread_keeps_order [OF times_thread_ok, of 0 2 one_thread] by (auto simp: times_debug times_msg simtime_big LP_RETRACTABLE_def)
qed

end
