(* ===== verification/Fossil.thy ===== *)
theory Fossil
  imports ThreadInv
begin

text \<open>
  Fossil collection (gvt/fossil.c): the processed messages below the global virtual time, the
  messages behind them and the checkpoints that only they need are freed, and nothing that the
  process can still need is.
\<close>

subsection \<open>The index of the last message below the GVT\<close>

lemma fossil_scan_none:
  "fossil_scan msg gvt p n = None \<Longrightarrow> k < n \<Longrightarrow> p ! k = Past a \<Longrightarrow> gvt \<le> m_dest_t (msg a)"
proof (induction n)
  case (Suc n)
  then show ?case by (cases "k = n") (auto split: entry.splits if_splits)
qed simp

lemma fossil_scan_some:
  "fossil_scan msg gvt p n = Some i \<Longrightarrow> i < n \<and> (\<exists>a. p ! i = Past a \<and> m_dest_t (msg a) < gvt)
     \<and> (\<forall>k a. i < k \<and> k < n \<and> p ! k = Past a \<longrightarrow> gvt \<le> m_dest_t (msg a))"
proof (induction n)
  case (Suc n)
  show ?case
  proof (cases "\<exists>a. p ! n = Past a \<and> m_dest_t (msg a) < gvt")
    case True
    with Suc.prems show ?thesis by auto
  next
    case False
    then have "fossil_scan msg gvt p n = Some i" using Suc.prems by (auto split: entry.splits if_splits)
    with Suc.IH False show ?thesis by (auto simp: less_Suc_eq)
  qed
qed simp

text \<open>The messages up to it are all below the GVT, for they are in order.\<close>

lemma in_order_prefix: "in_order (xs @ ys) \<Longrightarrow> in_order xs"
  by (simp add: in_order_def sorted_wrt_append)

lemma prefix_below:
  assumes "in_order (pasts w p)" "i < length p" "p ! i = Past a" "m_dest_t (w_msg w a) < gvt" "n \<le> Suc i"
  shows "\<forall>m\<in>set (pasts w (take n p)). m_dest_t m < gvt"
proof -
  have s: "pasts w (take (Suc i) p) = pasts w (take i p) @ [view (w_msg w a)]"
    using assms(2,3) by (simp add: take_Suc_conv_app_nth pasts_append) (simp add: pasts_def)
  have "p = take (Suc i) p @ drop (Suc i) p" by simp
  then have "in_order (pasts w (take (Suc i) p))" using assms(1) in_order_prefix pasts_append by metis
  then have "\<not> msg_is_before (view (w_msg w a)) m" if "m \<in> set (pasts w (take (Suc i) p))" for m
    using in_order_last [OF _ _ that] s by simp
  then have "m_dest_t m < gvt" if "m \<in> set (pasts w (take (Suc i) p))" for m
    using that assms(4) by (fastforce simp: msg_is_before_def split: if_splits)
  moreover have "take (Suc i) p = take n p @ drop n (take (Suc i) p)"
    using assms(5) by (metis append_take_drop_id min_absorb1 take_take)
  ultimately show ?thesis by (metis UnI1 pasts_append set_append)
qed

subsection \<open>The messages that are freed\<close>

text \<open>An entry for a message sent to the same node is a second reference to a message of the receiver.\<close>

definition own_addrs :: "entry list \<Rightarrow> nat list" where
  "own_addrs p = map unmark_msg (filter (\<lambda>e. \<not> is_msg_local_sent e) p)"

definition owns :: "'s worker \<Rightarrow> entry list \<Rightarrow> bool" where
  "owns w p \<longleftrightarrow> distinct (own_addrs p) \<and> (\<forall>a\<in>set (own_addrs p). in_use (w_alloc w) a)"

lemma own_addrs_split: "own_addrs p = own_addrs (take n p) @ own_addrs (drop n p)"
  by (simp add: own_addrs_def map_append [symmetric] filter_append [symmetric] del: map_append filter_append)

lemma past_own: "set (past_addrs p) \<subseteq> set (own_addrs p)"
proof -
  have "is_msg_past e \<Longrightarrow> \<not> is_msg_local_sent e" for e by (cases e) auto
  then show ?thesis by (auto simp: past_addrs_def own_addrs_def)
qed

lemma frees_kept:
  assumes "alloc_ok (w_alloc w)" "owns w p"
  shows "\<exists>al. foldr (\<lambda>e w. if is_msg_local_sent e then w else alloc_upd (msg_allocator_free (unmark_msg e)) w) p w = w\<lparr>w_alloc := al\<rparr>
    \<and> alloc_ok al \<and> ma_store al = ma_store (w_alloc w) \<and> (\<forall>b. b \<notin> set (own_addrs p) \<longrightarrow> in_use al b = in_use (w_alloc w) b)"
  using assms(2)
proof (induction p)
  case Nil
  then show ?case using assms(1) by (intro exI [of _ "w_alloc w"]) simp
next
  case (Cons e p)
  have "owns w p" using Cons.prems by (cases "is_msg_local_sent e") (auto simp: owns_def own_addrs_def)
  from Cons.IH [OF this] obtain al where
    al: "foldr (\<lambda>e w. if is_msg_local_sent e then w else alloc_upd (msg_allocator_free (unmark_msg e)) w) p w = w\<lparr>w_alloc := al\<rparr>"
    "alloc_ok al" "ma_store al = ma_store (w_alloc w)" "\<And>b. b \<notin> set (own_addrs p) \<Longrightarrow> in_use al b = in_use (w_alloc w) b" by blast
  show ?case
  proof (cases "is_msg_local_sent e")
    case True
    then show ?thesis using al by (intro exI [of _ al]) (simp add: own_addrs_def)
  next
    case False
    have "unmark_msg e \<notin> set (own_addrs p)" "in_use (w_alloc w) (unmark_msg e)" using Cons.prems False by (auto simp: owns_def own_addrs_def)
    then have "in_use al (unmark_msg e)" using al(4) by simp
    note f = free_kept [OF al(2) this]
    have "own_addrs (e # p) = unmark_msg e # own_addrs p" using False by (simp add: own_addrs_def)
    then show ?thesis using False al f
      by (intro exI [of _ "msg_allocator_free (unmark_msg e) al"]) (simp add: alloc_upd_def)
  qed
qed

subsection \<open>The checkpoints that are kept\<close>

lemma logs_ok_in:
  assumes "logs_ok c ms p ls" "(r, img) \<in> set ls"
  shows "cut p r" "img = replay c (ms (drop (fst (hd ls)) (take r p))) (snd (hd ls))"
  using assms unfolding logs_ok_def by blast+

lemma logs_ok_collect:
  assumes ok: "logs_ok c (pasts w) p ls" and j: "j < length ls" "ls ! j = (r, img)"
  shows "logs_ok c (pasts w) (drop r p) (map (\<lambda>(q, i). (q - r, i)) (drop j ls))" "fst (hd ls) \<le> r" "cut p r"
    "img = replay c (pasts w (drop (fst (hd ls)) (take r p))) (snd (hd ls))"
proof -
  have s: "sorted (map fst ls)" using ok by (simp add: logs_ok_def)
  have e: "(r, img) \<in> set ls" using j nth_mem by metis
  show 1: "fst (hd ls) \<le> r" "cut p r" "img = replay c (pasts w (drop (fst (hd ls)) (take r p))) (snd (hd ls))"
    by (rule logs_ok_first [OF ok e]) (rule logs_ok_in [OF ok e])+
  let ?ls = "map (\<lambda>(q, i). (q - r, i)) (drop j ls)"
  have h: "hd ?ls = (0, img)" "?ls \<noteq> []" using j by (simp_all add: hd_map hd_drop_conv_nth)
  have "sorted_wrt (\<lambda>x y. fst x \<le> fst y) ls" using s by (simp add: sorted_map)
  then have "sorted_wrt (\<lambda>x y. fst x \<le> fst y) (drop j ls)" by (rule sorted_wrt_drop)
  then have "sorted_wrt (\<lambda>x y. fst x - r \<le> fst y - r) (drop j ls)" by (rule sorted_wrt_mono_rel [rotated]) simp
  then have "sorted (map fst ?ls)" by (simp add: sorted_map sorted_wrt_map split_beta)
  moreover have "cut (drop r p) (q - r) \<and> i = replay c (pasts w (drop 0 (take (q - r) (drop r p)))) img" if "(q, i) \<in> set (drop j ls)" for q i
  proof -
    from that obtain k' where k': "k' < length ls - j" "drop j ls ! k' = (q, i)" by (metis in_set_conv_nth length_drop)
    then have "j \<le> j + k'" "j + k' < length ls" "ls ! (j + k') = (q, i)" using j(1) by (simp_all add: less_diff_conv add.commute)
    then obtain k where k: "j \<le> k" "k < length ls" "ls ! k = (q, i)" by blast
    have q: "r \<le> q" using sorted_nth_mono [OF s, of j k] k j by simp
    note 2 = logs_ok_in [OF ok in_set_dropD [OF that]]
    have "take (q - r) (drop r p) = drop r (take q p)" by (simp add: drop_take)
    moreover have "cut (drop r p) (q - r)"
    proof (cases "q = r")
      case False
      with q 2(1) have "is_msg_past (p ! (q - 1))" "q \<le> length p" "r + (q - r - 1) = q - 1" by (auto simp: cut_def)
      then show ?thesis using q by (auto simp: cut_def)
    qed (simp add: cut_def)
    moreover have "i = replay c (pasts w (drop r (take q p))) img"
      unfolding 1(3) replay_append [symmetric] pasts_append [symmetric] drop_take_split [OF 1(1) q, symmetric] by (rule 2(2))
    ultimately show ?thesis by (simp only: drop_0)
  qed
  ultimately show "logs_ok c (pasts w) (drop r p) ?ls" unfolding logs_ok_def h fst_conv snd_conv using h(2) by fastforce
qed

subsection \<open>The process after the collection\<close>

lemma lp_ok_suffix:
  assumes ok: "lp_ok c L lp w" and p: "p_msgs (w_lps w' lp) = drop n (p_msgs (w_lps w lp))"
    and l: "logs_ok c (pasts w) (drop n (p_msgs (w_lps w lp))) (logs (w_lps w' lp))"
    and i: "image_of lp w = replay c (pasts w (drop (fst (first_log lp w')) (drop n (p_msgs (w_lps w lp))))) (snd (first_log lp w'))"
    and t: "timely c now (snd (first_log lp w')) (pasts w (drop (fst (first_log lp w')) (drop n (p_msgs (w_lps w lp)))))"
    and a: "ma_store (w_alloc w') = ma_store (w_alloc w)" "alloc_ok (w_alloc w')"
      "\<forall>a\<in>set (past_addrs (drop n (p_msgs (w_lps w lp)))). in_use (w_alloc w') a"
    and r: "w_retractable w' = w_retractable w" "silent_processing w' = silent_processing w" "lp_state (w_lps w' lp) = lp_state (w_lps w lp)"
      "bound (w_lps w' lp) = (if drop n (p_msgs (w_lps w lp)) = [] then -1 else bound (w_lps w lp))"
  shows "lp_ok c L lp w'" "image_of lp w' = image_of lp w" "w_msg w' = w_msg w" "pasts w' = pasts w"
proof -
  let ?p = "p_msgs (w_lps w lp)"
  show im: "image_of lp w' = image_of lp w" using r by (simp add: image_of_def)
  show m: "w_msg w' = w_msg w" using a(1) by (simp add: w_msg_def msg_at_def fun_eq_iff)
  then show ps: "pasts w' = pasts w" by (simp add: pasts_def fun_eq_iff)
  have tw: "tw_ok c lp w" "worker_ok L lp w" "in_order (pasts w ?p)" using ok by (simp_all add: lp_ok_def)
  have cl: "cut ?p (length ?p)" by (rule tw_okD(2) [OF tw(1)])
  then have "cut (drop n ?p) (length (drop n ?p))" by (cases "n < length ?p") (auto simp: cut_def)
  from tw_okI [OF _ p this, of c] l i t ps im have tw': "tw_ok c lp w'" by simp
  have "distinct (past_addrs (drop n ?p))" using tw(2) past_addrs_split [of ?p n] by (simp add: worker_ok_def)
  then have wo: "worker_ok L lp w'" using tw(2) a r p by (simp add: worker_ok_def)
  have s: "pasts w ?p = pasts w (take n ?p) @ pasts w (drop n ?p)" by (simp add: pasts_append [symmetric])
  then have io: "in_order (pasts w' (drop n ?p))" using tw(3) by (simp add: ps in_order_def sorted_wrt_append)
  have "m_dest_t (last (pasts w (drop n ?p))) \<le> bound (w_lps w lp)" if "drop n ?p \<noteq> []"
  proof -
    have "?p \<noteq> []" "cut (drop n ?p) (length (drop n ?p))" using that tw_okD(2) [OF tw'] p by auto
    then have "pasts w (drop n ?p) \<noteq> []" using cut_last [OF _ that, of w] by auto
    then show ?thesis using ok s \<open>?p \<noteq> []\<close> by (simp add: lp_ok_def)
  qed
  then show "lp_ok c L lp w'" using tw' wo io r(4) unfolding lp_ok_def p ps by simp
qed

text \<open>Nothing is below the GVT: only the interval of checkpoints may change.\<close>

lemma collect_none:
  assumes ok: "lp_ok c L lp w"
    and scan: "fossil_scan (w_msg w) (fossil_gvt_current w) (p_msgs (w_lps w lp)) (length (p_msgs (w_lps w lp))) = None"
    and lg: "logs (f (w_lps w lp)) = logs (w_lps w lp)" "p_msgs (f (w_lps w lp)) = p_msgs (w_lps w lp)"
    "lp_state (f (w_lps w lp)) = lp_state (w_lps w lp)" "bound (f (w_lps w lp)) = bound (w_lps w lp)"
  shows "fossil_lp_collect lp (lp_upd lp f w) = Inr (lp_upd lp f w)"
    "let w' = bound_reset lp (lp_upd lp f w) in lp_ok c L lp w' \<and> image_of lp w' = image_of lp w \<and> w_msg w' = w_msg w
      \<and> p_msgs (w_lps w' lp) = p_msgs (w_lps w lp) \<and> logs (w_lps w' lp) = logs (w_lps w lp) \<and> w_alloc w' = w_alloc w
      \<and> (\<forall>l. l \<noteq> lp \<longrightarrow> w_lps w' l = w_lps w l)"
proof -
  let ?w0 = "lp_upd lp f w" and ?p = "p_msgs (w_lps w lp)"
  let ?v = "bound_reset lp ?w0"
  have tw: "tw_ok c lp w" "worker_ok L lp w" using ok by (simp_all add: lp_ok_def)
  note k = tw_okD [OF tw(1)]
  have w0: "p_msgs (w_lps ?w0 lp) = ?p" "w_msg ?w0 = w_msg w" "fossil_gvt_current ?w0 = fossil_gvt_current w"
    using lg by (simp_all add: lp_upd_def w_msg_def fun_eq_iff)
  have "is_msg_past (last ?p)" if "?p \<noteq> []" using cut_last [OF k(2) that] by force
  then show "fossil_lp_collect lp ?w0 = Inr ?w0" using scan unfolding fossil_lp_collect_def Let_def w0 by (cases "?p = []") simp_all
  obtain now where t: "timely c now (snd (first_log lp w)) (pasts w (drop (fst (first_log lp w)) ?p))" using k(4) by blast
  have s: "first_log lp ?v = first_log lp w" "logs (w_lps ?v lp) = logs (w_lps w lp)" "p_msgs (w_lps ?v lp) = drop 0 ?p"
    "w_alloc ?v = w_alloc w" "w_retractable ?v = w_retractable w" "silent_processing ?v = silent_processing w"
    "lp_state (w_lps ?v lp) = lp_state (w_lps w lp)" "bound (w_lps ?v lp) = (if drop 0 ?p = [] then -1 else bound (w_lps w lp))"
    "\<And>l. l \<noteq> lp \<Longrightarrow> w_lps ?v l = w_lps w l"
    using lg by (simp_all add: bound_reset_def lp_upd_def first_log_def)
  have "\<forall>a\<in>set (past_addrs (drop 0 ?p)). in_use (w_alloc ?v) a" "alloc_ok (w_alloc ?v)" using tw(2) s(4) by (simp_all add: worker_ok_def)
  from lp_ok_suffix(1-3) [OF ok s(3) _ _ _ _ this(2,1) s(5-8), of now] k(1,3) t s(1,2,4)
  have "lp_ok c L lp ?v" "image_of lp ?v = image_of lp w" "w_msg ?v = w_msg w" by simp_all
  with s(2-4,9) show "let w' = bound_reset lp (lp_upd lp f w) in lp_ok c L lp w' \<and> image_of lp w' = image_of lp w \<and> w_msg w' = w_msg w
      \<and> p_msgs (w_lps w' lp) = ?p \<and> logs (w_lps w' lp) = logs (w_lps w lp) \<and> w_alloc w' = w_alloc w
      \<and> (\<forall>l. l \<noteq> lp \<longrightarrow> w_lps w' l = w_lps w l)" by (simp add: Let_def)
qed

text \<open>The last message below the GVT is not before the first checkpoint, which stands behind one message at most.\<close>

lemma first_reached:
  assumes "cut p r" "length (pasts w (take r p)) \<le> 1" "p ! i = Past a" "i < length p"
  shows "r \<le> Suc i"
proof (rule ccontr)
  assume "\<not> r \<le> Suc i"
  then have r: "i < r - 1" "0 < r" "r \<le> length p" "is_msg_past (p ! (r - 1))" using assms(1) by (auto simp: cut_def)
  have "take r p = take (r - 1) p @ [p ! (r - 1)]" using r take_Suc_conv_app_nth [of "r - 1" p] by simp
  then have "pasts w (take r p) = pasts w (take (r - 1) p) @ [view (w_msg w (unmark_msg (p ! (r - 1))))]"
    using r(4) by (simp add: pasts_append) (simp add: pasts_def)
  moreover have "p ! i \<in> set (take (r - 1) p)" using r assms(4) by (metis in_set_conv_nth length_take min_less_iff_conj nth_take)
  then have "pasts w (take (r - 1) p) \<noteq> []" using assms(3) by (force simp: pasts_def filter_empty_conv)
  ultimately show False using assms(2) by (simp add: Suc_le_eq)
qed

text \<open>The checkpoint the collection goes back to, and those it keeps behind it.\<close>

lemma collect_log_found:
  assumes ok: "logs_ok c ms p ls" and first: "fst (hd ls) \<le> t"
  shows "\<exists>j n img. log_index ls t (length ls - 1) = Inr j \<and> j < length ls \<and> ls ! j = (n, img) \<and> n \<le> t
    \<and> (\<forall>k. j < k \<and> k < length ls \<longrightarrow> t < fst (ls ! k))"
proof -
  have ls: "ls \<noteq> []" "sorted (map fst ls)" using ok by (simp_all add: logs_ok_def)
  have z: "fst (ls ! 0) \<le> t" using ls(1) first by (simp add: hd_conv_nth)
  have "length ls - 1 < length ls" using ls(1) by simp
  from log_index_finds [OF ls(2) this z] obtain j where
    j: "log_index ls t (length ls - 1) = Inr j" "j \<le> length ls - 1" "fst (ls ! j) \<le> t"
      "\<forall>k. j < k \<and> k \<le> length ls - 1 \<longrightarrow> t < fst (ls ! k)" by blast
  have "k < length ls \<longleftrightarrow> k \<le> length ls - 1" for k using ls(1) by (cases ls) auto
  moreover obtain n img where e: "ls ! j = (n, img)" by (rule prod.exhaust)
  moreover have "n \<le> t" using j(3) unfolding e by simp
  ultimately show ?thesis using j(1,2,4) by blast
qed

lemma collect_logs_kept:
  assumes ok: "logs_ok c ms p ls" and n: "n \<le> t" and j: "\<And>k. j < k \<Longrightarrow> k < length ls \<Longrightarrow> t < fst (ls ! k)"
    and m: "(q, x) \<in> set (tl (map (\<lambda>(q, i). (q - n, i)) (drop j ls)))"
  shows "t < q + n" "cut p (q + n)"
proof -
  have "tl (map (\<lambda>(q, i). (q - n, i)) (drop j ls)) = map (\<lambda>(q, i). (q - n, i)) (drop (Suc j) ls)"
    by (simp add: map_tl [symmetric] drop_Suc tl_drop)
  with m obtain q' where q': "(q', x) \<in> set (drop (Suc j) ls)" "q = q' - n" by auto
  then obtain k where "k < length (drop (Suc j) ls)" "drop (Suc j) ls ! k = (q', x)" by (metis in_set_conv_nth)
  then have "Suc j + k < length ls" "ls ! (Suc j + k) = (q', x)" by simp_all
  then have "t < q'" using j [of "Suc j + k"] by simp
  moreover have "cut p q'" by (rule logs_ok_in(1) [OF ok in_set_dropD [OF q'(1)]])
  ultimately show "t < q + n" "cut p (q + n)" using q'(2) n by simp_all
qed

lemma collect_some:
  assumes ok: "lp_ok c L lp w" and own: "owns w (p_msgs (w_lps w lp))"
    and one: "length (pasts w (take (fst (first_log lp w)) (p_msgs (w_lps w lp)))) \<le> 1"
    and scan: "fossil_scan (w_msg w) (fossil_gvt_current w) (p_msgs (w_lps w lp)) (length (p_msgs (w_lps w lp))) = Some i"
    and lg: "logs (f (w_lps w lp)) = logs (w_lps w lp)" "p_msgs (f (w_lps w lp)) = p_msgs (w_lps w lp)"
    "lp_state (f (w_lps w lp)) = lp_state (w_lps w lp)" "bound (f (w_lps w lp)) = bound (w_lps w lp)"
  shows "\<exists>w1 n. fossil_lp_collect lp (lp_upd lp f w) = Inr w1 \<and> n \<le> Suc i
    \<and> (let w' = bound_reset lp w1 in lp_ok c L lp w' \<and> image_of lp w' = image_of lp w \<and> w_msg w' = w_msg w
    \<and> p_msgs (w_lps w' lp) = drop n (p_msgs (w_lps w lp)) \<and> fst (first_log lp w') = 0
    \<and> (\<forall>(q, x)\<in>set (tl (logs (w_lps w' lp))). Suc i < q + n \<and> cut (p_msgs (w_lps w lp)) (q + n))
    \<and> (\<forall>l. l \<noteq> lp \<longrightarrow> w_lps w' l = w_lps w l)
    \<and> (\<forall>b. b \<notin> set (own_addrs (take n (p_msgs (w_lps w lp)))) \<longrightarrow> in_use (w_alloc w') b = in_use (w_alloc w) b))"
proof -
  let ?p = "p_msgs (w_lps w lp)" and ?ls = "logs (w_lps w lp)" and ?w0 = "lp_upd lp f w"
  have tw: "tw_ok c lp w" "worker_ok L lp w" using ok by (simp_all add: lp_ok_def)
  note k = tw_okD [OF tw(1)]
  obtain now where t: "timely c now (snd (first_log lp w)) (pasts w (drop (fst (first_log lp w)) ?p))" using k(4) by blast
  from fossil_scan_some [OF scan] obtain a where i: "i < length ?p" "?p ! i = Past a" by blast
  have "fst (first_log lp w) \<le> Suc i" using first_reached [OF _ one i(2,1)] logs_ok_cut [OF k(1)] by (simp add: first_log_def)
  from collect_log_found [OF k(1) this [unfolded first_log_def]] obtain j n img where
    j: "log_index ?ls (Suc i) (length ?ls - 1) = Inr j" "j < length ?ls" and e: "?ls ! j = (n, img)" and n1: "n \<le> Suc i"
      and j4: "\<And>k. j < k \<Longrightarrow> k < length ?ls \<Longrightarrow> Suc i < fst (?ls ! k)" by blast
  note lc = logs_ok_collect [OF k(1) j(2) e]
  have n: "n \<le> Suc i" "n \<le> length ?p" using n1 lc(3) by (simp_all add: cut_def)
  let ?nl = "map (\<lambda>(q, i). (q - n, i)) (drop j ?ls)"
  let ?w1 = "lp_upd lp (\<lambda>x. x\<lparr>logs := ?nl\<rparr>) ?w0"
  have wa: "w_alloc ?w1 = w_alloc w" by (simp add: lp_upd_def)
  have "owns ?w1 (take n ?p)" using own unfolding owns_def own_addrs_split [of ?p n] wa by simp
  moreover have "alloc_ok (w_alloc ?w1)" using tw(2) unfolding wa by (simp add: worker_ok_def)
  ultimately obtain al where al: "foldr (\<lambda>e w. if is_msg_local_sent e then w else alloc_upd (msg_allocator_free (unmark_msg e)) w) (take n ?p) ?w1
      = ?w1\<lparr>w_alloc := al\<rparr>" "alloc_ok al" "ma_store al = ma_store (w_alloc w)"
      "\<And>b. b \<notin> set (own_addrs (take n ?p)) \<Longrightarrow> in_use al b = in_use (w_alloc w) b"
    using frees_kept [of ?w1 "take n ?p"] unfolding wa by blast
  let ?w2 = "lp_upd lp (\<lambda>x. x\<lparr>p_msgs := drop n ?p, fossil_epoch := fossil_epoch_current w\<rparr>) (?w1\<lparr>w_alloc := al\<rparr>)"
  let ?w' = "bound_reset lp ?w2"
  have w0: "p_msgs (w_lps ?w0 lp) = ?p" "logs (w_lps ?w0 lp) = ?ls" "w_msg ?w0 = w_msg w" "fossil_gvt_current ?w0 = fossil_gvt_current w"
    "fossil_epoch_current (?w1\<lparr>w_alloc := al\<rparr>) = fossil_epoch_current w"
    using lg by (simp_all add: lp_upd_def w_msg_def fun_eq_iff)
  have ne: "?p \<noteq> []" using i(1) by auto
  then have "is_msg_past (last ?p)" using cut_last [OF k(2) ne] by force
  then have run: "fossil_lp_collect lp ?w0 = Inr ?w2"
    using ne scan j(1) e n(2) al(1) unfolding fossil_lp_collect_def model_allocator_fossil_lp_collect_def Let_def w0
    by (simp add: w0)
  have s: "logs (w_lps ?w' lp) = ?nl" "p_msgs (w_lps ?w' lp) = drop n ?p" "w_alloc ?w' = al" "w_retractable ?w' = w_retractable w"
    "silent_processing ?w' = silent_processing w" "lp_state (w_lps ?w' lp) = lp_state (w_lps w lp)"
    "bound (w_lps ?w' lp) = (if drop n ?p = [] then -1 else bound (w_lps w lp))" "\<And>l. l \<noteq> lp \<Longrightarrow> w_lps ?w' l = w_lps w l"
    using lg by (simp_all add: bound_reset_def lp_upd_def)
  have fl: "first_log lp ?w' = (0, img)" unfolding first_log_def s(1) using j(2) e by (simp add: hd_map hd_drop_conv_nth)
  have split: "drop (fst (first_log lp w)) ?p = drop (fst (first_log lp w)) (take n ?p) @ drop n ?p"
    using drop_take_split [OF lc(2) n(2), of ?p] by (simp add: first_log_def)
  have im: "image_of lp w = replay c (pasts w (drop n ?p)) img"
    unfolding k(3) split pasts_append replay_append unfolding lc(4) first_log_def ..
  obtain now' where ti: "timely c now' img (pasts w (drop n ?p))"
    using t unfolding split pasts_append timely_append unfolding lc(4) first_log_def by blast
  have "a \<notin> set (own_addrs (take n ?p)) \<and> in_use (w_alloc w) a" if "a \<in> set (past_addrs (drop n ?p))" for a
    using own own_addrs_split [of ?p n] past_own [of "drop n ?p"] that by (auto simp: owns_def)
  then have use: "\<forall>a\<in>set (past_addrs (drop n ?p)). in_use (w_alloc ?w') a" using al(4) s(3) by simp
  note su = lp_ok_suffix [OF ok s(2) _ _ _ _ _ use s(4-7), unfolded s(1,3) fl fst_conv snd_conv drop_0, OF lc(1) im ti al(3,2)]
  note lt = collect_logs_kept [OF k(1) n1 j4]
  have "fst (first_log lp ?w') = 0" using fl by simp
  with run n(1) su s(2,3,8) al(4) lt show ?thesis unfolding Let_def s(1)
    by (intro exI [of _ ?w2] exI [of _ n] conjI) (auto simp: s)
qed

subsection \<open>Fossil collection is safe\<close>

lemma kept_not_below:
  assumes "cut p (q + n)" "0 < q" "i < q + n" and late: "\<And>k a. i \<le> k \<Longrightarrow> k < length p \<Longrightarrow> p ! k = Past a \<Longrightarrow> gvt \<le> m_dest_t (w_msg w a)"
  shows "gvt \<le> m_dest_t (last (pasts w (take q (drop n p))))"
proof -
  from assms obtain a where a: "p ! (q + n - 1) = Past a" "q + n \<le> length p" by (cases "p ! (q + n - 1)") (auto simp: cut_def)
  have i: "n + (q - 1) = q + n - 1" using assms(2) by simp
  have "take q (drop n p) = take (q - 1) (drop n p) @ [p ! (q + n - 1)]"
    using a assms(2) take_Suc_conv_app_nth [of "q - 1" "drop n p"] i by simp
  then have "last (pasts w (take q (drop n p))) = view (w_msg w a)"
    using a(1) by (simp add: pasts_append) (simp add: pasts_def)
  then show ?thesis using late [of "q + n - 1" a] a assms(2,3) by simp
qed

lemma owns_suffix:
  assumes "owns w p" "\<And>b. b \<notin> set (own_addrs (take n p)) \<Longrightarrow> in_use (w_alloc w') b = in_use (w_alloc w) b"
  shows "owns w' (drop n p)"
  using assms unfolding owns_def own_addrs_split [of p n] by auto

text \<open>C7: Fossil collection frees what is below the GVT and nothing that can still be needed. For a process whose
  first checkpoint stands behind its first message or before it, collect_if_needed succeeds; the
  invariant of the process, its state and its retractable event are kept; the entries are a suffix
  of the old ones, and each processed message that is dropped is below the GVT; the messages of
  other entries are still in use, with the contents they had, and no other process is touched. When
  a collection was due, each checkpoint kept besides the first stands behind a message that is not
  below the GVT, so no older one could be freed.
\<close>

theorem fossil_collection_safe:
  assumes ok: "lp_ok c L lp w" and own: "owns w (p_msgs (w_lps w lp))"
    and one: "length (pasts w (take (fst (first_log lp w)) (p_msgs (w_lps w lp)))) \<le> 1"
  shows "\<exists>w' n. collect_if_needed pl sz lp w = Inr w' \<and> lp_ok c L lp w' \<and> image_of lp w' = image_of lp w \<and> w_msg w' = w_msg w
    \<and> p_msgs (w_lps w' lp) = drop n (p_msgs (w_lps w lp)) \<and> owns w' (p_msgs (w_lps w' lp))
    \<and> (\<forall>m\<in>set (pasts w (take n (p_msgs (w_lps w lp)))). m_dest_t m < fossil_gvt_current w)
    \<and> length (pasts w' (take (fst (first_log lp w')) (p_msgs (w_lps w' lp)))) \<le> 1
    \<and> (fossil_is_needed lp w \<longrightarrow> (\<forall>(q, x)\<in>set (tl (logs (w_lps w' lp))). 0 < q
         \<longrightarrow> fossil_gvt_current w \<le> m_dest_t (last (pasts w' (take q (p_msgs (w_lps w' lp)))))))
    \<and> (\<forall>l. l \<noteq> lp \<longrightarrow> w_lps w' l = w_lps w l)
    \<and> (\<forall>b. b \<notin> set (own_addrs (take n (p_msgs (w_lps w lp)))) \<longrightarrow> in_use (w_alloc w') b = in_use (w_alloc w) b)"
proof (cases "fossil_is_needed lp w")
  case False
  then show ?thesis using assms by (intro exI [of _ w] exI [of _ 0]) (simp add: collect_if_needed_def, simp add: pasts_def)
next
  case True
  let ?p = "p_msgs (w_lps w lp)"
  let ?f = "\<lambda>x. x\<lparr>lp_ckpt := auto_ckpt_recompute (ckpt_interval pl) (w_ackpt w) sz (lp_ckpt x)\<rparr>"
  let ?w0 = "lp_upd lp ?f w"
  have run: "collect_if_needed pl sz lp w = bindR (fossil_lp_collect lp ?w0) (\<lambda>w. Inr (bound_reset lp w))"
    using True by (simp add: collect_if_needed_def)
  have tw: "logs_ok c (pasts w) ?p (logs (w_lps w lp))" "in_order (pasts w ?p)" using ok tw_okD(1) by (auto simp: lp_ok_def)
  have nil: "pasts w [] = []" by (simp add: pasts_def)
  show ?thesis
  proof (cases "fossil_scan (w_msg w) (fossil_gvt_current w) ?p (length ?p)")
    case None
    let ?w' = "bound_reset lp ?w0"
    have c: "fossil_lp_collect lp ?w0 = Inr ?w0" "lp_ok c L lp ?w'" "image_of lp ?w' = image_of lp w" "w_msg ?w' = w_msg w"
      "p_msgs (w_lps ?w' lp) = ?p" "logs (w_lps ?w' lp) = logs (w_lps w lp)" "w_alloc ?w' = w_alloc w"
      "\<And>l. l \<noteq> lp \<Longrightarrow> w_lps ?w' l = w_lps w l"
      using collect_none [OF ok None, of ?f] by (simp_all add: Let_def)
    have late: "fossil_gvt_current w \<le> m_dest_t (last (pasts w (take q ?p)))" if "(q, x) \<in> set (tl (logs (w_lps w lp)))" "0 < q" for q x
      using kept_not_below [of ?p q 0 0 "fossil_gvt_current w" w] logs_ok_in(1) [OF tw(1) list.set_sel(2) [OF _ that(1)]]
        fossil_scan_none [OF None] tw(1) that(2) by (simp add: logs_ok_def)
    have "pasts ?w' = pasts w" "first_log lp ?w' = first_log lp w" "owns ?w' ?p"
      using own c(4,6,7) by (simp_all add: pasts_def first_log_def owns_def fun_eq_iff)
    then show ?thesis using c one late nil unfolding run c(1) by (intro exI [of _ ?w'] exI [of _ 0]) auto
  next
    case (Some i)
    from collect_some [OF ok own one Some, of ?f] obtain w1 n where c: "fossil_lp_collect lp ?w0 = Inr w1" "n \<le> Suc i"
      "lp_ok c L lp (bound_reset lp w1)" "image_of lp (bound_reset lp w1) = image_of lp w" "w_msg (bound_reset lp w1) = w_msg w"
      "p_msgs (w_lps (bound_reset lp w1) lp) = drop n ?p" "fst (first_log lp (bound_reset lp w1)) = 0"
      "\<forall>(q, x)\<in>set (tl (logs (w_lps (bound_reset lp w1) lp))). Suc i < q + n \<and> cut ?p (q + n)"
      "\<forall>l. l \<noteq> lp \<longrightarrow> w_lps (bound_reset lp w1) l = w_lps w l"
      "\<forall>b. b \<notin> set (own_addrs (take n ?p)) \<longrightarrow> in_use (w_alloc (bound_reset lp w1)) b = in_use (w_alloc w) b"
      unfolding Let_def by auto
    from fossil_scan_some [OF Some] obtain a where a: "i < length ?p" "?p ! i = Past a" "m_dest_t (w_msg w a) < fossil_gvt_current w"
      "\<And>k b. Suc i \<le> k \<Longrightarrow> k < length ?p \<Longrightarrow> ?p ! k = Past b \<Longrightarrow> fossil_gvt_current w \<le> m_dest_t (w_msg w b)"
      unfolding Suc_le_eq by blast
    have late: "fossil_gvt_current w \<le> m_dest_t (last (pasts w (take q (drop n ?p))))"
      if "(q, x) \<in> set (tl (logs (w_lps (bound_reset lp w1) lp)))" "0 < q" for q x
      using kept_not_below [of ?p q n "Suc i", OF _ that(2) _ a(4)] c(8) that(1) by auto
    have "pasts (bound_reset lp w1) = pasts w" using c(5) by (simp add: pasts_def fun_eq_iff)
    moreover have "owns (bound_reset lp w1) (drop n ?p)" using owns_suffix [OF own] c(10) by blast
    ultimately show ?thesis using prefix_below [OF tw(2) a(1-3) c(2)] c(3-7,9,10) late nil unfolding run c(1)
      by (intro exI [of _ "bound_reset lp w1"] exI [of _ n]) (auto simp: c(6,7))
  qed
qed

text \<open>The process with the times 0 and 4, at the GVT 4: the first message goes.\<close>

definition gvt_worker :: "simtime list worker" where
  "gvt_worker = times_worker\<lparr>fossil_epoch_current := 1, fossil_gvt_current := 4\<rparr>"

theorem fossil_collection_safe_witness:
  "\<exists>w'. collect_if_needed one_thread 0 0 gvt_worker = Inr w' \<and> lp_ok times_config {..<1} 0 w' \<and> image_of 0 w' = ([0, 4], SIMTIME_MAX)
     \<and> p_msgs (w_lps w' 0) = [Past 1]"
proof -
  have w: "w_lps gvt_worker = w_lps times_worker" "w_alloc gvt_worker = w_alloc times_worker" "w_msg gvt_worker = w_msg times_worker"
    "w_retractable gvt_worker = w_retractable times_worker" "silent_processing gvt_worker = silent_processing times_worker"
    "fossil_gvt_current gvt_worker = 4"
    by (simp_all add: gvt_worker_def w_msg_def fun_eq_iff)
  then have p: "pasts gvt_worker = pasts times_worker" "image_of 0 gvt_worker = image_of 0 times_worker"
    "first_log 0 gvt_worker = first_log 0 times_worker"
    by (simp_all add: pasts_def image_of_def first_log_def fun_eq_iff)
  have "lp_ok times_config {..<1} 0 gvt_worker" using times_ok w p by (simp add: lp_ok_def tw_ok_def worker_ok_def Let_def)
  moreover have "owns gvt_worker (p_msgs (w_lps gvt_worker 0))"
    by (simp add: owns_def own_addrs_def w times_lp in_use_def) (simp add: times_worker_def)
  moreover have "length (pasts gvt_worker (take (fst (first_log 0 gvt_worker)) (p_msgs (w_lps gvt_worker 0)))) \<le> 1"
    by (simp add: w p times_lp times_pasts)
  ultimately obtain w' where "collect_if_needed one_thread 0 0 gvt_worker = Inr w'" "lp_ok times_config {..<1} 0 w'"
    "image_of 0 w' = ([0, 4], SIMTIME_MAX)"
    using fossil_collection_safe [of times_config "{..<1}" 0 gvt_worker one_thread 0] p(2) times_image by metis
  moreover have "\<exists>w'. collect_if_needed one_thread 0 0 gvt_worker = Inr w' \<and> p_msgs (w_lps w' 0) = [Past 1]"
  proof -
    have n: "fossil_epoch (w_lps times_worker 0) = 0" "fossil_epoch_current gvt_worker = 1"
      by (simp_all add: times_worker_def gvt_worker_def)
    show ?thesis
      by (simp add: collect_if_needed_def fossil_is_needed_def fossil_lp_collect_def model_allocator_fossil_lp_collect_def Let_def
        lp_upd_def w(1,2,6) times_lp n w_msg_def times_msg [unfolded w_msg_def] bound_reset_def)
  qed
  ultimately show ?thesis by auto
qed

end
