(* ===== verification/Control.thy ===== *)
theory Control
  imports Prelude
begin

text \<open>
  The registry of the control messages of libraries (core/control_msg.c) and how they are broadcast
  (mpi_library_control_msg_broadcast of distributed/mpi.c). The array of handlers is a list whose
  slots are None until something is stored in them; a handler changes an environment of any type.
  A failed allocation ends the program in the code and is left out. The counter of the numbers
  handed out is an int in the code, whose overflow is undefined; it is a word of that width here, the
  same up to 2 to the 31 registrations.

  The results: the registry refines a list: registering appends, the number handed out finds the
  handler, every other number ends the program; and what goes wrong when the module is used again
  after control_msg_fini.
\<close>

definition INITIAL_HANDLERS_CAPACITY :: nat where "INITIAL_HANDLERS_CAPACITY = 4"
definition FIRST_LIBRARY_CONTROL_MSG_ID :: u32 where "FIRST_LIBRARY_CONTROL_MSG_ID = 0"
definition CONTROL_MSG_PAYLOAD_SIZE :: nat where "CONTROL_MSG_PAYLOAD_SIZE = 16"

type_synonym 'e handler = "u32 \<Rightarrow> u8 list \<Rightarrow> 'e \<Rightarrow> 'e"

record 'e control =
  library_handlers :: "(u32 \<times> 'e handler) option list option"   \<comment> \<open>None: the null pointer\<close>
  library_handlers_capacity :: nat
  library_handlers_size :: nat
  next_control_msg_id :: u32

text \<open>The static variables at the start of the program.\<close>

definition control_start :: "'e control" where
  "control_start = \<lparr>library_handlers = None, library_handlers_capacity = 0, library_handlers_size = 0,
     next_control_msg_id = FIRST_LIBRARY_CONTROL_MSG_ID\<rparr>"

definition control_msg_init :: "'e control \<Rightarrow> 'e control" where
  "control_msg_init s =
     (if library_handlers s \<noteq> None then s
      else s\<lparr>library_handlers_capacity := INITIAL_HANDLERS_CAPACITY,
             library_handlers := Some (replicate INITIAL_HANDLERS_CAPACITY None)\<rparr>)"

definition control_msg_fini :: "'e control \<Rightarrow> 'e control" where
  "control_msg_fini s = (if library_handlers s \<noteq> None then s\<lparr>library_handlers := None\<rparr> else s)"

definition realloc_handlers :: "nat \<Rightarrow> 'a option list option \<Rightarrow> 'a option list option" where
  "realloc_handlers n hs = (let old = (case hs of None \<Rightarrow> [] | Some xs \<Rightarrow> xs) in
     Some (take n old @ replicate (n - length old) None))"

definition control_msg_register_handler :: "'e handler \<Rightarrow> 'e control \<Rightarrow> (u32 \<times> 'e control) res" where
  "control_msg_register_handler f s =
     (let s = (if library_handlers_size s \<ge> library_handlers_capacity s then
                 let new_capacity = library_handlers_capacity s * 2 in
                 s\<lparr>library_handlers := realloc_handlers new_capacity (library_handlers s), library_handlers_capacity := new_capacity\<rparr>
               else s);
          ret = next_control_msg_id s; s = s\<lparr>next_control_msg_id := ret + 1\<rparr> in
      case library_handlers s of
        None \<Rightarrow> Inl NullDeref
      | Some hs \<Rightarrow> bindR (updR hs (library_handlers_size s) (Some (ret, f))) (\<lambda>hs.
          Inr (ret, s\<lparr>library_handlers := Some hs, library_handlers_size := library_handlers_size s + 1\<rparr>)))"

fun find_handler :: "(u32 \<times> 'e handler) option list \<Rightarrow> u32 \<Rightarrow> nat list \<Rightarrow> 'e handler res" where
  "find_handler hs code [] = Inl Abort"
| "find_handler hs code (i # js) = bindR (nthR hs i) (\<lambda>slot. case slot of
     None \<Rightarrow> Inl Uninitialised
   | Some (control_msg_id, f) \<Rightarrow> if control_msg_id = code then Inr f else find_handler hs code js)"

definition invoke_library_handler :: "u32 \<Rightarrow> u8 list \<Rightarrow> 'e control \<Rightarrow> 'e \<Rightarrow> 'e res" where
  "invoke_library_handler code payload s e =
     (case library_handlers s of
        None \<Rightarrow> Inl (if library_handlers_size s = 0 then Abort else NullDeref)
      | Some hs \<Rightarrow> bindR (find_handler hs code [0..<library_handlers_size s]) (\<lambda>f. Inr (f code payload e)))"

text \<open>
  The messages given to MPI: the node, the code, and the 16 bytes of the payload, zero where
  nothing is copied. A payload of all 16 bytes is refused.
\<close>

definition mpi_library_control_msg_broadcast :: "nat \<Rightarrow> u32 \<Rightarrow> u8 list option \<Rightarrow> (nat \<times> u32 \<times> u8 list) list res" where
  "mpi_library_control_msg_broadcast nodes ctrl payload =
     bindR (case payload of
        None \<Rightarrow> Inr (replicate CONTROL_MSG_PAYLOAD_SIZE 0)
      | Some bs \<Rightarrow> bindR (guardR (length bs < CONTROL_MSG_PAYLOAD_SIZE) Abort) (\<lambda>_.
          Inr (bs @ replicate (CONTROL_MSG_PAYLOAD_SIZE - length bs) 0)))
     (\<lambda>pld. Inr (map (\<lambda>i. (i, ctrl, pld)) (rev [0..<nodes])))"


text \<open>The handlers that were called, and the messages given to MPI.\<close>

definition control_msg_broadcast ::
    "bool \<Rightarrow> nat \<Rightarrow> u32 \<Rightarrow> u8 list option \<Rightarrow> 'e control \<Rightarrow> 'e \<Rightarrow> ('e \<times> (nat \<times> u32 \<times> u8 list) list) res" where
  "control_msg_broadcast serial nodes ctrl payload s e =
     (if serial \<or> nodes = 1 then
        bindR (invoke_library_handler ctrl (case payload of None \<Rightarrow> [] | Some bs \<Rightarrow> bs) s e) (\<lambda>e. Inr (e, []))
      else bindR (mpi_library_control_msg_broadcast nodes ctrl payload) (\<lambda>ms. Inr (e, ms)))"

subsection \<open>The registry is a list\<close>

definition holds :: "'e control \<Rightarrow> 'e handler list \<Rightarrow> bool" where
  "holds s fs \<longleftrightarrow> (\<exists>hs. library_handlers s = Some hs \<and> length hs = library_handlers_capacity s
     \<and> 0 < library_handlers_capacity s \<and> library_handlers_size s = length fs \<and> length fs \<le> length hs
     \<and> next_control_msg_id s = of_nat (length fs) \<and> (\<forall>i<length fs. hs ! i = Some (of_nat i, fs ! i)))"

lemma init_holds: "holds (control_msg_init control_start) []"
  by (simp add: holds_def control_msg_init_def control_start_def INITIAL_HANDLERS_CAPACITY_def FIRST_LIBRARY_CONTROL_MSG_ID_def)

lemma register_holds:
  assumes "holds s fs"
  shows "\<exists>s'. control_msg_register_handler f s = Inr (of_nat (length fs), s') \<and> holds s' (fs @ [f])"
proof -
  obtain hs where h: "library_handlers s = Some hs" "length hs = library_handlers_capacity s" "0 < library_handlers_capacity s"
    "library_handlers_size s = length fs" "length fs \<le> length hs" "next_control_msg_id s = of_nat (length fs)"
    "\<And>i. i < length fs \<Longrightarrow> hs ! i = Some (of_nat i, fs ! i)" using assms by (auto simp: holds_def)
  define xs where "xs = (if length fs \<ge> length hs then hs @ replicate (length hs) None else hs)"
  have xs: "length fs < length xs" "\<And>i. i < length fs \<Longrightarrow> xs ! i = Some (of_nat i, fs ! i)"
    using h(2,3,5,7) by (auto simp: xs_def nth_append)
  let ?s = "s\<lparr>next_control_msg_id := of_nat (length fs) + 1, library_handlers := Some (xs[length fs := Some (of_nat (length fs), f)]),
    library_handlers_size := length fs + 1, library_handlers_capacity := length xs\<rparr>"
  have "control_msg_register_handler f s = Inr (of_nat (length fs), ?s)"
    using h xs(1) unfolding xs_def
    by (cases "length fs \<ge> length hs") (simp_all add: control_msg_register_handler_def Let_def realloc_handlers_def numeral_2_eq_2)
  moreover have "holds ?s (fs @ [f])"
    using xs by (auto simp: holds_def nth_append nth_list_update less_Suc_eq)
  ultimately show ?thesis by blast
qed


lemma find_handler_ok:
  assumes "\<forall>i<n. i < length hs \<and> hs ! i = Some (of_nat i, fs ! i)" "n \<le> 2 ^ 32"
  shows "m \<le> n \<Longrightarrow> find_handler hs code [m..<n] = (if m \<le> unat code \<and> unat code < n then Inr (fs ! unat code) else Inl Abort)"
proof (induction "n - m" arbitrary: m)
  case (Suc d)
  then have m: "m < n" and up: "[m..<n] = m # [Suc m..<n]" by (simp_all add: upt_conv_Cons)
  have "unat (of_nat m :: u32) = m" using m assms(2) by (simp add: unat_of_nat take_bit_nat_eq_self)
  then have e: "of_nat m = code \<longleftrightarrow> m = unat code" by auto
  have "find_handler hs code [Suc m..<n] = (if Suc m \<le> unat code \<and> unat code < n then Inr (fs ! unat code) else Inl Abort)"
    using Suc.hyps(1) [of "Suc m"] Suc.hyps(2) m by simp
  then show ?case using assms(1) m unfolding up by (auto simp: e)
qed simp

lemma invoke_holds:
  assumes "holds s fs" "length fs \<le> 2 ^ 32"
  shows "invoke_library_handler code payload s e = (if unat code < length fs then Inr ((fs ! unat code) code payload e) else Inl Abort)"
proof -
  obtain hs where h: "library_handlers s = Some hs" "library_handlers_size s = length fs"
    "\<forall>i<length fs. i < length hs \<and> hs ! i = Some (of_nat i, fs ! i)" using assms(1) by (auto simp: holds_def)
  with find_handler_ok [OF h(3) assms(2), of 0 code] show ?thesis by (simp add: invoke_library_handler_def)
qed

fun register_all :: "'e handler list \<Rightarrow> 'e control \<Rightarrow> (u32 list \<times> 'e control) res" where
  "register_all [] s = Inr ([], s)"
| "register_all (f # fs) s = bindR (control_msg_register_handler f s) (\<lambda>(i, s).
     bindR (register_all fs s) (\<lambda>(is, s). Inr (i # is, s)))"

lemma register_all_holds:
  "holds s fs \<Longrightarrow> \<exists>s'. register_all gs s = Inr (map of_nat [length fs..<length fs + length gs], s') \<and> holds s' (fs @ gs)"
proof (induction gs arbitrary: s fs)
  case (Cons g gs)
  from register_holds [OF Cons.prems, of g] obtain s1 where
    s1: "control_msg_register_handler g s = Inr (of_nat (length fs), s1)" "holds s1 (fs @ [g])" by blast
  have "[length fs..<length fs + length (g # gs)] = length fs # [Suc (length fs)..<Suc (length fs) + length gs]"
    by (simp add: upt_conv_Cons del: upt_Suc)
  with Cons.IH [OF s1(2)] s1(1) show ?case by (auto simp del: upt_Suc)
qed simp

text \<open>C32: The registry of library handlers is a list that only grows. Handlers registered after
  control_msg_init, however many, get the numbers 0, 1, 2 and so on; invoke_library_handler then
  calls exactly the handler of the number it is given, with that number and the payload, and ends
  the program for a number that was not handed out; a broadcast on a single node does the same.
\<close>

theorem handlers_dispatch:
  assumes "length fs \<le> 2 ^ 31"
  shows "\<exists>s. register_all fs (control_msg_init control_start) = Inr (map of_nat [0..<length fs], s)
    \<and> (\<forall>code payload e. invoke_library_handler code payload s e
         = (if unat code < length fs then Inr ((fs ! unat code) code payload e) else Inl Abort))
    \<and> (\<forall>code bs e. control_msg_broadcast False 1 code (Some bs) s e
         = (if unat code < length fs then Inr ((fs ! unat code) code bs e, []) else Inl Abort))"
proof -
  from register_all_holds [OF init_holds, of fs] obtain s where
    s: "register_all fs (control_msg_init control_start) = Inr (map of_nat [0..<length fs], s)" "holds s fs" by auto
  have "length fs \<le> 2 ^ 32" using assms by simp
  with invoke_holds [OF s(2)] s(1) show ?thesis by (auto simp: control_msg_broadcast_def)
qed

theorem handlers_dispatch_witness:
  "\<exists>s. register_all (map (\<lambda>k _ _ e. e + k) [1, 2, 3, 4, 5 :: nat]) (control_msg_init control_start) = Inr ([0, 1, 2, 3, 4], s)
    \<and> invoke_library_handler 4 [] s 10 = Inr 15 \<and> invoke_library_handler 5 [] s 10 = Inl Abort"
proof -
  let ?fs = "map (\<lambda>k (_ :: u32) (_ :: u8 list) e. e + k) [1, 2, 3, 4, 5 :: nat]"
  have l: "length ?fs \<le> 2 ^ 31" by simp
  have i: "map of_nat [0..<length ?fs] = [0, 1, 2, 3, 4 :: u32]" by (simp add: upt_rec)
  have c: "unat (4 :: u32) < length ?fs" "\<not> unat (5 :: u32) < length ?fs" "(?fs ! unat (4 :: u32)) 4 [] 10 = 15" by simp_all
  from handlers_dispatch [OF l] obtain s where s: "register_all ?fs (control_msg_init control_start) = Inr ([0, 1, 2, 3, 4], s)"
    "\<And>code payload e. invoke_library_handler code payload s e
         = (if unat code < length ?fs then Inr ((?fs ! unat code) code payload e) else Inl Abort)"
    unfolding i by blast
  have "invoke_library_handler 4 [] s 10 = Inr 15" "invoke_library_handler 5 [] s 10 = Inl Abort"
    unfolding s(2) using c by (simp_all only: if_True if_False simp_thms)
  with s(1) show ?thesis by blast
qed

text \<open>
  control_msg_fini does not reset the number of handlers: when the module is initialised again,
  looking for a handler reads a slot in which nothing was stored.
\<close>

lemma handlers_after_fini:
  assumes "holds s fs" "fs \<noteq> []" "length fs \<le> INITIAL_HANDLERS_CAPACITY"
  shows "invoke_library_handler code payload (control_msg_init (control_msg_fini s)) e = Inl Uninitialised"
proof -
  obtain n where n: "length fs = Suc n" using assms(2) by (cases fs) auto
  then have "[0..<length fs] = 0 # [1..<length fs]" by (simp add: upt_rec)
  then show ?thesis using assms(1,3) n
    by (auto simp: holds_def control_msg_fini_def control_msg_init_def invoke_library_handler_def INITIAL_HANDLERS_CAPACITY_def)
qed

text \<open>A payload of the size the header allows is refused.\<close>

lemma full_payload_refused:
  "length bs = CONTROL_MSG_PAYLOAD_SIZE \<Longrightarrow> mpi_library_control_msg_broadcast nodes ctrl (Some bs) = Inl Abort"
  by (simp add: mpi_library_control_msg_broadcast_def)

end
