(* ===== verification/DList.thy ===== *)
theory DList
  imports Prelude
begin

text \<open>
  The doubly linked lists of datatypes/list.h. Nodes live in a memory: an address is a number, a
  pointer an optional address, the key of a node a real number. What lies behind a pointer that
  was overwritten with a marker is not followed by any macro. The assertions on the size hold by
  construction, release_fn of list_trunc is the list of the nodes it is called with. A loop that
  does not end is None.

  The results: the macros refine operations on lists of addresses, the insertion by key keeps the
  order of the keys and ends; popping or truncating all nodes leaves the tail pointer behind.
\<close>

record dnode =
  dn_prev :: "nat option"
  dn_next :: "nat option"
  dn_key :: real

record dlist =
  dl_size :: nat
  dl_head :: "nat option"
  dl_tail :: "nat option"
  dl_mem :: "nat \<Rightarrow> dnode"

definition new_list :: "(nat \<Rightarrow> dnode) \<Rightarrow> dlist" where
  "new_list m = \<lparr>dl_size = 0, dl_head = None, dl_tail = None, dl_mem = m\<rparr>"

definition list_empty :: "dlist \<Rightarrow> bool" where
  "list_empty l \<longleftrightarrow> dl_size l = 0"

text \<open>Writing to the links of the node behind a pointer.\<close>

definition set_next :: "nat option \<Rightarrow> nat option \<Rightarrow> dlist \<Rightarrow> dlist res" where
  "set_next p v l = (case p of None \<Rightarrow> Inl NullDeref
     | Some a \<Rightarrow> Inr (l\<lparr>dl_mem := (dl_mem l)(a := (dl_mem l a)\<lparr>dn_next := v\<rparr>)\<rparr>))"

definition set_prev :: "nat option \<Rightarrow> nat option \<Rightarrow> dlist \<Rightarrow> dlist res" where
  "set_prev p v l = (case p of None \<Rightarrow> Inl NullDeref
     | Some a \<Rightarrow> Inr (l\<lparr>dl_mem := (dl_mem l)(a := (dl_mem l a)\<lparr>dn_prev := v\<rparr>)\<rparr>))"

definition set_links :: "nat \<Rightarrow> nat option \<Rightarrow> nat option \<Rightarrow> dlist \<Rightarrow> dlist" where
  "set_links a p n l = l\<lparr>dl_mem := (dl_mem l)(a := (dl_mem l a)\<lparr>dn_prev := p, dn_next := n\<rparr>)\<rparr>"

definition list_insert_tail :: "nat \<Rightarrow> dlist \<Rightarrow> dlist res" where
  "list_insert_tail new_n l =
     (let l = set_links new_n None None l in
      bindR (if dl_size l = 0 then Inr (l\<lparr>dl_head := Some new_n, dl_tail := Some new_n\<rparr>)
             else bindR (set_next (dl_tail l) (Some new_n) (set_links new_n (dl_tail l) None l)) (\<lambda>l.
               Inr (l\<lparr>dl_tail := Some new_n\<rparr>)))
        (\<lambda>l. Inr (l\<lparr>dl_size := dl_size l + 1\<rparr>)))"

definition list_insert_head :: "nat \<Rightarrow> dlist \<Rightarrow> dlist res" where
  "list_insert_head new_n l =
     (let l = set_links new_n None None l in
      bindR (if dl_size l = 0 then Inr (l\<lparr>dl_head := Some new_n, dl_tail := Some new_n\<rparr>)
             else bindR (set_prev (dl_head l) (Some new_n) (set_links new_n None (dl_head l) l)) (\<lambda>l.
               Inr (l\<lparr>dl_head := Some new_n\<rparr>)))
        (\<lambda>l. Inr (l\<lparr>dl_size := dl_size l + 1\<rparr>)))"

text \<open>The scan of list_insert from the tail.\<close>

partial_function (option) scan_back :: "(nat \<Rightarrow> dnode) \<Rightarrow> real \<Rightarrow> nat option \<Rightarrow> nat option option" where
  "scan_back m key n =
     (case n of None \<Rightarrow> Some None
      | Some a \<Rightarrow> if key < dn_key (m a) then scan_back m key (dn_prev (m a)) else Some n)"

text \<open>The insertion behind the node n, at the tail, or at the head.\<close>

definition insert_behind :: "nat \<Rightarrow> nat option \<Rightarrow> dlist \<Rightarrow> dlist res" where
  "insert_behind new_n n l =
     (if n = dl_tail l then
        bindR (set_next (dl_tail l) (Some new_n) (set_links new_n (dn_prev (dl_mem l new_n)) None l)) (\<lambda>l.
        bindR (set_prev (Some new_n) (dl_tail l) l) (\<lambda>l. Inr (l\<lparr>dl_tail := Some new_n\<rparr>)))
      else case n of
        None \<Rightarrow> bindR (set_prev (dl_head l) (Some new_n) (set_links new_n None (dl_head l) l)) (\<lambda>l.
          Inr (l\<lparr>dl_head := Some new_n\<rparr>))
      | Some a \<Rightarrow>
          let l = set_links new_n n (dn_next (dl_mem l a)) l in
          bindR (set_prev (dn_next (dl_mem l a)) (Some new_n) l) (\<lambda>l. set_next n (Some new_n) l))"

definition list_insert :: "nat \<Rightarrow> dlist \<Rightarrow> dlist res option" where
  "list_insert new_n l =
     (if dl_size l = 0 then
        Some (Inr ((set_links new_n None None l)\<lparr>dl_head := Some new_n, dl_tail := Some new_n, dl_size := dl_size l + 1\<rparr>))
      else map_option (\<lambda>n. bindR (insert_behind new_n n l) (\<lambda>l. Inr (l\<lparr>dl_size := dl_size l + 1\<rparr>)))
             (scan_back (dl_mem l) (dn_key (dl_mem l new_n)) (dl_tail l)))"

definition list_detach_by_content :: "nat \<Rightarrow> dlist \<Rightarrow> dlist res" where
  "list_detach_by_content n l =
     bindR (if dl_head l = Some n then
              let l = l\<lparr>dl_head := dn_next (dl_mem l n)\<rparr> in
              if dl_head l \<noteq> None then set_prev (dl_head l) None l else Inr l
            else Inr l) (\<lambda>l.
     bindR (if dl_tail l = Some n then
              let l = l\<lparr>dl_tail := dn_prev (dl_mem l n)\<rparr> in
              if dl_tail l \<noteq> None then set_next (dl_tail l) None l else Inr l
            else Inr l) (\<lambda>l.
     bindR (if dn_next (dl_mem l n) \<noteq> None then set_prev (dn_next (dl_mem l n)) (dn_prev (dl_mem l n)) l else Inr l) (\<lambda>l.
     bindR (if dn_prev (dl_mem l n) \<noteq> None then set_next (dn_prev (dl_mem l n)) (dn_next (dl_mem l n)) l else Inr l) (\<lambda>l.
       Inr ((set_links n (Some 0xDEADC0DE) (Some 0xBEEFC0DE) l)\<lparr>dl_size := dl_size l - 1\<rparr>)))))"

definition list_pop :: "dlist \<Rightarrow> dlist res" where
  "list_pop l =
     (case dl_head l of
        None \<Rightarrow> Inr l
      | Some n \<Rightarrow>
          let next = dn_next (dl_mem l n); l = l\<lparr>dl_head := next\<rparr> in
          bindR (if next \<noteq> None then set_prev next None l else Inr l) (\<lambda>l.
            Inr ((set_links n (Some 0xDEFEC8ED) (Some 0xDEFEC8ED) l)\<lparr>dl_size := dl_size l - 1\<rparr>)))"

partial_function (option) trunc_loop ::
    "real \<Rightarrow> nat option \<Rightarrow> (nat \<Rightarrow> dnode) \<Rightarrow> nat list \<Rightarrow> (nat option \<times> (nat \<Rightarrow> dnode) \<times> nat list) option" where
  "trunc_loop key_value n m released =
     (case n of None \<Rightarrow> Some (None, m, released)
      | Some a \<Rightarrow> if dn_key (m a) < key_value
          then trunc_loop key_value (dn_next (m a)) (m(a := (m a)\<lparr>dn_next := Some 0xBAADF00D, dn_prev := Some 0xBAADF00D\<rparr>)) (released @ [a])
          else Some (n, m, released))"

text \<open>The nodes given to release_fn, as many as the macro returns, and the list.\<close>

definition list_trunc :: "real \<Rightarrow> dlist \<Rightarrow> (nat list \<times> dlist) res option" where
  "list_trunc key_value l =
     (if dl_size l = 0 then Some (Inr ([], l))
      else map_option (\<lambda>(n, m, released).
             let l = l\<lparr>dl_mem := m, dl_head := n\<rparr> in
             bindR (if dl_head l \<noteq> None then set_prev (dl_head l) None l else Inr l) (\<lambda>l.
               Inr (released, l\<lparr>dl_size := dl_size l - length released\<rparr>)))
           (trunc_loop key_value (dl_head l) (dl_mem l) []))"

subsection \<open>The nodes of a list\<close>

definition first_or :: "nat list \<Rightarrow> nat option \<Rightarrow> nat option" where
  "first_or xs n = (case xs of [] \<Rightarrow> n | x # _ \<Rightarrow> Some x)"

definition last_or :: "nat option \<Rightarrow> nat list \<Rightarrow> nat option" where
  "last_or p xs = (if xs = [] then p else Some (last xs))"

lemma first_or_simps [simp]: "first_or [] n = n" "first_or (x # xs) n = Some x" "first_or (xs @ ys) n = first_or xs (first_or ys n)"
  by (simp_all add: first_or_def split: list.split)

lemma last_or_simps [simp]: "last_or p [] = p" "last_or p (x # xs) = last_or (Some x) xs" "last_or p (xs @ ys) = last_or (last_or p xs) ys"
  by (simp_all add: last_or_def)

text \<open>A piece of a list between the nodes p and n.\<close>

fun linked :: "(nat \<Rightarrow> dnode) \<Rightarrow> nat option \<Rightarrow> nat list \<Rightarrow> nat option \<Rightarrow> bool" where
  "linked m p [] n = True"
| "linked m p (x # xs) n = (dn_prev (m x) = p \<and> dn_next (m x) = first_or xs n \<and> linked m (Some x) xs n)"

lemma linked_append: "linked m p (xs @ ys) n \<longleftrightarrow> linked m p xs (first_or ys n) \<and> linked m (last_or p xs) ys n"
  by (induction xs arbitrary: p) auto

lemma linked_cong: "(\<And>x. x \<in> set xs \<Longrightarrow> m x = m' x) \<Longrightarrow> linked m p xs n = linked m' p xs n"
  by (induction xs arbitrary: p) auto

lemma linked_next:
  assumes "linked m p (xs @ [x]) n" "distinct (xs @ [x])"
  shows "linked (m(x := (m x)\<lparr>dn_next := n'\<rparr>)) p (xs @ [x]) n'"
proof -
  have "linked (m(x := (m x)\<lparr>dn_next := n'\<rparr>)) p xs (Some x) = linked m p xs (Some x)" using assms(2) by (intro linked_cong) auto
  with assms(1) show ?thesis by (simp add: linked_append)
qed

lemma linked_prev:
  assumes "linked m p (x # xs) n" "distinct (x # xs)"
  shows "linked (m(x := (m x)\<lparr>dn_prev := p'\<rparr>)) p' (x # xs) n"
proof -
  have "linked (m(x := (m x)\<lparr>dn_prev := p'\<rparr>)) (Some x) xs n = linked m (Some x) xs n" using assms(2) by (intro linked_cong) auto
  with assms(1) show ?thesis by simp
qed

text \<open>The list l holds the nodes xs. An empty list may have any tail.\<close>

definition dl_ok :: "dlist \<Rightarrow> nat list \<Rightarrow> bool" where
  "dl_ok l xs \<longleftrightarrow> distinct xs \<and> dl_size l = length xs \<and> dl_head l = first_or xs None
     \<and> (xs \<noteq> [] \<longrightarrow> dl_tail l = Some (last xs)) \<and> linked (dl_mem l) None xs None"


text \<open>The node a between us and vs, put there or taken away.\<close>

lemma linked_spliced:
  assumes "linked m p us n1" "linked m p1 vs n" "distinct (us @ vs)"
    and a: "dn_prev (m' a) = last_or p us" "dn_next (m' a) = first_or vs n"
    and us: "\<And>x. x \<in> set us \<Longrightarrow> m' x = (if x = last us then (m x)\<lparr>dn_next := Some a\<rparr> else m x)"
    and vs: "\<And>x. x \<in> set vs \<Longrightarrow> m' x = (if x = hd vs then (m x)\<lparr>dn_prev := Some a\<rparr> else m x)"
  shows "linked m' p (us @ a # vs) n"
proof -
  have "linked m' p us (Some a)"
  proof (cases us rule: rev_cases)
    case (snoc ws x)
    have "linked (m(x := (m x)\<lparr>dn_next := Some a\<rparr>)) p us (Some a)" using assms(1,3) unfolding snoc by (intro linked_next) auto
    moreover have "linked m' p us (Some a) = linked (m(x := (m x)\<lparr>dn_next := Some a\<rparr>)) p us (Some a)"
      using us by (intro linked_cong) (auto simp: snoc)
    ultimately show ?thesis by simp
  qed simp
  moreover have "linked m' (Some a) vs n"
  proof (cases vs)
    case (Cons x ws)
    have "linked (m(x := (m x)\<lparr>dn_prev := Some a\<rparr>)) (Some a) vs n" using assms(2,3) unfolding Cons by (intro linked_prev) auto
    moreover have "linked m' (Some a) vs n = linked (m(x := (m x)\<lparr>dn_prev := Some a\<rparr>)) (Some a) vs n"
      using vs by (intro linked_cong) (auto simp: Cons)
    ultimately show ?thesis by simp
  qed simp
  ultimately show ?thesis using a by (simp add: linked_append)
qed

lemma linked_joined:
  assumes "linked m p us n1" "linked m p1 vs n" "distinct (us @ vs)"
    and us: "\<And>x. x \<in> set us \<Longrightarrow> m' x = (if x = last us then (m x)\<lparr>dn_next := first_or vs n\<rparr> else m x)"
    and vs: "\<And>x. x \<in> set vs \<Longrightarrow> m' x = (if x = hd vs then (m x)\<lparr>dn_prev := last_or p us\<rparr> else m x)"
  shows "linked m' p (us @ vs) n"
proof -
  have "linked m' p us (first_or vs n)"
  proof (cases us rule: rev_cases)
    case (snoc ws x)
    have "linked (m(x := (m x)\<lparr>dn_next := first_or vs n\<rparr>)) p us (first_or vs n)"
      using assms(1,3) unfolding snoc by (intro linked_next) auto
    moreover have "linked m' p us (first_or vs n) = linked (m(x := (m x)\<lparr>dn_next := first_or vs n\<rparr>)) p us (first_or vs n)"
      using us by (intro linked_cong) (auto simp: snoc)
    ultimately show ?thesis by simp
  qed simp
  moreover have "linked m' (last_or p us) vs n"
  proof (cases vs)
    case (Cons x ws)
    have "linked (m(x := (m x)\<lparr>dn_prev := last_or p us\<rparr>)) (last_or p us) vs n"
      using assms(2,3) unfolding Cons by (intro linked_prev) auto
    moreover have "linked m' (last_or p us) vs n = linked (m(x := (m x)\<lparr>dn_prev := last_or p us\<rparr>)) (last_or p us) vs n"
      using vs by (intro linked_cong) (auto simp: Cons)
    ultimately show ?thesis by simp
  qed simp
  ultimately show ?thesis by (simp add: linked_append)
qed

subsection \<open>The macros\<close>

definition keys_kept :: "dlist \<Rightarrow> dlist \<Rightarrow> bool" where
  "keys_kept l l' \<longleftrightarrow> (\<forall>x. dn_key (dl_mem l' x) = dn_key (dl_mem l x))"

lemma insert_tail_ok:
  assumes "dl_ok l xs" "a \<notin> set xs"
  shows "\<exists>l'. list_insert_tail a l = Inr l' \<and> dl_ok l' (xs @ [a]) \<and> keys_kept l l'"
proof (cases "xs = []")
  case True
  then show ?thesis using assms by (auto simp: list_insert_tail_def dl_ok_def set_links_def keys_kept_def)
next
  case False
  let ?m = "dl_mem l" and ?t = "last xs"
  have t: "dl_tail l = Some ?t" "?t \<in> set xs" "?t \<noteq> a" "dl_size l = length xs" "linked ?m None xs None" "distinct xs"
    using assms False last_in_set [OF False] by (auto simp: dl_ok_def)
  let ?m' = "?m(a := (?m a)\<lparr>dn_prev := Some ?t, dn_next := None\<rparr>, ?t := (?m ?t)\<lparr>dn_next := Some a\<rparr>)"
  have "list_insert_tail a l = Inr (l\<lparr>dl_mem := ?m', dl_tail := Some a, dl_size := length xs + 1\<rparr>)"
    using t(1,3,4) False by (simp add: list_insert_tail_def set_links_def set_next_def Let_def)
  moreover have "linked ?m' None (xs @ [a]) None"
    using t(2,3,5,6) assms(2) False by (intro linked_spliced [of ?m None xs None None "[]"]) (auto simp: last_or_def)
  moreover have "dl_head l = first_or xs (Some a)" using assms(1) False by (cases xs) (auto simp: dl_ok_def)
  ultimately show ?thesis using t assms(2) by (simp add: dl_ok_def keys_kept_def)
qed

lemma insert_head_ok:
  assumes "dl_ok l xs" "a \<notin> set xs"
  shows "\<exists>l'. list_insert_head a l = Inr l' \<and> dl_ok l' (a # xs) \<and> keys_kept l l'"
proof (cases xs)
  case Nil
  then show ?thesis using assms by (auto simp: list_insert_head_def dl_ok_def set_links_def keys_kept_def)
next
  case (Cons h ys)
  let ?m = "dl_mem l"
  have h: "dl_head l = Some h" "h \<noteq> a" "dl_size l = length xs" "linked ?m None xs None" "distinct xs"
    using assms Cons by (auto simp: dl_ok_def)
  let ?m' = "?m(a := (?m a)\<lparr>dn_prev := None, dn_next := Some h\<rparr>, h := (?m h)\<lparr>dn_prev := Some a\<rparr>)"
  have "list_insert_head a l = Inr (l\<lparr>dl_mem := ?m', dl_head := Some a, dl_size := length xs + 1\<rparr>)"
    using h(1,2,3) Cons by (simp add: list_insert_head_def set_links_def set_prev_def Let_def)
  moreover have "linked ?m' None ([] @ a # xs) None"
    using h(2,4,5) assms(2) Cons by (intro linked_spliced [of ?m None "[]" None None xs]) auto
  ultimately show ?thesis using h assms Cons by (simp add: dl_ok_def keys_kept_def)
qed


text \<open>Where the scan stops: behind the nodes us, before those at the end with larger keys.\<close>

definition upto_key :: "(nat \<Rightarrow> dnode) \<Rightarrow> real \<Rightarrow> nat list \<Rightarrow> nat list" where
  "upto_key m key xs = rev (dropWhile (\<lambda>x. key < dn_key (m x)) (rev xs))"

definition above_key :: "(nat \<Rightarrow> dnode) \<Rightarrow> real \<Rightarrow> nat list \<Rightarrow> nat list" where
  "above_key m key xs = rev (takeWhile (\<lambda>x. key < dn_key (m x)) (rev xs))"

lemma key_split: "upto_key m key xs @ above_key m key xs = xs"
  unfolding upto_key_def above_key_def by (metis rev_append rev_rev_ident takeWhile_dropWhile_id)

lemma scan_back_place:
  "linked m None xs n \<Longrightarrow> scan_back m key (last_or None xs) = Some (last_or None (upto_key m key xs))"
proof (induction xs arbitrary: n rule: rev_induct)
  case Nil
  then show ?case by (subst scan_back.simps) (simp add: upto_key_def)
next
  case (snoc x xs)
  then have l: "linked m None xs (Some x)" "dn_prev (m x) = last_or None xs" by (simp_all add: linked_append)
  show ?case
  proof (cases "key < dn_key (m x)")
    case True
    then show ?thesis using snoc.IH [OF l(1)] l(2) by (subst scan_back.simps) (simp add: upto_key_def)
  next
    case False
    then show ?thesis by (subst scan_back.simps) (simp add: upto_key_def)
  qed
qed

lemma insert_behind_ok:
  assumes "dl_ok l (us @ vs)" "us @ vs \<noteq> []" "a \<notin> set (us @ vs)"
  shows "\<exists>l'. insert_behind a (last_or None us) l = Inr l' \<and> dl_ok (l'\<lparr>dl_size := dl_size l' + 1\<rparr>) (us @ a # vs) \<and> keys_kept l l'"
proof -
  let ?m = "dl_mem l"
  have l: "dl_tail l = Some (last (us @ vs))" "dl_head l = first_or (us @ vs) None" "dl_size l = length (us @ vs)" "distinct (us @ vs)"
    "linked ?m None us (first_or vs None)" "linked ?m (last_or None us) vs None"
    using assms(1,2) by (simp_all add: dl_ok_def linked_append)
  consider "vs = []" | "us = []" "vs \<noteq> []" | "us \<noteq> []" "vs \<noteq> []" by blast
  then show ?thesis
  proof cases
    case 1
    let ?t = "last us"
    have t: "?t \<in> set us" "?t \<noteq> a" "us \<noteq> []" using assms(2,3) 1 last_in_set [of us] by auto
    let ?m' = "?m(?t := (?m ?t)\<lparr>dn_next := Some a\<rparr>, a := (?m a)\<lparr>dn_next := None, dn_prev := Some ?t\<rparr>)"
    have "insert_behind a (last_or None us) l = Inr (l\<lparr>dl_mem := ?m', dl_tail := Some a\<rparr>)"
      using l(1) 1 t by (simp add: insert_behind_def last_or_def set_links_def set_next_def set_prev_def fun_upd_twist)
    moreover have "linked ?m' None (us @ a # []) None"
      using l(4,5) assms(3) t 1 by (intro linked_spliced [of ?m None us None None "[]"]) (auto simp: last_or_def)
    moreover have "first_or us None = first_or us (Some a)" using t(3) by (cases us) auto
    ultimately show ?thesis using l 1 assms(3) t by (simp add: dl_ok_def keys_kept_def)
  next
    case 2
    then obtain h ws where v: "vs = h # ws" by (cases vs) auto
    have h: "h \<noteq> a" "last vs \<in> set vs" using assms(3) v by auto
    let ?m' = "?m(a := (?m a)\<lparr>dn_prev := None, dn_next := Some h\<rparr>, h := (?m h)\<lparr>dn_prev := Some a\<rparr>)"
    have "insert_behind a (last_or None us) l = Inr (l\<lparr>dl_mem := ?m', dl_head := Some a\<rparr>)"
      using l(1,2) 2 v h by (simp add: insert_behind_def set_links_def set_prev_def)
    moreover have "linked ?m' None ([] @ a # vs) None"
      using l(4,6) assms(3) 2 v h by (intro linked_spliced [of ?m None "[]" None None vs]) auto
    ultimately show ?thesis using l 2 assms(3) v by (simp add: dl_ok_def keys_kept_def)
  next
    case 3
    then obtain h ws where v: "vs = h # ws" by (cases vs) auto
    let ?u = "last us"
    have "?u \<in> set us" "last vs \<in> set vs" "h \<in> set vs" "set us \<inter> set vs = {}" using 3 v l(4) by simp_all
    then have u: "?u \<in> set us" "?u \<noteq> a" "h \<noteq> a" "?u \<noteq> h" "?u \<noteq> last vs" "?u \<notin> set ws" using assms(3) v by auto
    have nx: "dn_next (?m ?u) = Some h" using l(5) 3(1) v by (cases us rule: rev_cases) (auto simp: linked_append)
    let ?m' = "?m(a := (?m a)\<lparr>dn_prev := Some ?u, dn_next := Some h\<rparr>, h := (?m h)\<lparr>dn_prev := Some a\<rparr>, ?u := (?m ?u)\<lparr>dn_next := Some a\<rparr>)"
    have "insert_behind a (last_or None us) l = Inr (l\<lparr>dl_mem := ?m'\<rparr>)"
      using l(1) 3 u nx by (simp add: insert_behind_def last_or_def set_links_def set_prev_def set_next_def Let_def)
    moreover have "linked ?m' None (us @ a # vs) None"
      using l(4,5,6) assms(3) 3 v u by (intro linked_spliced [of ?m None us _ _ vs]) (auto simp: last_or_def)
    moreover have "first_or us (Some h) = first_or us (Some a)" using 3(1) by (cases us) auto
    ultimately show ?thesis using l 3 assms(3) v by (simp add: dl_ok_def keys_kept_def)
  qed
qed

lemma list_insert_ok:
  assumes "dl_ok l xs" "a \<notin> set xs"
  defines "k \<equiv> dn_key (dl_mem l a)"
  shows "\<exists>l'. list_insert a l = Some (Inr l') \<and> dl_ok l' (upto_key (dl_mem l) k xs @ a # above_key (dl_mem l) k xs) \<and> keys_kept l l'"
proof (cases "xs = []")
  case True
  then show ?thesis using assms by (auto simp: list_insert_def dl_ok_def set_links_def keys_kept_def upto_key_def above_key_def)
next
  case False
  let ?us = "upto_key (dl_mem l) k xs" and ?vs = "above_key (dl_mem l) k xs"
  have sp: "?us @ ?vs = xs" by (rule key_split)
  from insert_behind_ok [of l ?us ?vs a, unfolded sp, OF assms(1) False assms(2)] obtain l' where
    l': "insert_behind a (last_or None ?us) l = Inr l'" "dl_ok (l'\<lparr>dl_size := dl_size l' + 1\<rparr>) (?us @ a # ?vs)" "keys_kept l l'" by blast
  have "scan_back (dl_mem l) k (dl_tail l) = Some (last_or None ?us)"
    using scan_back_place [of "dl_mem l" xs None k] assms(1) False by (simp add: dl_ok_def last_or_def)
  then show ?thesis using l' assms(1) False by (simp add: list_insert_def k_def [symmetric] keys_kept_def dl_ok_def)
qed

text \<open>The keys stay in order.\<close>

lemma sorted_key_last: "sorted (map f xs) \<Longrightarrow> x \<in> set xs \<Longrightarrow> f x \<le> (f (last xs) :: real)"
  by (induction xs rule: rev_induct) (auto simp: sorted_append)

lemma insert_sorted:
  assumes "sorted (map (\<lambda>x. dn_key (m x)) xs)"
  shows "sorted (map (\<lambda>x. dn_key (m x)) (upto_key m (dn_key (m a)) xs @ a # above_key m (dn_key (m a)) xs))"
proof -
  let ?k = "\<lambda>x. dn_key (m x)" and ?us = "upto_key m (dn_key (m a)) xs" and ?vs = "above_key m (dn_key (m a)) xs"
  have sp: "sorted (map ?k (?us @ ?vs))" using assms by (simp only: key_split)
  have v: "\<forall>x\<in>set ?vs. ?k a < ?k x" by (auto simp: above_key_def dest: set_takeWhileD)
  have u: "?k x \<le> ?k a" if "x \<in> set ?us" for x
  proof -
    have ne: "?us \<noteq> []" using that by auto
    then have "dropWhile (\<lambda>x. ?k a < ?k x) (rev xs) \<noteq> []" by (simp add: upto_key_def)
    from hd_dropWhile [OF this] have "\<not> ?k a < ?k (last ?us)" by (simp add: upto_key_def last_rev)
    moreover have "sorted (map ?k ?us)" using sp by (simp add: sorted_append)
    then have "?k x \<le> ?k (last ?us)" using sorted_key_last [of ?k ?us x] that by simp
    ultimately show ?thesis by simp
  qed
  from sp u v show ?thesis by (force simp: sorted_append)
qed


lemma detach_ok:
  assumes "dl_ok l (us @ a # vs)"
  shows "\<exists>l'. list_detach_by_content a l = Inr l' \<and> dl_ok l' (us @ vs) \<and> (us @ vs = [] \<longrightarrow> dl_tail l' = None)"
proof -
  let ?m = "dl_mem l"
  have l: "dl_tail l = Some (last (a # vs))" "dl_head l = first_or (us @ a # vs) None" "dl_size l = length us + length vs + 1"
    "distinct (us @ a # vs)" "linked ?m None us (Some a)" "linked ?m (Some a) vs None"
    "dn_prev (?m a) = last_or None us" "dn_next (?m a) = first_or vs None"
    using assms by (simp_all add: dl_ok_def linked_append)
  define m1 where "m1 = (case vs of [] \<Rightarrow> ?m | h # _ \<Rightarrow> ?m(h := (?m h)\<lparr>dn_prev := last_or None us\<rparr>))"
  define m2 where "m2 = (if us = [] then m1 else m1(last us := (m1 (last us))\<lparr>dn_next := first_or vs None\<rparr>))"
  define l' where "l' = l\<lparr>dl_head := first_or (us @ vs) None, dl_tail := last_or None (us @ vs),
    dl_mem := m2(a := (m2 a)\<lparr>dn_prev := Some 0xDEADC0DE, dn_next := Some 0xBEEFC0DE\<rparr>), dl_size := length us + length vs\<rparr>"
  have hd: "us \<noteq> [] \<Longrightarrow> dl_head l \<noteq> Some a \<and> first_or (us @ vs) None = dl_head l" using l(2,4) by (cases us) auto
  have tl: "vs \<noteq> [] \<Longrightarrow> dl_tail l \<noteq> Some a \<and> last_or None (us @ vs) = dl_tail l"
    using l(1,4) last_in_set [of vs] by (auto simp: last_or_def)
  note defs = list_detach_by_content_def set_prev_def set_next_def set_links_def Let_def l'_def m1_def m2_def
  have "list_detach_by_content a l = Inr l'"
  proof (cases us rule: rev_cases)
    case Nil
    show ?thesis
    proof (cases vs)
      case vn: Nil
      show ?thesis using l(1-3,7,8) by (simp add: defs Nil vn)
    next
      case (Cons h ws)
      show ?thesis using l(2-4,7,8) tl by (simp add: defs Nil Cons)
    qed
  next
    case (snoc ws u)
    show ?thesis
    proof (cases vs)
      case Nil
      show ?thesis using l(1,3,4,7,8) hd by (simp add: defs snoc Nil)
    next
      case (Cons h xs)
      show ?thesis using l(3,4,7,8) hd tl by (simp add: defs snoc Cons)
    qed
  qed
  moreover have "linked (dl_mem l') None (us @ vs) None"
  proof (rule linked_joined [OF l(5,6)])
    have 1: "m1 x = (if vs \<noteq> [] \<and> x = hd vs then (?m x)\<lparr>dn_prev := last_or None us\<rparr> else ?m x)" for x
      by (cases vs) (simp_all add: m1_def)
    have 2: "dl_mem l' x = (if us \<noteq> [] \<and> x = last us then (m1 x)\<lparr>dn_next := first_or vs None\<rparr> else m1 x)" if "x \<noteq> a" for x
      using that by (simp add: l'_def m2_def)
    have dj: "x \<noteq> a \<and> x \<notin> set vs" if "x \<in> set us" for x using l(4) that by auto
    have dk: "x \<noteq> a \<and> x \<notin> set us" if "x \<in> set vs" for x using l(4) that by auto
    show "dl_mem l' x = (if x = last us then (?m x)\<lparr>dn_next := first_or vs None\<rparr> else ?m x)" if "x \<in> set us" for x
    proof -
      have "us \<noteq> []" "\<not> (vs \<noteq> [] \<and> x = hd vs)" using that dj [OF that] by auto
      then show ?thesis using dj [OF that] by (cases "vs = []") (auto simp: 1 2)
    qed
    show "dl_mem l' x = (if x = hd vs then (?m x)\<lparr>dn_prev := last_or None us\<rparr> else ?m x)" if "x \<in> set vs" for x
    proof -
      have "vs \<noteq> []" "\<not> (us \<noteq> [] \<and> x = last us)" using that dk [OF that] by auto
      then show ?thesis using dk [OF that] by (cases "us = []") (auto simp: 1 2)
    qed
    show "distinct (us @ vs)" using l(4) by simp
  qed
  ultimately show ?thesis using l(4) by (auto simp: dl_ok_def l'_def last_or_def)
qed


lemma linked_unlinked_prev:
  assumes "linked m p (x # xs) n" "distinct (x # xs)" "\<And>y. y \<in> set (x # xs) \<Longrightarrow> m' y = (if y = x then (m y)\<lparr>dn_prev := None\<rparr> else m y)"
  shows "linked m' None (x # xs) n"
proof -
  have "linked m' None (x # xs) n = linked (m(x := (m x)\<lparr>dn_prev := None\<rparr>)) None (x # xs) n"
    using assms(3) by (intro linked_cong) auto
  with linked_prev [OF assms(1,2)] show ?thesis by simp
qed

lemma pop_ok:
  assumes "dl_ok l xs"
  shows "\<exists>l'. list_pop l = Inr l' \<and> dl_ok l' (tl xs) \<and> dl_tail l' = dl_tail l"
proof (cases xs)
  case Nil
  then show ?thesis using assms by (simp add: list_pop_def dl_ok_def)
next
  case (Cons a vs)
  let ?m = "dl_mem l" and ?gone = "\<lambda>n. n\<lparr>dn_prev := Some 0xDEFEC8ED, dn_next := Some 0xDEFEC8ED\<rparr>"
  have l: "dl_head l = Some a" "dl_size l = Suc (length vs)" "dl_tail l = Some (last (a # vs))" "distinct (a # vs)"
    "dn_next (?m a) = first_or vs None" "linked ?m (Some a) vs None" using assms Cons by (simp_all add: dl_ok_def)
  show ?thesis
  proof (cases vs)
    case Nil
    then show ?thesis using l Cons by (simp add: list_pop_def set_links_def dl_ok_def)
  next
    case v: (Cons h ws)
    let ?l = "l\<lparr>dl_head := Some h, dl_mem := ?m(h := (?m h)\<lparr>dn_prev := None\<rparr>, a := ?gone (?m a)), dl_size := length vs\<rparr>"
    have "list_pop l = Inr ?l" using l v by (simp add: list_pop_def set_links_def set_prev_def Let_def)
    moreover have "linked (dl_mem ?l) None vs None"
      unfolding v using l(4,6) v by (intro linked_unlinked_prev [of ?m "Some a"]) auto
    ultimately show ?thesis using l(3,4) v Cons by (simp add: dl_ok_def)
  qed
qed

lemma trunc_loop_ok:
  "linked m p xs None \<Longrightarrow> distinct xs \<Longrightarrow>
   \<exists>m'. trunc_loop kv (first_or xs None) m rel
        = Some (first_or (dropWhile (\<lambda>x. dn_key (m x) < kv) xs) None, m', rel @ takeWhile (\<lambda>x. dn_key (m x) < kv) xs)
     \<and> (\<forall>y. y \<notin> set (takeWhile (\<lambda>x. dn_key (m x) < kv) xs) \<longrightarrow> m' y = m y)"
proof (induction xs arbitrary: m p rel)
  case Nil
  then show ?case by (subst trunc_loop.simps) simp
next
  case (Cons a xs)
  show ?case
  proof (cases "dn_key (m a) < kv")
    case True
    let ?m = "m(a := (m a)\<lparr>dn_next := Some 0xBAADF00D, dn_prev := Some 0xBAADF00D\<rparr>)"
    have k: "(\<lambda>x. dn_key (?m x) < kv) = (\<lambda>x. dn_key (m x) < kv)" by (simp add: fun_eq_iff)
    have "linked ?m (Some a) xs None = linked m (Some a) xs None" using Cons.prems(2) by (intro linked_cong) auto
    then have "linked ?m (Some a) xs None" "distinct xs" using Cons.prems by simp_all
    from Cons.IH [OF this, of "rel @ [a]", unfolded k] obtain m' where
      m': "trunc_loop kv (first_or xs None) ?m (rel @ [a])
        = Some (first_or (dropWhile (\<lambda>x. dn_key (m x) < kv) xs) None, m', (rel @ [a]) @ takeWhile (\<lambda>x. dn_key (m x) < kv) xs)"
      "\<forall>y. y \<notin> set (takeWhile (\<lambda>x. dn_key (m x) < kv) xs) \<longrightarrow> m' y = ?m y" by blast
    have "trunc_loop kv (first_or (a # xs) None) m rel = trunc_loop kv (first_or xs None) ?m (rel @ [a])"
      using Cons.prems(1) True by (subst trunc_loop.simps) simp
    with m' True show ?thesis by auto
  next
    case False
    then show ?thesis by (subst trunc_loop.simps) simp
  qed
qed

lemma trunc_ok:
  fixes kv :: real
  assumes "dl_ok l xs"
  defines "P \<equiv> \<lambda>x. dn_key (dl_mem l x) < kv"
  shows "\<exists>l'. list_trunc kv l = Some (Inr (takeWhile P xs, l')) \<and> dl_ok l' (dropWhile P xs) \<and> dl_tail l' = dl_tail l"
proof (cases "xs = []")
  case True
  then show ?thesis using assms by (simp add: list_trunc_def dl_ok_def)
next
  case False
  let ?d = "dropWhile P xs" and ?t = "takeWhile P xs"
  have l: "dl_head l = first_or xs None" "dl_size l = length xs" "dl_tail l = Some (last xs)" "distinct xs" "linked (dl_mem l) None xs None"
    using assms False by (simp_all add: dl_ok_def)
  from trunc_loop_ok [OF l(5,4), of kv "[]"] obtain m' where
    m': "trunc_loop kv (dl_head l) (dl_mem l) [] = Some (first_or ?d None, m', ?t)" "\<And>y. y \<notin> set ?t \<Longrightarrow> m' y = dl_mem l y"
    unfolding P_def l(1) by auto
  have sp: "?t @ ?d = xs" by (rule takeWhile_dropWhile_id)
  then have len: "length xs - length ?t = length ?d" and dj: "set ?t \<inter> set ?d = {}" "distinct ?d" and lk: "linked (dl_mem l) (last_or None ?t) ?d None"
    using l(4,5) by (metis length_append diff_add_inverse, metis distinct_append, metis distinct_append, metis linked_append)
  show ?thesis
  proof (cases ?d)
    case Nil
    then have t: "?t = xs" by simp
    show ?thesis using m'(1) l False unfolding Nil t by (simp add: list_trunc_def dl_ok_def)
  next
    case (Cons h ws)
    let ?l = "l\<lparr>dl_mem := m'(h := (m' h)\<lparr>dn_prev := None\<rparr>), dl_head := Some h, dl_size := length ?d\<rparr>"
    have "list_trunc kv l = Some (Inr (?t, ?l))" using m'(1) l(2) False len Cons by (simp add: list_trunc_def set_prev_def)
    moreover have "linked (dl_mem ?l) None ?d None"
      unfolding Cons using lk dj m'(2) by (intro linked_unlinked_prev [of "dl_mem l" "last_or None ?t"]) (auto simp: Cons)
    moreover have "last xs = last (?t @ ?d)" by (simp only: sp)
    then have "last xs = last ?d" using Cons by simp
    ultimately show ?thesis using l(3) dj(2) Cons by (simp add: dl_ok_def)
  qed
qed

text \<open>C33: A list of list.h is a list. When a list holds the nodes xs, linked in both directions from head
  to tail, every macro ends without following a null pointer and leaves a list again: inserting at
  the tail or the head adds the node there; inserting by key puts it behind all nodes but those at
  the end with larger keys, so that keys in order stay in order; popping takes the first node
  away, detaching the given one wherever it is, truncating the nodes at the start with keys below the bound, in
  their order.
\<close>

theorem dlist_refines_list:
  assumes "dl_ok l xs" "a \<notin> set xs"
  shows "(\<exists>l'. list_insert_tail a l = Inr l' \<and> dl_ok l' (xs @ [a]))
    \<and> (\<exists>l'. list_insert_head a l = Inr l' \<and> dl_ok l' (a # xs))
    \<and> (\<exists>l' us vs. list_insert a l = Some (Inr l') \<and> us @ vs = xs \<and> dl_ok l' (us @ a # vs)
         \<and> (sorted (map (\<lambda>x. dn_key (dl_mem l x)) xs) \<longrightarrow> sorted (map (\<lambda>x. dn_key (dl_mem l' x)) (us @ a # vs))))
    \<and> (\<exists>l'. list_pop l = Inr l' \<and> dl_ok l' (tl xs))
    \<and> (\<forall>us b vs. xs = us @ b # vs \<longrightarrow> (\<exists>l'. list_detach_by_content b l = Inr l' \<and> dl_ok l' (us @ vs)))
    \<and> (\<forall>kv. \<exists>l'. list_trunc kv l = Some (Inr (takeWhile (\<lambda>x. dn_key (dl_mem l x) < kv) xs, l'))
         \<and> dl_ok l' (dropWhile (\<lambda>x. dn_key (dl_mem l x) < kv) xs))"
proof (intro conjI allI impI)
  show "\<exists>l'. list_insert_tail a l = Inr l' \<and> dl_ok l' (xs @ [a])" using insert_tail_ok [OF assms] by blast
  show "\<exists>l'. list_insert_head a l = Inr l' \<and> dl_ok l' (a # xs)" using insert_head_ok [OF assms] by blast
  from list_insert_ok [OF assms] obtain l' where l': "list_insert a l = Some (Inr l')" "keys_kept l l'"
    "dl_ok l' (upto_key (dl_mem l) (dn_key (dl_mem l a)) xs @ a # above_key (dl_mem l) (dn_key (dl_mem l a)) xs)" by blast
  have "(\<lambda>x. dn_key (dl_mem l' x)) = (\<lambda>x. dn_key (dl_mem l x))" using l'(2) by (simp add: keys_kept_def)
  with l'(1,3) show "\<exists>l' us vs. list_insert a l = Some (Inr l') \<and> us @ vs = xs \<and> dl_ok l' (us @ a # vs)
      \<and> (sorted (map (\<lambda>x. dn_key (dl_mem l x)) xs) \<longrightarrow> sorted (map (\<lambda>x. dn_key (dl_mem l' x)) (us @ a # vs)))"
    using key_split insert_sorted [of "dl_mem l" xs a] by metis
  show "\<exists>l'. list_pop l = Inr l' \<and> dl_ok l' (tl xs)" using pop_ok [OF assms(1)] by blast
  show "\<exists>l'. list_detach_by_content b l = Inr l' \<and> dl_ok l' (us @ vs)" if "xs = us @ b # vs" for us b vs
    using detach_ok assms(1) that by blast
  show "\<exists>l'. list_trunc kv l = Some (Inr (takeWhile (\<lambda>x. dn_key (dl_mem l x) < kv) xs, l'))
      \<and> dl_ok l' (dropWhile (\<lambda>x. dn_key (dl_mem l x) < kv) xs)" for kv
    using trunc_ok [OF assms(1)] by blast
qed

definition example_dlist :: dlist where
  "example_dlist = \<lparr>dl_size = 2, dl_head = Some 7, dl_tail = Some 9, dl_mem = (\<lambda>x. \<lparr>dn_prev = (if x = 9 then Some 7 else None),
     dn_next = (if x = 7 then Some 9 else None), dn_key = real x\<rparr>)\<rparr>"

theorem dlist_refines_list_witness:
  "\<exists>l' us vs. list_insert 8 example_dlist = Some (Inr l') \<and> us @ vs = [7, 9] \<and> dl_ok l' (us @ 8 # vs)
     \<and> sorted (map (\<lambda>x. dn_key (dl_mem l' x)) (us @ 8 # vs))"
proof -
  have "dl_ok example_dlist [7, 9]" "sorted (map (\<lambda>x. dn_key (dl_mem example_dlist x)) [7, 9])"
    by (simp_all add: dl_ok_def example_dlist_def)
  moreover have "8 \<notin> set [7, 9 :: nat]" by simp
  ultimately show ?thesis using dlist_refines_list [of example_dlist "[7, 9]" 8] by blast
qed

text \<open>Popping, or truncating, the last node leaves the tail pointer at the node that was taken out.\<close>

lemma stale_tail:
  assumes "dl_ok l [a]"
  shows "\<exists>l'. list_pop l = Inr l' \<and> list_empty l' \<and> dl_tail l' = Some a"
    "dn_key (dl_mem l a) < kv \<Longrightarrow> \<exists>l'. list_trunc kv l = Some (Inr ([a], l')) \<and> list_empty l' \<and> dl_tail l' = Some a"
  using pop_ok [OF assms] trunc_ok [OF assms, of kv] assms by (auto simp: dl_ok_def list_empty_def)

end
