(* ===== verification/Distributions.thy ===== *)
theory Distributions
  imports Rng
begin

text \<open>
  The distributions of ROOT-Sim_rng/src/random.c that the simulator does not use: RandomRangeNonUniform,
  Gamma, Zipf. As in Rng doubles are reals, the loops that draw until a draw fits have fuel, and
  running out of it is a fault. C leaves the order of the two draws of RandomRangeNonUniform open;
  here the left one comes first. A division by zero on doubles gives an infinity or no number: where
  the code returns such a value the result is None.

  The results: every value returned is within the bounds of its distribution.
\<close>

text \<open>The remainder of a C division has the sign of the dividend, and a divisor 0 stops the program.\<close>

definition c_rem :: "int \<Rightarrow> int \<Rightarrow> int" where
  "c_rem a b = (if a < 0 then - (- a mod \<bar>b\<bar>) else a mod \<bar>b\<bar>)"

definition RandomRangeNonUniform :: "rng_t \<Rightarrow> int \<Rightarrow> int \<Rightarrow> int \<Rightarrow> (int \<times> rng_t) res" where
  "RandomRangeNonUniform ctx x mn mx =
     bindR (RandomRange ctx 0 x) (\<lambda>(a, ctx).
     bindR (RandomRange ctx mn mx) (\<lambda>(b, ctx).
     bindR (guardR (mx - mn + 1 \<noteq> 0) Abort) (\<lambda>_.
       Inr (c_rem (or a b) (mx - mn + 1) + mn, ctx))))"

subsection \<open>Gamma\<close>

text \<open>The direct method: a product of ia draws.\<close>

fun gamma_direct :: "nat \<Rightarrow> rng_t \<Rightarrow> real \<Rightarrow> (real \<times> rng_t) res" where
  "gamma_direct 0 ctx x = Inr (x, ctx)"
| "gamma_direct (Suc ia) ctx x = bindR (Random ctx) (\<lambda>(r, ctx). gamma_direct ia ctx (x * (1 - r)))"

text \<open>The inner loop: a point of the half disc.\<close>

fun gamma_point :: "nat \<Rightarrow> rng_t \<Rightarrow> (real \<times> real \<times> rng_t) res" where
  "gamma_point 0 ctx = Inl OutOfFuel"
| "gamma_point (Suc fuel) ctx =
     bindR (Random ctx) (\<lambda>(v1, ctx).
     bindR (Random ctx) (\<lambda>(r, ctx).
       let v2 = 2 * r - 1 in
       if v1 * v1 + v2 * v2 > 1 then gamma_point fuel ctx else Inr (v1, v2, ctx)))"

text \<open>
  The rejection method. For v1 = 0 the quotient y is infinite or no number: with v2 below 0 the
  point is rejected, else the comparison with a draw is false and the loop ends with no finite
  number.
\<close>

fun gamma_loop :: "nat \<Rightarrow> rng_t \<Rightarrow> real \<Rightarrow> (real option \<times> rng_t) res" where
  "gamma_loop 0 ctx am = Inl OutOfFuel"
| "gamma_loop (Suc fuel) ctx am =
     bindR (gamma_point (Suc fuel) ctx) (\<lambda>(v1, v2, ctx).
       if v1 = 0 then
         (if v2 < 0 then gamma_loop fuel ctx am else bindR (Random ctx) (\<lambda>(_, ctx). Inr (None, ctx)))
       else
         let y = v2 / v1; s = sqrt (2 * am + 1) * y; x = s + am in
         if x < 0 then gamma_loop fuel ctx am
         else bindR (Random ctx) (\<lambda>(r, ctx).
           if r > (1 + y * y) * exp (am * ln (x / am) - s) then gamma_loop fuel ctx am else Inr (Some x, ctx)))"

definition Gamma :: "nat \<Rightarrow> rng_t \<Rightarrow> u32 \<Rightarrow> (real option \<times> rng_t) res" where
  "Gamma fuel ctx ia =
     (if ia < 6 then bindR (gamma_direct (unat ia) ctx 1) (\<lambda>(x, ctx). Inr (Some (- ln x), ctx))
      else gamma_loop fuel ctx (real (unat (ia - 1))))"

subsection \<open>Zipf\<close>

text \<open>For a positive skew. The draw 0 gives an infinite x, which is above any limit.\<close>

fun zipf_loop :: "nat \<Rightarrow> rng_t \<Rightarrow> real \<Rightarrow> u32 \<Rightarrow> real \<Rightarrow> (int \<times> rng_t) res" where
  "zipf_loop 0 ctx skew limit b = Inl OutOfFuel"
| "zipf_loop (Suc fuel) ctx skew limit b =
     bindR (Random ctx) (\<lambda>(u, ctx).
       if u = 0 then zipf_loop fuel ctx skew limit b
       else
         let x = real_of_int \<lfloor>u powr (- 1 / skew - 1)\<rfloor>; t = (1 + 1 / x) powr (skew - 1) in
         if x > real (unat limit) then zipf_loop fuel ctx skew limit b
         else bindR (Random ctx) (\<lambda>(r, ctx).
           if r * x * (t - 1) * b > t * (b - 1) then zipf_loop fuel ctx skew limit b else Inr (\<lfloor>x\<rfloor>, ctx)))"

definition Zipf :: "nat \<Rightarrow> rng_t \<Rightarrow> real \<Rightarrow> u32 \<Rightarrow> (int \<times> rng_t) res" where
  "Zipf fuel ctx skew limit = zipf_loop fuel ctx skew limit (2 powr (skew - 1))"

subsection \<open>The ranges\<close>

lemma RandomRangeNonUniform_bounds:
  assumes "RandomRangeNonUniform ctx x mn mx = Inr (i, ctx')" "0 \<le> x" "0 \<le> mn" "mn \<le> mx"
  shows "mn \<le> i" "i \<le> mx"
proof -
  from assms(1) obtain a c1 b c2 where a: "RandomRange ctx 0 x = Inr (a, c1)" and b: "RandomRange c1 mn mx = Inr (b, c2)"
    and i: "i = c_rem (or a b) (mx - mn + 1) + mn" by (auto simp: RandomRangeNonUniform_def res_simps)
  have "0 \<le> a" "0 \<le> b" using RandomRange_bounds(1) [OF a] RandomRange_bounds(1) [OF b] assms(2-4) by simp_all
  then have "0 \<le> or a b" by simp
  then have "i = or a b mod (mx - mn + 1) + mn" using i assms(4) by (simp add: c_rem_def)
  moreover have "0 < mx - mn + 1" using assms(4) by simp
  note pos_mod_sign [OF this, of "or a b"] pos_mod_bound [OF this, of "or a b"]
  ultimately show "mn \<le> i" "i \<le> mx" by linarith+
qed

lemma gamma_direct_range:
  "gamma_direct n ctx x = Inr (y, ctx') \<Longrightarrow> 0 < x \<Longrightarrow> x \<le> 1 \<Longrightarrow> 0 < y \<and> y \<le> 1"
proof (induction n arbitrary: ctx x)
  case (Suc n)
  then obtain r c where r: "Random ctx = Inr (r, c)" "gamma_direct n c (x * (1 - r)) = Inr (y, ctx')" by (auto simp: res_simps)
  from Random_range [OF r(1)] Suc.prems(2,3) have "0 < x * (1 - r)" "x * (1 - r) \<le> 1 * 1"
    by (simp, intro mult_mono) auto
  then show ?case using Suc.IH [OF r(2)] by simp
qed simp

lemma gamma_loop_range: "gamma_loop fuel ctx am = Inr (Some x, ctx') \<Longrightarrow> 0 \<le> x"
proof (induction fuel arbitrary: ctx)
  case (Suc fuel)
  obtain v1 v2 c where p: "gamma_point (Suc fuel) ctx = Inr (v1, v2, c)"
    using Suc.prems by (cases "gamma_point (Suc fuel) ctx") (auto simp del: gamma_point.simps)
  show ?case using Suc.prems Suc.IH p by (auto simp: Let_def res_simps simp del: gamma_point.simps split: if_splits)
qed simp

lemma Gamma_nonneg: "Gamma fuel ctx ia = Inr (Some x, ctx') \<Longrightarrow> 0 \<le> x"
  using gamma_direct_range gamma_loop_range by (auto simp: Gamma_def res_simps split: if_splits)

lemma zipf_loop_range:
  "zipf_loop fuel ctx skew limit b = Inr (i, ctx') \<Longrightarrow> 0 < skew \<Longrightarrow> 1 \<le> i \<and> i \<le> int (unat limit)"
proof (induction fuel arbitrary: ctx)
  case (Suc fuel)
  from Suc.prems(1) obtain u c where u: "Random ctx = Inr (u, c)" by (auto simp: res_simps)
  define x where "x = real_of_int \<lfloor>u powr (- 1 / skew - 1)\<rfloor>"
  show ?case
  proof (cases "u = 0 \<or> x > real (unat limit)")
    case True
    then have "zipf_loop fuel c skew limit b = Inr (i, ctx')" using Suc.prems(1) u by (cases "u = 0") (simp_all add: x_def Let_def)
    then show ?thesis using Suc.IH Suc.prems(2) by blast
  next
    case False
    then obtain r c2 where r: "Random c = Inr (r, c2)"
      using Suc.prems(1) u by (auto simp: x_def Let_def res_simps)
    have "0 \<le> u" "u < 1" using Random_range [OF u] by auto
    moreover have "- 1 / skew - 1 \<le> 0" using order_trans [of "- 1" 0 "1 / skew"] Suc.prems(2) by simp
    ultimately have "1 \<le> u powr (- 1 / skew - 1)" using False powr_mono' [of "- 1 / skew - 1" 0 u] by simp
    then have "1 \<le> \<lfloor>u powr (- 1 / skew - 1)\<rfloor>" by simp
    moreover have "x \<le> real_of_int (int (unat limit))" using False by simp
    then have "\<lfloor>u powr (- 1 / skew - 1)\<rfloor> \<le> int (unat limit)" unfolding x_def by (simp only: of_int_le_iff)
    ultimately show ?thesis using Suc False u r unfolding x_def by (auto simp: Let_def split: if_splits)
  qed
qed simp

lemma Zipf_bounds: "Zipf fuel ctx skew limit = Inr (i, ctx') \<Longrightarrow> 0 < skew \<Longrightarrow> 1 \<le> i \<and> i \<le> int (unat limit)"
  unfolding Zipf_def by (rule zipf_loop_range)

end
