(* ===== verification/Init.thy ===== *)
theory Init
  imports RootSim
begin

text \<open>
  The entry points of the core (init.c): RootsimInit checks and completes the configuration, and
  RootsimRun runs the engine that was chosen. The function pointers of the model enter as whether they are
  set; what is printed, the log and the set up of the engines, which are in Serial and
  Parallel, are left out.
\<close>

record simulation_configuration =
  sc_lps :: u64
  sc_n_threads :: u32
  sc_termination_time :: simtime
  sc_serial :: bool
  sc_dispatcher :: bool
  sc_committed :: bool

text \<open>The variables global_config and configuration_done.\<close>

record init_state =
  global_config :: simulation_configuration
  configuration_done :: bool

definition RootsimInit :: "u32 \<Rightarrow> simulation_configuration \<Rightarrow> init_state \<Rightarrow> int \<times> init_state" where
  "RootsimInit cores conf s =
     (let s = s\<lparr>global_config := conf\<rparr> in
      if sc_lps conf = 0 then (- 1, s)
      else if \<not> sc_dispatcher conf \<or> \<not> sc_committed conf then (- 1, s)
      else if sc_n_threads conf > cores then (- 1, s)
      else
        let g = (if sc_termination_time conf = 0 then conf\<lparr>sc_termination_time := SIMTIME_MAX\<rparr> else conf);
            g = (if sc_serial g then g\<lparr>sc_n_threads := 1\<rparr>
                 else if sc_n_threads g = 0 then g\<lparr>sc_n_threads := cores\<rparr> else g)
        in (0, s\<lparr>global_config := g, configuration_done := True\<rparr>))"

text \<open>The engines return their result.\<close>

definition RootsimRun :: "int \<Rightarrow> int \<Rightarrow> init_state \<Rightarrow> int" where
  "RootsimRun serial_simulation parallel_simulation s =
     (if \<not> configuration_done s then - 1
      else if sc_serial (global_config s) then serial_simulation else parallel_simulation)"

text \<open>
  What an accepted configuration gives to the engines, and that a refused one never runs unless
  one was accepted before.
\<close>

lemma RootsimInit_accepts:
  assumes "RootsimInit cores conf s = (ret, s')" "0 < cores"
  shows "ret = 0 \<longleftrightarrow> 0 < sc_lps conf \<and> sc_dispatcher conf \<and> sc_committed conf \<and> sc_n_threads conf \<le> cores"
    "ret = 0 \<Longrightarrow> 1 \<le> sc_n_threads (global_config s') \<and> sc_n_threads (global_config s') \<le> cores
       \<and> sc_termination_time (global_config s') \<noteq> 0"
    "ret \<noteq> 0 \<Longrightarrow> configuration_done s' = configuration_done s"
proof -
  have c: "1 \<le> cores" using assms(2) by (simp add: word_le_nat_alt word_less_nat_alt)
  have n: "1 \<le> x" if "x \<noteq> 0" for x :: u32
    using that by (simp add: word_le_nat_alt unat_gt_0 Suc_le_eq)
  have m: "SIMTIME_MAX \<noteq> 0" by (simp add: SIMTIME_MAX_def)
  show "ret = 0 \<longleftrightarrow> 0 < sc_lps conf \<and> sc_dispatcher conf \<and> sc_committed conf \<and> sc_n_threads conf \<le> cores"
    using assms(1) by (auto simp: RootsimInit_def Let_def word_neq_0_conv split: if_splits)
  show "ret = 0 \<Longrightarrow> 1 \<le> sc_n_threads (global_config s') \<and> sc_n_threads (global_config s') \<le> cores
       \<and> sc_termination_time (global_config s') \<noteq> 0"
    using assms(1) c m n [of "sc_n_threads conf"] by (auto simp: RootsimInit_def Let_def split: if_splits)
  show "ret \<noteq> 0 \<Longrightarrow> configuration_done s' = configuration_done s"
    using assms(1) by (auto simp: RootsimInit_def Let_def split: if_splits)
qed

text \<open>A second configuration that is refused has nevertheless replaced the first one, and a run uses it.\<close>

lemma refused_configuration_runs:
  assumes "RootsimInit cores conf s = (ret, s')" "ret \<noteq> 0" "configuration_done s" "sc_serial conf"
  shows "global_config s' = conf" "RootsimRun serial par s' = serial"
  using assms by (auto simp: RootsimInit_def RootsimRun_def Let_def split: if_splits)

end
