(* ===== verification/Spec2Isabelle.thy ===== *)
theory Spec2Isabelle
  imports Options Gossip ModelMem GvtSafe Sync SimStats Fossil Control DList Distributions Init
begin

text \<open>
  RBlockSim, a simulator of blockchain networks with selfish and 51 percent attackers
  (src/RBlockSim), and the ROOT-Sim discrete event simulation core it runs on
  (src/ROOT-Sim_core, src/ROOT-Sim_rng).

  \<^bold>\<open>The program.\<close> A run reads its options, draws the attackers, and starts the core with one logical
  process for each node of the simulated network. The core calls ProcessEvent of RBlockSim.c for every event
  of a node; the handler changes the node's state (its chain, transactions and statistics), sends
  blocks to peers as new events, and sets the time at which the node mines its next block, its
  retractable event. The core is either sequential (serial/serial.c) or parallel: threads process
  messages optimistically, take checkpoints, roll back when a message comes late (Time Warp), agree
  on a global virtual time (GVT) below which nothing is rolled back, free what is below it, and
  vote to end.

  \<^bold>\<open>How code becomes definitions.\<close> A struct is a record with the fields of the struct, an enum or a
  tagged union a datatype, an unsigned integer a word of its width where it can wrap and a natural
  number where the code keeps it small, a function, or macro, a definition of the same name; a loop is a
  recursive function or while_option. abort, exit, an access outside an array, a null pointer, the
  wrong member of a union, memory read too early or too late are the values \<open>Inl\<close> of the type
  \<open>res\<close> of Prelude. Where the static variables of a file belong together they are one record, passed
  along and returned. A pointer is an address or an index: a chain node is the pair of its height and its place in the
  level, a message an address of the store of MsgAlloc, a block of memory the number of its first byte.

  \<^bold>\<open>The simulator.\<close>
  \<^item> Bitmap: external/bitmap.h (the same text as datatypes/bitmap.h of the core); each macro does to the set of marked indexes what its name says,
    but bitmap_first_reset does not.
  \<^item> Xxtea, Rng, Distributions: the cipher that seeds a stream of random numbers, the generator, its distributions;
    decoding undoes encoding, steps are injective, the range of Random.
  \<^item> Config, Attacks: the settings of a run (the argument \<open>env\<close> of the handlers) and the choice of attackers.
  \<^item> Stats, StatsFiles: Statistics.c, its counters and records, and the text and bytes of its files,
    which can be read back.
  \<^item> Delay, Network: Network.c; the draws of gossip, when they end, and which events they make. Gossip: whom gossip
    reaches. Transaction: Transaction.c; which transactions a block gets.
  \<^item> Chain, ChainTree, Switch, Blocks: Block.c, from the data over the switch of chains to receiving
    a block. Undo is the contract, a locale, of effects that can be taken back; transactions, statistics and
    the pair of both are interpretations of it, and switching chains is proved with it.
  \<^item> Ledger: the invariant that ties chain, transactions and statistics of a node together, kept by
    addBlock; Mining: what mining, receiving and the two comparisons of chains do.
  \<^item> Node: ProcessEvent with every handler of RBlockSim.c; NodeInv: the invariant of a node between events,
    kept by mining and receiving, and what an attacker releases.
  \<^item> Options: main and handle_options; the bounds of the configuration that comes out.

  \<^bold>\<open>The core.\<close>
  \<^item> DynArray, Heap, RHeap: the macros of datatypes/array.h, heap.h and retractable_heap.h. The locale
    priority_queue is what the engines rely on; the binary heap provides it for every weak order. DList:
    the linked lists of datatypes/list.h, which nothing uses yet.
  \<^item> Msg, MsgAlloc, MsgQueue, Retractable, RootSim: messages and their order, their allocator, the queue of a
    thread, retractable events.
  \<^item> Serial: the sequential engine; each turn handles a first pending event.
  \<^item> Worker, Process: a worker thread and lp/process.c, with the parts of gvt.c, termination.c, mpi.c
    and multi.c a thread uses while it processes messages, and fossil.c. TimeWarp, Straggler, TwProps: the abstract
    specification, replay of the processed messages, and that rollback and late messages
    refine it; the counts on which a thread votes.
  \<^item> AutoCkpt: the interval between checkpoints. Buddy, Ckpt, ModelMem: the memory of processes, from
    the tree of a buddy system over the walk that copies its blocks to rs_malloc, rs_free and whole checkpoints.
    TimeWarp takes the memory of a process as one value, which ModelMem justifies: a restored checkpoint has every allocated byte again.
  \<^item> Lp: the placement of processes on nodes and threads. Parallel: the start, a turn and the end of a
    worker thread, which put the parts together. ThreadInv: all processes of a thread at once, the
    invariant that Parallel establishes and that handling messages keeps. Fossil: what is below the
    GVT is freed and nothing that can still be needed.
  \<^item> Threads, Gvt, GvtSafe: the reduction of the GVT; every interleaving of the threads of a node.
    Sync: the barrier of threads. Termination: votes and messages between nodes, RootsimStop, and that nodes
    stop only when all have voted, no thread votes at the termination time and nobody calls RootsimStop.
  \<^item> Init: the entry points of the core. Control: the control messages of libraries. SimStats: log/stats.c with the
    reader of its file, rootsim_stats.py, up to the tables it derives; it cuts all nodes and threads to the GVTs that all saw.

  \<^bold>\<open>Kinds of results.\<close> Invariants kept by every operation (ledger, node, buddy system, heaps, Time
  Warp process, thread), exact results of operations on every branch, refinements (chains as logs
  that are undone, rollback as replay, the registry of handlers as a list), safety under every
  interleaving (GVT, barrier, termination) and of fossil collection, liveness (a reduction ends when every thread keeps
  calling), round trips (cipher, checkpoints, files), and lemmas that show where the code does not
  do what it says; those stand next to the definitions they are about. The concrete instances that
  satisfy the hypotheses are the theorems whose names end in \<open>_witness\<close>.

  \<^bold>\<open>Loops.\<close> A bound given to a loop is shown to be enough where the result is stated. switch_fuel of Switch and
  unorphan_fuel of Blocks are more than the levels a chain holds: each turn goes one level up or
  down. VISIT_FUEL (4096) exceeds three times the number of nodes of a buddy tree; FIND_FUEL (33) the halvings of an
  array of 2 to the 32 elements. The loops that draw random numbers (gossip, Normal, Gamma, Zipf) have a bound as argument, and the
  lemmas say when they end: exactly when a draw hits. The sequential loop takes the readings of the timer as a list. The search for the first process of a
  part and the growth of arrays are while loops whose result is None when they do not end; they are shown to end, or the bound from which on they do not.
  Limits of the program itself (2048 detailed records, 65536 nodes, 4096 threads) appear in the statements.

  \<^bold>\<open>What is assumed.\<close> Doubles are real numbers: rounding, infinities and nan are not modelled, so that a
  quotient that may not be finite is None. The machine is little endian with 64 bit pointers. Atomic operations
  act one after the other, in an order that all threads see. An allocation by the system succeeds. The results of MPI
  reductions, and the messages MPI delivers, are arguments; messages neither get lost nor change.
  The user's model is a parameter of the core, a function of the state of a process and an event.

  \<^bold>\<open>Not modelled.\<close> Topology.c: peer lists, produced by a script; an argument. arch/: system calls for
  threads, memory and terminals. distributed/mpi.c apart from what it is given and what becomes of what it delivers, and
  no_mpi.c, its stub. log/log.c, log/file.c, printing everywhere.
  Incremental checkpoints, which the build leaves out, with their bitmaps. gvt_msg_drain, which loops over gvt_phase_run and
  drops what MPI still delivers. The choice of memory orders of atomic operations.
  CBlockSim, the simulator the repository compares with, is an empty submodule.
\<close>

end
